(* ===== verification/C_Prelude.thy ===== *)
theory C_Prelude
  imports Main "HOL-Library.Multiset" "HOL-Library.Word"
begin

text \<open>
  Shared base of the development: what the C and C++ sources use of their language.

  \<^item> A run of the code either ends normally or stops with an undefined or aborting
    operation (a null dereference, an access outside an array, a failed assertion, signed
    overflow, exhausted memory). A result is a value of the sum \<open>cerr + 'a\<close>: \<open>Inl\<close>
    names the failure, \<open>Inr\<close> carries the value. \<open>bindr\<close> sequences such runs.
  \<^item> \<open>load\<close> and \<open>store\<close> are array accesses: out of range they fail, because neither
    language checks an index and HOL's \<open>!\<close> would hide it.
  \<^item> \<open>int_add\<close> and its kin are 32-bit signed arithmetic, where overflow is undefined.

  The collections \<open>res_simps\<close> and \<open>mem_simps\<close> carry the rewriting of the component proofs.
\<close>

named_theorems res_simps "sequencing of fallible runs"
named_theorems mem_simps "array loads and stores"

section \<open>Failures and their sequencing\<close>

datatype cerr =
    NullDeref        \<comment> \<open>a null pointer is dereferenced\<close>
  | OutOfBounds      \<comment> \<open>an array is accessed outside its cells\<close>
  | AssertFail       \<comment> \<open>\<open>assert\<close> aborts\<close>
  | SignedOverflow   \<comment> \<open>signed arithmetic leaves its type\<close>
  | BadShift         \<comment> \<open>a shift by a negative count or by the width or more\<close>
  | UninitRead       \<comment> \<open>a cell is read before it is written\<close>
  | Overlap          \<comment> \<open>source and destination of a copy overlap\<close>
  | MissingReturn    \<comment> \<open>a C++ function with a result ends without \<open>return\<close>\<close>
  | Exited           \<comment> \<open>the code calls \<open>exit\<close>\<close>
  | OutOfFuel        \<comment> \<open>a loop ran longer than its bound: it does not return\<close>

definition bindr :: "cerr + 'a \<Rightarrow> ('a \<Rightarrow> cerr + 'b) \<Rightarrow> cerr + 'b" where
  "bindr m f = (case m of Inl e \<Rightarrow> Inl e | Inr x \<Rightarrow> f x)"

definition assertr :: "bool \<Rightarrow> cerr + unit" where
  "assertr b = (if b then Inr () else Inl AssertFail)"

definition deref :: "'a option \<Rightarrow> cerr + 'a" where
  "deref p = (case p of None \<Rightarrow> Inl NullDeref | Some x \<Rightarrow> Inr x)"

lemma bindr_simps [simp]:
  "bindr (Inr x) f = f x" "bindr (Inl e) f = Inl e"
  by (simp_all add: bindr_def)

lemma bindr_eq_Inr [res_simps]:
  "bindr m f = Inr y \<longleftrightarrow> (\<exists>x. m = Inr x \<and> f x = Inr y)"
  by (cases m) auto

lemma bindr_eq_Inl [res_simps]:
  "bindr m f = Inl e \<longleftrightarrow> m = Inl e \<or> (\<exists>x. m = Inr x \<and> f x = Inl e)"
  by (cases m) auto

lemma bindr_assoc: "bindr (bindr m f) g = bindr m (\<lambda>x. bindr (f x) g)"
  by (cases m) auto

lemma bindr_cong [fundef_cong]:
  "m = m' \<Longrightarrow> (\<And>x. m' = Inr x \<Longrightarrow> f x = f' x) \<Longrightarrow> bindr m f = bindr m' f'"
  by (cases m') auto

lemma assertr_simps [simp]:
  "assertr True = Inr ()" "assertr False = Inl AssertFail"
  by (simp_all add: assertr_def)

lemma assertr_eq_Inr [res_simps]: "assertr b = Inr u \<longleftrightarrow> b"
  by (simp add: assertr_def)

lemma deref_simps [simp]:
  "deref (Some x) = Inr x" "deref None = Inl NullDeref"
  by (simp_all add: deref_def)

lemma deref_eq_Inr [res_simps]: "deref p = Inr x \<longleftrightarrow> p = Some x"
  by (cases p) auto

section \<open>Arrays\<close>

definition load :: "'a list \<Rightarrow> nat \<Rightarrow> cerr + 'a" where
  "load xs i = (if i < length xs then Inr (xs ! i) else Inl OutOfBounds)"

definition store :: "'a list \<Rightarrow> nat \<Rightarrow> 'a \<Rightarrow> cerr + 'a list" where
  "store xs i x = (if i < length xs then Inr (xs[i := x]) else Inl OutOfBounds)"

text \<open>An index of a signed type may be negative.\<close>

definition loadi :: "'a list \<Rightarrow> int \<Rightarrow> cerr + 'a" where
  "loadi xs i = (if i < 0 then Inl OutOfBounds else load xs (nat i))"

lemma loadi_in [mem_simps]: "0 \<le> i \<Longrightarrow> nat i < length xs \<Longrightarrow> loadi xs i = Inr (xs ! nat i)"
  by (simp add: loadi_def load_def)

lemma load_in [mem_simps]: "i < length xs \<Longrightarrow> load xs i = Inr (xs ! i)"
  by (simp add: load_def)

lemma store_in [mem_simps]: "i < length xs \<Longrightarrow> store xs i x = Inr (xs[i := x])"
  by (simp add: store_def)

lemma load_eq_Inr [res_simps]: "load xs i = Inr x \<longleftrightarrow> i < length xs \<and> x = xs ! i"
  by (auto simp: load_def)

lemma store_eq_Inr [res_simps]: "store xs i x = Inr ys \<longleftrightarrow> i < length xs \<and> ys = xs[i := x]"
  by (auto simp: store_def)

section \<open>Signed 32-bit arithmetic\<close>

abbreviation INT_MAX :: int where "INT_MAX \<equiv> 2147483647"
abbreviation INT_MIN :: int where "INT_MIN \<equiv> - 2147483648"

definition in_int :: "int \<Rightarrow> bool" where
  "in_int x \<longleftrightarrow> INT_MIN \<le> x \<and> x \<le> INT_MAX"

definition int_res :: "int \<Rightarrow> cerr + int" where
  "int_res x = (if in_int x then Inr x else Inl SignedOverflow)"

definition int_add :: "int \<Rightarrow> int \<Rightarrow> cerr + int" where
  "int_add a b = int_res (a + b)"

definition int_sub :: "int \<Rightarrow> int \<Rightarrow> cerr + int" where
  "int_sub a b = int_res (a - b)"

definition int_mul :: "int \<Rightarrow> int \<Rightarrow> cerr + int" where
  "int_mul a b = int_res (a * b)"

text \<open>\<open>int\<close> products and sums of non-negative operands. A conversion of a larger \<open>size_t\<close> to \<open>int\<close>
  is counted as an overflow too.\<close>

definition imul :: "nat \<Rightarrow> nat \<Rightarrow> cerr + nat" where
  "imul a b = (if a * b < 2 ^ 31 then Inr (a * b) else Inl SignedOverflow)"

definition iadd :: "nat \<Rightarrow> nat \<Rightarrow> cerr + nat" where
  "iadd a b = (if a + b < 2 ^ 31 then Inr (a + b) else Inl SignedOverflow)"

text \<open>For evaluation the bound is compared as an integer.\<close>

lemma imul_code [code]: "imul a b = (if int a * int b < 2147483648 then Inr (a * b) else Inl SignedOverflow)"
proof -
  have "a * b < 2 ^ 31 \<longleftrightarrow> int a * int b < 2147483648"
    using of_nat_less_iff [of "a * b" "2 ^ 31", where 'a = int] by simp
  then show ?thesis by (simp add: imul_def)
qed

lemma iadd_code [code]: "iadd a b = (if int a + int b < 2147483648 then Inr (a + b) else Inl SignedOverflow)"
proof -
  have "a + b < 2 ^ 31 \<longleftrightarrow> int a + int b < 2147483648"
    using of_nat_less_iff [of "a + b" "2 ^ 31", where 'a = int] by simp
  then show ?thesis by (simp add: iadd_def)
qed

lemma int_res_eq_Inr [res_simps]: "int_res x = Inr y \<longleftrightarrow> in_int x \<and> y = x"
  by (auto simp: int_res_def)

lemma int_add_in: "in_int (a + b) \<Longrightarrow> int_add a b = Inr (a + b)"
  by (simp add: int_add_def int_res_def)

lemma int_sub_in: "in_int (a - b) \<Longrightarrow> int_sub a b = Inr (a - b)"
  by (simp add: int_sub_def int_res_def)

lemma int_mul_in: "in_int (a * b) \<Longrightarrow> int_mul a b = Inr (a * b)"
  by (simp add: int_mul_def int_res_def)

section \<open>Unsigned sizes\<close>

abbreviation size_max :: nat where
  "size_max \<equiv> 18446744073709551616"

text \<open>\<open>a - b\<close> in \<open>size_t\<close>.\<close>

definition size_sub :: "nat \<Rightarrow> nat \<Rightarrow> nat" where
  "size_sub a b = (if b \<le> a then a - b else a + size_max - b)"

lemma size_sub_le [simp]: "b \<le> a \<Longrightarrow> size_sub a b = a - b"
  by (simp add: size_sub_def)

section \<open>Lists\<close>

lemma take_drop_split: "k \<le> n \<Longrightarrow> take n xs = take k xs @ take (n - k) (drop k xs)"
  by (metis le_add_diff_inverse take_add)

lemma drop_take_Cons: "i < n \<Longrightarrow> i < length xs \<Longrightarrow>
    drop i (take n xs) = xs ! i # drop (Suc i) (take n xs)"
  by (metis Cons_nth_drop_Suc length_take min_less_iff_conj nth_take)

lemma take_Suc_update: "k < length xs \<Longrightarrow> take (Suc k) (xs[k := x]) = take k xs @ [x]"
  by (simp add: take_Suc_conv_app_nth)

lemma sort_key_short: "length xs \<le> 1 \<Longrightarrow> sort_key f xs = xs"
  by (cases xs) auto

lemma find_append: "find P (xs @ ys) = (case find P xs of None \<Rightarrow> find P ys | Some x \<Rightarrow> Some x)"
  by (induction xs) auto

end
