(* ===== verification/Array_Sort.thy ===== *)
theory Array_Sort
  imports C_Prelude
begin

text \<open>
  Merge sort on arrays, \<^verbatim>\<open>src/algs/algorithms4th/sort.c\<close>.

  An array is a list of cells; a pointer into it is the list with an offset \<open>b\<close>, so that
  \<open>arr + m\<close> of the source is the offset \<open>b + m\<close>. The option record of function pointers
  (\<open>algs_sort_opt\<close>) keeps its null checks: each pointer is an \<open>option\<close>.
  The locale \<open>sort_opt\<close> states what the sort relies on of the comparison and the swap; its
  client lemmas show that the array becomes the stable sort of its old contents. It is
  interpreted on the callbacks the repository passes, \<open>int_cmp\<close> and \<open>int_swap\<close>.
\<close>

section \<open>Model\<close>

text \<open>The callbacks get the array they work on; \<open>compare\<close> says whether cell \<open>m\<close> is
  greater than cell \<open>n\<close>.\<close>

record 'a algs_sort_opt =
  compare :: "('a list \<Rightarrow> nat \<Rightarrow> nat \<Rightarrow> cerr + bool) option"
  swap :: "('a list \<Rightarrow> nat \<Rightarrow> nat \<Rightarrow> cerr + 'a list) option"
  size_cb :: "nat option"

text \<open>\<open>algs_sort_t\<close> is \<open>int\<close>, of four bytes.\<close>

definition int_size :: nat where
  "int_size = 4"

text \<open>\<open>memcpy\<close> of \<open>n\<close> cells out of the array at offset \<open>b\<close>.\<close>

definition copy_out :: "'a list \<Rightarrow> nat \<Rightarrow> nat \<Rightarrow> cerr + 'a list" where
  "copy_out arr b n =
     (if b + n \<le> length arr then Inr (take n (drop b arr)) else Inl OutOfBounds)"

text \<open>The loop of \<open>algs_msort_merge\<close>: \<open>i\<close> and \<open>j\<close> are the heads of the two halves of
  \<open>aux\<close>, \<open>k\<close> the cell of \<open>arr\<close> written next.\<close>

function algs_msort_merge_loop ::
  "('a list \<Rightarrow> nat \<Rightarrow> nat \<Rightarrow> cerr + bool) \<Rightarrow> 'a list \<Rightarrow> nat \<Rightarrow> nat \<Rightarrow> nat
     \<Rightarrow> nat \<Rightarrow> nat \<Rightarrow> nat \<Rightarrow> 'a list \<Rightarrow> cerr + 'a list" where
  "algs_msort_merge_loop cmp aux m n b i j k arr =
     (if k < n then
        if i \<ge> m then
          bindr (load aux j) (\<lambda>x. bindr (store arr (b + k) x)
            (\<lambda>arr'. algs_msort_merge_loop cmp aux m n b i (Suc j) (Suc k) arr'))
        else if j \<ge> n then
          bindr (load aux i) (\<lambda>x. bindr (store arr (b + k) x)
            (\<lambda>arr'. algs_msort_merge_loop cmp aux m n b (Suc i) j (Suc k) arr'))
        else bindr (cmp aux i j) (\<lambda>gt.
          if gt then
            bindr (load aux j) (\<lambda>x. bindr (store arr (b + k) x)
              (\<lambda>arr'. algs_msort_merge_loop cmp aux m n b i (Suc j) (Suc k) arr'))
          else
            bindr (load aux i) (\<lambda>x. bindr (store arr (b + k) x)
              (\<lambda>arr'. algs_msort_merge_loop cmp aux m n b (Suc i) j (Suc k) arr')))
      else Inr arr)"
  by pat_completeness auto
termination
  by (relation "measure (\<lambda>(cmp, aux, m, n, b, i, j, k, arr). n - k)") auto

declare algs_msort_merge_loop.simps [simp del]

text \<open>The number of bytes \<open>n * opt.size()\<close> is an \<open>int\<close> product. \<open>malloc\<close> succeeds; the buffer holds as many whole cells as were asked for.\<close>

definition algs_msort_merge ::
  "'a list \<Rightarrow> 'a algs_sort_opt \<Rightarrow> nat \<Rightarrow> nat \<Rightarrow> nat \<Rightarrow> cerr + 'a list" where
  "algs_msort_merge arr opt b m n =
     bindr (assertr (compare opt \<noteq> None \<and> size_cb opt \<noteq> None)) (\<lambda>_.
     bindr (imul n (the (size_cb opt))) (\<lambda>bytes.
     bindr (copy_out arr b (bytes div int_size)) (\<lambda>aux.
     algs_msort_merge_loop (the (compare opt)) aux m n b 0 m 0 arr)))"

function algs_msort_r ::
  "'a list \<Rightarrow> 'a algs_sort_opt \<Rightarrow> nat \<Rightarrow> nat \<Rightarrow> cerr + 'a list" where
  "algs_msort_r arr opt b n =
     (if n \<le> 1 then Inr arr
      else let m = n div 2 in
        bindr (algs_msort_r arr opt b m) (\<lambda>arr1.
        bindr (algs_msort_r arr1 opt (b + m) (n - m)) (\<lambda>arr2.
        algs_msort_merge arr2 opt b m n)))"
  by pat_completeness auto
termination
  by (relation "measure (\<lambda>(arr, opt, b, n). n)") auto

declare algs_msort_r.simps [simp del]

text \<open>\<open>algs_msort_desc\<close> swaps cell \<open>i\<close> with cell \<open>n - 1 - i\<close> for \<open>i < n / 2\<close>.\<close>

fun algs_msort_desc_loop ::
  "('a list \<Rightarrow> nat \<Rightarrow> nat \<Rightarrow> cerr + 'a list) \<Rightarrow> nat \<Rightarrow> nat list \<Rightarrow> 'a list \<Rightarrow> cerr + 'a list" where
  "algs_msort_desc_loop sw n [] arr = Inr arr"
| "algs_msort_desc_loop sw n (i # is) arr =
     bindr (sw arr i (n - 1 - i)) (\<lambda>arr'. algs_msort_desc_loop sw n is arr')"

definition algs_msort_desc ::
  "'a list \<Rightarrow> 'a algs_sort_opt \<Rightarrow> nat \<Rightarrow> cerr + 'a list" where
  "algs_msort_desc arr opt n =
     bindr (assertr (swap opt \<noteq> None)) (\<lambda>_.
     algs_msort_desc_loop (the (swap opt)) n [0..<n div 2] arr)"

text \<open>The entry point: \<open>-1\<close> for a null argument or a negative length, else 0 and the
  array sorted in place (ascending, or reversed when \<open>desc\<close> is set).\<close>

definition algs_msort ::
  "'a list option \<Rightarrow> 'a algs_sort_opt \<Rightarrow> int \<Rightarrow> int \<Rightarrow> cerr + int \<times> 'a list option" where
  "algs_msort arr opt n desc =
     (if \<not> (arr \<noteq> None \<and> n \<ge> 0 \<and> compare opt \<noteq> None \<and> swap opt \<noteq> None) then Inr (-1, arr)
      else if n \<le> 1 then Inr (0, arr)
      else bindr (algs_msort_r (the arr) opt 0 (nat n)) (\<lambda>arr1.
        bindr (if desc \<noteq> 0 then algs_msort_desc arr1 opt (nat n) else Inr arr1) (\<lambda>arr2.
        Inr (0, Some arr2))))"

text \<open>The callbacks of the repository, on arrays of \<open>int\<close>.\<close>

definition int_cmp :: "int list \<Rightarrow> nat \<Rightarrow> nat \<Rightarrow> cerr + bool" where
  "int_cmp iarr m n = bindr (load iarr m) (\<lambda>x. bindr (load iarr n) (\<lambda>y. Inr (x > y)))"

definition int_swap :: "int list \<Rightarrow> nat \<Rightarrow> nat \<Rightarrow> cerr + int list" where
  "int_swap iarr m n =
     bindr (load iarr m) (\<lambda>ex. bindr (load iarr n) (\<lambda>y.
     bindr (store iarr m y) (\<lambda>iarr1. store iarr1 n ex)))"

definition int_opt :: "int algs_sort_opt" where
  "int_opt = \<lparr>compare = Some int_cmp, swap = Some int_swap, size_cb = Some int_size\<rparr>"

text \<open>The blocks of \<open>test_algs4th_sort_main\<close>: each sorts a small array and asserts the result
  code and the cells it lists (the ten-cell blocks look at the first nine).\<close>

definition sort_block :: "int list \<Rightarrow> int \<Rightarrow> int \<Rightarrow> (nat \<times> int) list \<Rightarrow> cerr + unit" where
  "sort_block vec n desc checks =
     bindr (algs_msort (Some vec) int_opt n desc) (\<lambda>(rc, out).
     bindr (assertr (rc = 0)) (\<lambda>_. bindr (deref out) (\<lambda>a.
     assertr (list_all (\<lambda>(i, x). load a i = Inr x) checks))))"

fun sort_blocks :: "(int list \<times> int \<times> int \<times> (nat \<times> int) list) list \<Rightarrow> cerr + int" where
  "sort_blocks [] = Inr 0"
| "sort_blocks ((vec, n, desc, checks) # bs) =
     bindr (sort_block vec n desc checks) (\<lambda>_. sort_blocks bs)"

definition up9 :: "(nat \<times> int) list" where
  "up9 = map (\<lambda>i. (i, int i)) [0..<9]"

definition down9 :: "(nat \<times> int) list" where
  "down9 = map (\<lambda>i. (i, 9 - int i)) [0..<9]"

definition test_algs4th_sort_main :: "cerr + int" where
  "test_algs4th_sort_main = sort_blocks
    [([1], 1, 0, []),
     ([1, 2], 2, 0, [(1, 2), (0, 1)]),
     ([2, 1], 2, 0, [(1, 2), (0, 1)]),
     ([1, 2, 3], 3, 0, [(0, 1), (1, 2), (2, 3)]),
     ([2, 3, 1], 3, 0, [(0, 1), (1, 2), (2, 3)]),
     ([3, 4, 2, 1], 4, 0, [(0, 1), (1, 2), (2, 3), (3, 4)]),
     ([4, 3, 2, 1], 4, 0, [(0, 1), (1, 2), (2, 3), (3, 4)]),
     ([0, 1, 2, 3, 4, 5, 6, 7, 8, 9], 10, 0, up9),
     ([9, 8, 7, 6, 5, 4, 3, 2, 1, 0], 10, 0, up9),
     ([2, 0, 4, 6, 5, 9, 8, 1, 7, 3], 10, 0, up9),
     ([1, 2], 2, 1, [(0, 2), (1, 1)]),
     ([2, 1], 2, 1, [(0, 2), (1, 1)]),
     ([1, 2, 3], 3, 1, [(0, 3), (1, 2), (2, 1)]),
     ([2, 3, 1], 3, 1, [(0, 3), (1, 2), (2, 1)]),
     ([3, 4, 2, 1], 4, 1, [(0, 4), (1, 3), (2, 2), (3, 1)]),
     ([0, 1, 2, 3, 4, 5, 6, 7, 8, 9], 10, 1, down9),
     ([9, 8, 7, 6, 5, 4, 3, 2, 1, 0], 10, 1, down9),
     ([2, 0, 4, 6, 5, 9, 8, 1, 7, 3], 10, 1, down9)]"

section \<open>The merge loop computes a stable merge\<close>

text \<open>Specification: the merge of two lists that takes from the right only when the left
  head is strictly greater.\<close>

fun merge_by :: "('a \<Rightarrow> 'a \<Rightarrow> bool) \<Rightarrow> 'a list \<Rightarrow> 'a list \<Rightarrow> 'a list" where
  "merge_by gt [] ys = ys"
| "merge_by gt xs [] = xs"
| "merge_by gt (x # xs) (y # ys) =
     (if gt x y then y # merge_by gt (x # xs) ys else x # merge_by gt xs (y # ys))"

lemma merge_by_Nil2 [simp]: "merge_by gt xs [] = xs"
  by (cases xs) auto

lemma length_merge_by [simp]: "length (merge_by gt xs ys) = length xs + length ys"
  by (induction gt xs ys rule: merge_by.induct) auto

lemma mset_merge_by [simp]: "mset (merge_by gt xs ys) = mset xs + mset ys"
  by (induction gt xs ys rule: merge_by.induct) auto

lemma set_merge_by [simp]: "set (merge_by gt xs ys) = set xs \<union> set ys"
  by (metis mset_merge_by set_mset_mset set_mset_union)

lemma sorted_merge_by:
  fixes key :: "'a \<Rightarrow> 'k::linorder"
  shows "sorted (map key xs) \<Longrightarrow> sorted (map key ys) \<Longrightarrow>
    sorted (map key (merge_by (\<lambda>x y. key x > key y) xs ys))"
  by (induction "\<lambda>x y. key x > key y" xs ys rule: merge_by.induct) fastforce+

lemma filter_merge_by:
  fixes key :: "'a \<Rightarrow> 'k::linorder"
  shows "sorted (map key xs) \<Longrightarrow> sorted (map key ys) \<Longrightarrow>
    filter (\<lambda>x. key x = k) (merge_by (\<lambda>x y. key x > key y) xs ys) =
    filter (\<lambda>x. key x = k) xs @ filter (\<lambda>x. key x = k) ys"
proof (induction "\<lambda>x y. key x > key y" xs ys rule: merge_by.induct)
  case (3 x xs y ys)
  show ?case
  proof (cases "key x > key y")
    case True
    have "filter (\<lambda>z. key z = k) (x # xs) = []" if "key y = k"
      using True that "3.prems"(1) by (fastforce simp: filter_empty_conv)
    with True 3 show ?thesis by auto
  next
    case False
    with 3 show ?thesis by auto
  qed
qed auto

lemma sort_key_append:
  fixes key :: "'a \<Rightarrow> 'k::linorder"
  shows "sort_key key (xs @ ys) =
    merge_by (\<lambda>x y. key x > key y) (sort_key key xs) (sort_key key ys)"
proof (rule properties_for_sort_key)
  show "filter (\<lambda>x. key k = key x)
      (merge_by (\<lambda>x y. key x > key y) (sort_key key xs) (sort_key key ys)) =
    filter (\<lambda>x. key k = key x) (xs @ ys)" for k
    using filter_merge_by [of key "sort_key key xs" "sort_key key ys" "key k"]
    by (simp add: eq_commute [of "key k"] sort_key_stable)
qed (simp_all add: sorted_merge_by)

text \<open>Writing the next element of a merge: the written prefix grows by one cell.\<close>

lemma write_next:
  assumes "b + k < length arr"
  shows "take (Suc (b + k)) (arr[b + k := x]) = take (b + k) arr @ [x]"
    and "k < n \<Longrightarrow> drop (b + n) (arr[b + k := x]) = drop (b + n) arr"
  using assms by (simp_all add: take_Suc_conv_app_nth)

lemma merge_loop_correct:
  assumes "\<And>i j. i < m \<Longrightarrow> j < n \<Longrightarrow> cmp aux i j = Inr (gt (aux ! i) (aux ! j))"
    and "length aux = n" "b + n \<le> length arr" "m \<le> n" "i \<le> m" "m \<le> j" "j \<le> n"
    and "k + m = i + j"
  shows "algs_msort_merge_loop cmp aux m n b i j k arr =
     Inr (take (b + k) arr @ merge_by gt (drop i (take m aux)) (drop j aux) @ drop (b + n) arr)"
  using assms
proof (induction cmp aux m n b i j k arr rule: algs_msort_merge_loop.induct)
  case (1 cmp aux m n b i j k arr)
  note IH = "1.IH" and prems = "1.prems"
  note unfold = algs_msort_merge_loop.simps [of cmp aux m n b i j k arr]
  note mem = load_in store_in write_next
  show ?case
  proof (cases "k < n")
    case False
    with prems have "i = m" "j = n" "k = n" by auto
    with prems show ?thesis by (simp add: algs_msort_merge_loop.simps)
  next
    case k: True
    have l: "drop j aux = aux ! j # drop (Suc j) aux" if "j < n"
      using that prems by (simp add: Cons_nth_drop_Suc)
    have r: "drop i (take m aux) = aux ! i # drop (Suc i) (take m aux)" if "i < m"
      using that prems by (simp add: drop_take_Cons)
    consider (left) "i \<ge> m" | (right) "i < m" "j \<ge> n" | (both) "i < m" "j < n" by linarith
    then show ?thesis
    proof cases
      case left
      with k prems have "j < n" by auto
      with left k IH(1) prems show ?thesis by (subst unfold) (simp add: mem l)
    next
      case right
      with k IH(2) prems show ?thesis by (subst unfold) (simp add: mem r)
    next
      case both
      with k prems have c: "cmp aux i j = Inr (gt (aux ! i) (aux ! j))" by simp
      show ?thesis
      proof (cases "gt (aux ! i) (aux ! j)")
        case True
        with both k c IH(3) prems show ?thesis by (subst unfold) (simp add: mem l r)
      next
        case False
        with both k c IH(4) prems show ?thesis by (subst unfold) (simp add: mem l r)
      qed
    qed
  qed
qed

section \<open>The sort under a lawful comparison\<close>

locale sort_opt =
  fixes opt :: "'a algs_sort_opt" and key :: "'a \<Rightarrow> 'k::linorder"
  assumes compare_law: "\<exists>c. compare opt = Some c \<and>
      (\<forall>xs i j. i < length xs \<longrightarrow> j < length xs \<longrightarrow> c xs i j = Inr (key (xs ! i) > key (xs ! j)))"
    and swap_law: "\<exists>s. swap opt = Some s \<and>
      (\<forall>xs i j. i < length xs \<longrightarrow> j < length xs \<longrightarrow> s xs i j = Inr (xs[i := xs ! j, j := xs ! i]))"
    and size_law: "size_cb opt = Some int_size"
begin

lemma algs_msort_merge_correct:
  assumes "m \<le> n" "b + n \<le> length arr" "n < 2 ^ 29"
  shows "algs_msort_merge arr opt b m n =
     Inr (take b arr @ merge_by (\<lambda>x y. key x > key y) (take m (drop b arr))
       (drop m (take n (drop b arr))) @ drop (b + n) arr)"
proof -
  obtain c where c: "compare opt = Some c"
    "\<And>xs i j. i < length xs \<Longrightarrow> j < length xs \<Longrightarrow> c xs i j = Inr (key (xs ! i) > key (xs ! j))"
    using compare_law by blast
  have "algs_msort_merge_loop c (take n (drop b arr)) m n b 0 m 0 arr =
     Inr (take (b + 0) arr @ merge_by (\<lambda>x y. key x > key y)
       (drop 0 (take m (take n (drop b arr)))) (drop m (take n (drop b arr))) @ drop (b + n) arr)"
    using assms by (intro merge_loop_correct) (auto simp: c(2))
  moreover have "imul n int_size = Inr (n * int_size)" "n * int_size div int_size = n" using assms(3) by (simp_all add: imul_def int_size_def)
  ultimately show ?thesis using c(1) size_law assms
    by (simp add: algs_msort_merge_def copy_out_def min_absorb1)
qed

text \<open>The recursive sort replaces the cells \<open>b .. b + n\<close> by their stable sort and leaves
  every other cell as it was.\<close>

lemma algs_msort_r_correct:
  "b + n \<le> length arr \<Longrightarrow> n < 2 ^ 29 \<Longrightarrow> algs_msort_r arr opt b n =
     Inr (take b arr @ sort_key key (take n (drop b arr)) @ drop (b + n) arr)"
proof (induction n arbitrary: arr b rule: less_induct)
  case (less n)
  show ?case
  proof (cases "n \<le> 1")
    case True
    then have "sort_key key (take n (drop b arr)) = take n (drop b arr)"
      by (intro sort_key_short) simp
    then have "take b arr @ sort_key key (take n (drop b arr)) @ drop (b + n) arr = arr"
      by (metis add.commute append.assoc append_take_drop_id drop_drop)
    with True show ?thesis by (simp add: algs_msort_r.simps)
  next
    case False
    define m where "m = n div 2"
    define l r where "l = take m (drop b arr)" and "r = take (n - m) (drop (b + m) arr)"
    define a1 where "a1 = take b arr @ sort_key key l @ drop (b + m) arr"
    define a2 where "a2 = take b arr @ sort_key key l @ sort_key key r @ drop (b + n) arr"
    from False have m: "m < n" "n - m < n" by (auto simp: m_def)
    have len: "length l = m" "length r = n - m" "length (take b arr) = b"
      using m less.prems by (auto simp: l_def r_def)
    have 1: "algs_msort_r arr opt b m = Inr a1"
      using less.IH [OF m(1), of b arr] m less.prems by (simp add: a1_def l_def)
    have 2: "algs_msort_r a1 opt (b + m) (n - m) = Inr a2"
      using less.IH [OF m(2), of "b + m" a1] m less.prems len
      by (simp add: a1_def a2_def r_def add.commute)
    have split: "take n (drop b arr) = l @ r"
      using m by (simp add: l_def r_def take_drop_split [of m n] add.commute)
    have "algs_msort_merge a2 opt b m n = Inr (take b arr @ merge_by (\<lambda>x y. key x > key y)
        (sort_key key l) (sort_key key r) @ drop (b + n) arr)"
      using algs_msort_merge_correct [of m n b a2] m len less.prems by (simp add: a2_def)
    then show ?thesis
      using False 1 2
      by (simp add: algs_msort_r.simps [of arr] m_def [symmetric] split sort_key_append)
  qed
qed

text \<open>The swaps of \<open>algs_msort_desc\<close> reverse the first \<open>n\<close> cells.\<close>

lemma algs_msort_desc_correct:
  assumes "n \<le> length arr"
  shows "algs_msort_desc arr opt n = Inr (rev (take n arr) @ drop n arr)"
proof -
  obtain s where s: "swap opt = Some s"
    "\<And>xs i j. i < length xs \<Longrightarrow> j < length xs \<Longrightarrow> s xs i j = Inr (xs[i := xs ! j, j := xs ! i])"
    using swap_law by blast
  have "length xs = length arr \<Longrightarrow> q \<le> n div 2 \<Longrightarrow>
      (\<forall>p < length arr. xs ! p = (if p < n \<and> (p < q \<or> n - 1 - q < p) then arr ! (n - 1 - p) else arr ! p)) \<Longrightarrow>
      algs_msort_desc_loop s n [q..<n div 2] xs = Inr (rev (take n arr) @ drop n arr)" for q xs
  proof (induction "n div 2 - q" arbitrary: q xs)
    case 0
    then have "q = n div 2" by simp
    have "xs = rev (take n arr) @ drop n arr"
      using 0 assms \<open>q = n div 2\<close>
      by (intro nth_equalityI) (auto simp: nth_append rev_nth intro!: arg_cong [of _ _ "(!) arr"])
    with \<open>q = n div 2\<close> show ?case by simp
  next
    case (Suc d)
    from Suc(2) have q: "q < n div 2" by simp
    let ?xs = "xs[q := xs ! (n - 1 - q), n - 1 - q := xs ! q]"
    have "algs_msort_desc_loop s n [Suc q..<n div 2] ?xs = Inr (rev (take n arr) @ drop n arr)"
      using Suc assms q by (intro Suc(1)) (auto simp: nth_list_update)
    with q Suc assms s(2) show ?case by (simp add: upt_rec)
  qed
  from this [of arr 0]
  have "algs_msort_desc_loop s n [0..<n div 2] arr = Inr (rev (take n arr) @ drop n arr)"
    by fastforce
  then show ?thesis
    using s(1) by (simp add: algs_msort_desc_def)
qed

text \<open>From \<open>2\<^sup>2\<^sup>9\<close> cells on the number of bytes leaves the type, in the last merge or before.\<close>

lemma algs_msort_r_overflow:
  "b + n \<le> length arr \<Longrightarrow> 2 ^ 29 \<le> n \<Longrightarrow> algs_msort_r arr opt b n = Inl SignedOverflow"
proof (induction n arbitrary: arr b rule: less_induct)
  case (less n)
  define m where "m = n div 2"
  have m: "m < n" "n - m < n" "\<not> n \<le> 1" using less.prems(2) by (auto simp: m_def)
  have r: "algs_msort_r arr opt b n = bindr (algs_msort_r arr opt b m) (\<lambda>arr1. bindr (algs_msort_r arr1 opt (b + m) (n - m)) (\<lambda>arr2. algs_msort_merge arr2 opt b m n))"
    using m(3) by (subst algs_msort_r.simps) (simp add: m_def Let_def)
  have "algs_msort_merge a opt b m n = Inl SignedOverflow" for a
  proof -
    obtain c where "compare opt = Some c" using compare_law by blast
    moreover have "imul n int_size = Inl SignedOverflow" using less.prems(2) by (simp add: imul_def int_size_def)
    ultimately show ?thesis using size_law by (simp add: algs_msort_merge_def)
  qed
  moreover have "algs_msort_r a opt (b + m) (n - m) = Inl SignedOverflow \<or> (\<exists>a2. algs_msort_r a opt (b + m) (n - m) = Inr a2)" if "length a = length arr" for a
    using less.IH [OF m(2), of "b + m" a] algs_msort_r_correct [of "b + m" "n - m" a] that less.prems(1) m(1) by (cases "2 ^ 29 \<le> n - m") auto
  moreover have "algs_msort_r arr opt b m = Inl SignedOverflow \<or> (\<exists>a. algs_msort_r arr opt b m = Inr a \<and> length a = length arr)"
    using less.IH [OF m(1), of b arr] algs_msort_r_correct [of b m arr] less.prems(1) m(1) by (cases "2 ^ 29 \<le> m") auto
  ultimately show ?case unfolding r by fastforce
qed

theorem algs_msort_overflow:
  assumes "2 ^ 29 \<le> n" "nat n \<le> length arr"
  shows "algs_msort (Some arr) opt n desc = Inl SignedOverflow"
proof -
  obtain c w where "compare opt = Some c" "swap opt = Some w" using compare_law swap_law by blast
  moreover have "algs_msort_r arr opt 0 (nat n) = Inl SignedOverflow" using assms by (intro algs_msort_r_overflow) auto
  ultimately show ?thesis using assms(1) by (simp add: algs_msort_def)
qed

theorem algs_msort_sorts:
  assumes "0 \<le> n" "nat n \<le> length arr" "n < 2 ^ 29"
  shows "algs_msort (Some arr) opt n desc =
     Inr (0, Some ((if desc \<noteq> 0 then rev (sort_key key (take (nat n) arr))
                    else sort_key key (take (nat n) arr)) @ drop (nat n) arr))"
proof (cases "n \<le> 1")
  case True
  with assms have "nat n = 0 \<or> nat n = 1" by auto
  then have "sort_key key (take (nat n) arr) = take (nat n) arr"
    "rev (take (nat n) arr) = take (nat n) arr"
    by (cases arr; auto)+
  with True assms compare_law swap_law show ?thesis by (auto simp: algs_msort_def)
next
  case False
  with assms compare_law swap_law show ?thesis
    by (auto simp: algs_msort_def algs_msort_r_correct algs_msort_desc_correct)
qed

end

interpretation ints: sort_opt int_opt "\<lambda>x. x"
proof
  show "\<exists>c. compare int_opt = Some c \<and>
      (\<forall>xs i j. i < length xs \<longrightarrow> j < length xs \<longrightarrow> c xs i j = Inr (xs ! i > xs ! j))"
    by (simp add: int_opt_def int_cmp_def load_in)
  show "\<exists>s. swap int_opt = Some s \<and>
      (\<forall>xs i j. i < length xs \<longrightarrow> j < length xs \<longrightarrow> s xs i j = Inr (xs[i := xs ! j, j := xs ! i]))"
    by (simp add: int_opt_def int_swap_def load_in store_in)
  show "size_cb int_opt = Some int_size"
    by (simp add: int_opt_def)
qed

section \<open>Properties\<close>

text \<open>C4: on an array of integers of fewer than \<open>2\<^sup>2\<^sup>9\<close> cells the sort returns 0 and leaves exactly the ascending sort of the
  first \<open>n\<close> cells, or its reverse when \<open>desc\<close> is set; the cells from \<open>n\<close> on are untouched and
  no access leaves the arrays. On more cells the size of the buffer in bytes overflows.\<close>

theorem algs_msort_int_sorts:
  assumes "0 \<le> n" "n \<le> int (length arr)"
  shows "algs_msort (Some arr) int_opt n desc =
     (if n < 2 ^ 29 then
        Inr (0, Some ((if desc \<noteq> 0 then rev (sort (take (nat n) arr)) else sort (take (nat n) arr)) @ drop (nat n) arr))
      else Inl SignedOverflow)"
  using ints.algs_msort_sorts [of n arr desc] ints.algs_msort_overflow [of n arr desc] assms by auto

theorem algs_msort_int_sorts_witness:
  "algs_msort (Some [3, 4, 2, 1, 0]) int_opt 4 1 = Inr (0, Some [4, 3, 2, 1, 0 :: int])"
  using algs_msort_int_sorts [of 4 "[3, 4, 2, 1, 0]" 1] by simp

text \<open>With any comparison that orders cells by a key, in any linear order, the ascending sort
  is stable: it is the library's stable sort by that key.\<close>

theorem algs_msort_stable:
  fixes key :: "'a \<Rightarrow> 'k::linorder"
  assumes "sort_opt opt key" "0 \<le> n" "n \<le> int (length arr)" "n < 2 ^ 29"
  shows "algs_msort (Some arr) opt n 0 = Inr (0, Some (sort_key key (take (nat n) arr) @ drop (nat n) arr))"
  using sort_opt.algs_msort_sorts [OF assms(1), of n arr 0] assms(2-4) by simp

theorem algs_msort_stable_witness:
  "algs_msort (Some [5, -2, 7]) int_opt 3 0 = Inr (0, Some [-2, 5, 7 :: int])"
  using algs_msort_stable [OF ints.sort_opt_axioms, of 3 "[5, -2, 7]"] by simp

text \<open>The program's own sort test passes in the model: each of its eighteen blocks sorts as it
  asserts, and the test returns 0.\<close>

theorem test_algs4th_sort_passes: "test_algs4th_sort_main = Inr 0"
  by code_simp

end
