(* ===== verification/Weighted_Quick_Union.thy ===== *)
theory Weighted_Quick_Union
  imports C_Prelude
begin

text \<open>
  Dynamic connectivity by weighted quick union, \<^verbatim>\<open>src/algs/algorithms4th/1.5.c\<close>.

  The two growable arrays come from the library \<open>c-vector\<close>, which is not part of the
  repository: the operations that use it take a record \<open>cvec_lib\<close> of its functions, and the
  locale \<open>cvector\<close> names what the code relies on. Cells are \<open>int option\<close>: a grown cell is
  indeterminate (\<open>None\<close>) until it is written, and reading it is an error.
  The walk to the root in \<open>wqu_find\<close> could cycle on a corrupt array; it gets as much fuel as
  there are cells, and the invariant shows that the walk is logarithmic in the number of sites.
\<close>

section \<open>Model\<close>

type_synonym cells = "int option list"

record cvec_lib =
  cv_init :: "nat \<Rightarrow> cells"
  cv_capacity :: "cells \<Rightarrow> nat"
  cv_grow :: "cells \<Rightarrow> nat \<Rightarrow> cells"

definition rd :: "cells \<Rightarrow> int \<Rightarrow> cerr + int" where
  "rd v i = (if 0 \<le> i \<and> i < int (length v)
     then case v ! nat i of None \<Rightarrow> Inl UninitRead | Some x \<Rightarrow> Inr x else Inl OutOfBounds)"

definition wr :: "cells \<Rightarrow> int \<Rightarrow> int \<Rightarrow> cerr + cells" where
  "wr v i x = (if 0 \<le> i \<and> i < int (length v) then Inr (v[nat i := Some x]) else Inl OutOfBounds)"

record wqu_s =
  ids :: cells
  maxid :: int
  sz :: cells

text \<open>\<open>for(i = wqu->maxid + 1; i < maxid; ++i)\<close>: every new site is its own component.\<close>

function wqu_grow_loop :: "int \<Rightarrow> int \<Rightarrow> cells \<Rightarrow> cells \<Rightarrow> cerr + cells \<times> cells" where
  "wqu_grow_loop i m v s =
     (if i < m then bindr (wr v i i) (\<lambda>v'. bindr (wr s i 1) (\<lambda>s'. wqu_grow_loop (i + 1) m v' s'))
      else Inr (v, s))"
  by pat_completeness auto
termination
  by (relation "measure (\<lambda>(i, m, v, s). nat (m - i))") auto

declare wqu_grow_loop.simps [simp del]

definition wqu_grow :: "cvec_lib \<Rightarrow> wqu_s \<Rightarrow> int \<Rightarrow> cerr + int \<times> wqu_s" where
  "wqu_grow L wqu m =
     (if \<not> m \<ge> 0 then Inr (-1, wqu)
      else if int (cv_capacity L (ids wqu)) < m then
        bindr (wqu_grow_loop (maxid wqu + 1) m
            (cv_grow L (ids wqu) (nat m)) (cv_grow L (sz wqu) (nat m)))
          (\<lambda>(v, s). Inr (0, wqu\<lparr>ids := v, maxid := m - 1, sz := s\<rparr>))
      else Inr (0, wqu))"

fun wqu_find_loop :: "nat \<Rightarrow> cells \<Rightarrow> int \<Rightarrow> cerr + int" where
  "wqu_find_loop 0 v p = Inl OutOfFuel"
| "wqu_find_loop (Suc fuel) v p =
     bindr (rd v p) (\<lambda>x. if x \<noteq> p then wqu_find_loop fuel v x else Inr p)"

definition wqu_find :: "wqu_s \<Rightarrow> int \<Rightarrow> cerr + int" where
  "wqu_find wqu p =
     bindr (assertr (p \<ge> 0 \<and> p \<le> maxid wqu)) (\<lambda>_. wqu_find_loop (length (ids wqu)) (ids wqu) p)"

text \<open>\<open>wqu_init\<close> on the object a non-null pointer names; the old contents are overwritten.\<close>

definition wqu_init :: "cvec_lib \<Rightarrow> wqu_s option \<Rightarrow> cerr + int \<times> wqu_s option" where
  "wqu_init L wqu = (case wqu of None \<Rightarrow> Inr (-1, None) | Some w \<Rightarrow>
     bindr (wr (cv_init L 1) 0 0) (\<lambda>v. bindr (wr (cv_init L 1) 0 1) (\<lambda>s.
     Inr (0, Some \<lparr>ids = v, maxid = 0, sz = s\<rparr>))))"

definition wqu_max1 :: "int \<Rightarrow> int \<Rightarrow> cerr + int" where
  "wqu_max1 p q = int_add (if p > q then p else q) 1"

definition wqu_link :: "wqu_s \<Rightarrow> int \<Rightarrow> int \<Rightarrow> cerr + wqu_s" where
  "wqu_link wqu r s =
     bindr (rd (sz wqu) r) (\<lambda>szr. bindr (rd (sz wqu) s) (\<lambda>szs.
     if szr \<ge> szs then
       bindr (wr (ids wqu) s r) (\<lambda>v. bindr (int_add szr szs) (\<lambda>t.
       bindr (wr (sz wqu) r t) (\<lambda>z. Inr (wqu\<lparr>ids := v, sz := z\<rparr>))))
     else
       bindr (wr (ids wqu) r s) (\<lambda>v. bindr (int_add szs szr) (\<lambda>t.
       bindr (wr (sz wqu) s t) (\<lambda>z. Inr (wqu\<lparr>ids := v, sz := z\<rparr>))))))"

definition wqu_union :: "cvec_lib \<Rightarrow> wqu_s option \<Rightarrow> int \<Rightarrow> int \<Rightarrow> cerr + int \<times> wqu_s option" where
  "wqu_union L wqu p q = (case wqu of None \<Rightarrow> Inr (-1, None) | Some w \<Rightarrow>
     bindr (wqu_max1 p q) (\<lambda>m. bindr (wqu_grow L w m) (\<lambda>(rc, w1).
     if rc \<noteq> 0 then Inr (-2, Some w1) else
     bindr (wqu_find w1 p) (\<lambda>r. bindr (wqu_find w1 q) (\<lambda>s.
     if r = s then Inr (0, Some w1)
     else bindr (wqu_link w1 r s) (\<lambda>w2. Inr (0, Some w2)))))))"

definition wqu_is_connected ::
  "cvec_lib \<Rightarrow> wqu_s option \<Rightarrow> int \<Rightarrow> int \<Rightarrow> cerr + int \<times> wqu_s option" where
  "wqu_is_connected L wqu p q = (case wqu of None \<Rightarrow> Inr (0, None) | Some w \<Rightarrow>
     bindr (wqu_max1 p q) (\<lambda>m. bindr (wqu_grow L w m) (\<lambda>(rc, w1).
     if rc \<noteq> 0 then Inr (0, Some w1) else
     bindr (wqu_find w1 p) (\<lambda>r. bindr (wqu_find w1 q) (\<lambda>s.
     Inr (if r = s then 1 else 0, Some w1))))))"

text \<open>\<open>wqu_count\<close> is a stub; \<open>wqu_uninit\<close> frees the two vectors of an object, which are the result here.\<close>

definition wqu_count :: "wqu_s option \<Rightarrow> int" where
  "wqu_count wqu = 0"

definition wqu_uninit :: "wqu_s option \<Rightarrow> cells list" where
  "wqu_uninit wqu = (case wqu of None \<Rightarrow> [] | Some w \<Rightarrow> [ids w, sz w])"

text \<open>The loop of the test program over the pairs it scans from a file: a pair whose sites are
  already connected is skipped, the others are united.\<close>

fun uf_load ::
  "('s \<Rightarrow> nat \<Rightarrow> nat \<Rightarrow> cerr + int \<times> 's) \<Rightarrow> ('s \<Rightarrow> nat \<Rightarrow> nat \<Rightarrow> cerr + int \<times> 's)
     \<Rightarrow> 's \<Rightarrow> (nat \<times> nat) list \<Rightarrow> cerr + 's" where
  "uf_load un ic s [] = Inr s"
| "uf_load un ic s ((p, q) # es) =
     bindr (ic s p q) (\<lambda>(c, s1).
     if c \<noteq> 0 then uf_load un ic s1 es
     else bindr (un s1 p q) (\<lambda>(rc, s2).
       bindr (assertr (rc = 0)) (\<lambda>_. uf_load un ic s2 es)))"

definition wqu_load :: "cvec_lib \<Rightarrow> wqu_s option \<Rightarrow> (nat \<times> nat) list \<Rightarrow> cerr + wqu_s option" where
  "wqu_load L wqu es =
     bindr (wqu_init L wqu) (\<lambda>(rc, w0). bindr (assertr (rc = 0)) (\<lambda>_.
     uf_load (\<lambda>w p q. wqu_union L w (int p) (int q))
       (\<lambda>w p q. wqu_is_connected L w (int p) (int q)) w0 es))"

text \<open>The scenarios of \<open>test_algorithms4th_1_5_main\<close> without the files: a script of unions,
  of assertions on connectivity and of assertions on a size cell.\<close>

datatype uf_cmd = Uni int int | IsConn int int | NotConn int int | SzIs int int

fun uf_script :: "cvec_lib \<Rightarrow> wqu_s option \<Rightarrow> uf_cmd list \<Rightarrow> cerr + wqu_s option" where
  "uf_script L w [] = Inr w"
| "uf_script L w (Uni p q # cs) = bindr (wqu_union L w p q) (\<lambda>(rc, w').
     bindr (assertr (rc = 0)) (\<lambda>_. uf_script L w' cs))"
| "uf_script L w (IsConn p q # cs) = bindr (wqu_is_connected L w p q) (\<lambda>(c, w').
     bindr (assertr (c \<noteq> 0)) (\<lambda>_. uf_script L w' cs))"
| "uf_script L w (NotConn p q # cs) = bindr (wqu_is_connected L w p q) (\<lambda>(c, w').
     bindr (assertr (\<not> c \<noteq> 0)) (\<lambda>_. uf_script L w' cs))"
| "uf_script L w (SzIs i n # cs) = bindr (deref w) (\<lambda>wo. bindr (rd (sz wo) i) (\<lambda>x.
     bindr (assertr (x = n)) (\<lambda>_. uf_script L w cs)))"

fun uf_scripts :: "cvec_lib \<Rightarrow> wqu_s option \<Rightarrow> uf_cmd list list \<Rightarrow> cerr + int" where
  "uf_scripts L uobj [] = Inr 0"
| "uf_scripts L uobj (b # bs) = bindr (wqu_init L uobj) (\<lambda>(rc, pu).
     bindr (assertr (rc = 0)) (\<lambda>_. bindr (uf_script L pu b) (\<lambda>_. uf_scripts L uobj bs)))"

definition test_algorithms4th_1_5_main :: "cvec_lib \<Rightarrow> wqu_s \<Rightarrow> cerr + int" where
  "test_algorithms4th_1_5_main L uobj = uf_scripts L (Some uobj)
    [[NotConn 1 0, Uni 0 1, IsConn 1 0],
     [NotConn 1 0, Uni 0 1, Uni 1 0, IsConn 1 0],
     [NotConn 1 2, NotConn 1 3, Uni 0 1, Uni 0 2, IsConn 1 2, NotConn 1 3],
     [NotConn 1 2, NotConn 1 3, Uni 1 0, Uni 2 0, IsConn 1 2, NotConn 1 3],
     [NotConn 1 4, NotConn 2 3, Uni 3 1, Uni 2 4, NotConn 1 4, NotConn 2 3, Uni 4 1, IsConn 2 3],
     [Uni 2 1, Uni 5 1, Uni 3 4, NotConn 1 3, NotConn 2 3, SzIs 2 3, Uni 5 3, IsConn 1 3,
      IsConn 2 3, SzIs 2 5],
     [NotConn 2 1, NotConn 3 5, NotConn 4 8, NotConn 1 4, Uni 2 1, Uni 3 5, Uni 4 8, Uni 1 4,
      IsConn 2 1, IsConn 3 5, IsConn 4 8, IsConn 1 4, IsConn 1 4, IsConn 2 8, NotConn 2 3]]"

section \<open>Parent forests\<close>

text \<open>The forest of an array of parents: \<open>climbs ps p d r\<close> says that from \<open>p\<close> the root \<open>r\<close>
  is \<open>d\<close> steps away.\<close>

inductive climbs :: "nat list \<Rightarrow> nat \<Rightarrow> nat \<Rightarrow> nat \<Rightarrow> bool" where
  root: "r < length ps \<Longrightarrow> ps ! r = r \<Longrightarrow> climbs ps r 0 r"
| step: "p < length ps \<Longrightarrow> ps ! p \<noteq> p \<Longrightarrow> climbs ps (ps ! p) d r \<Longrightarrow> climbs ps p (Suc d) r"

inductive_cases climbs_0E: "climbs ps p 0 r"
inductive_cases climbs_SucE: "climbs ps p (Suc d) r"
inductive_cases climbsE: "climbs ps p d r"

lemma climbs_less: "climbs ps p d r \<Longrightarrow> p < length ps \<and> r < length ps \<and> ps ! r = r"
  by (induction rule: climbs.induct) auto

lemma climbs_det: "climbs ps p d r \<Longrightarrow> climbs ps p d' r' \<Longrightarrow> d' = d \<and> r' = r"
proof (induction arbitrary: d' r' rule: climbs.induct)
  case (root r ps)
  then show ?case by (auto elim: climbsE)
next
  case (step p ps d r)
  from step.prems step.hyps(2) obtain d'' where "d' = Suc d''" "climbs ps (ps ! p) d'' r'"
    by (auto elim: climbsE)
  with step.IH show ?case by auto
qed

definition sites :: "nat list \<Rightarrow> nat \<Rightarrow> nat set" where
  "sites ps r = {p. \<exists>d. climbs ps p d r}"

lemma sites_subset: "sites ps r \<subseteq> {..<length ps}"
  by (auto simp: sites_def dest: climbs_less)

lemma finite_sites [simp, intro]: "finite (sites ps r)"
  using sites_subset finite_subset by blast

lemma card_sites_le: "card (sites ps r) \<le> length ps"
  using card_mono [OF _ sites_subset] by simp

lemma sites_disjoint: "r \<noteq> s \<Longrightarrow> sites ps r \<inter> sites ps s = {}"
  by (auto simp: sites_def dest: climbs_det)

text \<open>The forest invariant: every site reaches a root, in at most the logarithm of the size
  of its component.\<close>

definition forest :: "nat list \<Rightarrow> bool" where
  "forest ps \<longleftrightarrow> (\<forall>p < length ps. \<exists>d r. climbs ps p d r \<and> 2 ^ d \<le> card (sites ps r))"

lemma climbs_link_other:
  "climbs ps p d t \<Longrightarrow> ps ! s = s \<Longrightarrow> t \<noteq> s \<Longrightarrow> climbs (ps[s := r]) p d t"
proof (induction rule: climbs.induct)
  case (root t ps)
  then show ?case by (auto intro: climbs.root)
next
  case (step p ps d t)
  from step.hyps(2) step.prems have "p \<noteq> s" by auto
  with step show ?case by (auto intro!: climbs.step)
qed

lemma climbs_link_same:
  "climbs ps p d s \<Longrightarrow> r < length ps \<Longrightarrow> ps ! r = r \<Longrightarrow> r \<noteq> s \<Longrightarrow> climbs (ps[s := r]) p (Suc d) r"
proof (induction ps p d s rule: climbs.induct)
  case (root s ps)
  then have "climbs (ps[s := r]) r 0 r" by (auto intro: climbs.root)
  with root show ?case by (auto intro!: climbs.step)
next
  case (step p ps d s)
  from step.hyps(3) have "ps ! s = s" by (auto dest: climbs_less)
  with step.hyps(2) have "p \<noteq> s" by auto
  with step climbs.step [of p "ps[s := r]" "Suc d" r] show ?case by simp
qed

lemma climbs_append: "climbs ps p d r \<Longrightarrow> climbs (ps @ qs) p d r"
proof (induction rule: climbs.induct)
  case (root r ps)
  then show ?case by (auto intro: climbs.root simp: nth_append)
next
  case (step p ps d r)
  then show ?case using climbs.step [of p "ps @ qs" d r] by (simp add: nth_append)
qed

lemma sites_append: "sites ps r \<subseteq> sites (ps @ qs) r"
  by (auto simp: sites_def dest: climbs_append)

lemma forestD: "forest ps \<Longrightarrow> p < length ps \<Longrightarrow> \<exists>r. p \<in> sites ps r"
  by (force simp: forest_def sites_def)

lemma sites_root: "p \<in> sites ps r \<Longrightarrow> r < length ps \<and> ps ! r = r \<and> p < length ps"
  by (auto simp: sites_def dest: climbs_less)

lemma sites_unique: "p \<in> sites ps r \<Longrightarrow> p \<in> sites ps s \<Longrightarrow> r = s"
  using sites_disjoint by fastforce

text \<open>Linking the root \<open>s\<close> below the root \<open>r\<close> merges the two components and touches no other.\<close>

lemma sites_link:
  assumes f: "forest ps" and r: "r < length ps" "ps ! r = r" and s: "s < length ps" "ps ! s = s"
    and "r \<noteq> s"
  shows "sites (ps[s := r]) t = (if t = r then sites ps r \<union> sites ps s else if t = s then {} else sites ps t)"
proof (rule set_eqI)
  fix p
  let ?ps = "ps[s := r]"
  have fwd: "p \<in> sites ?ps (if u = s then r else u)" if "p \<in> sites ps u" for u
  proof (cases "u = s")
    case True
    with that climbs_link_same [OF _ r \<open>r \<noteq> s\<close>] show ?thesis by (auto simp: sites_def)
  next
    case False
    with that climbs_link_other [OF _ s(2) False] show ?thesis unfolding sites_def by auto
  qed
  show "p \<in> sites ?ps t \<longleftrightarrow>
    p \<in> (if t = r then sites ps r \<union> sites ps s else if t = s then {} else sites ps t)"
  proof (cases "p < length ps")
    case False
    then show ?thesis using sites_root by (auto dest!: sites_root)
  next
    case True
    with f obtain u where u: "p \<in> sites ps u" using forestD by blast
    from fwd [OF u] have "p \<in> sites ?ps t \<longleftrightarrow> t = (if u = s then r else u)"
      using sites_unique by metis
    with u \<open>r \<noteq> s\<close> show ?thesis by (auto dest: sites_unique split: if_splits)
  qed
qed

lemma forest_link:
  assumes f: "forest ps" and r: "r < length ps" "ps ! r = r" and s: "s < length ps" "ps ! s = s"
    and "r \<noteq> s" and le: "card (sites ps s) \<le> card (sites ps r)"
  shows "forest (ps[s := r])"
  unfolding forest_def
proof (intro allI impI)
  fix p assume "p < length (ps[s := r])"
  then obtain d t where p: "climbs ps p d t" "2 ^ d \<le> card (sites ps t)"
    using f by (auto simp: forest_def)
  have card: "card (sites ps r \<union> sites ps s) = card (sites ps r) + card (sites ps s)"
    using \<open>r \<noteq> s\<close> by (intro card_Un_disjoint) (auto simp: sites_disjoint)
  note c = sites_link [OF f r s \<open>r \<noteq> s\<close>]
  show "\<exists>d t. climbs (ps[s := r]) p d t \<and> 2 ^ d \<le> card (sites (ps[s := r]) t)"
  proof (cases "t = s")
    case True
    with p r \<open>r \<noteq> s\<close> have "climbs (ps[s := r]) p (Suc d) r" by (auto intro: climbs_link_same)
    moreover from True p le have "2 ^ Suc d \<le> card (sites (ps[s := r]) r)"
      by (simp add: c card)
    ultimately show ?thesis by blast
  next
    case False
    with p s have "climbs (ps[s := r]) p d t" by (auto intro: climbs_link_other)
    moreover from False p have "2 ^ d \<le> card (sites (ps[s := r]) t)"
      by (auto simp: c card)
    ultimately show ?thesis by blast
  qed
qed

text \<open>Growing adds singletons.\<close>

lemma climbs_new:
  "length ps \<le> i \<Longrightarrow> i < m \<Longrightarrow> climbs (ps @ [length ps..<m]) i 0 i"
  by (rule climbs.root) (auto simp: nth_append)

lemma sites_grow:
  assumes f: "forest ps"
  shows "sites (ps @ [length ps..<m]) t =
    (if t < length ps then sites ps t else if t < m then {t} else {})"
proof (rule set_eqI)
  fix p
  let ?ps = "ps @ [length ps..<m]"
  consider (old) "p < length ps" | (new) "length ps \<le> p" "p < m" | (out) "length ps \<le> p" "m \<le> p"
    by linarith
  then show "p \<in> sites ?ps t \<longleftrightarrow> p \<in> (if t < length ps then sites ps t else if t < m then {t} else {})"
  proof cases
    case old
    with f obtain u where u: "p \<in> sites ps u" using forestD by blast
    then have "p \<in> sites ?ps u" using sites_append by blast
    with u old show ?thesis by (auto dest: sites_unique sites_root)
  next
    case new
    then have "p \<in> sites ?ps p" using climbs_new by (auto simp: sites_def)
    with new show ?thesis by (auto dest: sites_unique sites_root)
  next
    case out
    then show ?thesis by (auto dest: sites_root)
  qed
qed

lemma forest_grow:
  assumes "forest ps"
  shows "forest (ps @ [length ps..<m])"
  unfolding forest_def
proof (intro allI impI)
  fix p assume p: "p < length (ps @ [length ps..<m])"
  show "\<exists>d r. climbs (ps @ [length ps..<m]) p d r \<and> 2 ^ d \<le> card (sites (ps @ [length ps..<m]) r)"
  proof (cases "p < length ps")
    case True
    with assms obtain d r where "climbs ps p d r" "2 ^ d \<le> card (sites ps r)"
      by (auto simp: forest_def)
    moreover from this have "r < length ps" by (auto dest: climbs_less)
    ultimately show ?thesis
      by (intro exI [of _ d] exI [of _ r]) (simp add: climbs_append sites_grow [OF assms])
  next
    case False
    with p have "climbs (ps @ [length ps..<m]) p 0 p" by (auto intro: climbs_new)
    with False p show ?thesis by (intro exI [of _ 0] exI [of _ p]) (auto simp: sites_grow [OF assms])
  qed
qed

section \<open>The operations keep the forest\<close>

text \<open>What the code relies on of the vector library: the capacity is the number of cells,
  a new vector has the capacity asked for, and growing sets the capacity to the number asked
  for and keeps the cells there were.\<close>

definition cvector_ok :: "cvec_lib \<Rightarrow> bool" where
  "cvector_ok L \<longleftrightarrow> (\<forall>v. cv_capacity L v = length v) \<and> (\<forall>n. length (cv_init L n) = n) \<and>
     (\<forall>v n. length v \<le> n \<longrightarrow> length (cv_grow L v n) = n \<and> take (length v) (cv_grow L v n) = v)"

abbreviation cell_list :: "nat list \<Rightarrow> cells" where
  "cell_list ps \<equiv> map (\<lambda>p. Some (int p)) ps"

definition wqu_rep :: "wqu_s \<Rightarrow> nat list \<Rightarrow> nat list \<Rightarrow> bool" where
  "wqu_rep w ps zs \<longleftrightarrow> ids w = cell_list ps \<and> sz w = cell_list zs \<and> length zs = length ps \<and>
     ps \<noteq> [] \<and> maxid w = int (length ps) - 1 \<and> int (length ps) \<le> INT_MAX \<and> forest ps \<and>
     (\<forall>r < length ps. ps ! r = r \<longrightarrow> zs ! r = card (sites ps r))"

lemma rd_cell_list [mem_simps]:
  "p < length ps \<Longrightarrow> rd (cell_list ps) (int p) = Inr (int (ps ! p))"
  by (simp add: rd_def)

lemma wr_cell_list [mem_simps]:
  "p < length ps \<Longrightarrow> wr (cell_list ps) (int p) (int x) = Inr (cell_list (ps[p := x]))"
  by (simp add: wr_def map_update)

lemma wqu_grow_loop_correct:
  "i \<le> m \<Longrightarrow> length v = m \<Longrightarrow> length s = m \<Longrightarrow>
   wqu_grow_loop (int i) (int m) v s =
     Inr (take i v @ cell_list [i..<m], take i s @ cell_list (replicate (m - i) 1))"
proof (induction "m - i" arbitrary: i v s)
  case 0
  then show ?case by (simp add: wqu_grow_loop.simps)
next
  case (Suc d)
  then have i: "i < m" by simp
  have "wqu_grow_loop (int (Suc i)) (int m) (v[i := Some (int i)]) (s[i := Some 1]) =
     Inr (take (Suc i) (v[i := Some (int i)]) @ cell_list [Suc i..<m],
       take (Suc i) (s[i := Some 1]) @ cell_list (replicate (m - Suc i) 1))"
    using Suc i by (intro Suc(1)) auto
  with i Suc show ?case
    by (subst wqu_grow_loop.simps)
      (simp add: wr_def take_Suc_update upt_conv_Cons Suc_diff_Suc [symmetric] add.commute)
qed

lemma wqu_grow_correct:
  assumes L: "cvector_ok L" and w: "wqu_rep w ps zs" and m: "m \<le> nat INT_MAX"
  shows "\<exists>w'. wqu_grow L w (int m) = Inr (0, w') \<and>
    wqu_rep w' (ps @ [length ps..<m]) (zs @ replicate (m - length ps) 1)"
proof (cases "length ps < m")
  case False
  with L w show ?thesis
    by (auto simp: wqu_grow_def cvector_ok_def wqu_rep_def)
next
  case True
  let ?v = "cv_grow L (ids w) m" and ?s = "cv_grow L (sz w) m"
  from L w True have len: "length ?v = m" "length ?s = m"
    and take: "take (length ps) ?v = cell_list ps" "take (length ps) ?s = cell_list zs"
    by (auto simp: cvector_ok_def wqu_rep_def) (metis length_map less_imp_le)+
  have start: "maxid w + 1 = int (length ps)" using w by (simp add: wqu_rep_def)
  let ?w = "w\<lparr>ids := cell_list (ps @ [length ps..<m]), maxid := int m - 1,
              sz := cell_list (zs @ replicate (m - length ps) 1)\<rparr>"
  have "wqu_grow L w (int m) = Inr (0, ?w)"
    using wqu_grow_loop_correct [of "length ps" m ?v ?s] True len take L w
    by (simp add: wqu_grow_def start cvector_ok_def wqu_rep_def)
  moreover have "wqu_rep ?w (ps @ [length ps..<m]) (zs @ replicate (m - length ps) 1)"
    using w True m
    by (auto simp: wqu_rep_def forest_grow sites_grow nth_append)
  ultimately show ?thesis by blast
qed

lemma wqu_find_loop_correct:
  "climbs ps p d r \<Longrightarrow> d < fuel \<Longrightarrow> wqu_find_loop fuel (cell_list ps) (int p) = Inr (int r)"
proof (induction arbitrary: fuel rule: climbs.induct)
  case (root r ps)
  then show ?case by (cases fuel) (auto simp: rd_cell_list)
next
  case (step p ps d r)
  then show ?case by (cases fuel) (auto simp: rd_cell_list)
qed

lemma forest_depth:
  assumes "climbs ps p d r" "forest ps"
  shows "2 ^ d \<le> card (sites ps r)" "d < length ps"
proof -
  from assms(1) have "p < length ps" by (auto dest: climbs_less)
  with assms(2) obtain d' r' where "climbs ps p d' r'" "2 ^ d' \<le> card (sites ps r')"
    unfolding forest_def by blast
  with assms show le: "2 ^ d \<le> card (sites ps r)" by (auto dest: climbs_det)
  have "d < 2 ^ d" by simp
  with le card_sites_le [of ps r] show "d < length ps" by linarith
qed

lemma wqu_find_correct:
  assumes w: "wqu_rep w ps zs" and p: "p \<in> sites ps r"
  shows "wqu_find w (int p) = Inr (int r)"
proof -
  from p obtain d where d: "climbs ps p d r" by (auto simp: sites_def)
  with w have "d < length ps" by (auto simp: wqu_rep_def intro: forest_depth)
  with d have "wqu_find_loop (length ps) (cell_list ps) (int p) = Inr (int r)"
    by (intro wqu_find_loop_correct)
  with w sites_root [OF p] show ?thesis by (simp add: wqu_find_def wqu_rep_def)
qed

lemma wqu_repD:
  assumes "wqu_rep w ps zs"
  shows "ids w = cell_list ps" "sz w = cell_list zs" "length zs = length ps" "forest ps"
    "maxid w = int (length ps) - 1" "int (length ps) \<le> INT_MAX"
    "\<And>r. r < length ps \<Longrightarrow> ps ! r = r \<Longrightarrow> zs ! r = card (sites ps r)"
  using assms by (auto simp: wqu_rep_def)

lemma card_link: "a \<noteq> b \<Longrightarrow> card (sites ps a \<union> sites ps b) = card (sites ps a) + card (sites ps b)"
  by (intro card_Un_disjoint) (auto simp: sites_disjoint)

lemma card_two_roots:
  assumes "wqu_rep w ps zs" "a < length ps" "ps ! a = a" "b < length ps" "ps ! b = b" "a \<noteq> b"
  shows "in_int (int (zs ! a) + int (zs ! b))"
proof -
  have "card (sites ps a \<union> sites ps b) \<le> card {..<length ps}"
    by (intro card_mono) (use sites_subset in auto)
  with wqu_repD [OF assms(1)] assms show ?thesis
    by (simp add: card_link in_int_def)
qed

lemma wqu_rep_link:
  assumes w: "wqu_rep w ps zs" and a: "a < length ps" "ps ! a = a"
    and b: "b < length ps" "ps ! b = b" and "a \<noteq> b" and le: "zs ! b \<le> zs ! a"
  shows "wqu_rep (w\<lparr>ids := cell_list (ps[b := a]), sz := cell_list (zs[a := zs ! a + zs ! b])\<rparr>)
      (ps[b := a]) (zs[a := zs ! a + zs ! b])"
proof -
  note D = wqu_repD [OF w] and ab = sites_link [OF wqu_repD(4) [OF w] a b \<open>a \<noteq> b\<close>]
  have "forest (ps[b := a])"
    using le a b \<open>a \<noteq> b\<close> D(4,7) by (intro forest_link) auto
  moreover have "zs[a := zs ! a + zs ! b] ! t = card (sites (ps[b := a]) t)"
    if t: "t < length ps" "ps[b := a] ! t = t" for t
  proof (cases "t = a")
    case True
    with \<open>a \<noteq> b\<close> D(3) D(7) [OF a] D(7) [OF b] a show ?thesis by (simp add: ab card_link)
  next
    case False
    with t have "t \<noteq> b" by auto
    with t have "ps ! t = t" by simp
    note \<open>t \<noteq> b\<close> this
    with False t D(7) [of t] show ?thesis by (simp add: ab)
  qed
  ultimately show ?thesis
    using w by (simp add: wqu_rep_def)
qed

lemma wqu_link_correct:
  assumes w: "wqu_rep w ps zs" and r: "r < length ps" "ps ! r = r"
    and s: "s < length ps" "ps ! s = s" and "r \<noteq> s"
  shows "\<exists>w' a b. wqu_link w (int r) (int s) = Inr w' \<and> {a, b} = {r, s} \<and>
    wqu_rep w' (ps[b := a]) (zs[a := zs ! a + zs ! b])"
proof -
  note D = wqu_repD(1-3) [OF w]
  note sums = card_two_roots [OF w r s \<open>r \<noteq> s\<close>] card_two_roots [OF w s r \<open>r \<noteq> s\<close> [symmetric]]
  note link = wqu_link_def mem_simps int_add_in sums
  show ?thesis
  proof (cases "zs ! s \<le> zs ! r")
    case True
    have "wqu_link w (int r) (int s) =
      Inr (w\<lparr>ids := cell_list (ps[s := r]), sz := cell_list (zs[r := zs ! r + zs ! s])\<rparr>)"
      using True D r s wr_cell_list [of r zs "zs ! r + zs ! s"] by (simp add: link)
    with wqu_rep_link [OF w r s \<open>r \<noteq> s\<close> True] show ?thesis by blast
  next
    case False
    have "wqu_link w (int r) (int s) =
      Inr (w\<lparr>ids := cell_list (ps[r := s]), sz := cell_list (zs[s := zs ! s + zs ! r])\<rparr>)"
      using False D r s wr_cell_list [of s zs "zs ! s + zs ! r"] by (simp add: link)
    moreover have "zs ! r \<le> zs ! s" using False by simp
    from wqu_rep_link [OF w s r \<open>r \<noteq> s\<close> [symmetric] this] have "wqu_rep (w\<lparr>ids := cell_list (ps[r := s]),
      sz := cell_list (zs[s := zs ! s + zs ! r])\<rparr>) (ps[r := s]) (zs[s := zs ! s + zs ! r])" .
    ultimately show ?thesis by (auto simp: insert_commute)
  qed
qed

section \<open>The connectivity contract\<close>

text \<open>What a dynamic-connectivity structure promises: its relation is an equivalence, a union
  joins the two classes and no others, and a query answers by the relation without changing it.\<close>

locale dyn_connectivity =
  fixes inv :: "'s \<Rightarrow> bool" and conn :: "'s \<Rightarrow> nat \<Rightarrow> nat \<Rightarrow> bool"
    and union :: "'s \<Rightarrow> nat \<Rightarrow> nat \<Rightarrow> cerr + int \<times> 's"
    and is_conn :: "'s \<Rightarrow> nat \<Rightarrow> nat \<Rightarrow> cerr + int \<times> 's"
    and site :: "nat \<Rightarrow> bool"
  assumes conn_equivp: "inv s \<Longrightarrow> equivp (conn s)"
    and union_law: "inv s \<Longrightarrow> site p \<Longrightarrow> site q \<Longrightarrow> \<exists>s'. union s p q = Inr (0, s') \<and> inv s' \<and>
      (\<forall>x y. conn s' x y \<longleftrightarrow> conn s x y \<or> conn s x p \<and> conn s q y \<or> conn s x q \<and> conn s p y)"
    and is_conn_law: "inv s \<Longrightarrow> site p \<Longrightarrow> site q \<Longrightarrow>
      \<exists>s'. is_conn s p q = Inr (if conn s p q then 1 else 0, s') \<and> inv s' \<and> conn s' = conn s"
begin

lemma conn_rtrancl: "inv s \<Longrightarrow> {(x, y). conn s x y}\<^sup>* = {(x, y). conn s x y}"
proof (intro subset_antisym subrelI)
  fix x y assume "inv s" and xy: "(x, y) \<in> {(x, y). conn s x y}\<^sup>*"
  from \<open>inv s\<close> have eq: "equivp (conn s)" by (rule conn_equivp)
  from xy show "(x, y) \<in> {(x, y). conn s x y}"
    by (induction rule: rtrancl_induct) (use eq in \<open>auto intro: equivp_reflp equivp_transp\<close>)
qed auto

text \<open>Loading pairs one by one computes the equivalence closure of all of them.\<close>

lemma uf_load_closure:
  assumes "inv s" "\<forall>(p, q) \<in> set es. site p \<and> site q"
  shows "\<exists>s'. uf_load union is_conn s es = Inr s' \<and> inv s' \<and>
    {(x, y). conn s' x y} = ({(x, y). conn s x y} \<union> set es \<union> (set es)\<inverse>)\<^sup>*"
  using assms
proof (induction es arbitrary: s)
  case Nil
  then show ?case by (simp add: conn_rtrancl)
next
  case (Cons e es)
  obtain p q where e: "e = (p, q)" by fastforce
  with Cons.prems have pq: "site p" "site q" by auto
  from is_conn_law [OF Cons.prems(1) pq] obtain s1 where
    s1: "is_conn s p q = Inr (if conn s p q then 1 else 0, s1)" "inv s1" "conn s1 = conn s" by blast
  show ?case
  proof (cases "conn s p q")
    case True
    with Cons.prems(1) have "(p, q) \<in> {(x, y). conn s x y}" "(q, p) \<in> {(x, y). conn s x y}"
      using conn_equivp by (auto dest: equivp_symp)
    then have "{(x, y). conn s x y} \<union> set (e # es) \<union> (set (e # es))\<inverse> =
        {(x, y). conn s x y} \<union> set es \<union> (set es)\<inverse>" by (auto simp: e)
    with True e s1 Cons.IH [OF s1(2)] Cons.prems show ?thesis by auto
  next
    case False
    from union_law [OF s1(2) pq] obtain s2 where s2: "union s1 p q = Inr (0, s2)" "inv s2"
      "\<And>x y. conn s2 x y \<longleftrightarrow> conn s x y \<or> conn s x p \<and> conn s q y \<or> conn s x q \<and> conn s p y"
      using s1(3) by auto
    let ?R = "{(x, y). conn s x y}" and ?R2 = "{(x, y). conn s2 x y}"
    have refl: "conn s x x" for x using conn_equivp [OF Cons.prems(1)] by (rule equivp_reflp)
    have 1: "?R \<union> {(p, q), (q, p)} \<subseteq> ?R2" using refl by (auto simp: s2(3))
    have 2: "?R2 \<subseteq> (?R \<union> {(p, q), (q, p)})\<^sup>*"
    proof clarify
      fix x y assume "conn s2 x y"
      let ?S = "?R \<union> {(p, q), (q, p)}"
      have *: "(x, y) \<in> ?S\<^sup>*" if "conn s x a" "conn s b y" "(a, b) \<in> ?S" for a b
      proof -
        have "(x, a) \<in> ?S" "(b, y) \<in> ?S" using that by auto
        with that(3) show ?thesis
          by (meson converse_rtrancl_into_rtrancl r_into_rtrancl)
      qed
      from \<open>conn s2 x y\<close> show "(x, y) \<in> ?S\<^sup>*"
        using * [of p q] * [of q p] by (auto simp: s2(3))
    qed
    let ?A = "?R2 \<union> set es \<union> (set es)\<inverse>" and ?B = "?R \<union> set (e # es) \<union> (set (e # es))\<inverse>"
    have "?A\<^sup>* = ?B\<^sup>*"
    proof (rule subset_antisym)
      have "?A \<subseteq> ?B\<^sup>*"
        using 2 rtrancl_mono [of "?R \<union> {(p, q), (q, p)}" ?B] by (auto simp: e)
      then show "?A\<^sup>* \<subseteq> ?B\<^sup>*" by (rule rtrancl_subset_rtrancl)
      show "?B\<^sup>* \<subseteq> ?A\<^sup>*" using 1 by (intro rtrancl_mono) (auto simp: e)
    qed
    with False e s1(1) s2(1) Cons.IH [OF s2(2)] Cons.prems show ?thesis by auto
  qed
qed

end

text \<open>The weighted quick union provides it. The relation of a state is read off its array of
  parents; a site that the array does not hold yet is alone in its class.\<close>

definition parents :: "wqu_s \<Rightarrow> nat list" where
  "parents w = map (\<lambda>c. nat (the c)) (ids w)"

definition conn :: "nat list \<Rightarrow> nat \<Rightarrow> nat \<Rightarrow> bool" where
  "conn ps x y \<longleftrightarrow> x = y \<or> (\<exists>r. x \<in> sites ps r \<and> y \<in> sites ps r)"

definition wqu_inv :: "wqu_s option \<Rightarrow> bool" where
  "wqu_inv s \<longleftrightarrow> (\<exists>w ps zs. s = Some w \<and> wqu_rep w ps zs)"

definition wqu_conn :: "wqu_s option \<Rightarrow> nat \<Rightarrow> nat \<Rightarrow> bool" where
  "wqu_conn s x y \<longleftrightarrow> (case s of None \<Rightarrow> x = y | Some w \<Rightarrow> conn (parents w) x y)"

definition wqu_site :: "nat \<Rightarrow> bool" where
  "wqu_site p \<longleftrightarrow> int p < INT_MAX"

lemma wqu_rep_parents: "wqu_rep w ps zs \<Longrightarrow> parents w = ps"
  by (auto simp: parents_def wqu_rep_def comp_def)

lemma wqu_rep_conn: "wqu_rep w ps zs \<Longrightarrow> wqu_conn (Some w) = conn ps"
  by (auto simp: wqu_conn_def wqu_rep_parents fun_eq_iff)

lemma conn_equivp: "equivp (conn ps)"
  by (rule equivpI) (auto simp: conn_def reflp_def symp_def transp_def dest: sites_unique)

lemma conn_grow: "forest ps \<Longrightarrow> conn (ps @ [length ps..<m]) x y = conn ps x y"
  by (auto simp: conn_def sites_grow split: if_splits dest: sites_root)

lemma conn_sites: "p \<in> sites ps r \<Longrightarrow> conn ps x p \<longleftrightarrow> x \<in> sites ps r"
  by (auto simp: conn_def dest: sites_unique)

lemma conn_sym: "conn ps x y \<longleftrightarrow> conn ps y x"
  by (auto simp: conn_def)

lemma conn_link:
  assumes "forest ps" "{a, b} = {r, s}" "r \<noteq> s" "p \<in> sites ps r" "q \<in> sites ps s"
  shows "conn (ps[b := a]) x y \<longleftrightarrow>
    conn ps x y \<or> conn ps x p \<and> conn ps q y \<or> conn ps x q \<and> conn ps p y"
proof -
  from assms have rs: "r < length ps" "ps ! r = r" "s < length ps" "ps ! s = s"
    by (auto dest: sites_root)
  with assms(2,3) have "a < length ps" "ps ! a = a" "b < length ps" "ps ! b = b" "a \<noteq> b"
    by (auto simp: doubleton_eq_iff)
  note link = sites_link [OF assms(1) this]
  have "conn ps q y \<longleftrightarrow> y \<in> sites ps s" "conn ps p y \<longleftrightarrow> y \<in> sites ps r"
    "conn ps x p \<longleftrightarrow> x \<in> sites ps r" "conn ps x q \<longleftrightarrow> x \<in> sites ps s"
    using assms(4,5) conn_sites conn_sym by metis+
  moreover have "conn (ps[b := a]) x y \<longleftrightarrow> conn ps x y \<or>
      x \<in> sites ps a \<and> y \<in> sites ps b \<or> x \<in> sites ps b \<and> y \<in> sites ps a" (is "?l \<longleftrightarrow> ?r")
  proof
    show "?l \<Longrightarrow> ?r" by (auto simp: conn_def link \<open>a \<noteq> b\<close> split: if_splits)
    have *: "x \<in> sites (ps[b := a]) (if t = b then a else t)" if "x \<in> sites ps t" for x t
      using that by (auto simp: link \<open>a \<noteq> b\<close>)
    show "?r \<Longrightarrow> ?l" unfolding conn_def using * [of x] * [of y] by fastforce
  qed
  ultimately show ?thesis using assms(2) by (auto simp: doubleton_eq_iff)
qed

lemma wqu_max1_site: "wqu_site p \<Longrightarrow> wqu_site q \<Longrightarrow> wqu_max1 (int p) (int q) = Inr (int (Suc (max p q)))"
  by (auto simp: wqu_max1_def wqu_site_def int_add_def int_res_def in_int_def max_def)

text \<open>Growing and finding both ends: the common start of a union and of a query.\<close>

lemma wqu_locate:
  assumes L: "cvector_ok L" and w: "wqu_rep w ps zs" and pq: "wqu_site p" "wqu_site q"
  obtains m w1 ps1 zs1 r s where "wqu_max1 (int p) (int q) = Inr m" "wqu_grow L w m = Inr (0, w1)"
    "wqu_rep w1 ps1 zs1" "conn ps1 = conn ps" "p \<in> sites ps1 r" "q \<in> sites ps1 s"
    "wqu_find w1 (int p) = Inr (int r)" "wqu_find w1 (int q) = Inr (int s)"
proof -
  let ?m = "Suc (max p q)" and ?ps = "ps @ [length ps..<Suc (max p q)]"
  from pq have "?m \<le> nat INT_MAX" by (auto simp: wqu_site_def)
  from wqu_grow_correct [OF L w this] obtain w1 zs1 where
    g: "wqu_grow L w (int ?m) = Inr (0, w1)" and w1: "wqu_rep w1 ?ps zs1" by blast
  have f: "forest ?ps" using w1 by (simp add: wqu_rep_def)
  have "length ?ps = max (length ps) ?m" by (simp del: upt.simps)
  then have "p < length ?ps" "q < length ?ps" by auto
  with forestD [OF f] obtain r s where rs: "p \<in> sites ?ps r" "q \<in> sites ?ps s" by metis
  have "conn ?ps = conn ps"
    using w by (auto simp: wqu_rep_def conn_grow fun_eq_iff simp del: upt.simps)
  with that [OF wqu_max1_site [OF pq] g w1 _ rs] show ?thesis
    using wqu_find_correct [OF w1 rs(1)] wqu_find_correct [OF w1 rs(2)] by blast
qed

lemma wqu_union_law:
  assumes L: "cvector_ok L" and inv: "wqu_inv st" and pq: "wqu_site p" "wqu_site q"
  shows "\<exists>st'. wqu_union L st (int p) (int q) = Inr (0, st') \<and> wqu_inv st' \<and>
    (\<forall>x y. wqu_conn st' x y \<longleftrightarrow> wqu_conn st x y \<or> wqu_conn st x p \<and> wqu_conn st q y \<or>
      wqu_conn st x q \<and> wqu_conn st p y)"
proof -
  from inv obtain w ps zs where st: "st = Some w" and w: "wqu_rep w ps zs"
    by (auto simp: wqu_inv_def)
  obtain m w1 ps1 zs1 r s where l: "wqu_max1 (int p) (int q) = Inr m" "wqu_grow L w m = Inr (0, w1)"
    and w1: "wqu_rep w1 ps1 zs1" and c: "conn ps1 = conn ps"
    and rs: "p \<in> sites ps1 r" "q \<in> sites ps1 s"
    and fnd: "wqu_find w1 (int p) = Inr (int r)" "wqu_find w1 (int q) = Inr (int s)"
    using wqu_locate [OF L w pq] by blast
  show ?thesis
  proof (cases "r = s")
    case True
    with rs have "conn ps1 p q" by (auto simp: conn_def)
    then have "wqu_conn st x y \<longleftrightarrow> wqu_conn st x y \<or> wqu_conn st x p \<and> wqu_conn st q y \<or>
      wqu_conn st x q \<and> wqu_conn st p y" for x y
      using conn_equivp [of ps] by (simp add: st wqu_rep_conn [OF w] c equivp_def) metis
    moreover have "wqu_conn (Some w1) = wqu_conn st"
      using st w w1 c by (simp add: wqu_rep_conn)
    ultimately show ?thesis
      using True st l fnd w1 by (auto simp: wqu_union_def wqu_inv_def)
  next
    case False
    from rs have rt: "r < length ps1" "ps1 ! r = r" "s < length ps1" "ps1 ! s = s"
      by (auto dest: sites_root)
    from wqu_link_correct [OF w1 rt False] obtain w2 a b where
      w2: "wqu_link w1 (int r) (int s) = Inr w2" "{a, b} = {r, s}"
        "wqu_rep w2 (ps1[b := a]) (zs1[a := zs1 ! a + zs1 ! b])" by blast
    have "forest ps1" using w1 by (simp add: wqu_rep_def)
    from conn_link [OF this w2(2) False rs] c
    have "\<forall>x y. wqu_conn (Some w2) x y \<longleftrightarrow> wqu_conn st x y \<or> wqu_conn st x p \<and> wqu_conn st q y \<or>
      wqu_conn st x q \<and> wqu_conn st p y"
      by (simp add: st wqu_rep_conn [OF w] wqu_rep_conn [OF w2(3)])
    with False st l fnd w2 show ?thesis by (auto simp: wqu_union_def wqu_inv_def)
  qed
qed

lemma wqu_is_connected_law:
  assumes L: "cvector_ok L" and inv: "wqu_inv st" and pq: "wqu_site p" "wqu_site q"
  shows "\<exists>st'. wqu_is_connected L st (int p) (int q) = Inr (if wqu_conn st p q then 1 else 0, st') \<and>
    wqu_inv st' \<and> wqu_conn st' = wqu_conn st"
proof -
  from inv obtain w ps zs where st: "st = Some w" and w: "wqu_rep w ps zs"
    by (auto simp: wqu_inv_def)
  obtain m w1 ps1 zs1 r s where l: "wqu_max1 (int p) (int q) = Inr m" "wqu_grow L w m = Inr (0, w1)"
    and w1: "wqu_rep w1 ps1 zs1" and c: "conn ps1 = conn ps"
    and rs: "p \<in> sites ps1 r" "q \<in> sites ps1 s"
    and fnd: "wqu_find w1 (int p) = Inr (int r)" "wqu_find w1 (int q) = Inr (int s)"
    using wqu_locate [OF L w pq] by blast
  have "conn ps1 p q \<longleftrightarrow> r = s" using rs conn_sites [OF rs(2)] by (auto dest: sites_unique)
  with st l fnd w1 c w show ?thesis
    by (auto simp: wqu_is_connected_def wqu_inv_def wqu_rep_conn)
qed

lemma wqu_init_correct:
  assumes "cvector_ok L"
  shows "\<exists>w. wqu_init L (Some w0) = Inr (0, Some w) \<and> wqu_inv (Some w) \<and> wqu_conn (Some w) = (=)"
proof -
  let ?w = "\<lparr>ids = cell_list [0], maxid = 0, sz = cell_list [1]\<rparr>"
  have "length (cv_init L 1) = 1" using assms by (simp add: cvector_ok_def)
  then obtain c where "cv_init L 1 = [c]" by (auto simp: length_Suc_conv)
  then have init: "wqu_init L (Some w0) = Inr (0, Some ?w)"
    by (simp add: wqu_init_def wr_def)
  have c: "climbs [0] 0 0 0" by (rule climbs.root) auto
  have s: "sites [0] r = (if r = 0 then {0} else {})" for r
    using c by (auto simp: sites_def dest: climbs_less)
  have rep: "wqu_rep ?w [0] [1]"
    using c by (auto simp: wqu_rep_def forest_def s intro!: exI [of _ 0])
  have "conn [0] = (=)" by (auto simp: conn_def s fun_eq_iff split: if_splits)
  with rep have "wqu_inv (Some ?w)" "wqu_conn (Some ?w) = (=)"
    unfolding wqu_inv_def wqu_rep_conn [OF rep] by blast+
  with init show ?thesis by blast
qed

interpretation wqu: dyn_connectivity "\<lambda>s. cvector_ok L \<and> wqu_inv s" wqu_conn
  "\<lambda>w p q. wqu_union L w (int p) (int q)" "\<lambda>w p q. wqu_is_connected L w (int p) (int q)" wqu_site
  for L
proof
  show "equivp (wqu_conn s)" if "cvector_ok L \<and> wqu_inv s" for s
    using that conn_equivp by (auto simp: wqu_inv_def wqu_rep_conn)
qed (use wqu_union_law wqu_is_connected_law in blast)+

section \<open>Properties\<close>

text \<open>A vector library that behaves as documented: new cells are indeterminate.\<close>

definition cv_ref :: cvec_lib where
  "cv_ref = \<lparr>cv_init = (\<lambda>n. replicate n None), cv_capacity = length,
             cv_grow = (\<lambda>v n. v @ replicate (n - length v) None)\<rparr>"

lemma cv_ref_ok: "cvector_ok cv_ref"
  by (simp add: cvector_ok_def cv_ref_def)

lemma wqu_load_closure:
  assumes "cvector_ok L" and "\<forall>(p, q) \<in> set es. wqu_site p \<and> wqu_site q"
  shows "\<exists>s. wqu_load L (Some w0) es = Inr s \<and>
    (\<forall>x y. wqu_site x \<longrightarrow> wqu_site y \<longrightarrow>
      (\<exists>s'. wqu_is_connected L s (int x) (int y) =
        Inr (if (x, y) \<in> (set es \<union> (set es)\<inverse>)\<^sup>* then 1 else 0, s')))"
proof -
  from wqu_init_correct [OF assms(1)] obtain w where
    w: "wqu_init L (Some w0) = Inr (0, Some w)" "wqu_inv (Some w)" "wqu_conn (Some w) = (=)" by blast
  have inv: "cvector_ok L \<and> wqu_inv (Some w)" using assms(1) w(2) by blast
  from wqu.uf_load_closure [OF inv assms(2)] obtain s where
    s: "wqu_load L (Some w0) es = Inr s" "wqu_inv s"
      "{(x, y). wqu_conn s x y} = ({(x, y). wqu_conn (Some w) x y} \<union> set es \<union> (set es)\<inverse>)\<^sup>*"
    using w(1) by (auto simp: wqu_load_def)
  have "{(x, y). wqu_conn (Some w) x y} = Id" by (auto simp: w(3))
  then have "{(x, y). wqu_conn s x y} = (set es \<union> (set es)\<inverse>)\<^sup>*"
    using s(3) rtrancl_reflcl [of "set es \<union> (set es)\<inverse>"] by (simp add: Un_commute Un_left_commute)
  then have c: "wqu_conn s x y \<longleftrightarrow> (x, y) \<in> (set es \<union> (set es)\<inverse>)\<^sup>*" for x y
    by blast
  have "\<exists>s'. wqu_is_connected L s (int x) (int y) =
      Inr (if (x, y) \<in> (set es \<union> (set es)\<inverse>)\<^sup>* then 1 else 0, s')"
    if "wqu_site x" "wqu_site y" for x y
    using wqu_is_connected_law [OF assms(1) s(2) that] unfolding c by blast
  with s(1) show ?thesis by blast
qed

text \<open>After loading any list of pairs into a fresh object, a connectivity query answers
  exactly whether the two sites are related by the equivalence closure of the pairs. Every run
  involved returns: no access is out of range, no assertion fails, no addition overflows and
  every walk to a root ends.\<close>

theorem wqu_load_connected:
  assumes "cvector_ok L" and "\<forall>(p, q) \<in> set es. wqu_site p \<and> wqu_site q"
  shows "\<exists>s. wqu_load L (Some w0) es = Inr s \<and>
    (\<forall>x y. wqu_site x \<longrightarrow> wqu_site y \<longrightarrow>
      (\<exists>s'. wqu_is_connected L s (int x) (int y) =
        Inr (if (x, y) \<in> (set es \<union> (set es)\<inverse>)\<^sup>* then 1 else 0, s')))"
  using assms by (rule wqu_load_closure)

theorem wqu_load_connected_witness:
  "\<exists>s. wqu_load cv_ref (Some \<lparr>ids = [], maxid = 7, sz = []\<rparr>) [(4, 3), (3, 8)] = Inr s \<and>
    (\<forall>x y. wqu_site x \<longrightarrow> wqu_site y \<longrightarrow>
      (\<exists>s'. wqu_is_connected cv_ref s (int x) (int y) =
        Inr (if (x, y) \<in> (set [(4, 3), (3, 8)] \<union> (set [(4, 3), (3, 8)])\<inverse>)\<^sup>* then 1 else 0, s')))"
  by (rule wqu_load_connected [OF cv_ref_ok]) (simp add: wqu_site_def)

text \<open>C2: every operation keeps the representation invariant, and a union changes the
  connectivity relation by joining the classes of its two sites, nothing else; a query leaves
  the relation as it is.\<close>

theorem wqu_union_joins:
  assumes "cvector_ok L" "wqu_inv st" "wqu_site p" "wqu_site q"
  shows "\<exists>st' st''. wqu_union L st (int p) (int q) = Inr (0, st') \<and> wqu_inv st' \<and>
    (\<forall>x y. wqu_conn st' x y \<longleftrightarrow> wqu_conn st x y \<or> wqu_conn st x p \<and> wqu_conn st q y \<or>
      wqu_conn st x q \<and> wqu_conn st p y) \<and>
    wqu_is_connected L st (int p) (int q) = Inr (if wqu_conn st p q then 1 else 0, st'') \<and>
    wqu_inv st'' \<and> wqu_conn st'' = wqu_conn st"
  using wqu_union_law [OF assms] wqu_is_connected_law [OF assms] by blast

theorem wqu_union_joins_witness:
  "\<exists>w. wqu_init cv_ref (Some \<lparr>ids = [], maxid = 7, sz = []\<rparr>) = Inr (0, Some w) \<and>
    (\<exists>st' st''. wqu_union cv_ref (Some w) (int 4) (int 2) = Inr (0, st') \<and> wqu_inv st' \<and>
    (\<forall>x y. wqu_conn st' x y \<longleftrightarrow> wqu_conn (Some w) x y \<or> wqu_conn (Some w) x 4 \<and> wqu_conn (Some w) 2 y \<or>
      wqu_conn (Some w) x 2 \<and> wqu_conn (Some w) 4 y) \<and>
    wqu_is_connected cv_ref (Some w) (int 4) (int 2) = Inr (if wqu_conn (Some w) 4 2 then 1 else 0, st'') \<and>
    wqu_inv st'' \<and> wqu_conn st'' = wqu_conn (Some w))"
proof -
  obtain w where w: "wqu_init cv_ref (Some \<lparr>ids = [], maxid = 7, sz = []\<rparr>) = Inr (0, Some w)"
    "wqu_inv (Some w)" using wqu_init_correct [OF cv_ref_ok] by blast
  with wqu_union_joins [OF cv_ref_ok w(2), of 4 2] show ?thesis by (auto simp: wqu_site_def)
qed

text \<open>The objects that any sequence of unions and queries produces, from \<open>wqu_init\<close> on.\<close>

inductive wqu_reached :: "cvec_lib \<Rightarrow> wqu_s option \<Rightarrow> bool" for L where
  init: "wqu_init L (Some w0) = Inr (rc, st) \<Longrightarrow> wqu_reached L st"
| union: "wqu_reached L st \<Longrightarrow> wqu_site p \<Longrightarrow> wqu_site q \<Longrightarrow> wqu_union L st (int p) (int q) = Inr (rc, st') \<Longrightarrow> wqu_reached L st'"
| query: "wqu_reached L st \<Longrightarrow> wqu_site p \<Longrightarrow> wqu_site q \<Longrightarrow> wqu_is_connected L st (int p) (int q) = Inr (rc, st') \<Longrightarrow> wqu_reached L st'"

lemma wqu_reached_inv:
  assumes "cvector_ok L" "wqu_reached L st"
  shows "wqu_inv st"
  using assms(2)
proof (induction rule: wqu_reached.induct)
  case (init w0 rc st)
  then show ?case using wqu_init_correct [OF assms(1), of w0] by auto
next
  case (union st p q rc st')
  then show ?case using wqu_union_law [OF assms(1) union.IH union.hyps(2,3)] by auto
next
  case (query st p q rc st')
  then show ?case using wqu_is_connected_law [OF assms(1) query.IH query.hyps(2,3)] by auto
qed

text \<open>C1: the weights keep the trees flat. After any sequence of unions and queries that starts with \<open>wqu_init\<close> the walk of \<open>wqu_find\<close> from
  any stored site reads at most \<open>d + 1\<close> cells for some \<open>d\<close> with \<open>2\<^sup>d\<close> at most the number of sites, so the fuel of the model is never used up.\<close>

theorem wqu_find_logarithmic:
  assumes "cvector_ok L" "wqu_reached L (Some w)" "0 \<le> p" "p \<le> maxid w"
  shows "\<exists>d r. 2 ^ d \<le> length (ids w) \<and> wqu_find_loop (Suc d) (ids w) p = Inr r \<and>
    wqu_find w p = Inr r \<and> rd (ids w) r = Inr r"
proof -
  from wqu_reached_inv [OF assms(1,2)] obtain ps zs where w: "wqu_rep w ps zs" by (auto simp: wqu_inv_def)
  note D = wqu_repD [OF w]
  define n where "n = nat p"
  have n: "p = int n" "n < length ps" using assms(3,4) D(5) by (auto simp: n_def)
  then obtain d r where d: "climbs ps n d r" using D(4) by (auto simp: forest_def)
  then have "n \<in> sites ps r" by (auto simp: sites_def)
  from wqu_find_correct [OF w this] have "wqu_find w p = Inr (int r)" by (simp add: n)
  moreover have "2 ^ d \<le> length (ids w)"
    using forest_depth(1) [OF d D(4)] card_sites_le [of ps r] D(1) by simp
  moreover have "wqu_find_loop (Suc d) (ids w) p = Inr (int r)"
    using wqu_find_loop_correct [OF d, of "Suc d"] D(1) n by simp
  moreover have "rd (ids w) (int r) = Inr (int r)"
    using climbs_less [OF d] D(1) by (simp add: rd_cell_list)
  ultimately show ?thesis by blast
qed

text \<open>Four sites in one tree of height two: two pairs are joined, then the pairs.\<close>

theorem wqu_find_logarithmic_witness:
  "\<exists>w d r. wqu_load cv_ref (Some \<lparr>ids = [], maxid = 7, sz = []\<rparr>) [(0, 1), (2, 3), (1, 3)] = Inr (Some w) \<and> ids w = map Some [0, 0, 0, 2] \<and>
    2 ^ d \<le> length (ids w) \<and> wqu_find_loop (Suc d) (ids w) 3 = Inr r \<and> wqu_find w 3 = Inr r \<and> rd (ids w) r = Inr r"
proof -
  define w0 :: wqu_s where "w0 = \<lparr>ids = map Some [0], maxid = 0, sz = map Some [1]\<rparr>"
  define w1 :: wqu_s where "w1 = \<lparr>ids = map Some [0, 0], maxid = 1, sz = map Some [2, 1]\<rparr>"
  define w2 :: wqu_s where "w2 = \<lparr>ids = map Some [0, 0, 2, 2], maxid = 3, sz = map Some [2, 1, 2, 1]\<rparr>"
  define w3 :: wqu_s where "w3 = \<lparr>ids = map Some [0, 0, 0, 2], maxid = 3, sz = map Some [4, 1, 2, 1]\<rparr>"
  have steps: "wqu_init cv_ref (Some \<lparr>ids = [], maxid = 7, sz = []\<rparr>) = Inr (0, Some w0)" "wqu_union cv_ref (Some w0) (int 0) (int 1) = Inr (0, Some w1)"
    "wqu_union cv_ref (Some w1) (int 2) (int 3) = Inr (0, Some w2)" "wqu_union cv_ref (Some w2) (int 1) (int 3) = Inr (0, Some w3)"
    "wqu_load cv_ref (Some \<lparr>ids = [], maxid = 7, sz = []\<rparr>) [(0, 1), (2, 3), (1, 3)] = Inr (Some w3)"
    unfolding w0_def w1_def w2_def w3_def by code_simp+
  have "wqu_reached cv_ref (Some w3)"
    by (rule wqu_reached.union [OF wqu_reached.union [OF wqu_reached.union [OF wqu_reached.init [OF steps(1)] _ _ steps(2)] _ _ steps(3)] _ _ steps(4)])
      (simp_all add: wqu_site_def)
  moreover have "ids w3 = map Some [0, 0, 0, 2]" "maxid w3 = 3" by (simp_all add: w3_def)
  ultimately show ?thesis using wqu_find_logarithmic [OF cv_ref_ok, of w3 3] steps(5) by (metis order_refl zero_le_numeral)
qed

text \<open>The error paths: a null object and a pair without a non-negative site are refused with
  their codes, and a pair with one negative site fails the assertion of \<open>wqu_find\<close>.\<close>

theorem wqu_union_errors:
  assumes "cvector_ok L" "wqu_inv (Some w)" "p < -1" "INT_MIN \<le> p" "INT_MIN \<le> n" "n < -1"
    "0 \<le> q" "q < INT_MAX"
  shows "wqu_union L None p q = Inr (-1, None) \<and>
    wqu_union L (Some w) p n = Inr (-2, Some w) \<and>
    wqu_union L (Some w) p q = Inl AssertFail"
proof (intro conjI)
  show "wqu_union L None p q = Inr (-1, None)" by (simp add: wqu_union_def)
  show "wqu_union L (Some w) p n = Inr (-2, Some w)"
    using assms
    by (auto simp: wqu_union_def wqu_max1_def int_add_def int_res_def in_int_def wqu_grow_def)
  from assms(2) obtain ps zs where w: "wqu_rep w ps zs" by (auto simp: wqu_inv_def)
  have "nat (q + 1) \<le> nat INT_MAX" using assms by simp
  from wqu_grow_correct [OF assms(1) w this] assms obtain w1 where
    "wqu_grow L w (q + 1) = Inr (0, w1)" by auto
  with assms show "wqu_union L (Some w) p q = Inl AssertFail"
    by (auto simp: wqu_union_def wqu_max1_def int_add_def int_res_def in_int_def wqu_find_def)
qed

theorem wqu_union_errors_witness:
  "\<exists>w. wqu_init cv_ref (Some \<lparr>ids = [], maxid = 7, sz = []\<rparr>) = Inr (0, Some w) \<and>
    wqu_union cv_ref None (-5) 3 = Inr (-1, None) \<and>
    wqu_union cv_ref (Some w) (-5) (-2) = Inr (-2, Some w) \<and>
    wqu_union cv_ref (Some w) (-5) 3 = Inl AssertFail"
proof -
  obtain w where w: "wqu_init cv_ref (Some \<lparr>ids = [], maxid = 7, sz = []\<rparr>) = Inr (0, Some w)"
    "wqu_inv (Some w)" using wqu_init_correct [OF cv_ref_ok] by blast
  with wqu_union_errors [OF cv_ref_ok w(2), of "-5" "-2" 3] show ?thesis by auto
qed

text \<open>The scenarios of the program's own test pass in the model: every assertion on
  connectivity and on component sizes holds and the test returns 0.\<close>

theorem test_1_5_passes:
  "test_algorithms4th_1_5_main cv_ref \<lparr>ids = [], maxid = 0, sz = []\<rparr> = Inr 0"
  by code_simp

end
