(* ===== verification/C_Text.thy ===== *)
theory C_Text
  imports C_Prelude
begin

text \<open>
  What the sources use of formatted input and output: \<open>%d\<close> and \<open>%zu\<close> in \<open>fscanf\<close> and \<open>%d\<close> in \<open>printf\<close>,
  on texts as lists of characters, and \<open>snprintf\<close> into a buffer. The central fact is that reading a number back after
  printing it gives the number.
\<close>

section \<open>Printing numbers\<close>

definition digit :: "nat \<Rightarrow> char" where
  "digit d = char_of (48 + d)"

fun show_nat :: "nat \<Rightarrow> string" where
  "show_nat n = (if n < 10 then [digit n] else show_nat (n div 10) @ [digit (n mod 10)])"

declare show_nat.simps [simp del]

definition show_int :: "int \<Rightarrow> string" where
  "show_int k = (if k < 0 then CHR ''-'' # show_nat (nat (- k)) else show_nat (nat k))"

section \<open>Reading numbers\<close>

definition isdigit :: "char \<Rightarrow> bool" where
  "isdigit c \<longleftrightarrow> 48 \<le> (of_char c :: nat) \<and> (of_char c :: nat) \<le> 57"

definition isspace :: "char \<Rightarrow> bool" where
  "isspace c \<longleftrightarrow> (of_char c :: nat) = 32 \<or> 9 \<le> (of_char c :: nat) \<and> (of_char c :: nat) \<le> 13"

definition read_digits :: "string \<Rightarrow> nat" where
  "read_digits ds = foldl (\<lambda>n c. n * 10 + (of_char c - 48)) 0 ds"

text \<open>The end of the input, a matching failure, or the value; with the rest of the input.\<close>

datatype 'a scan = ScanEof | ScanFail string | ScanOk 'a string

definition scan_digits :: "int \<Rightarrow> string \<Rightarrow> int scan" where
  "scan_digits sg s =
     (let ds = takeWhile isdigit s in
      if ds = [] then ScanFail s else ScanOk (sg * int (read_digits ds)) (dropWhile isdigit s))"

definition scan_num :: "string \<Rightarrow> int scan" where
  "scan_num s =
     (case dropWhile isspace s of [] \<Rightarrow> ScanEof
      | c # cs \<Rightarrow> if c = CHR ''-'' then scan_digits (- 1) cs
                 else if c = CHR ''+'' then scan_digits 1 cs else scan_digits 1 (c # cs))"

section \<open>Reading back what was printed\<close>

lemma digit_code: "d < 10 \<Longrightarrow> of_char (digit d) = (48 + d :: nat)"
  by (simp add: digit_def)

lemma isdigit_digit [simp]: "d < 10 \<Longrightarrow> isdigit (digit d)"
  by (simp add: isdigit_def digit_code)

lemma show_nat_digits: "list_all isdigit (show_nat n)"
proof (induction n rule: show_nat.induct)
  case (1 n)
  then show ?case by (subst show_nat.simps) simp
qed

lemma show_nat_nonempty [simp]: "show_nat n \<noteq> []"
  by (subst show_nat.simps) simp

lemma read_show_nat: "read_digits (show_nat n) = n"
proof (induction n rule: show_nat.induct)
  case (1 n)
  show ?case
  proof (cases "n < 10")
    case True
    then show ?thesis by (subst show_nat.simps) (simp add: read_digits_def digit_code)
  next
    case False
    then show ?thesis using 1 by (subst show_nat.simps) (simp add: read_digits_def digit_code)
  qed
qed

lemma isdigit_not_space: "isdigit c \<Longrightarrow> \<not> isspace c"
  by (auto simp: isdigit_def isspace_def)

lemma isdigit_not_sign: "isdigit c \<Longrightarrow> c \<noteq> CHR ''-'' \<and> c \<noteq> CHR ''+''"
  by (auto simp: isdigit_def)

text \<open>What may follow a printed number in the input.\<close>

definition ends_number :: "string \<Rightarrow> bool" where
  "ends_number s \<longleftrightarrow> (case s of [] \<Rightarrow> True | c # cs \<Rightarrow> \<not> isdigit c)"

lemma takeWhile_show: "ends_number s \<Longrightarrow> takeWhile isdigit (show_nat n @ s) = show_nat n"
proof -
  assume "ends_number s"
  then have "takeWhile isdigit s = []" by (cases s) (auto simp: ends_number_def)
  then show ?thesis using show_nat_digits [of n] by (subst takeWhile_append2) (auto simp: list_all_iff)
qed

lemma dropWhile_show: "ends_number s \<Longrightarrow> dropWhile isdigit (show_nat n @ s) = s"
proof -
  assume "ends_number s"
  then have "dropWhile isdigit s = s" by (cases s) (auto simp: ends_number_def)
  then show ?thesis using show_nat_digits [of n] by (subst dropWhile_append2) (auto simp: list_all_iff)
qed

lemma scan_digits_show: "ends_number s \<Longrightarrow> scan_digits sg (show_nat n @ s) = ScanOk (sg * int n) s"
  by (simp add: scan_digits_def takeWhile_show dropWhile_show read_show_nat)

lemma scan_show: "ends_number s \<Longrightarrow> scan_num (show_int k @ s) = ScanOk k s"
proof (cases "k < 0")
  case True
  moreover have "\<not> isspace (CHR ''-'')" by (simp add: isspace_def)
  moreover assume "ends_number s"
  ultimately show ?thesis using scan_digits_show [of s "- 1" "nat (- k)"] by (simp add: scan_num_def show_int_def)
next
  case False
  obtain c cs where c: "show_nat (nat k) = c # cs" by (cases "show_nat (nat k)") auto
  then have "isdigit c" using show_nat_digits [of "nat k"] by simp
  moreover assume "ends_number s"
  ultimately show ?thesis using False scan_digits_show [of s 1 "nat k"] isdigit_not_space isdigit_not_sign c
    by (simp add: scan_num_def show_int_def)
qed

lemma scan_space: "isspace c \<Longrightarrow> scan_num (c # s) = scan_num s"
  by (simp add: scan_num_def)

lemma isspace_chars [simp]: "isspace (CHR '' '')" "isspace (CHR 0x0A)"
  by (simp_all add: isspace_def)

lemma ends_number_space [simp]: "isspace c \<Longrightarrow> ends_number (c # s)"
  using isdigit_not_space by (auto simp: ends_number_def)

text \<open>A text whose first character cannot start a number is not consumed.\<close>

lemma scan_stuck:
  "\<not> isspace c \<Longrightarrow> \<not> isdigit c \<Longrightarrow> c \<noteq> CHR ''-'' \<Longrightarrow> c \<noteq> CHR ''+'' \<Longrightarrow> scan_num (c # s) = ScanFail (c # s)"
  by (simp add: scan_num_def scan_digits_def)

section \<open>Writing into a buffer\<close>

text \<open>\<open>snprintf(buf + off, size, ...)\<close> writes at most \<open>size\<close> characters, the terminating zero included.\<close>

definition overwrite :: "'a list \<Rightarrow> nat \<Rightarrow> 'a list \<Rightarrow> cerr + 'a list" where
  "overwrite buf off s =
     (if off + length s \<le> length buf then Inr (take off buf @ s @ drop (off + length s) buf) else Inl OutOfBounds)"

definition snprintf_at :: "string \<Rightarrow> nat \<Rightarrow> nat \<Rightarrow> string \<Rightarrow> cerr + string" where
  "snprintf_at buf off sz s = (if sz = 0 then Inr buf else overwrite buf off (take (sz - 1) s @ [CHR 0x00]))"

section \<open>Reading pairs of numbers\<close>

text \<open>\<open>fscanf(in, "%d", &w)\<close> as a part of a format; a value out of range is undefined.\<close>

definition fscanf_d :: "string \<Rightarrow> cerr + int scan" where
  "fscanf_d s = (case scan_num s of ScanOk k s' \<Rightarrow> if in_int k then Inr (ScanOk k s') else Inl SignedOverflow | r \<Rightarrow> Inr r)"

text \<open>\<open>fscanf(in, "%d%d", &w, &x)\<close>: \<open>None\<close> for EOF; else the two numbers if both were read, and the rest.\<close>

definition fscanf_dd :: "string \<Rightarrow> cerr + ((int \<times> int) option \<times> string) option" where
  "fscanf_dd s =
     bindr (fscanf_d s) (\<lambda>r. case r of ScanEof \<Rightarrow> Inr None | ScanFail s' \<Rightarrow> Inr (Some (None, s'))
     | ScanOk w s1 \<Rightarrow> bindr (fscanf_d s1) (\<lambda>r. case r of ScanEof \<Rightarrow> Inr (Some (None, [])) | ScanFail s' \<Rightarrow> Inr (Some (None, s'))
     | ScanOk x s2 \<Rightarrow> Inr (Some (Some (w, x), s2))))"

text \<open>A line with two numbers, as the data files have them.\<close>

definition edge_line :: "int \<times> int \<Rightarrow> string" where
  "edge_line e = show_int (fst e) @ '' '' @ show_int (snd e) @ [CHR 0x0A]"

lemma show_int_nat: "show_int (int n) = show_nat n"
  by (simp add: show_int_def)

lemma fscanf_d_space: "isspace c \<Longrightarrow> fscanf_d (c # s) = fscanf_d s"
  by (simp add: fscanf_d_def scan_space)

lemma fscanf_dd_space: "isspace c \<Longrightarrow> fscanf_dd (c # s) = fscanf_dd s"
  by (simp add: fscanf_dd_def fscanf_d_space)

lemma fscanf_d_show: "in_int k \<Longrightarrow> ends_number s \<Longrightarrow> fscanf_d (show_int k @ s) = Inr (ScanOk k s)"
  by (simp add: fscanf_d_def scan_show)

lemma fscanf_dd_line:
  assumes "in_int (fst e)" "in_int (snd e)"
  shows "fscanf_dd (edge_line e @ s) = Inr (Some (Some e, CHR 0x0A # s))"
proof -
  have "fscanf_d (show_int (fst e) @ CHR '' '' # show_int (snd e) @ CHR 0x0A # s) =
      Inr (ScanOk (fst e) (CHR '' '' # show_int (snd e) @ CHR 0x0A # s))"
    by (rule fscanf_d_show [OF assms(1)]) simp
  moreover have "fscanf_d (CHR '' '' # show_int (snd e) @ CHR 0x0A # s) = Inr (ScanOk (snd e) (CHR 0x0A # s))"
    using fscanf_d_show [OF assms(2), of "CHR 0x0A # s"] by (simp add: fscanf_d_space)
  ultimately show ?thesis by (simp add: fscanf_dd_def edge_line_def)
qed

lemma fscanf_dd_end: "fscanf_dd [CHR 0x0A] = Inr None" "fscanf_dd [] = Inr None"
  by (simp_all add: fscanf_dd_def fscanf_d_def scan_num_def)

end
