(* ===== verification/UF_Files.thy ===== *)
theory UF_Files
  imports Weighted_Quick_Union C_Text
begin

text \<open>
  The part of the test of \<^verbatim>\<open>src/algs/algorithms4th/1.5.c\<close> that reads pairs of sites from a data file into a union-find object.

  The loop ends when \<open>fscanf\<close> reports the end of the file only, so that it has fuel: a text that is not a number is never
  consumed, and the loop goes on until its counter overflows (\<open>uf_file_hangs\<close>). On a file of the expected form the loop is \<open>wqu_load\<close> on its pairs (\<open>uf_file_load\<close>).
\<close>

section \<open>The program\<close>

text \<open>The rounds after the first, which read a pair each. Every round, the last one too, increments the \<open>int\<close> counter \<open>i\<close>.\<close>

fun uf_file_loop :: "nat \<Rightarrow> cvec_lib \<Rightarrow> wqu_s option \<Rightarrow> int \<Rightarrow> string \<Rightarrow> cerr + wqu_s option" where
  "uf_file_loop 0 L pu i s = Inl OutOfFuel"
| "uf_file_loop (Suc n) L pu i s =
     bindr (fscanf_dd s) (\<lambda>r. case r of None \<Rightarrow> bindr (int_add i 1) (\<lambda>i. Inr pu)
     | Some (None, s') \<Rightarrow> bindr (int_add i 1) (\<lambda>i. uf_file_loop n L pu i s')
     | Some (Some (p, q), s') \<Rightarrow>
         bindr (wqu_is_connected L pu p q) (\<lambda>(c, pu).
         if c \<noteq> 0 then bindr (int_add i 1) (\<lambda>i. uf_file_loop n L pu i s')
         else bindr (wqu_union L pu p q) (\<lambda>(rc, pu). bindr (assertr (rc = 0)) (\<lambda>_. bindr (int_add i 1) (\<lambda>i. uf_file_loop n L pu i s')))))"

text \<open>The whole block; \<open>f\<close> is the text of the file, or \<open>None\<close> if it cannot be opened. The first round reads the number of sites
  and does not use it.\<close>

definition uf_read_file :: "nat \<Rightarrow> cvec_lib \<Rightarrow> wqu_s option \<Rightarrow> string option \<Rightarrow> cerr + wqu_s option" where
  "uf_read_file n L uobj f =
     bindr (wqu_init L uobj) (\<lambda>(rc, pu). bindr (assertr (rc = 0)) (\<lambda>_.
     bindr (assertr (f \<noteq> None)) (\<lambda>_. bindr (deref f) (\<lambda>s.
     bindr (fscanf_d s) (\<lambda>r. case r of
       ScanEof \<Rightarrow> bindr (int_add 0 1) (\<lambda>i. Inr pu)
     | ScanFail s' \<Rightarrow> bindr (int_add 0 1) (\<lambda>i. uf_file_loop n L pu i s')
     | ScanOk _ s' \<Rightarrow> bindr (int_add 0 1) (\<lambda>i. uf_file_loop n L pu i s'))))))"

section \<open>Files of pairs\<close>

definition uf_text :: "nat \<Rightarrow> (nat \<times> nat) list \<Rightarrow> string" where
  "uf_text k es = show_nat k @ [CHR 0x0A] @ concat (map (\<lambda>(p, q). edge_line (int p, int q)) es)"

definition pairs_ok :: "(nat \<times> nat) list \<Rightarrow> bool" where
  "pairs_ok es \<longleftrightarrow> (\<forall>(p, q) \<in> set es. wqu_site p \<and> wqu_site q)"

lemma site_in_int: "wqu_site p \<Longrightarrow> in_int (int p)"
  by (simp add: wqu_site_def in_int_def)

lemma uf_file_pairs:
  "pairs_ok es \<Longrightarrow> length es < n \<Longrightarrow> 0 \<le> i \<Longrightarrow> i + int (length es) < INT_MAX \<Longrightarrow>
   uf_file_loop n L pu i (CHR 0x0A # concat (map (\<lambda>(p, q). edge_line (int p, int q)) es)) =
   uf_load (\<lambda>w p q. wqu_union L w (int p) (int q)) (\<lambda>w p q. wqu_is_connected L w (int p) (int q)) pu es"
proof (induction es arbitrary: n i pu)
  case Nil
  then obtain n' where "n = Suc n'" by (cases n) auto
  then show ?case using Nil.prems(3,4) by (simp add: fscanf_dd_end int_add_in in_int_def)
next
  case (Cons e es)
  obtain p q where e: "e = (p, q)" by (cases e)
  obtain n' where n: "n = Suc n'" "length es < n'" using Cons.prems(2) by (cases n) auto
  have ok: "pairs_ok es" "in_int (int p)" "in_int (int q)" using Cons.prems(1) site_in_int by (auto simp: pairs_ok_def e)
  let ?rest = "CHR 0x0A # concat (map (\<lambda>(p, q). edge_line (int p, int q)) es)"
  have "fscanf_dd (CHR 0x0A # concat (map (\<lambda>(p, q). edge_line (int p, int q)) (e # es))) = Inr (Some (Some (int p, int q), ?rest))"
    using fscanf_dd_line [of "(int p, int q)"] ok by (simp add: fscanf_dd_space e)
  moreover have "int_add i 1 = Inr (i + 1)" using Cons.prems(3,4) by (intro int_add_in) (simp add: in_int_def)
  moreover have "uf_file_loop n' L pu' (i + 1) ?rest = uf_load (\<lambda>w p q. wqu_union L w (int p) (int q)) (\<lambda>w p q. wqu_is_connected L w (int p) (int q)) pu' es" for pu'
    using Cons.prems(3,4) by (intro Cons.IH [OF ok(1) n(2)]) simp_all
  ultimately show ?case by (simp add: n(1) e cong: if_cong prod.case_cong)
qed

lemma uf_file_load:
  assumes "pairs_ok es" "length es < n" "in_int (int k)" "int (length es) + 1 < INT_MAX"
  shows "uf_read_file n L uobj (Some (uf_text k es)) = wqu_load L uobj es"
proof -
  have "fscanf_d (uf_text k es) = Inr (ScanOk (int k) (CHR 0x0A # concat (map (\<lambda>(p, q). edge_line (int p, int q)) es)))"
    using fscanf_d_show [OF assms(3)] by (simp add: uf_text_def show_int_nat)
  moreover have "int_add 0 1 = Inr 1" by (simp add: int_add_def int_res_def in_int_def)
  ultimately show ?thesis using uf_file_pairs [OF assms(1,2), of 1] assms(4) by (simp add: uf_read_file_def wqu_load_def add.commute)
qed

text \<open>A character that cannot start a number stops the reading: the loop never returns, and its counter overflows after \<open>2\<^sup>3\<^sup>1\<close> rounds.\<close>

lemma uf_file_hangs:
  assumes "\<not> isspace c" "\<not> isdigit c" "c \<noteq> CHR ''-''" "c \<noteq> CHR ''+''"
  shows "uf_file_loop n L pu i (c # s) \<in> {Inl OutOfFuel, Inl SignedOverflow}"
proof (induction n arbitrary: i)
  case (Suc n)
  have "fscanf_dd (c # s) = Inr (Some (None, c # s))" using assms by (simp add: fscanf_dd_def fscanf_d_def scan_stuck)
  then show ?case using Suc [of "i + 1"] by (simp add: int_add_def int_res_def)
qed simp

text \<open>C3: a printed file of a number of sites and a list of pairs, of fewer than \<open>2\<^sup>3\<^sup>1 - 2\<close> so that the counter of the loop does not overflow, is read back completely, with fuel for one round per pair
  and one more, and the object that results answers every connectivity query by the equivalence closure of the pairs of the
  file; the number in the first line has no influence.\<close>

theorem uf_file_connected:
  assumes "cvector_ok L" "pairs_ok es" "in_int (int k)" "length es < n" "int (length es) + 1 < INT_MAX"
  shows "\<exists>s. uf_read_file n L (Some w0) (Some (uf_text k es)) = Inr s \<and>
    (\<forall>x y. wqu_site x \<longrightarrow> wqu_site y \<longrightarrow>
      (\<exists>s'. wqu_is_connected L s (int x) (int y) =
        Inr (if (x, y) \<in> (set es \<union> (set es)\<inverse>)\<^sup>* then 1 else 0, s')))"
  using wqu_load_closure [OF assms(1), of es w0] assms(2)
  by (simp add: uf_file_load [OF assms(2,4,3,5)] pairs_ok_def)

theorem uf_file_connected_witness:
  "uf_text 10 [(4, 3), (3, 8)] = ''10'' @ [CHR 0x0A] @ ''4 3'' @ [CHR 0x0A] @ ''3 8'' @ [CHR 0x0A] \<and>
   (\<exists>s. uf_read_file 3 cv_ref (Some \<lparr>ids = [], maxid = 7, sz = []\<rparr>) (Some (uf_text 10 [(4, 3), (3, 8)])) = Inr s \<and>
    (\<forall>x y. wqu_site x \<longrightarrow> wqu_site y \<longrightarrow>
      (\<exists>s'. wqu_is_connected cv_ref s (int x) (int y) =
        Inr (if (x, y) \<in> (set [(4, 3), (3, 8)] \<union> (set [(4, 3), (3, 8)])\<inverse>)\<^sup>* then 1 else 0, s'))))"
proof (rule conjI)
  show "uf_text 10 [(4, 3), (3, 8)] = ''10'' @ [CHR 0x0A] @ ''4 3'' @ [CHR 0x0A] @ ''3 8'' @ [CHR 0x0A]" by code_simp
qed (rule uf_file_connected [OF cv_ref_ok], simp_all add: pairs_ok_def wqu_site_def in_int_def)

end
