(* ===== verification/Radix_Tree.thy ===== *)
theory Radix_Tree
  imports C_Prelude "HOL-Library.Word"
begin

text \<open>
  The radix tree of \<^verbatim>\<open>src/algs/intro_to_algs3th/radix_tree.cpp\<close>, a binary trie over the bits of a key.

  The model is the pointer program: nodes come from a pool of rows of zeroed memory, and an insertion walks down from the root
  and links the nodes that are missing. The bit sets of the source are words: \<open>bitset<sizeof(size_t)>\<close> has 8 bits (the bytes of a
  \<open>size_t\<close>, not its bits), so that the walk looks at the lowest 8 bits of a key. The trace output of the insertion is left out.

  The proofs relate the heap to a trie (\<open>rrep\<close>, with the set of addresses it uses) and the insertion to \<open>rt_put\<close> on the bits of the key,
  lowest bit first. It follows what the walk prints after any insertions into one tree, and that the pool never runs out of its first row. The walk is a function of
  the file that nothing calls, and \<open>radix_tree_sort\<close>, which builds a tree in a local variable and forgets it, runs off its end without a \<open>return\<close>.
\<close>

section \<open>The program\<close>

unbundle bit_operations_syntax

text \<open>A node has three pointers, a bool and an int: 32 bytes.\<close>

definition RTR_POOL_ROW :: nat where
  "RTR_POOL_ROW = 32 * 1024 * 1024 div 32"

type_synonym raddr = "nat \<times> nat"

record radix_tree_node =
  rn_left :: "raddr option"
  rn_right :: "raddr option"
  rn_p :: "raddr option"
  rn_on :: bool
  rn_key :: int

text \<open>The pool with the two counters, and the memory. Row \<open>i\<close> and column \<open>j\<close> are the address of a node.\<close>

record radix_tree_node_pool =
  rp_i :: nat
  rp_j :: nat
  rp_mem :: "raddr \<Rightarrow> radix_tree_node option"

definition g_pool :: radix_tree_node_pool where
  "g_pool = \<lparr>rp_i = 0, rp_j = 0, rp_mem = (\<lambda>_. None)\<rparr>"

text \<open>\<open>ok i\<close> says whether \<open>calloc\<close> gives memory for row \<open>i\<close>; otherwise the row is a null pointer.\<close>

definition calloc_row :: "(nat \<Rightarrow> bool) \<Rightarrow> radix_tree_node_pool \<Rightarrow> radix_tree_node_pool" where
  "calloc_row ok p =
     p\<lparr>rp_i := Suc (rp_i p),
       rp_mem := (\<lambda>(r, c). if r = rp_i p
         then (if ok (rp_i p) \<and> c < RTR_POOL_ROW then Some \<lparr>rn_left = None, rn_right = None, rn_p = None, rn_on = False, rn_key = 0\<rparr> else None)
         else rp_mem p (r, c))\<rparr>"

definition rt_upd :: "radix_tree_node_pool \<Rightarrow> raddr option \<Rightarrow> (radix_tree_node \<Rightarrow> radix_tree_node) \<Rightarrow> cerr + radix_tree_node_pool" where
  "rt_upd p x f =
     bindr (deref x) (\<lambda>a. bindr (deref (rp_mem p a)) (\<lambda>n. Inr (p\<lparr>rp_mem := (rp_mem p)(a \<mapsto> f n)\<rparr>)))"

definition radix_tree_node_get :: "(nat \<Rightarrow> bool) \<Rightarrow> radix_tree_node_pool \<Rightarrow> cerr + raddr option \<times> radix_tree_node_pool" where
  "radix_tree_node_get ok p =
     (if rp_i p = 32 then Inr (None, p) else
      let p = (if rp_i p = 0 \<or> rp_j p = RTR_POOL_ROW then calloc_row ok p else p);
          p = (if rp_j p = RTR_POOL_ROW then p\<lparr>rp_j := 0\<rparr> else p);
          ret = (rp_i p - 1, rp_j p) in
      bindr (rt_upd (p\<lparr>rp_j := Suc (rp_j p)\<rparr>) (Some ret) (\<lambda>n. n\<lparr>rn_on := False\<rparr>)) (\<lambda>p. Inr (Some ret, p)))"

text \<open>One side of the walk: the child is made if it is missing, and the walk goes on there.\<close>

definition rt_child :: "(nat \<Rightarrow> bool) \<Rightarrow> radix_tree_node_pool \<Rightarrow> raddr option \<Rightarrow> bool \<Rightarrow> cerr + raddr option \<times> radix_tree_node_pool" where
  "rt_child ok p x b =
     bindr (deref x) (\<lambda>a. bindr (deref (rp_mem p a)) (\<lambda>n.
     case (if b then rn_right n else rn_left n) of Some c \<Rightarrow> Inr (Some c, p)
     | None \<Rightarrow> bindr (radix_tree_node_get ok p) (\<lambda>(c, p).
         bindr (rt_upd p x (\<lambda>n. if b then n\<lparr>rn_right := c\<rparr> else n\<lparr>rn_left := c\<rparr>)) (\<lambda>p. Inr (c, p)))))"

function radix_insert_loop ::
  "(nat \<Rightarrow> bool) \<Rightarrow> 64 word \<Rightarrow> 8 word \<Rightarrow> 8 word \<Rightarrow> nat \<Rightarrow> raddr option \<Rightarrow> radix_tree_node_pool \<Rightarrow> cerr + int \<times> radix_tree_node_pool" where
  "radix_insert_loop ok key bits bitn i x p =
     (if i < 8 then
        bindr (rt_child ok p x (bit bits i)) (\<lambda>(x, p).
        let bitn = (if bit bits i then set_bit i bitn else unset_bit i bitn) in
        if (ucast bitn :: 64 word) = key then
          bindr (rt_upd p x (\<lambda>n. n\<lparr>rn_key := uint bitn, rn_on := True\<rparr>)) (\<lambda>p. Inr (0, p))
        else radix_insert_loop ok key bits bitn (Suc i) x p)
      else Inr (- 1, p))"
  by pat_completeness auto
termination by (relation "measure (\<lambda>(ok, key, bits, bitn, i, x, p). 8 - i)") auto

declare radix_insert_loop.simps [simp del]

definition radix_tree_insert ::
  "(nat \<Rightarrow> bool) \<Rightarrow> raddr option \<Rightarrow> radix_tree_node_pool \<Rightarrow> 64 word \<Rightarrow> cerr + int \<times> raddr option \<times> radix_tree_node_pool" where
  "radix_tree_insert ok root p key =
     bindr (if root = None then radix_tree_node_get ok p else Inr (root, p)) (\<lambda>(root, p).
     bindr (radix_insert_loop ok key (ucast key) 0 0 root p) (\<lambda>(rc, p). Inr (rc, root, p)))"

definition RTR_KEY_TO_STR :: "64 word \<Rightarrow> string" where
  "RTR_KEY_TO_STR k = map (\<lambda>i. if bit k i then CHR ''1'' else CHR ''0'') (rev [0..<64])"

text \<open>\<open>bitset<64>(str)\<close>: a text of zeros and ones, the highest bit first.\<close>

definition RTR_KEY :: "string \<Rightarrow> 64 word" where
  "RTR_KEY s = foldl (\<lambda>k c. 2 * k + (if c = CHR ''1'' then 1 else 0)) 0 s"

text \<open>The walk returns what it prints.\<close>

fun radix_tree_inorder_walk :: "nat \<Rightarrow> radix_tree_node_pool \<Rightarrow> raddr option \<Rightarrow> cerr + string" where
  "radix_tree_inorder_walk 0 p x = Inl OutOfFuel"
| "radix_tree_inorder_walk (Suc fuel) p x =
     (case x of None \<Rightarrow> Inr []
      | Some a \<Rightarrow> bindr (deref (rp_mem p a)) (\<lambda>n.
          bindr (radix_tree_inorder_walk fuel p (rn_left n)) (\<lambda>s1.
          bindr (radix_tree_inorder_walk fuel p (rn_right n)) (\<lambda>s2.
          Inr (s1 @ (if rn_on n then RTR_KEY_TO_STR (word_of_int (rn_key n)) @ '', '' else []) @ s2)))))"

text \<open>The loop of \<open>radix_tree_sort\<close>: insertions into one tree.\<close>

fun radix_insert_all ::
  "(nat \<Rightarrow> bool) \<Rightarrow> raddr option \<Rightarrow> radix_tree_node_pool \<Rightarrow> 64 word list \<Rightarrow> cerr + raddr option \<times> radix_tree_node_pool" where
  "radix_insert_all ok rtr p [] = Inr (rtr, p)"
| "radix_insert_all ok rtr p (k # ks) = bindr (radix_tree_insert ok rtr p k) (\<lambda>(rc, rtr, p). radix_insert_all ok rtr p ks)"

text \<open>The function never writes to \<open>out\<close>, and it has type \<open>int\<close> and no \<open>return\<close>: reaching its end is undefined.\<close>

definition radix_tree_sort :: "(nat \<Rightarrow> bool) \<Rightarrow> radix_tree_node_pool \<Rightarrow> 64 word list \<Rightarrow> cerr + int \<times> radix_tree_node_pool" where
  "radix_tree_sort ok p keys = bindr (radix_insert_all ok None p keys) (\<lambda>_. Inl MissingReturn)"

definition radix_test_keys :: "64 word list" where
  "radix_test_keys = [RTR_KEY ''1011'', RTR_KEY ''10'', RTR_KEY ''011'', RTR_KEY ''100'', RTR_KEY ''0'']"

definition test_radix_tree_main :: "(nat \<Rightarrow> bool) \<Rightarrow> cerr + int" where
  "test_radix_tree_main ok = bindr (radix_tree_sort ok g_pool radix_test_keys) (\<lambda>_. Inr (- 1))"

section \<open>Tries\<close>

datatype rtrie = RLf | RNd rtrie "int option" rtrie

fun nodes_of :: "rtrie \<Rightarrow> nat" where
  "nodes_of RLf = 0"
| "nodes_of (RNd l v r) = Suc (nodes_of l + nodes_of r)"

fun depth_of :: "rtrie \<Rightarrow> nat" where
  "depth_of RLf = 0"
| "depth_of (RNd l v r) = Suc (max (depth_of l) (depth_of r))"

text \<open>The value at the end of a path replaces the old one, unless there is none.\<close>

fun rt_put :: "bool list \<Rightarrow> int option \<Rightarrow> rtrie \<Rightarrow> rtrie" where
  "rt_put [] v RLf = RNd RLf v RLf"
| "rt_put [] v (RNd l w r) = RNd l (if v = None then w else v) r"
| "rt_put (b # bs) v RLf = (if b then RNd RLf None (rt_put bs v RLf) else RNd (rt_put bs v RLf) None RLf)"
| "rt_put (b # bs) v (RNd l w r) = (if b then RNd l w (rt_put bs v r) else RNd (rt_put bs v l) w r)"

text \<open>The paths with a value, in the order of the walk.\<close>

fun rt_walk :: "rtrie \<Rightarrow> (bool list \<times> int) list" where
  "rt_walk RLf = []"
| "rt_walk (RNd l v r) =
     map (\<lambda>(p, k). (False # p, k)) (rt_walk l) @ (case v of None \<Rightarrow> [] | Some k \<Rightarrow> [([], k)]) @
     map (\<lambda>(p, k). (True # p, k)) (rt_walk r)"

fun path_before :: "bool list \<Rightarrow> bool list \<Rightarrow> bool" where
  "path_before [] [] \<longleftrightarrow> False"
| "path_before [] (b # q) \<longleftrightarrow> b"
| "path_before (a # p) [] \<longleftrightarrow> \<not> a"
| "path_before (a # p) (b # q) \<longleftrightarrow> (if a = b then path_before p q else b)"

lemma rt_walk_ordered: "sorted_wrt (\<lambda>x y. path_before (fst x) (fst y)) (rt_walk t)"
  by (induction t) (auto simp: sorted_wrt_append sorted_wrt_map case_prod_beta split: option.split)

lemma set_rt_put:
  "v \<noteq> None \<Longrightarrow> set (rt_walk (rt_put bs v t)) = {x \<in> set (rt_walk t). fst x \<noteq> bs} \<union> {(bs, the v)}"
proof (induction bs v t rule: rt_put.induct)
qed (auto split: option.splits)

lemma rt_walk_touch: "rt_walk (rt_put bs None t) = rt_walk t"
  by (induction bs "None :: int option" t rule: rt_put.induct) auto

lemma depth_rt_put: "depth_of (rt_put bs v t) \<le> max (depth_of t) (Suc (length bs))"
  by (induction bs v t rule: rt_put.induct) auto

lemma nodes_bound: "nodes_of t < 2 ^ depth_of t"
proof (induction t)
  case (RNd l v r)
  let ?d = "max (depth_of l) (depth_of r)"
  have "(2::nat) ^ depth_of l \<le> 2 ^ ?d" "(2::nat) ^ depth_of r \<le> 2 ^ ?d" by (simp_all add: power_increasing)
  then have "Suc (nodes_of l + nodes_of r) < 2 * 2 ^ ?d" using RNd by linarith
  then show ?case by simp
qed simp

section \<open>The path of a key\<close>

text \<open>The bits the insertion reads from position \<open>i\<close> on, and the node value it sets.\<close>

function rbits :: "nat \<Rightarrow> nat \<Rightarrow> bool list" where
  "rbits i k = (if i < 8 then odd (k div 2 ^ i) # (if k < 2 ^ Suc i then [] else rbits (Suc i) k) else [])"
  by pat_completeness auto
termination by (relation "measure (\<lambda>(i, k). 8 - i)") auto

declare rbits.simps [simp del]

definition rval :: "nat \<Rightarrow> int option" where
  "rval k = (if k < 256 then Some (int k) else None)"

fun path_num :: "bool list \<Rightarrow> nat" where
  "path_num [] = 0"
| "path_num (b # bs) = (if b then 1 else 0) + 2 * path_num bs"

lemma rbits_length: "length (rbits i k) \<le> 8 - i"
proof (induction i k rule: rbits.induct)
  case (1 i k)
  then show ?case by (subst rbits.simps) auto
qed

lemma rbits_num: "k < 256 \<Longrightarrow> i \<le> 8 \<Longrightarrow> path_num (rbits i k) = k div 2 ^ i"
proof (induction i k rule: rbits.induct)
  case (1 i k)
  show ?case
  proof (cases "i < 8")
    case True
    have "k div 2 ^ Suc i = (k div 2 ^ i) div 2" by (simp add: div_mult2_eq [symmetric] mult.commute)
    then have e: "(if odd (k div 2 ^ i) then 1 else 0) + 2 * (k div 2 ^ Suc i) = k div 2 ^ i"
      using div_mult_mod_eq [of "k div 2 ^ i" 2] by (simp add: mod_2_eq_odd)
    show ?thesis
    proof (cases "k < 2 ^ Suc i")
      case small: True
      then have "rbits i k = [odd (k div 2 ^ i)]" using True by (subst rbits.simps) simp
      then show ?thesis using e small by (simp only: path_num.simps div_less mult_0_right)
    next
      case False
      then have "rbits i k = odd (k div 2 ^ i) # rbits (Suc i) k" using True by (subst rbits.simps) simp
      moreover have "path_num (rbits (Suc i) k) = k div 2 ^ Suc i" using 1 True False by (simp del: power_Suc)
      ultimately show ?thesis using e by (simp only: path_num.simps)
    qed
  next
    case False
    then have i: "i = 8" using 1(3) by simp
    then have "rbits i k = []" by (subst rbits.simps) simp
    then show ?thesis using 1(2) i by simp
  qed
qed

lemma rbits_inj: "k < 256 \<Longrightarrow> k' < 256 \<Longrightarrow> rbits 0 k = rbits 0 k' \<Longrightarrow> k = k'"
  by (metis rbits_num [of _ 0, simplified])

section \<open>The heap and the trie\<close>

declare split_paired_Ex [simp del] split_paired_All [simp del]

fun rrep :: "(raddr \<Rightarrow> radix_tree_node option) \<Rightarrow> raddr option \<Rightarrow> rtrie \<Rightarrow> raddr set \<Rightarrow> bool" where
  "rrep h x RLf A \<longleftrightarrow> x = None \<and> A = {}"
| "rrep h x (RNd l v r) A \<longleftrightarrow>
     (\<exists>a n B C. x = Some a \<and> h a = Some n \<and> v = (if rn_on n then Some (rn_key n) else None) \<and>
       rrep h (rn_left n) l B \<and> rrep h (rn_right n) r C \<and> A = insert a (B \<union> C) \<and> a \<notin> B \<and> a \<notin> C \<and> B \<inter> C = {})"

lemma rrep_frame: "rrep h x t A \<Longrightarrow> \<forall>a \<in> A. h' a = h a \<Longrightarrow> rrep h' x t A"
proof (induction t arbitrary: x A)
  case (RNd l v r)
  then obtain a n B C where "x = Some a" "h a = Some n" "v = (if rn_on n then Some (rn_key n) else None)"
    "rrep h (rn_left n) l B" "rrep h (rn_right n) r C" "A = insert a (B \<union> C)" "a \<notin> B" "a \<notin> C" "B \<inter> C = {}" by auto
  moreover from this have "rrep h' (rn_left n) l B" "rrep h' (rn_right n) r C" using RNd by auto
  ultimately show ?case using RNd.prems(2) by auto
qed simp

lemma rrep_nodes: "rrep h x t A \<Longrightarrow> finite A \<and> card A = nodes_of t"
proof (induction t arbitrary: x A)
  case (RNd l v r)
  from RNd.prems obtain a B C and n :: radix_tree_node where c: "rrep h (rn_left n) l B" "rrep h (rn_right n) r C" "A = insert a (B \<union> C)"
    "a \<notin> B" "a \<notin> C" "B \<inter> C = {}" unfolding rrep.simps by blast
  have "finite B \<and> card B = nodes_of l" "finite C \<and> card C = nodes_of r" using RNd.IH c(1,2) by blast+
  then show ?case using c(3-6) by (simp add: card_Un_disjoint)
qed simp

text \<open>The pool in its first row: \<open>j\<close> nodes handed out, the rest is fresh.\<close>

definition row_ok :: "radix_tree_node_pool \<Rightarrow> bool" where
  "row_ok p \<longleftrightarrow> rp_i p = 1 \<and> (\<forall>c < RTR_POOL_ROW. rp_j p \<le> c \<longrightarrow>
     rp_mem p (0, c) = Some \<lparr>rn_left = None, rn_right = None, rn_p = None, rn_on = False, rn_key = 0\<rparr>)"

definition used :: "radix_tree_node_pool \<Rightarrow> raddr set" where
  "used p = {0} \<times> {..<rp_j p}"

lemma node_get_row:
  assumes "row_ok p" "rp_j p < RTR_POOL_ROW"
  shows "\<exists>p'. radix_tree_node_get ok p = Inr (Some (0, rp_j p), p') \<and> row_ok p' \<and> rp_j p' = Suc (rp_j p) \<and>
    (\<forall>a. a \<noteq> (0, rp_j p) \<longrightarrow> rp_mem p' a = rp_mem p a) \<and> rrep (rp_mem p') (Some (0, rp_j p)) (RNd RLf None RLf) {(0, rp_j p)}"
  using assms by (auto simp: radix_tree_node_get_def row_ok_def rt_upd_def Let_def)

lemma node_get_first:
  assumes "ok 0"
  shows "\<exists>p'. radix_tree_node_get ok g_pool = Inr (Some (0, 0), p') \<and> row_ok p' \<and> rp_j p' = 1 \<and>
    rrep (rp_mem p') (Some (0, 0)) (RNd RLf None RLf) {(0, 0)}"
  using assms by (auto simp: radix_tree_node_get_def row_ok_def rt_upd_def Let_def g_pool_def calloc_row_def RTR_POOL_ROW_def)

text \<open>A node seen from one of its sides.\<close>

definition kid :: "bool \<Rightarrow> radix_tree_node \<Rightarrow> raddr option" where
  "kid b n = (if b then rn_right n else rn_left n)"

definition rnode :: "(bool \<Rightarrow> rtrie) \<Rightarrow> int option \<Rightarrow> rtrie" where
  "rnode T v = RNd (T False) v (T True)"

lemma RNd_rnode: "RNd l v r = rnode (\<lambda>b. if b then r else l) v"
  by (simp add: rnode_def)

lemma rt_put_rnode: "rt_put (b # bs) v (rnode T w) = rnode (T(b := rt_put bs v (T b))) w"
  by (cases b) (simp_all add: rnode_def)

lemma rt_put_new: "rt_put bs v (RNd RLf None RLf) = rt_put bs v RLf"
  by (cases bs) auto

lemma rrep_kid:
  "rrep h (Some a) (rnode T v) A \<longleftrightarrow>
     (\<exists>n B C. h a = Some n \<and> v = (if rn_on n then Some (rn_key n) else None) \<and>
       rrep h (kid b n) (T b) B \<and> rrep h (kid (\<not> b) n) (T (\<not> b)) C \<and> A = insert a (B \<union> C) \<and> a \<notin> B \<and> a \<notin> C \<and> B \<inter> C = {})"
proof (cases b)
  case True
  then show ?thesis unfolding rnode_def rrep.simps kid_def by (simp add: Un_commute Int_commute) blast
next
  case False
  then show ?thesis unfolding rnode_def rrep.simps kid_def by simp
qed

lemma nodes_rnode: "nodes_of (rnode T v) = Suc (nodes_of (T b) + nodes_of (T (\<not> b)))"
  by (cases b) (simp_all add: rnode_def)

text \<open>A run that turns the trie \<open>t\<close> at \<open>x\<close> into \<open>t'\<close>: new nodes are fresh, the rest of the memory in use is as before.\<close>

definition grown where
  "grown p x t A p' t' A' \<longleftrightarrow> row_ok p' \<and> rrep (rp_mem p') (Some x) t' A' \<and> A \<subseteq> A' \<and> A' \<subseteq> A \<union> (used p' - used p) \<and>
     (\<forall>a \<in> used p - A. rp_mem p' a = rp_mem p a) \<and> rp_j p \<le> rp_j p' \<and> rp_j p' + nodes_of t = rp_j p + nodes_of t'"

lemma used_mono: "rp_j p \<le> rp_j p' \<Longrightarrow> used p \<subseteq> used p'"
  by (auto simp: used_def)

lemma grown_refl: "row_ok p \<Longrightarrow> rrep (rp_mem p) (Some x) t A \<Longrightarrow> grown p x t A p t A"
  by (simp add: grown_def)

lemma grown_trans:
  assumes "grown p x t A p1 t1 A1" "grown p1 x t1 A1 p2 t2 A2"
  shows "grown p x t A p2 t2 A2"
proof -
  have u: "used p \<subseteq> used p1" "used p1 \<subseteq> used p2" using assms by (auto simp: grown_def intro!: used_mono)
  have "A2 \<subseteq> A \<union> (used p2 - used p)" "A \<subseteq> A2" using assms u by (auto simp: grown_def)
  moreover have "\<forall>a \<in> used p - A. rp_mem p2 a = rp_mem p a"
  proof
    fix a assume a: "a \<in> used p - A"
    then have "a \<in> used p1 - A1" using assms(1) u by (auto simp: grown_def)
    then show "rp_mem p2 a = rp_mem p a" using assms a by (simp add: grown_def)
  qed
  ultimately show ?thesis using assms by (simp add: grown_def)
qed

lemma grown_kid:
  assumes n: "rp_mem p x = Some n" "v = (if rn_on n then Some (rn_key n) else None)"
    "rrep (rp_mem p) (kid b n) (T b) B" "rrep (rp_mem p) (kid (\<not> b) n) (T (\<not> b)) C" "x \<notin> B" "x \<notin> C" "B \<inter> C = {}"
    "insert x (B \<union> C) \<subseteq> used p" "kid b n = Some c"
    and g: "grown p c (T b) B p' t' B'"
  shows "grown p x (rnode T v) (insert x (B \<union> C)) p' (rnode (T(b := t')) v) (insert x (B' \<union> C))"
proof -
  have B': "B \<subseteq> B'" "B' \<subseteq> B \<union> (used p' - used p)" using g by (auto simp: grown_def)
  have mem: "\<forall>a \<in> insert x C. rp_mem p' a = rp_mem p a" using g n(5-8) by (auto simp: grown_def)
  have "rrep (rp_mem p') (kid (\<not> b) n) (T (\<not> b)) C" using rrep_frame [OF n(4)] mem by simp
  moreover have "rrep (rp_mem p') (kid b n) t' B'" using g n(9) by (simp add: grown_def)
  moreover have "x \<notin> B'" "B' \<inter> C = {}" using B' n(5-8) by auto
  moreover have "rp_mem p' x = Some n" using mem n(1) by simp
  ultimately have "rrep (rp_mem p') (Some x) (rnode (T(b := t')) v) (insert x (B' \<union> C))"
    unfolding rrep_kid [where b = b] using n(2,6) by (simp, blast)
  then show ?thesis using g B' by (auto simp: grown_def nodes_rnode [where b = b])
qed

text \<open>Making a missing child.\<close>

lemma rt_child_sim:
  assumes "row_ok p" "rp_j p < RTR_POOL_ROW" and r: "rrep (rp_mem p) (Some x) (rnode T v) A" "A \<subseteq> used p"
  shows "\<exists>c p' A'. rt_child ok p (Some x) b = Inr (Some c, p') \<and> rp_j p' \<le> Suc (rp_j p) \<and>
    (\<exists>n. rp_mem p' x = Some n \<and> kid b n = Some c) \<and> A' \<subseteq> used p' \<and>
    grown p x (rnode T v) A p' (rnode (T(b := if T b = RLf then RNd RLf None RLf else T b)) v) A'"
proof -
  obtain n B C where n: "rp_mem p x = Some n" "v = (if rn_on n then Some (rn_key n) else None)"
    "rrep (rp_mem p) (kid b n) (T b) B" "rrep (rp_mem p) (kid (\<not> b) n) (T (\<not> b)) C" "A = insert x (B \<union> C)" "x \<notin> B" "x \<notin> C" "B \<inter> C = {}"
    using r(1) unfolding rrep_kid [where b = b] by blast
  show ?thesis
  proof (cases "kid b n")
    case (Some c)
    then have "T b \<noteq> RLf" using n(3) by auto
    then have "T(b := if T b = RLf then RNd RLf None RLf else T b) = T" by auto
    moreover have "rt_child ok p (Some x) b = Inr (Some c, p)" using n(1) Some by (simp add: rt_child_def kid_def)
    ultimately show ?thesis using grown_refl [OF assms(1) r(1)] r(2) n(1) Some by auto
  next
    case None
    then have T: "T b = RLf" "B = {}" using n(3) by (cases "T b", auto)+
    let ?c = "(0, rp_j p)" and ?u = "\<lambda>n c. if b then n\<lparr>rn_right := c\<rparr> else n\<lparr>rn_left := c\<rparr>"
    obtain p1 where p1: "radix_tree_node_get ok p = Inr (Some ?c, p1)" "row_ok p1" "rp_j p1 = Suc (rp_j p)"
      "\<forall>a. a \<noteq> ?c \<longrightarrow> rp_mem p1 a = rp_mem p a" "rrep (rp_mem p1) (Some ?c) (RNd RLf None RLf) {?c}"
      using node_get_row [OF assms(1,2)] by blast
    have c: "?c \<notin> used p" "used p1 = insert ?c (used p)" using p1(3) by (auto simp: used_def lessThan_Suc)
    have x: "x \<in> used p" "C \<subseteq> used p" using r(2) n(5) by auto
    have pC: "\<forall>a \<in> C. rp_mem p1 a = rp_mem p a" using p1(4) c(1) x(2) by (metis subsetD)
    have px: "rp_mem p1 x = Some n" using p1(4) c(1) x(1) n(1) by metis
    let ?p = "p1\<lparr>rp_mem := (rp_mem p1)(x \<mapsto> ?u n (Some ?c))\<rparr>"
    have run: "rt_child ok p (Some x) b = Inr (Some ?c, ?p)"
      using n(1) None p1(1) px by (auto simp: rt_child_def kid_def rt_upd_def)
    have "rrep (rp_mem ?p) (Some ?c) (RNd RLf None RLf) {?c}" by (rule rrep_frame [OF p1(5)]) (use c x in auto)
    moreover have "rrep (rp_mem ?p) (kid (\<not> b) n) (T (\<not> b)) C" by (rule rrep_frame [OF n(4)]) (use pC n(7) in auto)
    moreover have "kid b (?u n (Some ?c)) = Some ?c" "kid (\<not> b) (?u n (Some ?c)) = kid (\<not> b) n"
      "rn_on (?u n (Some ?c)) = rn_on n" "rn_key (?u n (Some ?c)) = rn_key n" by (auto simp: kid_def)
    moreover have "?c \<notin> C" "x \<noteq> ?c" using c x by auto
    ultimately have "rrep (rp_mem ?p) (Some x) (rnode (T(b := RNd RLf None RLf)) v) (insert x ({?c} \<union> C))"
      unfolding rrep_kid [where b = b] using n(2,7)
      by (intro exI [of _ "?u n (Some ?c)"] exI [of _ "{?c}"] exI [of _ C]) (simp del: rrep.simps)
    moreover have "row_ok ?p" using p1(2,3) x by (auto simp: row_ok_def used_def)
    moreover have "used ?p = insert ?c (used p)" using c(2) by (simp add: used_def)
    moreover have "\<forall>a \<in> used p - A. rp_mem ?p a = rp_mem p a" using p1(4) n(5) c(1) by auto
    moreover have "nodes_of (rnode (T(b := RNd RLf None RLf)) v) = Suc (nodes_of (rnode T v))"
      using T by (simp add: nodes_rnode [where b = b])
    ultimately have "grown p x (rnode T v) A ?p (rnode (T(b := RNd RLf None RLf)) v) (insert x ({?c} \<union> C))"
      using T(2) n(5) c(1) p1(3) by (auto simp: grown_def)
    moreover have "insert x ({?c} \<union> C) \<subseteq> used ?p" "\<exists>m. rp_mem ?p x = Some m \<and> kid b m = Some ?c"
      using c x by (auto simp: used_def kid_def)
    ultimately show ?thesis using run T(1) p1(3) by (intro exI [of _ ?c] exI [of _ ?p] exI [of _ "insert x ({?c} \<union> C)"]) auto
  qed
qed

section \<open>Insertion\<close>

lemma bits_key: "i < 8 \<Longrightarrow> bit (ucast (key :: 64 word) :: 8 word) i \<longleftrightarrow> odd (unat key div 2 ^ i)"
  by (simp add: bit_simps flip: bit_iff_odd)

lemma bitn_step:
  assumes "i < 8" "b = bit (ucast (key :: 64 word) :: 8 word) i"
  shows "(if b then set_bit i (ucast (take_bit i key) :: 8 word) else unset_bit i (ucast (take_bit i key))) = ucast (take_bit (Suc i) key)"
  using assms by (auto intro!: bit_word_eqI simp: bit_simps less_Suc_eq)

lemma bitn_key:
  assumes "i < 8"
  shows "(ucast (ucast (take_bit (Suc i) key) :: 8 word) :: 64 word) = key \<longleftrightarrow> unat key < 2 ^ Suc i"
    and "unat key < 2 ^ Suc i \<Longrightarrow> uint (ucast (take_bit (Suc i) key) :: 8 word) = int (unat key)"
proof -
  have "(ucast (ucast (take_bit (Suc i) key) :: 8 word) :: 64 word) = take_bit (Suc i) key"
    using assms by (auto intro!: bit_word_eqI simp: bit_simps)
  moreover have "take_bit (Suc i) key = key \<longleftrightarrow> unat key < 2 ^ Suc i"
    by (metis take_bit_nat_eq_self_iff unsigned_take_bit_eq word_unat_eq_iff)
  ultimately show *: "(ucast (ucast (take_bit (Suc i) key) :: 8 word) :: 64 word) = key \<longleftrightarrow> unat key < 2 ^ Suc i" by simp
  show "uint (ucast (take_bit (Suc i) key) :: 8 word) = int (unat key)" if "unat key < 2 ^ Suc i"
  proof -
    have "uint (ucast w :: 64 word) = uint w" for w :: "8 word"
      using uint_lt2p [of w] by (simp add: unsigned_ucast_eq take_bit_int_eq_self_iff)
    from this [of "ucast (take_bit (Suc i) key)"] show ?thesis using * that by (simp del: power_Suc)
  qed
qed

lemma rt_upd_grown:
  assumes "row_ok p" and r: "rrep (rp_mem p) (Some c) (RNd l v r) B" "B \<subseteq> used p"
  shows "\<exists>p'. rt_upd p (Some c) (\<lambda>n. n\<lparr>rn_key := k, rn_on := True\<rparr>) = Inr p' \<and> rp_j p' = rp_j p \<and>
    grown p c (RNd l v r) B p' (rt_put [] (Some k) (RNd l v r)) B"
proof -
  obtain n X Y where n: "rp_mem p c = Some n" "rrep (rp_mem p) (rn_left n) l X" "rrep (rp_mem p) (rn_right n) r Y"
    "B = insert c (X \<union> Y)" "c \<notin> X" "c \<notin> Y" "X \<inter> Y = {}" using r(1) by auto
  let ?p = "p\<lparr>rp_mem := (rp_mem p)(c \<mapsto> n\<lparr>rn_key := k, rn_on := True\<rparr>)\<rparr>"
  have "rrep (rp_mem ?p) (rn_left n) l X" by (rule rrep_frame [OF n(2)]) (use n(5) in auto)
  moreover have "rrep (rp_mem ?p) (rn_right n) r Y" by (rule rrep_frame [OF n(3)]) (use n(6) in auto)
  ultimately have "rrep (rp_mem ?p) (Some c) (rt_put [] (Some k) (RNd l v r)) B" using n(4-7) by auto
  moreover have "row_ok ?p" using assms(1) r(2) n(4) by (auto simp: row_ok_def used_def)
  ultimately have "grown p c (RNd l v r) B ?p (rt_put [] (Some k) (RNd l v r)) B" using n(4) by (auto simp: grown_def used_def)
  then show ?thesis using n(1) by (auto simp: rt_upd_def)
qed

lemma radix_insert_loop_sim:
  assumes "row_ok p" "rp_j p + (8 - i) \<le> RTR_POOL_ROW" "rrep (rp_mem p) (Some x) (RNd l v r) A" "A \<subseteq> used p"
    "i \<le> 8" "i = 8 \<longrightarrow> 256 \<le> unat key"
  shows "\<exists>p' A'. radix_insert_loop ok key (ucast key) (ucast (take_bit i key)) i (Some x) p =
      Inr (if unat key < 256 then 0 else - 1, p') \<and> rp_j p' \<le> rp_j p + (8 - i) \<and> A' \<subseteq> used p' \<and>
      grown p x (RNd l v r) A p' (rt_put (rbits i (unat key)) (rval (unat key)) (RNd l v r)) A'"
  using assms
proof (induction "8 - i" arbitrary: i x p l v r A)
  case 0
  then have "radix_insert_loop ok key (ucast key) (ucast (take_bit i key)) i (Some x) p = Inr (- 1, p)"
    by (subst radix_insert_loop.simps) simp
  moreover have "rbits i (unat key) = []" "rval (unat key) = None" using 0 by (auto simp: rbits.simps rval_def)
  ultimately show ?case using 0 grown_refl [OF 0(2,4)] by (intro exI [of _ p] exI [of _ A]) simp
next
  case (Suc d)
  then have i: "i < 8" by simp
  define b where "b = bit (ucast key :: 8 word) i"
  define T where "T = (\<lambda>b. if b then r else l)"
  define t1 where "t1 = (if T b = RLf then RNd RLf None RLf else T b)"
  have t: "RNd l v r = rnode T v" unfolding T_def by (rule RNd_rnode)
  have room: "rp_j p < RTR_POOL_ROW" using Suc.prems(2) i by simp
  obtain c p1 A1 n where c: "rt_child ok p (Some x) b = Inr (Some c, p1)" "rp_j p1 \<le> Suc (rp_j p)" "A1 \<subseteq> used p1"
    "rp_mem p1 x = Some n" "kid b n = Some c" "grown p x (rnode T v) A p1 (rnode (T(b := t1)) v) A1"
    using rt_child_sim [OF Suc.prems(1) room Suc.prems(3) [unfolded t] Suc.prems(4), where b = b and ok = ok] unfolding t1_def by blast
  have "rrep (rp_mem p1) (Some x) (rnode (T(b := t1)) v) A1" using c(6) by (simp add: grown_def)
  then obtain B C where B: "v = (if rn_on n then Some (rn_key n) else None)"
    "rrep (rp_mem p1) (Some c) t1 B" "rrep (rp_mem p1) (kid (\<not> b) n) (T (\<not> b)) C" "A1 = insert x (B \<union> C)" "x \<notin> B" "x \<notin> C" "B \<inter> C = {}"
    unfolding rrep_kid [where b = b] using c(4,5) by auto
  obtain l1 v1 r1 where t1: "t1 = RNd l1 v1 r1" by (cases "T b") (auto simp: t1_def)
  have Bu: "B \<subseteq> used p1" using B(4) c(3) by auto
  have row: "row_ok p1" using c(6) by (simp add: grown_def)
  let ?bs = "if unat key < 2 ^ Suc i then [] else rbits (Suc i) (unat key)"
  have step: "\<exists>p2 B2. radix_insert_loop ok key (ucast key) (ucast (take_bit i key)) i (Some x) p =
      Inr (if unat key < 256 then 0 else - 1, p2) \<and> rp_j p2 \<le> rp_j p1 + (7 - i) \<and> B2 \<subseteq> used p2 \<and>
      grown p1 c t1 B p2 (rt_put ?bs (rval (unat key)) t1) B2"
  proof (cases "unat key < 2 ^ Suc i")
    case True
    have "(2::nat) ^ Suc i \<le> 2 ^ 8" using i by (intro power_increasing) auto
    then have small: "unat key < 256" using True by simp
    obtain p2 where "rt_upd p1 (Some c) (\<lambda>n. n\<lparr>rn_key := int (unat key), rn_on := True\<rparr>) = Inr p2" "rp_j p2 = rp_j p1"
      "grown p1 c t1 B p2 (rt_put [] (Some (int (unat key))) t1) B"
      using rt_upd_grown [OF row B(2) [unfolded t1] Bu] unfolding t1 by blast
    moreover from this have "radix_insert_loop ok key (ucast key) (ucast (take_bit i key)) i (Some x) p = Inr (0, p2)"
      using c(1) i True bitn_key [OF i, of key] by (subst radix_insert_loop.simps) (simp add: b_def bitn_step Let_def del: power_Suc)
    moreover have "B \<subseteq> used p2" using Bu calculation(2) by (simp add: used_def)
    ultimately show ?thesis using True small by (intro exI [of _ p2] exI [of _ B]) (simp add: rval_def)
  next
    case False
    then have "radix_insert_loop ok key (ucast key) (ucast (take_bit i key)) i (Some x) p =
        radix_insert_loop ok key (ucast key) (ucast (take_bit (Suc i) key)) (Suc i) (Some c) p1"
      using c(1) i bitn_key(1) [OF i, of key] by (subst radix_insert_loop.simps) (simp add: b_def bitn_step Let_def del: power_Suc)
    moreover have "Suc i = 8 \<longrightarrow> 256 \<le> unat key" using False by auto
    ultimately show ?thesis
      using Suc.hyps(1) [of "Suc i" p1 c l1 v1 r1 B] Suc.hyps(2) Suc.prems(2) row B(2) Bu c(2) i False unfolding t1
      by (simp del: power_Suc)
  qed
  then obtain p2 B2 where p2: "radix_insert_loop ok key (ucast key) (ucast (take_bit i key)) i (Some x) p =
      Inr (if unat key < 256 then 0 else - 1, p2)" "rp_j p2 \<le> rp_j p1 + (7 - i)" "B2 \<subseteq> used p2"
      "grown p1 c t1 B p2 (rt_put ?bs (rval (unat key)) t1) B2" by blast
  have put: "rt_put ?bs (rval (unat key)) t1 = rt_put ?bs (rval (unat key)) (T b)" by (simp add: rt_put_new t1_def)
  have "grown p1 x (rnode (T(b := t1)) v) A1 p2 (rnode (T(b := rt_put ?bs (rval (unat key)) (T b))) v) (insert x (B2 \<union> C))"
    using grown_kid [OF c(4) B(1), where b = b and T = "T(b := t1)" and B = B and C = C and c = c and B' = B2 and p' = p2
        and t' = "rt_put ?bs (rval (unat key)) (T b)"] B c(3,5) p2(4) put by simp
  moreover have "rt_put (rbits i (unat key)) (rval (unat key)) (rnode T v) = rnode (T(b := rt_put ?bs (rval (unat key)) (T b))) v"
    using i by (subst rbits.simps) (simp add: rt_put_rnode bits_key b_def del: power_Suc)
  ultimately have "grown p x (RNd l v r) A p2 (rt_put (rbits i (unat key)) (rval (unat key)) (RNd l v r)) (insert x (B2 \<union> C))"
    using grown_trans [OF c(6)] t by simp
  moreover have "insert x (B2 \<union> C) \<subseteq> used p2" using c(3) B(4) p2(3,4) used_mono [of p1 p2] by (auto simp: grown_def)
  ultimately show ?case using p2(1,2) c(2) i by (intro exI [of _ p2] exI [of _ "insert x (B2 \<union> C)"]) auto
qed

text \<open>The state between insertions: the tree, the pool, and the numbers \<open>N\<close> in the tree.\<close>

definition rt_inv :: "raddr option \<Rightarrow> radix_tree_node_pool \<Rightarrow> rtrie \<Rightarrow> nat set \<Rightarrow> bool" where
  "rt_inv root p t N \<longleftrightarrow>
     (if t = RLf then root = None \<and> p = g_pool
      else row_ok p \<and> rp_j p = nodes_of t \<and> (\<exists>x A. root = Some x \<and> rrep (rp_mem p) root t A \<and> A \<subseteq> used p)) \<and>
     depth_of t \<le> 9 \<and> N \<subseteq> {..<256} \<and> set (rt_walk t) = (\<lambda>n. (rbits 0 n, int n)) ` N"

lemma set_put_key:
  assumes "N \<subseteq> {..<256}" "set (rt_walk t) = (\<lambda>n. (rbits 0 n, int n)) ` N"
  shows "set (rt_walk (rt_put (rbits 0 k) (rval k) t)) = (\<lambda>n. (rbits 0 n, int n)) ` (if k < 256 then insert k N else N)"
proof (cases "k < 256")
  case True
  then have "\<forall>n \<in> N. rbits 0 n = rbits 0 k \<longrightarrow> n = k" using assms(1) rbits_inj by blast
  then show ?thesis using True assms(2) set_rt_put [of "rval k" "rbits 0 k" t] by (auto simp: rval_def)
next
  case False
  then show ?thesis using assms(2) by (simp add: rval_def rt_walk_touch)
qed

lemma radix_insert_at:
  assumes "row_ok p" "rp_j p = nodes_of (RNd l v r)" "rrep (rp_mem p) (Some x) (RNd l v r) A" "A \<subseteq> used p" "depth_of (RNd l v r) \<le> 9"
  shows "\<exists>p' A'. radix_insert_loop ok key (ucast key) 0 0 (Some x) p = Inr (if unat key < 256 then 0 else - 1, p') \<and>
    A' \<subseteq> used p' \<and> grown p x (RNd l v r) A p' (rt_put (rbits 0 (unat key)) (rval (unat key)) (RNd l v r)) A'"
proof -
  have "(2::nat) ^ depth_of (RNd l v r) \<le> 2 ^ 9" using assms(5) by (intro power_increasing) auto
  then have "rp_j p + (8 - 0) \<le> RTR_POOL_ROW" using nodes_bound [of "RNd l v r"] assms(2) by (simp add: RTR_POOL_ROW_def)
  from radix_insert_loop_sim [OF assms(1) this assms(3,4), of key ok] show ?thesis
    by (auto simp del: rt_put.simps) blast+
qed

lemma rt_put_not_leaf: "rt_put bs v t \<noteq> RLf"
  by (cases "(bs, v, t)" rule: rt_put.cases) auto

lemma radix_tree_insert_sim:
  assumes "ok 0" "rt_inv root p t N"
  shows "\<exists>root' p'. radix_tree_insert ok root p key = Inr (if unat key < 256 then 0 else - 1, root', p') \<and>
    rt_inv root' p' (rt_put (rbits 0 (unat key)) (rval (unat key)) t) (if unat key < 256 then insert (unat key) N else N)"
proof -
  define t1 where "t1 = (if t = RLf then RNd RLf None RLf else t)"
  obtain x p1 A where p1: "(if root = None then radix_tree_node_get ok p else Inr (root, p)) = Inr (Some x, p1)"
    "row_ok p1" "rp_j p1 = nodes_of t1" "rrep (rp_mem p1) (Some x) t1 A" "A \<subseteq> used p1"
  proof (cases "t = RLf")
    case True
    then have s: "root = None" "p = g_pool" "t1 = RNd RLf None RLf" using assms(2) by (simp_all add: rt_inv_def t1_def)
    obtain p' where "radix_tree_node_get ok g_pool = Inr (Some (0, 0), p')" "row_ok p'" "rp_j p' = 1"
      "rrep (rp_mem p') (Some (0, 0)) (RNd RLf None RLf) {(0, 0)}" using node_get_first [of ok, OF assms(1)] by blast
    then show ?thesis using s by (intro that [of "(0, 0)" p' "{(0, 0)}"]) (auto simp: used_def)
  next
    case False
    then obtain y A where "root = Some y" "rrep (rp_mem p) root t A" "A \<subseteq> used p" "row_ok p" "rp_j p = nodes_of t"
      using assms(2) by (auto simp: rt_inv_def)
    then show ?thesis using False by (intro that [of y p A]) (auto simp: t1_def)
  qed
  let ?t = "rt_put (rbits 0 (unat key)) (rval (unat key)) t"
  obtain l v r where t1: "t1 = RNd l v r" by (cases t) (auto simp: t1_def)
  have "depth_of t1 \<le> 9" using assms(2) by (auto simp: rt_inv_def t1_def)
  then obtain p2 B where p2: "radix_insert_loop ok key (ucast key) 0 0 (Some x) p1 = Inr (if unat key < 256 then 0 else - 1, p2)"
    "B \<subseteq> used p2" "grown p1 x t1 A p2 (rt_put (rbits 0 (unat key)) (rval (unat key)) t1) B"
    using radix_insert_at [OF p1(2) p1(3-5) [unfolded t1]] unfolding t1 by blast
  have put: "rt_put (rbits 0 (unat key)) (rval (unat key)) t1 = ?t" by (simp add: t1_def rt_put_new)
  have "max (depth_of t) (Suc (length (rbits 0 (unat key)))) \<le> 9"
    using assms(2) rbits_length [of 0 "unat key"] by (simp add: rt_inv_def)
  then have "depth_of ?t \<le> 9" using depth_rt_put le_trans by blast
  moreover have "N \<subseteq> {..<256}" "set (rt_walk t) = (\<lambda>n. (rbits 0 n, int n)) ` N" using assms(2) by (simp_all add: rt_inv_def)
  ultimately have "rt_inv (Some x) p2 ?t (if unat key < 256 then insert (unat key) N else N)"
    using p2(2,3) p1(3) rt_put_not_leaf [of "rbits 0 (unat key)" "rval (unat key)" t] set_put_key [of N t "unat key"]
    by (auto simp: rt_inv_def put grown_def)
  then show ?thesis using p1(1) p2(1) by (auto simp: radix_tree_insert_def)
qed

lemma radix_insert_all_sim:
  assumes "ok 0"
  shows "rt_inv root p t N \<Longrightarrow>
    \<exists>root' p' t'. radix_insert_all ok root p ks = Inr (root', p') \<and> rt_inv root' p' t' (N \<union> {n. n < 256 \<and> n \<in> unat ` set ks})"
proof (induction ks arbitrary: root p t N)
  case (Cons k ks)
  let ?N = "if unat k < 256 then insert (unat k) N else N"
  have N: "N \<union> {n. n < 256 \<and> n \<in> unat ` set (k # ks)} = ?N \<union> {n. n < 256 \<and> n \<in> unat ` set ks}" by auto
  show ?case unfolding N using radix_tree_insert_sim [of ok, OF assms Cons.prems, of k] Cons.IH by fastforce
qed auto

section \<open>The walk\<close>

lemma radix_walk_sim:
  "rrep (rp_mem p) x t A \<Longrightarrow> depth_of t < fuel \<Longrightarrow>
   radix_tree_inorder_walk fuel p x = Inr (concat (map (\<lambda>x. RTR_KEY_TO_STR (word_of_int (snd x)) @ '', '') (rt_walk t)))"
proof (induction t arbitrary: x A fuel)
  case RLf
  then show ?case by (cases fuel) auto
next
  case (RNd l v r)
  then obtain a n B C f where "x = Some a" "rp_mem p a = Some n" "v = (if rn_on n then Some (rn_key n) else None)"
    "rrep (rp_mem p) (rn_left n) l B" "rrep (rp_mem p) (rn_right n) r C" "fuel = Suc f" by (cases fuel) auto
  then show ?case using RNd.IH RNd.prems(2) by (auto simp: comp_def case_prod_beta)
qed

lemma path_before_irrefl: "\<not> path_before p p"
  by (induction p) auto

text \<open>C29: inserting any keys one after another, from the empty tree and the initial pool, succeeds when \<open>calloc\<close> gives the first row, and the in-order walk then prints exactly the keys
  below 256, each of them once and in full width,
  in the order of their bits read from the lowest to the highest. Keys from 256 on leave no value in the tree. The pool hands
  out less than 512 nodes whatever the number of keys, so that it never needs a second row. \<open>radix_tree_sort\<close>, whose loop makes these insertions, then
  reaches its end without a \<open>return\<close>, on every input.\<close>

theorem radix_insert_walk:
  assumes "ok 0"
  shows "(\<exists>rtr p L. radix_insert_all ok None g_pool keys = Inr (rtr, p) \<and> rp_j p < 512 \<and>
    radix_tree_inorder_walk 10 p rtr = Inr (concat (map (\<lambda>k. RTR_KEY_TO_STR k @ '', '') L)) \<and>
    set L = {k \<in> set keys. unat k < 256} \<and> distinct L \<and>
    sorted_wrt (\<lambda>a b. path_before (rbits 0 (unat a)) (rbits 0 (unat b))) L) \<and>
    radix_tree_sort ok g_pool keys = Inl MissingReturn"
proof -
  have "rt_inv None g_pool RLf {}" by (simp add: rt_inv_def)
  from radix_insert_all_sim [of ok, OF assms this, of keys] obtain rtr p t where
    s: "radix_insert_all ok None g_pool keys = Inr (rtr, p)" "rt_inv rtr p t {n. n < 256 \<and> n \<in> unat ` set keys}" by auto
  define L :: "64 word list" where "L = map (\<lambda>x. word_of_int (snd x)) (rt_walk t)"
  have w: "set (rt_walk t) = (\<lambda>n. (rbits 0 n, int n)) ` {n. n < 256 \<and> n \<in> unat ` set keys}" using s(2) by (simp add: rt_inv_def)
  have "set L = {k \<in> set keys. unat k < 256}" unfolding L_def set_map w by (force simp: image_image)
  moreover have "sorted_wrt (\<lambda>a b. path_before (rbits 0 (unat a)) (rbits 0 (unat b))) L"
    unfolding L_def sorted_wrt_map by (rule sorted_wrt_mono_rel [OF _ rt_walk_ordered]) (auto simp: w)
  moreover have "distinct L" using calculation(2) by (induction L) (auto simp: path_before_irrefl)
  moreover have "radix_tree_inorder_walk 10 p rtr = Inr (concat (map (\<lambda>k. RTR_KEY_TO_STR k @ '', '') L))"
  proof -
    obtain A where "rrep (rp_mem p) rtr t A" "depth_of t < 10" using s(2) by (cases "t = RLf") (auto simp: rt_inv_def)
    from radix_walk_sim [OF this] show ?thesis by (simp add: L_def comp_def)
  qed
  moreover have "rp_j p < 512"
  proof (cases "t = RLf")
    case False
    have "(2::nat) ^ depth_of t \<le> 2 ^ 9" using s(2) by (intro power_increasing) (auto simp: rt_inv_def)
    then show ?thesis using nodes_bound [of t] s(2) False by (simp add: rt_inv_def)
  qed (use s(2) in \<open>simp add: rt_inv_def g_pool_def\<close>)
  moreover have "radix_tree_sort ok g_pool keys = Inl MissingReturn" using s(1) by (simp add: radix_tree_sort_def)
  ultimately show ?thesis using s(1) by blast
qed

theorem radix_insert_walk_witness:
  "radix_test_keys = [11, 2, 3, 4, 0] \<and>
   (\<exists>rtr p L. radix_insert_all (\<lambda>_. True) None g_pool radix_test_keys = Inr (rtr, p) \<and> rp_j p < 512 \<and>
    radix_tree_inorder_walk 10 p rtr = Inr (concat (map (\<lambda>k. RTR_KEY_TO_STR k @ '', '') L)) \<and>
    set L = {k \<in> set radix_test_keys. unat k < 256} \<and> distinct L \<and>
    sorted_wrt (\<lambda>a b. path_before (rbits 0 (unat a)) (rbits 0 (unat b))) L) \<and>
   radix_tree_sort (\<lambda>_. True) g_pool radix_test_keys = Inl MissingReturn"
proof (rule conjI)
  show "radix_test_keys = [11, 2, 3, 4, 0]" by (simp add: radix_test_keys_def RTR_KEY_def)
qed (rule radix_insert_walk, simp)

text \<open>The order is not that of the numbers, and not that of the texts in the comment of the source either (0 before 100 before 1011): the walk
  prints 4 before 0 and 11 before 3.\<close>

lemma radix_order_not_numeric: "path_before (rbits 0 4) (rbits 0 0)" "path_before (rbits 0 11) (rbits 0 3)"
  by code_simp+

end
