(* ===== verification/Bs23_Tree.thy ===== *)
theory Bs23_Tree
  imports C_Prelude
begin

text \<open>
  The 2-3 tree of \<^verbatim>\<open>src/algs/algorithms4th/bs23tree.cpp\<close>, which its author marks as having bugs.

  The model is the pointer program on an array of nodes, addressed by their index. The two descents have fuel.
  \<open>b_ins\<close> and \<open>b_find\<close> are the insertion and the search on trees, and \<open>brep\<close> relates heap and tree, parent pointers included.
  The trees keep all keys in order, but they are not balanced, and the search finds the keys of nodes with one key only.
\<close>

section \<open>The program\<close>

type_synonym baddr = nat

record bs23tree_node =
  b_left :: "baddr option"
  b_midle :: "baddr option"
  b_right :: "baddr option"
  b_p :: "baddr option"
  lkey :: int
  rkey :: int

type_synonym bheap = "baddr \<Rightarrow> bs23tree_node option"

definition BS23TR_NODE :: "int \<Rightarrow> bs23tree_node" where
  "BS23TR_NODE key = \<lparr>b_left = None, b_midle = None, b_right = None, b_p = None, lkey = key, rkey = - INT_MAX\<rparr>"

definition BS23TR_IS_3NODE :: "bs23tree_node \<Rightarrow> bool" where
  "BS23TR_IS_3NODE n \<longleftrightarrow> rkey n \<noteq> - INT_MAX"

text \<open>\<open>x->p && BS23TR_IS_3NODE(x) && (key > x->lkey && key < x->rkey)\<close>\<close>

definition to_midle :: "bs23tree_node \<Rightarrow> int \<Rightarrow> bool" where
  "to_midle n key \<longleftrightarrow> b_p n \<noteq> None \<and> BS23TR_IS_3NODE n \<and> key > lkey n \<and> key < rkey n"

definition bs23_next :: "bs23tree_node \<Rightarrow> int \<Rightarrow> baddr option" where
  "bs23_next n key = (if to_midle n key then b_midle n else if key < lkey n then b_left n else b_right n)"

definition bs23_link :: "bs23tree_node \<Rightarrow> int \<Rightarrow> baddr \<Rightarrow> bs23tree_node" where
  "bs23_link n key node =
     (if to_midle n key then n\<lparr>b_midle := Some node\<rparr>
      else if key < lkey n then n\<lparr>b_left := Some node\<rparr> else n\<lparr>b_right := Some node\<rparr>)"

text \<open>The loop of the insertion. It leaves with the node that took the key (\<open>Inr\<close>), or with the last node of the descent (\<open>Inl\<close>).\<close>

fun bs23_descend :: "nat \<Rightarrow> bheap \<Rightarrow> int \<Rightarrow> baddr option \<Rightarrow> baddr option \<Rightarrow> cerr + (baddr option + baddr) \<times> bheap" where
  "bs23_descend 0 h key x p = Inl OutOfFuel"
| "bs23_descend (Suc fuel) h key x p =
     (case x of None \<Rightarrow> Inr (Inl p, h)
      | Some a \<Rightarrow> bindr (deref (h a)) (\<lambda>n.
          if b_p n = None \<or> BS23TR_IS_3NODE n then bs23_descend fuel h key (bs23_next n key) (Some a)
          else Inr (Inr a, h(a \<mapsto> (if key < lkey n then n\<lparr>rkey := lkey n, lkey := key\<rparr> else n\<lparr>rkey := key\<rparr>)))))"

text \<open>The rest of the insertion.\<close>

definition bs23_finish ::
  "baddr option \<Rightarrow> baddr \<Rightarrow> int \<Rightarrow> (baddr option + baddr) \<times> bheap \<Rightarrow> cerr + baddr option \<times> baddr option \<times> bheap" where
  "bs23_finish root node key r =
     (case r of (Inr a, h) \<Rightarrow> Inr (Some a, root, h)
      | (Inl p, h) \<Rightarrow>
          bindr (case p of None \<Rightarrow> Inr (Some node, h)
            | Some q \<Rightarrow> bindr (deref (h q)) (\<lambda>n. Inr (root, h(q \<mapsto> bs23_link n key node)))) (\<lambda>(root, h).
          bindr (deref (h node)) (\<lambda>n. Inr (Some node, root, h(node \<mapsto> n\<lparr>b_p := p\<rparr>)))))"

definition bs23tree_insert :: "nat \<Rightarrow> baddr option \<Rightarrow> bheap \<Rightarrow> baddr option \<Rightarrow> cerr + baddr option \<times> baddr option \<times> bheap" where
  "bs23tree_insert fuel root h node =
     (case node of None \<Rightarrow> Inr (None, root, h)
      | Some nd \<Rightarrow> bindr (deref (h nd)) (\<lambda>n.
          bindr (bs23_descend fuel h (lkey n) root None) (bs23_finish root nd (lkey n))))"

fun bs23tree_search :: "nat \<Rightarrow> bheap \<Rightarrow> baddr option \<Rightarrow> int \<Rightarrow> cerr + baddr option" where
  "bs23tree_search 0 h x key = Inl OutOfFuel"
| "bs23tree_search (Suc fuel) h x key =
     (case x of None \<Rightarrow> Inr None
      | Some a \<Rightarrow> bindr (deref (h a)) (\<lambda>n.
          if lkey n \<noteq> key \<or> b_p n \<noteq> None \<and> BS23TR_IS_3NODE n \<and> rkey n \<noteq> key
          then bs23tree_search fuel h (bs23_next n key) key else Inr (Some a)))"

text \<open>\<open>bs23tree_init\<close> inserts the nodes of the array one after the other and, for its output, reads the key of the root. (The walk it
  calls then prints a message and looks at nothing.)\<close>

fun bs23_inserts :: "nat \<Rightarrow> baddr option \<Rightarrow> bheap \<Rightarrow> baddr list \<Rightarrow> cerr + int \<times> baddr option \<times> bheap" where
  "bs23_inserts fuel tr h [] = Inr (0, tr, h)"
| "bs23_inserts fuel tr h (i # is) =
     bindr (bs23tree_insert fuel tr h (Some i)) (\<lambda>(r, tr, h). if r = None then Inr (- 1, tr, h) else bs23_inserts fuel tr h is)"

definition bs23tree_init :: "nat \<Rightarrow> bheap \<Rightarrow> nat \<Rightarrow> cerr + int \<times> baddr option \<times> bheap" where
  "bs23tree_init fuel nodes n =
     bindr (bs23_inserts fuel None nodes [0..<n]) (\<lambda>(rc, tr, h).
     if rc \<noteq> 0 then Inr (rc, tr, h) else bindr (deref tr) (\<lambda>a. bindr (deref (h a)) (\<lambda>_. Inr (0, tr, h))))"

definition bs23_nodes :: "int list \<Rightarrow> bheap" where
  "bs23_nodes ks i = (if i < length ks then Some (BS23TR_NODE (ks ! i)) else None)"

definition bs23_test_keys :: "int list" where
  "bs23_test_keys = map (of_char :: char \<Rightarrow> int) ''MEJACHLRPSX''"

definition test_bs23tree_main :: "nat \<Rightarrow> cerr + int" where
  "test_bs23tree_main fuel =
     bindr (bs23tree_init fuel (bs23_nodes bs23_test_keys) (length bs23_test_keys)) (\<lambda>(r, tr, h). Inr (- 1))"

section \<open>Trees\<close>

text \<open>A node with its two key fields; \<open>is3\<close> as in the source.\<close>

datatype btree = B0 | BN btree int btree int btree

definition is3 :: "int \<Rightarrow> bool" where
  "is3 b \<longleftrightarrow> b \<noteq> - INT_MAX"

fun b_depth :: "btree \<Rightarrow> nat" where
  "b_depth B0 = 0"
| "b_depth (BN l a m b r) = Suc (max (b_depth l) (max (b_depth m) (b_depth r)))"

text \<open>The flag says whether the node is the root.\<close>

fun b_ins :: "bool \<Rightarrow> int \<Rightarrow> int \<Rightarrow> btree \<Rightarrow> btree" where
  "b_ins isr k e B0 = BN B0 k B0 e B0"
| "b_ins isr k e (BN l a m b r) =
     (if isr \<or> is3 b then
        if \<not> isr \<and> is3 b \<and> a < k \<and> k < b then BN l a (b_ins False k e m) b r
        else if k < a then BN (b_ins False k e l) a m b r else BN l a m b (b_ins False k e r)
      else if k < a then BN l k m a r else BN l a m k r)"

fun b_find :: "bool \<Rightarrow> int \<Rightarrow> btree \<Rightarrow> bool" where
  "b_find isr k B0 = False"
| "b_find isr k (BN l a m b r) =
     (if a \<noteq> k \<or> \<not> isr \<and> is3 b \<and> b \<noteq> k then
        if \<not> isr \<and> is3 b \<and> a < k \<and> k < b then b_find False k m
        else if k < a then b_find False k l else b_find False k r
      else True)"

section \<open>The heap and the tree\<close>

fun brep :: "bheap \<Rightarrow> baddr option \<Rightarrow> baddr option \<Rightarrow> btree \<Rightarrow> baddr set \<Rightarrow> bool" where
  "brep h q x B0 A \<longleftrightarrow> x = None \<and> A = {}"
| "brep h q x (BN l a m b r) A \<longleftrightarrow>
     (\<exists>y n L M R. x = Some y \<and> h y = Some n \<and> b_p n = q \<and> lkey n = a \<and> rkey n = b \<and>
       brep h (Some y) (b_left n) l L \<and> brep h (Some y) (b_midle n) m M \<and> brep h (Some y) (b_right n) r R \<and>
       A = insert y (L \<union> M \<union> R) \<and> y \<notin> L \<union> M \<union> R \<and> L \<inter> M = {} \<and> L \<inter> R = {} \<and> M \<inter> R = {})"

lemma brep_frame: "brep h q x t A \<Longrightarrow> \<forall>a \<in> A. h' a = h a \<Longrightarrow> brep h' q x t A"
proof (induction t arbitrary: q x A)
  case (BN l a m b r)
  from BN.prems(1) obtain y n L M R where n: "x = Some y" "h y = Some n" "b_p n = q" "lkey n = a" "rkey n = b"
    "brep h (Some y) (b_left n) l L" "brep h (Some y) (b_midle n) m M" "brep h (Some y) (b_right n) r R"
    "A = insert y (L \<union> M \<union> R)" "y \<notin> L \<union> M \<union> R" "L \<inter> M = {}" "L \<inter> R = {}" "M \<inter> R = {}" unfolding brep.simps by blast
  have "brep h' (Some y) (b_left n) l L" "brep h' (Some y) (b_midle n) m M" "brep h' (Some y) (b_right n) r R"
    using BN.IH n(6-9) BN.prems(2) by auto
  moreover have "h' y = Some n" using BN.prems(2) n(2,9) by simp
  ultimately show ?case unfolding brep.simps using n by blast
qed simp

text \<open>The node to be inserted.\<close>

definition fresh_node :: "bheap \<Rightarrow> baddr \<Rightarrow> int \<Rightarrow> int \<Rightarrow> bool" where
  "fresh_node h nd k e \<longleftrightarrow> (\<exists>q. h nd = Some \<lparr>b_left = None, b_midle = None, b_right = None, b_p = q, lkey = k, rkey = e\<rparr>)"

text \<open>The three sides of a node.\<close>

datatype side = SL | SM | SR

fun kidp :: "side \<Rightarrow> bs23tree_node \<Rightarrow> baddr option" where
  "kidp SL n = b_left n"
| "kidp SM n = b_midle n"
| "kidp SR n = b_right n"

fun set_kid :: "side \<Rightarrow> baddr \<Rightarrow> bs23tree_node \<Rightarrow> bs23tree_node" where
  "set_kid SL c n = n\<lparr>b_left := Some c\<rparr>"
| "set_kid SM c n = n\<lparr>b_midle := Some c\<rparr>"
| "set_kid SR c n = n\<lparr>b_right := Some c\<rparr>"

definition side_of :: "bool \<Rightarrow> int \<Rightarrow> int \<Rightarrow> int \<Rightarrow> side" where
  "side_of isr a b k = (if \<not> isr \<and> is3 b \<and> a < k \<and> k < b then SM else if k < a then SL else SR)"

definition bnode :: "(side \<Rightarrow> btree) \<Rightarrow> int \<Rightarrow> int \<Rightarrow> btree" where
  "bnode T a b = BN (T SL) a (T SM) b (T SR)"

lemma all_side: "(\<forall>s. P s) \<longleftrightarrow> P SL \<and> P SM \<and> P SR"
  by (metis side.exhaust)

lemma UN_side: "(\<Union>s. F s) = F SL \<union> F SM \<union> F SR"
proof -
  have "(UNIV :: side set) = {SL, SM, SR}" by (auto intro: side.exhaust)
  then show ?thesis by (metis UN_insert UN_empty Un_assoc Un_empty_right)
qed

lemma BN_bnode: "\<exists>T. BN l a m b r = bnode T a b"
  by (rule exI [of _ "case_side l m r"]) (simp add: bnode_def)

lemma kidp_set [simp]: "kidp s (set_kid s c n) = Some c" "s \<noteq> s' \<Longrightarrow> kidp s' (set_kid s c n) = kidp s' n"
  by (cases s; simp) (cases s; cases s'; simp)

lemma set_kid_simps [simp]: "b_p (set_kid s c n) = b_p n" "lkey (set_kid s c n) = lkey n" "rkey (set_kid s c n) = rkey n"
  by (cases s; simp)+

lemma next_side: "bs23_next n k = kidp (side_of (b_p n = None) (lkey n) (rkey n) k) n"
  by (auto simp: bs23_next_def to_midle_def side_of_def BS23TR_IS_3NODE_def is3_def)

lemma link_side: "bs23_link n k c = set_kid (side_of (b_p n = None) (lkey n) (rkey n) k) c n"
  by (auto simp: bs23_link_def to_midle_def side_of_def BS23TR_IS_3NODE_def is3_def)

lemma b_ins_side:
  "isr \<or> is3 b \<Longrightarrow> b_ins isr k e (bnode T a b) = (let s = side_of isr a b k in bnode (T(s := b_ins False k e (T s))) a b)"
  by (auto simp: bnode_def side_of_def Let_def)

lemma b_find_side:
  "a \<noteq> k \<or> \<not> isr \<and> is3 b \<and> b \<noteq> k \<Longrightarrow> b_find isr k (bnode T a b) = b_find False k (T (side_of isr a b k))"
  by (auto simp: bnode_def side_of_def)

lemma b_depth_side: "b_depth (T s) < b_depth (bnode T a b)"
  by (cases s) (auto simp: bnode_def)

definition disj_fam :: "(side \<Rightarrow> baddr set) \<Rightarrow> bool" where
  "disj_fam F \<longleftrightarrow> (\<forall>s s'. s \<noteq> s' \<longrightarrow> F s \<inter> F s' = {})"

lemma brep_side:
  "brep h q (Some y) (bnode T a b) A \<longleftrightarrow>
     (\<exists>n F. h y = Some n \<and> b_p n = q \<and> lkey n = a \<and> rkey n = b \<and> (\<forall>s. brep h (Some y) (kidp s n) (T s) (F s)) \<and>
       A = insert y (\<Union>s. F s) \<and> (\<forall>s. y \<notin> F s) \<and> disj_fam F)" (is "?l \<longleftrightarrow> ?r")
proof
  assume ?l
  then obtain n L M R where n: "h y = Some n" "b_p n = q" "lkey n = a" "rkey n = b"
    "brep h (Some y) (b_left n) (T SL) L" "brep h (Some y) (b_midle n) (T SM) M" "brep h (Some y) (b_right n) (T SR) R"
    "A = insert y (L \<union> M \<union> R)" "y \<notin> L \<union> M \<union> R" "L \<inter> M = {}" "L \<inter> R = {}" "M \<inter> R = {}" unfolding bnode_def brep.simps by blast
  then show ?r
    by (intro exI [of _ n] exI [of _ "case_side L M R"]) (auto simp: all_side UN_side disj_fam_def)
next
  assume ?r
  then obtain n F where "h y = Some n" "b_p n = q" "lkey n = a" "rkey n = b" "\<forall>s. brep h (Some y) (kidp s n) (T s) (F s)"
    "A = insert y (F SL \<union> F SM \<union> F SR)" "\<forall>s. y \<notin> F s" "disj_fam F" by (auto simp: UN_side)
  then show ?l unfolding bnode_def brep.simps
    by (intro exI [of _ y] exI [of _ n] exI [of _ "F SL"] exI [of _ "F SM"] exI [of _ "F SR"]) (auto simp: all_side disj_fam_def)
qed

text \<open>One subtree changes, with at most the address \<open>nd\<close> added; the others stay as they are.\<close>

lemma brep_change:
  assumes n: "b_p n = q" "lkey n = a" "rkey n = b" "\<forall>s. brep h (Some x) (kidp s n) (T s) (F s)" "\<forall>s. x \<notin> F s" "disj_fam F"
    and nd: "nd \<notin> insert x (\<Union>s. F s)"
    and n': "h' x = Some n'" "b_p n' = q" "lkey n' = a" "rkey n' = b" "\<And>s'. s' \<noteq> s \<Longrightarrow> kidp s' n' = kidp s' n"
    and t': "brep h' (Some x) (kidp s n') t' B" "B \<subseteq> insert nd (F s)" "\<forall>c. c \<notin> insert x (insert nd (F s)) \<longrightarrow> h' c = h c"
  shows "\<exists>A'. brep h' q (Some x) (bnode (T(s := t')) a b) A' \<and> A' \<subseteq> insert nd (insert x (\<Union>s. F s))"
proof -
  define G where "G = F(s := B)"
  have "brep h' (Some x) (kidp s' n') ((T(s := t')) s') (G s')" for s'
  proof (cases "s' = s")
    case False
    then have "F s' \<inter> F s = {}" using n(6) by (simp add: disj_fam_def)
    then have "\<forall>c \<in> F s'. h' c = h c" using t'(3) n(5) nd by auto
    then show ?thesis using False n'(5) brep_frame [OF n(4) [rule_format, of s']] by (simp add: G_def)
  qed (simp add: t'(1) G_def)
  moreover have "x \<notin> G s'" "G s' \<subseteq> insert nd (\<Union>s. F s)" for s' using n(5) t'(2) nd by (auto simp: G_def)
  moreover have "G s1 \<inter> G s2 = {}" if "s1 \<noteq> s2" for s1 s2
  proof -
    have "F s1 \<inter> F s2 = {}" using n(6) that by (simp add: disj_fam_def)
    then show ?thesis using t'(2) nd that by (auto simp: G_def)
  qed
  then have "disj_fam G" by (simp add: disj_fam_def)
  ultimately have "brep h' q (Some x) (bnode (T(s := t')) a b) (insert x (\<Union>s. G s))"
    unfolding brep_side using n' by (intro exI [of _ n'] exI [of _ G]) simp
  moreover have "(\<Union>s. G s) \<subseteq> insert nd (\<Union>s. F s)" using \<open>\<And>s'. G s' \<subseteq> insert nd (\<Union>s. F s)\<close> by blast
  ultimately show ?thesis by blast
qed

text \<open>Descending and finishing from a node of the tree on.\<close>

lemma descend_finish_sim:
  assumes "fresh_node h nd k e"
  shows "brep h q (Some x) t A \<Longrightarrow> nd \<notin> A \<Longrightarrow> b_depth t < fuel \<Longrightarrow>
    \<exists>ret h' A'. bindr (bs23_descend fuel h k (Some x) prev) (bs23_finish root nd k) = Inr (Some ret, root, h') \<and>
      brep h' q (Some x) (b_ins (q = None) k e t) A' \<and> A' \<subseteq> insert nd A \<and> (\<forall>c. c \<notin> insert nd A \<longrightarrow> h' c = h c)"
proof (induction fuel arbitrary: q x t A prev)
  case (Suc fuel)
  have "t \<noteq> B0" using Suc.prems(1) by auto
  then obtain T a b where t: "t = bnode T a b" using BN_bnode by (cases t) blast+
  obtain n F where n: "h x = Some n" "b_p n = q" "lkey n = a" "rkey n = b" "\<forall>s. brep h (Some x) (kidp s n) (T s) (F s)"
    "A = insert x (\<Union>s. F s)" "\<forall>s. x \<notin> F s" "disj_fam F" using Suc.prems(1) unfolding t brep_side by blast
  show ?case
  proof (cases "q = None \<or> is3 b")
    case False
    define n' where "n' = (if k < lkey n then n\<lparr>rkey := lkey n, lkey := k\<rparr> else n\<lparr>rkey := k\<rparr>)"
    define T' where "T' = bnode T (if k < a then k else a) (if k < a then a else k)"
    have "bindr (bs23_descend (Suc fuel) h k (Some x) prev) (bs23_finish root nd k) = Inr (Some x, root, h(x \<mapsto> n'))"
      using n(1-4) False by (auto simp: BS23TR_IS_3NODE_def is3_def bs23_finish_def n'_def)
    moreover have "brep (h(x \<mapsto> n')) (Some x) (kidp s n') (T s) (F s)" for s
    proof -
      have "kidp s n' = kidp s n" by (cases s) (simp_all add: n'_def)
      then show ?thesis using n(5,7) brep_frame [of h "Some x" "kidp s n" "T s" "F s" "h(x \<mapsto> n')"] by auto
    qed
    then have "brep (h(x \<mapsto> n')) q (Some x) T' A" unfolding T'_def brep_side using n
      by (intro exI [of _ n'] exI [of _ F]) (auto simp: n'_def)
    moreover have "b_ins (q = None) k e t = T'" using False by (auto simp: t bnode_def T'_def)
    moreover have "\<forall>c. c \<notin> insert nd A \<longrightarrow> (h(x \<mapsto> n')) c = h c" "A \<subseteq> insert nd A" using n(6) by auto
    ultimately show ?thesis by metis
  next
    case True
    define s where "s = side_of (q = None) a b k"
    have run: "bs23_descend (Suc fuel) h k (Some x) prev = bs23_descend fuel h k (kidp s n) (Some x)"
      using n True by (simp add: BS23TR_IS_3NODE_def is3_def next_side s_def)
    have ins: "b_ins (q = None) k e t = bnode (T(s := b_ins False k e (T s))) a b" using True by (simp add: t b_ins_side s_def Let_def)
    have nd: "nd \<notin> insert x (\<Union>s. F s)" using Suc.prems(2) n(6) by simp
    show ?thesis
    proof (cases "kidp s n")
      case None
      then have T: "T s = B0" "F s = {}" using n(5) [rule_format, of s] by (cases "T s"; auto)+
      obtain q0 where n0: "h nd = Some \<lparr>b_left = None, b_midle = None, b_right = None, b_p = q0, lkey = k, rkey = e\<rparr>"
        using assms by (auto simp: fresh_node_def)
      let ?n0 = "\<lparr>b_left = None, b_midle = None, b_right = None, b_p = Some x, lkey = k, rkey = e\<rparr>"
      let ?h = "h(x \<mapsto> set_kid s nd n, nd \<mapsto> ?n0)"
      have "0 < fuel" using Suc.prems(3) by (cases fuel) (auto simp: t bnode_def)
      then have "bindr (bs23_descend (Suc fuel) h k (Some x) prev) (bs23_finish root nd k) = Inr (Some nd, root, ?h)"
        using n(1-4) n0 nd None unfolding run by (cases fuel) (auto simp: bs23_finish_def link_side s_def)
      moreover have "brep ?h (Some x) (kidp s (set_kid s nd n)) (b_ins False k e (T s)) {nd}" by (simp add: T)
      then have "\<exists>A'. brep ?h q (Some x) (bnode (T(s := b_ins False k e (T s))) a b) A' \<and> A' \<subseteq> insert nd (insert x (\<Union>s. F s))"
        by (rule brep_change [OF n(2-5,7,8) nd, where n' = "set_kid s nd n", rotated 5]) (use n(2-4) nd in auto)
      ultimately show ?thesis using n(6) unfolding ins by auto
    next
      case (Some c)
      have c: "brep h (Some x) (Some c) (T s) (F s)" using n(5) Some by metis
      have "b_depth (T s) < fuel" using Suc.prems(3) b_depth_side [of T s a b] by (simp add: t)
      from Suc.IH [OF c _ this, of "Some x"] nd obtain ret h' B where h': "bindr (bs23_descend fuel h k (Some c) (Some x)) (bs23_finish root nd k) = Inr (Some ret, root, h')"
        "brep h' (Some x) (Some c) (b_ins False k e (T s)) B" "B \<subseteq> insert nd (F s)" "\<forall>c. c \<notin> insert nd (F s) \<longrightarrow> h' c = h c" by auto
      have "h' x = Some n" using h'(4) n(1,7) nd by auto
      then have "\<exists>A'. brep h' q (Some x) (bnode (T(s := b_ins False k e (T s))) a b) A' \<and> A' \<subseteq> insert nd (insert x (\<Union>s. F s))"
        by (rule brep_change [OF n(2-5,7,8) nd]) (use n(2-4) h'(2-4) Some in auto)
      moreover have "\<forall>c. c \<notin> insert nd A \<longrightarrow> h' c = h c" using h'(4) n(6) by auto
      ultimately show ?thesis using h'(1) n(6) unfolding ins run Some by blast
    qed
  qed
qed simp

lemma bs23tree_insert_sim:
  assumes "fresh_node h nd k e" "brep h None root t A" "nd \<notin> A" "b_depth t < fuel"
  shows "\<exists>ret root' h' A'. bs23tree_insert fuel root h (Some nd) = Inr (Some ret, root', h') \<and>
    brep h' None root' (b_ins True k e t) A' \<and> A' \<subseteq> insert nd A \<and> (\<forall>c. c \<notin> insert nd A \<longrightarrow> h' c = h c)"
proof (cases root)
  case None
  then have t: "t = B0" "A = {}" using assms(2) by (cases t; auto)+
  obtain q0 where n0: "h nd = Some \<lparr>b_left = None, b_midle = None, b_right = None, b_p = q0, lkey = k, rkey = e\<rparr>"
    using assms(1) by (auto simp: fresh_node_def)
  obtain f where "fuel = Suc f" using assms(4) by (cases fuel) auto
  then show ?thesis using None t n0 by (auto simp: bs23tree_insert_def bs23_finish_def)
next
  case (Some x)
  obtain n where "h nd = Some n" "lkey n = k" using assms(1) by (auto simp: fresh_node_def)
  moreover obtain ret h' A' where "bindr (bs23_descend fuel h k (Some x) None) (bs23_finish root nd k) = Inr (Some ret, root, h')"
    "brep h' None (Some x) (b_ins True k e t) A'" "A' \<subseteq> insert nd A" "\<forall>c. c \<notin> insert nd A \<longrightarrow> h' c = h c"
    using descend_finish_sim [OF assms(1) assms(2) [unfolded Some] assms(3,4), of None root] by auto
  ultimately show ?thesis using Some by (auto simp: bs23tree_insert_def)
qed

lemma b_depth_ins: "b_depth (b_ins isr k e t) \<le> Suc (b_depth t)"
  by (induction isr k e t rule: b_ins.induct) auto

text \<open>All nodes of an array, in their order.\<close>

lemma bs23_inserts_sim:
  assumes "brep h None tr t A" "\<forall>i \<in> set is. fresh_node h i (ks ! i) e \<and> i \<notin> A" "distinct is" "b_depth t + length is < fuel"
  shows "\<exists>tr' h' A'. bs23_inserts fuel tr h is = Inr (0, tr', h') \<and>
    brep h' None tr' (fold (\<lambda>i. b_ins True (ks ! i) e) is t) A'"
  using assms
proof (induction "is" arbitrary: h tr t A)
  case (Cons i "is")
  from bs23tree_insert_sim [of h i "ks ! i" e tr t A fuel] Cons.prems obtain ret tr' h' A' where
    i: "bs23tree_insert fuel tr h (Some i) = Inr (Some ret, tr', h')" "brep h' None tr' (b_ins True (ks ! i) e t) A'"
      "A' \<subseteq> insert i A" "\<forall>c. c \<notin> insert i A \<longrightarrow> h' c = h c" by auto
  have "\<forall>j \<in> set is. fresh_node h' j (ks ! j) e \<and> j \<notin> A'" using i(3,4) Cons.prems(2,3) by (auto simp: fresh_node_def)
  moreover have "b_depth (b_ins True (ks ! i) e t) + length is < fuel" using b_depth_ins [of True "ks ! i" e t] Cons.prems(4) by simp
  ultimately show ?case using Cons.IH [OF i(2)] Cons.prems(3) i(1) by simp
qed auto

definition b_build :: "int list \<Rightarrow> btree" where
  "b_build ks = fold (\<lambda>k. b_ins True k (- INT_MAX)) ks B0"

lemma fold_upt_nth: "fold (\<lambda>i. f (xs ! i)) [0..<length xs] s = fold f xs s"
proof -
  have "map ((!) xs) [0..<length xs] = xs" by (rule map_nth)
  then show ?thesis by (metis (no_types, lifting) comp_def fold_cong fold_map)
qed

lemma b_depth_build: "b_depth (b_build ks) \<le> length ks"
proof -
  have "b_depth (fold (\<lambda>k. b_ins True k e) ks t) \<le> b_depth t + length ks" for e t
  proof (induction ks arbitrary: t)
    case (Cons k ks)
    show ?case using Cons.IH [of "b_ins True k e t"] b_depth_ins [of True k e t] by simp
  qed simp
  from this [of "- INT_MAX" B0] show ?thesis by (simp add: b_build_def)
qed

lemma bs23tree_init_sim:
  assumes "ks \<noteq> []" "length ks < fuel"
  shows "\<exists>tr h A. bs23tree_init fuel (bs23_nodes ks) (length ks) = Inr (0, tr, h) \<and> brep h None tr (b_build ks) A"
proof -
  have "\<forall>i \<in> set [0..<length ks]. fresh_node (bs23_nodes ks) i (ks ! i) (- INT_MAX) \<and> i \<notin> {}"
    by (auto simp: fresh_node_def bs23_nodes_def BS23TR_NODE_def)
  from bs23_inserts_sim [OF _ this, of None B0 fuel] assms(2) obtain tr h A where
    s: "bs23_inserts fuel None (bs23_nodes ks) [0..<length ks] = Inr (0, tr, h)" "brep h None tr (b_build ks) A"
    by (auto simp: b_build_def fold_upt_nth [of "\<lambda>k. b_ins True k (- INT_MAX)" ks])
  have "b_build ks \<noteq> B0"
  proof -
    have "b_ins True k e t \<noteq> B0" for k e t by (cases t) auto
    then show ?thesis using assms(1) unfolding b_build_def by (cases ks rule: rev_cases) auto
  qed
  then obtain a n where "tr = Some a" "h a = Some n" using s(2) by (cases "b_build ks") auto
  then show ?thesis using s by (auto simp: bs23tree_init_def)
qed

lemma bs23tree_search_sim:
  "brep h q x t A \<Longrightarrow> b_depth t < fuel \<Longrightarrow>
   \<exists>y. bs23tree_search fuel h x k = Inr y \<and> (case y of None \<Rightarrow> \<not> b_find (q = None) k t
     | Some a \<Rightarrow> b_find (q = None) k t \<and> (\<exists>n. h a = Some n \<and> lkey n = k))"
proof (induction fuel arbitrary: q x t A)
  case (Suc fuel)
  show ?case
  proof (cases t)
    case B0
    then show ?thesis using Suc.prems by simp
  next
    case (BN l a m b r)
    then obtain T where t: "t = bnode T a b" using BN_bnode by metis
    obtain y where x: "x = Some y" using Suc.prems(1) BN by auto
    obtain n F where n: "h y = Some n" "b_p n = q" "lkey n = a" "rkey n = b" "\<forall>s. brep h (Some y) (kidp s n) (T s) (F s)"
      using Suc.prems(1) unfolding t x brep_side by blast
    show ?thesis
    proof (cases "a \<noteq> k \<or> \<not> q = None \<and> is3 b \<and> b \<noteq> k")
      case True
      let ?s = "side_of (q = None) a b k"
      have "bs23tree_search (Suc fuel) h x k = bs23tree_search fuel h (kidp ?s n) k"
        using True n(1-4) x by (simp add: BS23TR_IS_3NODE_def is3_def next_side)
      moreover have "b_depth (T ?s) < fuel" using Suc.prems(2) b_depth_side [of T ?s a b] by (simp add: t)
      moreover have f: "b_find (q = None) k t = b_find (Some y = None) k (T ?s)" unfolding t using b_find_side [OF True] by simp
      ultimately show ?thesis using Suc.IH [OF n(5) [rule_format, of ?s]] unfolding f by simp
    next
      case False
      then have "bs23tree_search (Suc fuel) h x k = Inr (Some y)" using n(1-4) x by (auto simp: BS23TR_IS_3NODE_def is3_def)
      moreover have "b_find (q = None) k t" using False by (auto simp: BN)
      ultimately show ?thesis using n(1,3) False by auto
    qed
  qed
qed simp

section \<open>Order\<close>

fun b_keys :: "btree \<Rightarrow> int list" where
  "b_keys B0 = []"
| "b_keys (BN l a m b r) = b_keys l @ a # b_keys m @ (if is3 b then [b] else []) @ b_keys r"

text \<open>The keys of the nodes that count as 2-nodes.\<close>

fun twos :: "bool \<Rightarrow> btree \<Rightarrow> int list" where
  "twos isr B0 = []"
| "twos isr (BN l a m b r) = twos False l @ (if isr \<or> \<not> is3 b then [a] else []) @ twos False m @ twos False r"

text \<open>The root is a 2-node; a 2-node below it has no children.\<close>

fun b_wf :: "bool \<Rightarrow> btree \<Rightarrow> bool" where
  "b_wf isr B0 \<longleftrightarrow> True"
| "b_wf isr (BN l a m b r) \<longleftrightarrow>
     is3 a \<and> (if isr then m = B0 \<and> \<not> is3 b \<and> b_wf False l \<and> b_wf False r
      else if is3 b then b_wf False l \<and> b_wf False m \<and> b_wf False r else l = B0 \<and> m = B0 \<and> r = B0)"

lemma not_is3 [simp]: "\<not> is3 (- INT_MAX)"
  by (simp add: is3_def)

lemma b_ins_wf: "b_wf isr t \<Longrightarrow> is3 k \<Longrightarrow> b_wf isr (b_ins isr k (- INT_MAX) t)"
  by (induction isr k "- INT_MAX" t rule: b_ins.induct) (auto split: if_splits)

lemma b_ins_keys: "b_wf isr t \<Longrightarrow> is3 k \<Longrightarrow> set (b_keys (b_ins isr k (- INT_MAX) t)) = insert k (set (b_keys t))"
  by (induction isr k "- INT_MAX" t rule: b_ins.induct) (auto split: if_splits)

lemma sorted_B3:
  "is3 b \<Longrightarrow> sorted_wrt (<) (b_keys (BN l a m b r)) \<longleftrightarrow> sorted_wrt (<) (b_keys l) \<and> sorted_wrt (<) (b_keys m) \<and> sorted_wrt (<) (b_keys r) \<and>
     (\<forall>x \<in> set (b_keys l). x < a) \<and> (\<forall>x \<in> set (b_keys m). a < x \<and> x < b) \<and> a < b \<and> (\<forall>x \<in> set (b_keys r). b < x)"
  by (force simp: sorted_wrt_append)

lemma sorted_B2:
  "\<not> is3 b \<Longrightarrow> sorted_wrt (<) (b_keys (BN l a B0 b r)) \<longleftrightarrow> sorted_wrt (<) (b_keys l) \<and> sorted_wrt (<) (b_keys r) \<and>
     (\<forall>x \<in> set (b_keys l). x < a) \<and> (\<forall>x \<in> set (b_keys r). a < x)"
  by (force simp: sorted_wrt_append)

lemma set_BN: "set (b_keys (BN l a m b r)) = set (b_keys l) \<union> set (b_keys m) \<union> set (b_keys r) \<union> {a} \<union> (if is3 b then {b} else {})"
  by auto

lemma b_ins_sorted:
  "b_wf isr t \<Longrightarrow> is3 k \<Longrightarrow> sorted_wrt (<) (b_keys t) \<Longrightarrow> k \<notin> set (b_keys t) \<Longrightarrow> sorted_wrt (<) (b_keys (b_ins isr k (- INT_MAX) t))"
proof (induction isr k "- INT_MAX" t rule: b_ins.induct)
  case (2 isr k l a m b r)
  show ?case
  proof (cases "is3 b")
    case True
    then show ?thesis using 2 by (auto simp: sorted_B3 b_ins_keys set_BN simp del: b_keys.simps(2) split: if_splits)
  next
    case False
    then have "m = B0" using 2 by (auto split: if_splits)
    then show ?thesis using 2 False by (auto simp: sorted_B3 sorted_B2 b_ins_keys set_BN simp del: b_keys.simps(2) split: if_splits)
  qed
qed simp

lemma b_build_inv:
  assumes "distinct ks" "- INT_MAX \<notin> set ks"
  shows "b_wf True (b_build ks) \<and> sorted_wrt (<) (b_keys (b_build ks)) \<and> set (b_keys (b_build ks)) = set ks"
  using assms
proof (induction ks rule: rev_induct)
  case (snoc k ks)
  then have "is3 k" by (auto simp: is3_def)
  then show ?case using snoc b_ins_wf b_ins_keys b_ins_sorted by (simp add: b_build_def)
qed (simp add: b_build_def)

lemma twos_keys: "set (twos isr t) \<subseteq> set (b_keys t)"
  by (induction isr t rule: twos.induct) auto

lemma b_find_twos: "b_wf isr t \<Longrightarrow> sorted_wrt (<) (b_keys t) \<Longrightarrow> b_find isr k t \<longleftrightarrow> k \<in> set (twos isr t)"
proof (induction isr k t rule: b_find.induct)
  case (2 isr k l a m b r)
  have sub: "\<forall>x \<in> set (twos False l). x < a" "\<forall>x \<in> set (twos False r). a < x" "is3 b \<longrightarrow> (\<forall>x \<in> set (twos False r). b < x)"
    "is3 b \<longrightarrow> (\<forall>x \<in> set (twos False m). a < x \<and> x < b)" "is3 b \<longrightarrow> a < b" "\<forall>x \<in> set (twos False m). a < x"
    using 2(5) twos_keys [of False l] twos_keys [of False m] twos_keys [of False r] by (auto simp: sorted_wrt_append)
  have keys: "sorted_wrt (<) (b_keys l)" "sorted_wrt (<) (b_keys m)" "sorted_wrt (<) (b_keys r)" using 2(5) by (auto simp: sorted_wrt_append)
  show ?case
  proof (cases "isr \<or> \<not> is3 b")
    case True
    then have "m = B0" using 2(4) by (auto split: if_splits)
    then show ?thesis using 2(2-4) True keys sub by (auto split: if_splits)
  next
    case False
    then show ?thesis using 2(1-4) keys sub by (auto split: if_splits)
  qed
qed simp

text \<open>C30: the tree built from nodes with any distinct keys other than the marker value has all keys, in order, with consistent parent pointers;
  but a search finds a key exactly if it is that of the root or of a node with a single key: the keys of 3-nodes are never found.\<close>

theorem bs23_search_misses:
  assumes "distinct ks" "ks \<noteq> []" "- INT_MAX \<notin> set ks" "length ks < fuel"
  shows "\<exists>tr h A. bs23tree_init fuel (bs23_nodes ks) (length ks) = Inr (0, tr, h) \<and> brep h None tr (b_build ks) A \<and>
    b_keys (b_build ks) = sort ks \<and>
    (\<forall>k. \<exists>y. bs23tree_search fuel h tr k = Inr y \<and> (y \<noteq> None \<longleftrightarrow> k \<in> set (twos True (b_build ks))) \<and>
      (\<forall>a. y = Some a \<longrightarrow> (\<exists>n. h a = Some n \<and> lkey n = k)))"
proof -
  obtain tr h A where s: "bs23tree_init fuel (bs23_nodes ks) (length ks) = Inr (0, tr, h)" "brep h None tr (b_build ks) A"
    using bs23tree_init_sim [OF assms(2,4)] by blast
  have w: "b_wf True (b_build ks)" "sorted_wrt (<) (b_keys (b_build ks))" "set (b_keys (b_build ks)) = set ks"
    using b_build_inv [OF assms(1,3)] by blast+
  then have "b_keys (b_build ks) = sort ks"
    using assms(1) by (intro sorted_distinct_set_unique) (auto simp: strict_sorted_iff)
  moreover have "\<exists>y. bs23tree_search fuel h tr k = Inr y \<and> (y \<noteq> None \<longleftrightarrow> k \<in> set (twos True (b_build ks))) \<and>
      (\<forall>a. y = Some a \<longrightarrow> (\<exists>n. h a = Some n \<and> lkey n = k))" for k
  proof -
    have "b_depth (b_build ks) < fuel" using b_depth_build [of ks] assms(4) by simp
    from bs23tree_search_sim [OF s(2) this, of k] show ?thesis using b_find_twos [OF w(1,2), of k] by (auto split: option.splits)
  qed
  ultimately show ?thesis using s by blast
qed

theorem bs23_search_misses_witness:
  "(\<exists>tr h A. bs23tree_init 12 (bs23_nodes bs23_test_keys) (length bs23_test_keys) = Inr (0, tr, h) \<and> brep h None tr (b_build bs23_test_keys) A \<and>
    b_keys (b_build bs23_test_keys) = sort bs23_test_keys \<and>
    (\<forall>k. \<exists>y. bs23tree_search 12 h tr k = Inr y \<and> (y \<noteq> None \<longleftrightarrow> k \<in> set (twos True (b_build bs23_test_keys))) \<and>
      (\<forall>a. y = Some a \<longrightarrow> (\<exists>n. h a = Some n \<and> lkey n = k)))) \<and>
   twos True (b_build bs23_test_keys) = map of_char ''HLM''"
proof (rule conjI)
  show "twos True (b_build bs23_test_keys) = map of_char ''HLM''" by code_simp
qed (rule bs23_search_misses, simp_all add: bs23_test_keys_def)

end
