(* ===== verification/Bs_Tree.thy ===== *)
theory Bs_Tree
  imports C_Text "HOL-Library.Multiset"
begin

text \<open>
  The binary search tree of \<^verbatim>\<open>src/algs/intro_to_algs3th/test_binary_search_tree.cpp\<close>, with parent pointers and deletion.

  The program works on nodes that the caller provides. The model is a heap of nodes and the reference to the root. Loops and recursions take fuel, because
  they would not end on a heap with cycles; one more than the number of nodes is enough. The proofs use trees that carry the addresses, and
  contexts for the place in the tree at which a node is put in or taken out.

  The locale \<open>node_set\<close> is what the tree promises its clients: a collection of nodes that can be put in once, taken out and walked in order.
\<close>

section \<open>The program\<close>

record bstree_node =
  bn_key :: int
  bn_left :: "nat option"
  bn_right :: "nat option"
  bn_p :: "nat option"

record bstree =
  bs_root :: "nat option"
  bs_mem :: "nat \<Rightarrow> bstree_node option"

definition bn_get :: "bstree \<Rightarrow> nat \<Rightarrow> cerr + bstree_node" where
  "bn_get tr a = deref (bs_mem tr a)"

definition bn_upd :: "bstree \<Rightarrow> nat \<Rightarrow> (bstree_node \<Rightarrow> bstree_node) \<Rightarrow> cerr + bstree" where
  "bn_upd tr a f = bindr (bn_get tr a) (\<lambda>n. Inr (tr\<lparr>bs_mem := (bs_mem tr)(a \<mapsto> f n)\<rparr>))"

fun bstree_max :: "nat \<Rightarrow> bstree \<Rightarrow> nat \<Rightarrow> cerr + nat" where
  "bstree_max 0 tr a = Inl OutOfFuel"
| "bstree_max (Suc fuel) tr a = bindr (bn_get tr a) (\<lambda>n. case bn_right n of None \<Rightarrow> Inr a | Some b \<Rightarrow> bstree_max fuel tr b)"

fun bstree_min :: "nat \<Rightarrow> bstree \<Rightarrow> nat \<Rightarrow> cerr + nat" where
  "bstree_min 0 tr a = Inl OutOfFuel"
| "bstree_min (Suc fuel) tr a = bindr (bn_get tr a) (\<lambda>n. case bn_left n of None \<Rightarrow> Inr a | Some b \<Rightarrow> bstree_min fuel tr b)"

fun bstree_node_count :: "nat \<Rightarrow> bstree \<Rightarrow> nat option \<Rightarrow> cerr + nat" where
  "bstree_node_count 0 tr r = Inl OutOfFuel"
| "bstree_node_count (Suc fuel) tr r =
     (case r of None \<Rightarrow> Inr 0
      | Some a \<Rightarrow> bindr (bn_get tr a) (\<lambda>n.
          bindr (bstree_node_count fuel tr (bn_left n)) (\<lambda>l. bindr (bstree_node_count fuel tr (bn_right n)) (\<lambda>r. Inr (l + r + 1)))))"

text \<open>The loop of the insertion: the last node on the way down.\<close>

fun insert_pos :: "nat \<Rightarrow> bstree \<Rightarrow> int \<Rightarrow> nat option \<Rightarrow> nat option \<Rightarrow> cerr + nat option" where
  "insert_pos 0 tr k x p = Inl OutOfFuel"
| "insert_pos (Suc fuel) tr k x p =
     (case x of None \<Rightarrow> Inr p
      | Some a \<Rightarrow> bindr (bn_get tr a) (\<lambda>n. insert_pos fuel tr k (if k < bn_key n then bn_left n else bn_right n) (Some a)))"

definition bstree_insert :: "nat \<Rightarrow> bstree \<Rightarrow> nat option \<Rightarrow> cerr + int \<times> bstree" where
  "bstree_insert fuel tr node =
     (case node of None \<Rightarrow> Inr (- 1, tr)
      | Some a \<Rightarrow>
        bindr (bn_get tr a) (\<lambda>n.
        bindr (insert_pos fuel tr (bn_key n) (bs_root tr) None) (\<lambda>p.
        bindr (case p of None \<Rightarrow> Inr (tr\<lparr>bs_root := Some a\<rparr>)
               | Some q \<Rightarrow> bindr (bn_get tr q) (\<lambda>nq.
                   if bn_key n < bn_key nq then bn_upd tr q (\<lambda>n. n\<lparr>bn_left := Some a\<rparr>) else bn_upd tr q (\<lambda>n. n\<lparr>bn_right := Some a\<rparr>))) (\<lambda>tr.
        bindr (bn_upd tr a (\<lambda>n. n\<lparr>bn_p := p\<rparr>)) (\<lambda>tr. Inr (0, tr))))))"

text \<open>The recursion passes a reference to a link; here it returns the new value of the link. It never sets the parent.\<close>

fun insert_rec :: "nat \<Rightarrow> bstree \<Rightarrow> nat option \<Rightarrow> nat \<Rightarrow> cerr + nat option \<times> bstree" where
  "insert_rec 0 tr r a = Inl OutOfFuel"
| "insert_rec (Suc fuel) tr r a =
     (case r of None \<Rightarrow> Inr (Some a, tr)
      | Some x \<Rightarrow>
        bindr (bn_get tr a) (\<lambda>n. bindr (bn_get tr x) (\<lambda>nx.
        if bn_key n < bn_key nx
        then bindr (insert_rec fuel tr (bn_left nx) a) (\<lambda>(l, tr). bindr (bn_upd tr x (\<lambda>n. n\<lparr>bn_left := l\<rparr>)) (\<lambda>tr. Inr (r, tr)))
        else bindr (insert_rec fuel tr (bn_right nx) a) (\<lambda>(l, tr). bindr (bn_upd tr x (\<lambda>n. n\<lparr>bn_right := l\<rparr>)) (\<lambda>tr. Inr (r, tr))))))"

definition bstree_insert_recursive :: "nat \<Rightarrow> bstree \<Rightarrow> nat option \<Rightarrow> cerr + int \<times> bstree" where
  "bstree_insert_recursive fuel tr node =
     (case node of None \<Rightarrow> Inr (- 1, tr)
      | Some a \<Rightarrow> bindr (insert_rec fuel tr (bs_root tr) a) (\<lambda>(r, tr). Inr (0, tr\<lparr>bs_root := r\<rparr>)))"

fun bstree_search :: "nat \<Rightarrow> bstree \<Rightarrow> nat option \<Rightarrow> int \<Rightarrow> cerr + nat option" where
  "bstree_search 0 tr x k = Inl OutOfFuel"
| "bstree_search (Suc fuel) tr x k =
     (case x of None \<Rightarrow> Inr None
      | Some a \<Rightarrow> bindr (bn_get tr a) (\<lambda>n.
          if bn_key n \<noteq> k then bstree_search fuel tr (if k < bn_key n then bn_left n else bn_right n) k else Inr x))"

text \<open>Only the first step is made by the function itself.\<close>

definition bstree_search_recursive :: "nat \<Rightarrow> bstree \<Rightarrow> nat option \<Rightarrow> int \<Rightarrow> cerr + nat option" where
  "bstree_search_recursive fuel tr x k =
     (case x of None \<Rightarrow> Inr None
      | Some a \<Rightarrow> bindr (bn_get tr a) (\<lambda>n.
          if k = bn_key n then Inr x
          else if k < bn_key n then bstree_search fuel tr (bn_left n) k else bstree_search fuel tr (bn_right n) k))"

definition bstree_transplant :: "bstree \<Rightarrow> nat \<Rightarrow> nat option \<Rightarrow> cerr + bstree" where
  "bstree_transplant tr u v =
     bindr (bn_get tr u) (\<lambda>nu.
     bindr (case bn_p nu of None \<Rightarrow> Inr (tr\<lparr>bs_root := v\<rparr>)
            | Some q \<Rightarrow> bindr (bn_get tr q) (\<lambda>nq.
                if bn_left nq = Some u then bn_upd tr q (\<lambda>n. n\<lparr>bn_left := v\<rparr>) else bn_upd tr q (\<lambda>n. n\<lparr>bn_right := v\<rparr>))) (\<lambda>tr.
     case v of None \<Rightarrow> Inr tr | Some b \<Rightarrow> bn_upd tr b (\<lambda>n. n\<lparr>bn_p := bn_p nu\<rparr>)))"

definition bstree_delete :: "nat \<Rightarrow> bstree \<Rightarrow> nat \<Rightarrow> cerr + bstree" where
  "bstree_delete fuel tr a =
     bindr (bn_get tr a) (\<lambda>n.
     if bn_left n = None then bstree_transplant tr a (bn_right n)
     else if bn_right n = None then bstree_transplant tr a (bn_left n)
     else
       bindr (deref (bn_right n)) (\<lambda>r.
       bindr (bstree_min fuel tr r) (\<lambda>y.
       bindr (bn_get tr y) (\<lambda>ny.
       bindr (if bn_p ny \<noteq> Some a then
                bindr (bstree_transplant tr y (bn_right ny)) (\<lambda>tr.
                bindr (bn_get tr a) (\<lambda>n.
                bindr (bn_upd tr y (\<lambda>ny. ny\<lparr>bn_right := bn_right n\<rparr>)) (\<lambda>tr.
                bindr (deref (bn_right n)) (\<lambda>r.
                bn_upd tr r (\<lambda>nr. nr\<lparr>bn_p := Some y\<rparr>)))))
              else Inr tr) (\<lambda>tr.
       bindr (bstree_transplant tr a (Some y)) (\<lambda>tr.
       bindr (bn_get tr a) (\<lambda>n.
       bindr (bn_upd tr y (\<lambda>ny. ny\<lparr>bn_left := bn_left n\<rparr>)) (\<lambda>tr.
       bindr (deref (bn_left n)) (\<lambda>l.
       bn_upd tr l (\<lambda>nl. nl\<lparr>bn_p := Some y\<rparr>))))))))))"

fun bstree_inorder_walk :: "nat \<Rightarrow> bstree \<Rightarrow> nat option \<Rightarrow> cerr + int list" where
  "bstree_inorder_walk 0 tr r = Inl OutOfFuel"
| "bstree_inorder_walk (Suc fuel) tr r =
     (case r of None \<Rightarrow> Inr []
      | Some a \<Rightarrow> bindr (bn_get tr a) (\<lambda>n.
          bindr (bstree_inorder_walk fuel tr (bn_left n)) (\<lambda>l. bindr (bstree_inorder_walk fuel tr (bn_right n)) (\<lambda>r. Inr (l @ [bn_key n] @ r)))))"

text \<open>The nodes of the tests: keys, and null links.\<close>

definition bs_nodes :: "int list \<Rightarrow> nat \<Rightarrow> bstree_node option" where
  "bs_nodes ks a = (if a < length ks then Some \<lparr>bn_key = ks ! a, bn_left = None, bn_right = None, bn_p = None\<rparr> else None)"

fun init_loop :: "nat \<Rightarrow> bstree \<Rightarrow> nat list \<Rightarrow> cerr + int \<times> bstree" where
  "init_loop fuel tr [] = Inr (0, tr)"
| "init_loop fuel tr (a # as) = bindr (bstree_insert fuel tr (Some a)) (\<lambda>(r, tr). if r \<noteq> 0 then Inr (- 1, tr) else init_loop fuel tr as)"

text \<open>\<open>bstree_init\<close> also prints the tree, and reads the key of its root for that.\<close>

definition bstree_init :: "nat \<Rightarrow> int list \<Rightarrow> cerr + int \<times> int list \<times> bstree" where
  "bstree_init fuel ks =
     bindr (init_loop fuel \<lparr>bs_root = None, bs_mem = bs_nodes ks\<rparr> [0..<length ks]) (\<lambda>(r, tr).
     if r \<noteq> 0 then Inr (r, [], tr) else
     bindr (deref (bs_root tr)) (\<lambda>rt. bindr (bn_get tr rt) (\<lambda>n. bindr (bstree_inorder_walk fuel tr (bs_root tr)) (\<lambda>out. Inr (0, out, tr)))))"

definition bs_sample :: "int list" where
  "bs_sample = [100, 90, 95, 80, 70, 85, 94, 110, 105, 120, 103, 108, 115, 118, 119, 130, 140]"

text \<open>The four deletion tests differ in the key: 118, 95, 110 and 120. The result is the walk after the deletion.\<close>

definition test_delete :: "nat \<Rightarrow> int \<Rightarrow> cerr + int list" where
  "test_delete fuel key =
     bindr (bstree_init fuel bs_sample) (\<lambda>(r, out, tr).
     if bs_root tr = None \<or> r \<noteq> 0 then Inr [] else
     bindr (bstree_search fuel tr (bs_root tr) key) (\<lambda>n.
     case n of None \<Rightarrow> Inr []
     | Some a \<Rightarrow> bindr (bstree_delete fuel tr a) (\<lambda>tr. bindr (deref (bs_root tr)) (\<lambda>rt. bindr (bn_get tr rt) (\<lambda>_. bstree_inorder_walk fuel tr (bs_root tr))))))"

definition test_search :: "nat \<Rightarrow> cerr + int \<times> int" where
  "test_search fuel =
     bindr (bstree_init fuel bs_sample) (\<lambda>(r, out, tr).
     bindr (deref (bs_root tr)) (\<lambda>rt.
     bindr (bstree_max fuel tr rt) (\<lambda>m. bindr (bn_get tr m) (\<lambda>nm.
     bindr (bstree_min fuel tr rt) (\<lambda>l. bindr (bn_get tr l) (\<lambda>nl. Inr (bn_key nm, bn_key nl)))))))"

lemma bs_tests: "test_delete 20 110 = Inr [70, 80, 85, 90, 94, 95, 100, 103, 105, 108, 115, 118, 119, 120, 130, 140]" "test_search 20 = Inr (140, 70)"
  by code_simp+

section \<open>Trees on the heap\<close>

datatype atree = ALeaf | ANode atree nat int atree

fun root_of :: "atree \<Rightarrow> nat option" where
  "root_of ALeaf = None"
| "root_of (ANode l a k r) = Some a"

fun inord :: "atree \<Rightarrow> (nat \<times> int) list" where
  "inord ALeaf = []"
| "inord (ANode l a k r) = inord l @ (a, k) # inord r"

definition adrs :: "atree \<Rightarrow> nat list" where
  "adrs t = map fst (inord t)"

lemma adrs_simps [simp]: "adrs ALeaf = []" "adrs (ANode l a k r) = adrs l @ a # adrs r"
  by (simp_all add: adrs_def)

lemma root_of_adrs: "root_of t = Some a \<Longrightarrow> a \<in> set (adrs t)"
  by (cases t) auto

fun tree_at :: "(nat \<Rightarrow> bstree_node option) \<Rightarrow> nat option \<Rightarrow> atree \<Rightarrow> bool" where
  "tree_at m par ALeaf \<longleftrightarrow> True"
| "tree_at m par (ANode l a k r) \<longleftrightarrow>
     m a = Some \<lparr>bn_key = k, bn_left = root_of l, bn_right = root_of r, bn_p = par\<rparr> \<and> tree_at m (Some a) l \<and> tree_at m (Some a) r"

lemma tree_at_frame: "tree_at m par t \<Longrightarrow> \<forall>a \<in> set (adrs t). m' a = m a \<Longrightarrow> tree_at m' par t"
  by (induction t arbitrary: par) auto

lemma tree_at_upd [simp]: "a \<notin> set (adrs t) \<Longrightarrow> tree_at (m(a := x)) par t \<longleftrightarrow> tree_at m par t"
  using tree_at_frame [of m par t "m(a := x)"] tree_at_frame [of "m(a := x)" par t m] by auto

text \<open>A context: on which side the hole is, the node above it, and the other subtree.\<close>

type_synonym ctx = "(bool \<times> nat \<times> int \<times> atree) list"

fun plugged :: "atree \<Rightarrow> ctx \<Rightarrow> atree" where
  "plugged t [] = t"
| "plugged t ((d, q, k, s) # c) = plugged (if d then ANode t q k s else ANode s q k t) c"

fun cpar :: "ctx \<Rightarrow> nat option" where
  "cpar [] = None"
| "cpar ((d, q, k, s) # c) = Some q"

fun ctop :: "nat option \<Rightarrow> ctx \<Rightarrow> nat option" where
  "ctop h [] = h"
| "ctop h ((d, q, k, s) # c) = ctop (Some q) c"

fun cadrs :: "ctx \<Rightarrow> nat list" where
  "cadrs [] = []"
| "cadrs ((d, q, k, s) # c) = q # adrs s @ cadrs c"

fun ctx_at :: "(nat \<Rightarrow> bstree_node option) \<Rightarrow> nat option \<Rightarrow> ctx \<Rightarrow> bool" where
  "ctx_at m h [] \<longleftrightarrow> True"
| "ctx_at m h ((d, q, k, s) # c) \<longleftrightarrow>
     m q = Some \<lparr>bn_key = k, bn_left = (if d then h else root_of s), bn_right = (if d then root_of s else h), bn_p = cpar c\<rparr> \<and>
     tree_at m (Some q) s \<and> ctx_at m (Some q) c"

lemma plug_append: "plugged t (c @ d) = plugged (plugged t c) d"
  by (induction t c rule: plugged.induct) auto

lemma root_of_plug: "root_of (plugged t c) = ctop (root_of t) c"
  by (induction t c rule: plugged.induct) auto

lemma ctop_Some: "\<exists>b. ctop (Some a) c = Some b"
proof (induction c arbitrary: a)
  case (Cons e c)
  then show ?case by (cases e) auto
qed simp

lemma ctop_cons: "c \<noteq> [] \<Longrightarrow> ctop h c = ctop h' c"
  by (cases c rule: cpar.cases) auto

lemma tree_at_plug: "tree_at m None (plugged t c) \<longleftrightarrow> tree_at m (cpar c) t \<and> ctx_at m (root_of t) c"
  by (induction t c rule: plugged.induct) auto

lemma mset_adrs_plug: "mset (adrs (plugged t c)) = mset (adrs t) + mset (cadrs c)"
  by (induction t c rule: plugged.induct) auto

lemma adrs_plug: "distinct (adrs (plugged t c)) \<longleftrightarrow> distinct (adrs t @ cadrs c)" "set (adrs (plugged t c)) = set (adrs t) \<union> set (cadrs c)"
proof -
  have "mset (adrs (plugged t c)) = mset (adrs t @ cadrs c)" by (simp add: mset_adrs_plug)
  then show "distinct (adrs (plugged t c)) \<longleftrightarrow> distinct (adrs t @ cadrs c)" "set (adrs (plugged t c)) = set (adrs t) \<union> set (cadrs c)"
    by (metis mset_eq_imp_distinct_iff, metis mset_eq_setD set_append)
qed

lemma cadrs_append: "cadrs (c @ d) = cadrs c @ cadrs d"
  by (induction c rule: cadrs.induct) auto

lemma ctx_at_frame: "ctx_at m h c \<Longrightarrow> \<forall>a \<in> set (cadrs c). m' a = m a \<Longrightarrow> ctx_at m' h c"
proof (induction m h c rule: ctx_at.induct)
  case (2 m h d q k s c)
  then show ?case using tree_at_frame [of m "Some q" s m'] by auto
qed simp

lemma ctx_at_upd [simp]: "a \<notin> set (cadrs c) \<Longrightarrow> ctx_at (m(a := x)) h c \<longleftrightarrow> ctx_at m h c"
  using ctx_at_frame [of m h c "m(a := x)"] ctx_at_frame [of "m(a := x)" h c m] by auto

text \<open>The parent link of the root of a tree is set to \<open>q\<close>.\<close>

definition set_par :: "nat option \<Rightarrow> nat option \<Rightarrow> (nat \<Rightarrow> bstree_node option) \<Rightarrow> (nat \<Rightarrow> bstree_node option)" where
  "set_par q r m = (case r of None \<Rightarrow> m | Some b \<Rightarrow> m(b := map_option (\<lambda>n. n\<lparr>bn_p := q\<rparr>) (m b)))"

lemma tree_at_set_par: "tree_at m par t \<Longrightarrow> distinct (adrs t) \<Longrightarrow> tree_at (set_par q (root_of t) m) q t"
  by (cases t) (auto simp: set_par_def)

lemma set_par_other: "a \<notin> set (adrs t) \<Longrightarrow> set_par q (root_of t) m a = m a"
  by (cases t) (auto simp: set_par_def)

lemma bn_upd_in: "bs_mem tr a = Some n \<Longrightarrow> bn_upd tr a f = Inr (tr\<lparr>bs_mem := (bs_mem tr)(a \<mapsto> f n)\<rparr>)"
  by (simp add: bn_upd_def bn_get_def)

lemma upd_par:
  assumes "tree_at (bs_mem tr) par t"
  shows "(case root_of t of None \<Rightarrow> Inr tr | Some b \<Rightarrow> bn_upd tr b (\<lambda>n. n\<lparr>bn_p := q\<rparr>)) = Inr (tr\<lparr>bs_mem := set_par q (root_of t) (bs_mem tr)\<rparr>)"
  using assms by (cases t) (auto simp: set_par_def bn_upd_in)

section \<open>Transplanting\<close>

lemma transplant_spec:
  assumes c: "ctx_at (bs_mem tr) (Some u) c" and u: "bs_mem tr u = Some nu" "bn_p nu = cpar c" "bs_root tr = ctop (Some u) c" "u \<notin> set (cadrs c)"
    and t: "tree_at (bs_mem tr) par t" "distinct (adrs t @ cadrs c)"
  shows "\<exists>tr'. bstree_transplant tr u (root_of t) = Inr tr' \<and> bs_root tr' = ctop (root_of t) c \<and> ctx_at (bs_mem tr') (root_of t) c \<and>
    tree_at (bs_mem tr') (cpar c) t \<and> (\<forall>a. a \<notin> set (adrs t) \<longrightarrow> a \<notin> set (cadrs c) \<longrightarrow> bs_mem tr' a = bs_mem tr a)"
proof (cases c)
  case Nil
  let ?tr = "tr\<lparr>bs_root := root_of t, bs_mem := set_par None (root_of t) (bs_mem tr)\<rparr>"
  have "bstree_transplant tr u (root_of t) = Inr ?tr"
    using u(1,2) Nil upd_par [of "tr\<lparr>bs_root := root_of t\<rparr>" par t None] t(1) by (simp add: bstree_transplant_def bn_get_def cong: option.case_cong)
  then show ?thesis using Nil tree_at_set_par [OF t(1)] t(2) set_par_other [of _ t] by (intro exI [of _ ?tr]) simp
next
  case (Cons e c')
  obtain d q k s where e: "e = (d, q, k, s)" by (cases e)
  let ?n = "\<lparr>bn_key = k, bn_left = (if d then root_of t else root_of s), bn_right = (if d then root_of s else root_of t), bn_p = cpar c'\<rparr>"
  let ?m = "(bs_mem tr)(q \<mapsto> ?n)"
  let ?tr = "tr\<lparr>bs_mem := set_par (Some q) (root_of t) ?m\<rparr>"
  have q: "bs_mem tr q = Some \<lparr>bn_key = k, bn_left = (if d then Some u else root_of s), bn_right = (if d then root_of s else Some u), bn_p = cpar c'\<rparr>"
    "tree_at (bs_mem tr) (Some q) s" "ctx_at (bs_mem tr) (Some q) c'" using c Cons e by auto
  have ns: "root_of s \<noteq> Some u" using u(4) Cons e root_of_adrs [of s u] by auto
  have t': "tree_at ?m par t" "tree_at ?m (Some q) s" "ctx_at ?m (Some q) c'" using t q(2,3) Cons e by auto
  have "bstree_transplant tr u (root_of t) = Inr ?tr"
    using u(1,2) Cons e q(1) ns upd_par [of "tr\<lparr>bs_mem := ?m\<rparr>" par t "Some q"] t'(1)
    by (auto simp: bstree_transplant_def bn_get_def bn_upd_in cong: option.case_cong)
  moreover have "tree_at (bs_mem ?tr) (Some q) t" using tree_at_set_par [OF t'(1)] t(2) by simp
  moreover have "ctx_at (bs_mem ?tr) (root_of t) c"
  proof -
    have "set_par (Some q) (root_of t) ?m a = ?m a" if "a \<in> set (cadrs c)" for a using t(2) that by (intro set_par_other) auto
    then have "ctx_at (set_par (Some q) (root_of t) ?m) (root_of t) c"
      using ctx_at_frame [of ?m "root_of t" c "set_par (Some q) (root_of t) ?m"] t' Cons e by auto
    then show ?thesis by simp
  qed
  moreover have "bs_root ?tr = ctop (root_of t) c" using u(3) Cons e by simp
  moreover have "bs_mem ?tr a = bs_mem tr a" if "a \<notin> set (adrs t)" "a \<notin> set (cadrs c)" for a using that set_par_other [of a t] Cons e by auto
  ultimately show ?thesis using Cons e by (intro exI [of _ ?tr]) auto
qed

section \<open>Deletion\<close>

definition bs_at :: "bstree \<Rightarrow> atree \<Rightarrow> bool" where
  "bs_at tr t \<longleftrightarrow> bs_root tr = root_of t \<and> tree_at (bs_mem tr) None t \<and> distinct (adrs t)"

text \<open>The leftmost node of a tree, and the context of the hole it leaves.\<close>

lemma bstree_min_spec:
  assumes "tree_at (bs_mem tr) par r" "r \<noteq> ALeaf" "length (adrs r) < fuel"
  shows "\<exists>rc y ky ry. r = plugged (ANode ALeaf y ky ry) rc \<and> (\<forall>e \<in> set rc. fst e) \<and> bstree_min fuel tr (the (root_of r)) = Inr y"
  using assms
proof (induction r arbitrary: par fuel)
  case (ANode l a k r)
  obtain f where f: "fuel = Suc f" using ANode.prems(3) by (cases fuel) auto
  show ?case
  proof (cases l)
    case ALeaf
    then show ?thesis using ANode.prems(1) f by (intro exI [of _ "[]"] exI [of _ a] exI [of _ k] exI [of _ r]) (simp add: bn_get_def)
  next
    case (ANode l' b kb r')
    have "tree_at (bs_mem tr) (Some a) l" "l \<noteq> ALeaf" "length (adrs l) < f" using ANode.prems(1,3) f ANode by simp_all
    from ANode.IH(1) [OF this] obtain rc y ky ry where
      y: "l = plugged (ANode ALeaf y ky ry) rc" "\<forall>e \<in> set rc. fst e" "bstree_min f tr (the (root_of l)) = Inr y" by blast
    have "ANode l a k r = plugged (ANode ALeaf y ky ry) (rc @ [(True, a, k, r)])" using y(1) by (simp add: plug_append)
    moreover have "bstree_min fuel tr (the (root_of (ANode l a k r))) = Inr y" using ANode.prems(1) f ANode y(3) by (simp add: bn_get_def)
    ultimately show ?thesis using y(2) by (intro exI [of _ "rc @ [(True, a, k, r)]"] exI [of _ y] exI [of _ ky] exI [of _ ry]) simp
  qed
qed simp

lemma inord_plug_left: "\<forall>e \<in> set rc. fst e \<Longrightarrow> \<exists>xs. \<forall>t. inord (plugged t rc) = inord t @ xs"
proof (induction rc)
  case (Cons e rc)
  obtain q k s where e: "e = (True, q, k, s)" using Cons.prems by (cases e) auto
  from Cons obtain xs where "\<forall>t. inord (plugged t rc) = inord t @ xs" by auto
  then show ?case using e by (intro exI [of _ "(q, k) # inord s @ xs"]) simp
qed simp

text \<open>The last part of the deletion: the successor \<open>y\<close> with the rest \<open>r\<close> of the right subtree takes the place of \<open>a\<close>.\<close>

lemma delete_finish:
  assumes c: "ctx_at (bs_mem tr) (Some a) c" and a: "bs_mem tr a = Some na" "bn_p na = cpar c" "bn_left na = root_of l" "bs_root tr = ctop (Some a) c"
    and l: "tree_at (bs_mem tr) (Some a) l" "l \<noteq> ALeaf" and y: "tree_at (bs_mem tr) par (ANode ALeaf y ky r)"
    and d: "distinct (a # adrs l @ adrs (ANode ALeaf y ky r) @ cadrs c)"
  shows "\<exists>tr'. bindr (bstree_transplant tr a (Some y)) (\<lambda>tr.
       bindr (bn_get tr a) (\<lambda>n.
       bindr (bn_upd tr y (\<lambda>ny. ny\<lparr>bn_left := bn_left n\<rparr>)) (\<lambda>tr.
       bindr (deref (bn_left n)) (\<lambda>l.
       bn_upd tr l (\<lambda>nl. nl\<lparr>bn_p := Some y\<rparr>))))) = Inr tr' \<and>
    bs_root tr' = ctop (Some y) c \<and> ctx_at (bs_mem tr') (Some y) c \<and> tree_at (bs_mem tr') (cpar c) (ANode l y ky r) \<and>
    (\<forall>x. x \<notin> set (adrs l @ adrs (ANode ALeaf y ky r) @ cadrs c) \<longrightarrow> bs_mem tr' x = bs_mem tr x)"
proof -
  let ?t = "ANode ALeaf y ky r"
  from transplant_spec [OF c a(1,2,4) _ y] d obtain tr1 where t1: "bstree_transplant tr a (Some y) = Inr tr1" "bs_root tr1 = ctop (Some y) c"
    "ctx_at (bs_mem tr1) (Some y) c" "tree_at (bs_mem tr1) (cpar c) ?t"
    "\<forall>x. x \<notin> set (adrs ?t) \<longrightarrow> x \<notin> set (cadrs c) \<longrightarrow> bs_mem tr1 x = bs_mem tr x" by auto
  have a1: "bs_mem tr1 a = Some na" "tree_at (bs_mem tr1) (Some a) l"
    using t1(5) a(1) d tree_at_frame [OF l(1), of "bs_mem tr1"] by (auto simp: disjoint_iff)
  let ?ny = "\<lparr>bn_key = ky, bn_left = root_of l, bn_right = root_of r, bn_p = cpar c\<rparr>"
  let ?m = "(bs_mem tr1)(y \<mapsto> ?ny)"
  let ?tr = "tr1\<lparr>bs_mem := set_par (Some y) (root_of l) ?m\<rparr>"
  have up: "bn_upd tr1 y (\<lambda>ny. ny\<lparr>bn_left := bn_left na\<rparr>) = Inr (tr1\<lparr>bs_mem := ?m\<rparr>)" using t1(4) a(3) by (simp add: bn_upd_in)
  obtain b where b: "root_of l = Some b" using l(2) by (cases l) auto
  have lm: "tree_at ?m (Some a) l" using a1(2) d by simp
  have upb: "bn_upd (tr1\<lparr>bs_mem := ?m\<rparr>) b (\<lambda>n. n\<lparr>bn_p := Some y\<rparr>) = Inr ?tr" using upd_par [of "tr1\<lparr>bs_mem := ?m\<rparr>" "Some a" l "Some y"] lm b by simp
  have out: "\<forall>x \<in> set (cadrs c). x \<notin> set (adrs l) \<and> x \<noteq> y" "\<forall>x \<in> set (adrs r). x \<notin> set (adrs l) \<and> x \<noteq> y" using d by auto
  have fr: "bs_mem ?tr x = bs_mem tr1 x" if "x \<notin> set (adrs l)" "x \<noteq> y" for x using set_par_other [OF that(1)] that(2) by simp
  have "ctx_at (bs_mem ?tr) (Some y) c" using ctx_at_frame [OF t1(3), of "bs_mem ?tr"] out(1) fr by blast
  moreover have "tree_at (bs_mem ?tr) (cpar c) (ANode l y ky r)"
  proof -
    have "bs_mem ?tr y = Some ?ny" using set_par_other [of y l "Some y" ?m] d by simp
    moreover have "tree_at (bs_mem ?tr) (Some y) r"
      using tree_at_frame [of "bs_mem tr1" "Some y" r "bs_mem ?tr"] t1(4) out(2) fr by auto
    moreover have "tree_at (bs_mem ?tr) (Some y) l" using tree_at_set_par [OF lm] d by simp
    ultimately show ?thesis by simp
  qed
  moreover have "bs_mem ?tr x = bs_mem tr x" if "x \<notin> set (adrs l @ adrs ?t @ cadrs c)" for x using fr [of x] t1(5) that by auto
  ultimately show ?thesis using t1(1,2) a1(1) up upb b a(3) by (intro exI [of _ ?tr]) (simp add: bn_get_def)
qed

lemma inord_plug: "\<exists>xs ys. \<forall>t. inord (plugged t c) = xs @ inord t @ ys"
proof (induction c)
  case (Cons e c)
  obtain d q k s where e: "e = (d, q, k, s)" by (cases e)
  from Cons obtain xs ys where "\<forall>t. inord (plugged t c) = xs @ inord t @ ys" by blast
  then have "inord (plugged t (e # c)) = (if d then xs else xs @ inord s @ [(q, k)]) @ inord t @ (if d then (q, k) # inord s @ ys else ys)" for t
    using e by simp
  then show ?case by blast
qed (auto intro!: exI [of _ "[]"])

text \<open>The tree \<open>s\<close> becomes the right child of \<open>y\<close>, which has no left child.\<close>

lemma hang_right:
  assumes s: "tree_at (bs_mem tr) par s" "distinct (adrs s)" "y \<notin> set (adrs s)" "root_of s = Some b"
    and y: "bs_mem tr y = Some \<lparr>bn_key = ky, bn_left = None, bn_right = x, bn_p = q\<rparr>"
  shows "\<exists>tr'. bindr (bn_upd tr y (\<lambda>n. n\<lparr>bn_right := Some b\<rparr>)) (\<lambda>tr. bn_upd tr b (\<lambda>n. n\<lparr>bn_p := Some y\<rparr>)) = Inr tr' \<and> bs_root tr' = bs_root tr \<and>
    tree_at (bs_mem tr') q (ANode ALeaf y ky s) \<and> (\<forall>x. x \<notin> set (adrs s) \<longrightarrow> x \<noteq> y \<longrightarrow> bs_mem tr' x = bs_mem tr x)"
proof -
  let ?m = "(bs_mem tr)(y \<mapsto> \<lparr>bn_key = ky, bn_left = None, bn_right = Some b, bn_p = q\<rparr>)"
  let ?tr = "tr\<lparr>bs_mem := set_par (Some y) (root_of s) ?m\<rparr>"
  have m: "tree_at ?m par s" using s(1,3) by simp
  have "bn_upd tr y (\<lambda>n. n\<lparr>bn_right := Some b\<rparr>) = Inr (tr\<lparr>bs_mem := ?m\<rparr>)" using y by (simp add: bn_upd_in)
  moreover have "bn_upd (tr\<lparr>bs_mem := ?m\<rparr>) b (\<lambda>n. n\<lparr>bn_p := Some y\<rparr>) = Inr ?tr" using upd_par [of "tr\<lparr>bs_mem := ?m\<rparr>" par s "Some y"] m s(4) by simp
  moreover have "tree_at (bs_mem ?tr) q (ANode ALeaf y ky s)" using tree_at_set_par [OF m s(2)] set_par_other [OF s(3)] s(4) by simp
  moreover have "bs_mem ?tr x = bs_mem tr x" if "x \<notin> set (adrs s)" "x \<noteq> y" for x using set_par_other [OF that(1)] that(2) by simp
  ultimately show ?thesis by (intro exI [of _ ?tr]) simp
qed

text \<open>The first part, when the successor is not the right child itself: it is taken out of the right subtree, which is hung below it.\<close>

lemma delete_detach:
  assumes at: "bs_at tr (plugged (ANode l a k (plugged (ANode ALeaf y ky ry) rc)) c)" and rc: "rc \<noteq> []"
  shows "\<exists>tr'. bindr (bstree_transplant tr y (root_of ry)) (\<lambda>tr.
       bindr (bn_get tr a) (\<lambda>n.
       bindr (bn_upd tr y (\<lambda>ny. ny\<lparr>bn_right := bn_right n\<rparr>)) (\<lambda>tr.
       bindr (deref (bn_right n)) (\<lambda>r.
       bn_upd tr r (\<lambda>nr. nr\<lparr>bn_p := Some y\<rparr>))))) = Inr tr' \<and>
    bs_root tr' = bs_root tr \<and> ctx_at (bs_mem tr') (Some a) c \<and> tree_at (bs_mem tr') (Some a) l \<and>
    bs_mem tr' a = Some \<lparr>bn_key = k, bn_left = root_of l, bn_right = root_of (plugged ry rc), bn_p = cpar c\<rparr> \<and>
    tree_at (bs_mem tr') (cpar rc) (ANode ALeaf y ky (plugged ry rc)) \<and>
    (\<forall>x. x \<notin> set (adrs (plugged (ANode l a k (plugged (ANode ALeaf y ky ry) rc)) c)) \<longrightarrow> bs_mem tr' x = bs_mem tr x)"
proof -
  let ?C = "rc @ (False, a, k, l) # c" and ?s = "plugged ry rc"
  have plugged: "plugged t ?C = plugged (ANode l a k (plugged t rc)) c" for t by (simp add: plug_append)
  have cp: "cpar ?C = cpar rc" using rc by (cases rc rule: cpar.cases) auto
  have t: "bs_root tr = ctop (Some y) ?C" "tree_at (bs_mem tr) (cpar ?C) (ANode ALeaf y ky ry)" "ctx_at (bs_mem tr) (Some y) ?C"
    "distinct (adrs (ANode ALeaf y ky ry) @ cadrs ?C)"
    using at plugged [of "ANode ALeaf y ky ry", symmetric] root_of_plug [of "ANode ALeaf y ky ry" ?C]
      tree_at_plug [of "bs_mem tr" "ANode ALeaf y ky ry" ?C] adrs_plug(1) [of "ANode ALeaf y ky ry" ?C] by (simp_all add: bs_at_def)
  have y: "bs_mem tr y = Some \<lparr>bn_key = ky, bn_left = None, bn_right = root_of ry, bn_p = cpar ?C\<rparr>" "tree_at (bs_mem tr) (Some y) ry" using t(2) by simp_all
  from transplant_spec [OF t(3) y(1) _ t(1) _ y(2)] t(4) obtain tr1 where t1: "bstree_transplant tr y (root_of ry) = Inr tr1"
    "bs_root tr1 = ctop (root_of ry) ?C" "ctx_at (bs_mem tr1) (root_of ry) ?C" "tree_at (bs_mem tr1) (cpar ?C) ry"
    "\<forall>x. x \<notin> set (adrs ry) \<longrightarrow> x \<notin> set (cadrs ?C) \<longrightarrow> bs_mem tr1 x = bs_mem tr x" by auto
  have "tree_at (bs_mem tr1) None (plugged (ANode l a k ?s) c)" using t1(3,4) tree_at_plug [of "bs_mem tr1" ry ?C] plugged by simp
  then have a1: "bs_mem tr1 a = Some \<lparr>bn_key = k, bn_left = root_of l, bn_right = root_of ?s, bn_p = cpar c\<rparr>" "tree_at (bs_mem tr1) (Some a) l"
    "tree_at (bs_mem tr1) (Some a) ?s" "ctx_at (bs_mem tr1) (Some a) c" by (simp_all add: tree_at_plug)
  have y1: "bs_mem tr1 y = Some \<lparr>bn_key = ky, bn_left = None, bn_right = root_of ry, bn_p = cpar rc\<rparr>" using t1(5) y(1) t(4) cp by simp
  have ds: "distinct (adrs ?s)" "y \<notin> set (adrs ?s)" "a \<notin> insert y (set (adrs ?s))" "\<forall>x \<in> set (adrs l) \<union> set (cadrs c). x \<notin> insert y (set (adrs ?s))"
    using t(4) unfolding adrs_plug by (auto simp: cadrs_append)
  obtain b where b: "root_of ?s = Some b" using ctop_cons [OF rc, of "root_of ry" "Some a"] ctop_Some [of a rc] by (auto simp: root_of_plug)
  from hang_right [OF a1(3) ds(1,2) b y1] obtain tr2 where
    t2: "bindr (bn_upd tr1 y (\<lambda>n. n\<lparr>bn_right := Some b\<rparr>)) (\<lambda>tr. bn_upd tr b (\<lambda>n. n\<lparr>bn_p := Some y\<rparr>)) = Inr tr2" "bs_root tr2 = bs_root tr1"
    "tree_at (bs_mem tr2) (cpar rc) (ANode ALeaf y ky ?s)" "\<forall>x. x \<notin> set (adrs ?s) \<longrightarrow> x \<noteq> y \<longrightarrow> bs_mem tr2 x = bs_mem tr1 x" by blast
  have "ctx_at (bs_mem tr2) (Some a) c" using ctx_at_frame [OF a1(4), of "bs_mem tr2"] ds(4) t2(4) by auto
  moreover have "tree_at (bs_mem tr2) (Some a) l" using tree_at_frame [OF a1(2), of "bs_mem tr2"] ds(4) t2(4) by auto
  moreover have "bs_mem tr2 a = bs_mem tr1 a" using ds(3) t2(4) by simp
  moreover have "bs_root tr2 = bs_root tr" using t2(2) t1(2) t(1) ctop_cons [of ?C "root_of ry" "Some y"] by simp
  moreover have "bs_mem tr2 x = bs_mem tr x" if "x \<notin> set (adrs (plugged (ANode l a k (plugged (ANode ALeaf y ky ry) rc)) c))" for x
    using that t1(5) t2(4) unfolding adrs_plug by (auto simp: cadrs_append adrs_plug)
  ultimately show ?thesis using t1(1) t2(1,3) a1(1) b by (intro exI [of _ tr2]) (simp add: bn_get_def)
qed

lemma delete_spec:
  assumes at: "bs_at tr (plugged (ANode l a k r) c)" and f: "length (adrs r) < fuel"
  shows "\<exists>tr' t'. bstree_delete fuel tr a = Inr tr' \<and> bs_at tr' (plugged t' c) \<and> inord t' = inord l @ inord r \<and>
    (\<forall>x. x \<notin> set (adrs (plugged (ANode l a k r) c)) \<longrightarrow> bs_mem tr' x = bs_mem tr x)"
proof -
  let ?n = "\<lparr>bn_key = k, bn_left = root_of l, bn_right = root_of r, bn_p = cpar c\<rparr>"
  have a: "bs_mem tr a = Some ?n" "tree_at (bs_mem tr) (Some a) l" "tree_at (bs_mem tr) (Some a) r" "ctx_at (bs_mem tr) (Some a) c"
    "bs_root tr = ctop (Some a) c" "distinct (adrs (ANode l a k r) @ cadrs c)"
    using at by (simp_all add: bs_at_def tree_at_plug root_of_plug adrs_plug)
  have one: "\<exists>tr' t'. bstree_transplant tr a (root_of t) = Inr tr' \<and> bs_at tr' (plugged t' c) \<and> inord t' = inord t \<and>
    (\<forall>x. x \<notin> set (adrs (plugged (ANode l a k r) c)) \<longrightarrow> bs_mem tr' x = bs_mem tr x)" if t: "tree_at (bs_mem tr) (Some a) t" "t = l \<or> t = r" for t
  proof -
    have "distinct (adrs t @ cadrs c)" "a \<notin> set (cadrs c)" using a(6) t(2) by auto
    from transplant_spec [OF a(4,1) _ a(5) this(2) t(1) this(1)] obtain tr' where "bstree_transplant tr a (root_of t) = Inr tr'"
      "bs_root tr' = ctop (root_of t) c" "ctx_at (bs_mem tr') (root_of t) c" "tree_at (bs_mem tr') (cpar c) t"
      "\<forall>x. x \<notin> set (adrs t) \<longrightarrow> x \<notin> set (cadrs c) \<longrightarrow> bs_mem tr' x = bs_mem tr x" by auto
    then show ?thesis using \<open>distinct (adrs t @ cadrs c)\<close> t(2) by (intro exI [of _ tr'] exI [of _ t]) (auto simp: bs_at_def tree_at_plug root_of_plug adrs_plug)
  qed
  show ?thesis
  proof (cases "l = ALeaf \<or> r = ALeaf")
    case True
    then show ?thesis using one [OF a(2)] one [OF a(3)] a(1) by (cases l; cases r) (auto simp: bstree_delete_def bn_get_def)
  next
    case False
    then have ne: "l \<noteq> ALeaf" "r \<noteq> ALeaf" by auto
    obtain b rr where roots: "root_of l = Some b" "root_of r = Some rr" using ne by (cases l; cases r) auto
    from bstree_min_spec [OF a(3) ne(2) f] roots(2) obtain rc y ky ry where
      y: "r = plugged (ANode ALeaf y ky ry) rc" "\<forall>e \<in> set rc. fst e" "bstree_min fuel tr rr = Inr y" by auto
    let ?s = "ANode ALeaf y ky (plugged ry rc)" and ?C = "rc @ (False, a, k, l) # c"
    have yin: "inord r = inord ?s" using inord_plug_left [OF y(2)] y(1) by auto
    then have adr: "adrs ?s = adrs r" unfolding adrs_def by (simp only:)
    have ny: "bs_mem tr y = Some \<lparr>bn_key = ky, bn_left = None, bn_right = root_of ry, bn_p = cpar ?C\<rparr>"
      using at y(1) tree_at_plug [of "bs_mem tr" "ANode ALeaf y ky ry" ?C] by (simp add: bs_at_def plug_append)
    have "\<exists>tr2 par. (if cpar ?C \<noteq> Some a then
          bindr (bstree_transplant tr y (root_of ry)) (\<lambda>tr.
          bindr (bn_get tr a) (\<lambda>n.
          bindr (bn_upd tr y (\<lambda>ny. ny\<lparr>bn_right := bn_right n\<rparr>)) (\<lambda>tr.
          bindr (deref (bn_right n)) (\<lambda>r. bn_upd tr r (\<lambda>nr. nr\<lparr>bn_p := Some y\<rparr>)))))
        else Inr tr) = Inr tr2 \<and> bs_root tr2 = bs_root tr \<and> ctx_at (bs_mem tr2) (Some a) c \<and> tree_at (bs_mem tr2) (Some a) l \<and>
        bs_mem tr2 a = Some \<lparr>bn_key = k, bn_left = root_of l, bn_right = root_of (if rc = [] then r else plugged ry rc), bn_p = cpar c\<rparr> \<and> tree_at (bs_mem tr2) par ?s \<and>
        (\<forall>x. x \<notin> set (adrs (plugged (ANode l a k r) c)) \<longrightarrow> bs_mem tr2 x = bs_mem tr x)"
    proof (cases "rc = []")
      case True
      then show ?thesis using a(1-4) y(1) by (intro exI [of _ tr] exI [of _ "Some a"]) simp
    next
      case False
      then obtain q where q: "cpar ?C = Some q" "q \<in> set (cadrs rc)" by (cases rc rule: cpar.cases) auto
      then have "q \<noteq> a" using a(6) y(1) adrs_plug(2) [of "ANode ALeaf y ky ry" rc] by auto
      have ry: "(if rc = [] then r else plugged ry rc) = plugged ry rc" "(cpar ?C \<noteq> Some a) = True" using False q(1) \<open>q \<noteq> a\<close> by simp_all
      from delete_detach [OF at [unfolded y(1)] False] show ?thesis
        unfolding ry if_True y(1) [symmetric] by (elim exE) (intro exI [of _ "cpar rc"] exI)
    qed
    then obtain tr2 par where t2: "(if cpar ?C \<noteq> Some a then
          bindr (bstree_transplant tr y (root_of ry)) (\<lambda>tr.
          bindr (bn_get tr a) (\<lambda>n.
          bindr (bn_upd tr y (\<lambda>ny. ny\<lparr>bn_right := bn_right n\<rparr>)) (\<lambda>tr.
          bindr (deref (bn_right n)) (\<lambda>r. bn_upd tr r (\<lambda>nr. nr\<lparr>bn_p := Some y\<rparr>)))))
        else Inr tr) = Inr tr2" "bs_root tr2 = bs_root tr" "ctx_at (bs_mem tr2) (Some a) c" "tree_at (bs_mem tr2) (Some a) l"
        "bs_mem tr2 a = Some \<lparr>bn_key = k, bn_left = root_of l, bn_right = root_of (if rc = [] then r else plugged ry rc), bn_p = cpar c\<rparr>" "tree_at (bs_mem tr2) par ?s"
        "\<forall>x. x \<notin> set (adrs (plugged (ANode l a k r) c)) \<longrightarrow> bs_mem tr2 x = bs_mem tr x" by blast
    have d: "distinct (a # adrs l @ adrs ?s @ cadrs c)" using a(6) unfolding adr by auto
    from delete_finish [OF t2(3,5) _ _ _ t2(4) ne(1) t2(6) d] t2(2) a(5) obtain tr3 where
      t3: "bindr (bstree_transplant tr2 a (Some y)) (\<lambda>tr.
       bindr (bn_get tr a) (\<lambda>n.
       bindr (bn_upd tr y (\<lambda>ny. ny\<lparr>bn_left := bn_left n\<rparr>)) (\<lambda>tr.
       bindr (deref (bn_left n)) (\<lambda>l. bn_upd tr l (\<lambda>nl. nl\<lparr>bn_p := Some y\<rparr>))))) = Inr tr3"
      "bs_root tr3 = ctop (Some y) c" "ctx_at (bs_mem tr3) (Some y) c" "tree_at (bs_mem tr3) (cpar c) (ANode l y ky (plugged ry rc))"
      "\<forall>x. x \<notin> set (adrs l @ adrs ?s @ cadrs c) \<longrightarrow> bs_mem tr3 x = bs_mem tr2 x" by auto
    have "bn_get tr a = Inr ?n" "bn_get tr y = Inr \<lparr>bn_key = ky, bn_left = None, bn_right = root_of ry, bn_p = cpar ?C\<rparr>"
      using a(1) ny by (simp_all add: bn_get_def)
    then have "bstree_delete fuel tr a = Inr tr3"
      unfolding bstree_delete_def using roots y(3) t2(1) t3(1) by (simp split del: if_split cong: if_cong)
    moreover have "bs_at tr3 (plugged (ANode l y ky (plugged ry rc)) c)" using t3(2-4) d unfolding bs_at_def tree_at_plug root_of_plug adrs_plug by auto
    moreover have "inord (ANode l y ky (plugged ry rc)) = inord l @ inord r" using yin by simp
    moreover have "bs_mem tr3 x = bs_mem tr x" if "x \<notin> set (adrs (plugged (ANode l a k r) c))" for x
      using that t2(7) t3(5) unfolding adr adrs_plug by auto
    ultimately show ?thesis by blast
  qed
qed

section \<open>Insertion\<close>

fun ains :: "atree \<Rightarrow> nat \<Rightarrow> int \<Rightarrow> atree" where
  "ains ALeaf a k = ANode ALeaf a k ALeaf"
| "ains (ANode l b kb r) a k = (if k < kb then ANode (ains l a k) b kb r else ANode l b kb (ains r a k))"

fun turns :: "int \<Rightarrow> ctx \<Rightarrow> bool" where
  "turns k [] \<longleftrightarrow> True"
| "turns k ((d, q, kq, s) # c) \<longleftrightarrow> (d \<longleftrightarrow> k < kq)"

lemma insert_pos_spec:
  assumes "tree_at (bs_mem tr) (cpar c) t" "turns k c" "length (adrs t) < fuel"
  shows "\<exists>c'. insert_pos fuel tr k (root_of t) (cpar c) = Inr (cpar c') \<and> plugged ALeaf c' = plugged t c \<and>
    plugged (ANode ALeaf a k ALeaf) c' = plugged (ains t a k) c \<and> turns k c'"
  using assms
proof (induction t arbitrary: c fuel)
  case ALeaf
  then show ?case by (cases fuel) (auto intro: exI [of _ c])
next
  case (ANode l b kb r)
  obtain f where f: "fuel = Suc f" using ANode.prems(3) by (cases fuel) auto
  show ?case
  proof (cases "k < kb")
    case True
    show ?thesis using ANode.IH(1) [of "(True, b, kb, r) # c" f] ANode.prems f True by (simp add: bn_get_def)
  next
    case False
    show ?thesis using ANode.IH(2) [of "(False, b, kb, l) # c" f] ANode.prems f False by (simp add: bn_get_def)
  qed
qed

lemma insert_spec:
  assumes at: "bs_at tr t" and a: "bs_mem tr a = Some \<lparr>bn_key = k, bn_left = None, bn_right = None, bn_p = p\<rparr>" "a \<notin> set (adrs t)"
    and f: "length (adrs t) < fuel"
  shows "\<exists>tr'. bstree_insert fuel tr (Some a) = Inr (0, tr') \<and> bs_at tr' (ains t a k) \<and> (\<forall>x. x \<notin> set (adrs (ains t a k)) \<longrightarrow> bs_mem tr' x = bs_mem tr x)"
proof -
  let ?N = "ANode ALeaf a k ALeaf"
  from insert_pos_spec [of tr "[]" t k fuel a] at f obtain c where c: "insert_pos fuel tr k (root_of t) None = Inr (cpar c)" "plugged ALeaf c = t"
    "plugged ?N c = ains t a k" "turns k c" by (auto simp: bs_at_def)
  have t: "bs_root tr = ctop None c" "ctx_at (bs_mem tr) None c" "distinct (a # cadrs c)"
    using at a(2) unfolding c(2) [symmetric] by (auto simp: bs_at_def tree_at_plug root_of_plug adrs_plug)
  have "\<exists>tr'. bstree_insert fuel tr (Some a) = Inr (0, tr') \<and> bs_root tr' = ctop (Some a) c \<and> ctx_at (bs_mem tr') (Some a) c \<and>
    tree_at (bs_mem tr') (cpar c) ?N \<and> (\<forall>x. x \<notin> set (a # cadrs c) \<longrightarrow> bs_mem tr' x = bs_mem tr x)"
  proof (cases c)
    case Nil
    let ?tr = "tr\<lparr>bs_root := Some a, bs_mem := (bs_mem tr)(a \<mapsto> \<lparr>bn_key = k, bn_left = None, bn_right = None, bn_p = None\<rparr>)\<rparr>"
    show ?thesis using Nil c(1) a(1) at by (intro exI [of _ ?tr]) (simp add: bstree_insert_def bn_get_def bn_upd_in bs_at_def)
  next
    case (Cons e c')
    obtain d q kq s where e: "e = (d, q, kq, s)" by (cases e)
    let ?n = "\<lparr>bn_key = kq, bn_left = (if d then Some a else root_of s), bn_right = (if d then root_of s else Some a), bn_p = cpar c'\<rparr>"
    let ?tr = "tr\<lparr>bs_mem := (bs_mem tr)(q \<mapsto> ?n, a \<mapsto> \<lparr>bn_key = k, bn_left = None, bn_right = None, bn_p = Some q\<rparr>)\<rparr>"
    have q: "bs_mem tr q = Some \<lparr>bn_key = kq, bn_left = (if d then None else root_of s), bn_right = (if d then root_of s else None), bn_p = cpar c'\<rparr>"
      using t(2) Cons e by simp
    have "bstree_insert fuel tr (Some a) = Inr (0, ?tr)"
      using c(1,4) a(1) at q Cons e t(3) by (auto simp: bstree_insert_def bn_get_def bn_upd_in bs_at_def)
    then show ?thesis using Cons e t by (intro exI [of _ ?tr]) simp
  qed
  then show ?thesis using t(3) unfolding c(3) [symmetric] bs_at_def tree_at_plug root_of_plug adrs_plug by auto
qed

section \<open>The tree as a sorted list of nodes\<close>

definition ins_entry :: "nat \<Rightarrow> int \<Rightarrow> (nat \<times> int) list \<Rightarrow> (nat \<times> int) list" where
  "ins_entry a k xs = [e \<leftarrow> xs. snd e \<le> k] @ (a, k) # [e \<leftarrow> xs. k < snd e]"

definition del_entry :: "nat \<Rightarrow> (nat \<times> int) list \<Rightarrow> (nat \<times> int) list" where
  "del_entry a xs = [e \<leftarrow> xs. fst e \<noteq> a]"

lemma del_entry_split: "distinct (map fst (us @ (a, k) # vs)) \<Longrightarrow> del_entry a (us @ (a, k) # vs) = us @ vs"
proof -
  assume d: "distinct (map fst (us @ (a, k) # vs))"
  have "[e \<leftarrow> xs. fst e \<noteq> a] = xs" if "a \<notin> fst ` set xs" for xs :: "(nat \<times> int) list" using that by (auto simp: filter_id_conv)
  then show ?thesis using d by (simp add: del_entry_def)
qed

lemma inord_ains: "sorted (map snd (inord t)) \<Longrightarrow> inord (ains t a k) = ins_entry a k (inord t)"
proof (induction t)
  case (ANode l b kb r)
  have l: "\<forall>e \<in> set (inord l). snd e \<le> kb" and r: "\<forall>e \<in> set (inord r). kb \<le> snd e" using ANode.prems by (auto simp: sorted_append)
  have "sorted (map snd (inord l))" "sorted (map snd (inord r))" using ANode.prems by (auto simp: sorted_append)
  note IH = ANode.IH(1) [OF this(1)] ANode.IH(2) [OF this(2)]
  have "k < kb \<Longrightarrow> [e \<leftarrow> inord r. k < snd e] = inord r \<and> [e \<leftarrow> inord r. snd e \<le> k] = []" using r by (auto simp: filter_empty_conv filter_id_conv)
  moreover have "\<not> k < kb \<Longrightarrow> [e \<leftarrow> inord l. k < snd e] = [] \<and> [e \<leftarrow> inord l. snd e \<le> k] = inord l" using l by (auto simp: filter_empty_conv filter_id_conv)
  ultimately show ?case using IH by (cases "k < kb") (auto simp: ins_entry_def)
qed (simp add: ins_entry_def)

lemma sorted_ins_entry: "sorted (map snd xs) \<Longrightarrow> sorted (map snd (ins_entry a k xs))"
  by (auto simp: ins_entry_def sorted_append sorted_wrt_map sorted_wrt_filter intro: less_imp_le order_trans)

lemma mset_ins_entry: "mset (ins_entry a k xs) = add_mset (a, k) (mset xs)"
proof -
  have "mset xs = filter_mset (\<lambda>e. snd e \<le> k) (mset xs) + filter_mset (\<lambda>e. \<not> snd e \<le> k) (mset xs)" by (rule multiset_partition)
  then show ?thesis by (simp add: ins_entry_def not_le)
qed

lemma find_ctx: "(a, k) \<in> set (inord t) \<Longrightarrow> \<exists>l r c. t = plugged (ANode l a k r) c"
proof (induction t)
  case (ANode l b kb r)
  consider "(a, k) = (b, kb)" | "(a, k) \<in> set (inord l)" | "(a, k) \<in> set (inord r)" using ANode.prems by auto
  then show ?case
  proof cases
    case 1
    then show ?thesis by (intro exI [of _ l] exI [of _ r] exI [of _ "[]"]) simp
  next
    case 2
    from ANode.IH(1) [OF this] obtain l' r' c where "l = plugged (ANode l' a k r') c" by blast
    then have "ANode l b kb r = plugged (ANode l' a k r') (c @ [(True, b, kb, r)])" by (simp add: plug_append)
    then show ?thesis by blast
  next
    case 3
    from ANode.IH(2) [OF this] obtain l' r' c where "r = plugged (ANode l' a k r') c" by blast
    then have "ANode l b kb r = plugged (ANode l' a k r') (c @ [(False, b, kb, l)])" by (simp add: plug_append)
    then show ?thesis by blast
  qed
qed simp

text \<open>
  \<open>holds fuel tr xs u\<close>: the tree of \<open>tr\<close> has the entries \<open>xs\<close> in the order of the walk, and \<open>u\<close> gives the keys of nodes with null links that
  are not in it.
\<close>

definition spare :: "bstree \<Rightarrow> (nat \<times> int) list \<Rightarrow> (nat \<rightharpoonup> int) \<Rightarrow> bool" where
  "spare tr xs u \<longleftrightarrow>
     (\<forall>a k. u a = Some k \<longrightarrow> a \<notin> fst ` set xs \<and> (\<exists>p. bs_mem tr a = Some \<lparr>bn_key = k, bn_left = None, bn_right = None, bn_p = p\<rparr>))"

definition bs_holds :: "nat \<Rightarrow> bstree \<Rightarrow> (nat \<times> int) list \<Rightarrow> (nat \<rightharpoonup> int) \<Rightarrow> bool" where
  "bs_holds fuel tr xs u \<longleftrightarrow> (\<exists>t. bs_at tr t \<and> inord t = xs) \<and> sorted (map snd xs) \<and> length xs + card (dom u) < fuel \<and> finite (dom u) \<and> spare tr xs u"

lemma spareE:
  assumes "spare tr xs u" "u a = Some k"
  obtains p where "bs_mem tr a = Some \<lparr>bn_key = k, bn_left = None, bn_right = None, bn_p = p\<rparr>" "a \<notin> fst ` set xs"
  using assms unfolding spare_def by blast

lemma spare_frame:
  assumes "spare tr xs u" "\<forall>a k. u' a = Some k \<longrightarrow> u a = Some k \<and> a \<notin> fst ` set ys" "\<forall>x. x \<notin> fst ` (set xs \<union> set ys) \<longrightarrow> bs_mem tr' x = bs_mem tr x"
  shows "spare tr' ys u'"
  using assms unfolding spare_def image_Un Un_iff by metis

lemma set_adrs: "set (adrs t) = fst ` set (inord t)" and length_adrs: "length (adrs t) = length (inord t)"
  by (simp_all add: adrs_def)

lemma bs_holds_insert:
  assumes h: "bs_holds fuel tr xs u" and a: "u a = Some k"
  shows "\<exists>tr'. bstree_insert fuel tr (Some a) = Inr (0, tr') \<and> bs_holds fuel tr' (ins_entry a k xs) (u(a := None))"
proof -
  obtain t where t: "bs_at tr t" "inord t = xs" using h by (auto simp: bs_holds_def)
  have sp: "spare tr xs u" using h by (simp add: bs_holds_def)
  then obtain p where p: "bs_mem tr a = Some \<lparr>bn_key = k, bn_left = None, bn_right = None, bn_p = p\<rparr>" "a \<notin> set (adrs t)"
    using a t(2) spareE unfolding set_adrs by metis
  have so: "sorted (map snd xs)" and fin: "finite (dom u)" and f: "length (adrs t) < fuel" using h t(2) by (auto simp: bs_holds_def length_adrs)
  have it: "inord (ains t a k) = ins_entry a k xs" using inord_ains so t(2) by simp
  have st: "set (ins_entry a k xs) = insert (a, k) (set xs)" using mset_ins_entry [of a k xs] by (metis set_mset_add_mset_insert set_mset_mset)
  have ln: "length (ins_entry a k xs) = Suc (length xs)" using mset_ins_entry [of a k xs] by (metis size_add_mset size_mset)
  from insert_spec [OF t(1) p f] obtain tr' where r: "bstree_insert fuel tr (Some a) = Inr (0, tr')" "bs_at tr' (ains t a k)"
    "\<forall>x. x \<notin> set (adrs (ains t a k)) \<longrightarrow> bs_mem tr' x = bs_mem tr x" by blast
  have "card (dom u) = Suc (card (dom (u(a := None))))" using card.remove [OF fin, of a] a by (simp add: domI)
  moreover have "spare tr' (ins_entry a k xs) (u(a := None))"
    using sp by (rule spare_frame) (use sp st r(3) it in \<open>auto simp: spare_def set_adrs split: if_splits\<close>)
  ultimately show ?thesis using r(1,2) it so sorted_ins_entry h ln fin unfolding bs_holds_def by auto
qed

lemma bs_holds_delete:
  assumes h: "bs_holds fuel tr xs u" and a: "a \<in> fst ` set xs"
  shows "\<exists>tr'. bstree_delete fuel tr a = Inr tr' \<and> bs_holds fuel tr' (del_entry a xs) u"
proof -
  obtain t where t: "bs_at tr t" "inord t = xs" using h by (auto simp: bs_holds_def)
  obtain k where "(a, k) \<in> set (inord t)" using a t(2) by auto
  then obtain l r c where c: "t = plugged (ANode l a k r) c" using find_ctx by blast
  have "length (adrs r) \<le> length (adrs t)" using arg_cong [OF mset_adrs_plug [of "ANode l a k r" c], of size] unfolding c by simp
  then have f: "length (adrs r) < fuel" using h t(2) by (auto simp: bs_holds_def length_adrs)
  from delete_spec [OF t(1) [unfolded c] f] obtain tr' t' where r: "bstree_delete fuel tr a = Inr tr'" "bs_at tr' (plugged t' c)" "inord t' = inord l @ inord r"
    "\<forall>x. x \<notin> set (adrs t) \<longrightarrow> bs_mem tr' x = bs_mem tr x" unfolding c by blast
  obtain us vs where uv: "\<And>t. inord (plugged t c) = us @ inord t @ vs" using inord_plug [of c] by blast
  have "distinct (map fst xs)" using t by (simp add: bs_at_def adrs_def)
  moreover have xs: "xs = us @ (inord l @ (a, k) # inord r) @ vs" using t(2) uv unfolding c by simp
  ultimately have "del_entry a xs = us @ (inord l @ inord r) @ vs" using del_entry_split [of "us @ inord l" a k "inord r @ vs"] by simp
  then have it: "inord (plugged t' c) = del_entry a xs" using r(3) uv by simp
  have "sorted (map snd (del_entry a xs))" using h by (auto simp: bs_holds_def del_entry_def sorted_wrt_map sorted_wrt_filter)
  moreover have "length (del_entry a xs) \<le> length xs" "set (del_entry a xs) \<subseteq> set xs" by (auto simp: del_entry_def)
  moreover have "spare tr' (del_entry a xs) u"
    by (rule spare_frame [of tr xs u]) (use h r(4) t(2) in \<open>auto simp: bs_holds_def spare_def set_adrs del_entry_def\<close>)
  ultimately show ?thesis using r(1,2) it h unfolding bs_holds_def by (intro exI [of _ tr']) auto
qed

lemma walk_at: "tree_at (bs_mem tr) par t \<Longrightarrow> length (adrs t) < fuel \<Longrightarrow> bstree_inorder_walk fuel tr (root_of t) = Inr (map snd (inord t))"
proof (induction t arbitrary: par fuel)
  case (ANode l a k r)
  then show ?case by (cases fuel) (auto simp: bn_get_def)
qed (auto simp: gr0_conv_Suc)

lemma count_at: "tree_at (bs_mem tr) par t \<Longrightarrow> length (adrs t) < fuel \<Longrightarrow> bstree_node_count fuel tr (root_of t) = Inr (length (inord t))"
proof (induction t arbitrary: par fuel)
  case (ANode l a k r)
  then show ?case by (cases fuel) (auto simp: bn_get_def)
qed (auto simp: gr0_conv_Suc)

lemma search_at:
  assumes "tree_at (bs_mem tr) par t" "length (adrs t) < fuel" "sorted (map snd (inord t))"
  shows "\<exists>x. bstree_search fuel tr (root_of t) k = Inr x \<and> (case x of None \<Rightarrow> k \<notin> snd ` set (inord t) | Some a \<Rightarrow> (a, k) \<in> set (inord t))"
  using assms
proof (induction t arbitrary: par fuel)
  case (ANode l a ka r)
  obtain f where f: "fuel = Suc f" using ANode.prems(2) by (cases fuel) auto
  have so: "sorted (map snd (inord l))" "sorted (map snd (inord r))" "\<forall>e \<in> set (inord l). snd e \<le> ka" "\<forall>e \<in> set (inord r). ka \<le> snd e"
    using ANode.prems(3) by (auto simp: sorted_append)
  consider "k = ka" | "k < ka" | "ka < k" by linarith
  then show ?case
  proof cases
    case 1
    then show ?thesis using ANode.prems(1) f by (simp add: bn_get_def)
  next
    case 2
    obtain x where "bstree_search f tr (root_of l) k = Inr x" "case x of None \<Rightarrow> k \<notin> snd ` set (inord l) | Some a \<Rightarrow> (a, k) \<in> set (inord l)"
      using ANode.IH(1) [of "Some a" f] ANode.prems(1,2) f so(1) by auto
    then show ?thesis using ANode.prems(1) f 2 so(4) by (force simp: bn_get_def split: option.splits)
  next
    case 3
    obtain x where "bstree_search f tr (root_of r) k = Inr x" "case x of None \<Rightarrow> k \<notin> snd ` set (inord r) | Some a \<Rightarrow> (a, k) \<in> set (inord r)"
      using ANode.IH(2) [of "Some a" f] ANode.prems(1,2) f so(2) by auto
    then show ?thesis using ANode.prems(1) f 3 so(3) by (force simp: bn_get_def split: option.splits)
  qed
qed (auto simp: gr0_conv_Suc)

lemma bs_holds_reads:
  assumes "bs_holds fuel tr xs u"
  shows "bstree_inorder_walk fuel tr (bs_root tr) = Inr (map snd xs)" "bstree_node_count fuel tr (bs_root tr) = Inr (length xs)" "sorted (map snd xs)"
    "\<exists>x. bstree_search fuel tr (bs_root tr) k = Inr x \<and> (case x of None \<Rightarrow> k \<notin> snd ` set xs | Some a \<Rightarrow> (a, k) \<in> set xs)"
proof -
  obtain t where t: "bs_root tr = root_of t" "tree_at (bs_mem tr) None t" "inord t = xs" "length (adrs t) < fuel" "sorted (map snd xs)"
    using assms by (auto simp: bs_holds_def bs_at_def length_adrs)
  show "bstree_inorder_walk fuel tr (bs_root tr) = Inr (map snd xs)" "bstree_node_count fuel tr (bs_root tr) = Inr (length xs)" "sorted (map snd xs)"
    "\<exists>x. bstree_search fuel tr (bs_root tr) k = Inr x \<and> (case x of None \<Rightarrow> k \<notin> snd ` set xs | Some a \<Rightarrow> (a, k) \<in> set xs)"
    using walk_at [OF t(2,4)] count_at [OF t(2,4)] search_at [OF t(2,4), of k] t(1,5) unfolding t(3) by simp_all
qed

section \<open>The contract\<close>

datatype bs_cmd = Put nat | Take nat

fun script :: "bs_cmd list \<Rightarrow> (nat \<times> int) list \<Rightarrow> (nat \<rightharpoonup> int) \<Rightarrow> (nat \<times> int) list option" where
  "script [] xs u = Some xs"
| "script (Put a # cs) xs u = (case u a of None \<Rightarrow> None | Some k \<Rightarrow> script cs (ins_entry a k xs) (u(a := None)))"
| "script (Take a # cs) xs u = (if a \<in> fst ` set xs then script cs (del_entry a xs) u else None)"

fun perform :: "('h \<Rightarrow> nat \<Rightarrow> cerr + 'h) \<Rightarrow> ('h \<Rightarrow> nat \<Rightarrow> cerr + 'h) \<Rightarrow> bs_cmd list \<Rightarrow> 'h \<Rightarrow> cerr + 'h" where
  "perform put tk [] h = Inr h"
| "perform put tk (Put a # cs) h = bindr (put h a) (perform put tk cs)"
| "perform put tk (Take a # cs) h = bindr (tk h a) (perform put tk cs)"

text \<open>
  What a client of the tree may rely on: the structure stands for a sorted list of nodes; an unused node can be put in, after the nodes of the same
  key; a node that is in it can be taken out. A list of commands that is allowed on the sorted list then runs on the structure, with the same result.
\<close>

locale node_set =
  fixes holds :: "'h \<Rightarrow> (nat \<times> int) list \<Rightarrow> (nat \<rightharpoonup> int) \<Rightarrow> bool" and put :: "'h \<Rightarrow> nat \<Rightarrow> cerr + 'h" and take_out :: "'h \<Rightarrow> nat \<Rightarrow> cerr + 'h"
  assumes put: "holds h xs u \<Longrightarrow> u a = Some k \<Longrightarrow> \<exists>h'. put h a = Inr h' \<and> holds h' (ins_entry a k xs) (u(a := None))"
    and take_out: "holds h xs u \<Longrightarrow> a \<in> fst ` set xs \<Longrightarrow> \<exists>h'. take_out h a = Inr h' \<and> holds h' (del_entry a xs) u"
begin

lemma perform_script: "holds h xs u \<Longrightarrow> script cs xs u = Some ys \<Longrightarrow> \<exists>h' u'. perform put take_out cs h = Inr h' \<and> holds h' ys u'"
proof (induction cs xs u arbitrary: h rule: script.induct)
  case (2 a cs xs u)
  then show ?case using put [OF 2(2), of a] by (fastforce split: option.splits)
next
  case (3 a cs xs u)
  then show ?case using take_out [OF 3(2), of a] by (fastforce split: if_splits)
qed auto

end

definition bs_put :: "nat \<Rightarrow> bstree \<Rightarrow> nat \<Rightarrow> cerr + bstree" where
  "bs_put fuel tr a = bindr (bstree_insert fuel tr (Some a)) (\<lambda>(r, tr). Inr tr)"

interpretation bst: node_set "bs_holds fuel" "bs_put fuel" "bstree_delete fuel" for fuel
  by unfold_locales (use bs_holds_insert bs_holds_delete in \<open>fastforce simp: bs_put_def\<close>)+

definition bs_keys :: "int list \<Rightarrow> nat \<Rightarrow> int option" where
  "bs_keys ks a = (if a < length ks then Some (ks ! a) else None)"

lemma bs_holds_empty: "length ks < fuel \<Longrightarrow> bs_holds fuel \<lparr>bs_root = None, bs_mem = bs_nodes ks\<rparr> [] (bs_keys ks)"
proof -
  assume f: "length ks < fuel"
  have "dom (bs_keys ks) = {..<length ks}" by (auto simp: bs_keys_def split: if_splits)
  moreover have "bs_at \<lparr>bs_root = None, bs_mem = bs_nodes ks\<rparr> ALeaf" by (simp add: bs_at_def)
  ultimately show ?thesis using f by (force simp: bs_holds_def spare_def bs_keys_def bs_nodes_def split: if_splits)
qed

lemma init_loop_puts: "bs_holds fuel tr xs u \<Longrightarrow> distinct as \<Longrightarrow> \<forall>a \<in> set as. u a = Some (f a) \<Longrightarrow>
  \<exists>tr'. init_loop fuel tr as = Inr (0, tr') \<and> bs_holds fuel tr' (fold (\<lambda>a. ins_entry a (f a)) as xs) (u |` (- set as))"
proof (induction as arbitrary: tr xs u)
  case (Cons a as)
  from bs_holds_insert [OF Cons.prems(1), of a "f a"] Cons.prems(3) obtain tr1 where
    t1: "bstree_insert fuel tr (Some a) = Inr (0, tr1)" "bs_holds fuel tr1 (ins_entry a (f a) xs) (u(a := None))" by auto
  have u: "(u(a := None)) |` (- set as) = u |` (- set (a # as))" by (auto simp: restrict_map_def)
  have as: "distinct as" "\<forall>b \<in> set as. (u(a := None)) b = Some (f b)" using Cons.prems(2,3) by auto
  show ?case using Cons.IH [OF t1(2) as] t1(1) unfolding u by simp
qed (simp add: restrict_map_def)

lemma mset_ins_entries: "mset (fold (\<lambda>a. ins_entry a (f a)) as xs) = image_mset (\<lambda>a. (a, f a)) (mset as) + mset xs"
  by (induction as arbitrary: xs) (simp_all add: mset_ins_entry)

text \<open>\<open>bstree_init\<close> on an array of nodes.\<close>

lemma bstree_init_sorts:
  assumes "ks \<noteq> []" "length ks < fuel"
  shows "\<exists>tr. bstree_init fuel ks = Inr (0, sort ks, tr)"
proof -
  from init_loop_puts [OF bs_holds_empty [OF assms(2)], of "[0..<length ks]" "\<lambda>a. ks ! a"] obtain tr where
    tr: "init_loop fuel \<lparr>bs_root = None, bs_mem = bs_nodes ks\<rparr> [0..<length ks] = Inr (0, tr)"
    "bs_holds fuel tr (fold (\<lambda>a. ins_entry a (ks ! a)) [0..<length ks] []) (bs_keys ks |` (- set [0..<length ks]))" by (auto simp: bs_keys_def)
  let ?xs = "fold (\<lambda>a. ins_entry a (ks ! a)) [0..<length ks] []"
  have "mset (map snd ?xs) = mset (map ((!) ks) [0..<length ks])" by (simp add: mset_ins_entries image_mset.compositionality comp_def)
  then have ms: "mset (map snd ?xs) = mset ks" by (simp only: map_nth)
  then have srt: "map snd ?xs = sort ks" using bs_holds_reads(3) [OF tr(2)] by (metis properties_for_sort)
  obtain t where t: "bs_at tr t" "inord t = ?xs" using tr(2) by (auto simp: bs_holds_def)
  have "t \<noteq> ALeaf" using ms t(2) assms(1) by auto
  then obtain l a k r where "t = ANode l a k r" by (cases t) auto
  then have "bs_root tr = Some a" "\<exists>n. bn_get tr a = Inr n" using t(1) by (auto simp: bs_at_def bn_get_def)
  then show ?thesis using tr(1) bs_holds_reads(1) [OF tr(2)] srt by (auto simp: bstree_init_def)
qed

lemma bstree_init_empty: "bstree_init (Suc fuel) [] = Inl NullDeref"
  by (simp add: bstree_init_def)

text \<open>The second search makes one step and then calls the first, with the same result.\<close>

lemma search_recursive_same: "bstree_search_recursive fuel tr x k = bstree_search (Suc fuel) tr x k"
  by (cases x; cases "bn_get tr (the x)") (auto simp: bstree_search_recursive_def)

text \<open>
  The recursive insertion never sets the parent link: taking out a leaf below the root then empties the tree. A node that was taken out keeps its links:
  putting it in again makes a cycle.
\<close>

lemma insert_recursive_orphans:
  "bindr (bstree_insert_recursive 5 \<lparr>bs_root = None, bs_mem = bs_nodes [5, 3, 8]\<rparr> (Some 0)) (\<lambda>(_, tr).
   bindr (bstree_insert_recursive 5 tr (Some 1)) (\<lambda>(_, tr).
   bindr (bstree_insert_recursive 5 tr (Some 2)) (\<lambda>(_, tr).
   bindr (bstree_delete 5 tr 1) (\<lambda>tr. Inr (bs_root tr))))) = Inr None"
  by code_simp

lemma reinsert_cycles:
  "bindr (perform (bs_put 5) (bstree_delete 5) [Put 0, Put 1, Take 0, Put 0] \<lparr>bs_root = None, bs_mem = bs_nodes [5, 3]\<rparr>)
     (\<lambda>tr. Inr (bs_root tr, map_option bn_left (bs_mem tr 0), map_option bn_right (bs_mem tr 1))) = Inr (Some 1, Some (Some 1), Some (Some 0))"
  by code_simp

text \<open>C34: A tree on the nodes of an array: insertions of unused nodes and deletions of nodes in the tree, in any order and with keys that may be equal, all
  return. The tree then has the nodes that the same commands leave in a sorted list; the walk prints their keys in order, the count is their number, and a
  search finds a node of the key exactly when there is one.\<close>

theorem bstree_script:
  assumes "script cs [] (bs_keys ks) = Some ys" "length ks < fuel"
  shows "\<exists>tr. perform (bs_put fuel) (bstree_delete fuel) cs \<lparr>bs_root = None, bs_mem = bs_nodes ks\<rparr> = Inr tr \<and> sorted (map snd ys) \<and>
    bstree_inorder_walk fuel tr (bs_root tr) = Inr (map snd ys) \<and> bstree_node_count fuel tr (bs_root tr) = Inr (length ys) \<and>
    (\<forall>k. \<exists>x. bstree_search fuel tr (bs_root tr) k = Inr x \<and> (case x of None \<Rightarrow> k \<notin> snd ` set ys | Some a \<Rightarrow> (a, k) \<in> set ys))"
proof -
  from bst.perform_script [OF bs_holds_empty [OF assms(2)] assms(1)] obtain tr u where
    tr: "perform (bs_put fuel) (bstree_delete fuel) cs \<lparr>bs_root = None, bs_mem = bs_nodes ks\<rparr> = Inr tr" "bs_holds fuel tr ys u" by blast
  show ?thesis using tr(1) bs_holds_reads [OF tr(2)] by blast
qed

theorem bstree_script_witness:
  "\<exists>tr. perform (bs_put 4) (bstree_delete 4) [Put 0, Put 1, Put 2, Take 0] \<lparr>bs_root = None, bs_mem = bs_nodes [5, 3, 8]\<rparr> = Inr tr \<and>
    bstree_inorder_walk 4 tr (bs_root tr) = Inr [3, 8]"
proof -
  have "script [Put 0, Put 1, Put 2, Take 0] [] (bs_keys [5, 3, 8]) = Some [(1, 3), (2, 8)]" by code_simp
  from bstree_script [OF this, of 4] show ?thesis by auto
qed

end
