(* ===== verification/Pools.thy ===== *)
theory Pools
  imports C_Prelude "HOL-Library.Log_Nat"
begin

text \<open>
  The allocators: the node pool of the search trees (\<^verbatim>\<open>src/algs/node_pool.cpp\<close>), the growing
  two-dimensional array (\<^verbatim>\<open>src/algs/tdarr.cpp\<close>) and the two object pools
  (\<^verbatim>\<open>src/mem_pool/mem_pool.c\<close>, \<^verbatim>\<open>src/mmpool/mmpool.c\<close>).

  All four hand out cells of rows that they allocate one after the other. A row is a block of
  its own, so the address of a cell is the pair of its row and its column, or, for the object
  pools, of its row and its byte offset. Each allocation takes a flag \<open>ok\<close> that says whether
  the \<open>malloc\<close>, \<open>calloc\<close> and \<open>realloc\<close> calls it makes succeed.

  The locale \<open>fresh_alloc\<close> is the contract of an allocator: under its invariant it returns, and
  what it returns was not handed out before. It is interpreted on all four.
\<close>

section \<open>The contract of an allocator\<close>

fun alloc_many :: "('s \<Rightarrow> cerr + 'a \<times> 's) \<Rightarrow> nat \<Rightarrow> 's \<Rightarrow> cerr + 'a list \<times> 's" where
  "alloc_many al 0 s = Inr ([], s)"
| "alloc_many al (Suc n) s =
     bindr (al s) (\<lambda>(a, s1). bindr (alloc_many al n s1) (\<lambda>(as, s2). Inr (a # as, s2)))"

text \<open>The \<open>budget\<close> counts the allocations that certainly go through: the object pools keep their
  row numbers in an \<open>int\<close>.\<close>

locale fresh_alloc =
  fixes inv :: "'s \<Rightarrow> bool" and used :: "'s \<Rightarrow> 'a set" and budget :: "'s \<Rightarrow> nat"
    and alloc :: "'s \<Rightarrow> cerr + 'a \<times> 's"
  assumes alloc_law: "inv s \<Longrightarrow> 0 < budget s \<Longrightarrow>
      \<exists>a s'. alloc s = Inr (a, s') \<and> inv s' \<and> a \<notin> used s \<and> used s' = insert a (used s) \<and>
        budget s \<le> Suc (budget s')"
begin

lemma alloc_many_distinct:
  assumes "inv s" "n \<le> budget s"
  shows "\<exists>as s'. alloc_many alloc n s = Inr (as, s') \<and> inv s' \<and> length as = n \<and> distinct as \<and>
    set as \<inter> used s = {} \<and> used s' = used s \<union> set as"
  using assms
proof (induction n arbitrary: s)
  case 0
  then show ?case by simp
next
  case (Suc n)
  from alloc_law [OF Suc.prems(1)] Suc.prems(2) obtain a s1 where
    a: "alloc s = Inr (a, s1)" "inv s1" "a \<notin> used s" "used s1 = insert a (used s)"
      "budget s \<le> Suc (budget s1)" by auto
  have "n \<le> budget s1" using a(5) Suc.prems(2) by simp
  from Suc.IH [OF a(2) this] obtain as s2 where "alloc_many alloc n s1 = Inr (as, s2)" "inv s2"
    "length as = n" "distinct as" "set as \<inter> used s1 = {}" "used s2 = used s1 \<union> set as" by blast
  with a show ?case by auto
qed

end

text \<open>\<open>(size_t)log2(N)\<close> for a positive \<open>N\<close>.\<close>

definition log2_floor :: "nat \<Rightarrow> nat" where
  "log2_floor n = floorlog 2 n - 1"

section \<open>node_pool\<close>

text \<open>A row table holds the row pointers: \<open>Some True\<close> is a row, \<open>Some False\<close> a null pointer and
  \<open>None\<close> a pointer that was never written (the tail that \<open>realloc\<close> adds).\<close>

type_synonym rowtab = "bool option list"

definition read_cell :: "'a option list \<Rightarrow> nat \<Rightarrow> cerr + 'a" where
  "read_cell t i = bindr (load t i) (\<lambda>c. case c of None \<Rightarrow> Inl UninitRead | Some b \<Rightarrow> Inr b)"

definition realloc_rows :: "'a option list \<Rightarrow> nat \<Rightarrow> 'a option list" where
  "realloc_rows t m = take m t @ replicate (m - length t) None"

lemma read_cell_in [mem_simps]: "i < length t \<Longrightarrow> t ! i = Some b \<Longrightarrow> read_cell t i = Inr b"
  by (simp add: read_cell_def load_def)

record node_pool =
  rows :: rowtab      \<comment> \<open>\<open>n\<close>\<close>
  row :: nat          \<comment> \<open>\<open>i\<close>\<close>
  col :: nat          \<comment> \<open>\<open>j\<close>\<close>
  maxrows :: nat      \<comment> \<open>\<open>N\<close>\<close>

text \<open>\<open>1024 * 1024 * 8 / sizeof(rbtree_node)\<close> with four pointers and a padded flag.\<close>

definition RTR_POOL_N :: nat where
  "RTR_POOL_N = 1024 * 1024 * 8 div 40"

definition node_pool_init :: "nat \<Rightarrow> node_pool" where
  "node_pool_init m = \<lparr>rows = replicate m (Some False), row = 0, col = 0, maxrows = m\<rparr>"

definition np_first_row :: "bool \<Rightarrow> node_pool \<Rightarrow> cerr + node_pool" where
  "np_first_row ok p =
     bindr (read_cell (rows p) 0) (\<lambda>b.
     if \<not> b then
       if \<not> ok then Inl Exited
       else bindr (store (rows p) 0 (Some True)) (\<lambda>t. Inr (p\<lparr>rows := t\<rparr>))
     else Inr p)"

definition np_grow :: "bool \<Rightarrow> node_pool \<Rightarrow> cerr + node_pool" where
  "np_grow ok p =
     (if Suc (row p) = maxrows p then
        let NN = log2_floor (maxrows p); N' = maxrows p + (if NN < 8 then 8 else NN) in
        if \<not> ok then Inl Exited else Inr (p\<lparr>maxrows := N', rows := realloc_rows (rows p) N'\<rparr>)
      else Inr p)"

text \<open>Rows of \<open>M\<close> cells; the graph programs have pools of other row lengths with the same code.\<close>

definition np_next_row :: "nat \<Rightarrow> bool \<Rightarrow> node_pool \<Rightarrow> cerr + node_pool" where
  "np_next_row M ok p =
     (if Suc (col p) = M then
        bindr (store (rows p) (Suc (row p)) (Some ok)) (\<lambda>t.
        if \<not> ok then Inl Exited else Inr (p\<lparr>rows := t, row := Suc (row p), col := 0\<rparr>))
      else Inr p)"

definition pool_addr :: "nat \<Rightarrow> bool \<Rightarrow> node_pool \<Rightarrow> cerr + (nat \<times> nat) \<times> node_pool" where
  "pool_addr M ok p =
     bindr (np_first_row ok p) (\<lambda>p1. bindr (np_grow ok p1) (\<lambda>p2. bindr (np_next_row M ok p2) (\<lambda>p3.
     bindr (read_cell (rows p3) (row p3)) (\<lambda>b.
     if \<not> b then Inl NullDeref else Inr ((row p3, col p3), p3\<lparr>col := Suc (col p3)\<rparr>)))))"

text \<open>The allocation part of \<open>node_new\<close>: the address of the next node.\<close>

definition node_new_addr :: "bool \<Rightarrow> node_pool \<Rightarrow> cerr + (nat \<times> nat) \<times> node_pool" where
  "node_new_addr ok p = pool_addr RTR_POOL_N ok p"

definition pool_inv :: "nat \<Rightarrow> node_pool \<Rightarrow> bool" where
  "pool_inv M p \<longleftrightarrow> length (rows p) = maxrows p \<and> 1 \<le> maxrows p \<and> row p < maxrows p \<and> col p < M \<and>
     (\<exists>b. rows p ! 0 = Some b \<and> (0 < row p \<longrightarrow> b)) \<and> (0 < row p \<longrightarrow> rows p ! row p = Some True)"

text \<open>Cells are handed out row by row, all but the last column of each.\<close>

definition pool_used :: "nat \<Rightarrow> node_pool \<Rightarrow> (nat \<times> nat) set" where
  "pool_used M p = {(r, c). r < row p \<and> c < M - 1 \<or> r = row p \<and> c < col p}"

abbreviation np_inv :: "node_pool \<Rightarrow> bool" where "np_inv \<equiv> pool_inv RTR_POOL_N"
abbreviation np_used :: "node_pool \<Rightarrow> (nat \<times> nat) set" where "np_used \<equiv> pool_used RTR_POOL_N"

lemma pool_addr_law:
  assumes M: "2 \<le> M" and inv: "pool_inv M p"
  shows "\<exists>a p'. pool_addr M True p = Inr (a, p') \<and> pool_inv M p' \<and> a \<notin> pool_used M p \<and>
    pool_used M p' = insert a (pool_used M p)"
proof -
  obtain b where b: "rows p ! 0 = Some b" "0 < row p \<longrightarrow> b" using inv by (auto simp: pool_inv_def)
  define p1 where "p1 = p\<lparr>rows := (rows p)[0 := Some True]\<rparr>"
  have nz: "0 < length (rows p)" using inv by (auto simp: pool_inv_def)
  have e1: "np_first_row True p = Inr p1"
    using b nz list_update_id [of "rows p" 0]
    by (cases b) (simp_all add: np_first_row_def read_cell_def p1_def mem_simps)
  have p1: "pool_inv M p1" "rows p1 ! row p1 = Some True" "row p1 = row p" "col p1 = col p"
    using inv nz by (auto simp: pool_inv_def p1_def nth_list_update)
  have "\<exists>p2. np_grow True p1 = Inr p2" by (simp add: np_grow_def Let_def)
  then obtain p2 where e2: "np_grow True p1 = Inr p2" by blast
  have p2: "pool_inv M p2" "rows p2 ! row p2 = Some True" "row p2 = row p" "col p2 = col p"
    "Suc (row p2) < maxrows p2"
    using p1 e2 by (auto simp: np_grow_def pool_inv_def realloc_rows_def nth_append Let_def split: if_splits)
  show ?thesis
  proof (cases "Suc (col p) = M")
    case False
    with p2 show ?thesis
      by (auto simp: pool_addr_def e1 e2 np_next_row_def read_cell_def pool_inv_def load_def pool_used_def)
  next
    case True
    with p2 M show ?thesis
      by (auto simp: pool_addr_def e1 e2 np_next_row_def read_cell_def pool_inv_def load_def store_def
          pool_used_def)
  qed
qed

lemma RTR_POOL_N_ge: "2 \<le> RTR_POOL_N"
  by (simp add: RTR_POOL_N_def)

lemma node_new_addr_law:
  "np_inv p \<Longrightarrow> \<exists>a p'. node_new_addr True p = Inr (a, p') \<and> np_inv p' \<and> a \<notin> np_used p \<and> np_used p' = insert a (np_used p)"
  unfolding node_new_addr_def by (rule pool_addr_law [OF RTR_POOL_N_ge])

interpretation node_pool: fresh_alloc np_inv np_used "\<lambda>p. n" "node_new_addr True" for n
  using node_new_addr_law by unfold_locales auto

lemma pool_init_inv: "1 \<le> m \<Longrightarrow> 0 < M \<Longrightarrow> pool_inv M (node_pool_init m) \<and> pool_used M (node_pool_init m) = {}"
  by (auto simp: pool_inv_def node_pool_init_def pool_used_def)

lemma node_pool_init_inv: "1 \<le> m \<Longrightarrow> np_inv (node_pool_init m) \<and> np_used (node_pool_init m) = {}"
  using pool_init_inv RTR_POOL_N_ge by simp

lemma np_used_in_row: "np_inv p \<Longrightarrow> (r, c) \<in> np_used p \<Longrightarrow> c < RTR_POOL_N"
  by (auto simp: pool_inv_def pool_used_def)

text \<open>A node pool with at least one row pointer hands out any number of nodes (the allocator
  willing), all distinct and inside their rows, however often the row table has to grow.\<close>

theorem node_new_distinct:
  assumes "1 \<le> m"
  shows "\<exists>as p. alloc_many (node_new_addr True) n (node_pool_init m) = Inr (as, p) \<and> length as = n \<and> distinct as \<and>
    (\<forall>a \<in> set as. snd a < RTR_POOL_N)"
proof -
  note i = node_pool_init_inv [OF assms]
  from node_pool.alloc_many_distinct [OF i [THEN conjunct1] order_refl, of n] i obtain as p where
    "alloc_many (node_new_addr True) n (node_pool_init m) = Inr (as, p)" "np_inv p" "length as = n" "distinct as"
    "np_used p = set as" by auto
  with np_used_in_row show ?thesis by (metis prod.collapse)
qed

theorem node_new_distinct_witness:
  "\<exists>as p. alloc_many (node_new_addr True) 500000 (node_pool_init 1) = Inr (as, p) \<and> length as = 500000 \<and> distinct as \<and>
    (\<forall>a \<in> set as. snd a < RTR_POOL_N)"
  by (rule node_new_distinct) simp

section \<open>tdarr\<close>

text \<open>Only \<open>p[0]\<close> is set at the start: \<open>malloc\<close> leaves the other row pointers indeterminate. The
  cells are a map from positions to the integers stored.\<close>

record tdarr =
  td_p :: rowtab
  td_i :: nat
  td_j :: nat
  td_I :: nat
  td_J :: nat
  td_cells :: "nat \<times> nat \<Rightarrow> int option"

definition tdarr_init :: "nat \<Rightarrow> nat \<Rightarrow> cerr + tdarr" where
  "tdarr_init m k =
     bindr (store (replicate m None) 0 (Some False)) (\<lambda>t.
     Inr \<lparr>td_p = t, td_i = 0, td_j = 0, td_I = m, td_J = k, td_cells = Map.empty\<rparr>)"

text \<open>The three steps before the cell is taken; the flag each returns says whether the run goes on
  (a step whose allocation fails makes the function return null). After a failed \<open>realloc\<close> the
  pointer \<open>p\<close> itself is null, a table without cells.\<close>

definition td_first_row :: "bool \<Rightarrow> tdarr \<Rightarrow> cerr + bool \<times> tdarr" where
  "td_first_row ok a =
     bindr (read_cell (td_p a) 0) (\<lambda>b.
     if b then Inr (True, a)
     else bindr (store (td_p a) 0 (Some ok)) (\<lambda>t. Inr (ok, a\<lparr>td_p := t\<rparr>)))"

definition td_grow :: "bool \<Rightarrow> tdarr \<Rightarrow> bool \<times> tdarr" where
  "td_grow ok a =
     (if Suc (td_i a) = td_I a then
        let l = log2_floor (td_I a); m = td_I a + (if l < td_I a then td_I a else l) in
        (ok, a\<lparr>td_I := m, td_p := (if ok then realloc_rows (td_p a) m else [])\<rparr>)
      else (True, a))"

definition td_next_row :: "bool \<Rightarrow> tdarr \<Rightarrow> cerr + bool \<times> tdarr" where
  "td_next_row ok a =
     (if Suc (td_j a) = td_J a then
        bindr (store (td_p a) (Suc (td_i a)) (Some ok)) (\<lambda>t.
        Inr (ok, a\<lparr>td_p := t, td_i := Suc (td_i a), td_j := (if ok then 0 else td_j a)\<rparr>))
      else Inr (True, a))"

definition tdarr_int_new :: "bool \<Rightarrow> tdarr \<Rightarrow> int \<Rightarrow> cerr + (nat \<times> nat) option \<times> tdarr" where
  "tdarr_int_new ok a key =
     bindr (td_first_row ok a) (\<lambda>(c1, a1).
     if \<not> c1 then Inr (None, a1) else
     let (c2, a2) = td_grow ok a1 in
     if \<not> c2 then Inr (None, a2) else
     bindr (td_next_row ok a2) (\<lambda>(c3, a3).
     if \<not> c3 then Inr (None, a3) else
     bindr (read_cell (td_p a3) (td_i a3)) (\<lambda>r.
     if \<not> r then Inl NullDeref else
     if td_j a3 \<ge> td_J a3 then Inl OutOfBounds else
     Inr (Some (td_i a3, td_j a3),
       a3\<lparr>td_j := Suc (td_j a3), td_cells := (td_cells a3)((td_i a3, td_j a3) \<mapsto> key)\<rparr>))))"

definition td_filled :: "(nat \<times> nat \<Rightarrow> int option) \<Rightarrow> nat \<Rightarrow> nat \<Rightarrow> nat \<Rightarrow> bool" where
  "td_filled cs i j k \<longleftrightarrow> dom cs = {(r, c). r < i \<and> c < k - 1 \<or> r = i \<and> c < j}"

definition td_inv :: "tdarr \<Rightarrow> bool" where
  "td_inv a \<longleftrightarrow> length (td_p a) = td_I a \<and> 1 \<le> td_I a \<and> 2 \<le> td_J a \<and> td_i a < td_I a \<and>
     td_j a < td_J a \<and> (\<exists>b. td_p a ! 0 = Some b \<and> (0 < td_i a \<longrightarrow> b)) \<and>
     (0 < td_i a \<longrightarrow> td_p a ! td_i a = Some True) \<and>
     td_filled (td_cells a) (td_i a) (td_j a) (td_J a)"

lemma tdarr_int_new_law:
  assumes inv: "td_inv a"
  shows "\<exists>c a'. tdarr_int_new True a key = Inr (Some c, a') \<and> td_inv a' \<and> c \<notin> dom (td_cells a) \<and>
    td_cells a' = (td_cells a)(c \<mapsto> key)"
proof -
  obtain b where b: "td_p a ! 0 = Some b" "0 < td_i a \<longrightarrow> b" using inv by (auto simp: td_inv_def)
  have nz: "0 < length (td_p a)" using inv by (auto simp: td_inv_def)
  define a1 where "a1 = a\<lparr>td_p := (td_p a)[0 := Some True]\<rparr>"
  have e1: "td_first_row True a = Inr (True, a1)"
    using b nz list_update_id [of "td_p a" 0]
    by (cases b) (simp_all add: td_first_row_def read_cell_def a1_def mem_simps)
  have a1: "td_inv a1" "td_p a1 ! td_i a1 = Some True" "td_i a1 = td_i a" "td_j a1 = td_j a"
    "td_J a1 = td_J a" "td_cells a1 = td_cells a"
    using inv nz by (auto simp: td_inv_def a1_def nth_list_update)
  have "\<exists>a2. td_grow True a1 = (True, a2)" by (simp add: td_grow_def Let_def)
  then obtain a2 where e2: "td_grow True a1 = (True, a2)" by blast
  have a2: "td_inv a2" "td_p a2 ! td_i a2 = Some True" "td_i a2 = td_i a" "td_j a2 = td_j a"
    "td_J a2 = td_J a" "td_cells a2 = td_cells a" "Suc (td_i a2) < td_I a2"
    using a1 e2 by (auto simp: td_grow_def td_inv_def realloc_rows_def nth_append Let_def split: if_splits)
  show ?thesis
  proof (cases "Suc (td_j a) = td_J a")
    case True
    with a2 show ?thesis
      by (auto simp: tdarr_int_new_def e1 e2 td_next_row_def read_cell_def load_def store_def td_inv_def td_filled_def)
  next
    case False
    with a2 show ?thesis
      by (auto simp: tdarr_int_new_def e1 e2 td_next_row_def read_cell_def load_def store_def td_inv_def td_filled_def)
  qed
qed

definition tdarr_new_addr :: "int \<Rightarrow> tdarr \<Rightarrow> cerr + (nat \<times> nat) \<times> tdarr" where
  "tdarr_new_addr key a = bindr (tdarr_int_new True a key) (\<lambda>(c, a'). bindr (deref c) (\<lambda>x. Inr (x, a')))"

interpretation tdarr: fresh_alloc td_inv "\<lambda>a. dom (td_cells a)" "\<lambda>a. n" "tdarr_new_addr key" for n key
proof
  fix s assume "td_inv s"
  from tdarr_int_new_law [OF this, of key]
  show "\<exists>a s'. tdarr_new_addr key s = Inr (a, s') \<and> td_inv s' \<and> a \<notin> dom (td_cells s) \<and>
      dom (td_cells s') = insert a (dom (td_cells s)) \<and> n \<le> Suc n"
    by (auto simp: tdarr_new_addr_def)
qed

lemma tdarr_init_inv: "1 \<le> m \<Longrightarrow> 2 \<le> k \<Longrightarrow>
    \<exists>a. tdarr_init m k = Inr a \<and> td_inv a \<and> td_cells a = Map.empty"
  by (auto simp: tdarr_init_def store_def td_inv_def td_filled_def)

fun tdarr_fill :: "tdarr \<Rightarrow> int list \<Rightarrow> cerr + (nat \<times> nat) list \<times> tdarr" where
  "tdarr_fill a [] = Inr ([], a)"
| "tdarr_fill a (k # ks) =
     bindr (tdarr_int_new True a k) (\<lambda>(c, a1). bindr (deref c) (\<lambda>c.
     bindr (tdarr_fill a1 ks) (\<lambda>(cs, a2). Inr (c # cs, a2))))"

lemma tdarr_fill_keeps:
  assumes "td_inv a"
  shows "\<exists>cs a'. tdarr_fill a ks = Inr (cs, a') \<and> length cs = length ks \<and> distinct cs \<and>
    set cs \<inter> dom (td_cells a) = {} \<and> (\<forall>i < length ks. td_cells a' (cs ! i) = Some (ks ! i)) \<and>
    (\<forall>c \<in> dom (td_cells a). td_cells a' c = td_cells a c)"
  using assms
proof (induction ks arbitrary: a)
  case (Cons k ks)
  from tdarr_int_new_law [OF Cons.prems, of k] obtain c a1 where a1: "tdarr_int_new True a k = Inr (Some c, a1)"
    "td_inv a1" "c \<notin> dom (td_cells a)" "td_cells a1 = (td_cells a)(c \<mapsto> k)" by blast
  from Cons.IH [OF a1(2)] obtain cs a2 where a2: "tdarr_fill a1 ks = Inr (cs, a2)" "length cs = length ks" "distinct cs"
    "set cs \<inter> dom (td_cells a1) = {}" "\<forall>i < length ks. td_cells a2 (cs ! i) = Some (ks ! i)"
    "\<forall>c \<in> dom (td_cells a1). td_cells a2 c = td_cells a1 c" by blast
  have "td_cells a2 ((c # cs) ! i) = Some ((k # ks) ! i)" if "i < length (k # ks)" for i
    using that a1(4) a2(5,6) by (cases i) auto
  moreover have "td_cells a2 d = td_cells a d" if "d \<in> dom (td_cells a)" for d
    using that a1(3,4) a2(6) by auto
  ultimately show ?case using a1 a2(1-4) by (intro exI [of _ "c # cs"] exI [of _ a2]) auto
qed simp

text \<open>Keys appended to a fresh two-dimensional array (rows of at least two cells, the allocator
  willing) get cells of their own, and after all of them are stored each cell still holds its key.\<close>

theorem tdarr_stores:
  assumes "1 \<le> m" "2 \<le> k"
  shows "\<exists>a cs a'. tdarr_init m k = Inr a \<and> tdarr_fill a ks = Inr (cs, a') \<and> length cs = length ks \<and> distinct cs \<and>
    (\<forall>i < length ks. td_cells a' (cs ! i) = Some (ks ! i))"
proof -
  obtain a where "tdarr_init m k = Inr a" "td_inv a" using tdarr_init_inv [OF assms] by blast
  with tdarr_fill_keeps [of a ks] show ?thesis by blast
qed

theorem tdarr_stores_witness:
  "\<exists>a cs a'. tdarr_init 1 2 = Inr a \<and> tdarr_fill a [4, 5, 6] = Inr (cs, a') \<and> length cs = length [4, 5, 6::int] \<and> distinct cs \<and>
    (\<forall>i < length [4, 5, 6::int]. td_cells a' (cs ! i) = Some ([4, 5, 6] ! i))"
  by (rule tdarr_stores) simp_all

text \<open>Rows of a single cell do not work: the second append writes behind the end of its row.\<close>

lemma tdarr_single_column:
  "bindr (tdarr_init 8 1) (\<lambda>a. bindr (tdarr_fill a [4]) (\<lambda>(cs, a'). Inr cs)) = Inr [(1, 0)] \<and>
   bindr (tdarr_init 8 1) (\<lambda>a. bindr (tdarr_fill a [4, 5]) (\<lambda>(cs, a'). Inr cs)) = Inl OutOfBounds"
  by (simp add: tdarr_init_def tdarr_int_new_def td_first_row_def td_grow_def td_next_row_def read_cell_def load_def store_def)

section \<open>mem_pool\<close>

text \<open>An object is named by its row and its byte offset in the row. A row is modelled by its
  header, the array of \<open>NY\<close> pointers to its live objects at its start.\<close>

type_synonym obj = "nat \<times> nat"
type_synonym mp_hdr = "obj option list"

record mem_pool =
  mp_ptr :: "mp_hdr option option list"
  mp_x :: nat
  mp_y :: nat
  mp_NX :: nat
  mp_NY :: nat
  mp_NOBJ :: nat
  mp_memused :: nat

text \<open>\<open>sizeof(struct mem_pool)\<close> is 40 and that of a pointer 8.\<close>

definition mp_create :: "bool \<Rightarrow> int \<Rightarrow> int \<Rightarrow> cerr + mem_pool option" where
  "mp_create ok objsize y =
     (if objsize \<le> 0 then Inr None else
      if \<not> ok then Inl AssertFail else
      Inr (Some \<lparr>mp_ptr = replicate 10 (Some None), mp_x = 0, mp_y = 0, mp_NX = 10,
        mp_NY = nat (if y < 1 then 1 else y), mp_NOBJ = nat objsize, mp_memused = 40 + 10 * 8\<rparr>))"

definition mp_grow :: "bool \<Rightarrow> mem_pool \<Rightarrow> cerr + bool \<times> mem_pool" where
  "mp_grow ok mp =
     (if mp_x mp = mp_NX mp - 1 then
        bindr (imul (mp_NX mp) 2) (\<lambda>m.
        if \<not> ok then Inr (False, mp\<lparr>mp_ptr := []\<rparr>) else
        Inr (True, mp\<lparr>mp_ptr := take (mp_NX mp) (realloc_rows (mp_ptr mp) m) @ replicate (mp_NX mp) (Some None),
          mp_memused := mp_memused mp + mp_NX mp * 8, mp_NX := m\<rparr>))
      else Inr (True, mp))"

definition mp_row :: "bool \<Rightarrow> mem_pool \<Rightarrow> cerr + mp_hdr option \<times> mem_pool" where
  "mp_row ok mp =
     bindr (imul (mp_NY mp) 8) (\<lambda>hdrlen.
     bindr (read_cell (mp_ptr mp) (mp_x mp)) (\<lambda>r.
     case r of
       Some h \<Rightarrow> Inr (Some h, mp)
     | None \<Rightarrow>
         bindr (imul (mp_NY mp) (mp_NOBJ mp)) (\<lambda>b. bindr (iadd hdrlen b) (\<lambda>sz.
         if \<not> ok then Inr (None, mp) else
         let h = replicate (mp_NY mp) None in
         bindr (store (mp_ptr mp) (mp_x mp) (Some (Some h))) (\<lambda>t.
         Inr (Some h, mp\<lparr>mp_ptr := t, mp_memused := mp_memused mp + sz\<rparr>))))))"

definition mp_take :: "mp_hdr \<Rightarrow> mem_pool \<Rightarrow> cerr + obj \<times> mem_pool" where
  "mp_take h mp =
     bindr (imul (mp_NOBJ mp) (mp_y mp)) (\<lambda>d.
     let addr = (mp_x mp, mp_NY mp * 8 + d) in
     bindr (store h (mp_y mp) (Some addr)) (\<lambda>h'.
     bindr (store (mp_ptr mp) (mp_x mp) (Some (Some h'))) (\<lambda>t.
     let mp1 = mp\<lparr>mp_ptr := t, mp_y := Suc (mp_y mp)\<rparr> in
     Inr (addr, if mp_y mp1 = mp_NY mp1 then mp1\<lparr>mp_x := Suc (mp_x mp1), mp_y := 0\<rparr> else mp1))))"

definition mp_alloc :: "bool \<Rightarrow> mem_pool option \<Rightarrow> cerr + obj option \<times> mem_pool option" where
  "mp_alloc ok mpo =
     (case mpo of None \<Rightarrow> Inr (None, None)
      | Some mp \<Rightarrow>
          bindr (mp_grow ok mp) (\<lambda>(c, mp1).
          if \<not> c then Inr (None, Some mp1) else
          bindr (mp_row ok mp1) (\<lambda>(h, mp2).
          case h of None \<Rightarrow> Inr (None, Some mp2)
          | Some h \<Rightarrow> bindr (mp_take h mp2) (\<lambda>(a, mp3). Inr (Some a, Some mp3)))))"

text \<open>\<open>mp_free\<close> clears the first header slot that holds the pointer, in the rows before the
  current one.\<close>

fun mp_slot :: "mp_hdr \<Rightarrow> obj \<Rightarrow> mp_hdr option" where
  "mp_slot [] p = None"
| "mp_slot (c # h) p =
     (if c = Some p then Some (None # h) else map_option (Cons c) (mp_slot h p))"

function mp_free_loop :: "mem_pool \<Rightarrow> obj \<Rightarrow> nat \<Rightarrow> cerr + mem_pool" where
  "mp_free_loop mp p x =
     (if x \<ge> mp_x mp then Inr mp else
      bindr (read_cell (mp_ptr mp) x) (\<lambda>r.
      case r of None \<Rightarrow> Inr mp
      | Some h \<Rightarrow>
          case mp_slot (take (mp_NY mp) h) p of
            Some h' \<Rightarrow> Inr (mp\<lparr>mp_ptr := (mp_ptr mp)[x := Some (Some (h' @ drop (mp_NY mp) h))]\<rparr>)
          | None \<Rightarrow> mp_free_loop mp p (Suc x)))"
  by pat_completeness auto
termination by (relation "measure (\<lambda>(mp, p, x). mp_x mp - x)") auto

declare mp_free_loop.simps [simp del]

definition mp_free :: "mem_pool option \<Rightarrow> obj option \<Rightarrow> cerr + mem_pool option" where
  "mp_free mpo po =
     (case (mpo, po) of
        (Some mp, Some p) \<Rightarrow> bindr (mp_free_loop mp p 0) (\<lambda>mp'. Inr (Some mp'))
      | _ \<Rightarrow> Inr mpo)"

text \<open>\<open>mp_destroy\<close> gives back the rows it visits; the result lists the blocks passed to \<open>free\<close>, by
  their row number (a null row is no block).\<close>

fun mp_free_rows :: "mp_hdr option option list \<Rightarrow> nat \<Rightarrow> nat \<Rightarrow> cerr + nat list" where
  "mp_free_rows t x 0 = Inr []"
| "mp_free_rows t x (Suc k) =
     bindr (read_cell t x) (\<lambda>r. bindr (mp_free_rows t (Suc x) k) (\<lambda>xs.
     Inr (if r = None then xs else x # xs)))"

definition mp_destroy :: "mem_pool option \<Rightarrow> cerr + nat list" where
  "mp_destroy mpo =
     (case mpo of None \<Rightarrow> Inr [] | Some mp \<Rightarrow> mp_free_rows (mp_ptr mp) 0 (mp_x mp))"

subsection \<open>The pool invariant\<close>

definition mp_rowsz :: "mem_pool \<Rightarrow> nat" where
  "mp_rowsz mp = mp_NY mp * 8 + mp_NY mp * mp_NOBJ mp"

definition mp_hdr_ok :: "nat \<Rightarrow> nat \<Rightarrow> nat \<Rightarrow> mp_hdr \<Rightarrow> bool" where
  "mp_hdr_ok ny nobj i h \<longleftrightarrow> length h = ny \<and> (\<forall>k<ny. h ! k = None \<or> h ! k = Some (i, ny * 8 + nobj * k))"

definition mp_tab_ok :: "nat \<Rightarrow> nat \<Rightarrow> nat \<Rightarrow> mp_hdr option option list \<Rightarrow> bool" where
  "mp_tab_ok ny nobj n t \<longleftrightarrow> (\<forall>i<length t. if i < n
     then \<exists>h. t ! i = Some (Some h) \<and> mp_hdr_ok ny nobj i h else t ! i = Some None)"

text \<open>\<open>n\<close> rows are allocated and accounted for.\<close>

definition mp_ok :: "nat \<Rightarrow> mem_pool \<Rightarrow> bool" where
  "mp_ok n mp \<longleftrightarrow> length (mp_ptr mp) = mp_NX mp \<and> n \<le> mp_NX mp \<and> mp_x mp < mp_NX mp \<and> mp_y mp < mp_NY mp \<and>
     1 \<le> mp_NOBJ mp \<and> mp_rowsz mp < 2 ^ 31 \<and> mp_tab_ok (mp_NY mp) (mp_NOBJ mp) n (mp_ptr mp) \<and>
     mp_memused mp = 40 + mp_NX mp * 8 + n * mp_rowsz mp"

definition mp_nrows :: "mem_pool \<Rightarrow> nat" where
  "mp_nrows mp = mp_x mp + (if mp_y mp = 0 then 0 else 1)"

definition mp_inv :: "mem_pool \<Rightarrow> bool" where
  "mp_inv mp \<longleftrightarrow> mp_ok (mp_nrows mp) mp"

definition mp_used :: "mem_pool \<Rightarrow> obj set" where
  "mp_used mp = {(r, mp_NY mp * 8 + mp_NOBJ mp * c) |r c. r < mp_x mp \<and> c < mp_NY mp \<or> r = mp_x mp \<and> c < mp_y mp}"

abbreviation mp_same :: "mem_pool \<Rightarrow> mem_pool \<Rightarrow> bool" where
  "mp_same mp mp' \<equiv> mp_x mp' = mp_x mp \<and> mp_y mp' = mp_y mp \<and> mp_NY mp' = mp_NY mp \<and> mp_NOBJ mp' = mp_NOBJ mp"

lemma mp_rowsz_same: "mp_same mp mp' \<Longrightarrow> mp_rowsz mp' = mp_rowsz mp"
  by (simp add: mp_rowsz_def)

lemma mp_tab_ok_append: "mp_tab_ok ny nobj n t \<Longrightarrow> n \<le> length t \<Longrightarrow>
    mp_tab_ok ny nobj n (t @ replicate k (Some None))"
  by (auto simp: mp_tab_ok_def nth_append)

lemma mp_tab_ok_row: "mp_tab_ok ny nobj n t \<Longrightarrow> i < length t \<Longrightarrow> i < n \<Longrightarrow>
    \<exists>h. t ! i = Some (Some h) \<and> mp_hdr_ok ny nobj i h"
  by (auto simp: mp_tab_ok_def)

lemma mp_tab_ok_new: "mp_tab_ok ny nobj n t \<Longrightarrow> i < length t \<Longrightarrow> \<not> i < n \<Longrightarrow> t ! i = Some None"
  by (auto simp: mp_tab_ok_def)

lemma mp_tab_ok_set: "mp_tab_ok ny nobj n t \<Longrightarrow> i < length t \<Longrightarrow> mp_hdr_ok ny nobj i h \<Longrightarrow>
    i = n \<and> n' = Suc n \<or> i < n \<and> n' = n \<Longrightarrow> mp_tab_ok ny nobj n' (t[i := Some (Some h)])"
  by (auto simp: mp_tab_ok_def nth_list_update less_Suc_eq)

lemma mp_grow_ok:
  assumes "mp_ok n mp" "mp_x mp < 2 ^ 30 - 1"
  shows "\<exists>mp'. mp_grow True mp = Inr (True, mp') \<and> mp_ok n mp' \<and> Suc (mp_x mp') < mp_NX mp' \<and> mp_same mp mp'"
proof (cases "mp_x mp = mp_NX mp - 1")
  case False
  with assms show ?thesis by (auto simp: mp_grow_def mp_ok_def)
next
  case True
  let ?mp = "mp\<lparr>mp_ptr := mp_ptr mp @ replicate (mp_NX mp) (Some None),
    mp_memused := mp_memused mp + mp_NX mp * 8, mp_NX := mp_NX mp * 2\<rparr>"
  have nx: "mp_NX mp * 2 < 2 ^ 31" "0 < mp_NX mp" using True assms by (auto simp: mp_ok_def)
  then have "mp_grow True mp = Inr (True, ?mp)"
    using True assms(1) by (simp add: mp_grow_def imul_def realloc_rows_def mp_ok_def)
  moreover have "mp_ok n ?mp"
    using assms(1) mp_tab_ok_append [of "mp_NY mp" "mp_NOBJ mp" n "mp_ptr mp" "mp_NX mp"]
    by (simp add: mp_ok_def mp_rowsz_def)
  ultimately show ?thesis using True nx by auto
qed

lemma mp_row_ok:
  assumes ok: "mp_ok n mp" and n: "n = mp_x mp \<or> n = Suc (mp_x mp)"
  shows "\<exists>h mp'. mp_row True mp = Inr (Some h, mp') \<and> mp_ok (Suc (mp_x mp)) mp' \<and>
    mp_hdr_ok (mp_NY mp) (mp_NOBJ mp) (mp_x mp) h \<and> mp_same mp mp' \<and> mp_NX mp' = mp_NX mp"
proof -
  have hdr: "imul (mp_NY mp) 8 = Inr (mp_NY mp * 8)"
    using ok by (simp add: imul_def mp_ok_def mp_rowsz_def)
  have x: "mp_x mp < length (mp_ptr mp)" and tab: "mp_tab_ok (mp_NY mp) (mp_NOBJ mp) n (mp_ptr mp)"
    using ok by (auto simp: mp_ok_def)
  show ?thesis
  proof (cases "n = mp_x mp")
    case False
    then obtain h where h: "mp_ptr mp ! mp_x mp = Some (Some h)" "mp_hdr_ok (mp_NY mp) (mp_NOBJ mp) (mp_x mp) h"
      using mp_tab_ok_row [OF tab x] n by auto
    then show ?thesis using ok n False x by (simp add: mp_row_def hdr mem_simps)
  next
    case True
    let ?h = "replicate (mp_NY mp) (None :: obj option)"
    let ?mp = "mp\<lparr>mp_ptr := (mp_ptr mp)[mp_x mp := Some (Some ?h)], mp_memused := mp_memused mp + mp_rowsz mp\<rparr>"
    have new: "mp_ptr mp ! mp_x mp = Some None" using mp_tab_ok_new [OF tab x] True by simp
    have "mp_row True mp = Inr (Some ?h, ?mp)"
      using ok x new by (simp add: mp_row_def hdr mem_simps imul_def iadd_def mp_ok_def mp_rowsz_def Let_def)
    moreover have hok: "mp_hdr_ok (mp_NY mp) (mp_NOBJ mp) (mp_x mp) ?h" by (simp add: mp_hdr_ok_def)
    moreover have "mp_ok (Suc (mp_x mp)) ?mp"
      using ok x True mp_tab_ok_set [OF tab x hok, of "Suc n"] by (simp add: mp_ok_def mp_rowsz_def)
    ultimately show ?thesis by simp
  qed
qed

lemma mp_used_step: "y < ny \<Longrightarrow>
    {(r, ny * 8 + nobj * c) |r c. r < x \<and> c < ny \<or> r = x \<and> c < Suc y} =
    insert (x, ny * 8 + nobj * y) {(r, ny * 8 + nobj * c :: nat) |r c. r < (x::nat) \<and> c < (ny::nat) \<or> r = x \<and> c < y}"
  by (auto simp: less_Suc_eq)

lemma mp_take_ok:
  assumes ok: "mp_ok (Suc (mp_x mp)) mp" and h: "mp_hdr_ok (mp_NY mp) (mp_NOBJ mp) (mp_x mp) h"
    and nx: "Suc (mp_x mp) < mp_NX mp"
  shows "\<exists>a mp'. mp_take h mp = Inr (a, mp') \<and> mp_inv mp' \<and> a \<notin> mp_used mp \<and>
    mp_used mp' = insert a (mp_used mp) \<and> mp_NY mp' = mp_NY mp \<and> mp_NOBJ mp' = mp_NOBJ mp \<and> mp_x mp' \<le> Suc (mp_x mp)"
proof -
  let ?a = "(mp_x mp, mp_NY mp * 8 + mp_NOBJ mp * mp_y mp)"
  let ?t = "(mp_ptr mp)[mp_x mp := Some (Some (h[mp_y mp := Some ?a]))]"
  let ?mp = "mp\<lparr>mp_ptr := ?t, mp_y := Suc (mp_y mp)\<rparr>"
  let ?mp' = "if Suc (mp_y mp) = mp_NY mp then ?mp\<lparr>mp_x := Suc (mp_x mp), mp_y := 0\<rparr> else ?mp"
  have b: "mp_x mp < length (mp_ptr mp)" "mp_y mp < mp_NY mp" "1 \<le> mp_NOBJ mp" "length h = mp_NY mp"
    "mp_tab_ok (mp_NY mp) (mp_NOBJ mp) (Suc (mp_x mp)) (mp_ptr mp)"
    using ok h by (auto simp: mp_ok_def mp_hdr_ok_def)
  have "mp_NOBJ mp * mp_y mp \<le> mp_NOBJ mp * mp_NY mp" using b(2) by (intro mult_left_mono) auto
  moreover have "mp_NOBJ mp * mp_NY mp < 2 ^ 31" using ok by (simp add: mp_ok_def mp_rowsz_def mult.commute)
  ultimately have d: "imul (mp_NOBJ mp) (mp_y mp) = Inr (mp_NOBJ mp * mp_y mp)"
    unfolding imul_def by (simp only: if_True order.strict_trans1)
  have run: "mp_take h mp = Inr (?a, ?mp')" using b d by (simp add: mp_take_def Let_def mem_simps)
  have hok: "mp_hdr_ok (mp_NY mp) (mp_NOBJ mp) (mp_x mp) (h[mp_y mp := Some ?a])"
    using h b(2) by (auto simp: mp_hdr_ok_def nth_list_update)
  have tab: "mp_tab_ok (mp_NY mp) (mp_NOBJ mp) (Suc (mp_x mp)) ?t"
    by (rule mp_tab_ok_set [OF b(5) b(1) hok]) simp
  have inv: "mp_inv ?mp'"
    using ok tab b nx by (auto simp: mp_inv_def mp_ok_def mp_nrows_def mp_rowsz_def)
  have fresh: "?a \<notin> mp_used mp" using b(3) by (auto simp: mp_used_def)
  have "mp_used ?mp' = insert ?a (mp_used mp)"
  proof (cases "Suc (mp_y mp) = mp_NY mp")
    case True
    have "mp_used ?mp' = {(r, mp_NY mp * 8 + mp_NOBJ mp * c) |r c. r < mp_x mp \<and> c < mp_NY mp \<or> r = mp_x mp \<and> c < Suc (mp_y mp)}"
      using True by (auto simp: mp_used_def less_Suc_eq)
    then show ?thesis using mp_used_step [OF b(2), of "mp_NOBJ mp" "mp_x mp"] by (simp add: mp_used_def)
  next
    case False
    then show ?thesis using mp_used_step [OF b(2), of "mp_NOBJ mp" "mp_x mp"] by (simp add: mp_used_def)
  qed
  with run inv fresh show ?thesis by auto
qed

text \<open>An allocation by a client that holds the pool.\<close>

definition mp_new :: "mem_pool \<Rightarrow> cerr + obj \<times> mem_pool" where
  "mp_new mp = bindr (mp_alloc True (Some mp)) (\<lambda>(a, m). bindr (deref a) (\<lambda>a. bindr (deref m) (\<lambda>m. Inr (a, m))))"

definition mp_pinv :: "nat \<Rightarrow> nat \<Rightarrow> mem_pool \<Rightarrow> bool" where
  "mp_pinv ny nobj mp \<longleftrightarrow> mp_inv mp \<and> mp_NY mp = ny \<and> mp_NOBJ mp = nobj"

lemma mp_new_law:
  assumes inv: "mp_inv mp" and x: "mp_x mp < 2 ^ 30 - 1"
  shows "\<exists>a mp'. mp_new mp = Inr (a, mp') \<and> mp_inv mp' \<and> a \<notin> mp_used mp \<and> mp_used mp' = insert a (mp_used mp) \<and>
    mp_NY mp' = mp_NY mp \<and> mp_NOBJ mp' = mp_NOBJ mp \<and> mp_x mp' \<le> Suc (mp_x mp)"
proof -
  obtain m1 where m1: "mp_grow True mp = Inr (True, m1)" "mp_ok (mp_nrows mp) m1" "Suc (mp_x m1) < mp_NX m1" "mp_same mp m1"
    using mp_grow_ok [OF inv [unfolded mp_inv_def] x] by blast
  have "mp_nrows mp = mp_x m1 \<or> mp_nrows mp = Suc (mp_x m1)" using m1(4) by (simp add: mp_nrows_def)
  from mp_row_ok [OF m1(2) this] obtain h m2 where m2: "mp_row True m1 = Inr (Some h, m2)"
    "mp_ok (Suc (mp_x m2)) m2" "mp_hdr_ok (mp_NY m2) (mp_NOBJ m2) (mp_x m2) h" "mp_same m1 m2" "mp_NX m2 = mp_NX m1"
    by auto
  have "Suc (mp_x m2) < mp_NX m2" using m1(3) m2(4,5) by simp
  from mp_take_ok [OF m2(2,3) this] obtain a m3 where m3: "mp_take h m2 = Inr (a, m3)" "mp_inv m3" "a \<notin> mp_used m2"
    "mp_used m3 = insert a (mp_used m2)" "mp_NY m3 = mp_NY m2" "mp_NOBJ m3 = mp_NOBJ m2" "mp_x m3 \<le> Suc (mp_x m2)" by blast
  have same: "mp_used m2 = mp_used mp" using m1(4) m2(4) by (simp add: mp_used_def)
  have "mp_new mp = Inr (a, m3)" by (simp add: mp_new_def mp_alloc_def m1 m2 m3)
  then show ?thesis using m1(4) m2(4) m3 same by (intro exI [of _ a] exI [of _ m3]) simp
qed

interpretation mem_pool: fresh_alloc "mp_pinv ny nobj" mp_used "\<lambda>mp. 2 ^ 30 - 1 - mp_x mp" mp_new for ny nobj
proof
  fix mp assume "mp_pinv ny nobj mp" and b: "0 < 2 ^ 30 - 1 - mp_x mp"
  then show "\<exists>a s'. mp_new mp = Inr (a, s') \<and> mp_pinv ny nobj s' \<and> a \<notin> mp_used mp \<and>
      mp_used s' = insert a (mp_used mp) \<and> 2 ^ 30 - 1 - mp_x mp \<le> Suc (2 ^ 30 - 1 - mp_x s')"
    using mp_new_law [of mp] by (fastforce simp: mp_pinv_def)
qed

lemma mp_create_inv:
  assumes "0 < objsize" "0 < y" "y * 8 + y * objsize < 2 ^ 31"
  shows "\<exists>mp. mp_create True objsize y = Inr (Some mp) \<and> mp_pinv (nat y) (nat objsize) mp \<and> mp_used mp = {} \<and> mp_x mp = 0"
proof -
  have e: "int (nat y * 8 + nat y * nat objsize) = y * 8 + y * objsize" using assms(1,2) by simp
  have "nat y * 8 + nat y * nat objsize < 2 ^ 31"
    unfolding of_nat_less_iff [where 'a = int, symmetric] e using assms(3) by simp
  then show ?thesis
    using assms by (simp add: mp_create_def mp_pinv_def mp_inv_def mp_ok_def mp_nrows_def mp_rowsz_def mp_tab_ok_def mp_used_def)
qed

text \<open>Distinct cells of a fixed size behind a header never overlap.\<close>

lemma stride_step: "c < d \<Longrightarrow> b * c + b \<le> b * (d :: nat)"
  by (metis Suc_leI mult_Suc_right mult_le_mono2 add.commute)

lemma stride_disjoint:
  assumes d: "distinct as" and cell: "\<And>i. i < length as \<Longrightarrow> \<exists>c<k. snd (as ! i) = h + b * c"
    and ij: "i < length as" "j < length as" "i \<noteq> j" "fst (as ! i) = fst (as ! j)"
  shows "snd (as ! i) + b \<le> snd (as ! j) \<or> snd (as ! j) + b \<le> (snd (as ! i) :: nat)"
proof -
  obtain c c' where c: "snd (as ! i) = h + b * c" "snd (as ! j) = h + b * c'"
    using cell [OF ij(1)] cell [OF ij(2)] by blast
  have "c \<noteq> c'"
  proof
    assume "c = c'"
    with c ij(4) have "as ! i = as ! j" by (simp add: prod_eq_iff)
    with ij d show False by (simp add: nth_eq_iff_index_eq)
  qed
  with c show ?thesis using stride_step [of c c' b] stride_step [of c' c b] by (cases "c < c'") auto
qed

text \<open>C5: A fresh pool of \<open>y\<close> objects of \<open>objsize\<close> bytes per row serves any number of allocations
  below the 32-bit limit on the row count (the system allocator willing): the addresses are
  distinct, each object lies behind the header and inside its row, two objects of a row never
  overlap, and \<open>memused\<close> is the exact number of bytes allocated.\<close>

theorem mp_alloc_disjoint:
  assumes "0 < objsize" "0 < y" "y * 8 + y * objsize < 2 ^ 31" "n < 2 ^ 30"
  shows "\<exists>mp as mp'. mp_create True objsize y = Inr (Some mp) \<and> alloc_many mp_new n mp = Inr (as, mp') \<and>
    length as = n \<and>
    (\<forall>i < n. nat y * 8 \<le> snd (as ! i) \<and> snd (as ! i) + nat objsize \<le> mp_rowsz mp') \<and>
    (\<forall>i < n. \<forall>j < n. i \<noteq> j \<longrightarrow> fst (as ! i) = fst (as ! j) \<longrightarrow>
       snd (as ! i) + nat objsize \<le> snd (as ! j) \<or> snd (as ! j) + nat objsize \<le> snd (as ! i)) \<and>
    mp_memused mp' = 40 + mp_NX mp' * 8 + mp_nrows mp' * mp_rowsz mp'"
proof -
  obtain mp where mp: "mp_create True objsize y = Inr (Some mp)" "mp_pinv (nat y) (nat objsize) mp" "mp_used mp = {}" "mp_x mp = 0"
    using mp_create_inv [OF assms(1-3)] by blast
  have "n \<le> 2 ^ 30 - 1 - mp_x mp" using assms(4) mp(4) by simp
  from mem_pool.alloc_many_distinct [OF mp(2) this] obtain as mp' where as: "alloc_many mp_new n mp = Inr (as, mp')"
    "mp_pinv (nat y) (nat objsize) mp'" "length as = n" "distinct as" "mp_used mp' = set as" using mp(3) by auto
  have ny: "mp_NY mp' = nat y" "mp_NOBJ mp' = nat objsize" "mp_inv mp'" using as(2) by (auto simp: mp_pinv_def)
  have cell: "\<exists>c < nat y. snd (as ! i) = nat y * 8 + nat objsize * c" if "i < n" for i
  proof -
    have "as ! i \<in> mp_used mp'" using that as(3,5) by simp
    then have "\<exists>r c. as ! i = (r, nat y * 8 + nat objsize * c) \<and> (r < mp_x mp' \<and> c < nat y \<or> r = mp_x mp' \<and> c < mp_y mp')"
      using ny by (simp add: mp_used_def)
    then obtain r c where c: "as ! i = (r, nat y * 8 + nat objsize * c)" "c < nat y \<or> c < mp_y mp'" by blast
    moreover have "mp_y mp' < nat y" using ny by (simp add: mp_inv_def mp_ok_def)
    ultimately show ?thesis by (intro exI [of _ c]) auto
  qed
  show ?thesis
  proof (intro exI conjI allI impI)
    fix i assume i: "i < n"
    from cell [OF i] obtain c where c: "c < nat y" "snd (as ! i) = nat y * 8 + nat objsize * c" by blast
    show "nat y * 8 \<le> snd (as ! i)" using c by simp
    show "snd (as ! i) + nat objsize \<le> mp_rowsz mp'"
      using c stride_step [OF c(1), of "nat objsize"] ny by (simp add: mp_rowsz_def mult.commute)
  next
    fix i j assume "i < n" "j < n" "i \<noteq> j" "fst (as ! i) = fst (as ! j)"
    then show "snd (as ! i) + nat objsize \<le> snd (as ! j) \<or> snd (as ! j) + nat objsize \<le> snd (as ! i)"
      using as(3) by (intro stride_disjoint [OF as(4)]) (auto intro: cell)
  next
    show "mp_memused mp' = 40 + mp_NX mp' * 8 + mp_nrows mp' * mp_rowsz mp'"
      using ny(3) by (simp add: mp_inv_def mp_ok_def)
  qed (use mp as in auto)
qed

theorem mp_alloc_disjoint_witness:
  "\<exists>mp as mp'. mp_create True 544 50 = Inr (Some mp) \<and> alloc_many mp_new 120 mp = Inr (as, mp') \<and>
    length as = 120 \<and>
    (\<forall>i < 120. nat 50 * 8 \<le> snd (as ! i) \<and> snd (as ! i) + nat 544 \<le> mp_rowsz mp') \<and>
    (\<forall>i < 120. \<forall>j < 120. i \<noteq> j \<longrightarrow> fst (as ! i) = fst (as ! j) \<longrightarrow>
       snd (as ! i) + nat 544 \<le> snd (as ! j) \<or> snd (as ! j) + nat 544 \<le> snd (as ! i)) \<and>
    mp_memused mp' = 40 + mp_NX mp' * 8 + mp_nrows mp' * mp_rowsz mp'"
  by (rule mp_alloc_disjoint) simp_all

subsection \<open>Freeing\<close>

definition mp_live :: "mem_pool \<Rightarrow> obj set" where
  "mp_live mp = {a. \<exists>i h k. i < length (mp_ptr mp) \<and> mp_ptr mp ! i = Some (Some h) \<and> k < length h \<and> h ! k = Some a}"

lemma mp_liveI: "i < length (mp_ptr mp) \<Longrightarrow> mp_ptr mp ! i = Some (Some h) \<Longrightarrow> k < length h \<Longrightarrow> h ! k = Some a \<Longrightarrow>
    a \<in> mp_live mp"
  by (auto simp: mp_live_def)

lemma mp_slot_None: "mp_slot h p = None \<longleftrightarrow> Some p \<notin> set h"
  by (induction h) auto

lemma mp_slot_Some: "mp_slot h p = Some h' \<Longrightarrow> \<exists>k<length h. h ! k = Some p \<and> h' = h[k := None]"
proof (induction h arbitrary: h')
  case (Cons c h)
  show ?case
  proof (cases "c = Some p")
    case True
    with Cons.prems show ?thesis by (auto intro!: exI [of _ 0])
  next
    case False
    with Cons.prems obtain h1 where h1: "mp_slot h p = Some h1" "h' = c # h1" by auto
    from Cons.IH [OF h1(1)] obtain k where "k < length h" "h ! k = Some p" "h1 = h[k := None]" by blast
    with h1(2) show ?thesis by (auto intro!: exI [of _ "Suc k"])
  qed
qed simp

lemma mp_hdr_ok_row: "mp_hdr_ok ny nobj i h \<Longrightarrow> Some p \<in> set h \<Longrightarrow> fst p = i"
  by (fastforce simp: mp_hdr_ok_def in_set_conv_nth)

lemma mp_hdr_ok_inj:
  assumes "mp_hdr_ok ny nobj i h" "1 \<le> nobj" "h ! k = Some a" "h ! k' = Some a" "k < length h" "k' < length h"
  shows "k = k'"
proof -
  have "a = (i, ny * 8 + nobj * k)" "a = (i, ny * 8 + nobj * k')" using assms by (auto simp: mp_hdr_ok_def)
  then show ?thesis using assms(2) by auto
qed

lemma mp_free_row:
  assumes inv: "mp_inv mp" and r: "r < mp_x mp" and row: "mp_ptr mp ! r = Some (Some h)"
    and k: "k < length h" "h ! k = Some p"
  defines "mp' \<equiv> mp\<lparr>mp_ptr := (mp_ptr mp)[r := Some (Some (h[k := None]))]\<rparr>"
  shows "mp_inv mp' \<and> mp_used mp' = mp_used mp \<and> mp_live mp' = mp_live mp - {p}"
proof -
  have t: "mp_tab_ok (mp_NY mp) (mp_NOBJ mp) (mp_nrows mp) (mp_ptr mp)" and rl: "r < length (mp_ptr mp)" "r < mp_nrows mp"
    and nobj: "1 \<le> mp_NOBJ mp"
    using inv r by (auto simp: mp_inv_def mp_ok_def mp_nrows_def)
  have h: "mp_hdr_ok (mp_NY mp) (mp_NOBJ mp) r h" using mp_tab_ok_row [OF t rl] row by auto
  then have h': "mp_hdr_ok (mp_NY mp) (mp_NOBJ mp) r (h[k := None])"
    using k(1) by (auto simp: mp_hdr_ok_def nth_list_update)
  have "mp_tab_ok (mp_NY mp) (mp_NOBJ mp) (mp_nrows mp) (mp_ptr mp')"
    using mp_tab_ok_set [OF t rl(1) h'] rl(2) by (simp add: mp'_def)
  then have inv': "mp_inv mp'"
    using inv by (simp add: mp_inv_def mp_ok_def mp_nrows_def mp_rowsz_def mp'_def)
  have hdrs: "mp_hdr_ok (mp_NY mp) (mp_NOBJ mp) i g" if "i < length (mp_ptr mp)" "mp_ptr mp ! i = Some (Some g)" for i g
    using t that by (auto simp: mp_tab_ok_def split: if_splits)
  have one: "i = r \<and> j = k" if "i < length (mp_ptr mp)" "mp_ptr mp ! i = Some (Some g)" "j < length g" "g ! j = Some p" for i g j
  proof -
    have "i = fst p" using mp_hdr_ok_row [OF hdrs [OF that(1,2)]] that(3,4) nth_mem by metis
    moreover have "r = fst p" using mp_hdr_ok_row [OF h] k nth_mem by metis
    ultimately have "i = r" "g = h" using that(2) row by auto
    then show ?thesis using mp_hdr_ok_inj [OF h nobj] that k by auto
  qed
  have "mp_live mp' = mp_live mp - {p}"
  proof (rule set_eqI)
    fix a
    show "a \<in> mp_live mp' \<longleftrightarrow> a \<in> mp_live mp - {p}"
    proof
      assume "a \<in> mp_live mp'"
      then obtain i g j where g: "i < length (mp_ptr mp)" "mp_ptr mp' ! i = Some (Some g)" "j < length g" "g ! j = Some a"
        by (auto simp: mp_live_def mp'_def)
      show "a \<in> mp_live mp - {p}"
      proof (cases "i = r")
        case True
        with g rl have "g = h[k := None]" "j \<noteq> k" by (auto simp: mp'_def)
        with g True row one [OF rl(1) row, of j] show ?thesis by (auto simp: mp_live_def)
      next
        case False
        with g have gi: "mp_ptr mp ! i = Some (Some g)" by (simp add: mp'_def)
        with g False one [OF g(1) gi g(3)] show ?thesis by (auto simp: mp_live_def)
      qed
    next
      assume "a \<in> mp_live mp - {p}"
      then obtain i g j where g: "i < length (mp_ptr mp)" "mp_ptr mp ! i = Some (Some g)" "j < length g" "g ! j = Some a" "a \<noteq> p"
        by (auto simp: mp_live_def)
      show "a \<in> mp_live mp'"
      proof (cases "i = r")
        case True
        then have "g = h" "j \<noteq> k" using g row k by auto
        then have "j < length (h[k := None])" "h[k := None] ! j = Some a" using g by auto
        then show ?thesis using rl(1) mp_liveI [of r mp' "h[k := None]" j a] by (simp add: mp'_def)
      next
        case False
        then have "mp_ptr mp' ! i = Some (Some g)" using g by (simp add: mp'_def)
        then show ?thesis using g mp_liveI [of i mp' g j a] by (simp add: mp'_def)
      qed
    qed
  qed
  with inv' show ?thesis by (simp add: mp_used_def mp'_def)
qed

lemma mp_free_loop_spec:
  assumes "mp_inv mp" "\<And>i h. i < x \<Longrightarrow> mp_ptr mp ! i = Some (Some h) \<Longrightarrow> Some p \<notin> set h" "x \<le> mp_x mp"
  shows "\<exists>mp'. mp_free_loop mp p x = Inr mp' \<and> mp_inv mp' \<and> mp_used mp' = mp_used mp \<and> mp_x mp' = mp_x mp \<and>
    (mp_live mp' = mp_live mp - {p} \<or>
     mp' = mp \<and> (\<forall>i h. i < mp_x mp \<longrightarrow> mp_ptr mp ! i = Some (Some h) \<longrightarrow> Some p \<notin> set h))"
  using assms
proof (induction mp p x rule: mp_free_loop.induct)
  case (1 mp p x)
  note inv = 1(2) and before = 1(3) and le = 1(4)
  show ?case
  proof (cases "x \<ge> mp_x mp")
    case True
    then have "mp_free_loop mp p x = Inr mp" by (subst mp_free_loop.simps) simp
    moreover have "Some p \<notin> set h" if "i < mp_x mp" "mp_ptr mp ! i = Some (Some h)" for i h
      using before [OF _ that(2)] that(1) True by simp
    ultimately show ?thesis using inv by blast
  next
    case False
    then have x: "x < length (mp_ptr mp)" "x < mp_nrows mp" and t: "mp_tab_ok (mp_NY mp) (mp_NOBJ mp) (mp_nrows mp) (mp_ptr mp)"
      using inv by (auto simp: mp_inv_def mp_ok_def mp_nrows_def)
    from mp_tab_ok_row [OF t x] obtain h where h: "mp_ptr mp ! x = Some (Some h)" "mp_hdr_ok (mp_NY mp) (mp_NOBJ mp) x h" by blast
    then have len: "length h = mp_NY mp" by (simp add: mp_hdr_ok_def)
    have rd: "read_cell (mp_ptr mp) x = Inr (Some h)" using x h by (simp add: mem_simps)
    show ?thesis
    proof (cases "mp_slot h p")
      case None
      then have run: "mp_free_loop mp p x = mp_free_loop mp p (Suc x)"
        using False rd len by (subst mp_free_loop.simps) simp
      have "Some p \<notin> set g" if "i < Suc x" "mp_ptr mp ! i = Some (Some g)" for i g
        using that before None h by (auto simp: less_Suc_eq mp_slot_None)
      from "1.IH" [OF False rd refl _ inv this] None len False show ?thesis unfolding run by simp
    next
      case (Some h')
      from mp_slot_Some [OF this] obtain k where k: "k < length h" "h ! k = Some p" "h' = h[k := None]" by blast
      have run: "mp_free_loop mp p x = Inr (mp\<lparr>mp_ptr := (mp_ptr mp)[x := Some (Some (h[k := None]))]\<rparr>)"
        using False rd len Some k by (subst mp_free_loop.simps) simp
      show ?thesis using mp_free_row [OF inv _ h(1) k(1,2)] False unfolding run by auto
    qed
  qed
qed

lemma mp_live_row:
  assumes "mp_inv mp" "p \<in> mp_live mp"
  shows "\<exists>h. mp_ptr mp ! fst p = Some (Some h) \<and> Some p \<in> set h"
proof -
  from assms(2) obtain i h k where h: "i < length (mp_ptr mp)" "mp_ptr mp ! i = Some (Some h)" "k < length h" "h ! k = Some p"
    by (auto simp: mp_live_def)
  have "mp_hdr_ok (mp_NY mp) (mp_NOBJ mp) i h"
    using assms(1) h by (auto simp: mp_inv_def mp_ok_def mp_tab_ok_def split: if_splits)
  moreover have "Some p \<in> set h" using h by (metis nth_mem)
  ultimately show ?thesis using h mp_hdr_ok_row by blast
qed

text \<open>\<open>mp_free\<close> always returns and keeps the pool consistent. A live object of a full row is
  taken off its row's header, and no other object is affected; an object of the row still being
  filled is not found, so that freeing it has no effect at all.\<close>

theorem mp_free_effect:
  assumes inv: "mp_inv mp" and p: "p \<in> mp_live mp"
  shows "\<exists>mp'. mp_free (Some mp) (Some p) = Inr (Some mp') \<and> mp_inv mp' \<and> mp_used mp' = mp_used mp \<and>
    (if fst p < mp_x mp then mp_live mp' = mp_live mp - {p} else mp' = mp)"
proof -
  from mp_free_loop_spec [OF inv, of 0 p] obtain mp' where m: "mp_free_loop mp p 0 = Inr mp'" "mp_inv mp'"
    "mp_used mp' = mp_used mp" "mp_live mp' = mp_live mp - {p} \<or>
     mp' = mp \<and> (\<forall>i h. i < mp_x mp \<longrightarrow> mp_ptr mp ! i = Some (Some h) \<longrightarrow> Some p \<notin> set h)" by auto
  obtain h where h: "mp_ptr mp ! fst p = Some (Some h)" "Some p \<in> set h" using mp_live_row [OF inv p] by blast
  have late: "mp_free_loop mp p x = Inr mp" if "\<not> fst p < mp_x mp" "x \<le> mp_x mp" for x
    using that(2)
  proof (induction "mp_x mp - x" arbitrary: x)
    case 0
    then show ?case by (subst mp_free_loop.simps) simp
  next
    case (Suc n)
    then have x: "x < length (mp_ptr mp)" "x < mp_nrows mp" and t: "mp_tab_ok (mp_NY mp) (mp_NOBJ mp) (mp_nrows mp) (mp_ptr mp)"
      using inv by (auto simp: mp_inv_def mp_ok_def mp_nrows_def)
    from mp_tab_ok_row [OF t x] obtain g where g: "mp_ptr mp ! x = Some (Some g)" "mp_hdr_ok (mp_NY mp) (mp_NOBJ mp) x g" by blast
    have "fst p \<noteq> x" using Suc.hyps(2) that(1) by linarith
    then have "mp_slot g p = None" using mp_hdr_ok_row [OF g(2), of p] unfolding mp_slot_None by blast
    moreover have "length g = mp_NY mp" using g(2) by (simp add: mp_hdr_ok_def)
    moreover have "mp_free_loop mp p (Suc x) = Inr mp" using Suc.hyps by auto
    ultimately show ?case using Suc.hyps(2) x g(1) by (subst mp_free_loop.simps) (simp add: mem_simps)
  qed
  have "mp_free (Some mp) (Some p) = Inr (Some mp')" using m(1) by (simp add: mp_free_def)
  moreover have "if fst p < mp_x mp then mp_live mp' = mp_live mp - {p} else mp' = mp"
    using m(1,4) h late [of 0] by auto
  ultimately show ?thesis using m by blast
qed

lemma mp_free_rows_all:
  assumes "mp_inv mp" "x + k \<le> mp_x mp"
  shows "mp_free_rows (mp_ptr mp) x k = Inr [x..<x + k]"
  using assms(2)
proof (induction k arbitrary: x)
  case (Suc k)
  have x: "x < length (mp_ptr mp)" "x < mp_nrows mp" and t: "mp_tab_ok (mp_NY mp) (mp_NOBJ mp) (mp_nrows mp) (mp_ptr mp)"
    using assms(1) Suc.prems by (auto simp: mp_inv_def mp_ok_def mp_nrows_def)
  from mp_tab_ok_row [OF t x] obtain g where "mp_ptr mp ! x = Some (Some g)" by blast
  then show ?case using Suc.IH [of "Suc x"] Suc.prems x by (simp add: mem_simps upt_conv_Cons)
qed simp

text \<open>\<open>mp_destroy\<close> frees exactly the full rows. The rows it leaks are the rows allocated at or
  after the current one: none when the last row was just filled, otherwise the current row.\<close>

theorem mp_destroy_leak:
  assumes "mp_inv mp"
  shows "mp_destroy (Some mp) = Inr [0..<mp_x mp] \<and>
    {i. i < length (mp_ptr mp) \<and> (\<exists>h. mp_ptr mp ! i = Some (Some h))} - set [0..<mp_x mp] =
      (if mp_y mp = 0 then {} else {mp_x mp})"
proof
  show "mp_destroy (Some mp) = Inr [0..<mp_x mp]"
    using mp_free_rows_all [OF assms, of 0 "mp_x mp"] by (simp add: mp_destroy_def)
  have t: "mp_tab_ok (mp_NY mp) (mp_NOBJ mp) (mp_nrows mp) (mp_ptr mp)" "mp_nrows mp \<le> length (mp_ptr mp)"
    using assms by (auto simp: mp_inv_def mp_ok_def)
  have lt: "i < mp_nrows mp" if "i < length (mp_ptr mp)" "mp_ptr mp ! i = Some (Some h)" for i h
    using mp_tab_ok_new [OF t(1) that(1)] that(2) by fastforce
  have gt: "i < length (mp_ptr mp) \<and> (\<exists>h. mp_ptr mp ! i = Some (Some h))" if "i < mp_nrows mp" for i
    using mp_tab_ok_row [OF t(1) _ that] that t(2) by auto
  have eq: "{i. i < length (mp_ptr mp) \<and> (\<exists>h. mp_ptr mp ! i = Some (Some h))} = {..<mp_nrows mp}"
    using lt gt by blast
  show "{i. i < length (mp_ptr mp) \<and> (\<exists>h. mp_ptr mp ! i = Some (Some h))} - set [0..<mp_x mp] =
      (if mp_y mp = 0 then {} else {mp_x mp})"
    unfolding eq by (auto simp: mp_nrows_def)
qed

text \<open>A pool of two objects per row after three allocations: one full row, one partial row.\<close>

definition mp_demo :: mem_pool where
  "mp_demo = \<lparr>mp_ptr = [Some (Some [Some (0, 16), Some (0, 20)]), Some (Some [Some (1, 16), None])] @ replicate 8 (Some None),
     mp_x = 1, mp_y = 1, mp_NX = 10, mp_NY = 2, mp_NOBJ = 4, mp_memused = 168\<rparr>"

lemma mp_demo_inv: "mp_inv mp_demo"
proof -
  have "mp_hdr_ok 2 4 0 [Some (0, 16), Some (0, 20)]" "mp_hdr_ok 2 4 1 [Some (1, 16), None]"
    by (auto simp: mp_hdr_ok_def nth_Cons split: nat.splits)
  then have "mp_tab_ok 2 4 2 (mp_ptr mp_demo)"
    by (auto simp: mp_tab_ok_def mp_demo_def nth_Cons less_Suc_eq split: nat.splits)
  then show ?thesis by (simp add: mp_inv_def mp_ok_def mp_nrows_def mp_rowsz_def) (simp add: mp_demo_def numeral_2_eq_2)
qed

theorem mp_free_effect_witness:
  "\<exists>mp'. mp_free (Some mp_demo) (Some (0, 20)) = Inr (Some mp') \<and> mp_inv mp' \<and> mp_used mp' = mp_used mp_demo \<and>
    (if fst (0 :: nat, 20 :: nat) < mp_x mp_demo then mp_live mp' = mp_live mp_demo - {(0, 20)} else mp' = mp_demo)"
  by (rule mp_free_effect [OF mp_demo_inv], rule mp_liveI [of 0 _ "[Some (0, 16), Some (0, 20)]" 1])
    (simp_all add: mp_demo_def)

theorem mp_destroy_leak_witness:
  "mp_destroy (Some mp_demo) = Inr [0..<mp_x mp_demo] \<and>
    {i. i < length (mp_ptr mp_demo) \<and> (\<exists>h. mp_ptr mp_demo ! i = Some (Some h))} - set [0..<mp_x mp_demo] =
      (if mp_y mp_demo = 0 then {} else {mp_x mp_demo})"
  by (rule mp_destroy_leak [OF mp_demo_inv])

section \<open>mmpool\<close>

record mmpool =
  mmp_ptr :: rowtab
  mmp_x :: nat
  mmp_y :: nat
  mmp_X :: nat
  mmp_Y :: nat
  obj_size :: nat
  stat_memused :: nat

text \<open>\<open>page_size\<close> is the system's page size. The quotient \<open>factor * page_size / (objsize * 10.0)\<close> is
  computed in \<open>double\<close> and truncated after 2 is taken off; what is below 2 becomes 2, so the integer
  quotient gives the same \<open>Y\<close>.\<close>

definition mmp_factor :: "int \<Rightarrow> nat" where
  "mmp_factor factor = (if \<not> (factor \<ge> 1 \<and> factor \<le> 10) then 5 else nat factor)"

definition mmp_cols :: "nat \<Rightarrow> nat \<Rightarrow> nat \<Rightarrow> nat" where
  "mmp_cols page_size factor objsize =
     (let y = int ((factor * page_size) div (objsize * 10)) - 2 in if y \<le> 1 then 2 else nat y)"

definition mmp_create :: "bool \<Rightarrow> nat \<Rightarrow> int \<Rightarrow> int \<Rightarrow> mmpool option" where
  "mmp_create ok page_size objsize factor =
     (if objsize \<le> 0 then None else
      let factor = mmp_factor factor; sz = nat objsize; l = log2_floor sz;
          m = factor * (if l < 8 then 8 else l) in
      if \<not> ok then None else
      Some \<lparr>mmp_ptr = replicate m (Some False), mmp_x = 0, mmp_y = 0, mmp_X = m,
        mmp_Y = mmp_cols page_size factor sz, obj_size = sz, stat_memused = 40 + m * 8\<rparr>)"

definition mmp_wrap :: "mmpool \<Rightarrow> mmpool" where
  "mmp_wrap mp = (if Suc (mmp_y mp) = mmp_Y mp then mp\<lparr>mmp_x := Suc (mmp_x mp), mmp_y := 0\<rparr> else mp)"

definition mmp_grow :: "bool \<Rightarrow> mmpool \<Rightarrow> cerr + bool \<times> mmpool" where
  "mmp_grow ok mp =
     (if Suc (mmp_x mp) = mmp_X mp then
        bindr (imul (mmp_X mp) 2) (\<lambda>m.
        if \<not> ok then Inr (False, mp\<lparr>mmp_ptr := []\<rparr>) else
        Inr (True, mp\<lparr>mmp_ptr := take (mmp_X mp) (realloc_rows (mmp_ptr mp) m) @ replicate (mmp_X mp) (Some False),
          stat_memused := stat_memused mp + mmp_X mp * 8, mmp_X := m\<rparr>))
      else Inr (True, mp))"

definition mmp_row :: "bool \<Rightarrow> mmpool \<Rightarrow> cerr + bool \<times> mmpool" where
  "mmp_row ok mp =
     bindr (read_cell (mmp_ptr mp) (mmp_x mp)) (\<lambda>r.
     if r then Inr (True, mp) else
     bindr (imul (mmp_Y mp) (obj_size mp)) (\<lambda>b. bindr (iadd (mmp_Y mp) b) (\<lambda>sz.
     bindr (store (mmp_ptr mp) (mmp_x mp) (Some ok)) (\<lambda>t.
     if \<not> ok then Inr (False, mp\<lparr>mmp_ptr := t\<rparr>) else
     Inr (True, mp\<lparr>mmp_ptr := t, stat_memused := stat_memused mp + sz\<rparr>)))))"

definition mmp_alloc :: "bool \<Rightarrow> mmpool option \<Rightarrow> cerr + obj option \<times> mmpool option" where
  "mmp_alloc ok mpo =
     (case mpo of None \<Rightarrow> Inr (None, None)
      | Some mp0 \<Rightarrow>
          bindr (mmp_grow ok (mmp_wrap mp0)) (\<lambda>(c, mp1).
          if \<not> c then Inr (None, Some mp1) else
          bindr (mmp_row ok mp1) (\<lambda>(c, mp2).
          if \<not> c then Inr (None, Some mp2) else
          bindr (imul (obj_size mp2) (mmp_y mp2)) (\<lambda>d.
          Inr (Some (mmp_x mp2, mmp_Y mp2 + d), Some (mp2\<lparr>mmp_y := Suc (mmp_y mp2)\<rparr>))))))"

definition mmp_free :: "obj \<Rightarrow> mmpool \<Rightarrow> mmpool" where
  "mmp_free p mp = mp"

fun mmp_free_rows :: "rowtab \<Rightarrow> nat \<Rightarrow> nat \<Rightarrow> cerr + nat list" where
  "mmp_free_rows t x 0 = Inr []"
| "mmp_free_rows t x (Suc k) =
     bindr (read_cell t x) (\<lambda>r. bindr (mmp_free_rows t (Suc x) k) (\<lambda>xs. Inr (if r then x # xs else xs)))"

definition mmp_destroy :: "mmpool option \<Rightarrow> cerr + nat list" where
  "mmp_destroy mpo =
     (case mpo of None \<Rightarrow> Inr [] | Some mp \<Rightarrow>
      if mmp_ptr mp = [] then Inr [] else mmp_free_rows (mmp_ptr mp) 0 (mmp_x mp))"

subsection \<open>The pool invariant\<close>

definition mmp_rowsz :: "mmpool \<Rightarrow> nat" where
  "mmp_rowsz mp = mmp_Y mp + mmp_Y mp * obj_size mp"

definition mmp_tab_ok :: "nat \<Rightarrow> rowtab \<Rightarrow> bool" where
  "mmp_tab_ok n t \<longleftrightarrow> (\<forall>i<length t. t ! i = Some (i < n))"

definition mmp_ok :: "nat \<Rightarrow> mmpool \<Rightarrow> bool" where
  "mmp_ok n mp \<longleftrightarrow> length (mmp_ptr mp) = mmp_X mp \<and> n \<le> mmp_X mp \<and> mmp_x mp < mmp_X mp \<and> mmp_y mp < mmp_Y mp \<and>
     2 \<le> mmp_Y mp \<and> 1 \<le> obj_size mp \<and> mmp_rowsz mp < 2 ^ 31 \<and> mmp_tab_ok n (mmp_ptr mp) \<and>
     stat_memused mp = 40 + mmp_X mp * 8 + n * mmp_rowsz mp"

definition mmp_nrows :: "mmpool \<Rightarrow> nat" where
  "mmp_nrows mp = mmp_x mp + (if mmp_y mp = 0 then 0 else 1)"

text \<open>The cursor is on a free cell or on the unused last column of its row, and there is always a
  row pointer after the current one; the cursor is at column 0 only before the first allocation.\<close>

definition mmp_inv :: "mmpool \<Rightarrow> bool" where
  "mmp_inv mp \<longleftrightarrow> mmp_ok (mmp_nrows mp) mp \<and> Suc (mmp_x mp) < mmp_X mp \<and> (mmp_y mp = 0 \<longrightarrow> mmp_x mp = 0)"

definition mmp_used :: "mmpool \<Rightarrow> obj set" where
  "mmp_used mp = {(r, mmp_Y mp + obj_size mp * c) |r c. r < mmp_x mp \<and> c < mmp_Y mp - 1 \<or> r = mmp_x mp \<and> c < mmp_y mp}"

abbreviation mmp_same :: "mmpool \<Rightarrow> mmpool \<Rightarrow> bool" where
  "mmp_same mp mp' \<equiv> mmp_x mp' = mmp_x mp \<and> mmp_y mp' = mmp_y mp \<and> mmp_Y mp' = mmp_Y mp \<and> obj_size mp' = obj_size mp"

lemma mmp_tab_ok_append: "mmp_tab_ok n t \<Longrightarrow> n \<le> length t \<Longrightarrow> mmp_tab_ok n (t @ replicate k (Some False))"
  by (auto simp: mmp_tab_ok_def nth_append)

lemma mmp_tab_ok_set: "mmp_tab_ok n t \<Longrightarrow> n < length t \<Longrightarrow> mmp_tab_ok (Suc n) (t[n := Some True])"
  by (auto simp: mmp_tab_ok_def nth_list_update)

lemma mmp_wrap_ok:
  assumes "mmp_inv mp"
  shows "mmp_ok (mmp_nrows mp) (mmp_wrap mp) \<and> Suc (mmp_y (mmp_wrap mp)) < mmp_Y mp \<and>
    (mmp_nrows mp = mmp_x (mmp_wrap mp) \<or> mmp_nrows mp = Suc (mmp_x (mmp_wrap mp))) \<and>
    mmp_used (mmp_wrap mp) = mmp_used mp \<and> mmp_x (mmp_wrap mp) \<le> Suc (mmp_x mp) \<and>
    mmp_Y (mmp_wrap mp) = mmp_Y mp \<and> obj_size (mmp_wrap mp) = obj_size mp"
proof (cases "Suc (mmp_y mp) = mmp_Y mp")
  case True
  have y: "mmp_Y mp - Suc 0 = mmp_y mp" using True by simp
  have "(r < Suc (mmp_x mp) \<and> c < mmp_y mp \<or> r = Suc (mmp_x mp) \<and> c < 0) \<longleftrightarrow>
      (r < mmp_x mp \<and> c < mmp_y mp \<or> r = mmp_x mp \<and> c < mmp_y mp)" for r c by auto
  then have "mmp_used (mmp_wrap mp) = mmp_used mp"
    using True unfolding mmp_used_def mmp_wrap_def by (simp add: y)
  with True assms show ?thesis
    by (auto simp: mmp_inv_def mmp_ok_def mmp_nrows_def mmp_rowsz_def mmp_wrap_def)
next
  case False
  with assms show ?thesis by (auto simp: mmp_inv_def mmp_ok_def mmp_nrows_def mmp_wrap_def)
qed

lemma mmp_grow_ok:
  assumes "mmp_ok n mp" "mmp_x mp < 2 ^ 30 - 1"
  shows "\<exists>mp'. mmp_grow True mp = Inr (True, mp') \<and> mmp_ok n mp' \<and> Suc (mmp_x mp') < mmp_X mp' \<and> mmp_same mp mp'"
proof (cases "Suc (mmp_x mp) = mmp_X mp")
  case False
  with assms show ?thesis by (auto simp: mmp_grow_def mmp_ok_def)
next
  case True
  let ?mp = "mp\<lparr>mmp_ptr := mmp_ptr mp @ replicate (mmp_X mp) (Some False),
    stat_memused := stat_memused mp + mmp_X mp * 8, mmp_X := mmp_X mp * 2\<rparr>"
  have nx: "mmp_X mp * 2 < 2 ^ 31" "0 < mmp_X mp" using True assms by (auto simp: mmp_ok_def)
  then have "mmp_grow True mp = Inr (True, ?mp)"
    using True assms(1) by (simp add: mmp_grow_def imul_def realloc_rows_def mmp_ok_def)
  moreover have "mmp_ok n ?mp"
    using assms(1) mmp_tab_ok_append [of n "mmp_ptr mp" "mmp_X mp"] by (simp add: mmp_ok_def mmp_rowsz_def)
  ultimately show ?thesis using True nx by auto
qed

lemma mmp_row_ok:
  assumes ok: "mmp_ok n mp" and n: "n = mmp_x mp \<or> n = Suc (mmp_x mp)"
  shows "\<exists>mp'. mmp_row True mp = Inr (True, mp') \<and> mmp_ok (Suc (mmp_x mp)) mp' \<and> mmp_same mp mp' \<and> mmp_X mp' = mmp_X mp"
proof -
  have x: "mmp_x mp < length (mmp_ptr mp)" and tab: "mmp_tab_ok n (mmp_ptr mp)" using ok by (auto simp: mmp_ok_def)
  then have r: "read_cell (mmp_ptr mp) (mmp_x mp) = Inr (mmp_x mp < n)" by (simp add: mem_simps mmp_tab_ok_def)
  show ?thesis
  proof (cases "n = mmp_x mp")
    case False
    then show ?thesis using ok n r by (simp add: mmp_row_def)
  next
    case True
    let ?mp = "mp\<lparr>mmp_ptr := (mmp_ptr mp)[mmp_x mp := Some True], stat_memused := stat_memused mp + mmp_rowsz mp\<rparr>"
    have "mmp_row True mp = Inr (True, ?mp)"
      using ok x r True by (simp add: mmp_row_def mem_simps imul_def iadd_def mmp_ok_def mmp_rowsz_def)
    moreover have "mmp_ok (Suc (mmp_x mp)) ?mp"
      using ok x True mmp_tab_ok_set [OF tab] by (simp add: mmp_ok_def mmp_rowsz_def)
    ultimately show ?thesis by simp
  qed
qed

definition mmp_new :: "mmpool \<Rightarrow> cerr + obj \<times> mmpool" where
  "mmp_new mp = bindr (mmp_alloc True (Some mp)) (\<lambda>(a, m). bindr (deref a) (\<lambda>a. bindr (deref m) (\<lambda>m. Inr (a, m))))"

definition mmp_pinv :: "nat \<Rightarrow> nat \<Rightarrow> mmpool \<Rightarrow> bool" where
  "mmp_pinv ny nobj mp \<longleftrightarrow> mmp_inv mp \<and> mmp_Y mp = ny \<and> obj_size mp = nobj"

lemma mmp_new_law:
  assumes inv: "mmp_inv mp" and x: "mmp_x mp < 2 ^ 30 - 2"
  shows "\<exists>a mp'. mmp_new mp = Inr (a, mp') \<and> mmp_inv mp' \<and> a \<notin> mmp_used mp \<and> mmp_used mp' = insert a (mmp_used mp) \<and>
    mmp_Y mp' = mmp_Y mp \<and> obj_size mp' = obj_size mp \<and> mmp_x mp' \<le> Suc (mmp_x mp) \<and> 0 < mmp_y mp'"
proof -
  define m0 where "m0 = mmp_wrap mp"
  have m0: "mmp_ok (mmp_nrows mp) m0" "Suc (mmp_y m0) < mmp_Y mp" "mmp_nrows mp = mmp_x m0 \<or> mmp_nrows mp = Suc (mmp_x m0)"
    "mmp_used m0 = mmp_used mp" "mmp_x m0 \<le> Suc (mmp_x mp)" "mmp_Y m0 = mmp_Y mp" "obj_size m0 = obj_size mp"
    using mmp_wrap_ok [OF inv] by (auto simp: m0_def)
  have "mmp_x m0 < 2 ^ 30 - 1" using m0(5) x by simp
  from mmp_grow_ok [OF m0(1) this] obtain m1 where m1: "mmp_grow True m0 = Inr (True, m1)" "mmp_ok (mmp_nrows mp) m1"
    "Suc (mmp_x m1) < mmp_X m1" "mmp_same m0 m1" by blast
  from mmp_row_ok [OF m1(2)] m0(3) m1(4) obtain m2 where m2: "mmp_row True m1 = Inr (True, m2)" "mmp_ok (Suc (mmp_x m1)) m2"
    "mmp_same m1 m2" "mmp_X m2 = mmp_X m1" by auto
  have "obj_size m2 * mmp_y m2 \<le> obj_size m2 * mmp_Y m2" using m2(2) by (intro mult_left_mono) (auto simp: mmp_ok_def)
  moreover have "obj_size m2 * mmp_Y m2 < 2 ^ 31" using m2(2) by (simp add: mmp_ok_def mmp_rowsz_def mult.commute)
  ultimately have d: "imul (obj_size m2) (mmp_y m2) = Inr (obj_size m2 * mmp_y m2)"
    unfolding imul_def by (simp only: if_True order.strict_trans1)
  let ?a = "(mmp_x m2, mmp_Y m2 + obj_size m2 * mmp_y m2)" and ?m = "m2\<lparr>mmp_y := Suc (mmp_y m2)\<rparr>"
  have run: "mmp_new mp = Inr (?a, ?m)"
    by (simp add: mmp_new_def mmp_alloc_def d m1 m2(1) flip: m0_def)
  have inv': "mmp_inv ?m"
    using m2 m1 m0 by (auto simp: mmp_inv_def mmp_ok_def mmp_nrows_def mmp_rowsz_def)
  have used: "mmp_used m2 = mmp_used mp" using m0(4) m1(4) m2(3) by (simp add: mmp_used_def)
  have "1 \<le> obj_size m2" using m2(2) by (simp add: mmp_ok_def)
  then have fresh: "?a \<notin> mmp_used m2" by (auto simp: mmp_used_def)
  have "(r < mmp_x m2 \<and> c < mmp_Y m2 - 1 \<or> r = mmp_x m2 \<and> c < Suc (mmp_y m2)) \<longleftrightarrow>
      (r < mmp_x m2 \<and> c < mmp_Y m2 - 1 \<or> r = mmp_x m2 \<and> c < mmp_y m2) \<or> r = mmp_x m2 \<and> c = mmp_y m2" for r c
    by (auto simp: less_Suc_eq)
  then have "mmp_used ?m = insert ?a (mmp_used m2)" unfolding mmp_used_def by (auto simp: less_Suc_eq)
  then show ?thesis using run inv' fresh used m0 m1 m2 by (intro exI [of _ ?a] exI [of _ ?m]) simp
qed

interpretation mmpool: fresh_alloc "mmp_pinv ny nobj" mmp_used "\<lambda>mp. 2 ^ 30 - 2 - mmp_x mp" mmp_new for ny nobj
proof
  fix mp assume "mmp_pinv ny nobj mp" and b: "0 < 2 ^ 30 - 2 - mmp_x mp"
  then show "\<exists>a s'. mmp_new mp = Inr (a, s') \<and> mmp_pinv ny nobj s' \<and> a \<notin> mmp_used mp \<and>
      mmp_used s' = insert a (mmp_used mp) \<and> 2 ^ 30 - 2 - mmp_x mp \<le> Suc (2 ^ 30 - 2 - mmp_x s')"
    using mmp_new_law [of mp] by (fastforce simp: mmp_pinv_def)
qed

lemma mmp_create_inv:
  assumes c: "mmp_create True page_size objsize factor = Some mp" and b: "mmp_rowsz mp < 2 ^ 31"
  shows "mmp_pinv (mmp_Y mp) (nat objsize) mp \<and> mmp_used mp = {} \<and> mmp_x mp = 0 \<and> 0 < objsize"
proof -
  define m where "m = mmp_factor factor * (if log2_floor (nat objsize) < 8 then 8 else log2_floor (nat objsize))"
  have "1 \<le> mmp_factor factor" by (auto simp: mmp_factor_def)
  then have "1 * 8 \<le> m" unfolding m_def by (intro mult_le_mono) auto
  moreover have mp: "0 < objsize" "mp = \<lparr>mmp_ptr = replicate m (Some False), mmp_x = 0, mmp_y = 0, mmp_X = m,
      mmp_Y = mmp_cols page_size (mmp_factor factor) (nat objsize), obj_size = nat objsize, stat_memused = 40 + m * 8\<rparr>"
    using c by (auto simp: mmp_create_def Let_def m_def split: if_splits)
  moreover have "2 \<le> mmp_cols page_size (mmp_factor factor) (nat objsize)" by (auto simp: mmp_cols_def Let_def)
  ultimately show ?thesis using b
    by (simp add: mmp_pinv_def mmp_inv_def mmp_ok_def mmp_nrows_def mmp_tab_ok_def mmp_used_def)
qed

lemma mmp_free_rows_all:
  assumes "mmp_tab_ok n t" "x + k \<le> n" "n \<le> length t"
  shows "mmp_free_rows t x k = Inr [x..<x + k]"
  using assms(2)
proof (induction k arbitrary: x)
  case (Suc k)
  then have "read_cell t x = Inr True" using assms(1,3) by (simp add: mem_simps mmp_tab_ok_def)
  then show ?case using Suc.IH [of "Suc x"] Suc.prems by (simp add: upt_conv_Cons)
qed simp

text \<open>An \<open>mmpool\<close> whose rows fit an \<open>int\<close> serves any number of allocations below the 32-bit limit
  on the row count: the addresses are distinct, each object lies behind the header and inside its
  row, and two objects of a row never overlap. Once anything was allocated, \<open>mmp_destroy\<close> frees
  the rows before the current one only, and the current row, which is always allocated, leaks.\<close>

theorem mmp_alloc_disjoint:
  assumes c: "mmp_create True page_size objsize factor = Some mp" and b: "mmp_rowsz mp < 2 ^ 31"
    and n: "0 < n" "n < 2 ^ 30 - 1"
  shows "\<exists>as mp'. alloc_many mmp_new n mp = Inr (as, mp') \<and> length as = n \<and>
    (\<forall>i < n. mmp_Y mp' \<le> snd (as ! i) \<and> snd (as ! i) + nat objsize \<le> mmp_rowsz mp') \<and>
    (\<forall>i < n. \<forall>j < n. i \<noteq> j \<longrightarrow> fst (as ! i) = fst (as ! j) \<longrightarrow>
       snd (as ! i) + nat objsize \<le> snd (as ! j) \<or> snd (as ! j) + nat objsize \<le> snd (as ! i)) \<and>
    mmp_destroy (Some mp') = Inr [0..<mmp_x mp'] \<and>
    {i. i < length (mmp_ptr mp') \<and> mmp_ptr mp' ! i = Some True} = {..mmp_x mp'}"
proof -
  note m = mmp_create_inv [OF c b]
  have "n \<le> 2 ^ 30 - 2 - mmp_x mp" using n m by simp
  from mmpool.alloc_many_distinct [OF m [THEN conjunct1] this] m obtain as mp' where as: "alloc_many mmp_new n mp = Inr (as, mp')"
    "mmp_pinv (mmp_Y mp) (nat objsize) mp'" "length as = n" "distinct as" "mmp_used mp' = set as" by auto
  have ny: "mmp_Y mp' = mmp_Y mp" "obj_size mp' = nat objsize" "mmp_inv mp'" using as(2) by (auto simp: mmp_pinv_def)
  have ok: "mmp_y mp' < mmp_Y mp'" "mmp_tab_ok (mmp_nrows mp') (mmp_ptr mp')" "length (mmp_ptr mp') = mmp_X mp'" "Suc (mmp_x mp') < mmp_X mp'"
    using ny(3) by (auto simp: mmp_inv_def mmp_ok_def)
  have cell: "\<exists>c < mmp_Y mp'. snd (as ! i) = mmp_Y mp' + nat objsize * c" if "i < n" for i
  proof -
    have "as ! i \<in> mmp_used mp'" using that as(3,5) by simp
    then have "\<exists>r c. as ! i = (r, mmp_Y mp' + nat objsize * c) \<and> (r < mmp_x mp' \<and> c < mmp_Y mp' - 1 \<or> r = mmp_x mp' \<and> c < mmp_y mp')"
      by (simp add: mmp_used_def ny(2))
    then obtain r c where "as ! i = (r, mmp_Y mp' + nat objsize * c)" "c < mmp_Y mp'" using ok(1) by fastforce
    then show ?thesis by (intro exI [of _ c]) auto
  qed
  have "mmp_used mp' \<noteq> {}" using as(3,5) n(1) by auto
  then have y: "mmp_nrows mp' = Suc (mmp_x mp')"
    using ny(3) by (cases "mmp_y mp' = 0") (auto simp: mmp_inv_def mmp_used_def mmp_nrows_def)
  show ?thesis
  proof (intro exI conjI allI impI)
    fix i assume i: "i < n"
    from cell [OF i] obtain c where c: "c < mmp_Y mp'" "snd (as ! i) = mmp_Y mp' + nat objsize * c" by blast
    show "mmp_Y mp' \<le> snd (as ! i)" using c by simp
    show "snd (as ! i) + nat objsize \<le> mmp_rowsz mp'"
      using c stride_step [OF c(1), of "nat objsize"] ny by (simp add: mmp_rowsz_def mult.commute)
  next
    fix i j assume "i < n" "j < n" "i \<noteq> j" "fst (as ! i) = fst (as ! j)"
    then show "snd (as ! i) + nat objsize \<le> snd (as ! j) \<or> snd (as ! j) + nat objsize \<le> snd (as ! i)"
      using as(3) by (intro stride_disjoint [OF as(4)]) (auto intro: cell)
  next
    have "mmp_ptr mp' \<noteq> []" using ok by auto
    then show "mmp_destroy (Some mp') = Inr [0..<mmp_x mp']"
      using mmp_free_rows_all [OF ok(2), of 0 "mmp_x mp'"] ok y by (simp add: mmp_destroy_def)
    show "{i. i < length (mmp_ptr mp') \<and> mmp_ptr mp' ! i = Some True} = {..mmp_x mp'}"
      using ok y by (auto simp: mmp_tab_ok_def)
  qed (use as in auto)
qed

theorem mmp_alloc_disjoint_witness:
  "\<exists>mp. mmp_create True 4096 544 10 = Some mp \<and>
    (\<exists>as mp'. alloc_many mmp_new 20 mp = Inr (as, mp') \<and> length as = 20 \<and>
    (\<forall>i < 20. mmp_Y mp' \<le> snd (as ! i) \<and> snd (as ! i) + nat 544 \<le> mmp_rowsz mp') \<and>
    (\<forall>i < 20. \<forall>j < 20. i \<noteq> j \<longrightarrow> fst (as ! i) = fst (as ! j) \<longrightarrow>
       snd (as ! i) + nat 544 \<le> snd (as ! j) \<or> snd (as ! j) + nat 544 \<le> snd (as ! i)) \<and>
    mmp_destroy (Some mp') = Inr [0..<mmp_x mp'] \<and>
    {i. i < length (mmp_ptr mp') \<and> mmp_ptr mp' ! i = Some True} = {..mmp_x mp'})"
proof -
  obtain mp where mp: "mmp_create True 4096 544 10 = Some mp" by (simp add: mmp_create_def Let_def)
  then have "mmp_rowsz mp < 2 ^ 31"
    by (auto simp: mmp_create_def Let_def mmp_rowsz_def mmp_cols_def mmp_factor_def)
  from mmp_alloc_disjoint [OF mp this, of 20] mp show ?thesis by auto
qed

end
