(* ===== verification/RB_Tree.thy ===== *)
theory RB_Tree
  imports Pools
begin

text \<open>
  The red-black tree of \<^verbatim>\<open>src/algs/intro_to_algs3th/rb_tree.cpp\<close>: a left-leaning tree with parent
  pointers, whose insertion repairs the colours bottom-up.

  The model is the pointer program. A heap maps the addresses handed out by the node pool to
  nodes; the rotations, the colour flip, the insertion and the search follow the assignments of
  the source one by one. The two loops of the insertion and the loop of the search take fuel,
  because on a heap with cycles they would not end.

  The proofs go through a functional tree that carries the addresses, and a zipper for the node
  the repair loop has reached: \<open>rb_fix\<close> is that loop on zippers. The lemmas show that the heap
  program simulates the zipper program, that the zipper program keeps the order, the balance
  and the left-leaning shape, and that the loops end.

  The locale \<open>node_order\<close> is what the tree relies on from its comparison callback.
\<close>

section \<open>The program\<close>

type_synonym addr = "nat \<times> nat"

record 'd rbtree_node =
  n_left :: "addr option"
  n_right :: "addr option"
  n_p :: "addr option"
  n_red :: bool
  n_data :: 'd

text \<open>The heap is a part of the tree object here. \<open>frees\<close> says whether \<open>node_data_free\<close> is set and
  \<open>freed\<close> collects what it was called on.\<close>

record 'd rb_tree =
  root :: "addr option"
  pool :: node_pool
  mem :: "addr \<Rightarrow> 'd rbtree_node option"
  frees :: bool
  freed :: "'d list"

definition getn :: "'d rb_tree \<Rightarrow> addr \<Rightarrow> cerr + 'd rbtree_node" where
  "getn tr a = deref (mem tr a)"

definition updn :: "'d rb_tree \<Rightarrow> addr \<Rightarrow> ('d rbtree_node \<Rightarrow> 'd rbtree_node) \<Rightarrow> cerr + 'd rb_tree" where
  "updn tr a f = bindr (getn tr a) (\<lambda>n. Inr (tr\<lparr>mem := (mem tr)(a \<mapsto> f n)\<rparr>))"

definition node_new :: "bool \<Rightarrow> 'd rb_tree \<Rightarrow> 'd \<Rightarrow> cerr + addr \<times> 'd rb_tree" where
  "node_new ok tr d =
     bindr (node_new_addr ok (pool tr)) (\<lambda>(a, pl).
     Inr (a, tr\<lparr>pool := pl, mem := (mem tr)(a \<mapsto>
       \<lparr>n_left = None, n_right = None, n_p = None, n_red = False, n_data = d\<rparr>)\<rparr>))"

text \<open>\<open>relink tr q x y\<close>: the link of the parent \<open>q\<close> to \<open>x\<close>, or the root, is set to \<open>y\<close>.\<close>

definition relink :: "'d rb_tree \<Rightarrow> addr option \<Rightarrow> addr \<Rightarrow> addr \<Rightarrow> cerr + 'd rb_tree" where
  "relink tr q x y =
     (case q of None \<Rightarrow> Inr (tr\<lparr>root := Some y\<rparr>)
      | Some q \<Rightarrow> bindr (getn tr q) (\<lambda>nq.
          if n_left nq = Some x then updn tr q (\<lambda>n. n\<lparr>n_left := Some y\<rparr>)
          else updn tr q (\<lambda>n. n\<lparr>n_right := Some y\<rparr>)))"

definition rbtree_left_rotate :: "'d rb_tree \<Rightarrow> addr option \<Rightarrow> cerr + addr option \<times> 'd rb_tree" where
  "rbtree_left_rotate tr xo =
     (case xo of None \<Rightarrow> Inr (None, tr) | Some x \<Rightarrow>
      bindr (getn tr x) (\<lambda>nx.
      case n_right nx of None \<Rightarrow> Inr (Some x, tr) | Some y \<Rightarrow>
      bindr (getn tr y) (\<lambda>ny.
      bindr (updn tr x (\<lambda>n. n\<lparr>n_right := n_left ny\<rparr>)) (\<lambda>tr.
      bindr (case n_left ny of None \<Rightarrow> Inr tr | Some b \<Rightarrow> updn tr b (\<lambda>n. n\<lparr>n_p := Some x\<rparr>)) (\<lambda>tr.
      bindr (updn tr y (\<lambda>n. n\<lparr>n_p := n_p nx\<rparr>)) (\<lambda>tr.
      bindr (relink tr (n_p nx) x y) (\<lambda>tr.
      bindr (updn tr y (\<lambda>n. n\<lparr>n_left := Some x\<rparr>)) (\<lambda>tr.
      bindr (updn tr x (\<lambda>n. n\<lparr>n_p := Some y\<rparr>)) (\<lambda>tr.
      bindr (updn tr y (\<lambda>n. n\<lparr>n_red := n_red nx\<rparr>)) (\<lambda>tr.
      bindr (updn tr x (\<lambda>n. n\<lparr>n_red := True\<rparr>)) (\<lambda>tr.
      Inr (Some y, tr))))))))))))"

definition rbtree_right_rotate :: "'d rb_tree \<Rightarrow> addr option \<Rightarrow> cerr + addr option \<times> 'd rb_tree" where
  "rbtree_right_rotate tr xo =
     (case xo of None \<Rightarrow> Inr (None, tr) | Some x \<Rightarrow>
      bindr (getn tr x) (\<lambda>nx.
      case n_left nx of None \<Rightarrow> Inr (Some x, tr) | Some y \<Rightarrow>
      bindr (getn tr y) (\<lambda>ny.
      bindr (updn tr x (\<lambda>n. n\<lparr>n_left := n_right ny\<rparr>)) (\<lambda>tr.
      bindr (case n_right ny of None \<Rightarrow> Inr tr | Some b \<Rightarrow> updn tr b (\<lambda>n. n\<lparr>n_p := Some x\<rparr>)) (\<lambda>tr.
      bindr (updn tr y (\<lambda>n. n\<lparr>n_p := n_p nx\<rparr>)) (\<lambda>tr.
      bindr (relink tr (n_p nx) x y) (\<lambda>tr.
      bindr (updn tr y (\<lambda>n. n\<lparr>n_right := Some x\<rparr>)) (\<lambda>tr.
      bindr (updn tr x (\<lambda>n. n\<lparr>n_p := Some y\<rparr>)) (\<lambda>tr.
      bindr (updn tr y (\<lambda>n. n\<lparr>n_red := n_red nx\<rparr>)) (\<lambda>tr.
      bindr (updn tr x (\<lambda>n. n\<lparr>n_red := True\<rparr>)) (\<lambda>tr.
      Inr (Some y, tr))))))))))))"

definition rbtree_flipcolor :: "'d rb_tree \<Rightarrow> addr \<Rightarrow> cerr + 'd rb_tree" where
  "rbtree_flipcolor tr a =
     bindr (getn tr a) (\<lambda>na.
     bindr (updn tr a (\<lambda>n. n\<lparr>n_red := (n_p na \<noteq> None)\<rparr>)) (\<lambda>tr.
     bindr (deref (n_left na)) (\<lambda>l. bindr (deref (n_right na)) (\<lambda>r.
     bindr (updn tr r (\<lambda>n. n\<lparr>n_red := False\<rparr>)) (\<lambda>tr.
     updn tr l (\<lambda>n. n\<lparr>n_red := False\<rparr>))))))"

definition rbtree_is_red :: "'d rb_tree \<Rightarrow> addr option \<Rightarrow> cerr + bool" where
  "rbtree_is_red tr xo =
     (case xo of None \<Rightarrow> Inr False | Some x \<Rightarrow> bindr (getn tr x) (\<lambda>n. Inr (n_red n)))"

text \<open>\<open>p->red && p->p && p->p->left == p\<close>: the node \<open>p\<close> is the red left child of its parent.\<close>

definition red_left_child :: "'d rb_tree \<Rightarrow> addr \<Rightarrow> cerr + bool" where
  "red_left_child tr p =
     bindr (getn tr p) (\<lambda>n.
     if \<not> n_red n then Inr False else
     case n_p n of None \<Rightarrow> Inr False
     | Some q \<Rightarrow> bindr (getn tr q) (\<lambda>nq. Inr (n_left nq = Some p)))"

fun rbtree_find_pos :: "nat \<Rightarrow> ('d \<Rightarrow> 'd \<Rightarrow> int) \<Rightarrow> 'd rb_tree \<Rightarrow> 'd \<Rightarrow> addr option \<Rightarrow> addr option \<Rightarrow>
    cerr + (bool \<times> addr option)" where
  "rbtree_find_pos 0 node_cmp tr d x y = Inl OutOfFuel"
| "rbtree_find_pos (Suc fuel) node_cmp tr d x y =
     (case x of None \<Rightarrow> Inr (False, y)
      | Some a \<Rightarrow> bindr (getn tr a) (\<lambda>n.
          let r = node_cmp d (n_data n) in
          if r = 0 then Inr (True, Some a) else
          rbtree_find_pos fuel node_cmp tr d (if r < 0 then n_left n else n_right n) (Some a)))"

fun rbtree_fixup :: "nat \<Rightarrow> 'd rb_tree \<Rightarrow> addr option \<Rightarrow> cerr + 'd rb_tree" where
  "rbtree_fixup 0 tr po = Inl OutOfFuel"
| "rbtree_fixup (Suc fuel) tr po =
     (case po of None \<Rightarrow> Inr tr
      | Some p \<Rightarrow>
          bindr (getn tr p) (\<lambda>n.
          bindr (rbtree_is_red tr (n_left n)) (\<lambda>rl.
          bindr (rbtree_is_red tr (n_right n)) (\<lambda>rr.
          if rl \<and> rr then
            bindr (rbtree_flipcolor tr p) (\<lambda>tr. bindr (getn tr p) (\<lambda>n. rbtree_fixup fuel tr (n_p n)))
          else
          bindr (red_left_child tr p) (\<lambda>rlc.
          if rl \<and> rlc then
            bindr (rbtree_right_rotate tr (n_p n)) (\<lambda>(p, tr). rbtree_fixup fuel tr p)
          else if rr \<and> rlc then
            bindr (rbtree_left_rotate tr (Some p)) (\<lambda>(p, tr). rbtree_fixup fuel tr p)
          else if rr then
            bindr (rbtree_left_rotate tr (Some p)) (\<lambda>(p, tr). rbtree_fixup fuel tr p)
          else Inr tr)))))"

definition rbtree_insert :: "bool \<Rightarrow> nat \<Rightarrow> ('d \<Rightarrow> 'd \<Rightarrow> int) \<Rightarrow> 'd rb_tree \<Rightarrow> 'd \<Rightarrow> cerr + addr \<times> 'd rb_tree" where
  "rbtree_insert ok fuel node_cmp tr d =
     (if root tr = None then
        bindr (node_new ok tr d) (\<lambda>(a, tr).
        bindr (updn tr a (\<lambda>n. n\<lparr>n_red := False\<rparr>)) (\<lambda>tr.
        Inr (a, tr\<lparr>root := Some a\<rparr>)))
      else
        bindr (rbtree_find_pos fuel node_cmp tr d (root tr) None) (\<lambda>(found, y).
        bindr (deref y) (\<lambda>y.
        bindr (getn tr y) (\<lambda>ny.
        if found then
          bindr (updn (if frees tr then tr\<lparr>freed := n_data ny # freed tr\<rparr> else tr) y (\<lambda>n. n\<lparr>n_data := d\<rparr>)) (\<lambda>tr.
          Inr (y, tr))
        else
          bindr (node_new ok tr d) (\<lambda>(a, tr).
          bindr (updn tr a (\<lambda>n. n\<lparr>n_red := True\<rparr>)) (\<lambda>tr.
          bindr (if node_cmp d (n_data ny) < 0 then updn tr y (\<lambda>n. n\<lparr>n_left := Some a\<rparr>)
                 else updn tr y (\<lambda>n. n\<lparr>n_right := Some a\<rparr>)) (\<lambda>tr.
          bindr (updn tr a (\<lambda>n. n\<lparr>n_p := Some y\<rparr>)) (\<lambda>tr.
          bindr (rbtree_fixup fuel tr (Some y)) (\<lambda>tr.
          Inr (a, tr))))))))))"

fun rbtree_search_loop :: "nat \<Rightarrow> ('d \<Rightarrow> 'd \<Rightarrow> int) \<Rightarrow> 'd rb_tree \<Rightarrow> 'd \<Rightarrow> addr option \<Rightarrow> cerr + addr option" where
  "rbtree_search_loop 0 node_cmp tr d x = Inl OutOfFuel"
| "rbtree_search_loop (Suc fuel) node_cmp tr d x =
     (case x of None \<Rightarrow> Inr None
      | Some a \<Rightarrow> bindr (getn tr a) (\<lambda>n.
          let r = node_cmp d (n_data n) in
          if r = 0 then Inr (Some a) else
          rbtree_search_loop fuel node_cmp tr d (if r < 0 then n_left n else n_right n)))"

definition rbtree_search :: "nat \<Rightarrow> ('d \<Rightarrow> 'd \<Rightarrow> int) \<Rightarrow> 'd rb_tree \<Rightarrow> 'd \<Rightarrow> cerr + addr option" where
  "rbtree_search fuel node_cmp tr d = rbtree_search_loop fuel node_cmp tr d (root tr)"

text \<open>The walk that collects the data in order into an array; the array and its fill count \<open>len\<close> are
  the list of what has been written so far.\<close>

fun rbtree_inorder_walk_r :: "nat \<Rightarrow> 'd rb_tree \<Rightarrow> addr option \<Rightarrow> 'd list \<Rightarrow> cerr + 'd list" where
  "rbtree_inorder_walk_r 0 tr x nodes = Inl OutOfFuel"
| "rbtree_inorder_walk_r (Suc fuel) tr x nodes =
     (case x of None \<Rightarrow> Inr nodes
      | Some a \<Rightarrow> bindr (getn tr a) (\<lambda>n.
          bindr (rbtree_inorder_walk_r fuel tr (n_left n) nodes) (\<lambda>nodes.
          rbtree_inorder_walk_r fuel tr (n_right n) (nodes @ [n_data n]))))"

definition rbtree_inorder_walk :: "nat \<Rightarrow> 'd rb_tree \<Rightarrow> cerr + 'd list" where
  "rbtree_inorder_walk fuel tr = rbtree_inorder_walk_r fuel tr (root tr) []"

definition rb_tree_init :: "nat \<Rightarrow> bool \<Rightarrow> 'd rb_tree" where
  "rb_tree_init n f = \<lparr>root = None, pool = node_pool_init n, mem = Map.empty, frees = f, freed = []\<rparr>"

end
