(* ===== verification/RB_Tree_Refine.thy ===== *)
theory RB_Tree_Refine
  imports RB_Tree
begin

text \<open>
  The simulation of the pointer program of \<open>RB_Tree\<close> by functional trees. A tree carries the
  address of each node; a zipper is a subtree with the path of frames above it. \<open>zrep\<close> says that
  the heap holds a zipper: every node is stored with the right children, parent, colour and data,
  and the addresses are distinct.
\<close>

datatype 'd rtree = Leaf | Node "'d rtree" addr bool 'd "'d rtree"

datatype 'd frame =
    LF addr bool 'd "'d rtree"   \<comment> \<open>the hole is the left child\<close>
  | RF "'d rtree" addr bool 'd   \<comment> \<open>the hole is the right child\<close>

fun rootp :: "'d rtree \<Rightarrow> addr option" where
  "rootp Leaf = None"
| "rootp (Node l a c d r) = Some a"

fun is_red :: "'d rtree \<Rightarrow> bool" where
  "is_red Leaf = False"
| "is_red (Node l a c d r) = c"

fun addrs :: "'d rtree \<Rightarrow> addr list" where
  "addrs Leaf = []"
| "addrs (Node l a c d r) = addrs l @ a # addrs r"

fun inorder :: "'d rtree \<Rightarrow> 'd list" where
  "inorder Leaf = []"
| "inorder (Node l a c d r) = inorder l @ d # inorder r"

fun faddr :: "'d frame \<Rightarrow> addr" where
  "faddr (LF a c d r) = a"
| "faddr (RF l a c d) = a"

fun fill :: "'d frame \<Rightarrow> 'd rtree \<Rightarrow> 'd rtree" where
  "fill (LF a c d r) t = Node t a c d r"
| "fill (RF l a c d) t = Node l a c d t"

fun plug :: "'d frame list \<Rightarrow> 'd rtree \<Rightarrow> 'd rtree" where
  "plug [] t = t"
| "plug (f # k) t = plug k (fill f t)"

fun caddrs :: "'d frame list \<Rightarrow> addr list" where
  "caddrs [] = []"
| "caddrs (LF a c d r # k) = a # addrs r @ caddrs k"
| "caddrs (RF l a c d # k) = a # addrs l @ caddrs k"

fun cparent :: "'d frame list \<Rightarrow> addr option" where
  "cparent [] = None"
| "cparent (f # k) = Some (faddr f)"

fun croot :: "'d frame list \<Rightarrow> addr option \<Rightarrow> addr option" where
  "croot [] x = x"
| "croot (f # k) x = croot k (Some (faddr f))"

abbreviation mknode :: "addr option \<Rightarrow> addr option \<Rightarrow> addr option \<Rightarrow> bool \<Rightarrow> 'd \<Rightarrow> 'd rbtree_node" where
  "mknode l r q c d \<equiv> \<lparr>n_left = l, n_right = r, n_p = q, n_red = c, n_data = d\<rparr>"

fun repr :: "(addr \<Rightarrow> 'd rbtree_node option) \<Rightarrow> addr option \<Rightarrow> 'd rtree \<Rightarrow> bool" where
  "repr h q Leaf = True"
| "repr h q (Node l a c d r) \<longleftrightarrow>
     h a = Some (mknode (rootp l) (rootp r) q c d) \<and> repr h (Some a) l \<and> repr h (Some a) r"

fun crepr :: "(addr \<Rightarrow> 'd rbtree_node option) \<Rightarrow> addr option \<Rightarrow> 'd frame list \<Rightarrow> bool" where
  "crepr h x [] = True"
| "crepr h x (LF a c d r # k) \<longleftrightarrow>
     h a = Some (mknode x (rootp r) (cparent k) c d) \<and> repr h (Some a) r \<and> crepr h (Some a) k"
| "crepr h x (RF l a c d # k) \<longleftrightarrow>
     h a = Some (mknode (rootp l) x (cparent k) c d) \<and> repr h (Some a) l \<and> crepr h (Some a) k"

definition zrep :: "'d rb_tree \<Rightarrow> 'd rtree \<Rightarrow> 'd frame list \<Rightarrow> bool" where
  "zrep tr t k \<longleftrightarrow> repr (mem tr) (cparent k) t \<and> crepr (mem tr) (rootp t) k \<and> root tr = croot k (rootp t) \<and>
     distinct (addrs t @ caddrs k)"

abbreviation same_env :: "'d rb_tree \<Rightarrow> 'd rb_tree \<Rightarrow> bool" where
  "same_env tr tr' \<equiv> pool tr' = pool tr \<and> frees tr' = frees tr \<and> freed tr' = freed tr"

lemma rootp_not [simp]: "a \<notin> set (addrs t) \<Longrightarrow> rootp t \<noteq> Some a"
  by (cases t) auto

lemma repr_frame [simp]: "a \<notin> set (addrs t) \<Longrightarrow> repr (h(a := v)) q t = repr h q t"
  by (induction t arbitrary: q) auto

lemma crepr_frame [simp]: "a \<notin> set (caddrs k) \<Longrightarrow> crepr (h(a := v)) x k = crepr h x k"
  by (induction h x k rule: crepr.induct) auto

lemmas node_ops = getn_def updn_def

lemma plug_addrs: "mset (addrs (plug k t)) = mset (addrs t @ caddrs k)"
proof (induction k arbitrary: t)
  case (Cons f k)
  then show ?case by (cases f) simp_all
qed simp

lemma rootp_fill [simp]: "rootp (fill f t) = Some (faddr f)"
  by (cases f) auto

text \<open>Moving the focus up does not change what the heap holds.\<close>

lemma zrep_up: "zrep tr t (f # k) \<longleftrightarrow> zrep tr (fill f t) k"
  by (cases f) (auto simp: zrep_def)

lemma zrep_plug: "zrep tr t k \<longleftrightarrow> zrep tr (plug k t) []"
  by (induction k arbitrary: t) (simp_all add: zrep_up)

section \<open>Rotations\<close>

lemma rbtree_left_rotate_sim:
  assumes "zrep tr (Node l x c d (Node rl y cy dy rr)) k"
  shows "\<exists>tr'. rbtree_left_rotate tr (Some x) = Inr (Some y, tr') \<and>
    zrep tr' (Node (Node l x True d rl) y c dy rr) k \<and> same_env tr tr'"
proof (cases rl)
  case Leaf
  show ?thesis
  proof (cases k)
    case Nil
    with Leaf assms show ?thesis by (auto simp: zrep_def rbtree_left_rotate_def relink_def node_ops)
  next
    case (Cons f k')
    with Leaf assms show ?thesis by (cases f) (auto simp: zrep_def rbtree_left_rotate_def relink_def node_ops)
  qed
next
  case (Node bl b cb db br)
  show ?thesis
  proof (cases k)
    case Nil
    with Node assms show ?thesis by (auto simp: zrep_def rbtree_left_rotate_def relink_def node_ops)
  next
    case (Cons f k')
    with Node assms show ?thesis by (cases f) (auto simp: zrep_def rbtree_left_rotate_def relink_def node_ops)
  qed
qed

lemma rbtree_right_rotate_sim:
  assumes "zrep tr (Node (Node ll y cy dy lr) x c d r) k"
  shows "\<exists>tr'. rbtree_right_rotate tr (Some x) = Inr (Some y, tr') \<and>
    zrep tr' (Node ll y c dy (Node lr x True d r)) k \<and> same_env tr tr'"
proof (cases lr)
  case Leaf
  show ?thesis
  proof (cases k)
    case Nil
    with Leaf assms show ?thesis by (auto simp: zrep_def rbtree_right_rotate_def relink_def node_ops)
  next
    case (Cons f k')
    with Leaf assms show ?thesis by (cases f) (auto simp: zrep_def rbtree_right_rotate_def relink_def node_ops)
  qed
next
  case (Node bl b cb db br)
  show ?thesis
  proof (cases k)
    case Nil
    with Node assms show ?thesis by (auto simp: zrep_def rbtree_right_rotate_def relink_def node_ops)
  next
    case (Cons f k')
    with Node assms show ?thesis by (cases f) (auto simp: zrep_def rbtree_right_rotate_def relink_def node_ops)
  qed
qed

section \<open>Colours\<close>

fun blacken :: "'d rtree \<Rightarrow> 'd rtree" where
  "blacken Leaf = Leaf"
| "blacken (Node l a c d r) = Node l a False d r"

lemma rbtree_flipcolor_sim:
  assumes "zrep tr (Node l p c d r) k" "l \<noteq> Leaf" "r \<noteq> Leaf"
  shows "\<exists>tr'. rbtree_flipcolor tr p = Inr tr' \<and> zrep tr' (Node (blacken l) p (k \<noteq> []) d (blacken r)) k \<and> same_env tr tr'"
proof -
  obtain l1 al cl dl l2 where l: "l = Node l1 al cl dl l2" using assms(2) by (cases l) auto
  obtain r1 ar cr dr r2 where r: "r = Node r1 ar cr dr r2" using assms(3) by (cases r) auto
  show ?thesis
  proof (cases k)
    case Nil
    with assms(1) l r show ?thesis by (auto simp: zrep_def rbtree_flipcolor_def node_ops)
  next
    case (Cons f k')
    with assms(1) l r show ?thesis by (cases f) (auto simp: zrep_def rbtree_flipcolor_def node_ops)
  qed
qed

lemma rbtree_is_red_sim: "repr (mem tr) q t \<Longrightarrow> rbtree_is_red tr (rootp t) = Inr (is_red t)"
  by (cases t) (auto simp: rbtree_is_red_def node_ops)

fun is_LF :: "'d frame list \<Rightarrow> bool" where
  "is_LF (LF a c d r # k) = True"
| "is_LF _ = False"

lemma red_left_child_sim: "zrep tr (Node l p c d r) k \<Longrightarrow> red_left_child tr p = Inr (c \<and> is_LF k)"
proof (cases k)
  case (Cons f k')
  moreover assume "zrep tr (Node l p c d r) k"
  ultimately show ?thesis by (cases f) (auto simp: zrep_def red_left_child_def node_ops)
qed (simp add: zrep_def red_left_child_def node_ops)

section \<open>The repair loop on zippers\<close>

fun rsize :: "'d rtree \<Rightarrow> nat" where
  "rsize Leaf = 0"
| "rsize (Node l a c d r) = length (addrs r)"

text \<open>The loop state is the subtree at \<open>p\<close> and the path above it; the result is the whole tree.\<close>

function rb_fix :: "'d rtree \<Rightarrow> 'd frame list \<Rightarrow> 'd rtree" where
  "rb_fix Leaf k = plug k Leaf"
| "rb_fix (Node l p c d r) k =
     (if is_red l \<and> is_red r then
        (case k of [] \<Rightarrow> Node (blacken l) p False d (blacken r)
         | f # k' \<Rightarrow> rb_fix (fill f (Node (blacken l) p True d (blacken r))) k')
      else if is_red l \<and> c \<and> is_LF k then
        (case k of LF q cq dq rq # k' \<Rightarrow> rb_fix (Node l p cq d (Node r q True dq rq)) k' | _ \<Rightarrow> plug k (Node l p c d r))
      else if is_red r then
        (case r of Node rl y cy dy rr \<Rightarrow> rb_fix (Node (Node l p True d rl) y c dy rr) k | Leaf \<Rightarrow> plug k (Node l p c d r))
      else plug k (Node l p c d r))"
  by pat_completeness auto

termination by (relation "measures [\<lambda>(t, k). length k, \<lambda>(t, k). rsize t]") auto

declare rb_fix.simps [simp del]

text \<open>The rounds of the loop: a colour flip at the root or below it, a right rotation of the parent,
  a left rotation, and the end.\<close>

lemma rb_fix_flip_root: "is_red l \<Longrightarrow> is_red r \<Longrightarrow> rb_fix (Node l p c d r) [] = Node (blacken l) p False d (blacken r)"
  by (simp add: rb_fix.simps)

lemma rb_fix_flip: "is_red l \<Longrightarrow> is_red r \<Longrightarrow>
    rb_fix (Node l p c d r) (f # k) = rb_fix (fill f (Node (blacken l) p True d (blacken r))) k"
  by (subst rb_fix.simps) simp

lemma rb_fix_right: "is_red l \<Longrightarrow> \<not> is_red r \<Longrightarrow>
    rb_fix (Node l p True d r) (LF q cq dq rq # k) = rb_fix (Node l p cq d (Node r q True dq rq)) k"
  by (subst rb_fix.simps) simp

lemma rb_fix_left: "\<not> is_red l \<Longrightarrow>
    rb_fix (Node l p c d (Node rl y True dy rr)) k = rb_fix (Node (Node l p True d rl) y c dy rr) k"
  by (subst rb_fix.simps) simp

lemma rb_fix_stop: "\<not> is_red r \<Longrightarrow> \<not> (is_red l \<and> c \<and> is_LF k) \<Longrightarrow> rb_fix (Node l p c d r) k = plug k (Node l p c d r)"
  by (subst rb_fix.simps) auto

lemma is_red_Node: "is_red t \<Longrightarrow> \<exists>l a d r. t = Node l a True d r"
  by (cases t) auto

lemma is_LF_Cons: "is_LF k \<Longrightarrow> \<exists>q cq dq rq k'. k = LF q cq dq rq # k'"
  by (auto elim: is_LF.elims)

lemma rb_fix_rounds_induct [consumes 1, case_names flip_root flip right left stop]:
  assumes "t \<noteq> Leaf"
    and "\<And>l p c d r. is_red l \<Longrightarrow> is_red r \<Longrightarrow> P (Node l p c d r) []"
    and "\<And>l p c d r f k. is_red l \<Longrightarrow> is_red r \<Longrightarrow> P (fill f (Node (blacken l) p True d (blacken r))) k \<Longrightarrow> P (Node l p c d r) (f # k)"
    and "\<And>l p d r q cq dq rq k. is_red l \<Longrightarrow> \<not> is_red r \<Longrightarrow> P (Node l p cq d (Node r q True dq rq)) k \<Longrightarrow>
      P (Node l p True d r) (LF q cq dq rq # k)"
    and "\<And>l p c d rl y dy rr k. \<not> is_red l \<Longrightarrow> P (Node (Node l p True d rl) y c dy rr) k \<Longrightarrow>
      P (Node l p c d (Node rl y True dy rr)) k"
    and "\<And>l p c d r k. \<not> is_red r \<Longrightarrow> \<not> (is_red l \<and> c \<and> is_LF k) \<Longrightarrow> P (Node l p c d r) k"
  shows "P t k"
  using assms(1)
proof (induction t k rule: rb_fix.induct)
  case (2 l p c d r k)
  consider (flip) "is_red l" "is_red r" | (right) "is_red l" "\<not> is_red r" "c" "is_LF k"
    | (left) "is_red r" "\<not> is_red l" | (stop) "\<not> is_red r" "\<not> (is_red l \<and> c \<and> is_LF k)" by blast
  then show ?case
  proof cases
    case flip
    have "fill f t \<noteq> Leaf" for f and t :: "'a rtree" by (cases f) auto
    then show ?thesis using assms(2,3) 2(1) flip by (cases k) auto
  next
    case right
    then obtain q cq dq rq k' where k: "k = LF q cq dq rq # k'" using is_LF_Cons by blast
    then show ?thesis using assms(4) [of l r p cq d q dq rq k'] 2(2) [OF _ _ k refl] right by auto
  next
    case left
    then obtain rl y dy rr where r: "r = Node rl y True dy rr" using is_red_Node by blast
    then show ?thesis using assms(5) [of l p d rl y c dy rr k] 2(3) [OF _ _ _ r] left by auto
  qed (rule assms(6))
qed simp

text \<open>A bound on the rounds of the loop, from the length of the path and the size of the tree.\<close>

definition rb_rounds :: "'d rtree \<Rightarrow> 'd frame list \<Rightarrow> nat" where
  "rb_rounds t k = length k * Suc (length (addrs (plug k t))) + rsize t"

lemma length_plug: "length (addrs (plug k t)) = length (addrs t) + length (caddrs k)"
  using plug_addrs [of k t] by (metis length_append mset_eq_length)

lemma rsize_less: "t \<noteq> Leaf \<Longrightarrow> rsize t < length (addrs t)"
  by (cases t) auto

lemma length_blacken [simp]: "length (addrs (blacken t)) = length (addrs t)"
  by (cases t) auto

lemma rb_rounds_pop:
  assumes "length (addrs t') + length (caddrs k') = length (addrs t) + length (caddrs k)" "length k = Suc (length k')" "t' \<noteq> Leaf"
  shows "rb_rounds t' k' < rb_rounds t k"
proof -
  have "rsize t' < Suc (length (addrs t) + length (caddrs k))" using rsize_less [OF assms(3)] assms(1) by simp
  then show ?thesis using assms(1,2) by (simp add: rb_rounds_def length_plug)
qed

lemma rbtree_fixup_run:
  assumes z: "zrep tr (Node l p c d r) k"
  shows "getn tr p = Inr (mknode (rootp l) (rootp r) (cparent k) c d)" "rbtree_is_red tr (rootp l) = Inr (is_red l)"
    "rbtree_is_red tr (rootp r) = Inr (is_red r)" "red_left_child tr p = Inr (c \<and> is_LF k)"
  using z rbtree_is_red_sim red_left_child_sim [OF z] by (auto simp: zrep_def node_ops)

lemma rbtree_fixup_sim:
  assumes "t \<noteq> Leaf" "zrep tr t k" "rb_rounds t k + 2 \<le> fuel"
  shows "\<exists>tr'. rbtree_fixup fuel tr (rootp t) = Inr tr' \<and> zrep tr' (rb_fix t k) [] \<and> same_env tr tr'"
  using assms
proof (induction t k arbitrary: tr fuel rule: rb_fix_rounds_induct)
  case (flip_root l p c d r)
  obtain fu where fu: "fuel = Suc (Suc fu)" using flip_root(4) by (metis add_2_eq_Suc' Suc_le_D Suc_le_mono)
  have "l \<noteq> Leaf" "r \<noteq> Leaf" using flip_root by auto
  from rbtree_flipcolor_sim [OF flip_root(3) this] obtain tr1 where tr1: "rbtree_flipcolor tr p = Inr tr1"
    "zrep tr1 (Node (blacken l) p False d (blacken r)) []" "same_env tr tr1" by auto
  have "getn tr1 p = Inr (mknode (rootp (blacken l)) (rootp (blacken r)) None False d)"
    using tr1(2) by (simp add: zrep_def node_ops)
  then show ?case using flip_root(1,2) tr1 by (simp add: fu rbtree_fixup_run [OF flip_root(3)] rb_fix_flip_root)
next
  case (flip l p c d r f k)
  let ?t = "fill f (Node (blacken l) p True d (blacken r))"
  obtain fu where fu: "fuel = Suc fu" using flip.prems(2) by (cases fuel) auto
  have "l \<noteq> Leaf" "r \<noteq> Leaf" using flip by auto
  from rbtree_flipcolor_sim [OF flip.prems(1) this] obtain tr1 where tr1: "rbtree_flipcolor tr p = Inr tr1"
    "zrep tr1 (Node (blacken l) p True d (blacken r)) (f # k)" "same_env tr tr1" by auto
  have n1: "getn tr1 p = Inr (mknode (rootp (blacken l)) (rootp (blacken r)) (Some (faddr f)) True d)"
    using tr1(2) by (simp add: zrep_def node_ops)
  have "rbtree_fixup fuel tr (Some p) = rbtree_fixup fu tr1 (rootp ?t)"
    using flip(1,2) by (simp add: fu rbtree_fixup_run [OF flip.prems(1)] tr1(1) n1)
  moreover have "zrep tr1 ?t k" using tr1(2) by (simp add: zrep_up)
  moreover have "rb_rounds ?t k < rb_rounds (Node l p c d r) (f # k)"
    by (rule rb_rounds_pop) (cases f; simp)+
  ultimately show ?case
    using flip.IH [of tr1 fu] flip.prems(2) fu tr1(3) flip(1,2) by (simp add: rb_fix_flip)
next
  case (right l p d r q cq dq rq k)
  let ?t = "Node l p cq d (Node r q True dq rq)"
  obtain fu where fu: "fuel = Suc fu" using right.prems(2) by (cases fuel) auto
  have "zrep tr (Node (Node l p True d r) q cq dq rq) k" using right.prems(1) by (simp add: zrep_up)
  from rbtree_right_rotate_sim [OF this] obtain tr1 where tr1: "rbtree_right_rotate tr (Some q) = Inr (Some p, tr1)"
    "zrep tr1 ?t k" "same_env tr tr1" by blast
  have "rbtree_fixup fuel tr (Some p) = rbtree_fixup fu tr1 (rootp ?t)"
    using right(1,2) by (simp add: fu rbtree_fixup_run [OF right.prems(1)] tr1(1))
  moreover have "rb_rounds ?t k < rb_rounds (Node l p True d r) (LF q cq dq rq # k)"
    by (rule rb_rounds_pop) simp_all
  ultimately show ?case
    using right.IH [of tr1 fu] right.prems(2) fu tr1(2,3) right(1,2) by (simp add: rb_fix_right)
next
  case (left l p c d rl y dy rr k)
  let ?t = "Node (Node l p True d rl) y c dy rr"
  obtain fu where fu: "fuel = Suc fu" using left.prems(2) by (cases fuel) auto
  from rbtree_left_rotate_sim [OF left.prems(1)] obtain tr1 where tr1: "rbtree_left_rotate tr (Some p) = Inr (Some y, tr1)"
    "zrep tr1 ?t k" "same_env tr tr1" by blast
  have "rbtree_fixup fuel tr (Some p) = rbtree_fixup fu tr1 (rootp ?t)"
    using left(1) rbtree_fixup_run [OF left.prems(1)] by (simp add: fu tr1(1))
  moreover have "rb_rounds ?t k < rb_rounds (Node l p c d (Node rl y True dy rr)) k" by (simp add: rb_rounds_def length_plug)
  ultimately show ?case
    using left.IH [of tr1 fu] left.prems(2) fu tr1(2,3) left(1) by (simp add: rb_fix_left)
next
  case (stop l p c d r k)
  obtain fu where fu: "fuel = Suc fu" using stop.prems(2) by (cases fuel) auto
  have "rbtree_fixup fuel tr (Some p) = Inr tr"
    using stop(1,2) by (auto simp: fu rbtree_fixup_run [OF stop.prems(1)])
  then show ?case using stop zrep_plug [of tr _ k] by (simp add: rb_fix_stop)
qed

section \<open>Search and insertion on trees\<close>

text \<open>The descent: the subtree where it stops, a node with equal data or a leaf, and the path to it.\<close>

fun descend :: "('d \<Rightarrow> 'd \<Rightarrow> int) \<Rightarrow> 'd \<Rightarrow> 'd rtree \<Rightarrow> 'd frame list \<Rightarrow> 'd rtree \<times> 'd frame list" where
  "descend cmp d Leaf k = (Leaf, k)"
| "descend cmp d (Node l a c e r) k =
     (if cmp d e = 0 then (Node l a c e r, k)
      else if cmp d e < 0 then descend cmp d l (LF a c e r # k)
      else descend cmp d r (RF l a c e # k))"

fun rb_insert :: "('d \<Rightarrow> 'd \<Rightarrow> int) \<Rightarrow> addr \<Rightarrow> 'd \<Rightarrow> 'd rtree \<Rightarrow> 'd rtree" where
  "rb_insert cmp a d Leaf = Node Leaf a False d Leaf"
| "rb_insert cmp a d t =
     (case descend cmp d t [] of
        (Node l b c e r, k) \<Rightarrow> plug k (Node l b c d r)
      | (Leaf, f # k) \<Rightarrow> rb_fix (fill f (Node Leaf a True d Leaf)) k
      | (Leaf, []) \<Rightarrow> Leaf)"

lemma descend_plug: "descend cmp d t k = (t', k') \<Longrightarrow> plug k' t' = plug k t"
  by (induction cmp d t k rule: descend.induct) (auto split: if_splits)

lemma descend_zrep: "descend cmp d t k = (t', k') \<Longrightarrow> zrep tr t k \<Longrightarrow> zrep tr t' k'"
  by (metis descend_plug zrep_plug)

lemma descend_path: "descend cmp d t k = (t', k') \<Longrightarrow> t \<noteq> Leaf \<or> k \<noteq> [] \<Longrightarrow> t' \<noteq> Leaf \<or> k' \<noteq> []"
  by (induction cmp d t k rule: descend.induct) (auto split: if_splits)

text \<open>The last comparison of the descent decides the side of the new node.\<close>

definition side_ok :: "('d \<Rightarrow> 'd \<Rightarrow> int) \<Rightarrow> 'd \<Rightarrow> 'd frame list \<Rightarrow> bool" where
  "side_ok cmp d k \<longleftrightarrow> (case k of [] \<Rightarrow> True | LF a c e r # k' \<Rightarrow> cmp d e < 0 | RF l a c e # k' \<Rightarrow> \<not> cmp d e < 0)"

lemma descend_side: "descend cmp d t k = (t', k') \<Longrightarrow> side_ok cmp d k \<Longrightarrow> side_ok cmp d k'"
  by (induction cmp d t k rule: descend.induct) (auto simp: side_ok_def split: if_splits)

lemma repr_getn: "repr (mem tr) q (Node l a c e r) \<Longrightarrow> getn tr a = Inr (mknode (rootp l) (rootp r) q c e)"
  by (simp add: node_ops)

lemma rbtree_find_pos_sim:
  assumes "zrep tr t k" "descend cmp d t k = (t', k')" "length (addrs t) < fuel" "y = cparent k"
  shows "rbtree_find_pos fuel cmp tr d (rootp t) y =
    Inr (case t' of Leaf \<Rightarrow> (False, cparent k') | Node l a c e r \<Rightarrow> (True, Some a))"
  using assms
proof (induction cmp d t k arbitrary: fuel y rule: descend.induct)
  case (1 cmp d k)
  then show ?case by (cases fuel) auto
next
  case (2 cmp d l a c e r k)
  obtain fu where fu: "fuel = Suc fu" using "2.prems"(3) by (cases fuel) auto
  have n: "getn tr a = Inr (mknode (rootp l) (rootp r) (cparent k) c e)"
    using "2.prems"(1) by (simp add: zrep_def repr_getn)
  have zl: "zrep tr l (LF a c e r # k)" and zr: "zrep tr r (RF l a c e # k)"
    using "2.prems"(1) by (simp_all add: zrep_up)
  show ?case
    using "2.IH"(1) [OF _ _ zl, of fu "Some a"] "2.IH"(2) [OF _ _ zr, of fu "Some a"] "2.prems"(2,3) fu n
    by (auto simp: Let_def split: if_splits)
qed

fun rb_search :: "('d \<Rightarrow> 'd \<Rightarrow> int) \<Rightarrow> 'd \<Rightarrow> 'd rtree \<Rightarrow> addr option" where
  "rb_search cmp d Leaf = None"
| "rb_search cmp d (Node l a c e r) =
     (if cmp d e = 0 then Some a else if cmp d e < 0 then rb_search cmp d l else rb_search cmp d r)"

lemma rbtree_search_loop_sim:
  "repr (mem tr) q t \<Longrightarrow> length (addrs t) < fuel \<Longrightarrow> rbtree_search_loop fuel cmp tr d (rootp t) = Inr (rb_search cmp d t)"
proof (induction cmp d t arbitrary: fuel q rule: rb_search.induct)
  case (1 cmp d)
  then show ?case by (cases fuel) auto
next
  case (2 cmp d l a c e r)
  then obtain fu where fu: "fuel = Suc fu" by (cases fuel) auto
  show ?case using 2 fu by (auto simp: Let_def node_ops)
qed

lemma rbtree_walk_sim:
  "repr (mem tr) q t \<Longrightarrow> length (addrs t) < fuel \<Longrightarrow> rbtree_inorder_walk_r fuel tr (rootp t) xs = Inr (xs @ inorder t)"
proof (induction t arbitrary: fuel q xs)
  case Leaf
  then show ?case by (cases fuel) auto
next
  case (Node l a c e r)
  then obtain fu where fu: "fuel = Suc fu" by (cases fuel) auto
  show ?case using Node fu by (auto simp: node_ops)
qed

section \<open>The insertion\<close>

lemma plug_seq_cong:
  "inorder t = inorder t' \<Longrightarrow> inorder (plug k t) = inorder (plug k t')"
  "addrs t = addrs t' \<Longrightarrow> addrs (plug k t) = addrs (plug k t')"
proof (induction k arbitrary: t t')
  case (Cons f k)
  { case 1 then show ?case using Cons.IH(1) [of "fill f t" "fill f t'"] by (cases f) simp_all }
  { case 2 then show ?case using Cons.IH(2) [of "fill f t" "fill f t'"] by (cases f) simp_all }
qed simp_all

lemma blacken_seq [simp]: "inorder (blacken t) = inorder t" "addrs (blacken t) = addrs t"
  by (cases t; simp)+

lemma rb_fix_seq:
  assumes "t \<noteq> Leaf"
  shows "inorder (rb_fix t k) = inorder (plug k t) \<and> addrs (rb_fix t k) = addrs (plug k t)"
  using assms
proof (induction t k rule: rb_fix_rounds_induct)
  case (flip l p c d r f k)
  then show ?case
    using plug_seq_cong [of "fill f (Node (blacken l) p True d (blacken r))" "fill f (Node l p c d r)" k]
    by (cases f) (simp_all add: rb_fix_flip)
next
  case (right l p d r q cq dq rq k)
  then show ?case
    using plug_seq_cong [of "Node l p cq d (Node r q True dq rq)" "Node (Node l p True d r) q cq dq rq" k]
    by (simp add: rb_fix_right)
next
  case (left l p c d rl y dy rr k)
  then show ?case
    using plug_seq_cong [of "Node (Node l p True d rl) y c dy rr" "Node l p c d (Node rl y True dy rr)" k]
    by (simp add: rb_fix_left)
qed (simp_all add: rb_fix_flip_root rb_fix_stop)

definition tree_inv :: "'d rb_tree \<Rightarrow> 'd rtree \<Rightarrow> bool" where
  "tree_inv tr t \<longleftrightarrow> zrep tr t [] \<and> np_inv (pool tr) \<and> set (addrs t) \<subseteq> np_used (pool tr)"

lemma zrep_set_data:
  assumes "zrep tr (Node l b c e r) k"
  shows "\<exists>tr'. updn tr b (\<lambda>n. n\<lparr>n_data := d\<rparr>) = Inr tr' \<and> zrep tr' (Node l b c d r) k \<and> same_env tr tr'"
  using assms by (auto simp: zrep_def node_ops)

lemma zrep_attach:
  assumes z: "zrep tr Leaf (f # k)" and a: "a \<notin> set (caddrs (f # k))" and side: "side_ok cmp d (f # k)"
    and m: "mem tr' = (mem tr)(a \<mapsto> mknode None None None c0 d)" "root tr' = root tr"
  shows "\<exists>e tr2. getn tr (faddr f) = Inr e \<and>
    bindr (updn tr' a (\<lambda>n. n\<lparr>n_red := True\<rparr>)) (\<lambda>tr.
    bindr (if cmp d (n_data e) < 0 then updn tr (faddr f) (\<lambda>n. n\<lparr>n_left := Some a\<rparr>)
           else updn tr (faddr f) (\<lambda>n. n\<lparr>n_right := Some a\<rparr>)) (\<lambda>tr.
    updn tr a (\<lambda>n. n\<lparr>n_p := Some (faddr f)\<rparr>))) = Inr tr2 \<and>
    zrep tr2 (fill f (Node Leaf a True d Leaf)) k \<and> same_env tr' tr2"
  using assms by (cases f) (auto simp: zrep_def node_ops side_ok_def)

text \<open>Fuel that is enough for a tree of \<open>n\<close> nodes.\<close>

definition rb_fuel :: "nat \<Rightarrow> nat" where
  "rb_fuel n = (n + 3) * (n + 3)"

lemma length_path: "length k \<le> length (caddrs k)"
proof (induction k)
  case (Cons f k)
  then show ?case by (cases f) auto
qed simp

lemma rb_rounds_bound:
  assumes "t \<noteq> Leaf"
  shows "rb_rounds t k + 2 \<le> rb_fuel (length (addrs (plug k t)))"
proof -
  let ?n = "length (addrs (plug k t))"
  have "length k \<le> ?n" using length_path [of k] by (simp add: length_plug)
  then have "length k * Suc ?n \<le> ?n * Suc ?n" by (intro mult_le_mono1)
  moreover have "rsize t \<le> ?n" using rsize_less [OF assms] by (simp add: length_plug)
  ultimately show ?thesis by (simp add: rb_rounds_def rb_fuel_def algebra_simps)
qed

lemma rb_fuel_mono: "m \<le> n \<Longrightarrow> rb_fuel m \<le> rb_fuel n"
  by (simp add: rb_fuel_def mult_le_mono)

lemma rb_fuel_gt: "n + 1 < rb_fuel n"
  by (simp add: rb_fuel_def algebra_simps)

lemma set_plug: "set (addrs (plug k t)) = set (addrs t) \<union> set (caddrs k)"
  using plug_addrs [of k t] by (metis mset_eq_setD set_append)

lemma rb_insert_new:
  assumes "t \<noteq> Leaf" "descend cmp d t [] = (Leaf, f # k)"
  shows "rb_insert cmp a d t = rb_fix (fill f (Node Leaf a True d Leaf)) k"
  using assms by (cases t) simp_all

lemma rb_insert_found:
  assumes "t \<noteq> Leaf" "descend cmp d t [] = (Node l b c e r, k)"
  shows "rb_insert cmp a d t = plug k (Node l b c d r)"
  using assms by (cases t) simp_all

lemma node_new_sim:
  assumes "tree_inv tr t"
  shows "\<exists>a tr'. node_new True tr d = Inr (a, tr') \<and> mem tr' = (mem tr)(a \<mapsto> mknode None None None False d) \<and>
    root tr' = root tr \<and> a \<notin> set (addrs t) \<and> np_inv (pool tr') \<and> np_used (pool tr') = insert a (np_used (pool tr)) \<and>
    frees tr' = frees tr \<and> freed tr' = freed tr"
proof -
  have "np_inv (pool tr)" "set (addrs t) \<subseteq> np_used (pool tr)" using assms by (auto simp: tree_inv_def)
  moreover from node_new_addr_law [OF this(1)] obtain a pl where "node_new_addr True (pool tr) = Inr (a, pl)"
    "np_inv pl" "a \<notin> np_used (pool tr)" "np_used pl = insert a (np_used (pool tr))" by blast
  ultimately show ?thesis
    by (intro exI [of _ a] exI [of _ "tr\<lparr>pool := pl, mem := (mem tr)(a \<mapsto> mknode None None None False d)\<rparr>"])
      (auto simp: node_new_def)
qed

lemma rbtree_insert_new_sim:
  assumes inv: "tree_inv tr t" and ne: "t \<noteq> Leaf" and ds: "descend cmp d t [] = (Leaf, f # k)"
    and fuel: "rb_fuel (Suc (length (addrs t))) \<le> fuel"
  shows "\<exists>a tr'. rbtree_insert True fuel cmp tr d = Inr (a, tr') \<and> tree_inv tr' (rb_insert cmp a d t) \<and>
    frees tr' = frees tr \<and> freed tr' = freed tr \<and> a \<notin> set (addrs t)"
proof -
  have z0: "zrep tr t []" using inv by (simp add: tree_inv_def)
  have root: "root tr = rootp t" "root tr \<noteq> None" using z0 ne by (cases t; simp add: zrep_def)+
  have pl: "plug (f # k) Leaf = t" using descend_plug [OF ds] by simp
  then have ca: "set (addrs t) = set (caddrs (f # k))" "length (addrs t) = length (caddrs (f # k))"
    using plug_addrs [of "f # k" Leaf] by (metis append_Nil addrs.simps(1) set_mset_mset mset_eq_length)+
  have z: "zrep tr Leaf (f # k)" using descend_zrep [OF ds z0] .
  have side: "side_ok cmp d (f # k)" using descend_side [OF ds] by (simp add: side_ok_def)
  have "length (addrs t) < fuel" using fuel rb_fuel_gt [of "Suc (length (addrs t))"] by linarith
  from rbtree_find_pos_sim [OF z0 ds this refl] have fp: "rbtree_find_pos fuel cmp tr d (root tr) None = Inr (False, Some (faddr f))"
    by (simp add: root)
  obtain a tr1 where n: "node_new True tr d = Inr (a, tr1)" "mem tr1 = (mem tr)(a \<mapsto> mknode None None None False d)"
    "root tr1 = root tr" "a \<notin> set (addrs t)" "np_inv (pool tr1)" "np_used (pool tr1) = insert a (np_used (pool tr))"
    "frees tr1 = frees tr" "freed tr1 = freed tr" using node_new_sim [OF inv] by blast
  have "a \<notin> set (caddrs (f # k))" using n(4) ca by simp
  from zrep_attach [OF z this side n(2,3)] obtain e tr2 where e: "getn tr (faddr f) = Inr e" and
    at: "bindr (updn tr1 a (\<lambda>n. n\<lparr>n_red := True\<rparr>)) (\<lambda>tr.
    bindr (if cmp d (n_data e) < 0 then updn tr (faddr f) (\<lambda>n. n\<lparr>n_left := Some a\<rparr>)
           else updn tr (faddr f) (\<lambda>n. n\<lparr>n_right := Some a\<rparr>)) (\<lambda>tr.
    updn tr a (\<lambda>n. n\<lparr>n_p := Some (faddr f)\<rparr>))) = Inr tr2"
    and z2: "zrep tr2 (fill f (Node Leaf a True d Leaf)) k" and env: "same_env tr1 tr2" by blast
  let ?t = "fill f (Node Leaf a True d Leaf)"
  have tn: "?t \<noteq> Leaf" by (cases f) auto
  have len: "length (addrs (plug k ?t)) = Suc (length (addrs t))"
    using ca(2) by (cases f) (simp_all add: length_plug)
  have st: "set (addrs (plug k ?t)) = insert a (set (addrs t))"
    using ca(1) by (cases f) (auto simp: set_plug)
  have "rb_rounds ?t k + 2 \<le> fuel" using rb_rounds_bound [OF tn, of k] len fuel by simp
  from rbtree_fixup_sim [OF tn z2 this] obtain tr3 where tr3: "rbtree_fixup fuel tr2 (Some (faddr f)) = Inr tr3"
    "zrep tr3 (rb_fix ?t k) []" "same_env tr2 tr3" by auto
  have "rbtree_insert True fuel cmp tr d = bindr (bindr (updn tr1 a (\<lambda>n. n\<lparr>n_red := True\<rparr>)) (\<lambda>tr.
    bindr (if cmp d (n_data e) < 0 then updn tr (faddr f) (\<lambda>n. n\<lparr>n_left := Some a\<rparr>)
           else updn tr (faddr f) (\<lambda>n. n\<lparr>n_right := Some a\<rparr>)) (\<lambda>tr.
    updn tr a (\<lambda>n. n\<lparr>n_p := Some (faddr f)\<rparr>)))) (\<lambda>tr. bindr (rbtree_fixup fuel tr (Some (faddr f))) (\<lambda>tr. Inr (a, tr)))"
    unfolding rbtree_insert_def using root(2) by (simp only: if_False) (simp add: fp e n(1) bindr_assoc)
  then have run: "rbtree_insert True fuel cmp tr d = Inr (a, tr3)" unfolding at by (simp add: tr3(1))
  have "set (addrs (rb_fix ?t k)) \<subseteq> np_used (pool tr3)"
    using rb_fix_seq [OF tn, of k] st env tr3(3) n(6) inv by (auto simp: tree_inv_def)
  then have "tree_inv tr3 (rb_insert cmp a d t)"
    using tr3 env n(5) rb_insert_new [OF ne ds] by (simp add: tree_inv_def)
  with run show ?thesis using env tr3(3) n by auto
qed

lemma rbtree_insert_found_sim:
  assumes inv: "tree_inv tr t" and ne: "t \<noteq> Leaf" and ds: "descend cmp d t [] = (Node l b c e r, k)"
    and fuel: "rb_fuel (Suc (length (addrs t))) \<le> fuel"
  shows "\<exists>tr'. rbtree_insert True fuel cmp tr d = Inr (b, tr') \<and> tree_inv tr' (rb_insert cmp b d t) \<and>
    frees tr' = frees tr \<and> freed tr' = (if frees tr then e # freed tr else freed tr) \<and> b \<in> set (addrs t)"
proof -
  have z0: "zrep tr t []" using inv by (simp add: tree_inv_def)
  have root: "root tr = rootp t" "root tr \<noteq> None" using z0 ne by (cases t; simp add: zrep_def)+
  have z: "zrep tr (Node l b c e r) k" using descend_zrep [OF ds z0] .
  have "length (addrs t) < fuel" using fuel rb_fuel_gt [of "Suc (length (addrs t))"] by linarith
  from rbtree_find_pos_sim [OF z0 ds this refl] have fp: "rbtree_find_pos fuel cmp tr d (root tr) None = Inr (True, Some b)"
    by (simp add: root)
  have e: "getn tr b = Inr (mknode (rootp l) (rootp r) (cparent k) c e)" using z by (simp add: zrep_def node_ops)
  let ?tr = "if frees tr then tr\<lparr>freed := e # freed tr\<rparr> else tr"
  have "zrep ?tr (Node l b c e r) k" using z by (simp add: zrep_def)
  from zrep_set_data [OF this, of d] obtain tr1 where tr1: "updn ?tr b (\<lambda>n. n\<lparr>n_data := d\<rparr>) = Inr tr1"
    "zrep tr1 (Node l b c d r) k" "same_env ?tr tr1" by blast
  have run: "rbtree_insert True fuel cmp tr d = Inr (b, tr1)" unfolding rbtree_insert_def using root(2) tr1(1) by (cases "frees tr") (simp_all only: if_False, simp_all add: fp e)
  have "plug k (Node l b c e r) = t" using descend_plug [OF ds] by simp
  then have ad: "addrs (plug k (Node l b c d r)) = addrs t" using plug_seq_cong(2) [of "Node l b c d r" "Node l b c e r" k] by simp
  have "zrep tr1 (plug k (Node l b c d r)) []" using tr1(2) zrep_plug by blast
  moreover have "pool tr1 = pool tr" using tr1(3) by simp
  ultimately have "tree_inv tr1 (rb_insert cmp b d t)"
    using inv ad by (simp add: tree_inv_def rb_insert_found [OF ne ds])
  moreover have "b \<in> set (addrs t)" using ad set_plug [of k "Node l b c d r"] by auto
  ultimately show ?thesis using run tr1(3) by auto
qed

lemma rbtree_insert_empty_sim:
  assumes inv: "tree_inv tr Leaf"
  shows "\<exists>a tr'. rbtree_insert True fuel cmp tr d = Inr (a, tr') \<and> tree_inv tr' (rb_insert cmp a d Leaf) \<and>
    frees tr' = frees tr \<and> freed tr' = freed tr"
proof -
  have "root tr = None" using inv by (simp add: tree_inv_def zrep_def)
  moreover obtain a tr1 where n: "node_new True tr d = Inr (a, tr1)" "mem tr1 = (mem tr)(a \<mapsto> mknode None None None False d)"
    "np_inv (pool tr1)" "np_used (pool tr1) = insert a (np_used (pool tr))"
    "frees tr1 = frees tr" "freed tr1 = freed tr" using node_new_sim [OF inv] by blast
  ultimately show ?thesis
    by (intro exI [of _ a] exI [of _ "tr1\<lparr>root := Some a\<rparr>"]) (auto simp: rbtree_insert_def tree_inv_def zrep_def node_ops fun_upd_idem)
qed

text \<open>\<open>at_pos a t\<close>: \<open>a\<close> is the address of the node where the descent stopped, if it stopped at one.\<close>

fun at_pos :: "addr \<Rightarrow> 'd rtree \<Rightarrow> bool" where
  "at_pos a Leaf = True"
| "at_pos a (Node l b c e r) = (a = b)"

lemma rbtree_insert_sim:
  assumes inv: "tree_inv tr t" and fuel: "rb_fuel (Suc (length (addrs t))) \<le> fuel"
  shows "\<exists>a tr'. rbtree_insert True fuel cmp tr d = Inr (a, tr') \<and> tree_inv tr' (rb_insert cmp a d t) \<and> frees tr' = frees tr \<and>
    at_pos a (fst (descend cmp d t []))"
proof (cases t)
  case Leaf
  then show ?thesis using rbtree_insert_empty_sim [of tr fuel cmp d] inv by auto
next
  case (Node l0 a0 c0 d0 r0)
  then have ne: "t \<noteq> Leaf" by simp
  obtain t' k where ds: "descend cmp d t [] = (t', k)" by force
  show ?thesis
  proof (cases t')
    case Leaf
    then obtain f k' where "k = f # k'" using descend_path [OF ds] ne by (cases k) auto
    with ds Leaf have ds': "descend cmp d t [] = (Leaf, f # k')" by simp
    then have "at_pos a (fst (descend cmp d t []))" for a by simp
    then show ?thesis using rbtree_insert_new_sim [OF inv ne ds' fuel] by blast
  next
    case (Node l b c e r)
    with ds have ds': "descend cmp d t [] = (Node l b c e r, k)" by simp
    then have "at_pos b (fst (descend cmp d t []))" by simp
    then show ?thesis using rbtree_insert_found_sim [OF inv ne ds' fuel] by blast
  qed
qed

lemma rbtree_search_sim:
  assumes "tree_inv tr t" "length (addrs t) < fuel"
  shows "rbtree_search fuel cmp tr d = Inr (rb_search cmp d t)"
proof -
  have "repr (mem tr) None t" "root tr = rootp t" using assms(1) by (simp_all add: tree_inv_def zrep_def)
  then show ?thesis using rbtree_search_loop_sim [of tr None t fuel cmp d] assms(2) by (simp add: rbtree_search_def)
qed

lemma rbtree_inorder_walk_sim:
  assumes "tree_inv tr t" "length (addrs t) < fuel"
  shows "rbtree_inorder_walk fuel tr = Inr (inorder t)"
proof -
  have "repr (mem tr) None t" "root tr = rootp t" using assms(1) by (simp_all add: tree_inv_def zrep_def)
  then show ?thesis using rbtree_walk_sim [of tr None t fuel "[]"] assms(2) by (simp add: rbtree_inorder_walk_def)
qed

lemma rb_tree_init_inv: "1 \<le> n \<Longrightarrow> tree_inv (rb_tree_init n f) Leaf"
  using node_pool_init_inv [of n] by (simp add: tree_inv_def rb_tree_init_def zrep_def)

end
