(* ===== verification/RB_Tree_Correct.thy ===== *)
theory RB_Tree_Correct
  imports RB_Tree_Refine
begin

text \<open>
  Correctness of the red-black tree: the shape invariant (no red right child, no red child of a red
  node, equal black heights, black root), the order under a lawful comparison, and what they give for
  the pointer program: insertion behaves as insertion into a sorted list, search finds exactly what was
  inserted, and takes logarithmically many steps.
\<close>

section \<open>Shape\<close>

fun llrb :: "nat \<Rightarrow> 'd rtree \<Rightarrow> bool" where
  "llrb h Leaf \<longleftrightarrow> h = 0"
| "llrb h (Node l a c d r) \<longleftrightarrow> \<not> is_red r \<and> (c \<longrightarrow> \<not> is_red l) \<and>
     (if c then llrb h l \<and> llrb h r else \<exists>h'. h = Suc h' \<and> llrb h' l \<and> llrb h' r)"

text \<open>\<open>path_ok k c h\<close>: the path \<open>k\<close> is well formed around a subtree of colour \<open>c\<close> and black height \<open>h\<close>.\<close>

fun path_ok :: "'d frame list \<Rightarrow> bool \<Rightarrow> nat \<Rightarrow> bool" where
  "path_ok [] c h \<longleftrightarrow> \<not> c"
| "path_ok (LF a ca d r # k) c h \<longleftrightarrow>
     \<not> (ca \<and> c) \<and> \<not> is_red r \<and> llrb h r \<and> path_ok k ca (if ca then h else Suc h)"
| "path_ok (RF l a ca d # k) c h \<longleftrightarrow>
     \<not> c \<and> (ca \<longrightarrow> \<not> is_red l) \<and> llrb h l \<and> path_ok k ca (if ca then h else Suc h)"

definition rb_ok :: "'d rtree \<Rightarrow> bool" where
  "rb_ok t \<longleftrightarrow> \<not> is_red t \<and> (\<exists>h. llrb h t)"

lemma llrb_plug: "llrb h t \<Longrightarrow> path_ok k (is_red t) h \<Longrightarrow> rb_ok (plug k t)"
proof (induction k arbitrary: t h)
  case Nil
  then show ?case by (auto simp: rb_ok_def)
next
  case (Cons f k)
  then show ?case by (cases f) (auto split: if_splits intro!: Cons.IH)
qed

lemma llrb_blacken: "llrb h t \<Longrightarrow> is_red t \<Longrightarrow> llrb (Suc h) (blacken t)"
  by (cases t) auto

lemma is_red_blacken [simp]: "\<not> is_red (blacken t)"
  by (cases t) auto

text \<open>What holds in every round: both subtrees are fine, at most one colour violation is at the
  current node, and the path above is fine for the node's colour.\<close>

fun fix_ok :: "'d rtree \<Rightarrow> 'd frame list \<Rightarrow> bool" where
  "fix_ok Leaf k = False"
| "fix_ok (Node l p c d r) k \<longleftrightarrow> (\<exists>h. llrb h l \<and> llrb h r \<and> path_ok k c (if c then h else Suc h) \<and> (c \<longrightarrow> \<not> (is_red l \<and> is_red r)))"

lemma path_ok_red: "path_ok k True h \<Longrightarrow> is_LF k"
  by (cases "(k, True, h)" rule: path_ok.cases) auto

lemma rb_fix_ok:
  assumes "t \<noteq> Leaf" "fix_ok t k"
  shows "rb_ok (rb_fix t k)"
  using assms
proof (induction t k rule: rb_fix_rounds_induct)
  case (flip_root l p c d r)
  then obtain h where "llrb h l" "llrb h r" by auto
  then have "llrb (Suc (Suc h)) (Node (blacken l) p False d (blacken r))" using flip_root(1,2) llrb_blacken by auto
  then show ?case using flip_root by (auto simp: rb_fix_flip_root rb_ok_def simp del: llrb.simps)
next
  case (flip l p c d r f k)
  from flip.prems flip(1,2) obtain h where h: "llrb h l" "llrb h r" "path_ok (f # k) False (Suc h)" by auto
  then have "llrb (Suc h) (Node (blacken l) p True d (blacken r))" using flip(1,2) llrb_blacken by auto
  then have "fix_ok (fill f (Node (blacken l) p True d (blacken r))) k"
    using h(3) by (cases f) (auto simp del: llrb.simps intro!: exI [of _ "Suc h"])
  then show ?case using flip by (simp add: rb_fix_flip)
next
  case (right l p d r q cq dq rq k)
  then have "fix_ok (Node l p cq d (Node r q True dq rq)) k" by auto
  then show ?case using right by (simp add: rb_fix_right)
next
  case (left l p c d rl y dy rr k)
  then have "fix_ok (Node (Node l p True d rl) y c dy rr) k" by auto
  then show ?case using left by (simp add: rb_fix_left)
next
  case (stop l p c d r k)
  then obtain h where h: "llrb h l" "llrb h r" "path_ok k c (if c then h else Suc h)" by auto
  have "c \<longrightarrow> \<not> is_red l" using stop(2) h(3) path_ok_red by (cases c) auto
  then have "llrb (if c then h else Suc h) (Node l p c d r)" using h stop(1) by auto
  then show ?case using llrb_plug [of _ "Node l p c d r" k] h(3) stop by (simp add: rb_fix_stop del: llrb.simps)
qed

lemma descend_ok:
  "descend cmp d t k = (t', k') \<Longrightarrow> llrb h t \<Longrightarrow> path_ok k (is_red t) h \<Longrightarrow> \<exists>h'. llrb h' t' \<and> path_ok k' (is_red t') h'"
proof (induction cmp d t k arbitrary: h rule: descend.induct)
  case (2 cmp d l a c e r k)
  obtain h0 where h0: "llrb h0 l" "llrb h0 r" "\<not> is_red r" "c \<longrightarrow> \<not> is_red l" "h = (if c then h0 else Suc h0)"
    using "2.prems"(2) by (auto split: if_splits)
  show ?case
    using "2.IH"(1) [OF _ _ _ h0(1)] "2.IH"(2) [OF _ _ _ h0(2)] "2.prems" h0
    by (auto simp del: llrb.simps split: if_splits)
qed auto

lemma rb_insert_ok:
  assumes "rb_ok t"
  shows "rb_ok (rb_insert cmp a d t)"
proof (cases "t = Leaf")
  case True
  then show ?thesis by (simp add: rb_ok_def)
next
  case False
  from assms obtain h where h: "\<not> is_red t" "llrb h t" by (auto simp: rb_ok_def)
  obtain t' k where ds: "descend cmp d t [] = (t', k)" by force
  from descend_ok [OF ds h(2)] h(1) obtain h' where h': "llrb h' t'" "path_ok k (is_red t') h'" by auto
  show ?thesis
  proof (cases t')
    case Leaf
    then obtain f k' where k: "k = f # k'" using descend_path [OF ds] False by (cases k) auto
    have "fix_ok (fill f (Node Leaf a True d Leaf)) k'" using h' Leaf k by (cases f) auto
    moreover have "fill f (Node Leaf a True d Leaf) \<noteq> Leaf" by (cases f) auto
    ultimately show ?thesis using rb_fix_ok rb_insert_new [OF False] ds Leaf k by metis
  next
    case (Node l b c e r)
    then have "llrb h' (Node l b c d r)" "path_ok k (is_red (Node l b c d r)) h'" using h' by auto
    then show ?thesis using llrb_plug rb_insert_found [OF False] ds Node by metis
  qed
qed

section \<open>Height\<close>

fun height :: "'d rtree \<Rightarrow> nat" where
  "height Leaf = 0"
| "height (Node l a c d r) = Suc (max (height l) (height r))"

lemma llrb_height: "llrb h t \<Longrightarrow> height t \<le> 2 * h + (if is_red t then 1 else 0)"
  by (induction h t rule: llrb.induct) (fastforce split: if_splits)+

lemma llrb_size: "llrb h t \<Longrightarrow> 2 ^ h \<le> Suc (length (addrs t))"
proof (induction t arbitrary: h)
  case (Node l a c d r)
  show ?case
  proof (cases c)
    case True
    then show ?thesis using Node.IH(1) [of h] Node.prems by simp
  next
    case False
    then obtain h' where "h = Suc h'" "llrb h' l" "llrb h' r" using Node.prems by auto
    then show ?thesis using Node.IH [of h'] by simp
  qed
qed simp

lemma rb_ok_height: "rb_ok t \<Longrightarrow> 2 ^ height t \<le> (Suc (length (addrs t)))\<^sup>2"
proof -
  assume "rb_ok t"
  then obtain h where h: "\<not> is_red t" "llrb h t" by (auto simp: rb_ok_def)
  have "(2::nat) ^ height t \<le> 2 ^ (2 * h)" using llrb_height [OF h(2)] h(1) by (intro power_increasing) auto
  also have "\<dots> = (2 ^ h)\<^sup>2" by (simp add: power_even_eq)
  also have "\<dots> \<le> (Suc (length (addrs t)))\<^sup>2" using llrb_size [OF h(2)] by (intro power_mono) auto
  finally show ?thesis .
qed

section \<open>Order\<close>

fun cpre :: "'d frame list \<Rightarrow> 'd list" where
  "cpre [] = []"
| "cpre (LF a c d r # k) = cpre k"
| "cpre (RF l a c d # k) = cpre k @ inorder l @ [d]"

fun cpost :: "'d frame list \<Rightarrow> 'd list" where
  "cpost [] = []"
| "cpost (LF a c d r # k) = d # inorder r @ cpost k"
| "cpost (RF l a c d # k) = cpost k"

lemma inorder_plug: "inorder (plug k t) = cpre k @ inorder t @ cpost k"
proof (induction k arbitrary: t)
  case (Cons f k)
  then show ?case by (cases f) simp_all
qed simp

fun nodes :: "'d rtree \<Rightarrow> (addr \<times> 'd) list" where
  "nodes Leaf = []"
| "nodes (Node l a c d r) = nodes l @ (a, d) # nodes r"

text \<open>The abstract specification: insertion into a sorted list, equal data being replaced.\<close>

fun ins_sorted :: "('d \<Rightarrow> 'd \<Rightarrow> int) \<Rightarrow> 'd \<Rightarrow> 'd list \<Rightarrow> 'd list" where
  "ins_sorted cmp d [] = [d]"
| "ins_sorted cmp d (e # es) =
     (if cmp d e < 0 then d # e # es else if cmp d e = 0 then d # es else e # ins_sorted cmp d es)"

abbreviation sorted_by :: "('d \<Rightarrow> 'd \<Rightarrow> int) \<Rightarrow> 'd list \<Rightarrow> bool" where
  "sorted_by cmp \<equiv> sorted_wrt (\<lambda>a b. cmp a b < 0)"

lemma ins_sorted_app: "\<forall>e \<in> set xs. 0 < cmp d e \<Longrightarrow> ins_sorted cmp d (xs @ ys) = xs @ ins_sorted cmp d ys"
  by (induction xs) auto

lemma ins_sorted_low: "\<forall>e \<in> set ys. cmp d e < 0 \<Longrightarrow> ins_sorted cmp d ys = d # ys"
  by (cases ys) auto

lemma set_ins_sorted: "set (ins_sorted cmp d xs) \<subseteq> insert d (set xs)"
  by (induction xs) auto

text \<open>The contract of the comparison callback, on the data that satisfy \<open>valid\<close>.\<close>

locale node_order =
  fixes valid :: "'d \<Rightarrow> bool" and cmp :: "'d \<Rightarrow> 'd \<Rightarrow> int"
  assumes cmp_refl: "valid a \<Longrightarrow> cmp a a = 0"
    and cmp_neg: "valid a \<Longrightarrow> valid b \<Longrightarrow> cmp a b < 0 \<longleftrightarrow> 0 < cmp b a"
    and cmp_trans: "valid a \<Longrightarrow> valid b \<Longrightarrow> valid c \<Longrightarrow> cmp a b \<le> 0 \<Longrightarrow> cmp b c \<le> 0 \<Longrightarrow> cmp a c \<le> 0"
begin

lemma cmp_sym0: "valid a \<Longrightarrow> valid b \<Longrightarrow> cmp a b = 0 \<longleftrightarrow> cmp b a = 0"
  using cmp_neg [of a b] cmp_neg [of b a] by auto

lemma cmp_le_lt: "valid a \<Longrightarrow> valid b \<Longrightarrow> valid c \<Longrightarrow> cmp a b \<le> 0 \<Longrightarrow> cmp b c < 0 \<Longrightarrow> cmp a c < 0"
  using cmp_trans [of a b c] cmp_trans [of c a b] cmp_neg [of c b] cmp_neg [of b c] cmp_sym0 [of a c] by fastforce

lemma cmp_lt_le: "valid a \<Longrightarrow> valid b \<Longrightarrow> valid c \<Longrightarrow> cmp a b < 0 \<Longrightarrow> cmp b c \<le> 0 \<Longrightarrow> cmp a c < 0"
  using cmp_trans [of a b c] cmp_trans [of b c a] cmp_neg [of b a] cmp_neg [of a b] cmp_sym0 [of a c] by fastforce

lemma cmp_ge_gt: "valid a \<Longrightarrow> valid b \<Longrightarrow> valid c \<Longrightarrow> 0 \<le> cmp a b \<Longrightarrow> cmp c b < 0 \<Longrightarrow> 0 < cmp a c"
  using cmp_lt_le [of c b a] cmp_neg [of c a] cmp_neg [of a b] cmp_sym0 [of a b] cmp_neg [of b a] by fastforce

lemma sorted_ins:
  "\<forall>e \<in> set xs. valid e \<Longrightarrow> valid d \<Longrightarrow> sorted_by cmp xs \<Longrightarrow> sorted_by cmp (ins_sorted cmp d xs)"
proof (induction xs)
  case (Cons e es)
  have ve: "valid e" "\<forall>x \<in> set es. valid x" "\<forall>x \<in> set es. cmp e x < 0" using Cons.prems by auto
  consider "cmp d e < 0" | "cmp d e = 0" | "0 < cmp d e" by linarith
  then show ?case
  proof cases
    case 3
    have "cmp e x < 0" if "x \<in> set (ins_sorted cmp d es)" for x
      using that set_ins_sorted [of cmp d es] ve 3 cmp_neg [of e d] Cons.prems(2) by auto
    then show ?thesis using 3 Cons by auto
  qed (use Cons ve cmp_le_lt in \<open>auto intro: less_imp_le\<close>)
qed simp

text \<open>On the way down, everything to the left of the position is smaller and everything to the
  right is greater.\<close>

lemma descend_order:
  assumes "descend cmp d t k = (t', k')" "\<forall>e \<in> set (inorder (plug k t)). valid e" "valid d"
    "sorted_by cmp (inorder (plug k t))" "\<forall>e \<in> set (cpre k). 0 < cmp d e" "\<forall>e \<in> set (cpost k). cmp d e < 0"
  shows "(\<forall>e \<in> set (cpre k'). 0 < cmp d e) \<and> (\<forall>e \<in> set (cpost k'). cmp d e < 0) \<and>
    (case t' of Leaf \<Rightarrow> True | Node l a c e r \<Rightarrow> cmp d e = 0 \<and> (\<forall>x \<in> set (inorder l). 0 < cmp d x))"
  using assms
proof (induction cmp' \<equiv> cmp d t k rule: descend.induct)
  case (2 d l a c e r k)
  have v: "valid e" "\<forall>x \<in> set (inorder l). valid x \<and> cmp x e < 0" "\<forall>x \<in> set (inorder r). valid x \<and> cmp e x < 0"
    using "2.prems"(2,4) by (auto simp: inorder_plug sorted_wrt_append)
  have pl: "plug (LF a c e r # k) l = plug k (Node l a c e r)" "plug (RF l a c e # k) r = plug k (Node l a c e r)" by auto
  consider (eq) "cmp d e = 0" | (lt) "cmp d e < 0" | (gt) "0 < cmp d e" by linarith
  then show ?case
  proof cases
    case eq
    have "\<forall>x \<in> set (inorder l). 0 < cmp d x" using v eq cmp_ge_gt [of d e] "2.prems"(3) by auto
    then show ?thesis using eq "2.prems" by auto
  next
    case lt
    have "\<forall>x \<in> set (cpost (LF a c e r # k)). cmp d x < 0"
      using lt v cmp_lt_le [of d e] "2.prems"(3,6) by (auto intro: less_imp_le)
    then show ?thesis using "2.hyps"(1) lt "2.prems" pl by auto
  next
    case gt
    have "\<forall>x \<in> set (cpre (RF l a c e # k)). 0 < cmp d x"
      using gt v cmp_ge_gt [of d e] "2.prems"(3,5) by auto
    then show ?thesis using "2.hyps"(2) gt "2.prems" pl by auto
  qed
qed auto

lemma rb_insert_inorder:
  assumes "\<forall>e \<in> set (inorder t). valid e" "valid d" "sorted_by cmp (inorder t)"
  shows "inorder (rb_insert cmp a d t) = ins_sorted cmp d (inorder t)"
proof (cases "t = Leaf")
  case False
  obtain t' k where ds: "descend cmp d t [] = (t', k)" by force
  from descend_order [OF ds] assms have o: "\<forall>e \<in> set (cpre k). 0 < cmp d e" "\<forall>e \<in> set (cpost k). cmp d e < 0"
    "case t' of Leaf \<Rightarrow> True | Node l a c e r \<Rightarrow> cmp d e = 0 \<and> (\<forall>x \<in> set (inorder l). 0 < cmp d x)" by auto
  have t: "inorder t = cpre k @ inorder t' @ cpost k" using descend_plug [OF ds] inorder_plug by (metis plug.simps(1))
  show ?thesis
  proof (cases t')
    case Leaf
    then obtain f k' where k: "k = f # k'" using descend_path [OF ds] False by (cases k) auto
    have "fill f (Node Leaf a True d Leaf) \<noteq> Leaf" by (cases f) auto
    then have "inorder (rb_insert cmp a d t) = inorder (plug k (Node Leaf a True d Leaf))"
      using rb_fix_seq rb_insert_new [OF False] ds Leaf k by (metis plug.simps(2))
    then show ?thesis using t o Leaf by (simp add: inorder_plug ins_sorted_app ins_sorted_low)
  next
    case (Node l b c e r)
    then have "inorder (rb_insert cmp a d t) = cpre k @ inorder l @ d # inorder r @ cpost k"
      using rb_insert_found [OF False] ds by (simp add: inorder_plug)
    then show ?thesis using t o Node by (simp add: ins_sorted_app)
  qed
qed simp

text \<open>Search finds the datum equal to the argument, and its node.\<close>

lemma rb_search_spec:
  assumes "\<forall>e \<in> set (inorder t). valid e" "valid d" "sorted_by cmp (inorder t)"
  shows "case rb_search cmp d t of
      None \<Rightarrow> \<forall>e \<in> set (inorder t). cmp d e \<noteq> 0
    | Some a \<Rightarrow> \<exists>e. (a, e) \<in> set (nodes t) \<and> cmp d e = 0"
  using assms
proof (induction cmp' \<equiv> cmp d t rule: rb_search.induct)
  case (2 d l a c e r)
  have v: "valid e" "\<forall>x \<in> set (inorder l). valid x \<and> cmp x e < 0" "\<forall>x \<in> set (inorder r). valid x \<and> cmp e x < 0"
    using "2.prems" by (auto simp: sorted_wrt_append)
  have gt': "0 < cmp d x" if "0 < cmp d e" "x \<in> set (inorder l)" for x
    using that v cmp_ge_gt [of d e x] "2.prems"(2) by auto
  have lt': "cmp d x < 0" if "cmp d e < 0" "x \<in> set (inorder r)" for x
    using that v cmp_lt_le [of d e x] "2.prems"(2) by (auto intro: less_imp_le)
  consider (eq) "cmp d e = 0" | (lt) "cmp d e < 0" | (gt) "0 < cmp d e" by linarith
  then show ?case
  proof cases
    case eq
    then show ?thesis by auto
  next
    case lt
    with lt' have "\<forall>x \<in> set (inorder r). cmp d x \<noteq> 0" by force
    then show ?thesis using lt "2.hyps"(1) "2.prems" by (auto simp: sorted_wrt_append split: option.splits)
  next
    case gt
    with gt' have "\<forall>x \<in> set (inorder l). cmp d x \<noteq> 0" by force
    then show ?thesis using gt "2.hyps"(2) "2.prems" by (auto simp: sorted_wrt_append split: option.splits)
  qed
qed simp

lemma find_ins_sorted:
  assumes "\<forall>e \<in> set xs. valid e" "valid d" "valid x" "sorted_by cmp xs"
  shows "find (\<lambda>e. cmp d e = 0) (ins_sorted cmp x xs) = (if cmp d x = 0 then Some x else find (\<lambda>e. cmp d e = 0) xs)"
  using assms
proof (induction xs)
  case (Cons e es)
  have same: "cmp d e = 0" if "cmp d x = 0" "cmp x e = 0"
    using that cmp_trans [of d x e] cmp_trans [of e x d] cmp_sym0 [of d x] cmp_sym0 [of x e] cmp_neg [of d e] cmp_neg [of e d] Cons.prems
    by (metis linorder_neqE_linordered_idom not_less order_refl list.set_intros(1))
  have other: "cmp d e \<noteq> 0" if "cmp d x \<noteq> 0" "cmp x e = 0"
    using that cmp_trans [of d e x] cmp_trans [of x e d] cmp_sym0 [of d e] cmp_sym0 [of x e] cmp_neg [of d x] cmp_neg [of x d] Cons.prems
    by (metis linorder_neqE_linordered_idom not_less order_refl list.set_intros(1))
  have gt: "cmp d e \<noteq> 0" if "0 < cmp x e" "cmp d x = 0"
    using that cmp_lt_le [of e x d] cmp_neg [of e x] cmp_sym0 [of d x] cmp_sym0 [of d e] Cons.prems by fastforce
  show ?case using Cons same other gt by auto
qed simp

lemma equal_unique:
  assumes "\<forall>e \<in> set xs. valid e" "valid d" "sorted_by cmp xs" "x \<in> set xs" "e \<in> set xs" "cmp d x = 0" "cmp d e = 0"
  shows "x = e"
proof (rule ccontr)
  assume "x \<noteq> e"
  then have "cmp x e < 0 \<or> cmp e x < 0"
    using assms(3,4,5) by (auto simp: in_set_conv_nth sorted_wrt_iff_nth_less) (metis linorder_neqE_nat)
  moreover have v: "valid x" "valid e" using assms(1,4,5) by auto
  moreover have "cmp x e \<le> 0" "cmp e x \<le> 0"
    using cmp_trans [OF v(1) assms(2) v(2)] cmp_trans [OF v(2) assms(2) v(1)]
      cmp_sym0 [OF v(1) assms(2)] cmp_sym0 [OF v(2) assms(2)] assms(6,7) by simp_all
  ultimately show False using cmp_neg v by force
qed

lemma find_equal:
  assumes "\<forall>e \<in> set xs. valid e" "valid d" "sorted_by cmp xs" "e \<in> set xs" "cmp d e = 0"
  shows "find (\<lambda>x. cmp d x = 0) xs = Some e"
proof (cases "find (\<lambda>x. cmp d x = 0) xs")
  case None
  then show ?thesis using assms(4,5) by (auto simp: find_None_iff)
next
  case (Some x)
  then have "x \<in> set xs" "cmp d x = 0" by (auto simp: find_Some_iff)
  then show ?thesis using equal_unique [OF assms(1-3) _ assms(4) _ assms(5)] Some by blast
qed

lemma ins_sorted_valid: "\<forall>e \<in> set xs. valid e \<Longrightarrow> valid d \<Longrightarrow> \<forall>e \<in> set (ins_sorted cmp d xs). valid e"
  using set_ins_sorted [of cmp d xs] by auto

lemma ins_sorted_set:
  assumes "\<forall>e \<in> set xs. valid e" "valid d" "sorted_by cmp xs"
  shows "set (ins_sorted cmp d xs) = insert d {e \<in> set xs. cmp d e \<noteq> 0}"
  using assms
proof (induction xs)
  case (Cons e es)
  have ve: "valid e" "\<forall>x \<in> set es. valid x" "\<forall>x \<in> set es. cmp e x < 0" using Cons.prems by auto
  have "cmp d x \<noteq> 0" if "cmp d e \<le> 0" "x \<in> set es" for x using cmp_le_lt [of d e x] that ve Cons.prems(2) by fastforce
  then show ?case using Cons by auto
qed simp

lemma find_fold_ins:
  assumes "\<forall>e \<in> set xs. valid e" "\<forall>e \<in> set ds. valid e" "valid d" "sorted_by cmp xs"
  shows "find (\<lambda>e. cmp d e = 0) (fold (ins_sorted cmp) ds xs) =
    (case find (\<lambda>e. cmp d e = 0) (rev ds) of None \<Rightarrow> find (\<lambda>e. cmp d e = 0) xs | Some e \<Rightarrow> Some e)"
  using assms
proof (induction ds arbitrary: xs)
  case (Cons x ds)
  have "\<forall>e \<in> set (ins_sorted cmp x xs). valid e" "sorted_by cmp (ins_sorted cmp x xs)"
    using Cons.prems ins_sorted_valid [of xs x] sorted_ins [of xs x] by auto
  then show ?case
    using Cons.IH [of "ins_sorted cmp x xs"] Cons.prems find_ins_sorted [of xs d x]
    by (auto simp: find_append split: option.splits)
qed simp

end

section \<open>The program\<close>

fun rbtree_insert_all :: "nat \<Rightarrow> ('d \<Rightarrow> 'd \<Rightarrow> int) \<Rightarrow> 'd rb_tree \<Rightarrow> 'd list \<Rightarrow> cerr + 'd rb_tree" where
  "rbtree_insert_all fuel cmp tr [] = Inr tr"
| "rbtree_insert_all fuel cmp tr (d # ds) =
     bindr (rbtree_insert True fuel cmp tr d) (\<lambda>(a, tr). rbtree_insert_all fuel cmp tr ds)"

lemma length_inorder: "length (inorder t) = length (addrs t)"
  by (induction t) auto

lemma nodes_zip: "nodes t = zip (addrs t) (inorder t)"
  by (induction t) (simp_all add: length_inorder)

lemma repr_nodes: "repr h q t \<Longrightarrow> (a, e) \<in> set (nodes t) \<Longrightarrow> map_option n_data (h a) = Some e"
  by (induction t arbitrary: q) auto

lemma tree_inv_nodes: "tree_inv tr t \<Longrightarrow> (a, e) \<in> set (nodes t) \<Longrightarrow> map_option n_data (mem tr a) = Some e"
  using repr_nodes by (fastforce simp: tree_inv_def zrep_def)

lemma nodes_plug: "set (nodes t) \<subseteq> set (nodes (plug k t))"
proof (induction k arbitrary: t)
  case (Cons f k)
  have "set (nodes t) \<subseteq> set (nodes (fill f t))" by (cases f) auto
  then show ?case using Cons.IH [of "fill f t"] by auto
qed simp

lemma length_rb_insert: "length (addrs (rb_insert cmp a d t)) \<le> Suc (length (addrs t))"
proof (cases "t = Leaf")
  case False
  obtain t' k where ds: "descend cmp d t [] = (t', k)" by force
  have pl: "plug k t' = t" using descend_plug [OF ds] by simp
  show ?thesis
  proof (cases t')
    case Leaf
    then obtain f k' where k: "k = f # k'" using descend_path [OF ds] False by (cases k) auto
    have "fill f (Node Leaf a True d Leaf) \<noteq> Leaf" by (cases f) auto
    then have "addrs (rb_insert cmp a d t) = addrs (plug k (Node Leaf a True d Leaf))"
      using rb_fix_seq rb_insert_new [OF False] ds Leaf k by (metis plug.simps(2))
    moreover have "length (caddrs k) = length (addrs t)" using pl Leaf length_plug [of k Leaf] by auto
    ultimately show ?thesis by (simp add: length_plug)
  next
    case (Node l b c e r)
    then show ?thesis using rb_insert_found [OF False] ds pl length_plug [of k] by (metis addrs.simps(2) le_SucI order_refl)
  qed
qed simp

lemma rb_insert_node:
  assumes "at_pos a (fst (descend cmp d t []))"
  shows "(a, d) \<in> set (nodes (rb_insert cmp a d t))"
proof (cases "t = Leaf")
  case False
  obtain t' k' where ds: "descend cmp d t [] = (t', k')" by force
  show ?thesis
  proof (cases t')
    case Leaf
    then obtain f k2 where k: "k' = f # k2" using descend_path [OF ds] False by (cases k') auto
    have "fill f (Node Leaf a True d Leaf) \<noteq> Leaf" by (cases f) auto
    then have "nodes (rb_insert cmp a d t) = nodes (plug k' (Node Leaf a True d Leaf))"
      using rb_fix_seq rb_insert_new [OF False] ds Leaf k by (metis plug.simps(2) nodes_zip)
    then show ?thesis using nodes_plug [of "Node Leaf a True d Leaf" k'] by auto
  next
    case (Node l b c e r)
    then show ?thesis using assms rb_insert_found [OF False] ds nodes_plug [of "Node l b c d r" k'] by auto
  qed
qed simp

text \<open>What a sequence of insertions into a sorted tree means under any lawful comparison.\<close>

definition ins_spec :: "('d \<Rightarrow> 'd \<Rightarrow> int) \<Rightarrow> 'd list \<Rightarrow> 'd list \<Rightarrow> 'd list \<Rightarrow> bool" where
  "ins_spec cmp xs ds ys \<longleftrightarrow>
     (\<forall>valid. node_order valid cmp \<longrightarrow> (\<forall>e \<in> set xs \<union> set ds. valid e) \<longrightarrow> sorted_by cmp xs \<longrightarrow>
      ys = fold (ins_sorted cmp) ds xs \<and> sorted_by cmp ys \<and> (\<forall>e \<in> set ys. valid e))"

lemma ins_spec_step:
  assumes "ins_spec cmp (inorder (rb_insert cmp a d t)) ds ys"
  shows "ins_spec cmp (inorder t) (d # ds) ys"
  unfolding ins_spec_def
proof (intro allI impI)
  fix valid assume o: "node_order valid cmp" and v: "\<forall>e \<in> set (inorder t) \<union> set (d # ds). valid e" and s: "sorted_by cmp (inorder t)"
  have i: "inorder (rb_insert cmp a d t) = ins_sorted cmp d (inorder t)" using node_order.rb_insert_inorder [OF o] v s by auto
  moreover have "sorted_by cmp (ins_sorted cmp d (inorder t))" using node_order.sorted_ins [OF o] v s by auto
  moreover have "\<forall>e \<in> set (ins_sorted cmp d (inorder t)). valid e" using node_order.ins_sorted_valid [OF o] v by auto
  moreover have "\<forall>e \<in> set ds. valid e" using v by auto
  ultimately show "ys = fold (ins_sorted cmp) (d # ds) (inorder t) \<and> sorted_by cmp ys \<and> (\<forall>e \<in> set ys. valid e)"
    using assms o unfolding ins_spec_def by (metis UnE fold_simps(2))
qed

lemma rbtree_insert_all_sim:
  assumes "tree_inv tr t" "rb_ok t" "rb_fuel (length (addrs t) + length ds) \<le> fuel"
  shows "\<exists>tr' t'. rbtree_insert_all fuel cmp tr ds = Inr tr' \<and> tree_inv tr' t' \<and> rb_ok t' \<and>
    length (addrs t') \<le> length (addrs t) + length ds \<and> ins_spec cmp (inorder t) ds (inorder t')"
  using assms
proof (induction ds arbitrary: tr t)
  case Nil
  then show ?case by (auto simp: ins_spec_def)
next
  case (Cons d ds)
  have f1: "rb_fuel (Suc (length (addrs t))) \<le> fuel"
    using Cons.prems(3) rb_fuel_mono [of "Suc (length (addrs t))" "length (addrs t) + length (d # ds)"] by simp
  from rbtree_insert_sim [OF Cons.prems(1) f1] obtain a tr1 where tr1: "rbtree_insert True fuel cmp tr d = Inr (a, tr1)"
    "tree_inv tr1 (rb_insert cmp a d t)" by blast
  let ?t = "rb_insert cmp a d t"
  have len: "length (addrs ?t) \<le> Suc (length (addrs t))" by (rule length_rb_insert)
  then have f2: "rb_fuel (length (addrs ?t) + length ds) \<le> fuel"
    using Cons.prems(3) rb_fuel_mono [of "length (addrs ?t) + length ds" "length (addrs t) + length (d # ds)"] by simp
  from Cons.IH [OF tr1(2) rb_insert_ok [OF Cons.prems(2)] f2] obtain tr' t' where
    t': "rbtree_insert_all fuel cmp tr1 ds = Inr tr'" "tree_inv tr' t'" "rb_ok t'" "length (addrs t') \<le> length (addrs ?t) + length ds"
    "ins_spec cmp (inorder ?t) ds (inorder t')" by blast
  then show ?case using tr1(1) len ins_spec_step [OF t'(5)] by (intro exI [of _ tr'] exI [of _ t']) auto
qed

text \<open>The comparison the graph programs install: by the keys of the bags' nodes, a bag without a node
  (\<open>None\<close>) comparing equal to everything.\<close>

definition graph_node_cmp :: "int option \<Rightarrow> int option \<Rightarrow> int" where
  "graph_node_cmp na nb =
     (case (na, nb) of (Some a, Some b) \<Rightarrow> if a < b then - 1 else if a = b then 0 else 1 | _ \<Rightarrow> 0)"

interpretation graph_bags: node_order "\<lambda>n. n \<noteq> None" graph_node_cmp
  by unfold_locales (auto simp: graph_node_cmp_def split: if_splits)

lemma rbtree_search_loop_height:
  "repr (mem tr) q t \<Longrightarrow> height t < fuel \<Longrightarrow> rbtree_search_loop fuel cmp tr d (rootp t) = Inr (rb_search cmp d t)"
proof (induction cmp d t arbitrary: fuel q rule: rb_search.induct)
  case (1 cmp d)
  then show ?case by (cases fuel) auto
next
  case (2 cmp d l a c e r)
  then obtain fu where fu: "fuel = Suc fu" by (cases fuel) auto
  show ?case using 2 fu by (auto simp: Let_def node_ops)
qed

lemma rb_ok_Leaf: "rb_ok Leaf"
  by (simp add: rb_ok_def)

lemma rbtree_built:
  assumes "1 \<le> n" "rb_fuel (length ds) \<le> fuel"
  shows "\<exists>tr t. rbtree_insert_all fuel cmp (rb_tree_init n f) ds = Inr tr \<and> tree_inv tr t \<and> rb_ok t \<and>
    length (addrs t) \<le> length ds \<and> ins_spec cmp [] ds (inorder t) \<and> length (addrs t) < fuel"
proof -
  from rbtree_insert_all_sim [OF rb_tree_init_inv [OF assms(1)] rb_ok_Leaf, of ds fuel cmp f] assms(2)
  obtain tr t where "rbtree_insert_all fuel cmp (rb_tree_init n f) ds = Inr tr" "tree_inv tr t" "rb_ok t"
    "length (addrs t) \<le> length ds" "ins_spec cmp [] ds (inorder t)" by auto
  then show ?thesis using rb_fuel_gt [of "length ds"] assms(2) by (intro exI [of _ tr] exI [of _ t]) auto
qed

text \<open>A search in a heap that holds a sorted tree returns the node of the equal datum.\<close>

lemma rbtree_search_find:
  assumes "tree_inv tr t" "length (addrs t) < fuel" "node_order valid cmp" "\<forall>e \<in> set (inorder t). valid e" "valid d" "sorted_by cmp (inorder t)"
  shows "\<exists>r. rbtree_search fuel cmp tr d = Inr r \<and>
    (case r of None \<Rightarrow> None | Some a \<Rightarrow> map_option n_data (mem tr a)) = find (\<lambda>e. cmp d e = 0) (inorder t) \<and>
    (r = None \<longleftrightarrow> find (\<lambda>e. cmp d e = 0) (inorder t) = None)"
proof -
  note spec = node_order.rb_search_spec [OF assms(3-6)]
  have "(case rb_search cmp d t of None \<Rightarrow> None | Some a \<Rightarrow> map_option n_data (mem tr a)) = find (\<lambda>e. cmp d e = 0) (inorder t) \<and>
    (rb_search cmp d t = None \<longleftrightarrow> find (\<lambda>e. cmp d e = 0) (inorder t) = None)"
  proof (cases "rb_search cmp d t")
    case None
    then show ?thesis using spec by (auto simp: find_None_iff2 find_None_iff)
  next
    case (Some a)
    then obtain e where e: "(a, e) \<in> set (nodes t)" "cmp d e = 0" using spec by auto
    have "e \<in> set (inorder t)" using e(1) by (auto simp: nodes_zip dest: set_zip_rightD)
    then have "find (\<lambda>e. cmp d e = 0) (inorder t) = Some e"
      using node_order.find_equal [OF assms(3-6)] e(2) by blast
    then show ?thesis using tree_inv_nodes [OF assms(1) e(1)] Some by simp
  qed
  then show ?thesis by (intro exI [of _ "rb_search cmp d t"] conjI [OF rbtree_search_sim [OF assms(1,2)]])
qed

text \<open>C6: A tree built by any sequence of insertions is a map: with a lawful comparison, \<open>rbtree_search\<close>
  returns a node that holds the last inserted datum equal to the argument, and null exactly if no
  such datum was inserted. The insertions and the search all return.\<close>

theorem rbtree_search_finds:
  assumes "node_order valid cmp" "\<forall>e \<in> set ds. valid e" "valid d" "1 \<le> n" "rb_fuel (length ds) \<le> fuel"
  shows "\<exists>tr r. rbtree_insert_all fuel cmp (rb_tree_init n f) ds = Inr tr \<and> rbtree_search fuel cmp tr d = Inr r \<and>
    (case r of None \<Rightarrow> None | Some a \<Rightarrow> map_option n_data (mem tr a)) = find (\<lambda>e. cmp d e = 0) (rev ds)"
proof -
  obtain tr t where t: "rbtree_insert_all fuel cmp (rb_tree_init n f) ds = Inr tr" "tree_inv tr t"
    "length (addrs t) < fuel" "ins_spec cmp [] ds (inorder t)" using rbtree_built [OF assms(4,5)] by blast
  have i: "inorder t = fold (ins_sorted cmp) ds []" "sorted_by cmp (inorder t)" "\<forall>e \<in> set (inorder t). valid e"
    using t(4) assms(1,2) by (auto simp: ins_spec_def)
  have f: "find (\<lambda>e. cmp d e = 0) (inorder t) = find (\<lambda>e. cmp d e = 0) (rev ds)"
    using node_order.find_fold_ins [OF assms(1), of "[]" ds d] assms(2,3) i(1) by (auto split: option.splits)
  from rbtree_search_find [OF t(2,3) assms(1) i(3) assms(3) i(2)] obtain r where "rbtree_search fuel cmp tr d = Inr r"
    "(case r of None \<Rightarrow> None | Some a \<Rightarrow> map_option n_data (mem tr a)) = find (\<lambda>e. cmp d e = 0) (inorder t)" by blast
  then show ?thesis unfolding f using t(1) by blast
qed

definition demo_keys :: "int option list" where
  "demo_keys = map Some [10, 3, 7, 1, 9, 2, 8, 3]"

lemma demo_keys_valid: "\<forall>e \<in> set demo_keys. e \<noteq> None"
  by (auto simp: demo_keys_def)

theorem rbtree_search_finds_witness:
  "\<exists>tr r. rbtree_insert_all 121 graph_node_cmp (rb_tree_init 8 False) demo_keys = Inr tr \<and>
    rbtree_search 121 graph_node_cmp tr (Some 7) = Inr r \<and>
    (case r of None \<Rightarrow> None | Some a \<Rightarrow> map_option n_data (mem tr a)) = find (\<lambda>e. graph_node_cmp (Some 7) e = 0) (rev demo_keys)"
  by (rule rbtree_search_finds [OF graph_bags.node_order_axioms demo_keys_valid]) (simp_all add: demo_keys_def rb_fuel_def)

text \<open>C7: After any sequence of insertions with a lawful comparison, the in-order walk lists the result
  of inserting the data one by one into a sorted list, equal data being replaced; it is strictly
  sorted.\<close>

theorem rbtree_walk_sorted:
  assumes "node_order valid cmp" "\<forall>e \<in> set ds. valid e" "1 \<le> n" "rb_fuel (length ds) \<le> fuel"
  shows "\<exists>tr. rbtree_insert_all fuel cmp (rb_tree_init n f) ds = Inr tr \<and>
    rbtree_inorder_walk fuel tr = Inr (fold (ins_sorted cmp) ds []) \<and> sorted_by cmp (fold (ins_sorted cmp) ds [])"
proof -
  obtain tr t where t: "rbtree_insert_all fuel cmp (rb_tree_init n f) ds = Inr tr" "tree_inv tr t"
    "length (addrs t) < fuel" "ins_spec cmp [] ds (inorder t)" using rbtree_built [OF assms(3,4)] by blast
  have "inorder t = fold (ins_sorted cmp) ds []" "sorted_by cmp (inorder t)"
    using t(4) assms(1,2) by (auto simp: ins_spec_def)
  then show ?thesis using t(1) rbtree_inorder_walk_sim [OF t(2,3)] by auto
qed

theorem rbtree_walk_sorted_witness:
  "\<exists>tr. rbtree_insert_all 121 graph_node_cmp (rb_tree_init 8 False) demo_keys = Inr tr \<and>
    rbtree_inorder_walk 121 tr = Inr (fold (ins_sorted graph_node_cmp) demo_keys []) \<and>
    sorted_by graph_node_cmp (fold (ins_sorted graph_node_cmp) demo_keys [])"
  by (rule rbtree_walk_sorted [OF graph_bags.node_order_axioms demo_keys_valid]) (simp_all add: demo_keys_def rb_fuel_def)

text \<open>C8: Whatever the comparison answers, an insertion into a heap that holds a left-leaning red-black
  tree returns, leaves the heap holding such a tree again (links, parents and colours consistent,
  black root, no red right child, no red child of a red node, equal black heights), and the
  node it returns holds the datum.\<close>

theorem rbtree_insert_keeps_shape:
  assumes "tree_inv tr t" "rb_ok t" "rb_fuel (Suc (length (addrs t))) \<le> fuel"
  shows "\<exists>a tr' t'. rbtree_insert True fuel cmp tr d = Inr (a, tr') \<and> tree_inv tr' t' \<and> rb_ok t' \<and>
    map_option n_data (mem tr' a) = Some d"
proof -
  from rbtree_insert_sim [OF assms(1,3)] obtain a tr' where r: "rbtree_insert True fuel cmp tr d = Inr (a, tr')"
    "tree_inv tr' (rb_insert cmp a d t)" "at_pos a (fst (descend cmp d t []))" by blast
  then show ?thesis using rb_insert_ok [OF assms(2)] tree_inv_nodes [OF r(2) rb_insert_node [OF r(3)]] by blast
qed

theorem rbtree_insert_keeps_shape_witness:
  "\<exists>a tr' t'. rbtree_insert True 16 (-) (rb_tree_init 8 False) (5 :: int) = Inr (a, tr') \<and> tree_inv tr' t' \<and> rb_ok t' \<and>
    map_option n_data (mem tr' a) = Some 5"
  by (rule rbtree_insert_keeps_shape [OF rb_tree_init_inv rb_ok_Leaf]) (simp_all add: rb_fuel_def)

text \<open>C9: The tree is balanced: after \<open>m\<close> insertions, whatever the comparison, a search ends within
  \<open>h + 1\<close> rounds for some \<open>h\<close> with \<open>2 ^ h \<le> (m + 1)\<^sup>2\<close>.\<close>

theorem rbtree_search_logarithmic:
  assumes "1 \<le> n" "rb_fuel (length ds) \<le> fuel"
  shows "\<exists>tr h. rbtree_insert_all fuel cmp (rb_tree_init n f) ds = Inr tr \<and> 2 ^ h \<le> (Suc (length ds))\<^sup>2 \<and>
    (\<forall>d. \<exists>r. rbtree_search (Suc h) cmp tr d = Inr r \<and> rbtree_search fuel cmp tr d = Inr r)"
proof -
  obtain tr t where t: "rbtree_insert_all fuel cmp (rb_tree_init n f) ds = Inr tr" "tree_inv tr t" "rb_ok t"
    "length (addrs t) \<le> length ds" "length (addrs t) < fuel" using rbtree_built [OF assms] by blast
  have "repr (mem tr) None t" "root tr = rootp t" using t(2) by (simp_all add: tree_inv_def zrep_def)
  then have "rbtree_search (Suc (height t)) cmp tr d = Inr (rb_search cmp d t)" for d
    using rbtree_search_loop_height [of tr None t "Suc (height t)" cmp d] by (simp add: rbtree_search_def)
  moreover have "2 ^ height t \<le> (Suc (length ds))\<^sup>2"
    using rb_ok_height [OF t(3)] power_mono [of "Suc (length (addrs t))" "Suc (length ds)" 2] t(4) by linarith
  ultimately show ?thesis using t(1) rbtree_search_sim [OF t(2,5)] by blast
qed

theorem rbtree_search_logarithmic_witness:
  "\<exists>tr h. rbtree_insert_all 121 graph_node_cmp (rb_tree_init 8 False) demo_keys = Inr tr \<and> 2 ^ h \<le> (Suc (length demo_keys))\<^sup>2 \<and>
    (\<forall>d. \<exists>r. rbtree_search (Suc h) graph_node_cmp tr d = Inr r \<and> rbtree_search 121 graph_node_cmp tr d = Inr r)"
  by (rule rbtree_search_logarithmic) (simp_all add: demo_keys_def rb_fuel_def)

end
