(* ===== verification/Tree_Print.thy ===== *)
theory Tree_Print
  imports RB_Tree_Correct
begin

text \<open>
  Drawing a red-black tree on the terminal, \<^verbatim>\<open>src/algs/intro_to_algs3th/tree_print.cpp\<close>: a walk with a queue that prints
  the tree level by level, with two counters for the nodes left on this level and found on the next.

  The model returns the text that is printed. \<open>node_c_str\<close>, the callback of the tree that writes a datum into a buffer, is a
  parameter. The walk is shown to print \<open>levels\<close> of the tree that the heap holds, one line for each of them.
\<close>

section \<open>The program\<close>

definition draw_node :: "('d \<Rightarrow> string) \<Rightarrow> 'd rb_tree \<Rightarrow> addr \<Rightarrow> 'd rbtree_node \<Rightarrow> cerr + string" where
  "draw_node node_c_str tr p n =
     (case n_p n of None \<Rightarrow> Inr (node_c_str (n_data n))
      | Some q \<Rightarrow> bindr (getn tr q) (\<lambda>nq.
          if n_left nq = Some p then Inr (node_c_str (n_data n) @ ''('' @ node_c_str (n_data nq) @ '') '')
          else if n_right nq = Some p then Inr (''('' @ node_c_str (n_data nq) @ '')'' @ node_c_str (n_data n) @ '' '')
          else Inr (node_c_str (n_data n))))"

definition push_kid :: "addr option \<Rightarrow> addr option list \<times> int \<Rightarrow> cerr + addr option list \<times> int" where
  "push_kid c s = (case c of None \<Rightarrow> Inr s | Some a \<Rightarrow> bindr (int_add (snd s) 1) (\<lambda>k. Inr (fst s @ [Some a], k)))"

text \<open>A round of the loop for every step of fuel; the text is printed as the loop goes on.\<close>

fun draw_loop :: "nat \<Rightarrow> ('d \<Rightarrow> string) \<Rightarrow> 'd rb_tree \<Rightarrow> addr option list \<Rightarrow> int \<Rightarrow> int \<Rightarrow> cerr + string" where
  "draw_loop 0 node_c_str tr nodesq curLayerCount nextLayerCount = Inl OutOfFuel"
| "draw_loop (Suc fuel) node_c_str tr nodesq curLayerCount nextLayerCount =
     (case nodesq of [] \<Rightarrow> Inr []
      | p # nodesq \<Rightarrow>
          bindr (int_sub curLayerCount 1) (\<lambda>cur.
          bindr (deref p) (\<lambda>a. bindr (getn tr a) (\<lambda>n.
          bindr (draw_node node_c_str tr a n) (\<lambda>s.
          bindr (push_kid (n_left n) (nodesq, nextLayerCount)) (\<lambda>st.
          bindr (push_kid (n_right n) st) (\<lambda>(nodesq, nxt).
          if cur = 0 then bindr (draw_loop fuel node_c_str tr nodesq nxt 0) (\<lambda>s'. Inr (s @ [CHR 0x0A] @ s'))
          else bindr (draw_loop fuel node_c_str tr nodesq cur nxt) (\<lambda>s'. Inr (s @ s')))))))))"

definition rbtree_draw_to_term :: "nat \<Rightarrow> ('d \<Rightarrow> string) \<Rightarrow> 'd rb_tree \<Rightarrow> cerr + string" where
  "rbtree_draw_to_term fuel node_c_str tr = draw_loop fuel node_c_str tr [root tr] 1 0"

section \<open>Levels of a tree\<close>

text \<open>A tree with the datum of its parent and the side it hangs on (\<open>True\<close> for the left).\<close>

type_synonym 'd item = "(bool \<times> 'd) option \<times> 'd rtree"

fun item_text :: "('d \<Rightarrow> string) \<Rightarrow> 'd item \<Rightarrow> string" where
  "item_text cs (x, Leaf) = []"
| "item_text cs (None, Node l a c d r) = cs d"
| "item_text cs (Some (True, e), Node l a c d r) = cs d @ ''('' @ cs e @ '') ''"
| "item_text cs (Some (False, e), Node l a c d r) = ''('' @ cs e @ '')'' @ cs d @ '' ''"

fun item_kids :: "'d item \<Rightarrow> 'd item list" where
  "item_kids (x, Leaf) = []"
| "item_kids (x, Node l a c d r) =
     (if l = Leaf then [] else [(Some (True, d), l)]) @ (if r = Leaf then [] else [(Some (False, d), r)])"

definition isize :: "'d item list \<Rightarrow> nat" where
  "isize ts = sum_list (map (\<lambda>x. length (addrs (snd x))) ts)"

lemma isize_simps [simp]: "isize [] = 0" "isize (x # ts) = length (addrs (snd x)) + isize ts" "isize (ts @ us) = isize ts + isize us"
  by (simp_all add: isize_def)

lemma isize_kids: "isize (item_kids x) = length (addrs (snd x)) - 1"
  by (cases x rule: item_kids.cases) auto

lemma isize_kids_all: "isize (concat (map item_kids ts)) \<le> isize ts"
proof (induction ts)
  case (Cons x ts)
  then show ?case using isize_kids [of x] by simp
qed simp

function levels :: "'d item list \<Rightarrow> 'd item list list" where
  "levels ts = (if isize ts = 0 then [] else ts # levels (concat (map item_kids ts)))"
  by pat_completeness auto
termination
proof (relation "measure isize")
  fix ts :: "'d item list"
  assume "isize ts \<noteq> 0"
  then show "(concat (map item_kids ts), ts) \<in> measure isize"
  proof (induction ts)
    case (Cons x ts)
    show ?case
    proof (cases "addrs (snd x) = []")
      case True
      then show ?thesis using Cons isize_kids [of x] by simp
    next
      case False
      then show ?thesis using isize_kids [of x] isize_kids_all [of ts] by (cases "addrs (snd x)") auto
    qed
  qed simp
qed auto

declare levels.simps [simp del]

definition draw_levels :: "('d \<Rightarrow> string) \<Rightarrow> 'd item list list \<Rightarrow> string" where
  "draw_levels cs lvs = concat (map (\<lambda>lv. concat (map (item_text cs) lv) @ [CHR 0x0A]) lvs)"

section \<open>The walk\<close>

declare split_paired_Ex [simp del] split_paired_All [simp del]

definition item_ok :: "(addr \<Rightarrow> 'd rbtree_node option) \<Rightarrow> 'd item \<Rightarrow> bool" where
  "item_ok h x \<longleftrightarrow> snd x \<noteq> Leaf \<and> distinct (addrs (snd x)) \<and>
     (case fst x of None \<Rightarrow> repr h None (snd x)
      | Some (b, e) \<Rightarrow> \<exists>q n. repr h (Some q) (snd x) \<and> h q = Some n \<and> n_data n = e \<and>
          (if b then n_left n = rootp (snd x) else n_left n \<noteq> rootp (snd x) \<and> n_right n = rootp (snd x)))"

lemma rootp_in: "rootp t = Some a \<Longrightarrow> a \<in> set (addrs t)"
  by (cases t) auto

lemma item_draw:
  assumes "item_ok (mem tr) (x, Node l a c d r)"
  shows "\<exists>q. getn tr a = Inr (mknode (rootp l) (rootp r) q c d) \<and>
    draw_node cs tr a (mknode (rootp l) (rootp r) q c d) = Inr (item_text cs (x, Node l a c d r))"
proof (cases x)
  case None
  then show ?thesis using assms by (auto simp: item_ok_def getn_def draw_node_def)
next
  case (Some y)
  then obtain b e where x: "x = Some (b, e)" by (cases y) auto
  then show ?thesis using assms by (cases b) (auto simp: item_ok_def getn_def draw_node_def)
qed

lemma item_kids_ok:
  assumes "item_ok (mem tr) (x, Node l a c d r)" "y \<in> set (item_kids (x, Node l a c d r))"
  shows "item_ok (mem tr) y"
proof -
  obtain q where q: "repr (mem tr) q (Node l a c d r)" "distinct (addrs (Node l a c d r))"
    using assms(1) by (auto simp: item_ok_def split: option.splits prod.splits)
  have "rootp l \<noteq> rootp r" if r: "r \<noteq> Leaf"
  proof -
    obtain b where b: "rootp r = Some b" using r by (cases r) auto
    then show ?thesis using q(2) rootp_in [of r b] rootp_in [of l b] by auto
  qed
  then show ?thesis using q assms(2) by (auto simp: item_ok_def intro!: exI [of _ a] split: if_splits)
qed

definition ptrs :: "'d item list \<Rightarrow> addr option list" where
  "ptrs ts = map (rootp \<circ> snd) ts"

lemma push_kids:
  assumes "int (length ns + 2) \<le> INT_MAX"
  shows "\<exists>st. push_kid (rootp l) (nodesq, int (length ns)) = Inr st \<and>
    push_kid (rootp r) st = Inr (nodesq @ ptrs (item_kids (x, Node l a c d r)), int (length (ns @ item_kids (x, Node l a c d r))))"
  using assms by (cases l; cases r) (auto simp: push_kid_def ptrs_def int_add_def int_res_def in_int_def)

lemma isize_pos: "\<forall>x \<in> set ts. item_ok h x \<Longrightarrow> length ts \<le> isize ts"
proof (induction ts)
  case (Cons x ts)
  then show ?case by (cases "snd x") (auto simp: item_ok_def)
qed simp

lemma levels_Nil [simp]: "levels [] = []"
  by (subst levels.simps) simp

lemma levels_step: "\<forall>x \<in> set ts. item_ok h x \<Longrightarrow> ts \<noteq> [] \<Longrightarrow> levels ts = ts # levels (concat (map item_kids ts))"
  using isize_pos [of ts h] by (subst levels.simps) (cases ts, auto)

lemma draw_loop_sim:
  assumes "\<forall>x \<in> set (ts @ ns). item_ok (mem tr) x" "ts \<noteq> []" "isize (ts @ ns) < fuel" "int (isize (ts @ ns)) + 2 \<le> INT_MAX"
  shows "draw_loop fuel cs tr (ptrs (ts @ ns)) (int (length ts)) (int (length ns)) =
    Inr (concat (map (item_text cs) ts) @ [CHR 0x0A] @ draw_levels cs (levels (ns @ concat (map item_kids ts))))"
  using assms
proof (induction fuel arbitrary: ts ns)
  case (Suc fuel)
  then obtain x t ts' where ts: "ts = (x, t) # ts'" by (cases ts) auto
  have "t \<noteq> Leaf" using Suc.prems(1) by (auto simp: ts item_ok_def)
  then obtain l a c d r where t: "t = Node l a c d r" by (cases t) auto
  let ?i = "(x, Node l a c d r)"
  let ?ns = "ns @ item_kids ?i"
  have ok: "item_ok (mem tr) ?i" "\<forall>y \<in> set (ts' @ ?ns). item_ok (mem tr) y"
    using Suc.prems(1) item_kids_ok [of tr x l a c d r] by (auto simp: ts t simp del: item_kids.simps)
  obtain q where q: "getn tr a = Inr (mknode (rootp l) (rootp r) q c d)"
    "draw_node cs tr a (mknode (rootp l) (rootp r) q c d) = Inr (item_text cs ?i)" using item_draw [OF ok(1)] by blast
  have size: "isize (ts' @ ?ns) + 1 = isize (ts @ ns)" using isize_kids [of ?i] by (simp add: ts t)
  have len: "length ts \<le> isize ts" "length ns \<le> isize ns" using Suc.prems(1) isize_pos [of _ "mem tr"] by auto
  obtain st where st: "push_kid (rootp l) (ptrs (ts' @ ns), int (length ns)) = Inr st"
    "push_kid (rootp r) st = Inr (ptrs (ts' @ ?ns), int (length ?ns))"
    using push_kids [of ns l "ptrs (ts' @ ns)" r x a c d] Suc.prems(4) len by (auto simp: ptrs_def)
  have cur: "int_sub (int (length ts)) 1 = Inr (int (length ts'))"
    using Suc.prems(4) len by (auto simp: ts int_sub_def int_res_def in_int_def)
  have run: "draw_loop (Suc fuel) cs tr (ptrs (ts @ ns)) (int (length ts)) (int (length ns)) =
      (if ts' = [] then bindr (draw_loop fuel cs tr (ptrs (ts' @ ?ns)) (int (length ?ns)) 0) (\<lambda>s. Inr (item_text cs ?i @ [CHR 0x0A] @ s))
       else bindr (draw_loop fuel cs tr (ptrs (ts' @ ?ns)) (int (length ts')) (int (length ?ns))) (\<lambda>s. Inr (item_text cs ?i @ s)))"
    using cur q st by (simp add: ts t ptrs_def del: item_kids.simps)
  show ?case
  proof (cases "ts' = []")
    case False
    then have "draw_loop fuel cs tr (ptrs (ts' @ ?ns)) (int (length ts')) (int (length ?ns)) =
        Inr (concat (map (item_text cs) ts') @ [CHR 0x0A] @ draw_levels cs (levels (?ns @ concat (map item_kids ts'))))"
      using Suc.prems(3,4) size ok(2) by (intro Suc.IH) auto
    then show ?thesis using False unfolding run by (simp add: ts t del: item_kids.simps)
  next
    case True
    show ?thesis
    proof (cases "?ns = []")
      case True
      then have "draw_loop fuel cs tr [] 0 0 = Inr []" using Suc.prems(3) size by (cases fuel) auto
      then show ?thesis using True \<open>ts' = []\<close> unfolding run by (simp add: ts t ptrs_def draw_levels_def del: item_kids.simps)
    next
      case False
      then have "draw_loop fuel cs tr (ptrs (?ns @ [])) (int (length ?ns)) (int (length ([] :: 'a item list))) =
          Inr (concat (map (item_text cs) ?ns) @ [CHR 0x0A] @ draw_levels cs (levels ([] @ concat (map item_kids ?ns))))"
        using Suc.prems(3,4) size ok(2) True by (intro Suc.IH) auto
      moreover have "levels ?ns = ?ns # levels (concat (map item_kids ?ns))"
        using levels_step [of ?ns "mem tr"] ok(2) False by simp
      ultimately show ?thesis using True unfolding run by (simp add: ts t draw_levels_def del: item_kids.simps)
    qed
  qed
qed simp

section \<open>The height\<close>

definition max_height :: "'d item list \<Rightarrow> nat" where
  "max_height ts = foldr (\<lambda>x m. max (height (snd x)) m) ts 0"

lemma max_height_simps [simp]:
  "max_height [] = 0" "max_height (x # ts) = max (height (snd x)) (max_height ts)"
  "max_height (ts @ us) = max (max_height ts) (max_height us)"
  by (simp_all add: max_height_def) (induction ts; simp)

lemma max_height_kids: "max_height (concat (map item_kids ts)) = max_height ts - 1"
proof (induction ts)
  case (Cons x ts)
  have "max_height (item_kids x) = height (snd x) - 1" by (cases x rule: item_kids.cases) auto
  then show ?case using Cons by (simp add: max_def)
qed simp

lemma levels_length: "length (levels ts) = max_height ts"
proof (induction ts rule: levels.induct)
  case (1 ts)
  have z: "isize ts = 0 \<longleftrightarrow> max_height ts = 0"
  proof (induction ts)
    case (Cons x ts)
    then show ?case by (cases "snd x") auto
  qed simp
  show ?case using 1 z max_height_kids [of ts] by (subst levels.simps) auto
qed

text \<open>C10: drawing a tree that any insertions have built prints one line for every level, the nodes from left to right and each with the datum of its
  parent on the side it hangs on; the tree is the sorted, balanced tree that the heap holds, and there are at most logarithmically many
  lines. One round for every node is enough.\<close>

theorem rbtree_draw_prints_levels:
  assumes "node_order valid cmp" "\<forall>e \<in> set ds. valid e" "ds \<noteq> []" "1 \<le> n" "rb_fuel (length ds) \<le> fuel" "int (length ds) + 2 \<le> INT_MAX"
  shows "\<exists>tr t. rbtree_insert_all fuel cmp (rb_tree_init n f) ds = Inr tr \<and> tree_inv tr t \<and> inorder t = fold (ins_sorted cmp) ds [] \<and>
    rbtree_draw_to_term (length ds + 1) node_c_str tr = Inr (draw_levels node_c_str (levels [(None, t)])) \<and>
    2 ^ length (levels [(None, t)]) \<le> (Suc (length ds))\<^sup>2"
proof -
  obtain tr t where t: "rbtree_insert_all fuel cmp (rb_tree_init n f) ds = Inr tr" "tree_inv tr t" "rb_ok t"
    "length (addrs t) \<le> length ds" "ins_spec cmp [] ds (inorder t)" using rbtree_built [OF assms(4,5)] by blast
  have i: "inorder t = fold (ins_sorted cmp) ds []" using t(5) assms(1,2) by (auto simp: ins_spec_def)
  have "t \<noteq> Leaf"
  proof -
    have "ins_sorted cmp d xs \<noteq> []" for d xs by (cases xs) auto
    then have "fold (ins_sorted cmp) ds [] \<noteq> []" using assms(3) by (cases ds rule: rev_cases) auto
    then show ?thesis using i by auto
  qed
  then have ok: "item_ok (mem tr) (None, t)" "root tr = rootp t" using t(2) by (auto simp: item_ok_def tree_inv_def zrep_def)
  note draw_loop_sim [of "[(None, t)]" "[]" tr "length ds + 1" node_c_str]
  then have "rbtree_draw_to_term (length ds + 1) node_c_str tr = Inr (draw_levels node_c_str (levels [(None, t)]))"
    using levels_step [of "[(None, t)]" "mem tr"] ok t(4) assms(6) by (simp add: rbtree_draw_to_term_def ptrs_def draw_levels_def)
  moreover have "2 ^ height t \<le> (Suc (length ds))\<^sup>2"
    using rb_ok_height [OF t(3)] power_mono [of "Suc (length (addrs t))" "Suc (length ds)" 2] t(4) by linarith
  then have "2 ^ length (levels [(None, t)]) \<le> (Suc (length ds))\<^sup>2" by (simp add: levels_length)
  ultimately show ?thesis using t(1,2) i by blast
qed

definition demo_text :: "int option \<Rightarrow> string" where
  "demo_text d = (case d of None \<Rightarrow> ''?'' | Some k \<Rightarrow> if k < 10 then [char_of (48 + nat k)] else ''X'')"

theorem rbtree_draw_prints_levels_witness:
  "\<exists>tr t. rbtree_insert_all 121 graph_node_cmp (rb_tree_init 8 False) demo_keys = Inr tr \<and> tree_inv tr t \<and>
    inorder t = fold (ins_sorted graph_node_cmp) demo_keys [] \<and>
    rbtree_draw_to_term (length demo_keys + 1) demo_text tr = Inr (draw_levels demo_text (levels [(None, t)])) \<and>
    2 ^ length (levels [(None, t)]) \<le> (Suc (length demo_keys))\<^sup>2"
  by (rule rbtree_draw_prints_levels [OF graph_bags.node_order_axioms demo_keys_valid]) (simp_all add: demo_keys_def rb_fuel_def)

text \<open>An empty tree is not checked for.\<close>

lemma draw_empty_tree: "root tr = None \<Longrightarrow> rbtree_draw_to_term (Suc fuel) node_c_str tr = Inl NullDeref"
  by (simp add: rbtree_draw_to_term_def int_sub_def int_res_def in_int_def)

end
