(* ===== verification/Hex_Dump.thy ===== *)
theory Hex_Dump
  imports C_Text
begin

text \<open>
  The hex dump of \<^verbatim>\<open>src/hexdump.cpp\<close>: lines of up to 16 bytes, built in a buffer of 100 characters by overlapping writes.

  The model keeps the buffer, checks every index and returns the printed text. The size is a 64-bit number that the source narrows to
  \<open>int\<close>. The texts are shown to be \<open>dump_lines\<close>, and \<open>undump\<close> reads the bytes back from them.
\<close>

section \<open>The program\<close>

definition hexdigit :: "nat \<Rightarrow> char" where
  "hexdigit d = char_of (if d < 10 then 48 + d else 55 + d)"

fun show_hex :: "nat \<Rightarrow> string" where
  "show_hex n = (if n < 16 then [hexdigit n] else show_hex (n div 16) @ [hexdigit (n mod 16)])"

declare show_hex.simps [simp del]

text \<open>\<open>%08lX\<close> and \<open>%02X\<close>\<close>

definition hex8 :: "nat \<Rightarrow> string" where
  "hex8 n = replicate (8 - length (show_hex n)) (CHR ''0'') @ show_hex n"

definition hex2 :: "char \<Rightarrow> string" where
  "hex2 c = [hexdigit (of_char c div 16), hexdigit (of_char c mod 16)]"

definition isprint :: "char \<Rightarrow> bool" where
  "isprint c \<longleftrightarrow> 32 \<le> (of_char c :: nat) \<and> (of_char c :: nat) \<le> 126"

definition printable :: "char \<Rightarrow> char" where
  "printable c = (if isprint c then c else CHR ''.'')"

definition line_start :: string where
  "line_start = '' >'' @ replicate 54 (CHR '' '')"

text \<open>The loop over the bytes of a line. \<open>lOutLen2\<close> counts down to 0; a negative number leaves the buffer before that.\<close>

function hex_bytes :: "string \<Rightarrow> nat \<Rightarrow> int \<Rightarrow> nat \<Rightarrow> nat \<Rightarrow> nat \<Rightarrow> string \<Rightarrow> cerr + nat \<times> nat \<times> string" where
  "hex_bytes mem pTmp lOutLen2 lIndex lIndex2 lRelPos szBuf =
     (if lOutLen2 = 0 then Inr (lIndex, lRelPos, szBuf)
      else if length szBuf < lIndex + 4 then Inl OutOfBounds
      else
        bindr (load mem pTmp) (\<lambda>ucTmp.
        bindr (overwrite szBuf lIndex (hex2 ucTmp @ '' '' @ [CHR 0x00])) (\<lambda>szBuf.
        bindr (store szBuf lIndex2 (printable ucTmp)) (\<lambda>szBuf.
        if Suc lRelPos mod 4 = 0 then
          bindr (store szBuf (lIndex + 3) (CHR '' '')) (\<lambda>szBuf.
          hex_bytes mem (Suc pTmp) (lOutLen2 - 1) (lIndex + 3) (Suc lIndex2) (Suc lRelPos) szBuf)
        else hex_bytes mem (Suc pTmp) (lOutLen2 - 1) (lIndex + 2) (Suc lIndex2) (Suc lRelPos) szBuf))))"
  by pat_completeness auto
termination
  by (relation "measure (\<lambda>(mem, pTmp, n, i, i2, r, b). length b - i)")
    (auto simp: overwrite_def store_def split: if_splits)

declare hex_bytes.simps [simp del]

definition hex_line :: "string \<Rightarrow> nat \<Rightarrow> int \<Rightarrow> string \<Rightarrow> cerr + string" where
  "hex_line mem pTmp lOutLen szBuf =
     bindr (overwrite szBuf 0 (line_start @ hex8 pTmp @ [CHR 0x00])) (\<lambda>szBuf.
     bindr (hex_bytes mem pTmp lOutLen 2 39 0 szBuf) (\<lambda>(lIndex, lRelPos, szBuf).
     let lIndex = (if lRelPos mod 4 = 0 then lIndex - 1 else lIndex) in
     bindr (store szBuf lIndex (CHR ''<'')) (\<lambda>szBuf. store szBuf (lIndex + 1) (CHR '' ''))))"

text \<open>\<open>(int)buf.lSize\<close>: the low 32 bits as a signed number.\<close>

definition to_int :: "nat \<Rightarrow> int" where
  "to_int n = (let k = int (n mod 2 ^ 32) in if k < 2 ^ 31 then k else k - 2 ^ 32)"

fun hexdump_loop :: "nat \<Rightarrow> string \<Rightarrow> nat \<Rightarrow> nat \<Rightarrow> string \<Rightarrow> cerr + string" where
  "hexdump_loop 0 mem pos lSize szBuf = Inl OutOfFuel"
| "hexdump_loop (Suc fuel) mem pos lSize szBuf =
     (if lSize = 0 then Inr []
      else
        let lOutLen = (if to_int lSize > 16 then 16 else to_int lSize) in
        bindr (hex_line mem pos lOutLen szBuf) (\<lambda>szBuf.
        bindr (hexdump_loop fuel mem (nat (int pos + lOutLen)) (nat (int lSize - lOutLen)) szBuf) (\<lambda>s.
        Inr (takeWhile (\<lambda>c. c \<noteq> CHR 0x00) szBuf @ [CHR 0x0A] @ s))))"

text \<open>\<open>szBuf\<close> is not initialised: its contents are a parameter. A negative size becomes a huge one.\<close>

definition hexdump :: "nat \<Rightarrow> string \<Rightarrow> string \<Rightarrow> int \<Rightarrow> cerr + string" where
  "hexdump fuel szBuf mem lSize = hexdump_loop fuel mem 0 (nat (lSize mod 2 ^ 64)) szBuf"

section \<open>The text of a dump\<close>

text \<open>The digits of a line, in groups of four bytes; \<open>i\<close> bytes are before.\<close>

fun hex_groups :: "nat \<Rightarrow> string \<Rightarrow> string" where
  "hex_groups i [] = []"
| "hex_groups i (c # cs) = hex2 c @ (if Suc i mod 4 = 0 then '' '' else []) @ hex_groups (Suc i) cs"

definition dump_digits :: "string \<Rightarrow> string" where
  "dump_digits bs = (let g = hex_groups 0 bs in if length bs mod 4 = 0 then butlast g else g)"

definition dump_line :: "nat \<Rightarrow> string \<Rightarrow> string" where
  "dump_line pos bs =
     '' >'' @ dump_digits bs @ ''<'' @ replicate (36 - length (dump_digits bs)) (CHR '' '') @
     map printable bs @ replicate (17 - length bs) (CHR '' '') @ hex8 pos"

function dump_lines :: "nat \<Rightarrow> string \<Rightarrow> string" where
  "dump_lines pos bs = (if bs = [] then [] else dump_line pos (take 16 bs) @ [CHR 0x0A] @ dump_lines (pos + 16) (drop 16 bs))"
  by pat_completeness auto
termination by (relation "measure (\<lambda>(pos, bs). length bs)") auto

declare dump_lines.simps [simp del]

section \<open>Building a line\<close>

lemma overwrite_seg: "length P = off \<Longrightarrow> length s0 = length s \<Longrightarrow> overwrite (P @ s0 @ Q) off s = Inr (P @ s @ Q)"
  by (auto simp: overwrite_def)

lemma store_seg: "length P = i \<Longrightarrow> store (P @ c # Q) i d = Inr (P @ d # Q)"
  by (auto simp: store_def list_update_append)

lemma hex_groups_snoc: "hex_groups i (bs @ [c]) = hex_groups i bs @ hex2 c @ (if Suc (i + length bs) mod 4 = 0 then '' '' else [])"
  by (induction bs arbitrary: i) (auto simp: hex2_def)

lemma hex_groups_length: "length (hex_groups 0 bs) = 2 * length bs + length bs div 4"
  by (induction bs rule: rev_induct) (auto simp: hex_groups_snoc hex2_def div_Suc)

text \<open>The buffer after \<open>bs\<close>, with the place of the next digits.\<close>

definition gap :: "nat \<Rightarrow> nat \<Rightarrow> string" where
  "gap i n = (if i mod 4 = 0 then replicate (37 - n) (CHR '' '') else CHR '' '' # CHR 0x00 # replicate (35 - n) (CHR '' ''))"

definition line_buf :: "string \<Rightarrow> string \<Rightarrow> string" where
  "line_buf bs R =
     '' >'' @ hex_groups 0 bs @ gap (length bs) (length (hex_groups 0 bs)) @ map printable bs @ replicate (17 - length bs) (CHR '' '') @ R"

definition hex_pos :: "string \<Rightarrow> nat" where
  "hex_pos bs = 2 + length (hex_groups 0 bs)"

lemma hex_bytes_step:
  assumes "length bs < 16" "pTmp < length mem" "mem ! pTmp = c" "n \<noteq> 0"
  shows "hex_bytes mem pTmp n (hex_pos bs) (39 + length bs) (length bs) (line_buf bs R) =
    hex_bytes mem (Suc pTmp) (n - 1) (hex_pos (bs @ [c])) (39 + length (bs @ [c])) (length (bs @ [c])) (line_buf (bs @ [c]) R)"
proof -
  define N where "N = length (hex_groups 0 bs)"
  have N: "N \<le> 33" using assms(1) unfolding N_def hex_groups_length by linarith
  define P where "P = '' >'' @ hex_groups 0 bs"
  define Q where "Q = replicate (33 - N) (CHR '' '')"
  define A where "A = map printable bs"
  define B where "B = replicate (16 - length bs) (CHR '' '')"
  have P: "length P = hex_pos bs" "length P = 2 + N" by (simp_all add: P_def hex_pos_def N_def)
  obtain s0 where s0: "gap (length bs) N = s0 @ Q" "length s0 = 4"
  proof -
    have e: "37 - N = 4 + (33 - N)" "35 - N = 2 + (33 - N)" using N by simp_all
    have "replicate (37 - N) (CHR '' '') = replicate 4 (CHR '' '') @ Q" unfolding Q_def e replicate_add by (rule refl)
    moreover have "replicate (35 - N) (CHR '' '') = replicate 2 (CHR '' '') @ Q" unfolding Q_def e replicate_add by (rule refl)
    ultimately show ?thesis
      using that [of "if length bs mod 4 = 0 then replicate 4 (CHR '' '') else CHR '' '' # CHR 0x00 # replicate 2 (CHR '' '')"]
      by (auto simp: gap_def)
  qed
  have B: "replicate (17 - length bs) (CHR '' '') = CHR '' '' # B" using assms(1) by (simp add: B_def Suc_diff_le flip: replicate_Suc)
  have buf: "line_buf bs R = P @ s0 @ Q @ A @ CHR '' '' # B @ R" by (simp add: line_buf_def s0(1) B P_def A_def flip: N_def)
  let ?h = "hex2 c @ '' '' @ [CHR 0x00]"
  have w1: "overwrite (line_buf bs R) (hex_pos bs) ?h = Inr (P @ ?h @ Q @ A @ CHR '' '' # B @ R)"
    unfolding buf by (rule overwrite_seg) (simp_all add: P s0 hex2_def)
  have w2: "store (P @ ?h @ Q @ A @ CHR '' '' # B @ R) (39 + length bs) (printable c) = Inr (P @ ?h @ Q @ A @ printable c # B @ R)"
    using store_seg [of "P @ ?h @ Q @ A" "39 + length bs" "CHR '' ''" "B @ R" "printable c"] N
    by (simp add: P(2) hex2_def Q_def A_def)
  have w3: "store (P @ ?h @ Q @ A @ printable c # B @ R) (hex_pos bs + 3) (CHR '' '') = Inr (P @ (hex2 c @ ''  '') @ Q @ A @ printable c # B @ R)"
    using store_seg [of "P @ hex2 c @ '' ''" "hex_pos bs + 3" "CHR 0x00" "Q @ A @ printable c # B @ R" "CHR '' ''"]
    by (simp add: P(1) hex2_def)
  have len: "\<not> length (line_buf bs R) < hex_pos bs + 4" unfolding buf by (simp add: P s0)
  show ?thesis
  proof (cases "Suc (length bs) mod 4 = 0")
    case True
    have "gap (length (bs @ [c])) (length (hex_groups 0 (bs @ [c]))) = CHR '' '' # Q"
      using True N by (simp add: gap_def hex_groups_snoc hex2_def Q_def Suc_diff_le flip: N_def replicate_Suc)
    then have "line_buf (bs @ [c]) R = P @ (hex2 c @ ''  '') @ Q @ A @ printable c # B @ R"
      using True by (simp add: line_buf_def hex_groups_snoc P_def A_def B_def)
    moreover have "hex_pos (bs @ [c]) = hex_pos bs + 3" using True by (simp add: hex_pos_def hex_groups_snoc hex2_def)
    ultimately show ?thesis using assms(2-4) len w1 w2 w3 True by (subst hex_bytes.simps) (simp add: load_in)
  next
    case False
    have "gap (length (bs @ [c])) (length (hex_groups 0 (bs @ [c]))) = CHR '' '' # CHR 0x00 # Q"
      using False N by (simp add: gap_def hex_groups_snoc hex2_def Q_def flip: N_def)
    then have "line_buf (bs @ [c]) R = P @ ?h @ Q @ A @ printable c # B @ R"
      using False by (simp add: line_buf_def hex_groups_snoc P_def A_def B_def)
    moreover have "hex_pos (bs @ [c]) = hex_pos bs + 2" using False by (simp add: hex_pos_def hex_groups_snoc hex2_def)
    ultimately show ?thesis using assms(2-4) len w1 w2 False by (subst hex_bytes.simps) (simp add: load_in)
  qed
qed

lemma hex_bytes_run:
  assumes "length (bs @ cs) \<le> 16" "take (length cs) (drop pTmp mem) = cs"
  shows "hex_bytes mem pTmp (int (length cs)) (hex_pos bs) (39 + length bs) (length bs) (line_buf bs R) =
    Inr (hex_pos (bs @ cs), length (bs @ cs), line_buf (bs @ cs) R)"
  using assms
proof (induction cs arbitrary: bs pTmp)
  case Nil
  then show ?case by (subst hex_bytes.simps) simp
next
  case (Cons c cs)
  have p: "pTmp < length mem" using Cons.prems(2) by (metis drop_eq_Nil length_Cons list.distinct(1) not_le take_Nil)
  then have "drop pTmp mem = mem ! pTmp # drop (Suc pTmp) mem" by (simp add: Cons_nth_drop_Suc)
  then have "mem ! pTmp = c" "take (length cs) (drop (Suc pTmp) mem) = cs" using Cons.prems(2) by auto
  then show ?case using hex_bytes_step [of bs pTmp mem c "int (length (c # cs))" R] p Cons.prems(1) Cons.IH [of "bs @ [c]" "Suc pTmp"] by simp
qed

lemma show_hex_length: "n < 16 ^ Suc k \<Longrightarrow> length (show_hex n) \<le> Suc k"
proof (induction k arbitrary: n)
  case 0
  then show ?case by (subst show_hex.simps) simp
next
  case (Suc k)
  then have "n div 16 < 16 ^ Suc k" by (simp add: less_mult_imp_div_less mult.commute)
  then show ?case using Suc.IH by (subst show_hex.simps) auto
qed

lemma hex8_length: "n < 16 ^ 8 \<Longrightarrow> length (hex8 n) = 8"
  using show_hex_length [of n 7] by (simp add: hex8_def)

text \<open>Which characters are printed.\<close>

lemma hexdigit_code: "d < 16 \<Longrightarrow> of_char (hexdigit d) = (if d < 10 then 48 + d else 55 + d)"
  by (simp add: hexdigit_def)

definition visible :: "char \<Rightarrow> bool" where
  "visible c \<longleftrightarrow> 32 \<le> (of_char c :: nat)"

lemma plain_simps [simp]: "visible (CHR '' '')" "visible (CHR ''<'')" "visible (CHR ''>'')" "visible (CHR ''0'')" "d < 16 \<Longrightarrow> visible (hexdigit d)" "visible (printable c)"
  by (simp_all add: visible_def hexdigit_code printable_def isprint_def)

lemma byte_digits: "of_char c div 16 < (16 :: nat)" "of_char c mod 16 < (16 :: nat)"
proof -
  have "of_char c < (256 :: nat)" by (rule nat_of_char_less_256)
  then show "of_char c div 16 < (16 :: nat)" by (simp add: less_mult_imp_div_less)
qed simp

lemma plain_hex2 [simp]: "x \<in> set (hex2 c) \<Longrightarrow> visible x"
  by (auto simp: hex2_def byte_digits)

lemma plain_groups: "x \<in> set (hex_groups i bs) \<Longrightarrow> visible x"
  by (induction i bs rule: hex_groups.induct) (auto split: if_splits)

lemma plain_show_hex: "x \<in> set (show_hex n) \<Longrightarrow> visible x"
proof (induction n rule: show_hex.induct)
  case (1 n)
  then show ?case by (subst (asm) (2) show_hex.simps) (auto split: if_splits)
qed

lemma plain_hex8: "x \<in> set (hex8 n) \<Longrightarrow> visible x"
  using plain_show_hex by (auto simp: hex8_def)

lemma plain_line: "x \<in> set (dump_line pos bs) \<Longrightarrow> visible x"
  using plain_groups plain_hex8 by (auto simp: dump_line_def dump_digits_def Let_def dest: in_set_butlastD split: if_splits)

lemma groups_blank: "bs \<noteq> [] \<Longrightarrow> length bs mod 4 = 0 \<Longrightarrow> hex_groups 0 bs = butlast (hex_groups 0 bs) @ '' ''"
  by (cases bs rule: rev_cases) (simp_all add: hex_groups_snoc butlast_append)

lemma close_line:
  assumes "bs \<noteq> []" "length bs \<le> 16"
  defines "i \<equiv> (if length bs mod 4 = 0 then hex_pos bs - 1 else hex_pos bs)"
  shows "bindr (store (line_buf bs (hex8 pos @ R)) i (CHR ''<'')) (\<lambda>b. store b (i + 1) (CHR '' '')) = Inr (dump_line pos bs @ R)"
proof -
  define N where "N = length (hex_groups 0 bs)"
  define E where "E = map printable bs @ replicate (17 - length bs) (CHR '' '') @ hex8 pos @ R"
  have N: "N \<le> 36" using assms(2) unfolding N_def hex_groups_length by linarith
  show ?thesis
  proof (cases "length bs mod 4 = 0")
    case True
    define G where "G = butlast (hex_groups 0 bs)"
    have G: "hex_groups 0 bs = G @ '' ''" using groups_blank [OF assms(1) True] by (simp add: G_def)
    then have l: "N = Suc (length G)" "i = Suc (Suc (length G))" using True by (simp_all add: N_def i_def hex_pos_def)
    have "replicate (37 - N) (CHR '' '') = CHR '' '' # replicate (36 - N) (CHR '' '')" using N by (simp add: Suc_diff_le flip: replicate_Suc)
    then have buf: "line_buf bs (hex8 pos @ R) = ('' >'' @ G) @ CHR '' '' # CHR '' '' # replicate (36 - N) (CHR '' '') @ E"
      using True by (simp add: line_buf_def gap_def E_def G flip: N_def) (simp add: l(1))
    have line: "dump_line pos bs @ R = ('' >'' @ G) @ CHR ''<'' # CHR '' '' # replicate (36 - N) (CHR '' '') @ E"
      using True N l(1) by (simp add: dump_line_def dump_digits_def E_def flip: G_def replicate_Suc)
    show ?thesis unfolding buf line
      using store_seg [of "'' >'' @ G" i "CHR '' ''" _ "CHR ''<''"] store_seg [of "'' >'' @ G @ ''<''" "i + 1" "CHR '' ''" _ "CHR '' ''"] l(2) by simp
  next
    case False
    have l: "i = Suc (Suc N)" using False by (simp add: N_def i_def hex_pos_def)
    have N: "N \<le> 35" using False assms(2) unfolding N_def hex_groups_length by presburger
    have buf: "line_buf bs (hex8 pos @ R) = ('' >'' @ hex_groups 0 bs) @ CHR '' '' # CHR 0x00 # replicate (35 - N) (CHR '' '') @ E"
      using False by (simp add: line_buf_def gap_def E_def flip: N_def)
    have line: "dump_line pos bs @ R = ('' >'' @ hex_groups 0 bs) @ CHR ''<'' # CHR '' '' # replicate (35 - N) (CHR '' '') @ E"
      using False N by (simp add: dump_line_def dump_digits_def E_def flip: N_def replicate_Suc)
    show ?thesis unfolding buf line
      using store_seg [of "'' >'' @ hex_groups 0 bs" i "CHR '' ''" _ "CHR ''<''"] store_seg [of "'' >'' @ hex_groups 0 bs @ ''<''" "i + 1" "CHR 0x00" _ "CHR '' ''"] l
      by (simp add: N_def)
  qed
qed

lemma line_buf_empty: "line_buf [] R = line_start @ R"
  using replicate_add [of 37 17 "CHR '' ''"] by (simp add: line_buf_def gap_def line_start_def)

lemma hex_line_run:
  assumes "take (length bs) (drop pos mem) = bs" "bs \<noteq> []" "length bs \<le> 16" "length szBuf = 100" "pos < 16 ^ 8"
  shows "\<exists>b. hex_line mem pos (int (length bs)) szBuf = Inr b \<and> takeWhile (\<lambda>c. c \<noteq> CHR 0x00) b = dump_line pos bs \<and> length b = 100"
proof -
  let ?R = "CHR 0x00 # drop 65 szBuf"
  have len: "length (line_start @ hex8 pos @ [CHR 0x00]) = 65" using hex8_length [OF assms(5)] by (simp add: line_start_def)
  have "overwrite szBuf 0 (line_start @ hex8 pos @ [CHR 0x00]) = Inr (line_buf [] (hex8 pos @ ?R))"
    using len assms(4) by (simp add: overwrite_def line_buf_empty)
  moreover have "hex_bytes mem pos (int (length bs)) 2 39 0 (line_buf [] (hex8 pos @ ?R)) = Inr (hex_pos bs, length bs, line_buf bs (hex8 pos @ ?R))"
    using hex_bytes_run [of "[]" bs pos mem "hex8 pos @ ?R"] assms(1,3) by (simp add: hex_pos_def)
  ultimately have run: "hex_line mem pos (int (length bs)) szBuf = Inr (dump_line pos bs @ ?R)"
    using close_line [OF assms(2,3), of pos ?R] by (simp add: hex_line_def)
  have "\<forall>x \<in> set (dump_line pos bs). x \<noteq> CHR 0x00" using plain_line by (fastforce simp: visible_def)
  then have "takeWhile (\<lambda>c. c \<noteq> CHR 0x00) (dump_line pos bs @ ?R) = dump_line pos bs" by (subst takeWhile_append2) auto
  moreover have "length (dump_digits bs) \<le> 36"
    using assms(3) by (auto simp: dump_digits_def Let_def hex_groups_length)
  then have "length (dump_line pos bs @ ?R) = 100" using assms(3,4) hex8_length [OF assms(5)] by (simp add: dump_line_def)
  ultimately show ?thesis using run by blast
qed

section \<open>The dump\<close>

lemma to_int_small: "n < 2 ^ 31 \<Longrightarrow> to_int n = int n"
  by (simp add: to_int_def Let_def)

lemma hexdump_loop_run:
  assumes "pos + sz = length mem" "length mem < 2 ^ 31" "length szBuf = 100" "sz + 16 \<le> 16 * fuel"
  shows "hexdump_loop fuel mem pos sz szBuf = Inr (dump_lines pos (drop pos mem))"
  using assms
proof (induction fuel arbitrary: pos sz szBuf)
  case (Suc fuel)
  show ?case
  proof (cases "sz = 0")
    case True
    then show ?thesis using Suc.prems(1) by (simp add: dump_lines.simps)
  next
    case False
    let ?bs = "take 16 (drop pos mem)"
    define n where "n = min 16 sz"
    have n: "length ?bs = n" "n \<le> 16" "n \<le> sz" "0 < n" using Suc.prems(1) False by (auto simp: n_def)
    then have "?bs \<noteq> []" by auto
    moreover have "take (length ?bs) (drop pos mem) = ?bs" by (metis min.cobounded2 length_take take_all_iff take_take nle_le min_def)
    moreover have "pos < 16 ^ 8" using Suc.prems(1,2) by simp
    ultimately obtain b where b: "hex_line mem pos (int n) szBuf = Inr b" "takeWhile (\<lambda>c. c \<noteq> CHR 0x00) b = dump_line pos ?bs" "length b = 100"
      using hex_line_run [of ?bs pos mem szBuf] n Suc.prems(3) by auto
    have len: "(if to_int sz > 16 then 16 else to_int sz) = int n" using to_int_small [of sz] Suc.prems(1,2) by (auto simp: n_def)
    have "hexdump_loop fuel mem (pos + n) (sz - n) b = Inr (dump_lines (pos + n) (drop (pos + n) mem))"
    proof (rule Suc.IH)
      have "0 < fuel" using Suc.prems(4) False by simp
      then show "sz - n + 16 \<le> 16 * fuel" using Suc.prems(4) by (auto simp: n_def min_def)
    qed (use Suc.prems n(3) b(3) in auto)
    moreover have "nat (int pos + int n) = pos + n" "nat (int sz - int n) = sz - n" using n by auto
    ultimately have run: "hexdump_loop (Suc fuel) mem pos sz szBuf = Inr (dump_line pos ?bs @ [CHR 0x0A] @ dump_lines (pos + n) (drop (pos + n) mem))"
      using b False len by (simp add: Let_def)
    have "dump_lines (pos + n) (drop (pos + n) mem) = dump_lines (pos + 16) (drop 16 (drop pos mem))"
      using Suc.prems(1) by (cases "sz < 16") (auto simp: n_def dump_lines.simps add.commute)
    then show ?thesis unfolding run using \<open>?bs \<noteq> []\<close> by (subst dump_lines.simps) auto
  qed
qed simp

section \<open>Reading a dump\<close>

definition hexval :: "char \<Rightarrow> nat" where
  "hexval c = (let k = of_char c in if k < 58 then k - 48 else k - 55)"

fun unhex :: "string \<Rightarrow> string" where
  "unhex (a # b # s) = char_of (16 * hexval a + hexval b) # unhex s"
| "unhex s = []"

definition undump_line :: "string \<Rightarrow> string" where
  "undump_line l = unhex (filter (\<lambda>c. c \<noteq> CHR '' '') (takeWhile (\<lambda>c. c \<noteq> CHR ''<'') (drop 2 l)))"

fun lines_of :: "string \<Rightarrow> string \<Rightarrow> string list" where
  "lines_of acc [] = []"
| "lines_of acc (c # s) = (if c = CHR 0x0A then acc # lines_of [] s else lines_of (acc @ [c]) s)"

definition undump :: "string \<Rightarrow> string" where
  "undump s = concat (map undump_line (lines_of [] s))"

lemma hexval_digit: "d < 16 \<Longrightarrow> hexval (hexdigit d) = d"
  by (simp add: hexval_def hexdigit_code Let_def)

lemma unhex_hex2: "unhex (hex2 c @ s) = c # unhex s"
proof -
  have "char_of (16 * (of_char c div 16) + of_char c mod 16 :: nat) = c" by simp
  then show ?thesis by (simp add: hex2_def hexval_digit byte_digits)
qed

lemma hexdigit_other: "d < 16 \<Longrightarrow> hexdigit d \<noteq> CHR '' ''" "d < 16 \<Longrightarrow> hexdigit d \<noteq> CHR ''<''"
  using hexdigit_code [of d] by (auto split: if_splits)

lemma unhex_groups: "unhex (filter (\<lambda>c. c \<noteq> CHR '' '') (hex_groups i bs)) = bs"
proof (induction i bs rule: hex_groups.induct)
  case (2 i c cs)
  have "filter (\<lambda>c. c \<noteq> CHR '' '') (hex2 c) = hex2 c" by (simp add: hex2_def hexdigit_other byte_digits)
  then show ?case using 2 by (simp add: unhex_hex2)
qed simp

lemma groups_no_close: "CHR ''<'' \<notin> set (hex_groups i bs)"
proof (induction i bs rule: hex_groups.induct)
  case (2 i c cs)
  moreover have "CHR ''<'' \<notin> set (hex2 c)" using hexdigit_other(2) [OF byte_digits(1) [of c]] hexdigit_other(2) [OF byte_digits(2) [of c]]
    by (simp add: hex2_def eq_commute [of "CHR ''<''"])
  ultimately show ?case by simp
qed simp

lemma undump_dump_line: "bs \<noteq> [] \<Longrightarrow> undump_line (dump_line pos bs) = bs"
proof -
  assume bs: "bs \<noteq> []"
  have f: "filter (\<lambda>c. c \<noteq> CHR '' '') (dump_digits bs) = filter (\<lambda>c. c \<noteq> CHR '' '') (hex_groups 0 bs)"
  proof (cases "length bs mod 4 = 0")
    case True
    then have "filter (\<lambda>c. c \<noteq> CHR '' '') (hex_groups 0 bs) = filter (\<lambda>c. c \<noteq> CHR '' '') (butlast (hex_groups 0 bs) @ '' '')"
      using groups_blank [OF bs] by simp
    then show ?thesis using True by (simp add: dump_digits_def)
  qed (simp add: dump_digits_def)
  have "CHR ''<'' \<notin> set (dump_digits bs)" using groups_no_close by (auto simp: dump_digits_def Let_def dest: in_set_butlastD split: if_splits)
  then have "takeWhile (\<lambda>c. c \<noteq> CHR ''<'') (dump_digits bs @ CHR ''<'' # X) = dump_digits bs" for X
    by (subst takeWhile_append2) auto
  then show ?thesis by (simp add: undump_line_def dump_line_def f unhex_groups)
qed

lemma lines_of_app: "CHR 0x0A \<notin> set l \<Longrightarrow> lines_of acc (l @ CHR 0x0A # s) = (acc @ l) # lines_of [] s"
  by (induction l arbitrary: acc) auto

lemma undump_dump_lines: "undump (dump_lines pos bs) = bs"
proof (induction pos bs rule: dump_lines.induct)
  case (1 pos bs)
  show ?case
  proof (cases "bs = []")
    case True
    then show ?thesis by (simp add: dump_lines.simps undump_def)
  next
    case False
    have "CHR 0x0A \<notin> set (dump_line pos (take 16 bs))" using plain_line by (fastforce simp: visible_def)
    then have "undump (dump_lines pos bs) = undump_line (dump_line pos (take 16 bs)) @ undump (dump_lines (pos + 16) (drop 16 bs))"
      using False by (subst dump_lines.simps) (simp add: undump_def lines_of_app)
    then show ?thesis using 1 False undump_dump_line [of "take 16 bs" pos] by simp
  qed
qed

text \<open>C31: dumping the bytes of any object below 2 GB returns, never writes outside the line buffer whatever that held before, prints a line
  for every 16 bytes with their digits in groups of four, the printable characters and the offset, and the bytes can be read back from the text.\<close>

theorem hexdump_roundtrip:
  assumes "length mem < 2 ^ 31" "length szBuf = 100" "length mem + 16 \<le> 16 * fuel"
  shows "hexdump fuel szBuf mem (int (length mem)) = Inr (dump_lines 0 mem) \<and> undump (dump_lines 0 mem) = mem"
proof -
  have "nat (int (length mem) mod 2 ^ 64) = length mem" using assms(1) by simp
  then show ?thesis using hexdump_loop_run [of 0 "length mem" mem szBuf fuel] assms undump_dump_lines by (simp add: hexdump_def)
qed

definition dump_demo :: string where
  "dump_demo = ''Hello, world!'' @ [CHR 0x0A] @ ''0123456789''"

theorem hexdump_roundtrip_witness:
  "hexdump 3 (replicate 100 (CHR ''?'')) dump_demo (int (length dump_demo)) = Inr (dump_lines 0 dump_demo) \<and>
   undump (dump_lines 0 dump_demo) = dump_demo \<and>
   dump_lines 0 dump_demo =
     '' >48656C6C 6F2C2077 6F726C64 210A3031< Hello, world!.01 00000000'' @ [CHR 0x0A] @
     '' >32333435 36373839<                   23456789         00000010'' @ [CHR 0x0A]"
proof -
  have "dump_lines 0 dump_demo =
     '' >48656C6C 6F2C2077 6F726C64 210A3031< Hello, world!.01 00000000'' @ [CHR 0x0A] @
     '' >32333435 36373839<                   23456789         00000010'' @ [CHR 0x0A]" by code_simp
  moreover have "length dump_demo = 24" by (simp add: dump_demo_def)
  ultimately show ?thesis using hexdump_roundtrip [of dump_demo "replicate 100 (CHR ''?'')" 3] by simp
qed

text \<open>A size that is a multiple of \<open>2 ^ 32\<close> is narrowed to 0: the loop prints an empty line for ever.\<close>

lemma hexdump_hangs:
  assumes "length szBuf = 100"
  shows "hexdump_loop fuel mem 0 (2 ^ 32) szBuf = Inl OutOfFuel"
  using assms
proof (induction fuel arbitrary: szBuf)
  case (Suc fuel)
  have l: "length (line_start @ hex8 0 @ [CHR 0x00]) = 65" using hex8_length [of 0] by (simp add: line_start_def)
  define b where "b = line_start @ hex8 0 @ [CHR 0x00] @ drop 65 szBuf"
  have b: "overwrite szBuf 0 (line_start @ hex8 0 @ [CHR 0x00]) = Inr b" "length b = 100"
    using l Suc.prems by (simp_all add: overwrite_def b_def)
  have "hex_line mem 0 0 szBuf = Inr (b[Suc 0 := CHR ''<'', 2 := CHR '' ''])"
    using b by (simp add: hex_line_def hex_bytes.simps store_in numeral_2_eq_2)
  moreover have "to_int (2 ^ 32) = 0" by (simp add: to_int_def)
  ultimately show ?case using Suc.IH [of "b[Suc 0 := CHR ''<'', 2 := CHR '' '']"] b(2) by simp
qed simp

end
