(* ===== verification/Checksums.thy ===== *)
theory Checksums
  imports C_Text
begin

text \<open>
  The digests of \<^verbatim>\<open>src/openssl/chksum.cpp\<close> as texts of hexadecimal digits, in three ways: with one call of \<open>snprintf\<close>, with a
  table of digits, and by repeated \<open>sprintf\<close> after reading a file in blocks.

  The digest functions of OpenSSL are parameters. What the file version relies on is \<open>md5_lib_ok\<close>: feeding the blocks one by one gives the
  digest of the whole.
\<close>

section \<open>The program\<close>

definition HEXTAB :: string where
  "HEXTAB = ''0123456789abcdef''"

text \<open>\<open>%02x\<close> for a byte\<close>

definition hexl :: "char \<Rightarrow> string" where
  "hexl c = [HEXTAB ! (of_char c div 16), HEXTAB ! (of_char c mod 16)]"

definition md5sum_r :: "(string \<Rightarrow> string) \<Rightarrow> string \<Rightarrow> string \<Rightarrow> cerr + string" where
  "md5sum_r MD5 str buff =
     bindr (snprintf_at buff 0 33 (concat (map hexl (MD5 str)))) (\<lambda>buff. store buff 32 (CHR 0x00))"

text \<open>The loop over the bytes of the digest.\<close>

fun sha1_digits :: "string \<Rightarrow> nat \<Rightarrow> string \<Rightarrow> cerr + nat \<times> string" where
  "sha1_digits [] n buff = Inr (n, buff)"
| "sha1_digits (c # md) n buff =
     bindr (load HEXTAB (of_char c div 16 mod 16)) (\<lambda>h.
     bindr (store buff n h) (\<lambda>buff.
     bindr (load HEXTAB (of_char c mod 16)) (\<lambda>l.
     bindr (store buff (n + 1) l) (\<lambda>buff. sha1_digits md (n + 2) buff))))"

definition sha1sum_r :: "(string \<Rightarrow> string) \<Rightarrow> string \<Rightarrow> string \<Rightarrow> cerr + string" where
  "sha1sum_r SHA1 str buff =
     bindr (sha1_digits (SHA1 str) 0 buff) (\<lambda>(n, buff). store buff n (CHR 0x00))"

record 'c md5_lib =
  MD5_Init :: 'c
  MD5_Update :: "'c \<Rightarrow> string \<Rightarrow> 'c"
  MD5_Final :: "'c \<Rightarrow> string"

text \<open>The reading loop: \<open>fread\<close> gives blocks of 1024 bytes, and a shorter one at the end of the file.\<close>

function md5_read :: "'c md5_lib \<Rightarrow> 'c \<Rightarrow> string \<Rightarrow> 'c" where
  "md5_read M ctx f =
     (let data = take 1024 f; bytes = length data in
      if bytes \<noteq> 0 then md5_read M (MD5_Update M ctx data) (drop 1024 f) else ctx)"
  by pat_completeness auto
termination by (relation "measure (\<lambda>(M, ctx, f). length f)") auto

declare md5_read.simps [simp del]

fun md5_digits :: "string \<Rightarrow> nat \<Rightarrow> string \<Rightarrow> cerr + string" where
  "md5_digits [] i buff = Inr buff"
| "md5_digits (c # cs) i buff = bindr (overwrite buff (i * 2) (hexl c @ [CHR 0x00])) (\<lambda>buff. md5_digits cs (Suc i) buff)"

text \<open>\<open>f\<close> is the contents of the file, \<open>None\<close> if it cannot be opened: then a null pointer is returned.\<close>

definition md5sum_file_r :: "'c md5_lib \<Rightarrow> string option \<Rightarrow> string \<Rightarrow> cerr + string option" where
  "md5sum_file_r M f buff =
     (case f of None \<Rightarrow> Inr None
      | Some s \<Rightarrow> bindr (md5_digits (MD5_Final M (md5_read M (MD5_Init M) s)) 0 buff) (\<lambda>buff. Inr (Some buff)))"

section \<open>The digits\<close>

definition md5_lib_ok :: "'c md5_lib \<Rightarrow> (string \<Rightarrow> string) \<Rightarrow> bool" where
  "md5_lib_ok M MD5 \<longleftrightarrow>
     (\<forall>bs. MD5_Final M (foldl (MD5_Update M) (MD5_Init M) bs) = MD5 (concat bs)) \<and> (\<forall>s. length (MD5 s) = 16)"

lemma byte_nibbles: "of_char c div 16 < (16 :: nat)" "of_char c mod 16 < (16 :: nat)"
  using nat_of_char_less_256 [of c] by (simp_all add: less_mult_imp_div_less)

lemma HEXTAB_plain: "d < 16 \<Longrightarrow> HEXTAB ! d \<noteq> CHR 0x00"
proof -
  have "\<forall>d < 16. HEXTAB ! d \<noteq> CHR 0x00" by code_simp
  then show "d < 16 \<Longrightarrow> HEXTAB ! d \<noteq> CHR 0x00" by blast
qed

lemma digits_plain: "x \<in> set (concat (map hexl md)) \<Longrightarrow> x \<noteq> CHR 0x00"
  by (auto simp: hexl_def) (metis HEXTAB_plain byte_nibbles)+

lemma hexl_length [simp]: "length (hexl c) = 2"
  by (simp add: hexl_def)

lemma digits_length: "length (concat (map hexl md)) = 2 * length md"
  by (induction md) (simp_all add: hexl_def)

text \<open>What is written stands at the beginning of the buffer, closed by a zero.\<close>

lemma digits_text: "takeWhile (\<lambda>c. c \<noteq> CHR 0x00) (concat (map hexl md) @ CHR 0x00 # R) = concat (map hexl md)"
  using digits_plain [of _ md] by (subst takeWhile_append2) auto

lemma md5sum_r_run:
  assumes "length (MD5 s) = 16" "33 \<le> length buff"
  shows "md5sum_r MD5 s buff = Inr (concat (map hexl (MD5 s)) @ CHR 0x00 # drop 33 buff)"
  using assms digits_length [of "MD5 s"] by (simp add: md5sum_r_def snprintf_at_def overwrite_def store_def list_update_append)

lemma sha1_digits_run:
  "length P = n \<Longrightarrow> length B = 2 * length md \<Longrightarrow> sha1_digits md n (P @ B @ R) = Inr (n + 2 * length md, P @ concat (map hexl md) @ R)"
proof (induction md arbitrary: n P B)
  case (Cons c md)
  obtain x y B' where B: "B = x # y # B'" using Cons.prems(2) by (cases B; cases "tl B") auto
  have "length HEXTAB = 16" by (simp add: HEXTAB_def)
  then have "sha1_digits (c # md) n (P @ B @ R) = sha1_digits md (n + 2) ((P @ hexl c) @ B' @ R)"
    using Cons.prems(1) byte_nibbles [of c] by (simp add: B hexl_def load_in store_def list_update_append)
  also have "\<dots> = Inr (n + 2 + 2 * length md, (P @ hexl c) @ concat (map hexl md) @ R)"
    using Cons.prems by (intro Cons.IH) (simp_all add: B hexl_def)
  finally show ?case by simp
qed simp

lemma md5_digits_run:
  "length P = 2 * i \<Longrightarrow> 2 * length md < length B \<Longrightarrow>
   \<exists>R. md5_digits md i (P @ B) = Inr (P @ concat (map hexl md) @ R) \<and> length R = length B - 2 * length md \<and>
     (md \<noteq> [] \<longrightarrow> R = CHR 0x00 # drop (2 * length md + 1) B)"
proof (induction md arbitrary: i P B)
  case (Cons c md)
  obtain x y z B' where B: "B = x # y # z # B'" using Cons.prems(2) by (cases B; cases "tl B"; cases "tl (tl B)") auto
  have "md5_digits (c # md) i (P @ B) = md5_digits md (Suc i) ((P @ hexl c) @ CHR 0x00 # B')"
    using Cons.prems(1) by (simp add: B hexl_def overwrite_def mult.commute)
  moreover obtain R where R: "md5_digits md (Suc i) ((P @ hexl c) @ CHR 0x00 # B') = Inr ((P @ hexl c) @ concat (map hexl md) @ R)"
    "length R = length (CHR 0x00 # B') - 2 * length md" "md \<noteq> [] \<longrightarrow> R = CHR 0x00 # drop (2 * length md + 1) (CHR 0x00 # B')"
    using Cons.IH [of "P @ hexl c" "Suc i" "CHR 0x00 # B'"] Cons.prems by (auto simp: B)
  moreover have "md5_digits [] (Suc i) ((P @ hexl c) @ CHR 0x00 # B') = Inr (P @ hexl c @ CHR 0x00 # B')" by simp
  ultimately show ?case by (cases "md = []") (auto simp: B)
qed simp

lemma md5_read_blocks: "\<exists>bs. concat bs = f \<and> md5_read M ctx f = foldl (MD5_Update M) ctx bs"
proof (induction M ctx f rule: md5_read.induct)
  case (1 M ctx f)
  show ?case
  proof (cases "f = []")
    case True
    then show ?thesis by (subst md5_read.simps) (intro exI [of _ "[]"], simp)
  next
    case False
    then obtain bs where "concat bs = drop 1024 f" "md5_read M (MD5_Update M ctx (take 1024 f)) (drop 1024 f) = foldl (MD5_Update M) (MD5_Update M ctx (take 1024 f)) bs"
      using 1 [of "take 1024 f" "length (take 1024 f)"] by auto
    then show ?thesis using False by (subst md5_read.simps) (intro exI [of _ "take 1024 f # bs"], simp add: Let_def)
  qed
qed

text \<open>With a buffer of 33 characters, the digest of a file that is read in blocks is the same text as the digest of its contents in one piece: 32
  lower-case digits, two for each byte of the digest; and the version with a table of digits writes the same kind of text for the 20 bytes of
  the other digest into 41 characters.\<close>

theorem checksum_texts:
  assumes "md5_lib_ok M MD5" "33 \<le> length buff" "\<forall>s. length (SHA1 s) = 20" "41 \<le> length buff'"
  shows "\<exists>b. md5sum_r MD5 s buff = Inr b \<and> md5sum_file_r M (Some s) buff = Inr (Some b) \<and>
    takeWhile (\<lambda>c. c \<noteq> CHR 0x00) b = concat (map hexl (MD5 s)) \<and>
    (\<exists>b'. sha1sum_r SHA1 s buff' = Inr b' \<and> takeWhile (\<lambda>c. c \<noteq> CHR 0x00) b' = concat (map hexl (SHA1 s)))"
proof -
  have len: "length (MD5 s) = 16" using assms(1) by (simp add: md5_lib_ok_def)
  obtain bs where "concat bs = s" "md5_read M (MD5_Init M) s = foldl (MD5_Update M) (MD5_Init M) bs" using md5_read_blocks [of s M "MD5_Init M"] by blast
  then have f: "MD5_Final M (md5_read M (MD5_Init M) s) = MD5 s" using assms(1) by (simp add: md5_lib_ok_def)
  have ne: "MD5 s \<noteq> []" using len by auto
  have "md5_digits (MD5 s) 0 ([] @ buff) = Inr (concat (map hexl (MD5 s)) @ CHR 0x00 # drop 33 buff)"
  proof -
    have z: "length ([] :: string) = 2 * 0" and lt: "2 * length (MD5 s) < length buff" using len assms(2) by simp_all
    obtain R where "md5_digits (MD5 s) 0 ([] @ buff) = Inr ([] @ concat (map hexl (MD5 s)) @ R)" "R = CHR 0x00 # drop (2 * length (MD5 s) + 1) buff"
      using md5_digits_run [OF z lt] ne by blast
    then show ?thesis using len by simp
  qed
  then have "md5sum_file_r M (Some s) buff = Inr (Some (concat (map hexl (MD5 s)) @ CHR 0x00 # drop 33 buff))"
    by (simp add: md5sum_file_r_def f)
  moreover have "sha1sum_r SHA1 s buff' = Inr (concat (map hexl (SHA1 s)) @ CHR 0x00 # drop 41 buff')"
  proof -
    have "sha1_digits (SHA1 s) 0 ([] @ take 40 buff' @ drop 40 buff') = Inr (0 + 2 * length (SHA1 s), [] @ concat (map hexl (SHA1 s)) @ drop 40 buff')"
      using assms(3,4) by (intro sha1_digits_run) auto
    then have "sha1_digits (SHA1 s) 0 buff' = Inr (2 * length (SHA1 s), concat (map hexl (SHA1 s)) @ drop 40 buff')" by simp
    moreover have "drop 40 buff' = buff' ! 40 # drop 41 buff'" using assms(4) Cons_nth_drop_Suc [of 40 buff'] by simp
    ultimately show ?thesis using assms(3) digits_length [of "SHA1 s"] by (simp add: sha1sum_r_def store_def list_update_append)
  qed
  ultimately show ?thesis using md5sum_r_run [of MD5 s, OF len assms(2)] digits_text by blast
qed

text \<open>A digest library for the witness: the bytes so far, cut or filled up to the size of a digest.\<close>

definition demo_digest :: "nat \<Rightarrow> string \<Rightarrow> string" where
  "demo_digest n s = take n (s @ replicate n (CHR 0x00))"

lemma demo_digest_length: "length (demo_digest n s) = n"
  by (simp add: demo_digest_def)

definition demo_md5 :: "string md5_lib" where
  "demo_md5 = \<lparr>MD5_Init = [], MD5_Update = (\<lambda>c s. c @ s), MD5_Final = demo_digest 16\<rparr>"

lemma demo_md5_ok: "md5_lib_ok demo_md5 (demo_digest 16)"
proof -
  have "foldl (@) c bs = c @ concat bs" for c and bs :: "string list" by (induction bs arbitrary: c) auto
  then show ?thesis by (simp add: md5_lib_ok_def demo_md5_def demo_digest_length)
qed

theorem checksum_texts_witness:
  "\<exists>b. md5sum_r (demo_digest 16) ''abc'' (replicate 33 (CHR ''?'')) = Inr b \<and>
    md5sum_file_r demo_md5 (Some ''abc'') (replicate 33 (CHR ''?'')) = Inr (Some b) \<and>
    takeWhile (\<lambda>c. c \<noteq> CHR 0x00) b = concat (map hexl (demo_digest 16 ''abc'')) \<and>
    (\<exists>b'. sha1sum_r (demo_digest 20) ''abc'' (replicate 41 (CHR ''?'')) = Inr b' \<and>
      takeWhile (\<lambda>c. c \<noteq> CHR 0x00) b' = concat (map hexl (demo_digest 20 ''abc'')))"
  by (rule checksum_texts [OF demo_md5_ok]) (simp_all add: demo_digest_length)

end
