(* ===== verification/Phx_Echo.thy ===== *)
theory Phx_Echo
  imports C_Text
begin

text \<open>
  The echo service of \<^verbatim>\<open>src/phxecho\<close>: the command line with the addresses of the nodes (\<^verbatim>\<open>main.cpp\<close>), the server that starts a Paxos node and proposes
  values (\<^verbatim>\<open>echo_server.cpp\<close>), and the state machine that the chosen values are executed on (\<^verbatim>\<open>echo_sm.cpp\<close>).

  PhxPaxos is outside the repository. Its \<open>NodeInfo\<close> is a type parameter with a constructor \<open>SetIPPort\<close>, and a call of \<open>Propose\<close> is a parameter that
  gives the result, the executions of the state machine that took place during the call, and the node after it, so that the same value may be chosen once and refused
  another time; \<open>propose_ok\<close> is what is relied on. The outcomes of the
  system calls are parameters too. The loop of the program never ends, not even at the end of its input: the model runs it for any number of rounds. The printed messages are
  left out but for the replies.
\<close>

section \<open>Addresses\<close>

text \<open>A C string ends at its first zero.\<close>

definition until_zero :: "string \<Rightarrow> string" where
  "until_zero s = takeWhile (\<lambda>c. c \<noteq> CHR 0x00) s"

text \<open>\<open>int iStrLen = strlen(pcStr)\<close>: the length is reduced to 32 bits.\<close>

definition strlen_int :: "string \<Rightarrow> int" where
  "strlen_int s = (int (length s) + 2147483648) mod 4294967296 - 2147483648"

text \<open>\<open>sscanf(pcStr, "%[^':']:%d", sIP, &iPort)\<close> with 32 characters at \<open>sIP\<close>: \<open>None\<close> unless both were read.\<close>

definition ip_char :: "char \<Rightarrow> bool" where
  "ip_char c \<longleftrightarrow> c \<noteq> CHR '':'' \<and> c \<noteq> CHR 0x27"

definition sscanf_ipport :: "string \<Rightarrow> cerr + (string \<times> int) option" where
  "sscanf_ipport s =
     (let sIP = takeWhile ip_char s in
      if sIP = [] then Inr None
      else if 32 \<le> length sIP then Inl OutOfBounds
      else case dropWhile ip_char s of [] \<Rightarrow> Inr None
        | c # r \<Rightarrow> if c \<noteq> CHR '':'' then Inr None
            else bindr (fscanf_d r) (\<lambda>x. case x of ScanOk iPort _ \<Rightarrow> Inr (Some (sIP, iPort)) | _ \<Rightarrow> Inr None))"

definition parse_ipport :: "(string \<Rightarrow> int \<Rightarrow> 'n) \<Rightarrow> string \<Rightarrow> cerr + int \<times> 'n option" where
  "parse_ipport SetIPPort pcStr =
     bindr (sscanf_ipport (until_zero pcStr)) (\<lambda>r. case r of None \<Rightarrow> Inr (- 1, None)
     | Some (sIP, iPort) \<Rightarrow> Inr (0, Some (SetIPPort sIP iPort)))"

text \<open>The loop over the characters \<open>pcStr[0]\<close> to \<open>pcStr[iStrLen - 1]\<close>; the last one is the one with nothing behind it.\<close>

fun ipport_loop :: "(string \<Rightarrow> int \<Rightarrow> 'n) \<Rightarrow> string \<Rightarrow> string \<Rightarrow> 'n list \<Rightarrow> cerr + int \<times> 'n list" where
  "ipport_loop mk [] sTmpStr vec = Inr (0, vec)"
| "ipport_loop mk (c # s) sTmpStr vec =
     (if c = CHR '','' \<or> s = [] then
        let sTmpStr = (if s = [] \<and> c \<noteq> CHR '','' then sTmpStr @ [c] else sTmpStr) in
        bindr (parse_ipport mk sTmpStr) (\<lambda>(ret, n).
        if ret \<noteq> 0 then Inr (ret, vec) else bindr (deref n) (\<lambda>n. ipport_loop mk s [] (vec @ [n])))
      else ipport_loop mk s (sTmpStr @ [c]) vec)"

definition parse_ipport_list :: "(string \<Rightarrow> int \<Rightarrow> 'n) \<Rightarrow> string \<Rightarrow> cerr + int \<times> 'n list" where
  "parse_ipport_list mk pcStr =
     (let s = until_zero pcStr; iStrLen = strlen_int s in ipport_loop mk (take (nat iStrLen) s) [] [])"

section \<open>The state machine\<close>

record PhxEchoSMCtx =
  iExecuteRet :: int
  sEchoRespValue :: string

definition new_ctx :: PhxEchoSMCtx where
  "new_ctx = \<lparr>iExecuteRet = - 1, sEchoRespValue = []\<rparr>"

text \<open>\<open>Execute\<close>: only the node that proposed the value has a context.\<close>

definition Execute :: "string \<Rightarrow> PhxEchoSMCtx option \<Rightarrow> bool \<times> PhxEchoSMCtx option" where
  "Execute sPaxosValue poSMCtx = (True, map_option (\<lambda>c. c\<lparr>iExecuteRet := 0, sEchoRespValue := sPaxosValue\<rparr>) poSMCtx)"

definition SMID :: int where
  "SMID = 1"

section \<open>The server\<close>

text \<open>One call of \<open>Propose\<close>: its result, and the values executed while it ran, each with or without the context of the caller.\<close>

record proposal =
  pr_ret :: int
  pr_runs :: "(bool \<times> string) list"

definition run_all :: "(bool \<times> string) list \<Rightarrow> PhxEchoSMCtx \<Rightarrow> PhxEchoSMCtx" where
  "run_all rs ctx = foldl (\<lambda>c (own, v). if own then the (snd (Execute v (Some c))) else c) ctx rs"

text \<open>\<open>node\<close> is the pointer to the Paxos node; \<open>c_str()\<close> cuts the reply at the first zero. The result has the node after the call.\<close>

definition Echo :: "'p option \<Rightarrow> ('p \<Rightarrow> string \<Rightarrow> proposal \<times> 'p) \<Rightarrow> string \<Rightarrow> string \<Rightarrow> cerr + int \<times> string \<times> 'p" where
  "Echo node Propose sEchoReqValue resp =
     bindr (deref node) (\<lambda>n.
     let (p, n') = Propose n sEchoReqValue; ctx = run_all (pr_runs p) new_ctx in
     if pr_ret p \<noteq> 0 then Inr (pr_ret p, resp, n')
     else if iExecuteRet ctx \<noteq> 0 then Inr (iExecuteRet ctx, resp, n')
     else Inr (0, until_zero (sEchoRespValue ctx), n'))"

definition MakeLogStoragePath :: "string \<Rightarrow> int \<Rightarrow> (string \<Rightarrow> bool) \<Rightarrow> (string \<Rightarrow> bool) \<Rightarrow> cerr + int \<times> string" where
  "MakeLogStoragePath ip port access mkdir =
     bindr (snprintf_at (replicate 128 (CHR 0x00)) 0 128 (''./logpath_'' @ ip @ ''_'' @ show_int port)) (\<lambda>sTmp.
     let path = takeWhile (\<lambda>c. c \<noteq> CHR 0x00) sTmp in
     if \<not> access path \<and> \<not> mkdir path then Inr (- 1, path) else Inr (0, path))"

text \<open>What the calls of \<open>RunPaxos\<close> answer: the file system, the logger, and the node that \<open>RunNode\<close> starts.\<close>

record 'p start_answers =
  sa_access :: "string \<Rightarrow> bool"
  sa_mkdir :: "string \<Rightarrow> bool"
  sa_logger :: int
  sa_run :: "int \<times> 'p option"

definition RunPaxos :: "string \<Rightarrow> int \<Rightarrow> 'p start_answers \<Rightarrow> cerr + int \<times> 'p option" where
  "RunPaxos ip port sa =
     bindr (MakeLogStoragePath ip port (sa_access sa) (sa_mkdir sa)) (\<lambda>(ret, path).
     if ret \<noteq> 0 then Inr (ret, None)
     else if sa_logger sa \<noteq> 0 then Inr (sa_logger sa, None)
     else if fst (sa_run sa) \<noteq> 0 then Inr (fst (sa_run sa), snd (sa_run sa)) else Inr (0, snd (sa_run sa)))"

section \<open>The program\<close>

text \<open>\<open>cin\<close>: what is left to read, and whether the end has been seen. \<open>getline\<close> on a stream that has seen its end fails and leaves the string as it was; otherwise the
  string is what stands before the next newline, or before the end, which is then seen.\<close>

record istream =
  is_rest :: string
  is_eof :: bool

definition getline :: "istream \<Rightarrow> string \<Rightarrow> istream \<times> string" where
  "getline st str =
     (if is_eof st then (st, str)
      else let line = takeWhile (\<lambda>c. c \<noteq> CHR 0x0A) (is_rest st) in
        case dropWhile (\<lambda>c. c \<noteq> CHR 0x0A) (is_rest st) of
          [] \<Rightarrow> (\<lparr>is_rest = [], is_eof = True\<rparr>, line)
        | _ # r \<Rightarrow> (\<lparr>is_rest = r, is_eof = False\<rparr>, line))"

text \<open>The first \<open>k\<close> rounds of the loop, which has no way out; what is printed is an error or a reply. The result of \<open>getline\<close> is not looked at.\<close>

fun echo_rounds :: "'p option \<Rightarrow> ('p \<Rightarrow> string \<Rightarrow> proposal \<times> 'p) \<Rightarrow> nat \<Rightarrow> istream \<Rightarrow> string \<Rightarrow> cerr + (int + string) list" where
  "echo_rounds node Propose 0 cin sEchoReqValue = Inr []"
| "echo_rounds node Propose (Suc k) cin sEchoReqValue =
     (let (cin, sEchoReqValue) = getline cin sEchoReqValue in
     bindr (Echo node Propose sEchoReqValue []) (\<lambda>(ret, resp, n).
     bindr (echo_rounds (Some n) Propose k cin sEchoReqValue) (\<lambda>out. Inr ((if ret \<noteq> 0 then Inl ret else Inr (until_zero resp)) # out))))"

text \<open>\<open>argv\<close> without the name of the program. The constructor of \<open>NodeInfo\<close> keeps address and port for the path. The result is the return value, or \<open>None\<close> when the program is still in
  its loop after \<open>k\<close> rounds, and what it has printed.\<close>

definition test_phxecho_main ::
  "(string \<Rightarrow> int \<Rightarrow> 'n) \<Rightarrow> ('n \<Rightarrow> string) \<Rightarrow> ('n \<Rightarrow> int) \<Rightarrow> ('n \<Rightarrow> 'n list \<Rightarrow> 'p start_answers) \<Rightarrow> ('p \<Rightarrow> string \<Rightarrow> proposal \<times> 'p) \<Rightarrow>
   string list \<Rightarrow> string \<Rightarrow> nat \<Rightarrow> cerr + int option \<times> (int + string) list" where
  "test_phxecho_main mk GetIP GetPort start Propose argv input k =
     (case argv of a1 # a2 # _ \<Rightarrow>
        bindr (parse_ipport mk a1) (\<lambda>(ret, me). if ret \<noteq> 0 then Inr (Some (- 1), []) else
        bindr (deref me) (\<lambda>me.
        bindr (parse_ipport_list mk a2) (\<lambda>(ret, vec). if ret \<noteq> 0 then Inr (Some (- 1), []) else
        bindr (RunPaxos (GetIP me) (GetPort me) (start me vec)) (\<lambda>(ret, node). if ret \<noteq> 0 then Inr (Some (- 1), []) else
        bindr (echo_rounds node Propose k \<lparr>is_rest = input, is_eof = False\<rparr> []) (\<lambda>out. Inr (None, out))))))
      | _ \<Rightarrow> Inr (Some (- 1), []))"

section \<open>Reading back addresses\<close>

definition show_ipport :: "string \<times> int \<Rightarrow> string" where
  "show_ipport a = fst a @ '':'' @ show_int (snd a)"

fun show_ipports :: "(string \<times> int) list \<Rightarrow> string" where
  "show_ipports [] = []"
| "show_ipports [a] = show_ipport a"
| "show_ipports (a # as) = show_ipport a @ '','' @ show_ipports as"

definition ipport_ok :: "string \<times> int \<Rightarrow> bool" where
  "ipport_ok a \<longleftrightarrow> fst a \<noteq> [] \<and> length (fst a) < 32 \<and> list_all (\<lambda>c. ip_char c \<and> c \<noteq> CHR '','' \<and> c \<noteq> CHR 0x00) (fst a) \<and> in_int (snd a)"

lemma until_zero_id: "CHR 0x00 \<notin> set s \<Longrightarrow> until_zero s = s"
  by (auto simp: until_zero_def takeWhile_eq_all_conv)

lemma show_int_no_zero: "CHR 0x00 \<notin> set (show_int k)"
  using show_nat_digits [of "nat k"] show_nat_digits [of "nat (- k)"] by (auto simp: show_int_def list_all_iff isdigit_def)

lemma show_ipport_no_zero: "ipport_ok a \<Longrightarrow> CHR 0x00 \<notin> set (show_ipport a)"
  using show_int_no_zero [of "snd a"] by (auto simp: show_ipport_def ipport_ok_def list_all_iff)

lemma show_ipports_no_zero: "list_all ipport_ok as \<Longrightarrow> CHR 0x00 \<notin> set (show_ipports as)"
  by (induction as rule: show_ipports.induct) (auto simp: show_ipport_no_zero)

lemma strlen_int_id: "length s < 2147483648 \<Longrightarrow> strlen_int s = int (length s)"
  by (simp add: strlen_int_def)

lemma parse_show_ipport:
  assumes "ipport_ok a"
  shows "parse_ipport mk (show_ipport a) = Inr (0, Some (mk (fst a) (snd a)))"
proof -
  have t: "takeWhile ip_char (fst a @ CHR '':'' # s) = fst a" "dropWhile ip_char (fst a @ CHR '':'' # s) = CHR '':'' # s" for s
    using assms by (auto simp: ipport_ok_def list_all_iff takeWhile_append2 dropWhile_append2 ip_char_def)
  have "fscanf_d (show_int (snd a)) = Inr (ScanOk (snd a) [])"
    using fscanf_d_show [of "snd a" "[]"] assms by (simp add: ipport_ok_def ends_number_def)
  then have "sscanf_ipport (show_ipport a) = Inr (Some a)"
    using assms t by (simp add: sscanf_ipport_def show_ipport_def ipport_ok_def Let_def)
  then show ?thesis using show_ipport_no_zero [OF assms] by (simp add: parse_ipport_def until_zero_id split: prod.split)
qed

lemma show_nat_no_comma: "CHR '','' \<notin> set (show_nat n)"
  using show_nat_digits [of n] by (auto simp: list_all_iff isdigit_def)

lemma show_ipport_no_comma: "ipport_ok a \<Longrightarrow> CHR '','' \<notin> set (show_ipport a)"
  using show_nat_no_comma by (auto simp: show_ipport_def ipport_ok_def list_all_iff show_int_def)

lemma show_ipport_nonempty: "show_ipport a \<noteq> []"
  by (simp add: show_ipport_def)

text \<open>The characters of one address are collected, up to a comma or the end of the text.\<close>

lemma ipport_loop_collect:
  "CHR '','' \<notin> set s \<Longrightarrow> ipport_loop mk (s @ CHR '','' # r) tmp vec = ipport_loop mk (CHR '','' # r) (tmp @ s) vec"
  by (induction s arbitrary: tmp) auto

lemma ipport_loop_last:
  "CHR '','' \<notin> set s \<Longrightarrow> s \<noteq> [] \<Longrightarrow> ipport_loop mk s tmp vec =
     bindr (parse_ipport mk (tmp @ s)) (\<lambda>(ret, n). if ret \<noteq> 0 then Inr (ret, vec) else bindr (deref n) (\<lambda>n. Inr (0, vec @ [n])))"
proof (induction s arbitrary: tmp)
  case (Cons c s)
  show ?case
  proof (cases "s = []")
    case False
    then show ?thesis using Cons.IH [of "tmp @ [c]"] Cons.prems by auto
  qed (use Cons.prems in \<open>simp cong: prod.case_cong if_cong\<close>)
qed simp

lemma ipport_loop_show:
  "list_all ipport_ok as \<Longrightarrow> as \<noteq> [] \<Longrightarrow> ipport_loop mk (show_ipports as) [] vec = Inr (0, vec @ map (\<lambda>a. mk (fst a) (snd a)) as)"
proof (induction as arbitrary: vec rule: show_ipports.induct)
  case (2 a)
  then show ?case using ipport_loop_last [of "show_ipport a" mk "[]" vec] parse_show_ipport [of a mk]
    by (simp add: show_ipport_no_comma show_ipport_nonempty)
next
  case (3 a b as)
  let ?r = "show_ipports (b # as)"
  have "ipport_loop mk (show_ipports (a # b # as)) [] vec = ipport_loop mk (CHR '','' # ?r) (show_ipport a) vec"
    using ipport_loop_collect [of "show_ipport a" mk ?r "[]" vec] 3(2) by (simp add: show_ipport_no_comma)
  also have "\<dots> = ipport_loop mk ?r [] (vec @ [mk (fst a) (snd a)])" using parse_show_ipport [of a mk] 3(2) by simp
  finally show ?case using 3 by simp
qed simp

lemma parse_ipport_list_show:
  assumes "list_all ipport_ok as" "as \<noteq> []" "length (show_ipports as) < 2147483648"
  shows "parse_ipport_list mk (show_ipports as) = Inr (0, map (\<lambda>a. mk (fst a) (snd a)) as)"
  using ipport_loop_show [OF assms(1,2), of mk "[]"] show_ipports_no_zero [OF assms(1)] strlen_int_id [OF assms(3)]
  by (simp add: parse_ipport_list_def until_zero_id)

text \<open>C32: a printed list of addresses, each shorter than 32 characters and without a separator, a quote or a zero byte in it, is read back as the list, in its order, if the text is
  shorter than \<open>2 ^ 31\<close>, and every element of it alone as well. The text of \<open>2 ^ 31\<close> to \<open>2 ^ 32\<close> characters is taken for an empty one, since its length becomes a
  negative \<open>int\<close>, and gives the empty list without an error.\<close>

theorem parse_ipport_list_roundtrip:
  assumes "list_all ipport_ok as" "as \<noteq> []" "length (show_ipports as) < 4294967296"
  shows "parse_ipport_list mk (show_ipports as) =
      Inr (0, if length (show_ipports as) < 2147483648 then map (\<lambda>a. mk (fst a) (snd a)) as else []) \<and>
    (\<forall>a \<in> set as. parse_ipport mk (show_ipport a) = Inr (0, Some (mk (fst a) (snd a))))"
proof -
  have "strlen_int (show_ipports as) < 0" if "\<not> length (show_ipports as) < 2147483648"
    using that assms(3) minus_mod_self2 [of "int (length (show_ipports as)) + 2147483648" 4294967296] by (simp add: strlen_int_def)
  then show ?thesis
    using parse_ipport_list_show [OF assms(1,2), of mk] show_ipports_no_zero [OF assms(1)] parse_show_ipport assms(1)
    by (auto simp: parse_ipport_list_def until_zero_id list_all_iff)
qed

lemma demo_ipports: "show_ipports [(''127.0.0.1'', 11111), (''127.0.0.1'', 11112)] = ''127.0.0.1:11111,127.0.0.1:11112''"
  by (simp add: show_ipport_def show_int_def show_nat.simps digit_def char_of_def bit_Suc_0_iff)

lemma demo_ipports_length: "length (show_ipports [(''127.0.0.1'', 11111), (''127.0.0.1'', 11112)]) = 31"
  unfolding demo_ipports by simp

theorem parse_ipport_list_roundtrip_witness:
  "show_ipports [(''127.0.0.1'', 11111), (''127.0.0.1'', 11112)] = ''127.0.0.1:11111,127.0.0.1:11112'' \<and>
   parse_ipport_list Pair (show_ipports [(''127.0.0.1'', 11111), (''127.0.0.1'', 11112)]) =
     Inr (0, [(''127.0.0.1'', 11111), (''127.0.0.1'', 11112)]) \<and>
   parse_ipport Pair (show_ipport (''127.0.0.1'', 11112)) = Inr (0, Some (''127.0.0.1'', 11112))"
proof (rule conjI)
  show "show_ipports [(''127.0.0.1'', 11111), (''127.0.0.1'', 11112)] = ''127.0.0.1:11111,127.0.0.1:11112''" by (rule demo_ipports)
  show "parse_ipport_list Pair (show_ipports [(''127.0.0.1'', 11111), (''127.0.0.1'', 11112)]) =
      Inr (0, [(''127.0.0.1'', 11111), (''127.0.0.1'', 11112)]) \<and>
    parse_ipport Pair (show_ipport (''127.0.0.1'', 11112)) = Inr (0, Some (''127.0.0.1'', 11112))"
    using parse_ipport_list_roundtrip [of "[(''127.0.0.1'', 11111), (''127.0.0.1'', 11112)]" Pair]
    by (simp add: ipport_ok_def ip_char_def in_int_def demo_ipports_length del: show_ipports.simps)
qed

text \<open>An address of 32 characters or more is written behind the end of its buffer.\<close>

lemma parse_ipport_overruns: "list_all ip_char s \<Longrightarrow> CHR 0x00 \<notin> set s \<Longrightarrow> 32 \<le> length s \<Longrightarrow> parse_ipport mk s = Inl OutOfBounds"
  by (auto simp: parse_ipport_def until_zero_id sscanf_ipport_def Let_def list_all_iff takeWhile_eq_all_conv [THEN iffD2])

section \<open>Echoing\<close>

text \<open>What the documentation of \<open>Propose\<close> promises: if it returns 0, then the value was chosen, and it was executed with the context of the caller exactly
  once, as the last execution with that context.\<close>

definition propose_ok :: "('p \<Rightarrow> string \<Rightarrow> proposal \<times> 'p) \<Rightarrow> bool" where
  "propose_ok Propose \<longleftrightarrow> (\<forall>n v. pr_ret (fst (Propose n v)) = 0 \<longrightarrow> map snd (filter fst (pr_runs (fst (Propose n v)))) = [v])"

lemma run_all_own: "run_all rs ctx = foldl (\<lambda>c v. c\<lparr>iExecuteRet := 0, sEchoRespValue := v\<rparr>) ctx (map snd (filter fst rs))"
  by (induction rs arbitrary: ctx) (auto simp: run_all_def Execute_def)

lemma Echo_spec:
  assumes "propose_ok Propose"
  shows "Echo (Some n) Propose v resp =
    (let (p, n') = Propose n v in Inr (if pr_ret p = 0 then (0, until_zero v, n') else (pr_ret p, resp, n')))"
proof -
  obtain p n' where p: "Propose n v = (p, n')" by (cases "Propose n v")
  then have "pr_ret p = 0 \<Longrightarrow> map snd (filter fst (pr_runs p)) = [v]" using assms by (metis propose_ok_def fst_conv)
  then show ?thesis using p by (simp add: Echo_def run_all_own new_ctx_def)
qed

text \<open>The results of a sequence of proposals, and what is printed for them.\<close>

fun proposals :: "('p \<Rightarrow> string \<Rightarrow> proposal \<times> 'p) \<Rightarrow> 'p \<Rightarrow> string list \<Rightarrow> proposal list" where
  "proposals Propose n [] = []"
| "proposals Propose n (v # vs) = fst (Propose n v) # proposals Propose (snd (Propose n v)) vs"

definition answer :: "string \<Rightarrow> proposal \<Rightarrow> int + string" where
  "answer v p = (if pr_ret p = 0 then Inr (until_zero v) else Inl (pr_ret p))"

text \<open>The parts of the input between the newlines. The request of a round is the next part; when all have been read, the last part stays in the string.\<close>

function parts :: "string \<Rightarrow> string list" where
  "parts s = takeWhile (\<lambda>c. c \<noteq> CHR 0x0A) s # (case dropWhile (\<lambda>c. c \<noteq> CHR 0x0A) s of [] \<Rightarrow> [] | _ # r \<Rightarrow> parts r)"
  by pat_completeness auto
termination
proof (relation "measure length")
  fix s r :: string and x
  assume "dropWhile (\<lambda>c. c \<noteq> CHR 0x0A) s = x # r"
  then show "(r, s) \<in> measure length" using length_dropWhile_le [of "\<lambda>c. c \<noteq> CHR 0x0A" s] by simp
qed simp

declare parts.simps [simp del]

definition request :: "string \<Rightarrow> nat \<Rightarrow> string" where
  "request input i = (if i < length (parts input) then parts input ! i else last (parts input))"

lemma until_zero_idem: "until_zero (until_zero s) = until_zero s"
  by (simp add: until_zero_def)

lemma echo_rounds_step:
  assumes "propose_ok Propose" "getline cin str = (cin', v)" "echo_rounds (Some (snd (Propose n v))) Propose k cin' v = Inr out"
  shows "echo_rounds (Some n) Propose (Suc k) cin str = Inr (answer v (fst (Propose n v)) # out)"
  using assms(2,3) by (cases "Propose n v") (simp add: Echo_spec [OF assms(1)] answer_def until_zero_idem)

lemma echo_rounds_ended:
  assumes "propose_ok Propose"
  shows "echo_rounds (Some n) Propose k \<lparr>is_rest = r, is_eof = True\<rparr> v =
    Inr (map2 answer (replicate k v) (proposals Propose n (replicate k v)))"
proof (induction k arbitrary: n)
  case (Suc k)
  then show ?case using echo_rounds_step [OF assms, of "\<lparr>is_rest = r, is_eof = True\<rparr>" v] by (simp add: getline_def del: echo_rounds.simps)
qed simp

text \<open>The first \<open>k\<close> requests of an input.\<close>

definition requests :: "string \<Rightarrow> nat \<Rightarrow> string list" where
  "requests input k = map (request input) [0..<k]"

lemma requests_Suc:
  "requests input (Suc k) = takeWhile (\<lambda>c. c \<noteq> CHR 0x0A) input #
     (case dropWhile (\<lambda>c. c \<noteq> CHR 0x0A) input of [] \<Rightarrow> replicate k (takeWhile (\<lambda>c. c \<noteq> CHR 0x0A) input) | _ # r \<Rightarrow> requests r k)"
proof -
  have up: "[0..<Suc k] = 0 # map Suc [0..<k]" by (simp only: map_Suc_upt upt_conv_Cons zero_less_Suc)
  have ne: "parts s \<noteq> []" for s by (subst parts.simps) simp
  show ?thesis
  proof (cases "dropWhile (\<lambda>c. c \<noteq> CHR 0x0A) input")
    case Nil
    then have "parts input = [takeWhile (\<lambda>c. c \<noteq> CHR 0x0A) input]" by (subst parts.simps) (simp del: dropWhile_eq_Nil_conv)
    then show ?thesis unfolding requests_def up Nil by (simp add: request_def comp_def map_replicate_const)
  next
    case (Cons c r)
    then have "parts input = takeWhile (\<lambda>c. c \<noteq> CHR 0x0A) input # parts r" by (subst parts.simps) (simp only: list.case)
    then show ?thesis unfolding requests_def up Cons by (simp add: request_def comp_def ne)
  qed
qed

lemma echo_rounds_spec:
  assumes "propose_ok Propose"
  shows "echo_rounds (Some n) Propose k \<lparr>is_rest = input, is_eof = False\<rparr> str =
    Inr (map2 answer (requests input k) (proposals Propose n (requests input k)))"
proof (induction k arbitrary: n input str)
  case 0
  then show ?case by (simp add: requests_def)
next
  case (Suc k)
  let ?v = "takeWhile (\<lambda>c. c \<noteq> CHR 0x0A) input"
  show ?case
  proof (cases "dropWhile (\<lambda>c. c \<noteq> CHR 0x0A) input")
    case Nil
    then have "getline \<lparr>is_rest = input, is_eof = False\<rparr> str = (\<lparr>is_rest = [], is_eof = True\<rparr>, ?v)" by (simp add: getline_def Let_def del: dropWhile_eq_Nil_conv)
    from echo_rounds_step [OF assms this echo_rounds_ended [OF assms]] show ?thesis unfolding requests_Suc Nil by simp
  next
    case (Cons c r)
    then have "getline \<lparr>is_rest = input, is_eof = False\<rparr> str = (\<lparr>is_rest = r, is_eof = False\<rparr>, ?v)" by (simp add: getline_def Let_def)
    from echo_rounds_step [OF assms this Suc.IH] show ?thesis unfolding requests_Suc Cons by simp
  qed
qed

lemma show_nat_length: "n < 10 ^ Suc k \<Longrightarrow> length (show_nat n) \<le> Suc k"
proof (induction k arbitrary: n)
  case 0
  then show ?case by (subst show_nat.simps) simp
next
  case (Suc k)
  then have "n div 10 < 10 ^ Suc k" by (simp add: less_mult_imp_div_less mult.commute)
  then show ?case using Suc.IH by (subst show_nat.simps) auto
qed

lemma show_int_length: "in_int k \<Longrightarrow> length (show_int k) \<le> 11"
  using show_nat_length [of "nat k" 9] show_nat_length [of "nat (- k)" 9] by (auto simp: show_int_def in_int_def nat_less_iff)

text \<open>The path of the log is never cut off.\<close>

lemma MakeLogStoragePath_spec:
  assumes "ipport_ok a"
  defines "path \<equiv> ''./logpath_'' @ fst a @ ''_'' @ show_int (snd a)"
  shows "MakeLogStoragePath (fst a) (snd a) access mkdir = Inr (if access path \<or> mkdir path then 0 else - 1, path)"
proof -
  have "length path \<le> 53" using assms(1) show_int_length [of "snd a"] by (simp add: path_def ipport_ok_def)
  moreover have "CHR 0x00 \<notin> set path"
    using assms(1) show_int_no_zero [of "snd a"] by (auto simp: path_def ipport_ok_def list_all_iff)
  moreover from this have "takeWhile (\<lambda>c. c \<noteq> CHR 0x00) (path @ CHR 0x00 # R) = path" for R by (subst takeWhile_append2) auto
  moreover have "snprintf_at (replicate 128 (CHR 0x00)) 0 128 path = Inr (path @ CHR 0x00 # replicate (127 - length path) (CHR 0x00))"
    using calculation(1) by (simp add: snprintf_at_def overwrite_def)
  ultimately show ?thesis unfolding MakeLogStoragePath_def path_def [symmetric] by (simp add: Let_def)
qed

text \<open>C33: the program, given its own address, a list of addresses in less than \<open>2 ^ 31\<close> characters and a library that keeps its promise, starts one node under a log path that is never cut off,
  and fails exactly if the directory, the logger
  or the node fails. Otherwise it never returns: in each of any number of rounds it answers the next line of the input either with the line itself, up to its first zero, or with the error of the
  proposal, which may differ from round to round; when the input is used up, it goes on with what stands behind the last newline, round after round.\<close>

theorem phxecho_echoes:
  assumes "propose_ok Propose" "ipport_ok a" "list_all ipport_ok as" "as \<noteq> []" "length (show_ipports as) < 2147483648"
    and "GetIP (mk (fst a) (snd a)) = fst a" "GetPort (mk (fst a) (snd a)) = snd a"
    and "start (mk (fst a) (snd a)) (map (\<lambda>a. mk (fst a) (snd a)) as) = \<lparr>sa_access = acc, sa_mkdir = mkd, sa_logger = lg, sa_run = (rn, Some n)\<rparr>"
  shows "test_phxecho_main mk GetIP GetPort start Propose [show_ipport a, show_ipports as] input k =
    Inr (if (acc (''./logpath_'' @ fst a @ ''_'' @ show_int (snd a)) \<or> mkd (''./logpath_'' @ fst a @ ''_'' @ show_int (snd a))) \<and> lg = 0 \<and> rn = 0
      then (None, map2 answer (requests input k) (proposals Propose n (requests input k)))
      else (Some (- 1), []))"
  using assms MakeLogStoragePath_spec [OF assms(2)] parse_ipport_list_show [OF assms(3-5), of mk] parse_show_ipport [OF assms(2), of mk] echo_rounds_spec [OF assms(1)]
  by (simp add: test_phxecho_main_def RunPaxos_def)

text \<open>A node that refuses every second value.\<close>

definition demo_propose :: "bool \<Rightarrow> string \<Rightarrow> proposal \<times> bool" where
  "demo_propose n v = (if n then \<lparr>pr_ret = 7, pr_runs = []\<rparr> else \<lparr>pr_ret = 0, pr_runs = [(False, ''x''), (True, v)]\<rparr>, \<not> n)"

theorem phxecho_echoes_witness:
  "test_phxecho_main Pair fst snd (\<lambda>_ _. \<lparr>sa_access = (\<lambda>_. False), sa_mkdir = (\<lambda>_. True), sa_logger = 0, sa_run = (0, Some False)\<rparr>) demo_propose
     [show_ipport (''127.0.0.1'', 11111), show_ipports [(''127.0.0.1'', 11111), (''127.0.0.1'', 11112)]] (''hello'' @ [CHR 0x0A] @ ''paxos'') 4 =
   Inr (None, [Inr ''hello'', Inl 7, Inr ''paxos'', Inl 7])"
proof -
  have "propose_ok demo_propose" by (simp add: propose_ok_def demo_propose_def)
  moreover have "requests (''hello'' @ [CHR 0x0A] @ ''paxos'') 4 = [''hello'', ''paxos'', ''paxos'', ''paxos'']"
    by (simp add: numeral_eq_Suc requests_Suc)
  ultimately show ?thesis
    using phxecho_echoes [of demo_propose "(''127.0.0.1'', 11111)" "[(''127.0.0.1'', 11111), (''127.0.0.1'', 11112)]" fst Pair snd
        "\<lambda>_ _. \<lparr>sa_access = (\<lambda>_. False), sa_mkdir = (\<lambda>_. True), sa_logger = 0, sa_run = (0, Some False)\<rparr>" "\<lambda>_. False" "\<lambda>_. True" 0 0 False
        "''hello'' @ [CHR 0x0A] @ ''paxos''" 4]
    by (simp add: ipport_ok_def ip_char_def in_int_def demo_propose_def answer_def until_zero_def demo_ipports_length del: show_ipports.simps)
qed

end
