(* ===== verification/List_Merge_Sort.thy ===== *)
theory List_Merge_Sort
  imports Array_Sort
begin

text \<open>
  Bottom-up merge sort of linked lists, \<^verbatim>\<open>src/algs/merge_sort_link_list/\<close>: \<open>listsort\<close> of
  \<^verbatim>\<open>merge_sort_link_list.c\<close> (repeated in \<^verbatim>\<open>merge_sort_link_list2.c\<close>), for linear or circular and
  singly or doubly linked lists, and \<open>merge_sort_list\<close> of \<^verbatim>\<open>merge_sort_link_list3.c\<close>.

  The model is the pointer program on a heap of elements. The merge of two runs ends because
  it counts the runs down; the loop over the runs of a pass and the loop over the passes take
  fuel, because a list that is circular where a linear one is expected makes them run forever.
  Both sorts share the merge, which asks \<open>pick\<close> whether the next element comes from the first run.
\<close>

section \<open>The program\<close>

record element =
  e_next :: "nat option"
  e_prev :: "nat option"
  e_i :: int

type_synonym lheap = "nat \<Rightarrow> element option"

definition lset :: "lheap \<Rightarrow> nat \<Rightarrow> (element \<Rightarrow> element) \<Rightarrow> cerr + lheap" where
  "lset h a f = bindr (deref (h a)) (\<lambda>n. Inr (h(a \<mapsto> f n)))"

definition elem_cmp :: "lheap \<Rightarrow> nat \<Rightarrow> nat \<Rightarrow> cerr + int" where
  "elem_cmp h a b = bindr (deref (h a)) (\<lambda>x. bindr (deref (h b)) (\<lambda>y. int_sub (e_i x) (e_i y)))"

text \<open>\<open>q = q->next\<close>, where the old head means the end of a circular list.\<close>

definition advance :: "lheap \<Rightarrow> bool \<Rightarrow> nat \<Rightarrow> nat \<Rightarrow> cerr + nat option" where
  "advance h is_circular oldhead q =
     bindr (deref (h q)) (\<lambda>n. Inr (if is_circular \<and> e_next n = Some oldhead then None else e_next n))"

fun step_along :: "lheap \<Rightarrow> bool \<Rightarrow> nat \<Rightarrow> nat \<Rightarrow> nat \<Rightarrow> nat \<Rightarrow> cerr + nat \<times> nat option" where
  "step_along h is_circular oldhead 0 psize q = Inr (psize, Some q)"
| "step_along h is_circular oldhead (Suc i) psize q =
     bindr (advance h is_circular oldhead q) (\<lambda>q'.
     case q' of None \<Rightarrow> Inr (Suc psize, None) | Some q \<Rightarrow> step_along h is_circular oldhead i (Suc psize) q)"

text \<open>The state of a merge: the two runs with their sizes, and the list built so far.\<close>

record merge_state =
  m_h :: lheap
  m_p :: "nat option"
  m_psize :: nat
  m_q :: "nat option"
  m_qsize :: nat
  m_list :: "nat option"
  m_tail :: "nat option"

definition take_p :: "bool \<Rightarrow> nat \<Rightarrow> merge_state \<Rightarrow> cerr + nat \<times> merge_state" where
  "take_p is_circular oldhead s =
     bindr (deref (m_p s)) (\<lambda>e. bindr (advance (m_h s) is_circular oldhead e) (\<lambda>p.
     Inr (e, s\<lparr>m_p := p, m_psize := m_psize s - 1\<rparr>)))"

definition take_q :: "bool \<Rightarrow> nat \<Rightarrow> merge_state \<Rightarrow> cerr + nat \<times> merge_state" where
  "take_q is_circular oldhead s =
     bindr (deref (m_q s)) (\<lambda>e. bindr (advance (m_h s) is_circular oldhead e) (\<lambda>q.
     Inr (e, s\<lparr>m_q := q, m_qsize := m_qsize s - 1\<rparr>)))"

text \<open>Which run the next element comes from: \<open>True\<close> for \<open>p\<close>.\<close>

definition from_p :: "(lheap \<Rightarrow> nat \<Rightarrow> nat \<Rightarrow> cerr + bool) \<Rightarrow> merge_state \<Rightarrow> cerr + bool" where
  "from_p pick s =
     (if m_psize s = 0 then Inr False
      else if m_qsize s = 0 \<or> m_q s = None then Inr True
      else bindr (deref (m_p s)) (\<lambda>p. bindr (deref (m_q s)) (\<lambda>q. pick (m_h s) p q)))"

definition append_elem :: "bool \<Rightarrow> nat \<Rightarrow> merge_state \<Rightarrow> cerr + merge_state" where
  "append_elem is_double e s =
     bindr (case m_tail s of Some t \<Rightarrow> bindr (lset (m_h s) t (\<lambda>n. n\<lparr>e_next := Some e\<rparr>)) (\<lambda>h. Inr (s\<lparr>m_h := h\<rparr>))
            | None \<Rightarrow> Inr (s\<lparr>m_list := Some e\<rparr>)) (\<lambda>s.
     bindr (if is_double then bindr (lset (m_h s) e (\<lambda>n. n\<lparr>e_prev := m_tail s\<rparr>)) (\<lambda>h. Inr (s\<lparr>m_h := h\<rparr>))
            else Inr s) (\<lambda>s.
     Inr (s\<lparr>m_tail := Some e\<rparr>)))"

text \<open>The merge counts the sizes down, so \<open>psize + qsize\<close> rounds are enough; \<open>n\<close> is that bound.\<close>

fun merge_runs :: "nat \<Rightarrow> (lheap \<Rightarrow> nat \<Rightarrow> nat \<Rightarrow> cerr + bool) \<Rightarrow> bool \<Rightarrow> bool \<Rightarrow> nat \<Rightarrow> merge_state \<Rightarrow> cerr + merge_state" where
  "merge_runs n pick is_circular is_double oldhead s =
     (if m_psize s > 0 \<or> (m_qsize s > 0 \<and> m_q s \<noteq> None) then
        case n of 0 \<Rightarrow> Inl OutOfFuel | Suc n \<Rightarrow>
        bindr (from_p pick s) (\<lambda>fp.
        bindr (if fp then take_p is_circular oldhead s else take_q is_circular oldhead s) (\<lambda>(e, s).
        bindr (append_elem is_double e s) (\<lambda>s.
        merge_runs n pick is_circular is_double oldhead s)))
      else Inr s)"

declare merge_runs.simps [simp del]

fun sort_pass :: "nat \<Rightarrow> (lheap \<Rightarrow> nat \<Rightarrow> nat \<Rightarrow> cerr + bool) \<Rightarrow> bool \<Rightarrow> bool \<Rightarrow> nat \<Rightarrow> nat \<Rightarrow> nat \<Rightarrow> merge_state \<Rightarrow>
    cerr + nat \<times> merge_state" where
  "sort_pass fuel pick is_circular is_double oldhead insize nmerges s =
     (case m_p s of None \<Rightarrow> Inr (nmerges, s)
      | Some p \<Rightarrow>
        (case fuel of 0 \<Rightarrow> Inl OutOfFuel | Suc fuel \<Rightarrow>
         bindr (step_along (m_h s) is_circular oldhead insize 0 p) (\<lambda>(psize, q).
         bindr (merge_runs (psize + insize) pick is_circular is_double oldhead
           (s\<lparr>m_psize := psize, m_q := q, m_qsize := insize\<rparr>)) (\<lambda>s.
         sort_pass fuel pick is_circular is_double oldhead insize (Suc nmerges) (s\<lparr>m_p := m_q s\<rparr>)))))"

declare sort_pass.simps [simp del]

text \<open>One pass: the list is taken apart, merged run by run, and closed.\<close>

definition close_list :: "bool \<Rightarrow> bool \<Rightarrow> merge_state \<Rightarrow> cerr + lheap" where
  "close_list is_circular is_double s =
     bindr (deref (m_tail s)) (\<lambda>t.
     if is_circular then
       bindr (lset (m_h s) t (\<lambda>n. n\<lparr>e_next := m_list s\<rparr>)) (\<lambda>h.
       if is_double then bindr (deref (m_list s)) (\<lambda>l. lset h l (\<lambda>n. n\<lparr>e_prev := Some t\<rparr>)) else Inr h)
     else lset (m_h s) t (\<lambda>n. n\<lparr>e_next := None\<rparr>))"

text \<open>The passes. The two sources differ in when they double the size of the runs: \<open>listsort\<close> after it has
  tested for the end, \<open>merge_sort_list\<close> before (\<open>shift_first\<close>).\<close>

fun listsort_loop :: "bool \<Rightarrow> nat \<Rightarrow> (lheap \<Rightarrow> nat \<Rightarrow> nat \<Rightarrow> cerr + bool) \<Rightarrow> bool \<Rightarrow> bool \<Rightarrow> nat \<Rightarrow> lheap \<Rightarrow> nat \<Rightarrow>
    cerr + nat option \<times> lheap" where
  "listsort_loop shift_first 0 pick is_circular is_double insize h list = Inl OutOfFuel"
| "listsort_loop shift_first (Suc fuel) pick is_circular is_double insize h list =
     bindr (sort_pass fuel pick is_circular is_double list insize 0
       \<lparr>m_h = h, m_p = Some list, m_psize = 0, m_q = None, m_qsize = 0, m_list = None, m_tail = None\<rparr>) (\<lambda>(nmerges, s).
     bindr (close_list is_circular is_double s) (\<lambda>h.
     bindr (if shift_first \<or> nmerges > 1 then imul insize 2 else Inr insize) (\<lambda>insize.
     if nmerges \<le> 1 then Inr (m_list s, h)
     else bindr (deref (m_list s)) (\<lambda>list.
       listsort_loop shift_first fuel pick is_circular is_double insize h list))))"

definition cmp_le :: "lheap \<Rightarrow> nat \<Rightarrow> nat \<Rightarrow> cerr + bool" where
  "cmp_le h p q = bindr (elem_cmp h p q) (\<lambda>c. Inr (c \<le> 0))"

definition listsort :: "nat \<Rightarrow> lheap \<Rightarrow> nat option \<Rightarrow> bool \<Rightarrow> bool \<Rightarrow> cerr + nat option \<times> lheap" where
  "listsort fuel h list is_circular is_double =
     (case list of None \<Rightarrow> Inr (None, h) | Some l \<Rightarrow> listsort_loop False fuel cmp_le is_circular is_double 1 h l)"

text \<open>\<^verbatim>\<open>merge_sort_link_list2.c\<close> has the same function, line by line, on the links embedded in a \<open>client_node\<close>; only its comparison
  goes from a link to the node around it first.\<close>

type_synonym client_node = element

definition client_cmp :: "lheap \<Rightarrow> nat \<Rightarrow> nat \<Rightarrow> cerr + int" where
  "client_cmp h a b = bindr (deref (h a)) (\<lambda>na. bindr (deref (h b)) (\<lambda>nb. int_sub (e_i na) (e_i nb)))"

definition listsort2 :: "nat \<Rightarrow> lheap \<Rightarrow> nat option \<Rightarrow> bool \<Rightarrow> bool \<Rightarrow> cerr + nat option \<times> lheap" where
  "listsort2 fuel h list is_circular is_double =
     (case list of None \<Rightarrow> Inr (None, h)
      | Some l \<Rightarrow> listsort_loop False fuel (\<lambda>h p q. bindr (client_cmp h p q) (\<lambda>c. Inr (c \<le> 0))) is_circular is_double 1 h l)"

definition cmp_lt :: "lheap \<Rightarrow> nat \<Rightarrow> nat \<Rightarrow> cerr + bool" where
  "cmp_lt h p q = bindr (elem_cmp h p q) (\<lambda>c. Inr (c < 0))"

text \<open>\<open>merge_sort_list\<close> is for linear doubly linked lists.\<close>

definition merge_sort_list :: "nat \<Rightarrow> lheap \<Rightarrow> nat option \<Rightarrow> cerr + nat option \<times> lheap" where
  "merge_sort_list fuel h list =
     (case list of None \<Rightarrow> Inr (None, h)
      | Some l \<Rightarrow> bindr (deref (h l)) (\<lambda>n.
          if e_next n = None then Inr (Some l, h) else listsort_loop True fuel cmp_lt False True 1 h l))"

section \<open>The test rig\<close>

text \<open>\<open>shl\<close> is the left shift of \<open>1U\<close>: the bit it sets. In C a negative count is undefined
  (\<open>shl_c\<close>), the x86 instruction takes the count modulo 32 (\<open>shl_x86\<close>). The array \<open>k\<close> has the addresses
  from 0 on. \<open>bits_used\<close> is the list of the bits set.\<close>

definition shl_c :: "int \<Rightarrow> cerr + nat" where
  "shl_c c = (if 0 \<le> c \<and> c < 32 then Inr (nat c) else Inl BadShift)"

definition shl_x86 :: "int \<Rightarrow> cerr + nat" where
  "shl_x86 c = Inr (nat (c mod 32))"

fun check_forward :: "nat \<Rightarrow> (int \<Rightarrow> cerr + nat) \<Rightarrow> lheap \<Rightarrow> nat \<Rightarrow> nat \<Rightarrow> nat list \<Rightarrow> nat \<Rightarrow> cerr + nat option" where
  "check_forward 0 shl h head expected_len bits_used e = Inl OutOfFuel"
| "check_forward (Suc fuel) shl h head expected_len bits_used e =
     (if \<not> e < expected_len then Inr None else
      bindr (shl (int e - int head)) (\<lambda>bit.
      if bit \<in> set bits_used then Inr None else
      bindr (deref (h e)) (\<lambda>n.
      case e_next n of None \<Rightarrow> Inr (Some e)
      | Some e' \<Rightarrow> if e' = head then Inr (Some e)
          else check_forward fuel shl h head expected_len (bit # bits_used) e')))"

text \<open>The two loops over neighbours: \<open>ok e e'\<close> is the test of a node and its successor.\<close>

fun check_pairs :: "nat \<Rightarrow> (nat \<Rightarrow> element \<Rightarrow> element \<Rightarrow> bool) \<Rightarrow> lheap \<Rightarrow> nat \<Rightarrow> nat \<Rightarrow> cerr + bool" where
  "check_pairs 0 ok h head e = Inl OutOfFuel"
| "check_pairs (Suc fuel) ok h head e =
     bindr (deref (h e)) (\<lambda>n.
     case e_next n of None \<Rightarrow> Inr True
     | Some e' \<Rightarrow> if e' = head then Inr True else
         bindr (deref (h e')) (\<lambda>n'. if \<not> ok e n n' then Inr False else check_pairs fuel ok h head e'))"

definition print_and_check_list :: "nat \<Rightarrow> (int \<Rightarrow> cerr + nat) \<Rightarrow> lheap \<Rightarrow> nat option \<Rightarrow> nat \<Rightarrow> bool \<Rightarrow> bool \<Rightarrow> bool \<Rightarrow> cerr + bool" where
  "print_and_check_list fuel shl h hd_p expected_len is_circular is_double check_ordering =
     bindr (assertr (expected_len \<le> 32)) (\<lambda>_.
     bindr (deref hd_p) (\<lambda>head.
     bindr (check_forward fuel shl h head expected_len [] head) (\<lambda>r.
     case r of None \<Rightarrow> Inr False
     | Some tail \<Rightarrow>
     bindr (deref (h tail)) (\<lambda>nt. bindr (deref (h head)) (\<lambda>nh.
     if e_next nt \<noteq> (if is_circular then Some head else None) then Inr False else
     if is_double \<and> e_prev nh \<noteq> (if is_circular then Some tail else None) then Inr False else
     bindr (if is_double then check_pairs fuel (\<lambda>e n n'. e_prev n' = Some e) h head head else Inr True) (\<lambda>back.
     if \<not> back then Inr False else
     if check_ordering then check_pairs fuel (\<lambda>e n n'. e_i n' > e_i n) h head head else Inr True)))))) "

definition test_list :: "int list \<Rightarrow> bool \<Rightarrow> bool \<Rightarrow> lheap" where
  "test_list vs is_circular is_double = (\<lambda>j.
     if j < length vs then
       Some \<lparr>e_next = (if j + 1 < length vs then Some (j + 1) else if is_circular then Some 0 else None),
         e_prev = (if \<not> is_double then None else if j > 0 then Some (j - 1)
                   else if is_circular then Some (length vs - 1) else None),
         e_i = vs ! j\<rparr>
     else None)"

definition run_case :: "(int \<Rightarrow> cerr + nat) \<Rightarrow> bool \<Rightarrow> bool \<Rightarrow> int list \<Rightarrow> cerr + bool" where
  "run_case shl is_circular is_double vs =
     (let n = length vs; fuel = 40; h = test_list vs is_circular is_double in
      bindr (assertr (n \<le> 13)) (\<lambda>_.
      bindr (print_and_check_list fuel shl h (Some 0) n is_circular is_double False) (\<lambda>ok.
      if \<not> ok then Inr False else
      bindr (listsort fuel h (Some 0) is_circular is_double) (\<lambda>(hd_p, h).
      print_and_check_list fuel shl h hd_p n is_circular is_double True))))"

fun count_fails :: "(int \<Rightarrow> cerr + nat) \<Rightarrow> (bool \<times> bool \<times> int list) list \<Rightarrow> cerr + nat" where
  "count_fails shl [] = Inr 0"
| "count_fails shl ((c, d, vs) # ts) =
     bindr (run_case shl c d vs) (\<lambda>pass. bindr (count_fails shl ts) (\<lambda>n. Inr (if pass then n else Suc n)))"

text \<open>The strings \<open>abcdefghijklm\<close>, \<open>gcielbmhdjfak\<close> and \<open>mlkjihgfedcba\<close>, as character codes from 97 on.\<close>

definition testcases :: "int list list" where
  "testcases = map (map ((+) 97)) [[0, 1, 2, 3, 4, 5, 6, 7, 8, 9, 10, 11, 12],
     [6, 2, 8, 4, 11, 1, 12, 7, 3, 9, 5, 0, 10], [12, 11, 10, 9, 8, 7, 6, 5, 4, 3, 2, 1, 0]]"

definition merge_sort_link_list_main :: "(int \<Rightarrow> cerr + nat) \<Rightarrow> cerr + bool" where
  "merge_sort_link_list_main shl =
     bindr (listsort 1 Map.empty None False False) (\<lambda>_.
     bindr (count_fails shl [(c, d, vs). c \<leftarrow> [False, True], d \<leftarrow> [False, True], vs \<leftarrow> testcases]) (\<lambda>nfails.
     Inr (nfails \<noteq> 0)))"

section \<open>Lists in the heap\<close>

fun fstp :: "nat list \<Rightarrow> nat option \<Rightarrow> nat option" where
  "fstp [] nx = nx"
| "fstp (a # xs) nx = Some a"

fun chain :: "lheap \<Rightarrow> nat list \<Rightarrow> nat option \<Rightarrow> bool" where
  "chain h [] nx = True"
| "chain h (a # xs) nx = (\<exists>n. h a = Some n \<and> e_next n = fstp xs nx \<and> chain h xs nx)"

fun prevs :: "lheap \<Rightarrow> nat option \<Rightarrow> nat list \<Rightarrow> bool" where
  "prevs h pv [] = True"
| "prevs h pv (a # xs) = (\<exists>n. h a = Some n \<and> e_prev n = pv \<and> prevs h (Some a) xs)"

definition keyed :: "lheap \<Rightarrow> (nat \<Rightarrow> int) \<Rightarrow> nat set \<Rightarrow> bool" where
  "keyed h key A \<longleftrightarrow> (\<forall>a \<in> A. \<exists>n. h a = Some n \<and> e_i n = key a)"

lemma fstp_append: "fstp (xs @ ys) nx = fstp xs (fstp ys nx)"
  by (cases xs) auto

lemma chain_append: "chain h (xs @ ys) nx \<longleftrightarrow> chain h xs (fstp ys nx) \<and> chain h ys nx"
  by (induction xs) (auto simp: fstp_append)

lemma prevs_append: "prevs h pv (xs @ ys) \<longleftrightarrow> prevs h pv xs \<and> prevs h (if xs = [] then pv else Some (last xs)) ys"
  by (induction xs arbitrary: pv) auto

lemma chain_frame [simp]: "a \<notin> set xs \<Longrightarrow> chain (h(a := v)) xs nx = chain h xs nx"
  by (induction xs) auto

lemma prevs_frame [simp]: "a \<notin> set xs \<Longrightarrow> prevs (h(a := v)) pv xs = prevs h pv xs"
  by (induction xs arbitrary: pv) auto

lemma chain_set_prev [simp]: "h a = Some n \<Longrightarrow> chain (h(a \<mapsto> n\<lparr>e_prev := x\<rparr>)) xs nx = chain h xs nx"
  by (induction xs) auto

lemma prevs_set_next [simp]: "h a = Some n \<Longrightarrow> prevs (h(a \<mapsto> n\<lparr>e_next := x\<rparr>)) pv xs = prevs h pv xs"
  by (induction xs arbitrary: pv) auto

lemma keyed_set [simp]:
  "h a = Some n \<Longrightarrow> keyed (h(a \<mapsto> n\<lparr>e_next := x\<rparr>)) key A = keyed h key A"
  "h a = Some n \<Longrightarrow> keyed (h(a \<mapsto> n\<lparr>e_prev := x\<rparr>)) key A = keyed h key A"
  by (auto simp: keyed_def)

lemma chain_set_last:
  assumes "chain h xs nx" "xs \<noteq> []" "distinct xs"
  shows "\<exists>n. h (last xs) = Some n \<and> chain (h(last xs \<mapsto> n\<lparr>e_next := x\<rparr>)) xs x"
  using assms by (cases xs rule: rev_cases) (auto simp: chain_append)

lemma chain_mem: "chain h xs nx \<Longrightarrow> a \<in> set xs \<Longrightarrow> \<exists>n. h a = Some n"
  by (induction xs) auto

text \<open>What a merge works on: \<open>D\<close> is built, \<open>P\<close> is left of the first run, and \<open>U\<close> starts with what is left
  of the second run, followed by the rest of the list.\<close>

definition minv :: "(nat \<Rightarrow> int) \<Rightarrow> bool \<Rightarrow> bool \<Rightarrow> nat \<Rightarrow> merge_state \<Rightarrow> nat list \<Rightarrow> nat list \<Rightarrow> nat list \<Rightarrow> bool" where
  "minv key circ dbl old s D P U \<longleftrightarrow>
     (\<exists>pn. chain (m_h s) P pn) \<and> chain (m_h s) U (if circ then Some old else None) \<and> (\<exists>dn. chain (m_h s) D dn) \<and>
     (dbl \<longrightarrow> prevs (m_h s) None D) \<and> keyed (m_h s) key (set (D @ P @ U)) \<and> distinct (D @ P @ U) \<and>
     old \<notin> set (tl P) \<and> old \<notin> set U \<and> m_psize s = length P \<and> (P \<noteq> [] \<longrightarrow> m_p s = Some (hd P)) \<and> m_q s = fstp U None \<and>
     m_list s = fstp D None \<and> m_tail s = (if D = [] then None else Some (last D))"

lemma append_elem_spec:
  assumes D: "\<exists>dn. chain (m_h s) D dn" "dbl \<longrightarrow> prevs (m_h s) None D" "distinct (D @ [e])" "m_list s = fstp D None"
      "m_tail s = (if D = [] then None else Some (last D))"
    and e: "m_h s e = Some n"
  shows "\<exists>h'. append_elem dbl e s = Inr (s\<lparr>m_h := h', m_list := fstp (D @ [e]) None, m_tail := Some e\<rparr>) \<and>
    (\<exists>dn. chain h' (D @ [e]) dn) \<and> (dbl \<longrightarrow> prevs h' None (D @ [e])) \<and>
    (\<forall>a. a \<notin> set (D @ [e]) \<longrightarrow> h' a = m_h s a) \<and> (\<forall>key A. keyed (m_h s) key A \<longrightarrow> keyed h' key A)"
proof (cases "D = []")
  case True
  show ?thesis
  proof (cases dbl)
    case True
    with \<open>D = []\<close> assms show ?thesis
      by (intro exI [of _ "(m_h s)(e \<mapsto> n\<lparr>e_prev := None\<rparr>)"]) (auto simp: append_elem_def lset_def)
  next
    case False
    with \<open>D = []\<close> assms show ?thesis by (intro exI [of _ "m_h s"]) (auto simp: append_elem_def)
  qed
next
  case False
  obtain dn where "chain (m_h s) D dn" using D(1) by blast
  from chain_set_last [OF this False] D(3) obtain m where m: "m_h s (last D) = Some m"
    "chain ((m_h s)(last D \<mapsto> m\<lparr>e_next := Some e\<rparr>)) D (Some e)" by auto
  let ?h = "(m_h s)(last D \<mapsto> m\<lparr>e_next := Some e\<rparr>)"
  have ne: "e \<noteq> last D" "e \<notin> set D" using False D(3) by auto
  then have he: "?h e = Some n" using e by simp
  have ch: "chain ?h (D @ [e]) (e_next n)" using m(2) he by (simp add: chain_append)
  have l: "fstp D None = fstp (D @ [e]) None" using False by (cases D) auto
  show ?thesis
  proof (cases dbl)
    case True
    let ?h2 = "?h(e \<mapsto> n\<lparr>e_prev := Some (last D)\<rparr>)"
    have "append_elem dbl e s = Inr (s\<lparr>m_h := ?h2, m_list := fstp (D @ [e]) None, m_tail := Some e\<rparr>)"
      using True False D(4,5) m(1) he l by (simp add: append_elem_def lset_def)
    moreover have "chain ?h2 (D @ [e]) (e_next n)" using ch chain_set_prev [of ?h e n] he by simp
    moreover have "prevs ?h2 None (D @ [e])" using True D(2) False ne m(1) by (simp add: prevs_append)
    moreover have "keyed ?h2 key A" if "keyed (m_h s) key A" for key A using that m(1) he by simp
    ultimately show ?thesis using False by (intro exI [of _ ?h2]) auto
  next
    case dbl: False
    have "append_elem dbl e s = Inr (s\<lparr>m_h := ?h, m_list := fstp (D @ [e]) None, m_tail := Some e\<rparr>)"
      using dbl False D(4,5) m(1) l by (simp add: append_elem_def lset_def)
    moreover have "keyed ?h key A" if "keyed (m_h s) key A" for key A using that m(1) by simp
    ultimately show ?thesis using ch False dbl by (intro exI [of _ ?h]) auto
  qed
qed

lemma keyed_mono: "keyed h key A \<Longrightarrow> B \<subseteq> A \<Longrightarrow> keyed h key B"
  by (auto simp: keyed_def)

lemma keyedD: "keyed h key A \<Longrightarrow> a \<in> A \<Longrightarrow> h a = Some n \<Longrightarrow> e_i n = key a"
  by (force simp: keyed_def)

lemma chain_cong: "(\<And>a. a \<in> set xs \<Longrightarrow> h' a = h a) \<Longrightarrow> chain h' xs nx = chain h xs nx"
  by (induction xs) auto

lemma advance_in:
  assumes "chain h (a # xs) nx" "old \<notin> set xs" "nx = (if circ then Some old else None)"
  shows "advance h circ old a = Inr (fstp xs None)"
  using assms by (cases xs) (auto simp: advance_def)

lemma advance_run: "chain h (a # xs) pn \<Longrightarrow> old \<notin> set xs \<Longrightarrow>
    \<exists>p. advance h circ old a = Inr p \<and> (xs \<noteq> [] \<longrightarrow> p = Some (hd xs))"
  by (cases xs) (auto simp: advance_def)

lemma fold_take_p:
  assumes m: "minv key circ dbl old s D (a # P) U"
  shows "\<exists>s' s1. take_p circ old s = Inr (a, s1) \<and> append_elem dbl a s1 = Inr s' \<and>
    minv key circ dbl old s' (D @ [a]) P U \<and> m_qsize s' = m_qsize s \<and>
    (\<forall>b. b \<notin> set (D @ a # P @ U) \<longrightarrow> m_h s' b = m_h s b)"
proof -
  obtain pn where ch: "chain (m_h s) (a # P) pn" "old \<notin> set P" "chain (m_h s) U (if circ then Some old else None)"
    and dis: "distinct (D @ a # P @ U)" using m by (auto simp: minv_def)
  obtain p where p: "advance (m_h s) circ old a = Inr p" "P \<noteq> [] \<longrightarrow> p = Some (hd P)" using advance_run [OF ch(1,2)] by blast
  let ?s = "s\<lparr>m_p := p, m_psize := m_psize s - 1\<rparr>"
  have t: "take_p circ old s = Inr (a, ?s)" using m p(1) by (simp add: take_p_def minv_def)
  obtain n where n: "m_h ?s a = Some n" using ch(1) by auto
  have "\<exists>dn. chain (m_h ?s) D dn" "dbl \<longrightarrow> prevs (m_h ?s) None D" "distinct (D @ [a])" "m_list ?s = fstp D None"
    "m_tail ?s = (if D = [] then None else Some (last D))" using m by (auto simp: minv_def)
  from append_elem_spec [OF this n] obtain h' where h': "append_elem dbl a ?s = Inr (?s\<lparr>m_h := h', m_list := fstp (D @ [a]) None, m_tail := Some a\<rparr>)"
    "\<exists>dn. chain h' (D @ [a]) dn" "dbl \<longrightarrow> prevs h' None (D @ [a])" "\<forall>b. b \<notin> set (D @ [a]) \<longrightarrow> h' b = m_h s b"
    "\<forall>key A. keyed (m_h s) key A \<longrightarrow> keyed h' key A" by auto
  have fr: "chain h' P pn" "chain h' U (if circ then Some old else None)"
    using ch dis h'(4) chain_cong [of P h' "m_h s"] chain_cong [of U h' "m_h s"] by (fastforce, fastforce)
  have tl: "old \<notin> set (tl P)" using ch(2) by (cases P) auto
  have "minv key circ dbl old (?s\<lparr>m_h := h', m_list := fstp (D @ [a]) None, m_tail := Some a\<rparr>) (D @ [a]) P U"
    using m h'(2,3,5) fr p(2) tl by (auto simp: minv_def)
  then show ?thesis using t h'(1,4) by (intro exI) auto
qed

lemma fold_take_q:
  assumes m: "minv key circ dbl old s D P (b # U)"
  shows "\<exists>s' s1. take_q circ old s = Inr (b, s1) \<and> append_elem dbl b s1 = Inr s' \<and>
    minv key circ dbl old s' (D @ [b]) P U \<and> m_qsize s' = m_qsize s - 1 \<and>
    (\<forall>c. c \<notin> set (D @ P @ b # U) \<longrightarrow> m_h s' c = m_h s c)"
proof -
  let ?nx = "if circ then Some old else None"
  obtain pn where ch: "chain (m_h s) P pn" "old \<notin> set U" "chain (m_h s) (b # U) ?nx"
    and dis: "distinct (D @ P @ b # U)" using m by (auto simp: minv_def)
  have q: "advance (m_h s) circ old b = Inr (fstp U None)" using advance_in [OF ch(3,2)] by simp
  let ?s = "s\<lparr>m_q := fstp U None, m_qsize := m_qsize s - 1\<rparr>"
  have t: "take_q circ old s = Inr (b, ?s)" using m q by (simp add: take_q_def minv_def)
  obtain n where n: "m_h ?s b = Some n" using ch(3) by auto
  have "\<exists>dn. chain (m_h ?s) D dn" "dbl \<longrightarrow> prevs (m_h ?s) None D" "distinct (D @ [b])" "m_list ?s = fstp D None"
    "m_tail ?s = (if D = [] then None else Some (last D))" using m by (auto simp: minv_def)
  from append_elem_spec [OF this n] obtain h' where h': "append_elem dbl b ?s = Inr (?s\<lparr>m_h := h', m_list := fstp (D @ [b]) None, m_tail := Some b\<rparr>)"
    "\<exists>dn. chain h' (D @ [b]) dn" "dbl \<longrightarrow> prevs h' None (D @ [b])" "\<forall>c. c \<notin> set (D @ [b]) \<longrightarrow> h' c = m_h s c"
    "\<forall>key A. keyed (m_h s) key A \<longrightarrow> keyed h' key A" by auto
  have "chain (m_h s) U ?nx" using ch(3) by auto
  then have fr: "chain h' P pn" "chain h' U ?nx"
    using ch(1) dis h'(4) chain_cong [of P h' "m_h s"] chain_cong [of U h' "m_h s"] by (fastforce, fastforce)
  have "set ((D @ [b]) @ P @ U) = set (D @ P @ b # U)" by auto
  then have "minv key circ dbl old (?s\<lparr>m_h := h', m_list := fstp (D @ [b]) None, m_tail := Some b\<rparr>) (D @ [b]) P U"
    using m h'(2,3,5) fr ch(2) unfolding minv_def by auto
  then show ?thesis using t h'(1,4) by (intro exI) auto
qed

section \<open>Passes on lists\<close>

function fpass :: "(nat \<Rightarrow> nat \<Rightarrow> bool) \<Rightarrow> nat \<Rightarrow> nat list \<Rightarrow> nat list" where
  "fpass gt k xs =
     (if xs = [] \<or> k = 0 then []
      else merge_by gt (take k xs) (take k (drop k xs)) @ fpass gt k (drop k (drop k xs)))"
  by pat_completeness auto
termination by (relation "measure (\<lambda>(gt, k, xs). length xs)") auto

function fcount :: "nat \<Rightarrow> nat list \<Rightarrow> nat" where
  "fcount k xs = (if xs = [] \<or> k = 0 then 0 else Suc (fcount k (drop k (drop k xs))))"
  by pat_completeness auto
termination by (relation "measure (\<lambda>(k, xs). length xs)") auto

function chunk_sort :: "(nat list \<Rightarrow> nat list) \<Rightarrow> nat \<Rightarrow> nat list \<Rightarrow> nat list" where
  "chunk_sort srt k xs = (if xs = [] \<or> k = 0 then [] else srt (take k xs) @ chunk_sort srt k (drop k xs))"
  by pat_completeness auto
termination by (relation "measure (\<lambda>(srt, k, xs). length xs)") auto

declare fpass.simps [simp del] fcount.simps [simp del] chunk_sort.simps [simp del]

lemma fpass_Nil [simp]: "fpass gt k [] = []" by (simp add: fpass.simps)
lemma fcount_Nil [simp]: "fcount k [] = 0" by (simp add: fcount.simps)
lemma chunk_sort_Nil [simp]: "chunk_sort srt k [] = []" by (simp add: chunk_sort.simps)

lemma mset_fpass: "0 < k \<Longrightarrow> mset (fpass gt k xs) = mset xs"
proof (induction gt k xs rule: fpass.induct)
  case (1 gt k xs)
  show ?case
  proof (cases "xs = []")
    case False
    have "xs = take k xs @ take k (drop k xs) @ drop k (drop k xs)" by (metis append_take_drop_id)
    then have "mset xs = mset (take k xs) + (mset (take k (drop k xs)) + mset (drop k (drop k xs)))"
      by (metis mset_append)
    then show ?thesis using 1 False by (subst fpass.simps) (simp add: add.assoc)
  qed simp
qed

lemma fcount_1: "xs \<noteq> [] \<Longrightarrow> 0 < k \<Longrightarrow> fcount k xs \<le> 1 \<longleftrightarrow> length xs \<le> 2 * k"
  by (subst fcount.simps, subst fcount.simps) auto

section \<open>Entering and leaving a merge\<close>

text \<open>Between merges: \<open>D\<close> is built and \<open>X\<close> is left.\<close>

definition pinv :: "(nat \<Rightarrow> int) \<Rightarrow> bool \<Rightarrow> bool \<Rightarrow> nat \<Rightarrow> merge_state \<Rightarrow> nat list \<Rightarrow> nat list \<Rightarrow> bool" where
  "pinv key circ dbl old s D X \<longleftrightarrow>
     chain (m_h s) X (if circ then Some old else None) \<and> (\<exists>dn. chain (m_h s) D dn) \<and>
     (dbl \<longrightarrow> prevs (m_h s) None D) \<and> keyed (m_h s) key (set (D @ X)) \<and> distinct (D @ X) \<and>
     old \<notin> set (tl X) \<and> m_p s = fstp X None \<and>
     m_list s = fstp D None \<and> m_tail s = (if D = [] then None else Some (last D))"

lemma pinv_leave:
  assumes "minv key circ dbl old s D [] U"
  shows "pinv key circ dbl old (s\<lparr>m_p := m_q s\<rparr>) D U"
proof -
  have "old \<notin> set (tl U)" using assms by (cases U) (auto simp: minv_def)
  then show ?thesis using assms by (simp add: minv_def pinv_def)
qed

lemma pinv_enter:
  assumes p: "pinv key circ dbl old s D X" and "X \<noteq> []" "0 < k"
  shows "minv key circ dbl old (s\<lparr>m_psize := min k (length X), m_q := fstp (drop k X) None, m_qsize := k\<rparr>) D (take k X) (drop k X)"
proof -
  obtain a xs where X: "X = a # xs" using assms(2) by (cases X) auto
  obtain j where k: "k = Suc j" using assms(3) by (cases k) auto
  have ch: "chain (m_h s) (take k X @ drop k X) (if circ then Some old else None)" using p by (simp add: pinv_def)
  have o: "old \<notin> set xs" using p X by (simp add: pinv_def)
  then have "old \<notin> set (take j xs)" "old \<notin> set (drop j xs)" by (auto dest: in_set_takeD in_set_dropD)
  moreover have "distinct (D @ take k X @ drop k X)" "keyed (m_h s) key (set (D @ take k X @ drop k X))"
    using p by (simp_all only: append_take_drop_id pinv_def)
  ultimately show ?thesis
    using p ch unfolding chain_append minv_def by (auto simp: pinv_def X k min.commute)
qed

lemma step_along_spec:
  "chain h X (if circ then Some old else None) \<Longrightarrow> X \<noteq> [] \<Longrightarrow> old \<notin> set (tl X) \<Longrightarrow>
   step_along h circ old k ps (hd X) = Inr (ps + min k (length X), fstp (drop k X) None)"
proof (induction k arbitrary: X ps)
  case 0
  then show ?case by (cases X) auto
next
  case (Suc k)
  then obtain a xs where X: "X = a # xs" by (cases X) auto
  have adv: "advance h circ old a = Inr (fstp xs None)"
    using advance_in [of h a xs _ old circ] Suc.prems X by simp
  show ?case
  proof (cases xs)
    case Nil
    then show ?thesis using adv X by simp
  next
    case (Cons b ys)
    then have "step_along h circ old k (Suc ps) (hd xs) = Inr (Suc ps + min k (length xs), fstp (drop k xs) None)"
      using Suc.prems X by (intro Suc.IH) auto
    then show ?thesis using adv X Cons by simp
  qed
qed

text \<open>A complete list of the four kinds.\<close>

definition wf_list :: "lheap \<Rightarrow> bool \<Rightarrow> bool \<Rightarrow> nat list \<Rightarrow> bool" where
  "wf_list h circ dbl xs \<longleftrightarrow> distinct xs \<and> chain h xs (if circ then fstp xs None else None) \<and>
     (dbl \<longrightarrow> prevs h (if circ then Some (last xs) else None) xs)"

lemma close_list_spec:
  assumes p: "pinv key circ dbl old s D []" and D: "D \<noteq> []"
  shows "\<exists>h'. close_list circ dbl s = Inr h' \<and> wf_list h' circ dbl D \<and> keyed h' key (set D) \<and>
    (\<forall>c. c \<notin> set D \<longrightarrow> h' c = m_h s c)"
proof -
  obtain dn where dn: "chain (m_h s) D dn" "distinct D" "keyed (m_h s) key (set D)" "dbl \<longrightarrow> prevs (m_h s) None D"
    "m_list s = fstp D None" "m_tail s = Some (last D)" using p D by (auto simp: pinv_def)
  let ?x = "if circ then fstp D None else None"
  obtain n where n: "m_h s (last D) = Some n" "chain ((m_h s)(last D \<mapsto> n\<lparr>e_next := ?x\<rparr>)) D ?x"
    using chain_set_last [OF dn(1) D dn(2)] by blast
  let ?h = "(m_h s)(last D \<mapsto> n\<lparr>e_next := ?x\<rparr>)"
  have k: "keyed ?h key (set D)" "dbl \<longrightarrow> prevs ?h None D" using n(1) dn(3,4) by auto
  show ?thesis
  proof (cases "circ \<and> dbl")
    case False
    then have "close_list circ dbl s = Inr ?h" using dn(5,6) n(1) by (auto simp: close_list_def lset_def)
    then show ?thesis using False n(2) k dn(2) D by (intro exI [of _ ?h]) (auto simp: wf_list_def)
  next
    case True
    obtain a xs where a: "D = a # xs" using D by (cases D) auto
    obtain m where m: "?h a = Some m" using n(2) a by auto
    let ?h2 = "?h(a \<mapsto> m\<lparr>e_prev := Some (last D)\<rparr>)"
    have "close_list circ dbl s = Inr ?h2"
      using True dn(5,6) n(1) m a by (simp add: close_list_def lset_def)
    moreover have "chain ?h2 D ?x" using n(2) chain_set_prev [of ?h a m] m by simp
    moreover have "keyed ?h2 key (set D)" using k(1) keyed_set(2) [of ?h a m] m by simp
    moreover have "prevs ?h (Some a) xs" using True k(2) unfolding a prevs.simps by blast
    then have "prevs ?h2 (Some a) xs" using prevs_frame [of a xs ?h] a dn(2) by simp
    then have "prevs ?h2 (Some (last D)) D" unfolding a prevs.simps by simp
    ultimately show ?thesis using \<open>prevs ?h2 (Some (last D)) D\<close> True dn(2) D a
      by (intro exI [of _ ?h2]) (simp add: wf_list_def)
  qed
qed

section \<open>Merging\<close>

text \<open>What the sort relies on of its comparison and what the passes compute: \<open>srt\<close> is the sort that the
  preference \<open>gt\<close> of the merge builds.\<close>

locale list_sorter =
  fixes pick :: "lheap \<Rightarrow> nat \<Rightarrow> nat \<Rightarrow> cerr + bool" and key :: "nat \<Rightarrow> int" and A :: "nat set"
    and gt :: "nat \<Rightarrow> nat \<Rightarrow> bool" and srt :: "nat list \<Rightarrow> nat list"
  assumes pick: "a \<in> A \<Longrightarrow> b \<in> A \<Longrightarrow> keyed h key {a, b} \<Longrightarrow> pick h a b = Inr (\<not> gt a b)"
    and srt_single: "srt [a] = [a]"
    and srt_append: "srt (xs @ ys) = merge_by gt (srt xs) (srt ys)"
begin

lemma merge_runs_spec:
  assumes "minv key circ dbl old s D P U" "set (P @ U) \<subseteq> A" "length P + m_qsize s \<le> n"
  shows "\<exists>s'. merge_runs n pick circ dbl old s = Inr s' \<and>
    minv key circ dbl old s' (D @ merge_by gt P (take (m_qsize s) U)) [] (drop (m_qsize s) U) \<and>
    (\<forall>c. c \<notin> set (D @ P @ U) \<longrightarrow> m_h s' c = m_h s c)"
  using assms
proof (induction n arbitrary: s D P U)
  case 0
  then show ?case by (subst merge_runs.simps) (auto simp: minv_def)
next
  case (Suc n)
  note m = Suc.prems(1)
  have ps: "m_psize s = length P" "m_q s = fstp U None" "P \<noteq> [] \<longrightarrow> m_p s = Some (hd P)"
    "keyed (m_h s) key (set (D @ P @ U))" using m by (auto simp: minv_def)
  have qn: "m_q s = None \<longleftrightarrow> U = []" using ps(2) by (cases U) auto
  show ?case
  proof (cases "P = [] \<and> (m_qsize s = 0 \<or> U = [])")
    case True
    then show ?thesis using m ps qn by (subst merge_runs.simps) (auto simp: minv_def)
  next
    case False
    have go: "m_psize s > 0 \<or> (m_qsize s > 0 \<and> m_q s \<noteq> None)" using False ps qn by auto
    consider (p) a P' where "P = a # P'" "from_p pick s = Inr True"
        "merge_by gt P (take (m_qsize s) U) = a # merge_by gt P' (take (m_qsize s) U)"
      | (q) b U' k where "U = b # U'" "m_qsize s = Suc k" "from_p pick s = Inr False"
        "merge_by gt P (take (m_qsize s) U) = b # merge_by gt P (take k U')"
    proof (cases P)
      case Nil
      then obtain b U' k where "U = b # U'" "m_qsize s = Suc k" using False by (cases U; cases "m_qsize s") auto
      then show ?thesis using Nil ps that(2) by (simp add: from_p_def)
    next
      case (Cons a P')
      show ?thesis
      proof (cases "m_qsize s = 0 \<or> U = []")
        case True
        then show ?thesis using that(1) Cons ps qn by (auto simp: from_p_def)
      next
        case False
        then obtain b U' k where u: "U = b # U'" "m_qsize s = Suc k" by (cases U; cases "m_qsize s") auto
        have "pick (m_h s) a b = Inr (\<not> gt a b)"
          using Suc.prems(2) Cons u ps(4) by (intro pick) (auto intro: keyed_mono)
        then have "from_p pick s = Inr (\<not> gt a b)" using Cons u ps by (simp add: from_p_def)
        then show ?thesis using that Cons u by (cases "gt a b") auto
      qed
    qed
    then show ?thesis
    proof cases
      case p
      from fold_take_p [OF m [unfolded p(1)]] obtain s' s1 where s': "take_p circ old s = Inr (a, s1)" "append_elem dbl a s1 = Inr s'"
        "minv key circ dbl old s' (D @ [a]) P' U" "m_qsize s' = m_qsize s" "\<forall>b. b \<notin> set (D @ a # P' @ U) \<longrightarrow> m_h s' b = m_h s b" by blast
      have run: "merge_runs (Suc n) pick circ dbl old s = merge_runs n pick circ dbl old s'"
        using go p(2) s'(1,2) by (subst merge_runs.simps) simp
      show ?thesis using Suc.IH [OF s'(3)] Suc.prems(2,3) p(1,3) s'(4,5) unfolding run by fastforce
    next
      case q
      from fold_take_q [OF m [unfolded q(1)]] obtain s' s1 where s': "take_q circ old s = Inr (b, s1)" "append_elem dbl b s1 = Inr s'"
        "minv key circ dbl old s' (D @ [b]) P U'" "m_qsize s' = m_qsize s - 1" "\<forall>c. c \<notin> set (D @ P @ b # U') \<longrightarrow> m_h s' c = m_h s c" by blast
      have run: "merge_runs (Suc n) pick circ dbl old s = merge_runs n pick circ dbl old s'"
        using go q(3) s'(1,2) by (subst merge_runs.simps) simp
      show ?thesis using Suc.IH [OF s'(3)] Suc.prems(2,3) q(1,2,4) s'(4,5) unfolding run by fastforce
    qed
  qed
qed

lemma srt_Nil: "srt [] = []"
  using srt_append [of "[]" "[]"] length_merge_by [of gt "srt []" "srt []"] by (metis append_Nil length_0_conv add_cancel_left_left)

lemma srt_Cons: "srt (a # xs) = merge_by gt [a] (srt xs)"
  using srt_append [of "[a]" xs] srt_single by simp

lemma mset_srt: "mset (srt xs) = mset xs"
  by (induction xs) (simp_all add: srt_Nil srt_Cons)

lemma length_srt [simp]: "length (srt xs) = length xs"
  by (metis mset_srt size_mset)

lemma chunk_1: "chunk_sort srt 1 xs = xs"
proof (induction xs)
  case (Cons a xs)
  then show ?case by (subst chunk_sort.simps) (simp add: srt_single)
qed simp

lemma chunk_all: "length xs \<le> k \<Longrightarrow> chunk_sort srt k xs = srt xs"
  by (subst chunk_sort.simps) (auto simp: srt_Nil)

lemma chunk_take: "0 < k \<Longrightarrow> take k (chunk_sort srt k xs) = srt (take k xs)"
proof (cases "length xs \<le> k")
  case False
  moreover assume "0 < k"
  ultimately show ?thesis by (subst chunk_sort.simps) auto
qed (simp add: chunk_all)

lemma chunk_drop: "0 < k \<Longrightarrow> drop k (chunk_sort srt k xs) = chunk_sort srt k (drop k xs)"
proof (cases "length xs \<le> k")
  case False
  moreover assume "0 < k"
  ultimately show ?thesis by (subst chunk_sort.simps) auto
qed (simp add: chunk_all)

lemma chunk_empty: "0 < k \<Longrightarrow> chunk_sort srt k xs = [] \<longleftrightarrow> xs = []"
proof (cases "xs = []")
  case False
  moreover assume "0 < k"
  ultimately have "length (srt (take k xs)) \<noteq> 0" by simp
  then have "srt (take k xs) \<noteq> []" by force
  then show ?thesis using False \<open>0 < k\<close> by (subst chunk_sort.simps) simp
qed simp

lemma mset_chunk: "0 < k \<Longrightarrow> mset (chunk_sort srt k xs) = mset xs"
proof (induction xs rule: length_induct)
  case (1 xs)
  have "mset (take k xs) + mset (drop k xs) = mset xs" by (metis append_take_drop_id mset_append)
  then show ?case using 1 by (subst chunk_sort.simps) (auto simp: mset_srt)
qed

lemma fpass_chunk: "0 < k \<Longrightarrow> fpass gt k (chunk_sort srt k xs) = chunk_sort srt (2 * k) xs"
proof (induction xs rule: length_induct)
  case (1 xs)
  show ?case
  proof (cases "xs = []")
    case False
    have split: "take (2 * k) xs = take k xs @ take k (drop k xs)"
      by (metis mult_2 take_add)
    have "fpass gt k (chunk_sort srt k xs) = srt (take (2 * k) xs) @ fpass gt k (chunk_sort srt k (drop k (drop k xs)))"
      using "1.prems" False by (subst fpass.simps) (simp add: chunk_take chunk_drop chunk_empty split srt_append)
    also have "\<dots> = srt (take (2 * k) xs) @ chunk_sort srt (2 * k) (drop (2 * k) xs)"
      using "1.IH" "1.prems" False by (simp add: mult_2)
    finally show ?thesis using False "1.prems" by (subst chunk_sort.simps) simp
  qed simp
qed

lemma sort_pass_spec:
  assumes "pinv key circ dbl old s D X" "set X \<subseteq> A" "0 < k" "length X \<le> fuel"
  shows "\<exists>s'. sort_pass fuel pick circ dbl old k nm s = Inr (nm + fcount k X, s') \<and> pinv key circ dbl old s' (D @ fpass gt k X) [] \<and>
    (\<forall>c. c \<notin> set (D @ X) \<longrightarrow> m_h s' c = m_h s c)"
  using assms
proof (induction fuel arbitrary: s D X nm)
  case 0
  then show ?case by (subst sort_pass.simps) (auto simp: pinv_def)
next
  case (Suc fuel)
  show ?case
  proof (cases "X = []")
    case True
    then show ?thesis using Suc.prems by (subst sort_pass.simps) (auto simp: pinv_def)
  next
    case False
    let ?P = "take k X" and ?U = "drop k X"
    have p: "m_p s = Some (hd X)" using Suc.prems(1) False by (cases X) (auto simp: pinv_def)
    have st: "step_along (m_h s) circ old k 0 (hd X) = Inr (min k (length X), fstp ?U None)"
      using step_along_spec [of "m_h s" X circ old k 0] Suc.prems(1) False by (simp add: pinv_def)
    let ?s = "s\<lparr>m_psize := min k (length X), m_q := fstp ?U None, m_qsize := k\<rparr>"
    have mi: "minv key circ dbl old ?s D ?P ?U" using pinv_enter [OF Suc.prems(1) False Suc.prems(3)] .
    have a: "set (?P @ ?U) \<subseteq> A" using Suc.prems(2) by simp
    have b: "length ?P + m_qsize ?s \<le> min k (length X) + k" by simp
    from merge_runs_spec [OF mi a b] obtain s1 where s1: "merge_runs (min k (length X) + k) pick circ dbl old ?s = Inr s1"
      "minv key circ dbl old s1 (D @ merge_by gt ?P (take k ?U)) [] (drop k ?U)"
      "\<forall>c. c \<notin> set (D @ ?P @ ?U) \<longrightarrow> m_h s1 c = m_h s c" by auto
    let ?X = "drop k ?U"
    have pi: "pinv key circ dbl old (s1\<lparr>m_p := m_q s1\<rparr>) (D @ merge_by gt ?P (take k ?U)) ?X" using pinv_leave [OF s1(2)] .
    have run: "sort_pass (Suc fuel) pick circ dbl old k nm s = sort_pass fuel pick circ dbl old k (Suc nm) (s1\<lparr>m_p := m_q s1\<rparr>)"
      using p st s1(1) by (subst sort_pass.simps) simp
    have "length ?X \<le> fuel" "set ?X \<subseteq> A"
      using Suc.prems False by (auto dest!: in_set_dropD simp: less_Suc_eq_le)
    from Suc.IH [OF pi this(2) Suc.prems(3) this(1), of "Suc nm"] obtain s' where
      s': "sort_pass fuel pick circ dbl old k (Suc nm) (s1\<lparr>m_p := m_q s1\<rparr>) = Inr (Suc nm + fcount k ?X, s')"
      "pinv key circ dbl old s' ((D @ merge_by gt ?P (take k ?U)) @ fpass gt k ?X) []"
      "\<forall>c. c \<notin> set ((D @ merge_by gt ?P (take k ?U)) @ ?X) \<longrightarrow> m_h s' c = m_h s1 c" by auto
    have fc: "fcount k X = Suc (fcount k ?X)" "fpass gt k X = merge_by gt ?P (take k ?U) @ fpass gt k ?X"
      using False Suc.prems(3) fcount.simps [of k X] fpass.simps [of gt k X] by simp_all
    have "m_h s' c = m_h s c" if "c \<notin> set (D @ X)" for c
    proof -
      have c: "c \<notin> set D" "c \<notin> set ?P" "c \<notin> set ?U" using that by (auto dest: in_set_takeD in_set_dropD)
      then have "c \<notin> set (take k ?U)" "c \<notin> set ?X" by (auto dest: in_set_takeD in_set_dropD simp del: drop_drop)
      with c have "m_h s' c = m_h s1 c" using s'(3) by simp
      then show ?thesis using s1(3) that by simp
    qed
    then show ?thesis using run s'(1,2) fc by (intro exI [of _ s']) simp
  qed
qed

lemma listsort_loop_spec:
  assumes "distinct ys" "chain h ys (if circ then fstp ys None else None)" "keyed h key (set ys)" "set ys \<subseteq> A"
    "ys = chunk_sort srt k xs" "xs \<noteq> []" "0 < k" "length xs < 2 ^ 30" "length xs + (length xs - k) < fuel" "k \<le> length xs"
  shows "\<exists>h'. listsort_loop sf fuel pick circ dbl k h (hd ys) = Inr (Some (hd (srt xs)), h') \<and> wf_list h' circ dbl (srt xs) \<and>
    keyed h' key (set xs) \<and> (\<forall>c. c \<notin> set xs \<longrightarrow> h' c = h c)"
  using assms
proof (induction fuel arbitrary: h ys k)
  case (Suc fuel)
  let ?s = "\<lparr>m_h = h, m_p = Some (hd ys), m_psize = 0, m_q = None, m_qsize = 0, m_list = None, m_tail = None\<rparr>"
  have ne: "ys \<noteq> []" using Suc.prems(5-7) chunk_empty by simp
  have my: "mset ys = mset xs" using mset_chunk [OF Suc.prems(7)] Suc.prems(5) by simp
  then have len: "length ys = length xs" and st: "set ys = set xs" by (metis mset_eq_length, metis mset_eq_setD)
  have p: "pinv key circ dbl (hd ys) ?s [] ys" using Suc.prems(1-3) ne by (cases ys) (auto simp: pinv_def)
  have f: "length ys \<le> fuel" using Suc.prems(9) len by simp
  let ?zs = "fpass gt k ys"
  from sort_pass_spec [OF p Suc.prems(4,7) f, of 0] obtain s where s: "sort_pass fuel pick circ dbl (hd ys) k 0 ?s = Inr (fcount k ys, s)"
    "pinv key circ dbl (hd ys) s ?zs []" "\<forall>c. c \<notin> set ys \<longrightarrow> m_h s c = h c" by auto
  have mz: "mset ?zs = mset xs" using mset_fpass [OF Suc.prems(7)] my by simp
  then have zne: "?zs \<noteq> []" and zst: "set ?zs = set xs" using Suc.prems(6) by (auto dest: mset_eq_setD)
  from close_list_spec [OF s(2) zne] obtain h1 where h1: "close_list circ dbl s = Inr h1" "wf_list h1 circ dbl ?zs"
    "keyed h1 key (set ?zs)" "\<forall>c. c \<notin> set ?zs \<longrightarrow> h1 c = m_h s c" by blast
  have lst: "m_list s = Some (hd ?zs)" using s(2) zne by (cases ?zs) (auto simp: pinv_def)
  have zs: "?zs = chunk_sort srt (2 * k) xs" using fpass_chunk [OF Suc.prems(7)] Suc.prems(5) by simp
  have fr: "\<forall>c. c \<notin> set xs \<longrightarrow> h1 c = h c" using h1(4) s(3) st zst by auto
  show ?case
  proof (cases "fcount k ys \<le> 1")
    case True
    then have "length xs \<le> 2 * k" using fcount_1 [OF ne Suc.prems(7)] len by simp
    then have "?zs = srt xs" using zs chunk_all by simp
    moreover have "imul k 2 = Inr (k * 2)" using Suc.prems(8,10) by (simp add: imul_def)
    ultimately show ?thesis using True s(1) h1 lst fr zst by auto
  next
    case False
    then have l2: "2 * k < length xs" using fcount_1 [OF ne Suc.prems(7)] len by simp
    then have "imul k 2 = Inr (2 * k)" using Suc.prems(8) by (simp add: imul_def mult.commute)
    then have run: "listsort_loop sf (Suc fuel) pick circ dbl k h (hd ys) = listsort_loop sf fuel pick circ dbl (2 * k) h1 (hd ?zs)"
      using False s(1) h1(1) lst by simp
    have "\<exists>h'. listsort_loop sf fuel pick circ dbl (2 * k) h1 (hd ?zs) = Inr (Some (hd (srt xs)), h') \<and> wf_list h' circ dbl (srt xs) \<and>
      keyed h' key (set xs) \<and> (\<forall>c. c \<notin> set xs \<longrightarrow> h' c = h1 c)"
      using h1(2,3) Suc.prems(4,6-10) st zst l2
      by (intro Suc.IH [OF _ _ _ _ zs]) (auto simp: wf_list_def)
    then show ?thesis unfolding run using fr by auto
  qed
qed simp

lemma listsort_loop_sorts:
  assumes "wf_list h circ dbl0 xs" "xs \<noteq> []" "keyed h key (set xs)" "set xs \<subseteq> A" "length xs < 2 ^ 30" "2 * length xs \<le> fuel"
  shows "\<exists>h'. listsort_loop sf fuel pick circ dbl 1 h (hd xs) = Inr (Some (hd (srt xs)), h') \<and> wf_list h' circ dbl (srt xs) \<and>
    keyed h' key (set xs) \<and> (\<forall>c. c \<notin> set xs \<longrightarrow> h' c = h c)"
proof (rule listsort_loop_spec)
  have "0 < length xs" using assms(2) by simp
  then show "length xs + (length xs - 1) < fuel" "1 \<le> length xs" using assms(6) by linarith+
qed (use assms chunk_1 in \<open>auto simp: wf_list_def\<close>)

end

section \<open>The two sorts\<close>

text \<open>The elements whose values lie in a window of 31 bits: no comparison of two of them overflows.\<close>

definition in_window :: "int \<Rightarrow> (nat \<Rightarrow> int) \<Rightarrow> nat set" where
  "in_window lo key = {a. lo \<le> key a \<and> key a \<le> lo + INT_MAX}"

lemma elem_cmp_in:
  assumes "a \<in> in_window lo key" "b \<in> in_window lo key" "keyed h key {a, b}"
  shows "elem_cmp h a b = Inr (key a - key b)"
  using assms by (auto simp: elem_cmp_def keyed_def in_window_def intro!: int_sub_in simp: in_int_def)

interpretation le: list_sorter cmp_le key "in_window lo key" "\<lambda>a b. key a > key b" "sort_key key" for lo key
  by unfold_locales (auto simp: cmp_le_def elem_cmp_in sort_key_append)

text \<open>Taking ties from the second run amounts to the stable sort of the reversed list.\<close>

lemma merge_by_flip:
  fixes key :: "nat \<Rightarrow> int"
  shows "merge_by (\<lambda>a b. key a \<ge> key b) xs ys = merge_by (\<lambda>a b. key a > key b) ys xs"
  by (induction "\<lambda>a b. key a \<ge> key b" xs ys rule: merge_by.induct) auto

interpretation lt: list_sorter cmp_lt key "in_window lo key" "\<lambda>a b. key a \<ge> key b" "\<lambda>xs. sort_key key (rev xs)" for lo key
  by unfold_locales (auto simp: cmp_lt_def elem_cmp_in sort_key_append merge_by_flip)

text \<open>C11: \<open>listsort\<close> on a linear or circular, singly or doubly linked list of less than \<open>2 ^ 30\<close> elements whose values lie in a 31-bit
  window returns the head of the stably sorted list; the links of the result are those of a list
  of the same kind, no value changes, and no other element is touched.\<close>

theorem listsort_sorts:
  assumes "wf_list h is_circular is_double xs" "xs \<noteq> []" "keyed h key (set xs)"
    "\<forall>a \<in> set xs. lo \<le> key a \<and> key a \<le> lo + INT_MAX" "length xs < 2 ^ 30" "2 * length xs \<le> fuel"
  shows "\<exists>h'. listsort fuel h (Some (hd xs)) is_circular is_double = Inr (Some (hd (sort_key key xs)), h') \<and>
    wf_list h' is_circular is_double (sort_key key xs) \<and> keyed h' key (set xs) \<and> (\<forall>c. c \<notin> set xs \<longrightarrow> h' c = h c)"
  using le.listsort_loop_sorts [OF assms(1-3) _ assms(5,6), of lo False is_double] assms(4)
  by (auto simp: listsort_def in_window_def)

lemma listsort2_listsort: "listsort2 = listsort"
proof -
  have "(\<lambda>h p q. bindr (client_cmp h p q) (\<lambda>c. Inr (c \<le> 0))) = cmp_le"
    by (intro ext) (simp add: cmp_le_def client_cmp_def elem_cmp_def)
  then show ?thesis by (intro ext) (simp only: listsort2_def listsort_def)
qed

text \<open>\<open>merge_sort_list\<close> on a linear doubly linked list with values in a 31-bit window returns the
  sorted list with consistent links. It is not stable: equal elements come out in reverse order.\<close>

theorem merge_sort_list_sorts:
  assumes "wf_list h False True xs" "xs \<noteq> []" "keyed h key (set xs)"
    "\<forall>a \<in> set xs. lo \<le> key a \<and> key a \<le> lo + INT_MAX" "length xs < 2 ^ 30" "2 * length xs \<le> fuel"
  shows "\<exists>h'. merge_sort_list fuel h (Some (hd xs)) = Inr (Some (hd (sort_key key (rev xs))), h') \<and>
    wf_list h' False True (sort_key key (rev xs)) \<and> keyed h' key (set xs) \<and> (\<forall>c. c \<notin> set xs \<longrightarrow> h' c = h c)"
proof -
  obtain a ys where xs: "xs = a # ys" using assms(2) by (cases xs) auto
  obtain n where n: "h a = Some n" "e_next n = fstp ys None" using assms(1) xs by (auto simp: wf_list_def)
  show ?thesis
  proof (cases ys)
    case Nil
    then show ?thesis using assms(1,3) xs n by (intro exI [of _ h]) (simp add: merge_sort_list_def)
  next
    case (Cons b zs)
    then show ?thesis
      using lt.listsort_loop_sorts [OF assms(1-3) _ assms(5,6), of lo True True] assms(4) xs n
      by (auto simp: merge_sort_list_def in_window_def)
  qed
qed

lemma demo_list: "wf_list (test_list [5, 3, 5, 1] c d) c d [0, 1, 2, 3] \<and>
    keyed (test_list [5, 3, 5, 1] c d) (\<lambda>a. [5, 3, 5, 1] ! a) (set [0, 1, 2, 3])"
  by (auto simp: wf_list_def test_list_def keyed_def)

theorem listsort_sorts_witness:
  "\<exists>h'. listsort 8 (test_list [5, 3, 5, 1] True True) (Some (hd [0, 1, 2, 3])) True True =
      Inr (Some (hd (sort_key (\<lambda>a. [5, 3, 5, 1 :: int] ! a) [0, 1, 2, 3])), h') \<and>
    wf_list h' True True (sort_key (\<lambda>a. [5, 3, 5, 1 :: int] ! a) [0, 1, 2, 3]) \<and>
    keyed h' (\<lambda>a. [5, 3, 5, 1] ! a) (set [0, 1, 2, 3]) \<and>
    (\<forall>c. c \<notin> set [0, 1, 2, 3] \<longrightarrow> h' c = test_list [5, 3, 5, 1] True True c)"
  by (rule listsort_sorts [OF demo_list [THEN conjunct1] _ demo_list [THEN conjunct2], where lo = 0]) simp_all

theorem merge_sort_list_sorts_witness:
  "\<exists>h'. merge_sort_list 8 (test_list [5, 3, 5, 1] False True) (Some (hd [0, 1, 2, 3])) =
      Inr (Some (hd (sort_key (\<lambda>a. [5, 3, 5, 1 :: int] ! a) (rev [0, 1, 2, 3]))), h') \<and>
    wf_list h' False True (sort_key (\<lambda>a. [5, 3, 5, 1 :: int] ! a) (rev [0, 1, 2, 3])) \<and>
    keyed h' (\<lambda>a. [5, 3, 5, 1] ! a) (set [0, 1, 2, 3]) \<and>
    (\<forall>c. c \<notin> set [0, 1, 2, 3] \<longrightarrow> h' c = test_list [5, 3, 5, 1] False True c)"
  by (rule merge_sort_list_sorts [OF demo_list [THEN conjunct1] _ demo_list [THEN conjunct2], where lo = 0]) simp_all

section \<open>The test rig accepts\<close>

definition bit_of :: "nat \<Rightarrow> nat \<Rightarrow> nat" where
  "bit_of head e = nat ((int e - int head) mod 32)"

lemma bit_of_inj:
  assumes "bit_of head a = bit_of head b" "a < 32" "b < 32"
  shows "a = b"
proof -
  have "(int a - int head) mod 32 = (int b - int head) mod 32" using assms(1) by (simp add: bit_of_def eq_nat_nat_iff)
  then have "int a mod 32 = int b mod 32" by (simp add: mod_diff_cong [of "int a - int head" 32 _ "- int head" "- int head", simplified] mod_eq_dvd_iff)
  then show ?thesis using assms(2,3) by simp
qed

lemma check_forward_ok:
  assumes "chain h ys nx" "ys \<noteq> []" "nx = None \<or> nx = Some head" "head \<notin> set (tl ys)" "distinct (ds @ ys)"
    "\<forall>e \<in> set ys. e < len" "\<forall>e \<in> set ys. shl (int e - int head) = Inr (bt e)" "inj_on bt (set (ds @ ys))"
    "set bits = bt ` set ds" "length ys \<le> fuel"
  shows "check_forward fuel shl h head len bits (hd ys) = Inr (Some (last ys))"
  using assms
proof (induction ys arbitrary: ds bits fuel)
  case (Cons a ys)
  obtain fu where fu: "fuel = Suc fu" using Cons.prems(10) by (cases fuel) auto
  have nb: "bt a \<notin> set bits" using Cons.prems(5,8,9) by (auto simp: inj_on_def)
  obtain n where n: "h a = Some n" "e_next n = fstp ys nx" "chain h ys nx" using Cons.prems(1) by auto
  have al: "a < len" "shl (int a - int head) = Inr (bt a)" using Cons.prems(6,7) by auto
  show ?case
  proof (cases ys)
    case Nil
    then show ?thesis using Cons.prems(3) n fu nb al by auto
  next
    case (Cons c zs)
    then have "c \<noteq> head" using Cons.prems(4) by auto
    have "check_forward fu shl h head len (bt a # bits) (hd ys) = Inr (Some (last ys))"
      using Cons.prems Cons n(3) fu by (intro Cons.IH [of "ds @ [a]"]) auto
    then show ?thesis using Cons \<open>c \<noteq> head\<close> n fu nb al by simp
  qed
qed simp

lemma check_forward_bad:
  assumes "chain h ys nx" "head \<notin> set (tl ys)" "distinct (ds @ ys)" "\<forall>e \<in> set ys. e < len" "len \<le> 32"
    "set bits = (\<lambda>e. e - head) ` set ds" "\<forall>e \<in> set ds. head \<le> e" "\<exists>e \<in> set ys. e < head" "length ys \<le> fuel"
  shows "check_forward fuel shl_c h head len bits (hd ys) = Inl BadShift"
  using assms
proof (induction ys arbitrary: ds bits fuel)
  case (Cons a ys)
  obtain fu where fu: "fuel = Suc fu" using Cons.prems(9) by (cases fuel) auto
  have al: "a < len" using Cons.prems(4) by simp
  show ?case
  proof (cases "a < head")
    case True
    then show ?thesis using al fu by (simp add: shl_c_def)
  next
    case False
    then have sh: "shl_c (int a - int head) = Inr (a - head)" using al Cons.prems(5) by (simp add: shl_c_def)
    have nb: "a - head \<notin> set bits" using Cons.prems(3,6,7) False by (auto simp: eq_diff_iff)
    obtain n where n: "h a = Some n" "e_next n = fstp ys nx" "chain h ys nx" using Cons.prems(1) by auto
    have ex: "\<exists>e \<in> set ys. e < head" using Cons.prems(8) False by auto
    then obtain c zs where cs: "ys = c # zs" by (cases ys) auto
    then have "c \<noteq> head" using Cons.prems(2) by auto
    have "check_forward fu shl_c h head len ((a - head) # bits) (hd ys) = Inl BadShift"
    proof (rule Cons.IH [OF n(3), of "ds @ [a]"])
      show "head \<notin> set (tl ys)" using Cons.prems(2) cs by auto
    qed (use Cons.prems ex fu False in auto)
    then show ?thesis using cs \<open>c \<noteq> head\<close> n fu nb al sh by simp
  qed
qed simp

lemma check_pairs_ok:
  assumes "chain h ys nx" "ys \<noteq> []" "nx = None \<or> nx = Some head" "head \<notin> set (tl ys)" "length ys \<le> fuel"
    "\<And>i n n'. Suc i < length ys \<Longrightarrow> h (ys ! i) = Some n \<Longrightarrow> h (ys ! Suc i) = Some n' \<Longrightarrow> ok (ys ! i) n n'"
  shows "check_pairs fuel ok h head (hd ys) = Inr True"
  using assms
proof (induction ys arbitrary: fuel)
  case (Cons a ys)
  obtain fu where fu: "fuel = Suc fu" using Cons.prems(5) by (cases fuel) auto
  obtain n where n: "h a = Some n" "e_next n = fstp ys nx" "chain h ys nx" using Cons.prems(1) by auto
  show ?case
  proof (cases ys)
    case Nil
    then show ?thesis using Cons.prems(3) n fu by auto
  next
    case (Cons c zs)
    then have ch: "c \<noteq> head" using Cons.prems(4) by auto
    obtain n' where n': "h c = Some n'" using n(3) Cons by auto
    have "ok a n n'" using Cons.prems(6) [of 0 n n'] Cons n(1) n' by simp
    moreover have "check_pairs fu ok h head (hd ys) = Inr True"
    proof (rule Cons.IH [OF n(3)])
      show "ok (ys ! i) m m'" if "Suc i < length ys" "h (ys ! i) = Some m" "h (ys ! Suc i) = Some m'" for i m m'
        using Cons.prems(6) [of "Suc i" m m'] that by simp
      show "head \<notin> set (tl ys)" using Cons.prems(4) by (cases ys) auto
    qed (use Cons Cons.prems fu in auto)
    ultimately show ?thesis using Cons ch n n' fu by simp
  qed
qed simp

lemma prevs_nth: "prevs h pv ys \<Longrightarrow> Suc i < length ys \<Longrightarrow> \<exists>n'. h (ys ! Suc i) = Some n' \<and> e_prev n' = Some (ys ! i)"
proof (induction ys arbitrary: pv i)
  case (Cons a ys)
  then show ?case by (cases i; cases ys) auto
qed simp

lemma print_and_check_list_ok:
  assumes w: "wf_list h c d xs" and xs: "xs \<noteq> []" "\<forall>e \<in> set xs. e < len" "len \<le> 32" "length xs \<le> fuel"
    and k: "keyed h key (set xs)" and so: "ord \<longrightarrow> sorted_wrt (\<lambda>a b. key a < key b) xs"
    and bt: "\<forall>e \<in> set xs. shl (int e - int (hd xs)) = Inr (bt e)" "inj_on bt (set xs)"
  shows "print_and_check_list fuel shl h (Some (hd xs)) len c d ord = Inr True"
proof -
  let ?nx = "if c then fstp xs None else None"
  have ch: "chain h xs ?nx" and dis: "distinct xs" using w by (auto simp: wf_list_def)
  have nx: "?nx = None \<or> ?nx = Some (hd xs)" using xs(1) by (cases xs) auto
  have tl: "hd xs \<notin> set (tl xs)" using dis xs(1) by (cases xs) auto
  have f: "check_forward fuel shl h (hd xs) len [] (hd xs) = Inr (Some (last xs))"
    using check_forward_ok [OF ch xs(1) nx tl, of "[]" len shl bt "[]" fuel] dis xs bt by simp
  obtain nt where nt: "h (last xs) = Some nt" "e_next nt = ?nx"
    using ch xs(1) by (cases xs rule: rev_cases) (auto simp: chain_append)
  obtain nh where nh: "h (hd xs) = Some nh" "d \<longrightarrow> e_prev nh = (if c then Some (last xs) else None)"
    using w xs(1) by (cases xs) (auto simp: wf_list_def)
  have nx2: "?nx = (if c then Some (hd xs) else None)" using xs(1) by (cases xs) auto
  have bwd: "check_pairs fuel (\<lambda>e n n'. e_prev n' = Some e) h (hd xs) (hd xs) = Inr True" if "d"
    by (rule check_pairs_ok [OF ch xs(1) nx tl xs(4)]) (use w that prevs_nth in \<open>fastforce simp: wf_list_def\<close>)
  have od: "check_pairs fuel (\<lambda>e n n'. e_i n' > e_i n) h (hd xs) (hd xs) = Inr True" if "ord"
  proof (rule check_pairs_ok [OF ch xs(1) nx tl xs(4)])
    fix i n n' assume i: "Suc i < length xs" "h (xs ! i) = Some n" "h (xs ! Suc i) = Some n'"
    have "xs ! i \<in> set xs" "xs ! Suc i \<in> set xs" using i(1) by auto
    then have "e_i n = key (xs ! i)" "e_i n' = key (xs ! Suc i)" using keyedD [OF k] i by auto
    then show "e_i n < e_i n'" using so that i(1) by (auto simp: sorted_wrt_iff_nth_less)
  qed
  show ?thesis
    using f nt nh nx2 bwd od xs(3) unfolding print_and_check_list_def by (cases d; cases ord) simp_all
qed

lemma test_list_chain:
  "i < length vs \<Longrightarrow> chain (test_list vs c d) [i..<length vs] (if c then Some 0 else None) \<and>
    (d \<longrightarrow> prevs (test_list vs c d) (if i = 0 then if c then Some (length vs - 1) else None else Some (i - 1)) [i..<length vs])"
proof (induction "length vs - i" arbitrary: i)
  case (Suc n)
  show ?case
  proof (cases "Suc i < length vs")
    case True
    have u: "[i..<length vs] = i # [Suc i..<length vs]" using True by (simp add: upt_conv_Cons)
    have f: "fstp [Suc i..<length vs] nx = Some (Suc i)" for nx using True by (simp add: upt_conv_Cons)
    have ih: "chain (test_list vs c d) [Suc i..<length vs] (if c then Some 0 else None)"
      "d \<longrightarrow> prevs (test_list vs c d) (Some i) [Suc i..<length vs]" using Suc.hyps(1) [of "Suc i"] Suc.hyps(2) True by auto
    have t: "test_list vs c d i = Some \<lparr>e_next = Some (Suc i), e_prev = (if \<not> d then None else if i > 0 then Some (i - 1)
        else if c then Some (length vs - 1) else None), e_i = vs ! i\<rparr>" using True by (simp add: test_list_def)
    show ?thesis unfolding u chain.simps prevs.simps f using ih t by (cases d; cases "i = 0"; simp)
  next
    case False
    then have "[i..<length vs] = [i]" using Suc.prems by (simp add: upt_conv_Cons)
    then show ?thesis using False Suc.prems by (auto simp: test_list_def)
  qed
qed simp

lemma test_list_wf:
  assumes "vs \<noteq> []"
  shows "wf_list (test_list vs c d) c d [0..<length vs]" "keyed (test_list vs c d) ((!) vs) (set [0..<length vs])"
proof -
  have n: "0 < length vs" using assms by simp
  then have f: "fstp [0..<length vs] None = Some 0" by (simp add: upt_conv_Cons)
  have l: "last [0..<length vs] = length vs - 1" using last_upt [OF n] .
  note t = test_list_chain [OF n, of c d]
  show "wf_list (test_list vs c d) c d [0..<length vs]"
    unfolding wf_list_def f l using t [THEN conjunct1] t [THEN conjunct2] by (simp only: distinct_upt if_True simp_thms)
qed (auto simp: keyed_def test_list_def)

lemma sort_indices:
  assumes "distinct vs"
  shows "sorted_wrt (\<lambda>a b. vs ! a < vs ! b) (sort_key ((!) vs) [0..<length vs])"
proof -
  let ?ys = "sort_key ((!) vs) [0..<length vs]"
  have s: "sorted (map ((!) vs) ?ys)" by simp
  have "map ((!) vs) [0..<length vs] = vs" by (rule map_nth)
  then have "mset (map ((!) vs) ?ys) = mset vs" by (metis mset_map mset_sort)
  then have "distinct (map ((!) vs) ?ys)" using assms by (metis mset_eq_imp_distinct_iff)
  with s have "sorted_wrt (<) (map ((!) vs) ?ys)" by (simp only: strict_sorted_iff)
  then show ?thesis by (simp add: sorted_wrt_map)
qed

lemma shl_c_0: "\<forall>e \<in> set [0..<n]. shl_c (int e - int (hd [0..<n])) = Inr e" if "n \<le> 32"
  using that by (cases n) (auto simp: shl_c_def upt_conv_Cons simp del: upt_Suc)

lemma shl_x86_bit: "shl_x86 (int e - int head) = Inr (bit_of head e)"
  by (simp add: shl_x86_def bit_of_def)

lemma test_list_check:
  assumes "vs \<noteq> []" "length vs \<le> 13" "shl = shl_c \<or> shl = shl_x86"
  shows "print_and_check_list 40 shl (test_list vs c d) (Some 0) (length vs) c d False = Inr True"
proof -
  have h0: "hd [0..<length vs] = 0" using assms(1) by (simp add: upt_conv_Cons)
  obtain bt where bt: "\<forall>e \<in> set [0..<length vs]. shl (int e - int (hd [0..<length vs])) = Inr (bt e)" "inj_on bt (set [0..<length vs])"
    using assms(3)
  proof
    assume "shl = shl_c"
    then show ?thesis using that [of "\<lambda>e. e"] shl_c_0 [of "length vs"] assms(2) by simp
  next
    assume "shl = shl_x86"
    then show ?thesis using that [of "bit_of (hd [0..<length vs])"] shl_x86_bit bit_of_inj assms(2) by (fastforce simp: inj_on_def)
  qed
  from print_and_check_list_ok [OF test_list_wf(1) _ _ _ _ test_list_wf(2) _ bt] assms show ?thesis
    unfolding h0 by auto
qed

lemma test_list_sorted:
  assumes "vs \<noteq> []" "length vs \<le> 13" "\<forall>v \<in> set vs. 0 \<le> v \<and> v \<le> INT_MAX"
  shows "\<exists>h'. listsort 40 (test_list vs c d) (Some 0) c d = Inr (Some (hd (sort_key ((!) vs) [0..<length vs])), h') \<and>
    wf_list h' c d (sort_key ((!) vs) [0..<length vs]) \<and> keyed h' ((!) vs) (set [0..<length vs])"
proof -
  have h0: "hd [0..<length vs] = 0" using assms(1) by (simp add: upt_conv_Cons)
  have A: "set [0..<length vs] \<subseteq> in_window 0 ((!) vs)" using assms(3) by (auto simp: in_window_def)
  have "[0..<length vs] \<noteq> []" "length [0..<length vs] < 2 ^ 30" "2 * length [0..<length vs] \<le> 40" using assms(1,2) by auto
  from le.listsort_loop_sorts [OF test_list_wf(1) [OF assms(1), of c d] this(1) test_list_wf(2) [OF assms(1)] A this(2,3), of False d]
  show ?thesis unfolding h0 listsort_def by auto
qed

lemma sort_key_empty: "sort_key f xs = [] \<longleftrightarrow> xs = []"
  by (metis length_0_conv length_sort)

lemma hd_sort_indices:
  assumes "vs \<noteq> []"
  shows "vs ! hd (sort_key ((!) vs) [0..<length vs]) = Min (set vs)"
proof -
  let ?ys = "sort_key ((!) vs) [0..<length vs]"
  have st: "set (map ((!) vs) ?ys) = set vs" by (metis set_map set_sort map_nth)
  have ne: "map ((!) vs) ?ys \<noteq> []" using assms by (simp add: sort_key_empty)
  have "hd (map ((!) vs) ?ys) = Min (set (map ((!) vs) ?ys))"
    using ne sorted_sort_key [of "(!) vs" "[0..<length vs]"]
    by (cases "map ((!) vs) ?ys") (auto intro!: Min_eqI [symmetric])
  then show ?thesis using st ne by (metis hd_map list.map_disc_iff)
qed

text \<open>The program's own test accepts \<open>listsort\<close> on every list of at most 13 distinct non-negative
  values, of each of the four kinds, when shift counts are taken modulo 32 as the x86 instruction
  does. By the C standard the check is undefined whenever the smallest value is not at the front: it
  shifts by the distance from the sorted list's head, which is negative for an element stored before it.\<close>

lemma run_case_result:
  assumes "vs \<noteq> []" "length vs \<le> 13" "distinct vs" "\<forall>v \<in> set vs. 0 \<le> v \<and> v \<le> INT_MAX"
  shows "run_case shl_x86 c d vs = Inr True \<and>
    run_case shl_c c d vs = (if Min (set vs) = vs ! 0 then Inr True else Inl BadShift)"
proof -
  let ?ys = "sort_key ((!) vs) [0..<length vs]" and ?n = "length vs"
  obtain h' where h': "listsort 40 (test_list vs c d) (Some 0) c d = Inr (Some (hd ?ys), h')" "wf_list h' c d ?ys"
    "keyed h' ((!) vs) (set ?ys)" using test_list_sorted [OF assms(1,2,4), of c d] by auto
  have pre: "print_and_check_list 40 shl (test_list vs c d) (Some 0) ?n c d False = Inr True" if "shl = shl_c \<or> shl = shl_x86" for shl
    by (rule test_list_check [OF assms(1,2) that])
  have run: "run_case shl c d vs = print_and_check_list 40 shl h' (Some (hd ?ys)) ?n c d True" if "shl = shl_c \<or> shl = shl_x86" for shl
    using assms(2) pre [OF that] h'(1) by (simp add: run_case_def Let_def)
  have ne: "?ys \<noteq> []" "\<forall>e \<in> set ?ys. e < ?n" "?n \<le> 32" "length ?ys \<le> 40" using assms(1,2) by (auto simp: sort_key_empty)
  note ok = print_and_check_list_ok [OF h'(2) ne h'(3), where ord = True]
  have x86: "run_case shl_x86 c d vs = Inr True"
    unfolding run [OF disjI2 [OF refl]]
  proof (rule ok)
    show "inj_on (bit_of (hd ?ys)) (set ?ys)" using assms(2) by (intro inj_onI) (rule bit_of_inj, auto)
  qed (use sort_indices [OF assms(3)] shl_x86_bit in auto)
  have mn: "vs ! hd ?ys = Min (set vs)" "hd ?ys < ?n" using hd_sort_indices [OF assms(1)] ne(1,2) hd_in_set by blast+
  have "run_case shl_c c d vs = (if Min (set vs) = vs ! 0 then Inr True else Inl BadShift)"
  proof (cases "Min (set vs) = vs ! 0")
    case True
    then have h0: "hd ?ys = 0" using mn assms(1,3) by (metis nth_eq_iff_index_eq length_greater_0_conv)
    have "print_and_check_list 40 shl_c h' (Some (hd ?ys)) ?n c d True = Inr True"
    proof (rule ok)
      show "\<forall>e \<in> set ?ys. shl_c (int e - int (hd ?ys)) = Inr e" unfolding h0 using assms(2) by (auto simp: shl_c_def)
    qed (use sort_indices [OF assms(3)] in auto)
    then show ?thesis using True run by simp
  next
    case False
    then have "0 < hd ?ys" using mn(1) by (metis gr_zeroI)
    moreover have "0 \<in> set ?ys" using assms(1) by simp
    ultimately have low: "\<exists>e \<in> set ?ys. e < hd ?ys" by blast
    have tl: "hd ?ys \<notin> set (tl ?ys)" using ne(1) by (metis distinct.simps(2) distinct_sort distinct_upt list.collapse)
    have ch: "chain h' ?ys (if c then fstp ?ys None else None)" using h'(2) by (simp only: wf_list_def)
    have "check_forward 40 shl_c h' (hd ?ys) ?n [] (hd ?ys) = Inl BadShift"
      by (rule check_forward_bad [OF ch tl _ ne(2,3) _ _ low ne(4), of "[]"]) simp_all
    then show ?thesis using False run ne(3) by (simp add: print_and_check_list_def)
  qed
  with x86 show ?thesis ..
qed

lemma testcases_ok: "vs \<in> set testcases \<Longrightarrow> vs \<noteq> [] \<and> length vs \<le> 13 \<and> distinct vs \<and> (\<forall>v \<in> set vs. 0 \<le> v \<and> v \<le> INT_MAX)"
  by (auto simp: testcases_def)

lemma count_fails_0: "(\<And>c d vs. (c, d, vs) \<in> set ts \<Longrightarrow> run_case shl c d vs = Inr True) \<Longrightarrow> count_fails shl ts = Inr 0"
  by (induction shl ts rule: count_fails.induct) auto

text \<open>The program's own test of \<open>listsort\<close> reports no failure on its twelve lists when shift counts are
  taken modulo 32, as the x86 instruction does. By the C standard it is undefined: its check of the
  second list shifts by a negative count.\<close>

theorem merge_sort_link_list_main_result:
  "merge_sort_link_list_main shl_x86 = Inr False \<and> merge_sort_link_list_main shl_c = Inl BadShift"
proof
  have "count_fails shl_x86 [(c, d, vs). c \<leftarrow> [False, True], d \<leftarrow> [False, True], vs \<leftarrow> testcases] = Inr 0"
    by (rule count_fails_0) (use testcases_ok run_case_result in auto)
  then show "merge_sort_link_list_main shl_x86 = Inr False"
    unfolding merge_sort_link_list_main_def by (simp add: listsort_def)
  obtain t1 t2 ts where t: "testcases = t1 # t2 # ts" "Min (set t1) = t1 ! 0" "Min (set t2) \<noteq> t2 ! 0"
    by (simp add: testcases_def)
  have "run_case shl_c False False v = (if Min (set v) = v ! 0 then Inr True else Inl BadShift)" if "v \<in> set testcases" for v
    using testcases_ok [OF that] run_case_result by blast
  moreover have "t1 \<in> set testcases" "t2 \<in> set testcases" by (simp_all add: t(1))
  ultimately have "run_case shl_c False False t1 = Inr True" "run_case shl_c False False t2 = Inl BadShift"
    using t(2,3) by simp_all
  then show "merge_sort_link_list_main shl_c = Inl BadShift"
    unfolding merge_sort_link_list_main_def t(1) by (simp add: listsort_def)
qed

end
