(* ===== verification/Chess_Board.thy ===== *)
theory Chess_Board
  imports C_Prelude
begin

text \<open>
  The win detection of the gobang game, \<^verbatim>\<open>src/chess/chess_core.cpp\<close>.

  \<open>chess_board_find\<close> walks over the stones in row order; from each it searches outwards in four
  lines at once, in steps of one cell on both sides, until one line has collected \<open>n - 1\<close> further
  stones of the same colour. The collected cells go into arrays of \<open>n - 1\<close> pointers; writing
  behind such an array is a failure of the model.

  The results: the search never writes behind its arrays, it succeeds exactly if there are \<open>n\<close> equal
  stones in a row, and it marks exactly such a row. The safety is not local: from a stone in the
  middle of a long row the search would overrun an array, but an end of the row comes first in the
  walk and the game is found there.
\<close>

section \<open>The program\<close>

record chess_pt =
  pt_x :: int
  pt_y :: int
  hit :: int
  win :: int

record chess_board =
  pts :: "chess_pt list"
  bW :: nat
  bH :: nat

text \<open>A line is searched to two sides; the state says which sides are off and lists the cells found.\<close>

record line =
  off1 :: bool
  off2 :: bool
  found :: "nat list"

text \<open>The bound tested for a coordinate depends on the direction it moves in.\<close>

definition step_in :: "nat \<Rightarrow> int \<Rightarrow> int \<Rightarrow> bool" where
  "step_in lim d c = (if d < 0 then c > - 1 else if d > 0 then c < int lim else True)"

definition scan_side :: "chess_board \<Rightarrow> chess_pt \<Rightarrow> nat \<Rightarrow> int \<Rightarrow> int \<times> int \<Rightarrow> bool \<times> nat list \<Rightarrow> cerr + bool \<times> nat list" where
  "scan_side board pt n k d s =
     (let x = pt_x pt + k * fst d; y = pt_y pt + k * snd d in
      if \<not> fst s \<and> step_in (bW board) (fst d) x \<and> step_in (bH board) (snd d) y then
        bindr (int_mul y (int (bW board))) (\<lambda>v. bindr (int_add v x) (\<lambda>i.
        bindr (loadi (pts board) i) (\<lambda>p.
        if hit p \<noteq> hit pt then Inr (True, snd s)
        else if length (snd s) < n then Inr (fst s, snd s @ [nat i]) else Inl OutOfBounds)))
      else Inr s)"

text \<open>One line in one round; \<open>Some\<close> are the cells found when they suffice.\<close>

definition scan_line :: "chess_board \<Rightarrow> chess_pt \<Rightarrow> nat \<Rightarrow> int \<Rightarrow> (int \<times> int) \<times> int \<times> int \<Rightarrow> line \<Rightarrow> cerr + nat list option \<times> line" where
  "scan_line board pt n k d l =
     (if \<not> off1 l \<or> \<not> off2 l then
        bindr (scan_side board pt n k (fst d) (off1 l, found l)) (\<lambda>(o1, ps).
        bindr (scan_side board pt n k (snd d) (off2 l, ps)) (\<lambda>(o2, ps).
        Inr (if length ps \<ge> n then Some (take n ps) else None, \<lparr>off1 = o1, off2 = o2, found = ps\<rparr>)))
      else Inr (None, l))"

fun scan_lines :: "chess_board \<Rightarrow> chess_pt \<Rightarrow> nat \<Rightarrow> int \<Rightarrow> ((int \<times> int) \<times> int \<times> int) list \<Rightarrow> line list \<Rightarrow>
    cerr + nat list option \<times> line list" where
  "scan_lines board pt n k (d # ds) (l # ls) =
     bindr (scan_line board pt n k d l) (\<lambda>(r, l').
     case r of Some ps \<Rightarrow> Inr (Some ps, [])
     | None \<Rightarrow> bindr (scan_lines board pt n k ds ls) (\<lambda>(r, ls'). Inr (r, l' # ls')))"
| "scan_lines board pt n k _ _ = Inr (None, [])"

text \<open>Left and right, top and bottom, left-top and right-bottom, left-bottom and right-top.\<close>

definition dirs :: "((int \<times> int) \<times> int \<times> int) list" where
  "dirs = [((- 1, 0), (1, 0)), ((0, - 1), (0, 1)), ((- 1, - 1), (1, 1)), ((- 1, 1), (1, - 1))]"

text \<open>The loop variables \<open>x1\<close>, \<open>y1\<close>, \<open>x2\<close> and \<open>y2\<close> of round \<open>k\<close> are of type \<open>int\<close>.\<close>

definition loop_vars :: "chess_pt \<Rightarrow> int \<Rightarrow> cerr + unit" where
  "loop_vars pt k =
     bindr (int_add (pt_x pt) k) (\<lambda>x1. bindr (int_sub (pt_x pt) k) (\<lambda>x2. bindr (int_add (pt_y pt) k) (\<lambda>y1. bindr (int_sub (pt_y pt) k) (\<lambda>y2. Inr ()))))"

function find_first_loop :: "chess_board \<Rightarrow> chess_pt \<Rightarrow> nat \<Rightarrow> int \<Rightarrow> line list \<Rightarrow> cerr + nat list option" where
  "find_first_loop board pt n k ls =
     (if pt_x pt + k < int (bW board) \<or> pt_y pt + k < int (bH board) \<or> pt_x pt - k > - 1 \<or> pt_y pt - k > - 1 then
        bindr (scan_lines board pt n k dirs ls) (\<lambda>(r, ls).
        case r of Some ps \<Rightarrow> Inr (Some ps) | None \<Rightarrow> bindr (loop_vars pt (k + 1)) (\<lambda>_. find_first_loop board pt n (k + 1) ls))
      else Inr None)"
  by pat_completeness auto
termination
  by (relation "measure (\<lambda>(board, pt, n, k, ls). nat (int (bW board) + int (bH board) + \<bar>pt_x pt\<bar> + \<bar>pt_y pt\<bar> + 1 - k))") auto

declare find_first_loop.simps [simp del]

definition no_line :: line where
  "no_line = \<lparr>off1 = False, off2 = False, found = []\<rparr>"

definition chess_board_find_first :: "chess_board \<Rightarrow> chess_pt \<Rightarrow> nat \<Rightarrow> cerr + nat list option" where
  "chess_board_find_first board pt n = bindr (loop_vars pt 1) (\<lambda>_. find_first_loop board pt n 1 (replicate 4 no_line))"

fun reset_cols :: "chess_board \<Rightarrow> nat \<Rightarrow> nat \<Rightarrow> nat \<Rightarrow> cerr + chess_board" where
  "reset_cols board i j 0 = Inr board"
| "reset_cols board i j (Suc c) =
     bindr (store (pts board) j \<lparr>pt_x = int (j mod bW board), pt_y = int i, hit = 0, win = 0\<rparr>) (\<lambda>ps.
     reset_cols (board\<lparr>pts := ps\<rparr>) i (Suc j) c)"

fun reset_rows :: "chess_board \<Rightarrow> nat \<Rightarrow> nat \<Rightarrow> cerr + chess_board" where
  "reset_rows board i 0 = Inr board"
| "reset_rows board i (Suc r) =
     bindr (imul i (bW board)) (\<lambda>j. bindr (imul (Suc i) (bW board)) (\<lambda>e.
     bindr (reset_cols board i j (e - j)) (\<lambda>board. reset_rows board (Suc i) r)))"

definition chess_board_reset :: "chess_board \<Rightarrow> cerr + chess_board" where
  "chess_board_reset board = reset_rows board 0 (bH board)"

fun mark :: "chess_board \<Rightarrow> nat list \<Rightarrow> cerr + chess_board" where
  "mark board [] = Inr board"
| "mark board (i # is) =
     bindr (load (pts board) i) (\<lambda>p. bindr (store (pts board) i (p\<lparr>win := 1\<rparr>)) (\<lambda>ps. mark (board\<lparr>pts := ps\<rparr>) is))"

text \<open>\<open>Some\<close> carries the other cells of the row, which the caller gets, and the board with the row marked.\<close>

fun find_cols :: "chess_board \<Rightarrow> nat \<Rightarrow> nat \<Rightarrow> nat \<Rightarrow> cerr + (nat list \<times> chess_board) option" where
  "find_cols board n j 0 = Inr None"
| "find_cols board n j (Suc c) =
     bindr (load (pts board) j) (\<lambda>p.
     if hit p = 0 then find_cols board n (Suc j) c else
     bindr (chess_board_find_first board p (n - 1)) (\<lambda>r.
     case r of None \<Rightarrow> find_cols board n (Suc j) c
     | Some ps \<Rightarrow> bindr (mark board (j # ps)) (\<lambda>board. Inr (Some (ps, board)))))"

fun find_rows :: "chess_board \<Rightarrow> nat \<Rightarrow> nat \<Rightarrow> nat \<Rightarrow> cerr + (nat list \<times> chess_board) option" where
  "find_rows board n i 0 = Inr None"
| "find_rows board n i (Suc r) =
     bindr (imul i (bW board)) (\<lambda>j. bindr (imul (Suc i) (bW board)) (\<lambda>e.
     bindr (find_cols board n j (e - j)) (\<lambda>res.
     case res of Some x \<Rightarrow> Inr (Some x) | None \<Rightarrow> find_rows board n (Suc i) r)))"

definition chess_board_find :: "chess_board \<Rightarrow> nat \<Rightarrow> cerr + (nat list \<times> chess_board) option" where
  "chess_board_find board n = find_rows board n 0 (bH board)"

section \<open>Boards\<close>

text \<open>The number of cells and twice the sides fit the type \<open>int\<close>: the search counts both ways from a cell up to the longer side.\<close>

definition dims_ok :: "chess_board \<Rightarrow> bool" where
  "dims_ok b \<longleftrightarrow> bH b * bW b < 2 ^ 31 \<and> bW b \<le> 2 ^ 30 - 1 \<and> bH b \<le> 2 ^ 30 - 1"

definition board_ok :: "chess_board \<Rightarrow> bool" where
  "board_ok b \<longleftrightarrow> dims_ok b \<and> length (pts b) = bH b * bW b \<and>
     (\<forall>j < bH b * bW b. pt_x (pts b ! j) = int (j mod bW b) \<and> pt_y (pts b ! j) = int (j div bW b))"

definition in_board :: "chess_board \<Rightarrow> int \<Rightarrow> int \<Rightarrow> bool" where
  "in_board b x y \<longleftrightarrow> 0 \<le> x \<and> x < int (bW b) \<and> 0 \<le> y \<and> y < int (bH b)"

definition pos :: "chess_board \<Rightarrow> int \<Rightarrow> int \<Rightarrow> nat" where
  "pos b x y = nat (y * int (bW b) + x)"

definition stone :: "chess_board \<Rightarrow> int \<Rightarrow> int \<Rightarrow> int option" where
  "stone b x y = (if in_board b x y then Some (hit (pts b ! pos b x y)) else None)"

text \<open>\<open>n\<close> stones of one colour in a row, from \<open>(x, y)\<close> in direction \<open>(dx, dy)\<close>.\<close>

definition is_row :: "chess_board \<Rightarrow> nat \<Rightarrow> int \<Rightarrow> int \<Rightarrow> int \<Rightarrow> int \<Rightarrow> bool" where
  "is_row b n x y dx dy \<longleftrightarrow> (dx, dy) \<in> {(1, 0), (0, 1), (1, 1), (1, - 1)} \<and>
     (\<exists>h. h \<noteq> 0 \<and> (\<forall>i < n. stone b (x + int i * dx) (y + int i * dy) = Some h))"

lemma pos_bound:
  assumes "in_board b x y"
  shows "0 \<le> y * int (bW b) + x" "pos b x y < bH b * bW b" "int (pos b x y) = y * int (bW b) + x"
proof -
  have "y * int (bW b) + x < (y + 1) * int (bW b)" using assms by (simp add: in_board_def algebra_simps)
  also have "\<dots> \<le> int (bH b) * int (bW b)" using assms by (intro mult_right_mono) (auto simp: in_board_def)
  finally have lt: "y * int (bW b) + x < int (bH b * bW b)" by simp
  show ge: "0 \<le> y * int (bW b) + x" using assms by (auto simp: in_board_def)
  then show "int (pos b x y) = y * int (bW b) + x" by (simp add: pos_def)
  then show "pos b x y < bH b * bW b" using lt by linarith
qed

lemma board_cell:
  assumes "board_ok b" "j < bH b * bW b"
  shows "in_board b (pt_x (pts b ! j)) (pt_y (pts b ! j))" "pos b (pt_x (pts b ! j)) (pt_y (pts b ! j)) = j"
proof -
  have xy: "pt_x (pts b ! j) = int (j mod bW b)" "pt_y (pts b ! j) = int (j div bW b)" using assms by (auto simp: board_ok_def)
  have "0 < bW b" using assms(2) by (cases "bW b") auto
  moreover have "j div bW b < bH b" using assms(2) by (simp add: less_mult_imp_div_less)
  ultimately show "in_board b (pt_x (pts b ! j)) (pt_y (pts b ! j))" by (simp add: in_board_def xy)
  have "int (j div bW b) * int (bW b) + int (j mod bW b) = int j" by (metis of_nat_add of_nat_mult div_mult_mod_eq)
  then show "pos b (pt_x (pts b ! j)) (pt_y (pts b ! j)) = j" by (simp add: pos_def xy)
qed

lemma board_pos:
  assumes "board_ok b" "in_board b x y"
  shows "pt_x (pts b ! pos b x y) = x \<and> pt_y (pts b ! pos b x y) = y"
proof -
  define m where "m = nat x"
  define k where "k = nat y"
  have mk: "x = int m" "y = int k" "m < bW b" using assms(2) by (auto simp: in_board_def m_def k_def)
  then have "pos b x y = k * bW b + m" by (simp add: pos_def nat_add_distrib nat_mult_distrib)
  moreover have "(k * bW b + m) mod bW b = m" "(k * bW b + m) div bW b = k" using mk(3) by auto
  ultimately show ?thesis using assms(1) pos_bound(2) [OF assms(2)] mk by (simp add: board_ok_def)
qed

lemma dims_bounds:
  assumes "dims_ok b"
  shows "int (bH b * bW b) \<le> INT_MAX" "2 * int (bW b) \<le> INT_MAX" "2 * int (bH b) \<le> INT_MAX"
proof -
  show "int (bH b * bW b) \<le> INT_MAX" using of_nat_less_iff [of "bH b * bW b" "2 ^ 31", where 'a = int] assms by (simp add: dims_ok_def del: of_nat_mult)
  show "2 * int (bW b) \<le> INT_MAX" "2 * int (bH b) \<le> INT_MAX"
    using of_nat_le_iff [of "bW b" "2 ^ 30 - 1", where 'a = int] of_nat_le_iff [of "bH b" "2 ^ 30 - 1", where 'a = int] assms by (simp_all add: dims_ok_def)
qed

lemma row_index:
  assumes "dims_ok b" "i < bH b"
  shows "imul i (bW b) = Inr (i * bW b)" "imul (Suc i) (bW b) = Inr (Suc i * bW b)"
proof -
  have "Suc i * bW b \<le> bH b * bW b" using assms(2) by (intro mult_right_mono) auto
  moreover have "i * bW b \<le> Suc i * bW b" by simp
  moreover have "bH b * bW b < 2 ^ 31" using assms(1) by (simp add: dims_ok_def)
  ultimately have "i * bW b < 2 ^ 31" "Suc i * bW b < 2 ^ 31" by linarith+
  then show "imul i (bW b) = Inr (i * bW b)" "imul (Suc i) (bW b) = Inr (Suc i * bW b)" unfolding imul_def by (simp_all only: if_True)
qed

lemma cell_index:
  assumes "dims_ok b" "in_board b x y"
  shows "int_mul y (int (bW b)) = Inr (y * int (bW b))" "int_add (y * int (bW b)) x = Inr (y * int (bW b) + x)"
proof -
  have "int (pos b x y) \<le> int (bH b * bW b)" using pos_bound(2) [OF assms(2)] by (simp only: of_nat_le_iff)
  then have "y * int (bW b) + x \<le> INT_MAX" using pos_bound(3) [OF assms(2)] dims_bounds(1) [OF assms(1)] by linarith
  moreover have "0 \<le> x" "0 \<le> y * int (bW b)" using assms(2) by (auto simp: in_board_def)
  ultimately show "int_mul y (int (bW b)) = Inr (y * int (bW b))" "int_add (y * int (bW b)) x = Inr (y * int (bW b) + x)"
    by (auto simp: int_mul_def int_add_def int_res_def in_int_def)
qed

lemma loop_vars_in:
  assumes "dims_ok b" "in_board b (pt_x pt) (pt_y pt)" "0 \<le> k" "k \<le> int (bW b) \<or> k \<le> int (bH b)"
  shows "loop_vars pt k = Inr ()"
  using assms dims_bounds [OF assms(1)] by (auto simp: loop_vars_def int_add_def int_sub_def int_res_def in_int_def in_board_def)

section \<open>Runs\<close>

text \<open>How many of the first \<open>k\<close> cells in a direction have the property, up to the first that does not.\<close>

fun pre :: "(nat \<Rightarrow> bool) \<Rightarrow> nat \<Rightarrow> nat" where
  "pre P 0 = 0"
| "pre P (Suc k) = (if pre P k = k \<and> P (Suc k) then Suc k else pre P k)"

lemma pre_le: "pre P k \<le> k"
  by (induction k) auto

lemma pre_holds: "0 < j \<Longrightarrow> j \<le> pre P k \<Longrightarrow> P j"
proof (induction k)
  case (Suc k)
  then show ?case by (cases "j = Suc k") (auto split: if_splits)
qed simp

lemma pre_full: "(\<And>j. 0 < j \<Longrightarrow> j \<le> k \<Longrightarrow> P j) \<Longrightarrow> pre P k = k"
  by (induction k) auto

lemma pre_zero: "\<not> P 1 \<Longrightarrow> pre P k = 0"
  by (induction k) auto

lemma pre_pos: "P 1 \<Longrightarrow> 0 < k \<Longrightarrow> 0 < pre P k"
proof (induction k)
  case (Suc k)
  then show ?case by (cases "k = 0") auto
qed simp

lemma pre_stays: "(\<And>j. k < j \<Longrightarrow> \<not> P j) \<Longrightarrow> k \<le> m \<Longrightarrow> pre P m = pre P k"
  by (induction m) (auto simp: le_Suc_eq)

definition ray :: "chess_board \<Rightarrow> int \<Rightarrow> int \<Rightarrow> int \<Rightarrow> int \<times> int \<Rightarrow> nat \<Rightarrow> bool" where
  "ray b h x y d j \<longleftrightarrow> stone b (x + int j * fst d) (y + int j * snd d) = Some h"

definition run :: "chess_board \<Rightarrow> chess_pt \<Rightarrow> int \<times> int \<Rightarrow> nat \<Rightarrow> nat" where
  "run b pt d k = pre (ray b (hit pt) (pt_x pt) (pt_y pt) d) k"

definition cell :: "chess_board \<Rightarrow> chess_pt \<Rightarrow> int \<times> int \<Rightarrow> nat \<Rightarrow> nat" where
  "cell b pt d j = pos b (pt_x pt + int j * fst d) (pt_y pt + int j * snd d)"

definition dir_ok :: "int \<times> int \<Rightarrow> bool" where
  "dir_ok d \<longleftrightarrow> fst d \<in> {- 1, 0, 1} \<and> snd d \<in> {- 1, 0, 1} \<and> \<not> (fst d = 0 \<and> snd d = 0)"

lemma dirs_ok: "d \<in> set dirs \<Longrightarrow> dir_ok (fst d) \<and> dir_ok (snd d) \<and> fst (snd d) = - fst (fst d) \<and> snd (snd d) = - snd (fst d)"
  by (auto simp: dirs_def dir_ok_def)

lemma step_in_board:
  assumes "in_board b x y" "dir_ok d"
  shows "step_in (bW b) (fst d) (x + int k * fst d) \<and> step_in (bH b) (snd d) (y + int k * snd d) \<longleftrightarrow>
    in_board b (x + int k * fst d) (y + int k * snd d)"
  using assms by (auto simp: step_in_def in_board_def dir_ok_def)

lemma in_board_convex:
  assumes "in_board b x y" "dir_ok d" "in_board b (x + int (Suc k) * fst d) (y + int (Suc k) * snd d)"
  shows "in_board b (x + int k * fst d) (y + int k * snd d)"
  using assms by (auto simp: in_board_def dir_ok_def)

text \<open>The state of a side after \<open>k\<close> rounds.\<close>

definition side_inv :: "chess_board \<Rightarrow> chess_pt \<Rightarrow> int \<times> int \<Rightarrow> bool \<Rightarrow> nat \<Rightarrow> bool" where
  "side_inv b pt d off k \<longleftrightarrow> (off \<longrightarrow> run b pt d k < k) \<and>
     (\<not> off \<longrightarrow> in_board b (pt_x pt + int k * fst d) (pt_y pt + int k * snd d) \<longrightarrow> run b pt d k = k)"

lemma scan_side_spec:
  assumes ok: "board_ok b" and pt: "in_board b (pt_x pt) (pt_y pt)" and d: "dir_ok d" and inv: "side_inv b pt d off k"
    and room: "run b pt d (Suc k) = Suc k \<longrightarrow> length ps < n"
  shows "\<exists>off'. scan_side b pt n (int (Suc k)) d (off, ps) =
      Inr (off', ps @ (if run b pt d (Suc k) = Suc k then [cell b pt d (Suc k)] else [])) \<and> side_inv b pt d off' (Suc k)"
proof -
  let ?x = "pt_x pt + int (Suc k) * fst d" and ?y = "pt_y pt + int (Suc k) * snd d"
  have guard: "step_in (bW b) (fst d) ?x \<and> step_in (bH b) (snd d) ?y \<longleftrightarrow> in_board b ?x ?y"
    by (rule step_in_board [OF pt d])
  show ?thesis
  proof (cases "\<not> off \<and> in_board b ?x ?y")
    case False
    then have "\<not> (run b pt d k = k \<and> ray b (hit pt) (pt_x pt) (pt_y pt) d (Suc k))"
      using inv by (auto simp: side_inv_def ray_def stone_def)
    then have same: "run b pt d (Suc k) = run b pt d k" "run b pt d (Suc k) < Suc k" by (auto simp: run_def pre_le le_imp_less_Suc)
    then have "side_inv b pt d off (Suc k)" using inv False by (auto simp: side_inv_def)
    moreover have "scan_side b pt n (int (Suc k)) d (off, ps) = Inr (off, ps)"
      unfolding scan_side_def Let_def fst_conv snd_conv guard using False by auto
    ultimately show ?thesis using same by auto
  next
    case True
    note in' = conjunct2 [OF True]
    have full: "run b pt d k = k" using inv True in_board_convex [OF pt d in'] by (auto simp: side_inv_def)
    have ld: "loadi (pts b) (?y * int (bW b) + ?x) = Inr (pts b ! cell b pt d (Suc k))" "nat (?y * int (bW b) + ?x) = cell b pt d (Suc k)"
      using pos_bound [OF in'] ok by (auto simp: loadi_def cell_def pos_def board_ok_def load_def)
    have ix: "int_mul ?y (int (bW b)) = Inr (?y * int (bW b))" "int_add (?y * int (bW b)) ?x = Inr (?y * int (bW b) + ?x)"
      using cell_index [OF _ in'] ok by (auto simp: board_ok_def)
    have st: "ray b (hit pt) (pt_x pt) (pt_y pt) d (Suc k) \<longleftrightarrow> hit (pts b ! cell b pt d (Suc k)) = hit pt"
      using in' by (simp add: ray_def stone_def cell_def)
    show ?thesis
    proof (cases "hit (pts b ! cell b pt d (Suc k)) = hit pt")
      case eq: True
      then have r: "run b pt d (Suc k) = Suc k" using full st by (simp add: run_def)
      have "scan_side b pt n (int (Suc k)) d (off, ps) = Inr (off, ps @ [cell b pt d (Suc k)])"
        unfolding scan_side_def Let_def fst_conv snd_conv guard using True eq ld ix room r by auto
      moreover have "side_inv b pt d off (Suc k)" using True r by (auto simp: side_inv_def)
      ultimately show ?thesis using r by auto
    next
      case ne: False
      then have r: "run b pt d (Suc k) = k" using full st by (simp add: run_def)
      have "scan_side b pt n (int (Suc k)) d (off, ps) = Inr (True, ps)"
        unfolding scan_side_def Let_def fst_conv snd_conv guard using True ne ld ix by auto
      moreover have "side_inv b pt d True (Suc k)" using r by (auto simp: side_inv_def)
      ultimately show ?thesis using r by auto
    qed
  qed
qed

section \<open>Lines\<close>

definition both :: "chess_board \<Rightarrow> chess_pt \<Rightarrow> (int \<times> int) \<times> int \<times> int \<Rightarrow> nat \<Rightarrow> nat" where
  "both b pt d k = run b pt (fst d) k + run b pt (snd d) k"

definition cells :: "chess_board \<Rightarrow> chess_pt \<Rightarrow> (int \<times> int) \<times> int \<times> int \<Rightarrow> nat \<Rightarrow> nat set" where
  "cells b pt d k = cell b pt (fst d) ` {1..run b pt (fst d) k} \<union> cell b pt (snd d) ` {1..run b pt (snd d) k}"

definition line_inv :: "chess_board \<Rightarrow> chess_pt \<Rightarrow> nat \<Rightarrow> nat \<Rightarrow> (int \<times> int) \<times> int \<times> int \<Rightarrow> line \<Rightarrow> bool" where
  "line_inv b pt n k d l \<longleftrightarrow> side_inv b pt (fst d) (off1 l) k \<and> side_inv b pt (snd d) (off2 l) k \<and>
     length (found l) = both b pt d k \<and> set (found l) = cells b pt d k \<and> both b pt d k < n"

text \<open>A line is safe to search from a stone when it is too short, or when the stone is an end of its run.\<close>

definition safe :: "chess_board \<Rightarrow> chess_pt \<Rightarrow> nat \<Rightarrow> (int \<times> int) \<times> int \<times> int \<Rightarrow> bool" where
  "safe b pt n d \<longleftrightarrow> (\<forall>k. both b pt d k < n) \<or> (\<forall>k. run b pt (fst d) k = 0) \<or> (\<forall>k. run b pt (snd d) k = 0)"

lemma run_step: "run b pt d (Suc k) = run b pt d k \<and> run b pt d (Suc k) \<noteq> Suc k \<or> run b pt d (Suc k) = Suc k \<and> run b pt d k = k"
  using pre_le [of "ray b (hit pt) (pt_x pt) (pt_y pt) d" k] by (auto simp: run_def)

lemma cells_step:
  "cells b pt d (Suc k) = cells b pt d k \<union> (if run b pt (fst d) (Suc k) = Suc k then {cell b pt (fst d) (Suc k)} else {}) \<union>
     (if run b pt (snd d) (Suc k) = Suc k then {cell b pt (snd d) (Suc k)} else {})"
proof -
  have "cell b pt e ` {1..run b pt e (Suc k)} =
      cell b pt e ` {1..run b pt e k} \<union> (if run b pt e (Suc k) = Suc k then {cell b pt e (Suc k)} else {})" for e
    using run_step [of b pt e k] by (auto simp: atLeastAtMostSuc_conv)
  from this [of "fst d"] this [of "snd d"] show ?thesis unfolding cells_def by auto
qed

lemma both_step:
  "both b pt d (Suc k) = both b pt d k + (if run b pt (fst d) (Suc k) = Suc k then 1 else 0) +
     (if run b pt (snd d) (Suc k) = Suc k then 1 else 0)"
  using run_step [of b pt "fst d" k] run_step [of b pt "snd d" k] by (auto simp: both_def)

lemma safe_room:
  assumes "safe b pt n d" "both b pt d k < n" "n \<le> both b pt d (Suc k)"
  shows "both b pt d (Suc k) = n"
proof -
  have "run b pt (fst d) (Suc k) = 0 \<or> run b pt (snd d) (Suc k) = 0" using assms(1,3) by (auto simp: safe_def) (meson not_le)
  then show ?thesis using both_step [of b pt d k] assms(2,3) by (auto split: if_splits)
qed

lemma scan_line_spec:
  assumes ok: "board_ok b" "in_board b (pt_x pt) (pt_y pt)" "dir_ok (fst d)" "dir_ok (snd d)"
    and l: "line_inv b pt n k d l" and safe: "safe b pt n d"
  shows "\<exists>r l'. scan_line b pt n (int (Suc k)) d l = Inr (r, l') \<and>
    (if n \<le> both b pt d (Suc k) then \<exists>ps. r = Some ps \<and> length ps = n \<and> set ps = cells b pt d (Suc k) \<and> both b pt d (Suc k) = n
     else r = None \<and> line_inv b pt n (Suc k) d l')"
proof (cases "\<not> off1 l \<or> \<not> off2 l")
  case False
  then have "run b pt (fst d) k < k" "run b pt (snd d) k < k" using l by (auto simp: line_inv_def side_inv_def)
  then have "both b pt d (Suc k) = both b pt d k" "cells b pt d (Suc k) = cells b pt d k"
    "run b pt (fst d) (Suc k) < Suc k" "run b pt (snd d) (Suc k) < Suc k"
    using run_step [of b pt "fst d" k] run_step [of b pt "snd d" k] by (auto simp: both_def cells_def)
  then have "line_inv b pt n (Suc k) d l" "both b pt d (Suc k) < n" using l False by (auto simp: line_inv_def side_inv_def)
  then show ?thesis using False by (auto simp: scan_line_def)
next
  case True
  let ?a = "if run b pt (fst d) (Suc k) = Suc k then [cell b pt (fst d) (Suc k)] else []"
  let ?c = "if run b pt (snd d) (Suc k) = Suc k then [cell b pt (snd d) (Suc k)] else []"
  have len: "length (found l) = both b pt d k" "both b pt d k < n" "set (found l) = cells b pt d k" using l by (auto simp: line_inv_def)
  have "side_inv b pt (fst d) (off1 l) k" "run b pt (fst d) (Suc k) = Suc k \<longrightarrow> length (found l) < n" using l len by (auto simp: line_inv_def)
  from scan_side_spec [OF ok(1-3) this] obtain o1 where o1:
    "scan_side b pt n (int (Suc k)) (fst d) (off1 l, found l) = Inr (o1, found l @ ?a)" "side_inv b pt (fst d) o1 (Suc k)" by blast
  have le: "both b pt d (Suc k) \<le> n"
    using safe_room [OF safe len(2)] by (cases "n \<le> both b pt d (Suc k)") auto
  have "run b pt (snd d) (Suc k) = Suc k \<longrightarrow> length (found l @ ?a) < n"
    using both_step [of b pt d k] le len by (auto split: if_splits)
  moreover have "side_inv b pt (snd d) (off2 l) k" using l by (auto simp: line_inv_def)
  ultimately obtain o2 where o2: "scan_side b pt n (int (Suc k)) (snd d) (off2 l, found l @ ?a) = Inr (o2, (found l @ ?a) @ ?c)"
    "side_inv b pt (snd d) o2 (Suc k)" using scan_side_spec [OF ok(1,2,4)] by blast
  let ?ps = "(found l @ ?a) @ ?c" and ?l = "\<lparr>off1 = o1, off2 = o2, found = (found l @ ?a) @ ?c\<rparr>"
  have ps: "length ?ps = both b pt d (Suc k)" "set ?ps = cells b pt d (Suc k)"
    using both_step [of b pt d k] cells_step [of b pt d k] len by auto
  have st: "scan_line b pt n (int (Suc k)) d l = Inr (if length ?ps \<ge> n then Some (take n ?ps) else None, ?l)"
    unfolding scan_line_def using True o1(1) o2(1) by simp
  show ?thesis
  proof (cases "n \<le> both b pt d (Suc k)")
    case True
    then have "take n ?ps = ?ps" "both b pt d (Suc k) = n" using le ps(1) by simp_all
    then show ?thesis using True ps st by auto
  next
    case False
    then show ?thesis using ps st o1(2) o2(2) by (auto simp: line_inv_def)
  qed
qed

section \<open>The search from one stone\<close>

lemma scan_lines_spec:
  assumes ok: "board_ok b" "in_board b (pt_x pt) (pt_y pt)"
    and ds: "\<forall>d \<in> set ds. dir_ok (fst d) \<and> dir_ok (snd d) \<and> safe b pt n d"
    and l: "list_all2 (line_inv b pt n k) ds ls"
  shows "\<exists>r ls'. scan_lines b pt n (int (Suc k)) ds ls = Inr (r, ls') \<and>
    (case r of Some ps \<Rightarrow> \<exists>d \<in> set ds. length ps = n \<and> set ps = cells b pt d (Suc k) \<and> both b pt d (Suc k) = n
     | None \<Rightarrow> list_all2 (line_inv b pt n (Suc k)) ds ls')"
  using l ds
proof (induction ds ls rule: list_all2_induct)
  case (Cons d ds l ls)
  from Cons.prems Cons.hyps(1) scan_line_spec [OF ok, of d n k l] obtain r l' where
    r: "scan_line b pt n (int (Suc k)) d l = Inr (r, l')"
    "if n \<le> both b pt d (Suc k) then \<exists>ps. r = Some ps \<and> length ps = n \<and> set ps = cells b pt d (Suc k) \<and> both b pt d (Suc k) = n
     else r = None \<and> line_inv b pt n (Suc k) d l'" by auto
  from Cons.IH Cons.prems obtain r2 ls' where r2: "scan_lines b pt n (int (Suc k)) ds ls = Inr (r2, ls')"
    "case r2 of Some ps \<Rightarrow> \<exists>d \<in> set ds. length ps = n \<and> set ps = cells b pt d (Suc k) \<and> both b pt d (Suc k) = n
     | None \<Rightarrow> list_all2 (line_inv b pt n (Suc k)) ds ls'" by auto
  show ?case
  proof (cases r)
    case None
    then have "line_inv b pt n (Suc k) d l'" using r(2) by (auto split: if_splits)
    then show ?thesis using None r(1) r2 by (auto split: option.splits)
  next
    case (Some ps)
    then show ?thesis using r by (auto split: if_splits)
  qed
qed simp

lemma both_stays:
  assumes pt: "in_board b (pt_x pt) (pt_y pt)" and d: "dir_ok (fst d)" "dir_ok (snd d)"
    and out: "\<not> (pt_x pt + int (Suc k) < int (bW b) \<or> pt_y pt + int (Suc k) < int (bH b) \<or>
      pt_x pt - int (Suc k) > - 1 \<or> pt_y pt - int (Suc k) > - 1)"
    and lt: "both b pt d k < n"
  shows "both b pt d m < n"
proof -
  have off: "\<not> ray b (hit pt) (pt_x pt) (pt_y pt) e j" if "dir_ok e" "k < j" for e j
    using that out pt by (auto simp: ray_def stone_def in_board_def dir_ok_def)
  have "run b pt e m \<le> run b pt e k" if "dir_ok e" for e
  proof (cases "k \<le> m")
    case True
    then show ?thesis using pre_stays [of k "ray b (hit pt) (pt_x pt) (pt_y pt) e" m] off [OF that] by (simp add: run_def)
  next
    case False
    have "pre P m \<le> pre P k" if "m \<le> k" for P using that
      by (induction k) (auto simp: le_Suc_eq le_SucI pre_le)
    then show ?thesis using False by (simp add: run_def)
  qed
  from this [OF d(1)] this [OF d(2)] lt show ?thesis by (simp add: both_def)
qed

lemma find_first_loop_spec:
  assumes "board_ok b" "in_board b (pt_x pt) (pt_y pt)" "\<forall>d \<in> set dirs. safe b pt n d"
    "list_all2 (line_inv b pt n k) dirs ls" "K = int (Suc k)"
  shows "\<exists>r. find_first_loop b pt n K ls = Inr r \<and>
    (case r of Some ps \<Rightarrow> \<exists>d \<in> set dirs. \<exists>k. length ps = n \<and> set ps = cells b pt d k \<and> both b pt d k = n
     | None \<Rightarrow> \<forall>d \<in> set dirs. \<forall>k. both b pt d k < n)"
  using assms
proof (induction b pt n K ls arbitrary: k rule: find_first_loop.induct)
  case (1 b pt n K ls)
  note ok = "1.prems"(1,2)
  have ds: "\<forall>d \<in> set dirs. dir_ok (fst d) \<and> dir_ok (snd d) \<and> safe b pt n d" using dirs_ok "1.prems"(3) by auto
  have "\<exists>l. line_inv b pt n k d l" if "d \<in> set dirs" for d
    using "1.prems"(4) that by (metis list_all2_conv_all_nth in_set_conv_nth)
  then have lt: "\<forall>d \<in> set dirs. both b pt d k < n" by (auto simp: line_inv_def)
  show ?case
  proof (cases "pt_x pt + K < int (bW b) \<or> pt_y pt + K < int (bH b) \<or> pt_x pt - K > - 1 \<or> pt_y pt - K > - 1")
    case False
    then have "find_first_loop b pt n K ls = Inr None" by (subst find_first_loop.simps) simp
    moreover have "\<forall>d \<in> set dirs. \<forall>m. both b pt d m < n"
      using both_stays [OF ok(2)] ds lt False "1.prems"(5) by blast
    ultimately show ?thesis by auto
  next
    case True
    from scan_lines_spec [OF ok ds "1.prems"(4)] obtain r ls' where r: "scan_lines b pt n K dirs ls = Inr (r, ls')"
      "case r of Some ps \<Rightarrow> \<exists>d \<in> set dirs. length ps = n \<and> set ps = cells b pt d (Suc k) \<and> both b pt d (Suc k) = n
       | None \<Rightarrow> list_all2 (line_inv b pt n (Suc k)) dirs ls'" using "1.prems"(5) by auto
    show ?thesis
    proof (cases r)
      case None
      have lv: "loop_vars pt (K + 1) = Inr ()"
        using True ok "1.prems"(5) by (intro loop_vars_in [of b]) (auto simp: board_ok_def in_board_def)
      then have "find_first_loop b pt n K ls = find_first_loop b pt n (K + 1) ls'"
        using True r(1) None by (subst find_first_loop.simps) simp
      moreover have "K + 1 = int (Suc (Suc k))" using "1.prems"(5) by simp
      ultimately show ?thesis using "1.IH" [OF True r(1) refl None lv ok "1.prems"(3), of "Suc k"] r(2) None by simp
    next
      case (Some ps)
      then have "find_first_loop b pt n K ls = Inr (Some ps)" using True r(1) by (subst find_first_loop.simps) simp
      then show ?thesis using r(2) Some by auto
    qed
  qed
qed

lemma chess_board_find_first_spec:
  assumes "board_ok b" "in_board b (pt_x pt) (pt_y pt)" "\<forall>d \<in> set dirs. safe b pt n d" "0 < n"
  shows "\<exists>r. chess_board_find_first b pt n = Inr r \<and>
    (case r of Some ps \<Rightarrow> \<exists>d \<in> set dirs. \<exists>k. length ps = n \<and> set ps = cells b pt d k \<and> both b pt d k = n
     | None \<Rightarrow> \<forall>d \<in> set dirs. \<forall>k. both b pt d k < n)"
proof -
  have "line_inv b pt n 0 d no_line" for d
    using assms(4) by (simp add: line_inv_def no_line_def side_inv_def run_def both_def cells_def)
  then have "list_all2 (line_inv b pt n 0) dirs (replicate 4 no_line)"
    by (simp add: dirs_def list_all2_Cons1 numeral_eq_Suc)
  moreover have "loop_vars pt 1 = Inr ()" using assms(1,2) by (intro loop_vars_in [of b]) (auto simp: board_ok_def in_board_def)
  ultimately show ?thesis using find_first_loop_spec [OF assms(1-3), of 0] by (simp add: chess_board_find_first_def)
qed

section \<open>The search over the board\<close>

text \<open>A cell is quiet when no line through it is long enough.\<close>

definition quiet :: "chess_board \<Rightarrow> nat \<Rightarrow> nat \<Rightarrow> bool" where
  "quiet b n j \<longleftrightarrow> hit (pts b ! j) = 0 \<or> (\<forall>d \<in> set dirs. \<forall>k. both b (pts b ! j) d k < n)"

text \<open>For each line, the side that comes earlier in the walk, and the other one.\<close>

definition early :: "(int \<times> int) \<times> int \<times> int \<Rightarrow> int \<times> int" where
  "early d = (if snd (fst d) = 1 then snd d else fst d)"

definition late :: "(int \<times> int) \<times> int \<times> int \<Rightarrow> int \<times> int" where
  "late d = (if snd (fst d) = 1 then fst d else snd d)"

lemma both_early: "both b pt d k = run b pt (early d) k + run b pt (late d) k"
  by (simp add: both_def early_def late_def)

lemma safe_early: "(\<forall>k. both b pt d k < n) \<or> (\<forall>k. run b pt (early d) k = 0) \<Longrightarrow> safe b pt n d"
  by (auto simp: safe_def early_def split: if_splits)

lemma early_pos:
  assumes "d \<in> set dirs" "in_board b x y" "0 < a" "in_board b (x + int a * fst (early d)) (y + int a * snd (early d))"
  shows "pos b (x + int a * fst (early d)) (y + int a * snd (early d)) < pos b x y"
proof -
  let ?x = "x + int a * fst (early d)" and ?y = "y + int a * snd (early d)"
  have "?y = y \<and> ?x < x \<or> ?y \<le> y - 1" using assms(1,3) by (auto simp: dirs_def early_def)
  then have "?y * int (bW b) + ?x < y * int (bW b) + x"
  proof
    assume "?y \<le> y - 1"
    then have "?y * int (bW b) \<le> (y - 1) * int (bW b)" by (intro mult_right_mono) auto
    then show ?thesis using assms(2,4) by (simp add: in_board_def algebra_simps)
  qed auto
  then show ?thesis using pos_bound(3) [OF assms(2)] pos_bound(3) [OF assms(4)] by linarith
qed

lemma ray_back:
  assumes e: "fst f = - fst e" "snd f = - snd e" and st: "stone b x y = Some h"
    and a: "a = pre (ray b h x y e) k" and c: "c = pre (ray b h x y f) k"
  shows "pre (ray b h (x + int a * fst e) (y + int a * snd e) f) (a + c) = a + c"
proof (rule pre_full)
  fix j assume j: "0 < j" "j \<le> a + c"
  consider "j < a" | "j = a" | "a < j" by linarith
  then show "ray b h (x + int a * fst e) (y + int a * snd e) f j"
  proof cases
    case 1
    then have "ray b h x y e (a - j)" using pre_holds [of "a - j" "ray b h x y e" k] a by simp
    moreover have "int (a - j) = int a - int j" using 1 by simp
    ultimately show ?thesis using e by (simp add: ray_def algebra_simps)
  next
    case 2
    then show ?thesis using st e by (simp add: ray_def)
  next
    case 3
    then have "ray b h x y f (j - a)" using pre_holds [of "j - a" "ray b h x y f" k] c j by simp
    moreover have "int (j - a) = int j - int a" using 3 by simp
    ultimately show ?thesis using e by (simp add: ray_def algebra_simps)
  qed
qed

lemma dirs_opposite: "d \<in> set dirs \<Longrightarrow> fst (late d) = - fst (early d) \<and> snd (late d) = - snd (early d)"
  by (auto simp: dirs_def early_def late_def)

lemma quiet_safe:
  assumes ok: "board_ok b" and j: "j < bH b * bW b" "hit (pts b ! j) \<noteq> 0" and before: "\<forall>i < j. quiet b n i" and d: "d \<in> set dirs" and n: "0 < n"
  shows "safe b (pts b ! j) n d"
proof (rule safe_early, rule disjCI)
  let ?pt = "pts b ! j" and ?e = "early d"
  let ?x = "pt_x ?pt" and ?y = "pt_y ?pt" and ?h = "hit ?pt"
  assume "\<not> (\<forall>k. run b ?pt ?e k = 0)"
  then have P1: "ray b ?h ?x ?y ?e 1" using pre_zero by (fastforce simp: run_def)
  note xy = board_cell [OF ok j(1)]
  have st: "stone b ?x ?y = Some ?h" using xy by (simp add: stone_def)
  show "\<forall>k. both b ?pt d k < n"
  proof
    fix k
    define a where "a = run b ?pt ?e k"
    define c where "c = run b ?pt (late d) k"
    show "both b ?pt d k < n"
    proof (cases "a = 0")
      case True
      then have "k = 0" using pre_pos [of "ray b ?h ?x ?y ?e" k] P1 by (cases k) (auto simp: a_def run_def)
      then show ?thesis using n by (simp add: both_def run_def)
    next
      case False
      let ?x' = "?x + int a * fst ?e" and ?y' = "?y + int a * snd ?e"
      have "ray b ?h ?x ?y ?e a" using pre_holds [of a "ray b ?h ?x ?y ?e" k] False by (simp add: a_def run_def)
      then have in': "in_board b ?x' ?y'" and h': "hit (pts b ! pos b ?x' ?y') = ?h"
        by (auto simp: ray_def stone_def split: if_splits)
      let ?i = "pos b ?x' ?y'"
      have i: "?i < j" using early_pos [OF d xy(1) _ in'] False xy(2) by simp
      have xi: "pt_x (pts b ! ?i) = ?x'" "pt_y (pts b ! ?i) = ?y'" using board_pos [OF ok in'] by auto
      have "both b (pts b ! ?i) d (a + c) < n" using before i h' j(2) d by (auto simp: quiet_def)
      moreover have "run b (pts b ! ?i) (late d) (a + c) = a + c"
        unfolding run_def xi h'
        by (rule ray_back [OF _ _ st, where k = k]) (use dirs_opposite [OF d] in \<open>simp_all add: a_def c_def run_def\<close>)
      ultimately show ?thesis unfolding both_early by (simp add: a_def c_def)
    qed
  qed
qed

definition marked :: "chess_board \<Rightarrow> nat set \<Rightarrow> chess_board" where
  "marked b A = b\<lparr>pts := map (\<lambda>i. if i \<in> A then (pts b ! i)\<lparr>win := 1\<rparr> else pts b ! i) [0..<length (pts b)]\<rparr>"

lemma mark_spec: "set is \<subseteq> {..<length (pts b)} \<Longrightarrow> mark b is = Inr (marked b (set is))"
proof (induction "is" arbitrary: b)
  case Nil
  then show ?case by (simp add: marked_def map_nth)
next
  case (Cons i "is")
  let ?b = "b\<lparr>pts := (pts b)[i := (pts b ! i)\<lparr>win := 1\<rparr>]\<rparr>"
  have "mark b (i # is) = mark ?b is" using Cons.prems by (simp add: load_def store_def)
  also have "\<dots> = Inr (marked ?b (set is))" using Cons by simp
  also have "marked ?b (set is) = marked b (set (i # is))"
  proof -
    have "pts (marked ?b (set is)) = pts (marked b (set (i # is)))"
      using Cons.prems by (auto simp: marked_def nth_list_update)
    then show ?thesis by (simp add: marked_def)
  qed
  finally show ?case .
qed

text \<open>What a search reports: nothing, and then the cells it passed are quiet, or a marked row.\<close>

definition row_cells :: "chess_board \<Rightarrow> nat \<Rightarrow> int \<Rightarrow> int \<Rightarrow> int \<Rightarrow> int \<Rightarrow> nat set" where
  "row_cells b n x y dx dy = (\<lambda>i. pos b (x + int i * dx) (y + int i * dy)) ` {..<n}"

definition reports :: "chess_board \<Rightarrow> nat \<Rightarrow> nat list \<times> chess_board \<Rightarrow> bool" where
  "reports b n r \<longleftrightarrow> length (fst r) = n - 1 \<and>
     (\<exists>x y dx dy. is_row b n x y dx dy \<and> snd r = marked b (row_cells b n x y dx dy))"

lemma found_row:
  assumes ok: "board_ok b" and j: "j < bH b * bW b" "hit (pts b ! j) \<noteq> 0" and d: "d \<in> set dirs" and k: "both b (pts b ! j) d k = n"
  shows "\<exists>x y. is_row b (Suc n) x y (fst (snd d)) (snd (snd d)) \<and>
    row_cells b (Suc n) x y (fst (snd d)) (snd (snd d)) = insert j (cells b (pts b ! j) d k)"
proof -
  let ?pt = "pts b ! j"
  define a where "a = run b ?pt (fst d) k"
  define c where "c = run b ?pt (snd d) k"
  have n: "n = a + c" using k by (simp add: both_def a_def c_def)
  let ?dx = "fst (snd d)" and ?dy = "snd (snd d)"
  have e: "fst (fst d) = - ?dx" "snd (fst d) = - ?dy" using dirs_ok [OF d] by auto
  let ?x = "pt_x ?pt - int a * ?dx" and ?y = "pt_y ?pt - int a * ?dy"
  note xy = board_cell [OF ok j(1)]
  have st: "stone b (pt_x ?pt) (pt_y ?pt) = Some (hit ?pt)" using xy by (simp add: stone_def)
  have f1: "ray b (hit ?pt) (pt_x ?pt) (pt_y ?pt) (fst d) i" if "0 < i" "i \<le> a" for i
    using that pre_holds by (auto simp: a_def run_def)
  have f2: "ray b (hit ?pt) (pt_x ?pt) (pt_y ?pt) (snd d) i" if "0 < i" "i \<le> c" for i
    using that pre_holds by (auto simp: c_def run_def)
  have ax: "?x + int i * ?dx = pt_x ?pt + (if i < a then int (a - i) * fst (fst d) else int (i - a) * ?dx)" for i
    using e(1) by (auto simp: algebra_simps of_nat_diff)
  have ay: "?y + int i * ?dy = pt_y ?pt + (if i < a then int (a - i) * snd (fst d) else int (i - a) * ?dy)" for i
    using e(2) by (auto simp: algebra_simps of_nat_diff)
  have all: "stone b (?x + int i * ?dx) (?y + int i * ?dy) = Some (hit ?pt)" if "i < Suc n" for i
  proof -
    consider "i < a" | "i = a" | "a < i" by linarith
    then show ?thesis unfolding ax ay using f1 [of "a - i"] f2 [of "i - a"] st that n by cases (auto simp: ray_def)
  qed
  have "(?dx, ?dy) \<in> {(1, 0), (0, 1), (1, 1), (1, - 1)}" using d by (auto simp: dirs_def)
  then have row: "is_row b (Suc n) ?x ?y ?dx ?dy" using all j(2) by (auto simp: is_row_def)
  have p: "pos b (?x + int i * ?dx) (?y + int i * ?dy) =
      (if i < a then cell b ?pt (fst d) (a - i) else cell b ?pt (snd d) (i - a))" for i
    unfolding ax ay by (simp add: cell_def)
  have z: "cell b ?pt (snd d) 0 = j" using xy by (simp add: cell_def)
  have "row_cells b (Suc n) ?x ?y ?dx ?dy = cell b ?pt (fst d) ` {1..a} \<union> {j} \<union> cell b ?pt (snd d) ` {1..c}" (is "?L = ?R")
  proof (rule set_eqI, rule iffI)
    fix q assume "q \<in> ?L"
    then obtain i where "i < Suc n" "q = (if i < a then cell b ?pt (fst d) (a - i) else cell b ?pt (snd d) (i - a))"
      by (auto simp: row_cells_def p)
    then consider "q = cell b ?pt (fst d) (a - i)" "a - i \<in> {1..a}" | "q = j" | "q = cell b ?pt (snd d) (i - a)" "i - a \<in> {1..c}"
      using n z by (cases "i < a"; cases "i = a") (auto simp: Suc_le_eq)
    then show "q \<in> ?R" by cases blast+
  next
    fix q assume "q \<in> ?R"
    then consider m where "q = cell b ?pt (fst d) m" "1 \<le> m" "m \<le> a" | "q = j" | m where "q = cell b ?pt (snd d) m" "1 \<le> m" "m \<le> c" by auto
    then have "\<exists>i < Suc n. q = (if i < a then cell b ?pt (fst d) (a - i) else cell b ?pt (snd d) (i - a))"
    proof cases
      case (1 m)
      then show ?thesis using n by (intro exI [of _ "a - m"]) auto
    next
      case 2
      then show ?thesis using n z by (intro exI [of _ a]) auto
    next
      case (3 m)
      then show ?thesis using n by (intro exI [of _ "a + m"]) auto
    qed
    then show "q \<in> ?L" by (auto simp: row_cells_def p)
  qed
  then show ?thesis using row by (intro exI conjI) (auto simp: cells_def a_def c_def)
qed

lemma find_cols_spec:
  assumes "board_ok b" "j + c \<le> bH b * bW b" "\<forall>i < j. quiet b (n - 1) i" "2 \<le> n"
  shows "\<exists>r. find_cols b n j c = Inr r \<and>
    (case r of None \<Rightarrow> \<forall>i < j + c. quiet b (n - 1) i | Some x \<Rightarrow> reports b n x)"
  using assms
proof (induction c arbitrary: j)
  case (Suc c)
  let ?pt = "pts b ! j"
  have j: "j < bH b * bW b" "load (pts b) j = Inr ?pt" using Suc.prems(1,2) by (auto simp: board_ok_def load_def)
  have skip: ?case if "find_cols b n j (Suc c) = find_cols b n (Suc j) c" "quiet b (n - 1) j"
  proof -
    have "\<forall>i < Suc j. quiet b (n - 1) i" using Suc.prems(3) that(2) by (auto simp: less_Suc_eq)
    then show ?thesis unfolding that(1) using Suc.IH [of "Suc j"] Suc.prems by (simp only: add_Suc add_Suc_right)
  qed
  show ?case
  proof (cases "hit ?pt = 0")
    case True
    then show ?thesis using skip j(2) by (simp add: quiet_def)
  next
    case False
    have "\<forall>d \<in> set dirs. safe b ?pt (n - 1) d"
      using quiet_safe [OF Suc.prems(1) j(1) False Suc.prems(3)] Suc.prems(4) by auto
    from chess_board_find_first_spec [OF Suc.prems(1) board_cell(1) [OF Suc.prems(1) j(1)] this] Suc.prems(4)
    obtain r where r: "chess_board_find_first b ?pt (n - 1) = Inr r"
      "case r of Some ps \<Rightarrow> \<exists>d \<in> set dirs. \<exists>k. length ps = n - 1 \<and> set ps = cells b ?pt d k \<and> both b ?pt d k = n - 1
       | None \<Rightarrow> \<forall>d \<in> set dirs. \<forall>k. both b ?pt d k < n - 1" by auto
    show ?thesis
    proof (cases r)
      case None
      then show ?thesis using skip j(2) r False by (simp add: quiet_def)
    next
      case (Some ps)
      then obtain d k where d: "d \<in> set dirs" "length ps = n - 1" "set ps = cells b ?pt d k" "both b ?pt d k = n - 1" using r(2) by auto
      from found_row [OF Suc.prems(1) j(1) False d(1,4)] Suc.prems(4) obtain x y where
        row: "is_row b n x y (fst (snd d)) (snd (snd d))" "row_cells b n x y (fst (snd d)) (snd (snd d)) = set (j # ps)"
        using d(3) by auto
      have "set (j # ps) \<subseteq> {..<length (pts b)}"
        unfolding row(2) [symmetric] using row(1) pos_bound(2) Suc.prems(1)
        by (fastforce simp: row_cells_def is_row_def stone_def board_ok_def split: if_splits)
      from mark_spec [OF this] have "find_cols b n j (Suc c) = Inr (Some (ps, marked b (set (j # ps))))"
        using j(2) r(1) Some False by simp
      then show ?thesis using row d(2) by (force simp: reports_def)
    qed
  qed
qed simp

lemma find_rows_spec:
  assumes "board_ok b" "i + r = bH b" "\<forall>j < i * bW b. quiet b (n - 1) j" "2 \<le> n"
  shows "\<exists>x. find_rows b n i r = Inr x \<and>
    (case x of None \<Rightarrow> \<forall>j < bH b * bW b. quiet b (n - 1) j | Some y \<Rightarrow> reports b n y)"
  using assms
proof (induction r arbitrary: i)
  case (Suc r)
  have "i * bW b + bW b = Suc i * bW b" by simp
  also have "\<dots> \<le> bH b * bW b" using Suc.prems(2) by (intro mult_right_mono) auto
  finally have room: "i * bW b + bW b \<le> bH b * bW b" .
  from find_cols_spec [OF Suc.prems(1) room Suc.prems(3,4)] obtain res where
    res: "find_cols b n (i * bW b) (bW b) = Inr res"
    "case res of None \<Rightarrow> \<forall>j < i * bW b + bW b. quiet b (n - 1) j | Some x \<Rightarrow> reports b n x" by blast
  have "imul i (bW b) = Inr (i * bW b)" "imul (Suc i) (bW b) = Inr (Suc i * bW b)" "Suc i * bW b - i * bW b = bW b"
    using row_index [of b i] Suc.prems(1,2) by (auto simp: board_ok_def)
  note ix = this
  show ?case
  proof (cases res)
    case None
    then show ?thesis using res ix Suc.IH [of "Suc i"] Suc.prems by (simp add: add.commute)
  next
    case (Some x)
    then show ?thesis using res ix by simp
  qed
qed simp

lemma is_row_not_quiet:
  assumes ok: "board_ok b" and row: "is_row b (Suc n) x y dx dy"
  shows "\<exists>j < bH b * bW b. \<not> quiet b n j"
proof -
  from row obtain h where h: "h \<noteq> 0" "\<forall>i < Suc n. stone b (x + int i * dx) (y + int i * dy) = Some h" and
    "(dx, dy) \<in> {(1, 0), (0, 1), (1, 1), (1, - 1)}" by (auto simp: is_row_def)
  then have "\<exists>d \<in> set dirs. snd d = (dx, dy)" by (auto simp: dirs_def)
  then obtain d where d: "d \<in> set dirs" "snd d = (dx, dy)" by blast
  let ?j = "pos b x y"
  from h(2) have "stone b x y = Some h" by force
  then have xy: "in_board b x y" "hit (pts b ! ?j) = h" by (auto simp: stone_def split: if_splits)
  have "ray b h x y (dx, dy) i" if "i \<le> n" for i using h(2) that by (simp add: ray_def)
  then have "run b (pts b ! ?j) (snd d) n = n"
    unfolding run_def d(2) using board_pos [OF ok xy(1)] xy(2) by (auto intro!: pre_full)
  then have "\<not> both b (pts b ! ?j) d n < n" by (simp add: both_def)
  then show ?thesis using d(1) h(1) xy pos_bound(2) [OF xy(1)] by (auto simp: quiet_def)
qed

lemma quiet_no_row:
  assumes ok: "board_ok b" and row: "is_row b n x y dx dy" and n: "2 \<le> n" and q: "\<forall>j < bH b * bW b. quiet b (n - 1) j"
  shows False
  using is_row_not_quiet [OF ok, of "n - 1" x y dx dy] row n q by auto

text \<open>C12: on every board whose cells carry their own coordinates, of fewer than \<open>2\<^sup>3\<^sup>1\<close> cells and with sides below \<open>2\<^sup>3\<^sup>0\<close>, so that no index leaves the type
  \<open>int\<close>, and for every length of at least two,
  the search runs without touching memory outside its arrays; it reports a win exactly if \<open>n\<close> stones of
  one colour stand in a row, column or diagonal, it hands the caller \<open>n - 1\<close> cells, and it marks the
  cells of such a row and no other cell.
\<close>

theorem chess_board_find_correct:
  assumes "board_ok b" "2 \<le> n"
  shows "\<exists>r. chess_board_find b n = Inr r \<and> (r \<noteq> None \<longleftrightarrow> (\<exists>x y dx dy. is_row b n x y dx dy)) \<and>
    (\<forall>ps b'. r = Some (ps, b') \<longrightarrow> length ps = n - 1 \<and>
      (\<exists>x y dx dy. is_row b n x y dx dy \<and> b' = marked b (row_cells b n x y dx dy)))"
proof -
  from find_rows_spec [of b 0 "bH b" n] assms obtain r where r: "chess_board_find b n = Inr r"
    "case r of None \<Rightarrow> \<forall>j < bH b * bW b. quiet b (n - 1) j | Some y \<Rightarrow> reports b n y"
    by (auto simp: chess_board_find_def)
  show ?thesis
  proof (cases r)
    case None
    then have "\<nexists>x y dx dy. is_row b n x y dx dy" using r(2) quiet_no_row [OF assms(1) _ assms(2)] by auto
    then show ?thesis using r(1) None by auto
  next
    case (Some y)
    then have "reports b n y" using r(2) by simp
    then obtain x z dx dy where "length (fst y) = n - 1" "is_row b n x z dx dy" "snd y = marked b (row_cells b n x z dx dy)"
      unfolding reports_def by blast
    then show ?thesis unfolding r(1) Some by (intro exI [of _ "Some y"]) (cases y; auto; blast)
  qed
qed

section \<open>A new game\<close>

definition fresh_pt :: "nat \<Rightarrow> nat \<Rightarrow> chess_pt" where
  "fresh_pt w j = \<lparr>pt_x = int (j mod w), pt_y = int (j div w), hit = 0, win = 0\<rparr>"

lemma reset_cols_spec:
  assumes "j + c \<le> length (pts b)" "\<forall>k < c. (j + k) div bW b = i"
  shows "reset_cols b i j c = Inr (b\<lparr>pts := take j (pts b) @ map (fresh_pt (bW b)) [j..<j + c] @ drop (j + c) (pts b)\<rparr>)"
  using assms
proof (induction c arbitrary: b j)
  case (Suc c)
  have i: "j div bW b = i" using Suc.prems(2) by (metis add_0_right zero_less_Suc)
  have "\<forall>k < c. (Suc j + k) div bW b = i" using Suc.prems(2) by (metis Suc_mono add_Suc_right add_Suc)
  moreover have "reset_cols b i j (Suc c) = reset_cols (b\<lparr>pts := (pts b)[j := fresh_pt (bW b) j]\<rparr>) i (Suc j) c"
    using Suc.prems i by (simp add: store_def fresh_pt_def)
  moreover have "take (Suc j) ((pts b)[j := v]) = take j (pts b) @ [v]" for v using Suc.prems(1) by (simp add: take_Suc_conv_app_nth)
  moreover have "[j..<j + Suc c] = j # [Suc j..<Suc j + c]" by (simp add: upt_conv_Cons)
  ultimately show ?case using Suc.IH [of "Suc j" "b\<lparr>pts := (pts b)[j := fresh_pt (bW b) j]\<rparr>"] Suc.prems(1) by simp
qed simp

lemma reset_rows_spec:
  assumes "(i + r) * bW b \<le> length (pts b)" "dims_ok b" "i + r \<le> bH b"
  shows "reset_rows b i r = Inr (b\<lparr>pts := take (i * bW b) (pts b) @ map (fresh_pt (bW b)) [i * bW b..<(i + r) * bW b] @ drop ((i + r) * bW b) (pts b)\<rparr>)"
  using assms
proof (induction r arbitrary: b i)
  case (Suc r)
  let ?w = "bW b"
  have le: "i * ?w + ?w \<le> (i + Suc r) * ?w" "(i + Suc r) * ?w = (Suc i + r) * ?w" by (simp_all add: add_mult_distrib)
  have "\<forall>k < ?w. (i * ?w + k) div ?w = i" by auto
  moreover have "i * ?w + ?w \<le> length (pts b)" using Suc.prems le by linarith
  ultimately have c: "reset_cols b i (i * ?w) ?w =
      Inr (b\<lparr>pts := take (i * ?w) (pts b) @ map (fresh_pt ?w) [i * ?w..<i * ?w + ?w] @ drop (i * ?w + ?w) (pts b)\<rparr>)"
    by (intro reset_cols_spec)
  have up: "[i * ?w..<(i + Suc r) * ?w] = [i * ?w..<Suc i * ?w] @ [Suc i * ?w..<(Suc i + r) * ?w]"
    using upt_add_eq_append [of "i * ?w" "Suc i * ?w" "r * ?w"] by (simp add: add_mult_distrib add.commute add.left_commute)
  let ?b = "b\<lparr>pts := take (i * ?w) (pts b) @ map (fresh_pt ?w) [i * ?w..<Suc i * ?w] @ drop (Suc i * ?w) (pts b)\<rparr>"
  have "imul i ?w = Inr (i * ?w)" "imul (Suc i) ?w = Inr (Suc i * ?w)" "Suc i * ?w - i * ?w = ?w"
    using row_index [of b i] Suc.prems(2,3) by auto
  then have "reset_rows b i (Suc r) = reset_rows ?b (Suc i) r" using c by (simp add: add.commute)
  moreover have "min (length (pts b)) (i * ?w) = i * ?w" "Suc i * ?w \<le> length (pts b)" using Suc.prems le by (simp_all add: min_def add_mult_distrib)
  moreover from this have "length (pts ?b) = length (pts b)" by simp
  moreover have "drop (?w + (i + r) * ?w) (take (i * ?w) (pts b)) = []" "?w + (i + r) * ?w - i * ?w \<ge> ?w"
    by (simp_all add: add_mult_distrib)
  moreover have "dims_ok ?b" using Suc.prems(2) by (simp add: dims_ok_def)
  ultimately show ?case using Suc.IH [of "Suc i" ?b] Suc.prems le up by (simp add: add.commute)
qed simp

text \<open>Resetting a board of \<open>H * W\<close> cells gives every cell its coordinates, removes every stone and
  every mark, and so gives a board on which the search is correct and finds nothing.
\<close>

theorem chess_board_reset_fresh:
  assumes "length (pts b) = bH b * bW b" "dims_ok b"
  shows "\<exists>b'. chess_board_reset b = Inr b' \<and> board_ok b' \<and> bW b' = bW b \<and> bH b' = bH b \<and>
    (\<forall>p \<in> set (pts b'). hit p = 0 \<and> win p = 0) \<and> (\<forall>n \<ge> 2. chess_board_find b' n = Inr None)"
proof -
  let ?b = "b\<lparr>pts := map (fresh_pt (bW b)) [0..<bH b * bW b]\<rparr>"
  have "chess_board_reset b = Inr ?b" using reset_rows_spec [of 0 "bH b" b] assms by (simp add: chess_board_reset_def)
  moreover have ok: "board_ok ?b" using assms(2) by (simp add: board_ok_def fresh_pt_def dims_ok_def)
  moreover have z: "\<forall>p \<in> set (pts ?b). hit p = 0 \<and> win p = 0" by (auto simp: fresh_pt_def)
  moreover have "chess_board_find ?b n = Inr None" if "2 \<le> n" for n
  proof -
    have "\<not> is_row ?b n x y dx dy" for x y dx dy
    proof
      assume "is_row ?b n x y dx dy"
      then obtain h where "h \<noteq> 0" "\<forall>i < n. stone ?b (x + int i * dx) (y + int i * dy) = Some h" by (auto simp: is_row_def)
      then have "stone ?b x y = Some h" "h \<noteq> 0" using that by force+
      moreover have "hit (pts ?b ! pos ?b x y) = 0" if "in_board ?b x y"
        using pos_bound(2) [OF that] by (simp add: fresh_pt_def)
      ultimately show False by (auto simp: stone_def split: if_splits)
    qed
    then have "\<not> reports ?b n y" for y by (simp add: reports_def)
    moreover from find_rows_spec [of ?b 0 "bH ?b" n] ok that obtain r where "chess_board_find ?b n = Inr r"
      "case r of None \<Rightarrow> True | Some y \<Rightarrow> reports ?b n y" by (fastforce simp: chess_board_find_def split: option.splits)
    ultimately show ?thesis by (cases r) auto
  qed
  ultimately show ?thesis by auto
qed

text \<open>A board of three by two with three equal stones in the second row.\<close>

definition sample :: chess_board where
  "sample = \<lparr>pts = map (\<lambda>j. (fresh_pt 3 j)\<lparr>hit := if 3 \<le> j then 2 else 0\<rparr>) [0..<6], bW = 3, bH = 2\<rparr>"

lemma sample_ok: "board_ok sample"
  by (simp add: board_ok_def dims_ok_def sample_def fresh_pt_def)

lemma sample_row: "is_row sample 3 0 1 1 0"
proof -
  have "stone sample 0 1 = Some 2" "stone sample 1 1 = Some 2" "stone sample 2 1 = Some 2" by code_simp+
  then have "\<forall>i < 3. stone sample (0 + int i * 1) (1 + int i * 0) = Some 2" by (simp add: numeral_3_eq_3 less_Suc_eq all_conj_distrib)
  then show ?thesis unfolding is_row_def by (intro conjI exI [of _ 2]) auto
qed

theorem chess_board_find_correct_witness:
  "board_ok sample \<and> (\<exists>r. chess_board_find sample 3 = Inr (Some r))"
proof -
  have "2 \<le> (3 :: nat)" by simp
  from chess_board_find_correct [OF sample_ok this] obtain r where
    "chess_board_find sample 3 = Inr r" "r \<noteq> None \<longleftrightarrow> (\<exists>x y dx dy. is_row sample 3 x y dx dy)" by blast
  moreover from this sample_row have "r \<noteq> None" by blast
  ultimately show ?thesis using sample_ok by auto
qed

theorem chess_board_reset_fresh_witness:
  "\<exists>b'. chess_board_reset sample = Inr b' \<and> board_ok b' \<and> chess_board_find b' 5 = Inr None"
proof -
  have "length (pts sample) = bH sample * bW sample" "dims_ok sample" by (simp_all add: sample_def dims_ok_def)
  from chess_board_reset_fresh [OF this] obtain b' where
    "chess_board_reset sample = Inr b'" "board_ok b'" "\<forall>n \<ge> 2. chess_board_find b' n = Inr None" by blast
  then show ?thesis by auto
qed

end
