(* ===== verification/Tries.thy ===== *)
theory Tries
  imports C_Prelude "HOL-Library.Sublist"
begin

text \<open>
  The two string symbol tables of \<^verbatim>\<open>src/algs/trie_st.cpp\<close>: the trie whose nodes
  hold an array of 256 children, and the ternary search trie.

  A C string is the list of its characters before the terminating zero, a \<open>char const *\<close> an option
  of it. Characters are signed, so the value of one lies between \<open>- 128\<close> and \<open>127\<close>; the trie uses it
  as an array index. \<open>calloc\<close> succeeds in the trie, which does not look at its result; the
  ternary trie does, and its allocator is a parameter there.

  The results: the trie is exactly the map of the puts made, except that a get of a key that was not put can
  still succeed, with the value 0; a character above 127 is an access outside the array. In the
  ternary trie, a put that needs a new node dereferences a null pointer, since the node allocator
  assigns to its own copy of the pointer; all other puts and all gets work.
\<close>

section \<open>The trie\<close>

datatype trie_st_node = Trie int "trie_st_node list option"

definition trie_st_node_alloc :: "nat \<Rightarrow> trie_st_node list" where
  "trie_st_node_alloc r = replicate r (Trie 0 None)"

fun trie_st_do_put :: "trie_st_node \<Rightarrow> int list \<Rightarrow> int \<Rightarrow> cerr + trie_st_node" where
  "trie_st_do_put (Trie v nx) [] val = Inr (Trie val nx)"
| "trie_st_do_put (Trie v nx) (c # key) val =
     (let arr = (case nx of None \<Rightarrow> trie_st_node_alloc 256 | Some arr \<Rightarrow> arr) in
      bindr (loadi arr c) (\<lambda>t.
      bindr (trie_st_do_put t key val) (\<lambda>t'.
      Inr (Trie v (Some (arr[nat c := t']))))))"

text \<open>The result is the value, or \<open>None\<close> for the return value -1.\<close>

fun trie_st_do_get :: "trie_st_node \<Rightarrow> int list \<Rightarrow> cerr + int option" where
  "trie_st_do_get (Trie v nx) [] = Inr (Some v)"
| "trie_st_do_get (Trie v nx) (c # key) =
     (case nx of None \<Rightarrow> Inr None | Some arr \<Rightarrow> bindr (loadi arr c) (\<lambda>t. trie_st_do_get t key))"

definition trie_st_put :: "trie_st_node \<Rightarrow> int list option \<Rightarrow> int \<Rightarrow> cerr + int \<times> trie_st_node" where
  "trie_st_put tr key val =
     (case key of None \<Rightarrow> Inr (- 1, tr)
      | Some k \<Rightarrow> if k = [] then Inr (- 1, tr) else bindr (trie_st_do_put tr k val) (\<lambda>tr. Inr (0, tr)))"

definition trie_st_get :: "trie_st_node \<Rightarrow> int list option \<Rightarrow> cerr + int option" where
  "trie_st_get tr key =
     (case key of None \<Rightarrow> Inr None | Some k \<Rightarrow> if k = [] then Inr None else trie_st_do_get tr k)"

definition c_string :: "string \<Rightarrow> int list option" where
  "c_string s = Some (map of_char s)"

definition test_keys :: "(int list option \<times> int) list" where
  "test_keys = map (\<lambda>(s, v). (c_string s, v)) [(''she'', 1), (''sells'', 2), (''sea'', 3), (''shells'', 4), (''by'', 5), (''the'', 666), (''sea'', 7), (''shore'', 8)]"

fun trie_st_puts :: "trie_st_node \<Rightarrow> (int list option \<times> int) list \<Rightarrow> cerr + trie_st_node" where
  "trie_st_puts tr [] = Inr tr"
| "trie_st_puts tr ((key, val) # kvs) = bindr (trie_st_put tr key val) (\<lambda>(r, tr). trie_st_puts tr kvs)"

text \<open>The test returns its exit code and the pairs it prints.\<close>

definition test_trie_st_main_1 :: "cerr + int \<times> (string \<times> int) list" where
  "test_trie_st_main_1 =
     bindr (trie_st_puts (Trie 0 None) test_keys) (\<lambda>tr.
     bindr (trie_st_get tr (c_string ''the'')) (\<lambda>r.
     case r of None \<Rightarrow> Inr (- 1, [])
     | Some val \<Rightarrow>
       bindr (trie_st_get tr (c_string ''that'')) (\<lambda>r'.
       case r' of None \<Rightarrow> Inr (- 1, [(''the'', val)])
       | Some val' \<Rightarrow> Inr (0, [(''the'', val), (''that'', val')]))))"

section \<open>The ternary search trie\<close>

datatype tst_node = Tst int int "tst_node option" "tst_node option" "tst_node option"

text \<open>The block of nodes in use, the next free node of it, and the number of blocks so far, which names a new one.\<close>

record tst_pool =
  gnodes :: "nat option"
  ginodes :: nat
  blocks :: nat

text \<open>The node count of a block of one megabyte, a node taking 32 bytes on a 64-bit machine.\<close>

definition tst_N :: nat where
  "tst_N = 1024 * 1024 div 32"

text \<open>The address found goes into a parameter passed by value: the caller sees the return value 0 only.\<close>

function tst_node_get :: "(nat \<Rightarrow> bool) \<Rightarrow> tst_pool \<Rightarrow> cerr + int \<times> tst_pool" where
  "tst_node_get oom s =
     (if gnodes s = None \<and> oom (blocks s) then Inl Exited else
      let s = (if gnodes s = None then s\<lparr>gnodes := Some (blocks s), blocks := Suc (blocks s)\<rparr> else s) in
      if ginodes s = tst_N - 1 then tst_node_get oom (s\<lparr>gnodes := None, ginodes := 0\<rparr>)
      else Inr (0, s\<lparr>ginodes := Suc (ginodes s)\<rparr>))"
  by pat_completeness auto
termination
  by (relation "measure (\<lambda>(oom, s). ginodes s)") (auto simp: tst_N_def split: if_splits)

declare tst_node_get.simps [simp del]

text \<open>The calls of the node with the first character; a null node is asked for a new one, and stays null.\<close>

function tst_do_put :: "(nat \<Rightarrow> bool) \<Rightarrow> tst_pool \<Rightarrow> tst_node option \<Rightarrow> int list \<Rightarrow> int \<Rightarrow> cerr + int \<times> tst_node option \<times> tst_pool" where
  "tst_do_put oom s None key val =
     bindr (load key 0) (\<lambda>c. bindr (tst_node_get oom s) (\<lambda>(r, s).
     if r \<noteq> 0 then Inr (- 1, None, s) else bindr (deref (None :: tst_node option)) (\<lambda>t. Inr (0, Some t, s))))"
| "tst_do_put oom s (Some (Tst tc v l m g)) key val =
     (case key of [] \<Rightarrow> Inl OutOfBounds
      | c # key' \<Rightarrow>
        if c < tc then bindr (tst_do_put oom s l key val) (\<lambda>(r, l, s). Inr (r, Some (Tst tc v l m g), s))
        else if c > tc then bindr (tst_do_put oom s g key val) (\<lambda>(r, g, s). Inr (r, Some (Tst tc v l m g), s))
        else if length key > 1 then bindr (tst_do_put oom s m key' val) (\<lambda>(r, m, s). Inr (r, Some (Tst tc v l m g), s))
        else Inr (0, Some (Tst tc val l m g), s))"
  by pat_completeness auto
termination
  by (relation "measure (\<lambda>(oom, s, t, key, val). size_option size t)") auto

definition tst_put :: "(nat \<Rightarrow> bool) \<Rightarrow> tst_pool \<Rightarrow> tst_node option \<Rightarrow> int list option \<Rightarrow> int \<Rightarrow> cerr + int \<times> tst_node option \<times> tst_pool" where
  "tst_put oom s tr key val =
     (case key of None \<Rightarrow> Inr (- 1, tr, s) | Some k \<Rightarrow> if k = [] then Inr (- 1, tr, s) else tst_do_put oom s tr k val)"

fun tst_do_get :: "tst_node option \<Rightarrow> int list \<Rightarrow> cerr + int option" where
  "tst_do_get None key = Inr None"
| "tst_do_get (Some (Tst tc v l m g)) key =
     (case key of [] \<Rightarrow> Inl OutOfBounds
      | c # key' \<Rightarrow>
        if c < tc then tst_do_get l key
        else if c > tc then tst_do_get g key
        else if length key > 1 then tst_do_get m key'
        else Inr (Some v))"

definition tst_get :: "tst_node option \<Rightarrow> int list option \<Rightarrow> cerr + int option" where
  "tst_get tr key =
     (case key of None \<Rightarrow> Inr None | Some k \<Rightarrow> if k = [] then Inr None else tst_do_get tr k)"

fun tst_puts :: "(nat \<Rightarrow> bool) \<Rightarrow> tst_pool \<Rightarrow> tst_node option \<Rightarrow> (int list option \<times> int) list \<Rightarrow> cerr + tst_node option \<times> tst_pool" where
  "tst_puts oom s tr [] = Inr (tr, s)"
| "tst_puts oom s tr ((key, val) # kvs) = bindr (tst_put oom s tr key val) (\<lambda>(r, tr, s). tst_puts oom s tr kvs)"

definition test_tst_main :: "(nat \<Rightarrow> bool) \<Rightarrow> cerr + int \<times> (string \<times> int) list" where
  "test_tst_main oom =
     bindr (tst_puts oom \<lparr>gnodes = None, ginodes = 0, blocks = 0\<rparr> None test_keys) (\<lambda>(tr, s).
     bindr (tst_get tr (c_string ''the'')) (\<lambda>r.
     case r of None \<Rightarrow> Inr (- 1, [])
     | Some val \<Rightarrow>
       bindr (tst_get tr (c_string ''that'')) (\<lambda>r'.
       case r' of None \<Rightarrow> Inr (- 1, [(''the'', val)])
       | Some val' \<Rightarrow> Inr (0, [(''the'', val), (''that'', val')]))))"

text \<open>The second return statement of the source is never reached.\<close>

definition test_trie_st_main :: "(nat \<Rightarrow> bool) \<Rightarrow> cerr + int \<times> (string \<times> int) list" where
  "test_trie_st_main oom = test_tst_main oom"

section \<open>Stores of key-value pairs\<close>

text \<open>
  What both tables promise for the keys a put is defined on: it succeeds, a get of that key then gives
  the value, a get of another key is as before, except that it may now succeed where the put made
  nodes, and the same keys stay allowed. \<open>look\<close> reads the value, \<open>found\<close> says whether a get succeeds.
\<close>

locale key_store =
  fixes put :: "'s \<Rightarrow> int list \<Rightarrow> int \<Rightarrow> cerr + 's"
    and look :: "'s \<Rightarrow> int list \<Rightarrow> int"
    and found :: "'s \<Rightarrow> int list \<Rightarrow> bool"
    and inv :: "'s \<Rightarrow> bool"
    and okey :: "'s \<Rightarrow> int list \<Rightarrow> bool"
    and grows :: "int list \<Rightarrow> int list \<Rightarrow> bool"
  assumes put_law: "inv s \<Longrightarrow> okey s k \<Longrightarrow>
    \<exists>s'. put s k v = Inr s' \<and> inv s' \<and> (\<forall>k'. okey s k' \<longrightarrow> okey s' k' \<and> look s' k' = ((look s)(k := v)) k' \<and>
      (found s' k' \<longleftrightarrow> found s k' \<or> grows k k'))"
begin

fun puts :: "'s \<Rightarrow> (int list \<times> int) list \<Rightarrow> cerr + 's" where
  "puts s [] = Inr s"
| "puts s ((k, v) # kvs) = bindr (put s k v) (\<lambda>s. puts s kvs)"

definition agrees :: "'s \<Rightarrow> (int list \<times> int) list \<Rightarrow> 's \<Rightarrow> int list \<Rightarrow> bool" where
  "agrees s kvs s' k \<longleftrightarrow> okey s' k \<and> look s' k = (case map_of (rev kvs) k of None \<Rightarrow> look s k | Some v \<Rightarrow> v) \<and>
     (found s' k \<longleftrightarrow> found s k \<or> (\<exists>kv \<in> set kvs. grows (fst kv) k))"

lemma puts_look:
  assumes "inv s" "\<forall>kv \<in> set kvs. okey s (fst kv)"
  shows "\<exists>s'. puts s kvs = Inr s' \<and> inv s' \<and> (\<forall>k. okey s k \<longrightarrow> agrees s kvs s' k)"
  using assms
proof (induction kvs arbitrary: s)
  case (Cons kv kvs)
  obtain k v where kv: "kv = (k, v)" by force
  from put_law [OF Cons.prems(1), of k v] Cons.prems(2) kv obtain s1 where
    s1: "put s k v = Inr s1" "inv s1" "\<forall>k'. okey s k' \<longrightarrow> okey s1 k' \<and> look s1 k' = ((look s)(k := v)) k' \<and>
      (found s1 k' \<longleftrightarrow> found s k' \<or> grows k k')" by auto
  from s1(3) Cons.prems(2) have "\<forall>kv \<in> set kvs. okey s1 (fst kv)" by auto
  from Cons.IH [OF s1(2) this] obtain s' where s': "puts s1 kvs = Inr s'" "inv s'"
    "\<forall>k. okey s1 k \<longrightarrow> agrees s1 kvs s' k" by blast
  have "agrees s (kv # kvs) s' k'" if "okey s k'" for k'
  proof -
    have o: "okey s1 k'" "look s1 k' = ((look s)(k := v)) k'" "found s1 k' \<longleftrightarrow> found s k' \<or> grows k k'" using s1(3) that by auto
    then have "agrees s1 kvs s' k'" using s'(3) by blast
    then show ?thesis using o kv by (auto simp: agrees_def map_add_def split: option.splits)
  qed
  then show ?case using s1(1) s'(1,2) kv by auto
qed (simp add: agrees_def)

end

section \<open>The trie as a map\<close>

definition plain :: "int list \<Rightarrow> bool" where
  "plain key \<longleftrightarrow> (\<forall>c \<in> set key. 0 \<le> c \<and> c < 128)"

fun trie_ok :: "trie_st_node \<Rightarrow> bool" where
  "trie_ok (Trie v nx) = (case nx of None \<Rightarrow> True | Some arr \<Rightarrow> length arr = 256 \<and> (\<forall>t \<in> set arr. trie_ok t))"

text \<open>Putting a key makes nodes for the keys that differ from a proper prefix of it by one last character.\<close>

definition covers :: "int list \<Rightarrow> int list \<Rightarrow> bool" where
  "covers key k \<longleftrightarrow> k \<noteq> [] \<and> strict_prefix (butlast k) key"

lemma covers_Cons: "covers (c # key) (d # k) \<longleftrightarrow> k = [] \<or> d = c \<and> covers key k"
  by (auto simp: covers_def)

lemma trie_get_total: "trie_ok t \<Longrightarrow> plain k \<Longrightarrow> \<exists>r. trie_st_do_get t k = Inr r"
proof (induction t k rule: trie_st_do_get.induct)
  case (2 v nx c key)
  show ?case
  proof (cases nx)
    case (Some arr)
    then have "nat c < length arr" "0 \<le> c" using "2.prems" by (auto simp: plain_def)
    then show ?thesis using 2 Some by (auto simp: mem_simps plain_def)
  qed simp
qed simp

lemma trie_put_spec:
  assumes "trie_ok t" "plain key"
  shows "\<exists>t'. trie_st_do_put t key val = Inr t' \<and> trie_ok t' \<and>
    (\<forall>k. plain k \<longrightarrow> trie_st_do_get t' k =
      (if k = key then Inr (Some val) else if covers key k \<and> trie_st_do_get t k = Inr None then Inr (Some 0) else trie_st_do_get t k))"
  using assms
proof (induction t key val rule: trie_st_do_put.induct)
  case (1 v nx val)
  have "trie_st_do_get (Trie val nx) k = (if k = [] then Inr (Some val) else trie_st_do_get (Trie v nx) k)" for k
    by (cases k) auto
  then show ?case using 1 by (auto simp: covers_def)
next
  case (2 v nx c key val)
  define arr where "arr = (case nx of None \<Rightarrow> trie_st_node_alloc 256 | Some arr \<Rightarrow> arr)"
  have arr: "length arr = 256" "\<forall>t \<in> set arr. trie_ok t" using "2.prems"(1)
    by (auto simp: arr_def trie_st_node_alloc_def split: option.splits)
  have c: "0 \<le> c" "nat c < length arr" using "2.prems"(2) arr by (auto simp: plain_def)
  then have ld: "loadi arr c = Inr (arr ! nat c)" by (simp add: mem_simps)
  have "trie_ok (arr ! nat c)" "plain key" using arr c "2.prems"(2) by (auto simp: plain_def)
  from "2.IH" [OF arr_def ld this] obtain t' where t': "trie_st_do_put (arr ! nat c) key val = Inr t'" "trie_ok t'"
    "\<forall>k. plain k \<longrightarrow> trie_st_do_get t' k =
      (if k = key then Inr (Some val) else if covers key k \<and> trie_st_do_get (arr ! nat c) k = Inr None then Inr (Some 0)
       else trie_st_do_get (arr ! nat c) k)" by blast
  let ?t = "Trie v (Some (arr[nat c := t']))"
  have "trie_st_do_put (Trie v nx) (c # key) val = Inr ?t" using ld t'(1) by (simp add: arr_def [symmetric])
  moreover have "trie_ok ?t" using arr t'(2) set_update_subset_insert [of arr "nat c" t'] by auto
  moreover have "trie_st_do_get ?t k =
      (if k = c # key then Inr (Some val) else if covers (c # key) k \<and> trie_st_do_get (Trie v nx) k = Inr None then Inr (Some 0)
       else trie_st_do_get (Trie v nx) k)" if "plain k" for k
  proof (cases k)
    case (Cons d k')
    have d: "0 \<le> d" "nat d < length arr" "plain k'" using that arr(1) Cons by (auto simp: plain_def)
    have old: "trie_st_do_get (Trie v nx) k = (if nx = None then Inr None else trie_st_do_get (arr ! nat d) k')"
      using d Cons arr_def by (cases nx) (auto simp: mem_simps)
    have new: "trie_st_do_get ?t k = trie_st_do_get (if d = c then t' else arr ! nat d) k'"
      using d c Cons by (auto simp: mem_simps nth_list_update)
    have fresh: "trie_st_do_get (arr ! nat d) k' = (if k' = [] then Inr (Some 0) else Inr None)" if "nx = None"
      using that d arr_def by (cases k') (auto simp: trie_st_node_alloc_def)
    have nil: "trie_st_do_get t [] \<noteq> Inr None" for t by (cases t) simp
    note t3 = t'(3) [rule_format, OF d(3)]
    have "covers (c # key) k \<longleftrightarrow> k' = [] \<or> d = c \<and> covers key k'" "covers key [] \<longleftrightarrow> False"
      unfolding Cons by (rule covers_Cons) (simp add: covers_def)
    then show ?thesis
      unfolding old new using t3 fresh Cons nil [of "arr ! nat d"]
      by (cases "nx = None"; cases "d = c"; cases "k' = []"; cases "k' = key") (simp_all del: trie_st_do_get.simps)
  qed (simp add: covers_def)
  ultimately show ?case by blast
qed

definition trie_look :: "trie_st_node \<Rightarrow> int list \<Rightarrow> int" where
  "trie_look t k = (case trie_st_do_get t k of Inr (Some v) \<Rightarrow> v | _ \<Rightarrow> 0)"

definition trie_found :: "trie_st_node \<Rightarrow> int list \<Rightarrow> bool" where
  "trie_found t k \<longleftrightarrow> trie_st_do_get t k \<noteq> Inr None"

lemma trie_get_look:
  "trie_ok t \<Longrightarrow> plain k \<Longrightarrow> trie_st_do_get t k = Inr (if trie_found t k then Some (trie_look t k) else None)"
  using trie_get_total [of t k] by (auto simp: trie_look_def trie_found_def)

interpretation ts: key_store trie_st_do_put trie_look trie_found trie_ok "\<lambda>t k. plain k \<and> k \<noteq> []" covers
proof
  fix t k v assume "trie_ok t" "plain k \<and> k \<noteq> []"
  moreover from this have "butlast k \<noteq> k" by (metis append_butlast_last_id not_Cons_self2 same_append_eq append_Nil2)
  ultimately have k: "trie_ok t" "plain k" "covers k k" by (auto simp: covers_def strict_prefix_def prefixeq_butlast)
  from trie_put_spec [OF k(1,2), of v] obtain t' where t': "trie_st_do_put t k v = Inr t'" "trie_ok t'"
    "\<forall>j. plain j \<longrightarrow> trie_st_do_get t' j =
      (if j = k then Inr (Some v) else if covers k j \<and> trie_st_do_get t j = Inr None then Inr (Some 0) else trie_st_do_get t j)" by blast
  have "trie_look t' j = ((trie_look t)(k := v)) j \<and> (trie_found t' j \<longleftrightarrow> trie_found t j \<or> covers k j)" if "plain j" for j
    using t'(3) that k(3) by (auto simp: trie_look_def trie_found_def)
  then show "\<exists>t'. trie_st_do_put t k v = Inr t' \<and> trie_ok t' \<and> (\<forall>j. plain j \<and> j \<noteq> [] \<longrightarrow> (plain j \<and> j \<noteq> []) \<and>
      trie_look t' j = ((trie_look t)(k := v)) j \<and> (trie_found t' j \<longleftrightarrow> trie_found t j \<or> covers k j))"
    using t'(1,2) by auto
qed

lemma trie_st_puts_eq: "\<forall>kv \<in> set kvs. fst kv \<noteq> [] \<Longrightarrow> trie_st_puts t (map (\<lambda>(k, v). (Some k, v)) kvs) = ts.puts t kvs"
proof (induction kvs arbitrary: t)
  case (Cons kv kvs)
  obtain k v where kv: "kv = (k, v)" by force
  then show ?case using Cons by (cases "trie_st_do_put t k v") (simp_all add: trie_st_put_def)
qed simp

lemma trie_table:
  assumes "\<forall>kv \<in> set kvs. fst kv \<noteq> [] \<and> plain (fst kv)"
  shows "\<exists>t. trie_st_puts (Trie 0 None) (map (\<lambda>(k, v). (Some k, v)) kvs) = Inr t \<and>
    (\<forall>k. k \<noteq> [] \<and> plain k \<longrightarrow> trie_st_get t (Some k) =
      Inr (if \<exists>kv \<in> set kvs. strict_prefix (butlast k) (fst kv)
           then Some (case map_of (rev kvs) k of None \<Rightarrow> 0 | Some v \<Rightarrow> v) else None))"
proof -
  let ?e = "Trie 0 None"
  have e: "trie_ok ?e" "trie_look ?e k = 0" "k \<noteq> [] \<Longrightarrow> \<not> trie_found ?e k" for k
    by (simp, (cases k; simp add: trie_look_def trie_found_def)+)
  have "\<forall>kv \<in> set kvs. plain (fst kv) \<and> fst kv \<noteq> []" using assms by auto
  from ts.puts_look [OF e(1) this] obtain t where t: "ts.puts ?e kvs = Inr t" "trie_ok t"
    "\<forall>k. plain k \<and> k \<noteq> [] \<longrightarrow> ts.agrees ?e kvs t k" by blast
  have "trie_st_get t (Some k) = Inr (if \<exists>kv \<in> set kvs. strict_prefix (butlast k) (fst kv)
      then Some (case map_of (rev kvs) k of None \<Rightarrow> 0 | Some v \<Rightarrow> v) else None)" if k: "k \<noteq> []" "plain k" for k
  proof -
    have "ts.agrees ?e kvs t k" using t(3) k by blast
    then have "trie_look t k = (case map_of (rev kvs) k of None \<Rightarrow> 0 | Some v \<Rightarrow> v)"
      "trie_found t k \<longleftrightarrow> (\<exists>kv \<in> set kvs. strict_prefix (butlast k) (fst kv))"
      using k(1) e(3) by (auto simp: ts.agrees_def covers_def e(2) cong: option.case_cong)
    then show ?thesis using trie_get_look [OF t(2) k(2)] k(1) by (simp add: trie_st_get_def)
  qed
  moreover have "trie_st_puts ?e (map (\<lambda>(k, v). (Some k, v)) kvs) = Inr t"
    using t(1) trie_st_puts_eq [of kvs ?e] assms by simp
  ultimately show ?thesis by blast
qed

text \<open>C13: any puts of non-empty keys of 7-bit characters into an empty trie succeed, and a get then returns the
  value of the last put of its key. For a key that was not put it returns the value 0 as found if a put key
  properly extends the key without its last character, and -1 otherwise.\<close>

theorem trie_st_lookup:
  assumes "\<forall>kv \<in> set kvs. fst kv \<noteq> [] \<and> plain (fst kv)" "k \<noteq> []" "plain k"
  shows "\<exists>t. trie_st_puts (Trie 0 None) (map (\<lambda>(k, v). (Some k, v)) kvs) = Inr t \<and>
    trie_st_get t (Some k) = Inr (if \<exists>kv \<in> set kvs. strict_prefix (butlast k) (fst kv)
      then Some (case map_of (rev kvs) k of None \<Rightarrow> 0 | Some v \<Rightarrow> v) else None)"
  using trie_table [OF assms(1)] assms(2,3) by blast

theorem trie_st_lookup_witness:
  "\<exists>t. trie_st_puts (Trie 0 None) [(Some [97, 98], 5), (Some [97, 98], 7)] = Inr t \<and>
     trie_st_get t (Some [97, 98]) = Inr (Some 7)"
  using trie_st_lookup [of "[([97, 98], 5), ([97, 98], 7)]" "[97, 98]"] by (simp add: plain_def)

lemma trie_put_negative:
  assumes "trie_ok t" "\<forall>c \<in> set key. c < 128" "\<exists>c \<in> set key. c < 0"
  shows "trie_st_do_put t key val = Inl OutOfBounds"
  using assms
proof (induction t key val rule: trie_st_do_put.induct)
  case (2 v nx c key val)
  define arr where "arr = (case nx of None \<Rightarrow> trie_st_node_alloc 256 | Some arr \<Rightarrow> arr)"
  have arr: "length arr = 256" "\<forall>t \<in> set arr. trie_ok t" using "2.prems"(1)
    by (auto simp: arr_def trie_st_node_alloc_def split: option.splits)
  show ?case
  proof (cases "c < 0")
    case True
    then show ?thesis by (simp add: loadi_def arr_def [symmetric] Let_def)
  next
    case False
    then have c: "nat c < length arr" "0 \<le> c" using "2.prems"(2) arr by auto
    then have ld: "loadi arr c = Inr (arr ! nat c)" by (simp add: mem_simps)
    have "trie_st_do_put (arr ! nat c) key val = Inl OutOfBounds"
      using "2.IH" [OF arr_def ld] "2.prems" arr(2) c False by auto
    then show ?thesis using ld by (simp add: arr_def [symmetric] Let_def)
  qed
qed simp

text \<open>A put of a non-empty key of signed characters is defined exactly if no character is negative; with one it
  reads outside the array of children.\<close>

theorem trie_st_put_char_range:
  assumes "trie_ok t" "key \<noteq> []" "\<forall>c \<in> set key. - 128 \<le> c \<and> c < 128"
  shows "if \<exists>c \<in> set key. c < 0 then trie_st_put t (Some key) val = Inl OutOfBounds
    else \<exists>t'. trie_st_put t (Some key) val = Inr (0, t') \<and> trie_ok t' \<and> trie_st_get t' (Some key) = Inr (Some val)"
proof (cases "\<exists>c \<in> set key. c < 0")
  case True
  then show ?thesis using trie_put_negative [OF assms(1), of key val] assms by (auto simp: trie_st_put_def)
next
  case False
  then have "plain key" using assms(3) by (force simp: plain_def)
  with trie_put_spec [OF assms(1), of key val] False assms(2) show ?thesis
    by (auto simp: trie_st_put_def trie_st_get_def)
qed

theorem trie_st_put_char_range_witness: "trie_st_put (Trie 0 None) (Some [115, - 28]) 1 = Inl OutOfBounds"
  using trie_st_put_char_range [of "Trie 0 None" "[115, - 28]" 1] by simp

section \<open>The ternary trie\<close>

lemma tst_get_total: "k \<noteq> [] \<Longrightarrow> \<exists>r. tst_do_get t k = Inr r"
  by (induction t k rule: tst_do_get.induct) (auto split: list.splits)

lemma tst_node_get_spec: "(\<exists>s'. tst_node_get oom s = Inr (0, s')) \<or> tst_node_get oom s = Inl Exited \<and> (\<exists>i. oom i)"
proof (induction oom s rule: tst_node_get.induct)
  case (1 oom s)
  show ?case
  proof (cases "gnodes s = None \<and> oom (blocks s)")
    case True
    then show ?thesis by (subst (2) tst_node_get.simps) auto
  next
    case False
    let ?s = "if gnodes s = None then s\<lparr>gnodes := Some (blocks s), blocks := Suc (blocks s)\<rparr> else s"
    have e: "tst_node_get oom s = (if ginodes ?s = tst_N - 1 then tst_node_get oom (?s\<lparr>gnodes := None, ginodes := 0\<rparr>)
        else Inr (0, ?s\<lparr>ginodes := Suc (ginodes ?s)\<rparr>))"
      by (subst tst_node_get.simps) (simp only: if_not_P [OF False] Let_def)
    show ?thesis unfolding e using "1.IH" [OF False refl] by (cases "ginodes ?s = tst_N - 1") simp_all
  qed
qed

lemma tst_put_absent_lemma:
  assumes "tst_do_get t key = Inr None" "key \<noteq> []"
  shows "tst_do_put oom s t key val = Inl NullDeref \<or> tst_do_put oom s t key val = Inl Exited \<and> (\<exists>i. oom i)"
  using assms
proof (induction oom s t key val rule: tst_do_put.induct)
  case (1 oom s key val)
  then show ?case using tst_node_get_spec [of oom s] by (auto simp: load_def)
next
  case (2 oom s tc v l m g key val)
  then show ?case by (auto split: list.splits if_splits)
qed

lemma tst_put_present_lemma:
  assumes "tst_do_get t key \<noteq> Inr None" "key \<noteq> []"
  shows "\<exists>t'. tst_do_put oom s t key val = Inr (0, t', s) \<and>
    (\<forall>k. k \<noteq> [] \<longrightarrow> tst_do_get t' k = (if k = key then Inr (Some val) else tst_do_get t k))"
  using assms
proof (induction oom s t key val rule: tst_do_put.induct)
  case (2 oom s tc v l m g key val)
  then obtain c key' where key: "key = c # key'" by (cases key) auto
  consider "c < tc" | "c > tc" | "c = tc" "key' \<noteq> []" | "c = tc" "key' = []" by linarith
  then show ?case
  proof cases
    case 1
    then obtain l' where "tst_do_put oom s l key val = Inr (0, l', s)"
      "\<forall>k. k \<noteq> [] \<longrightarrow> tst_do_get l' k = (if k = key then Inr (Some val) else tst_do_get l k)"
      using "2.IH"(1) [OF key] "2.prems" key by auto
    then show ?thesis using 1 key by (auto split: list.splits)
  next
    case 2
    then obtain g' where "tst_do_put oom s g key val = Inr (0, g', s)"
      "\<forall>k. k \<noteq> [] \<longrightarrow> tst_do_get g' k = (if k = key then Inr (Some val) else tst_do_get g k)"
      using "2.IH"(2) [OF key] "2.prems" key by auto
    then show ?thesis using 2 key by (auto split: list.splits)
  next
    case 3
    then obtain m' where "tst_do_put oom s m key' val = Inr (0, m', s)"
      "\<forall>k. k \<noteq> [] \<longrightarrow> tst_do_get m' k = (if k = key' then Inr (Some val) else tst_do_get m k)"
      using "2.IH"(3) [OF key] "2.prems" key by auto
    then show ?thesis using 3 key by (auto split: list.splits)
  next
    case 4
    then show ?thesis using key by (auto split: list.splits)
  qed
qed simp

definition tst_look :: "tst_node option \<times> tst_pool \<Rightarrow> int list \<Rightarrow> int" where
  "tst_look t k = (case tst_do_get (fst t) k of Inr (Some v) \<Rightarrow> v | _ \<Rightarrow> 0)"

definition tst_found :: "tst_node option \<times> tst_pool \<Rightarrow> int list \<Rightarrow> bool" where
  "tst_found t k \<longleftrightarrow> tst_do_get (fst t) k \<noteq> Inr None"

definition tst_step :: "(nat \<Rightarrow> bool) \<Rightarrow> tst_node option \<times> tst_pool \<Rightarrow> int list \<Rightarrow> int \<Rightarrow> cerr + tst_node option \<times> tst_pool" where
  "tst_step oom t k v = bindr (tst_put oom (snd t) (fst t) (Some k) v) (\<lambda>(r, t, s). Inr (t, s))"

lemma tst_get_look:
  "k \<noteq> [] \<Longrightarrow> tst_get t (Some k) = Inr (if tst_found (t, s) k then Some (tst_look (t, s) k) else None)"
  using tst_get_total [of k t] by (auto simp: tst_look_def tst_found_def tst_get_def)

interpretation tt: key_store "tst_step oom" tst_look tst_found "\<lambda>t. snd t = s" "\<lambda>t k. k \<noteq> [] \<and> tst_found t k" "\<lambda>k k'. False"
  for oom s
proof
  fix t k v assume s: "snd t = s" and "k \<noteq> [] \<and> tst_found t k"
  then have k: "tst_do_get (fst t) k \<noteq> Inr None" "k \<noteq> []" by (auto simp: tst_found_def)
  from tst_put_present_lemma [OF this, of oom s v] obtain t' where t': "tst_do_put oom s (fst t) k v = Inr (0, t', s)"
    "\<forall>j. j \<noteq> [] \<longrightarrow> tst_do_get t' j = (if j = k then Inr (Some v) else tst_do_get (fst t) j)" by blast
  have "tst_look (t', s) j = ((tst_look t)(k := v)) j \<and> tst_found (t', s) j = tst_found t j" if "j \<noteq> []" for j
    using t'(2) that k(1) by (auto simp: tst_look_def tst_found_def)
  moreover have "tst_step oom t k v = Inr (t', s)" using t'(1) k(2) s by (simp add: tst_step_def tst_put_def)
  ultimately show "\<exists>t'. tst_step oom t k v = Inr t' \<and> snd t' = s \<and> (\<forall>j. j \<noteq> [] \<and> tst_found t j \<longrightarrow>
      (j \<noteq> [] \<and> tst_found t' j) \<and> tst_look t' j = ((tst_look t)(k := v)) j \<and> (tst_found t' j \<longleftrightarrow> tst_found t j \<or> False))"
    by (intro exI [of _ "(t', s)"]) simp
qed

lemma tst_puts_eq: "tst_puts oom s t (map (\<lambda>(k, v). (Some k, v)) kvs) = tt.puts oom (t, s) kvs"
proof (induction kvs arbitrary: t s)
  case (Cons kv kvs)
  obtain k v where kv: "kv = (k, v)" by force
  then show ?case using Cons by (cases "tst_put oom s t (Some k) v") (auto simp: tst_step_def [of oom "(t, s)" k v])
qed simp

text \<open>In a ternary trie that has nodes for the keys, any puts of them succeed without allocating, and a get of
  such a key then returns the value of its last put, or its former value if there was none.\<close>

theorem tst_updates:
  assumes "\<forall>k \<in> insert k0 (fst ` set kvs). k \<noteq> [] \<and> tst_get t (Some k) \<noteq> Inr None"
  shows "\<exists>t'. tst_puts oom s t (map (\<lambda>(k, v). (Some k, v)) kvs) = Inr (t', s) \<and>
    tst_get t' (Some k0) = (case map_of (rev kvs) k0 of None \<Rightarrow> tst_get t (Some k0) | Some v \<Rightarrow> Inr (Some v))"
proof -
  have f: "k \<noteq> [] \<and> tst_found (t, s) k" if "k \<in> insert k0 (fst ` set kvs)" for k
    using assms that by (auto simp: tst_found_def tst_get_def)
  then have "\<forall>kv \<in> set kvs. fst kv \<noteq> [] \<and> tst_found (t, s) (fst kv)" by blast
  from tt.puts_look [OF _ this, of s] obtain t' where t': "tt.puts oom (t, s) kvs = Inr (t', s)"
    "\<forall>k. k \<noteq> [] \<and> tst_found (t, s) k \<longrightarrow> tt.agrees (t, s) kvs (t', s) k" by auto
  have k0: "k0 \<noteq> []" "tst_found (t, s) k0" using f by auto
  then have "tt.agrees (t, s) kvs (t', s) k0" using t'(2) by blast
  then show ?thesis using t'(1) k0 tst_get_look [of k0 t s] tst_get_look [of k0 t' s]
    by (auto simp: tt.agrees_def tst_puts_eq split: option.splits)
qed

theorem tst_updates_witness:
  "\<exists>t'. tst_puts (\<lambda>i. False) \<lparr>gnodes = None, ginodes = 0, blocks = 0\<rparr> (Some (Tst 98 1 None (Some (Tst 121 0 None None None)) None))
     [(Some [98, 121], 5)] = Inr (t', \<lparr>gnodes = None, ginodes = 0, blocks = 0\<rparr>) \<and> tst_get t' (Some [98, 121]) = Inr (Some 5)"
  using tst_updates [of "[98, 121]" "[([98, 121], 5)]" "Some (Tst 98 1 None (Some (Tst 121 0 None None None)) None)"
      "\<lambda>i. False" "\<lparr>gnodes = None, ginodes = 0, blocks = 0\<rparr>"]
  by (simp add: tst_get_def)

text \<open>A put of a key that has no node yet asks the allocator for one and then dereferences the null pointer it
  still has; if the allocator has no memory it ends the program first.\<close>

theorem tst_put_absent:
  assumes "key \<noteq> []" "tst_get t (Some key) = Inr None"
  shows "((\<forall>i. \<not> oom i) \<longrightarrow> tst_put oom s t (Some key) val = Inl NullDeref) \<and>
    tst_put oom s t (Some key) val \<in> {Inl NullDeref, Inl Exited}"
  using tst_put_absent_lemma [of t key oom s val] assms by (auto simp: tst_put_def tst_get_def)

theorem tst_put_absent_witness: "\<forall>s. tst_put (\<lambda>i. False) s None (Some [115]) 1 = Inl NullDeref"
  using tst_put_absent [of "[115]" None "\<lambda>i. False" _ 1] by (simp add: tst_get_def)

text \<open>The test of the trie prints the value 666 for the key ``the'' and ends with -1, since ``that'' is not found. The
  test that is run is that of the ternary trie; it crashes on its first key.\<close>

theorem trie_tests_result:
  "test_trie_st_main_1 = Inr (- 1, [(''the'', 666)]) \<and> test_trie_st_main (\<lambda>i. False) = Inl NullDeref"
proof
  have "tst_put (\<lambda>i. False) s None (c_string ''she'') 1 = Inl NullDeref" for s
    using tst_put_absent_lemma [of None "map of_char ''she''" "\<lambda>i. False" s 1] by (simp add: tst_put_def c_string_def)
  then show "test_trie_st_main (\<lambda>i. False) = Inl NullDeref"
    by (simp add: test_trie_st_main_def test_tst_main_def test_keys_def)
  let ?kvs = "map (\<lambda>(s, v). (map of_char s :: int list, v :: int)) [(''she'', 1), (''sells'', 2), (''sea'', 3), (''shells'', 4), (''by'', 5), (''the'', 666), (''sea'', 7), (''shore'', 8)]"
  have keys: "test_keys = map (\<lambda>(k, v). (Some k, v)) ?kvs" by (simp add: test_keys_def c_string_def)
  have "\<forall>kv \<in> set ?kvs. fst kv \<noteq> [] \<and> plain (fst kv)" by code_simp
  from trie_table [OF this] obtain t where t: "trie_st_puts (Trie 0 None) test_keys = Inr t"
    "\<forall>k. k \<noteq> [] \<and> plain k \<longrightarrow> trie_st_get t (Some k) =
      Inr (if \<exists>kv \<in> set ?kvs. strict_prefix (butlast k) (fst kv) then Some (case map_of (rev ?kvs) k of None \<Rightarrow> 0 | Some v \<Rightarrow> v) else None)"
    unfolding keys by blast
  have "trie_st_get t (c_string ''the'') = Inr (Some 666)" "trie_st_get t (c_string ''that'') = Inr None"
    unfolding c_string_def using t(2) [rule_format, of "map of_char ''the''"] t(2) [rule_format, of "map of_char ''that''"]
    by (auto simp: plain_def)
  then show "test_trie_st_main_1 = Inr (- 1, [(''the'', 666)])" using t(1) by (simp add: test_trie_st_main_1_def)
qed

end
