(* ===== verification/Graph_Core.thy ===== *)
theory Graph_Core
  imports RB_Tree_Correct
begin

text \<open>
  The graphs of \<^verbatim>\<open>src/algs/algorithms4th/graph.cpp\<close>: adjacency lists kept in a red-black
  tree. The tree stores pointers to bags; a bag has a node, which carries the vertex number, and growing
  arrays of the neighbour nodes and of the edge weights. Nodes and bags come from pools through callbacks, for which
  \<^verbatim>\<open>src/algs/algorithms4th/test_graph.cpp\<close> has the implementations.

  The model keeps the pools, the memory of the nodes and of the bags, and the arrays with their
  capacities. A new bag is made by the callback \<open>graph_bag_new\<close> that the client puts into the graph, and \<^verbatim>\<open>graph.cpp\<close>
  reads the count of edges in it without ever having set it. What the callback leaves there is a field of the graph: \<open>Some 0\<close> is a client that
  sets the count, as \<^verbatim>\<open>graph.cpp\<close> needs it, and \<open>None\<close> is the callback of \<^verbatim>\<open>test_graph.cpp\<close>, which
  leaves the bytes that \<open>malloc\<close> gave it; reading them is undefined. The results about a graph cover both clients.
  Weights are of a type of their own, since the program only copies and prints them.

  The main result is that the operations implement a map from vertex numbers to lists of neighbours: the locale
  \<open>adjacency\<close> states this contract, and the programs that only use the operations are verified inside it.
\<close>

text \<open>Addresses are pairs, but the proofs never look into one.\<close>

declare split_paired_Ex [simp del] split_paired_All [simp del]

section \<open>The program\<close>

text \<open>A bag has a place in its pool, or is the one that \<open>graph_search\<close> keeps on its stack.\<close>

datatype bagp = HeapBag addr | StackBag int

record 'w graph_bag =
  b_node :: "addr option"
  b_v :: "addr option list"
  b_w :: "'w option list option"
  b_i :: "nat option"
  b_I :: nat

record 'w graph =
  gtr :: "bagp rb_tree"
  npool :: node_pool
  bpool :: node_pool
  gv :: nat
  ge :: nat
  direct :: bool
  weight :: bool
  dfs_marked :: "bool list"
  has_realloc :: bool                  \<comment> \<open>the callback \<open>graph_bag_realloc\<close> is set\<close>
  gnodes :: "addr \<Rightarrow> int option"        \<comment> \<open>the nodes, with their keys\<close>
  gbags :: "addr \<Rightarrow> 'w graph_bag option"
  heap_ok :: bool                      \<comment> \<open>memory is available\<close>
  bag_count :: "nat option"            \<comment> \<open>the count that the callback \<open>graph_bag_new\<close> leaves in a bag\<close>

text \<open>The row lengths of the two pools.\<close>

definition NODE_N :: nat where
  "NODE_N = 1024 * 1024 * 4 div 4"

definition BAG_N :: nat where
  "BAG_N = 1024 * 1024 * 8 div 40"

definition graph_node_new :: "'w graph \<Rightarrow> int \<Rightarrow> cerr + addr \<times> 'w graph" where
  "graph_node_new g key =
     bindr (pool_addr NODE_N (heap_ok g) (npool g)) (\<lambda>(a, p).
     Inr (a, g\<lparr>npool := p, gnodes := (gnodes g)(a \<mapsto> key)\<rparr>))"

text \<open>\<open>(size_t)log2((double)v)\<close> is undefined for 0.\<close>

definition log2_size :: "nat \<Rightarrow> cerr + nat" where
  "log2_size v = (if v = 0 then Inl SignedOverflow else Inr (log2_floor v))"

definition graph_bag_new :: "'w graph \<Rightarrow> addr \<Rightarrow> cerr + addr \<times> 'w graph" where
  "graph_bag_new g node =
     bindr (pool_addr BAG_N (heap_ok g) (bpool g)) (\<lambda>(a, p).
     bindr (log2_size (gv g)) (\<lambda>I.
     let I = (if I < 8 then 8 else I) in
     Inr (a, g\<lparr>bpool := p, gbags := (gbags g)(a \<mapsto>
       \<lparr>b_node = Some node, b_v = replicate I None, b_w = (if weight g then Some (replicate I None) else None),
        b_i = bag_count g, b_I = I\<rparr>)\<rparr>)))"

definition graph_bag_realloc :: "'w graph_bag \<Rightarrow> bool \<Rightarrow> cerr + 'w graph_bag" where
  "graph_bag_realloc gb wt =
     (case b_i gb of None \<Rightarrow> Inl UninitRead
      | Some i \<Rightarrow>
        if b_I gb = 0 \<or> i < b_I gb - 1 then Inr gb else
        let II = log2_floor (b_I gb); I = b_I gb + (if II < 8 then 8 else II) in
        Inr (gb\<lparr>b_I := I, b_v := realloc_rows (b_v gb) I,
             b_w := (if wt then Some (realloc_rows (case b_w gb of None \<Rightarrow> [] | Some w \<Rightarrow> w) I) else b_w gb)\<rparr>))"

text \<open>The key of the node of a bag; the comparison callback of the tree compares these.\<close>

definition bkey :: "'w graph \<Rightarrow> bagp \<Rightarrow> int option" where
  "bkey g p = (case p of StackBag k \<Rightarrow> Some k
     | HeapBag a \<Rightarrow> Option.bind (gbags g a) (\<lambda>b. Option.bind (b_node b) (gnodes g)))"

definition gcmp :: "'w graph \<Rightarrow> bagp \<Rightarrow> bagp \<Rightarrow> int" where
  "gcmp g p q = graph_node_cmp (bkey g p) (bkey g q)"

definition getb :: "'w graph \<Rightarrow> bagp \<Rightarrow> cerr + 'w graph_bag" where
  "getb g p = (case p of HeapBag a \<Rightarrow> deref (gbags g a) | StackBag k \<Rightarrow> Inl UninitRead)"

definition updb :: "'w graph \<Rightarrow> bagp \<Rightarrow> ('w graph_bag \<Rightarrow> cerr + 'w graph_bag) \<Rightarrow> cerr + 'w graph" where
  "updb g p f = bindr (getb g p) (\<lambda>b. bindr (f b) (\<lambda>b'.
     case p of HeapBag a \<Rightarrow> Inr (g\<lparr>gbags := (gbags g)(a \<mapsto> b')\<rparr>) | StackBag k \<Rightarrow> Inl UninitRead))"

definition graph_search :: "nat \<Rightarrow> 'w graph \<Rightarrow> int \<Rightarrow> cerr + bagp option" where
  "graph_search fuel g key =
     bindr (rbtree_search fuel (gcmp g) (gtr g) (StackBag key)) (\<lambda>node.
     case node of None \<Rightarrow> Inr None | Some a \<Rightarrow> bindr (getn (gtr g) a) (\<lambda>n. Inr (Some (n_data n))))"

text \<open>The walk writes into an array of \<open>cap\<close> cells.\<close>

definition walk_into :: "nat \<Rightarrow> nat \<Rightarrow> 'w graph \<Rightarrow> cerr + bagp list" where
  "walk_into fuel cap g =
     bindr (rbtree_inorder_walk fuel (gtr g)) (\<lambda>ds. if length ds \<le> cap then Inr ds else Inl OutOfBounds)"

fun bag_nodes :: "'w graph \<Rightarrow> bagp list \<Rightarrow> cerr + addr option list" where
  "bag_nodes g [] = Inr []"
| "bag_nodes g (d # ds) = bindr (getb g d) (\<lambda>b. bindr (bag_nodes g ds) (\<lambda>ns. Inr (b_node b # ns)))"

definition graph_vertex :: "nat \<Rightarrow> nat \<Rightarrow> 'w graph \<Rightarrow> cerr + addr option list" where
  "graph_vertex fuel cap g = bindr (walk_into fuel cap g) (\<lambda>ds. bag_nodes g ds)"

text \<open>\<open>gb->v[gb->i] = x\<close>, with the weight, and \<open>++gb->i\<close>.\<close>

definition push_adj :: "bool \<Rightarrow> addr \<Rightarrow> 'w \<Rightarrow> 'w graph_bag \<Rightarrow> cerr + 'w graph_bag" where
  "push_adj wt x we gb =
     (case b_i gb of None \<Rightarrow> Inl UninitRead
      | Some i \<Rightarrow>
        bindr (store (b_v gb) i (Some x)) (\<lambda>v.
        bindr (if wt then bindr (deref (b_w gb)) (\<lambda>w. bindr (store w i (Some we)) (\<lambda>w. Inr (Some w))) else Inr (b_w gb)) (\<lambda>w.
        Inr (gb\<lparr>b_v := v, b_w := w, b_i := Some (Suc i)\<rparr>))))"

definition graph_add_edge :: "nat \<Rightarrow> 'w graph \<Rightarrow> int \<Rightarrow> int \<Rightarrow> 'w \<Rightarrow> cerr + int \<times> 'w graph" where
  "graph_add_edge fuel g v w we =
     bindr (graph_search fuel g v) (\<lambda>nodev. bindr (graph_search fuel g w) (\<lambda>nodew.
     case nodev of None \<Rightarrow> Inr (- 1, g) | Some pv \<Rightarrow> case nodew of None \<Rightarrow> Inr (- 1, g) | Some pw \<Rightarrow>
     bindr (getb g pv) (\<lambda>bv. bindr (getb g pw) (\<lambda>bw.
     case b_node bv of None \<Rightarrow> Inr (- 1, g) | Some xv \<Rightarrow> case b_node bw of None \<Rightarrow> Inr (- 1, g) | Some xw \<Rightarrow>
     if \<not> has_realloc g then Inl NullDeref else
     bindr (updb g pv (\<lambda>b. graph_bag_realloc b (weight g))) (\<lambda>g.
     bindr (if direct g then Inr g else updb g pw (\<lambda>b. graph_bag_realloc b (weight g))) (\<lambda>g.
     bindr (updb g pv (push_adj (weight g) xw we)) (\<lambda>g.
     if direct g then Inr (0, g)
     else bindr (updb g pw (push_adj (weight g) xv we)) (\<lambda>g. Inr (0, g)))))))))"

definition graph_add_vertex :: "nat \<Rightarrow> 'w graph \<Rightarrow> int \<Rightarrow> cerr + int \<times> 'w graph" where
  "graph_add_vertex fuel g v =
     bindr (graph_node_new g v) (\<lambda>(gn, g).
     bindr (graph_bag_new g gn) (\<lambda>(gb, g).
     bindr (rbtree_insert (heap_ok g) fuel (gcmp g) (gtr g) (HeapBag gb)) (\<lambda>(a, tr).
     Inr (0, g\<lparr>gtr := tr\<rparr>))))"

text \<open>The array of neighbours and its fill count, or null.\<close>

definition graph_adj :: "nat \<Rightarrow> 'w graph \<Rightarrow> int \<Rightarrow> cerr + (addr option list \<times> nat) option" where
  "graph_adj fuel g v =
     bindr (graph_search fuel g v) (\<lambda>r.
     case r of None \<Rightarrow> Inr None | Some p \<Rightarrow>
     bindr (getb g p) (\<lambda>gb.
     if b_node gb = None then Inr None else
     case b_i gb of None \<Rightarrow> Inl UninitRead | Some i \<Rightarrow> Inr (Some (b_v gb, i))))"

text \<open>A graph as the programs set it up, without vertices and edges.\<close>

definition graph_new :: "bool \<Rightarrow> bool \<Rightarrow> nat option \<Rightarrow> 'w graph" where
  "graph_new d realloc cnt =
     \<lparr>gtr = rb_tree_init 8 False, npool = node_pool_init 8, bpool = node_pool_init 8, gv = 0, ge = 0, direct = d, weight = False,
      dfs_marked = [], has_realloc = realloc, gnodes = Map.empty, gbags = Map.empty, heap_ok = True, bag_count = cnt\<rparr>"

section \<open>The representation\<close>

text \<open>The neighbours and weights \<open>ns\<close> are stored in the arrays of the bag.\<close>

definition good_bag :: "'w graph \<Rightarrow> 'w graph_bag \<Rightarrow> (int \<times> 'w) list \<Rightarrow> bool" where
  "good_bag g b ns \<longleftrightarrow> b_i b = Some (length ns) \<and> length ns \<le> b_I b \<and> 8 \<le> b_I b \<and> length (b_v b) = b_I b \<and>
     (\<forall>j < length ns. \<exists>x. b_v b ! j = Some x \<and> gnodes g x = Some (fst (ns ! j))) \<and>
     (weight g \<longrightarrow> (\<exists>ws. b_w b = Some ws \<and> length ws = b_I b \<and> (\<forall>j < length ns. ws ! j = Some (snd (ns ! j)))))"

text \<open>The datum is a bag of the vertex \<open>k\<close>.\<close>

definition bag_of :: "'w graph \<Rightarrow> (int \<rightharpoonup> (int \<times> 'w) list) \<Rightarrow> bagp \<Rightarrow> int \<Rightarrow> bool" where
  "bag_of g A d k \<longleftrightarrow> (\<exists>a b x ns. d = HeapBag a \<and> gbags g a = Some b \<and> b_node b = Some x \<and> gnodes g x = Some k \<and>
     A k = Some ns \<and> good_bag g b ns)"

definition bag_tree :: "'w graph \<Rightarrow> (int \<rightharpoonup> (int \<times> 'w) list) \<Rightarrow> bagp list \<Rightarrow> bool" where
  "bag_tree g A ds \<longleftrightarrow> sorted_by (gcmp g) ds \<and> (\<forall>d \<in> set ds. \<exists>k. bag_of g A d k) \<and> (\<forall>k \<in> dom A. \<exists>d \<in> set ds. bkey g d = Some k)"

definition mem_inv :: "'w graph \<Rightarrow> bool" where
  "mem_inv g \<longleftrightarrow> pool_inv NODE_N (npool g) \<and> dom (gnodes g) \<subseteq> pool_used NODE_N (npool g) \<and>
     pool_inv BAG_N (bpool g) \<and> dom (gbags g) \<subseteq> pool_used BAG_N (bpool g) \<and>
     heap_ok g \<and> bag_count g = Some 0 \<and> has_realloc g"

text \<open>\<open>g\<close> holds the adjacency lists \<open>A\<close> in the bags \<open>ds\<close>, and the fuel covers \<open>m\<close> more vertices.\<close>

definition graph_at :: "nat \<Rightarrow> nat \<Rightarrow> 'w graph \<Rightarrow> (int \<rightharpoonup> (int \<times> 'w) list) \<Rightarrow> bagp list \<Rightarrow> bool" where
  "graph_at fuel m g A ds \<longleftrightarrow> mem_inv g \<and> (0 < m \<longrightarrow> 0 < gv g) \<and> bag_tree g A ds \<and>
     (\<exists>t. tree_inv (gtr g) t \<and> rb_ok t \<and> rb_fuel (length (addrs t) + m) \<le> fuel \<and> inorder t = ds)"

definition graph_rep :: "nat \<Rightarrow> nat \<Rightarrow> 'w graph \<Rightarrow> (int \<rightharpoonup> (int \<times> 'w) list) \<Rightarrow> bool" where
  "graph_rep fuel m g A \<longleftrightarrow> (\<exists>ds. graph_at fuel m g A ds)"

lemma gcmp_order: "node_order (\<lambda>p. bkey g p \<noteq> None) (gcmp g)"
  unfolding gcmp_def by unfold_locales (use graph_bags.cmp_refl graph_bags.cmp_neg graph_bags.cmp_trans in blast)+

lemma gcmp_zero: "bkey g p = Some k \<Longrightarrow> bkey g q = Some l \<Longrightarrow> gcmp g p q = 0 \<longleftrightarrow> k = l"
  by (simp add: gcmp_def graph_node_cmp_def)

lemma bkey_stack [simp]: "bkey g (StackBag k) = Some k"
  by (simp add: bkey_def)

lemma bag_of_key: "bag_of g A d k \<Longrightarrow> bkey g d = Some k"
  by (auto simp: bag_of_def bkey_def)

lemma bag_tree_bag: "bag_tree g A ds \<Longrightarrow> d \<in> set ds \<Longrightarrow> bkey g d = Some k \<Longrightarrow> bag_of g A d k"
  using bag_of_key by (fastforce simp: bag_tree_def)

lemma bag_tree_valid: "bag_tree g A ds \<Longrightarrow> \<forall>d \<in> set ds. bkey g d \<noteq> None"
  using bag_of_key by (fastforce simp: bag_tree_def)

lemma bag_tree_find:
  assumes "bag_tree g A ds"
  shows "case find (\<lambda>e. gcmp g (StackBag k) e = 0) ds of
      None \<Rightarrow> A k = None | Some d \<Rightarrow> d \<in> set ds \<and> bag_of g A d k"
proof (cases "find (\<lambda>e. gcmp g (StackBag k) e = 0) ds")
  case None
  have "A k = None"
  proof (rule ccontr)
    assume "A k \<noteq> None"
    then obtain d where "d \<in> set ds" "bkey g d = Some k" using assms by (auto simp: bag_tree_def)
    then show False using None gcmp_zero [of g "StackBag k" k d k] by (auto simp: find_None_iff)
  qed
  then show ?thesis using None by simp
next
  case (Some d)
  then have d: "d \<in> set ds" "gcmp g (StackBag k) d = 0" by (auto simp: find_Some_iff)
  then obtain l where "bag_of g A d l" using assms by (auto simp: bag_tree_def)
  then show ?thesis using d Some gcmp_zero [of g "StackBag k" k d l] bag_of_key by fastforce
qed

lemma graph_search_spec:
  assumes "graph_at fuel m g A ds"
  shows "case A k of None \<Rightarrow> graph_search fuel g k = Inr None
    | Some ns \<Rightarrow> \<exists>p. graph_search fuel g k = Inr (Some p) \<and> bag_of g A p k \<and> p \<in> set ds"
proof -
  obtain t where t: "tree_inv (gtr g) t" "rb_fuel (length (addrs t) + m) \<le> fuel" "inorder t = ds" and bt: "bag_tree g A ds"
    using assms by (auto simp: graph_at_def)
  have "length (addrs t) < fuel" using t(2) rb_fuel_gt [of "length (addrs t) + m"] by linarith
  moreover have "\<forall>e \<in> set (inorder t). bkey g e \<noteq> None" "sorted_by (gcmp g) (inorder t)" using bag_tree_valid [OF bt] bt t(3) by (auto simp: bag_tree_def)
  ultimately obtain r where
    r: "rbtree_search fuel (gcmp g) (gtr g) (StackBag k) = Inr r"
    "(case r of None \<Rightarrow> None | Some a \<Rightarrow> map_option n_data (mem (gtr g) a)) = find (\<lambda>e. gcmp g (StackBag k) e = 0) (inorder t)"
    "r = None \<longleftrightarrow> find (\<lambda>e. gcmp g (StackBag k) e = 0) (inorder t) = None"
    using rbtree_search_find [OF t(1) _ gcmp_order, of fuel g "StackBag k"] by auto
  note f = bag_tree_find [OF bt, of k, folded t(3)]
  show ?thesis
  proof (cases r)
    case None
    then show ?thesis using r f by (simp add: graph_search_def)
  next
    case (Some a)
    then obtain d where d: "find (\<lambda>e. gcmp g (StackBag k) e = 0) (inorder t) = Some d" "map_option n_data (mem (gtr g) a) = Some d"
      using r(2,3) by auto
    then have "graph_search fuel g k = Inr (Some d)" using r(1) Some by (auto simp: graph_search_def getn_def)
    moreover have "bag_of g A d k" "d \<in> set ds" using f d(1) t(3) by simp_all
    ultimately show ?thesis by (auto simp: bag_of_def)
  qed
qed

section \<open>Adding a vertex\<close>

definition extends :: "'w graph \<Rightarrow> 'w graph \<Rightarrow> bool" where
  "extends g g' \<longleftrightarrow> gnodes g \<subseteq>\<^sub>m gnodes g' \<and> gbags g \<subseteq>\<^sub>m gbags g' \<and> weight g' = weight g"

lemma map_le_Some: "m \<subseteq>\<^sub>m m' \<Longrightarrow> m x = Some y \<Longrightarrow> m' x = Some y"
  by (metis domI map_le_def)

lemma good_bag_extends: "extends g g' \<Longrightarrow> good_bag g b ns \<Longrightarrow> good_bag g' b ns"
  using map_le_Some by (fastforce simp: good_bag_def extends_def)

lemma bag_of_extends: "extends g g' \<Longrightarrow> bag_of g A d k \<Longrightarrow> bag_of g' A d k"
proof -
  assume e: "extends g g'" and "bag_of g A d k"
  then obtain a b x ns where "d = HeapBag a" "gbags g a = Some b" "b_node b = Some x" "gnodes g x = Some k" "A k = Some ns" "good_bag g b ns"
    by (auto simp: bag_of_def)
  moreover from this have "gbags g' a = Some b" "gnodes g' x = Some k" "good_bag g' b ns"
    using e map_le_Some good_bag_extends [OF e] by (auto simp: extends_def)
  ultimately show ?thesis by (simp add: bag_of_def)
qed

lemma good_bag_fresh: "good_bag g \<lparr>b_node = Some x, b_v = replicate I None, b_w = (if weight g then Some (replicate I None) else None), b_i = Some 0, b_I = I\<rparr> [] \<longleftrightarrow> 8 \<le> I"
  by (auto simp: good_bag_def)

lemma bag_tree_insert:
  assumes bt: "bag_tree g A ds" and ext: "extends g g'" and new: "bag_of g' (A(v \<mapsto> [])) d v"
  shows "bag_tree g' (A(v \<mapsto> [])) (ins_sorted (gcmp g') d ds) \<and> (\<forall>e \<in> set ds. bkey g' e \<noteq> None) \<and> sorted_by (gcmp g') ds"
proof -
  have old: "\<exists>k. bag_of g' A e k \<and> bkey g e = Some k \<and> bkey g' e = Some k" if "e \<in> set ds" for e
  proof -
    obtain k where "bag_of g A e k" using bt \<open>e \<in> set ds\<close> by (auto simp: bag_tree_def)
    then show ?thesis using bag_of_extends [OF ext] bag_of_key by metis
  qed
  then have val: "\<forall>e \<in> set ds. bkey g' e \<noteq> None" by fastforce
  have same: "bkey g' e = bkey g e" if "e \<in> set ds" for e using old [OF that] by auto
  have dv: "bkey g' d = Some v" using bag_of_key [OF new] .
  have "sorted_by (gcmp g) ds" using bt by (simp add: bag_tree_def)
  then have so: "sorted_by (gcmp g') ds"
    by (rule sorted_wrt_mono_rel [rotated]) (use same in \<open>simp add: gcmp_def\<close>)
  let ?xs = "ins_sorted (gcmp g') d ds"
  have set: "set ?xs = insert d {e \<in> set ds. gcmp g' d e \<noteq> 0}"
    using node_order.ins_sorted_set [OF gcmp_order, of ds g' d] val dv so by simp
  have "sorted_by (gcmp g') ?xs" using node_order.sorted_ins [OF gcmp_order, of ds g' d] val dv so by simp
  moreover have "\<exists>k. bag_of g' (A(v \<mapsto> [])) e k" if e: "e \<in> set ?xs" for e
  proof (cases "e = d")
    case False
    then have "e \<in> set ds" "gcmp g' d e \<noteq> 0" using e set by auto
    then obtain k where k: "bag_of g' A e k" "k \<noteq> v" using old [of e] gcmp_zero [OF dv] by blast
    then have "bag_of g' (A(v \<mapsto> [])) e k" by (simp add: bag_of_def)
    then show ?thesis by blast
  qed (use new in blast)
  moreover have "\<exists>e \<in> set ?xs. bkey g' e = Some k" if "k \<in> dom (A(v \<mapsto> []))" for k
  proof (cases "k = v")
    case False
    then obtain e where "e \<in> set ds" "bkey g e = Some k" using bt \<open>k \<in> dom (A(v \<mapsto> []))\<close> by (auto simp: bag_tree_def)
    then show ?thesis using old [of e] gcmp_zero [OF dv] False unfolding set by fastforce
  qed (use dv set in blast)
  ultimately show ?thesis using val so by (simp add: bag_tree_def)
qed

lemma pools_large: "2 \<le> NODE_N" "2 \<le> BAG_N"
  by (simp_all add: NODE_N_def BAG_N_def)

lemma bkey_gtr [simp]: "bkey (g\<lparr>gtr := tr\<rparr>) = bkey g" "gcmp (g\<lparr>gtr := tr\<rparr>) = gcmp g"
  by (simp_all add: bkey_def gcmp_def fun_eq_iff split: bagp.splits)

lemma bag_tree_gtr [simp]: "bag_tree (g\<lparr>gtr := tr\<rparr>) A ds = bag_tree g A ds"
  by (simp add: bag_tree_def bag_of_def good_bag_def)

lemma graph_add_vertex_spec:
  assumes "graph_rep fuel (Suc m) g A"
  shows "\<exists>g'. graph_add_vertex fuel g v = Inr (0, g') \<and> graph_rep fuel m g' (A(v \<mapsto> [])) \<and>
    gv g' = gv g \<and> ge g' = ge g \<and> direct g' = direct g \<and> weight g' = weight g"
proof -
  obtain ds t where mi: "mem_inv g" and gv: "0 < gv g" and bt: "bag_tree g A ds" and
    t: "tree_inv (gtr g) t" "rb_ok t" "rb_fuel (length (addrs t) + Suc m) \<le> fuel" "inorder t = ds"
    using assms by (auto simp: graph_rep_def graph_at_def)
  have np: "pool_inv NODE_N (npool g)" "pool_inv BAG_N (bpool g)" using mi by (auto simp: mem_inv_def)
  from pool_addr_law [OF pools_large(1) np(1)] obtain x p1 where x: "pool_addr NODE_N True (npool g) = Inr (x, p1)"
    "pool_inv NODE_N p1" "x \<notin> pool_used NODE_N (npool g)" "pool_used NODE_N p1 = insert x (pool_used NODE_N (npool g))" by blast
  from pool_addr_law [OF pools_large(2) np(2)] obtain a p2 where a: "pool_addr BAG_N True (bpool g) = Inr (a, p2)"
    "pool_inv BAG_N p2" "a \<notin> pool_used BAG_N (bpool g)" "pool_used BAG_N p2 = insert a (pool_used BAG_N (bpool g))" by blast
  let ?I = "if log2_floor (gv g) < 8 then 8 else log2_floor (gv g)"
  let ?b = "\<lparr>b_node = Some x, b_v = replicate ?I None, b_w = (if weight g then Some (replicate ?I None) else None), b_i = Some 0, b_I = ?I\<rparr>"
  let ?g = "g\<lparr>npool := p1, gnodes := (gnodes g)(x \<mapsto> v), bpool := p2, gbags := (gbags g)(a \<mapsto> ?b)\<rparr>"
  have new: "x \<notin> dom (gnodes g)" "a \<notin> dom (gbags g)" using x(3) a(3) mi by (auto simp: mem_inv_def)
  then have ext: "extends g ?g" by (auto simp: extends_def map_le_def)
  have fresh: "bag_of ?g (A(v \<mapsto> [])) (HeapBag a) v" by (simp add: bag_of_def good_bag_def)
  note ins = bag_tree_insert [OF bt ext fresh]
  have fuel: "rb_fuel (Suc (length (addrs t))) \<le> fuel"
    using t(3) rb_fuel_mono [of "Suc (length (addrs t))" "length (addrs t) + Suc m"] by simp
  from rbtree_insert_sim [OF t(1) fuel, of "gcmp ?g" "HeapBag a"] obtain n tr where
    tr: "rbtree_insert True fuel (gcmp ?g) (gtr g) (HeapBag a) = Inr (n, tr)" "tree_inv tr (rb_insert (gcmp ?g) n (HeapBag a) t)" by blast
  let ?t = "rb_insert (gcmp ?g) n (HeapBag a) t"
  have "inorder ?t = ins_sorted (gcmp ?g) (HeapBag a) ds"
    using node_order.rb_insert_inorder [OF gcmp_order, of t ?g "HeapBag a" n] ins t(4) bag_of_key [OF fresh] by simp
  moreover have "rb_fuel (length (addrs ?t) + m) \<le> fuel"
    using length_rb_insert [of "gcmp ?g" n "HeapBag a" t] t(3) rb_fuel_mono [of "length (addrs ?t) + m" "length (addrs t) + Suc m"] by simp
  moreover have "mem_inv (?g\<lparr>gtr := tr\<rparr>)" using mi x a by (auto simp: mem_inv_def)
  ultimately have "graph_at fuel m (?g\<lparr>gtr := tr\<rparr>) (A(v \<mapsto> [])) (ins_sorted (gcmp ?g) (HeapBag a) ds)"
    using ins tr(2) rb_insert_ok [OF t(2)] gv unfolding graph_at_def by (intro conjI exI [of _ ?t]) simp_all
  moreover have "graph_add_vertex fuel g v = Inr (0, ?g\<lparr>gtr := tr\<rparr>)"
    using x(1) a(1) tr(1) mi gv
    by (simp add: graph_add_vertex_def graph_node_new_def graph_bag_new_def log2_size_def mem_inv_def Let_def)
  ultimately show ?thesis by (auto simp: graph_rep_def)
qed

section \<open>Adding an edge\<close>

text \<open>The abstract operation. The two ends of an undirected edge may be the same vertex.\<close>

definition append_adj :: "(int \<rightharpoonup> (int \<times> 'w) list) \<Rightarrow> int \<Rightarrow> int \<Rightarrow> 'w \<Rightarrow> (int \<rightharpoonup> (int \<times> 'w) list)" where
  "append_adj A v w we = A(v \<mapsto> the (A v) @ [(w, we)])"

definition add_edge_spec :: "bool \<Rightarrow> (int \<rightharpoonup> (int \<times> 'w) list) \<Rightarrow> int \<Rightarrow> int \<Rightarrow> 'w \<Rightarrow> (int \<rightharpoonup> (int \<times> 'w) list)" where
  "add_edge_spec dir A v w we =
     (if v \<in> dom A \<and> w \<in> dom A then
        if dir then append_adj A v w we else append_adj (append_adj A v w we) w v we
      else A)"

text \<open>The room left in the arrays of a bag.\<close>

definition room :: "'w graph_bag \<Rightarrow> nat \<Rightarrow> bool" where
  "room b r \<longleftrightarrow> (\<exists>i. b_i b = Some i \<and> i + r \<le> b_I b)"

lemma realloc_rows_nth: "j < length t \<Longrightarrow> length t \<le> m \<Longrightarrow> realloc_rows t m ! j = t ! j"
  by (simp add: realloc_rows_def nth_append)

lemma length_realloc_rows: "length t \<le> m \<Longrightarrow> length (realloc_rows t m) = m"
  by (simp add: realloc_rows_def)

lemma graph_bag_realloc_spec:
  assumes "good_bag g b ns"
  shows "\<exists>b'. graph_bag_realloc b (weight g) = Inr b' \<and> b_node b' = b_node b \<and> good_bag g b' ns \<and> room b' 2"
proof (cases "length ns < b_I b - 1")
  case True
  then show ?thesis using assms by (auto simp: graph_bag_realloc_def good_bag_def room_def)
next
  case False
  let ?I = "b_I b + (if log2_floor (b_I b) < 8 then 8 else log2_floor (b_I b))"
  let ?b = "b\<lparr>b_I := ?I, b_v := realloc_rows (b_v b) ?I,
    b_w := (if weight g then Some (realloc_rows (case b_w b of None \<Rightarrow> [] | Some w \<Rightarrow> w) ?I) else b_w b)\<rparr>"
  have I: "b_I b + 8 \<le> ?I" by simp
  have b: "b_i b = Some (length ns)" "length ns \<le> b_I b" "8 \<le> b_I b" "length (b_v b) = b_I b" using assms by (auto simp: good_bag_def)
  have "graph_bag_realloc b (weight g) = Inr ?b" using b False by (simp add: graph_bag_realloc_def Let_def)
  moreover have "good_bag g ?b ns"
    using assms I unfolding good_bag_def by (auto simp: realloc_rows_nth length_realloc_rows)
  ultimately show ?thesis using b I by (auto simp: room_def)
qed

lemma push_adj_spec:
  assumes "good_bag g b ns" "room b 1" "gnodes g x = Some k"
  shows "\<exists>b'. push_adj (weight g) x we b = Inr b' \<and> b_node b' = b_node b \<and> good_bag g b' (ns @ [(k, we)]) \<and> (\<forall>r. room b (Suc r) \<longrightarrow> room b' r)"
proof -
  have lt: "length ns < b_I b" using assms(1,2) by (auto simp: good_bag_def room_def)
  show ?thesis
  proof (cases "weight g")
    case True
    then obtain ws where ws: "b_w b = Some ws" "length ws = b_I b" "\<forall>j < length ns. ws ! j = Some (snd (ns ! j))"
      using assms(1) by (auto simp: good_bag_def)
    then show ?thesis using True assms(1,3) lt
      by (auto simp: push_adj_def good_bag_def room_def store_def nth_append nth_list_update less_Suc_eq)
  next
    case False
    then show ?thesis using assms(1,3) lt
      by (auto simp: push_adj_def good_bag_def room_def store_def nth_append nth_list_update less_Suc_eq)
  qed
qed

lemma bag_tree_unique:
  assumes "bag_tree g A ds" "d \<in> set ds" "e \<in> set ds" "bkey g d = Some k" "bkey g e = Some k"
  shows "d = e"
proof -
  have "sorted_by (gcmp g) ds" "\<forall>x \<in> set ds. bkey g x \<noteq> None" using assms(1) bag_tree_valid [OF assms(1)] by (auto simp: bag_tree_def)
  moreover have "gcmp g (StackBag k) d = 0" "gcmp g (StackBag k) e = 0"
    using gcmp_zero [of g "StackBag k" k] assms(4,5) by auto
  ultimately show ?thesis using node_order.equal_unique [OF gcmp_order, of ds g "StackBag k" d e] assms(2,3) by simp
qed

lemma bag_tree_update:
  assumes bt: "bag_tree g A ds" and p: "HeapBag a \<in> set ds" "gbags g a = Some b" "b_node b' = b_node b"
    and k: "bkey g (HeapBag a) = Some k" and ok: "good_bag g b' ns'"
  shows "bag_tree (g\<lparr>gbags := (gbags g)(a \<mapsto> b')\<rparr>) (A(k \<mapsto> ns')) ds"
proof -
  let ?g = "g\<lparr>gbags := (gbags g)(a \<mapsto> b')\<rparr>" and ?A = "A(k \<mapsto> ns')"
  have key: "bkey ?g = bkey g" using p(2,3) by (auto simp: bkey_def fun_eq_iff split: bagp.splits)
  then have cmp: "gcmp ?g = gcmp g" by (simp add: gcmp_def fun_eq_iff)
  have good: "good_bag ?g = good_bag g" by (simp add: good_bag_def fun_eq_iff)
  have "\<exists>l. bag_of ?g ?A d l" if d: "d \<in> set ds" for d
  proof -
    obtain l where l: "bag_of g A d l" using bt d by (auto simp: bag_tree_def)
    show ?thesis
    proof (cases "l = k")
      case True
      then have "d = HeapBag a" using bag_tree_unique [OF bt d p(1) _ k] bag_of_key [OF l] by simp
      then have "bag_of ?g ?A d k" using k p ok good by (auto simp: bag_of_def bkey_def split: Option.bind_splits)
      then show ?thesis by blast
    next
      case False
      then have "d \<noteq> HeapBag a" using bag_of_key [OF l] k by auto
      then have "bag_of ?g ?A d l" using l False good by (auto simp: bag_of_def)
      then show ?thesis by blast
    qed
  qed
  moreover have "\<exists>d \<in> set ds. bkey g d = Some l" if "l \<in> dom ?A" for l
    using bt that k p(1) by (cases "l = k") (auto simp: bag_tree_def)
  ultimately show ?thesis using bt by (simp add: bag_tree_def key cmp)
qed

lemma updb_spec:
  assumes at: "graph_at fuel m g A ds" and p: "p \<in> set ds" "getb g p = Inr b" "bkey g p = Some k"
    and f: "f b = Inr b'" "b_node b' = b_node b" "good_bag g b' ns'"
  shows "\<exists>g'. updb g p f = Inr g' \<and> graph_at fuel m g' (A(k \<mapsto> ns')) ds \<and> getb g' p = Inr b' \<and> (\<forall>q. q \<noteq> p \<longrightarrow> getb g' q = getb g q) \<and>
    gnodes g' = gnodes g \<and> weight g' = weight g \<and> direct g' = direct g \<and> gv g' = gv g \<and> ge g' = ge g \<and> bkey g' = bkey g"
proof -
  have bt: "bag_tree g A ds" using at by (simp add: graph_at_def)
  then obtain a where a: "p = HeapBag a" "gbags g a = Some b" using p by (cases p) (auto simp: getb_def res_simps)
  let ?g = "g\<lparr>gbags := (gbags g)(a \<mapsto> b')\<rparr>"
  have "updb g p f = Inr ?g" using f(1) a by (simp add: updb_def getb_def)
  moreover have "bag_tree ?g (A(k \<mapsto> ns')) ds" using bag_tree_update [OF bt _ a(2) f(2) _ f(3)] p a(1) by simp
  moreover have "mem_inv ?g" using at a(2) by (auto simp: graph_at_def mem_inv_def)
  moreover have "bkey ?g = bkey g" using a f(2) by (auto simp: bkey_def fun_eq_iff split: bagp.splits)
  ultimately show ?thesis using at a(1) unfolding graph_at_def by (intro exI [of _ ?g]) (auto simp: getb_def split: bagp.splits)
qed

text \<open>What the updates of bags keep.\<close>

definition same_conf :: "'w graph \<Rightarrow> 'w graph \<Rightarrow> bool" where
  "same_conf g g' \<longleftrightarrow> gnodes g' = gnodes g \<and> weight g' = weight g \<and> direct g' = direct g \<and> gv g' = gv g \<and> ge g' = ge g \<and> bkey g' = bkey g"

lemma same_conf_trans: "same_conf g g1 \<Longrightarrow> same_conf g1 g2 \<Longrightarrow> same_conf g g2"
  by (simp add: same_conf_def)

lemma graph_at_bag:
  assumes "graph_at fuel m g A ds" "p \<in> set ds" "bkey g p = Some k"
  shows "\<exists>b x ns. getb g p = Inr b \<and> b_node b = Some x \<and> gnodes g x = Some k \<and> A k = Some ns \<and> good_bag g b ns"
  using bag_tree_bag [of g A ds p k] assms by (auto simp: graph_at_def bag_of_def getb_def)

lemma realloc_step:
  assumes at: "graph_at fuel m g A ds" and p: "p \<in> set ds" "bkey g p = Some k"
  shows "\<exists>g' b'. updb g p (\<lambda>b. graph_bag_realloc b (weight g)) = Inr g' \<and> graph_at fuel m g' A ds \<and> getb g' p = Inr b' \<and> room b' 2 \<and>
    (\<forall>q. q \<noteq> p \<longrightarrow> getb g' q = getb g q) \<and> same_conf g g'"
proof -
  from graph_at_bag [OF assms] obtain b ns where b: "getb g p = Inr b" "A k = Some ns" "good_bag g b ns" by blast
  from graph_bag_realloc_spec [OF b(3)] obtain b' where b': "graph_bag_realloc b (weight g) = Inr b'" "b_node b' = b_node b" "good_bag g b' ns" "room b' 2" by blast
  have "A(k \<mapsto> ns) = A" using b(2) by (simp add: fun_upd_idem)
  with updb_spec [where f = "\<lambda>b. graph_bag_realloc b (weight g)", OF at p(1) b(1) p(2) b'(1-3)] b'(4) show ?thesis by (auto simp: same_conf_def)
qed

lemma push_step:
  assumes at: "graph_at fuel m g A ds" and p: "p \<in> set ds" "bkey g p = Some k" "getb g p = Inr b" "room b 1" and x: "gnodes g x = Some w"
  shows "\<exists>g' b'. updb g p (push_adj (weight g) x we) = Inr g' \<and> graph_at fuel m g' (append_adj A k w we) ds \<and> getb g' p = Inr b' \<and>
    (room b 2 \<longrightarrow> room b' 1) \<and> (\<forall>q. q \<noteq> p \<longrightarrow> getb g' q = getb g q) \<and> same_conf g g'"
proof -
  from graph_at_bag [OF at p(1,2)] p(3) obtain ns where b: "A k = Some ns" "good_bag g b ns" by auto
  from push_adj_spec [OF b(2) p(4) x, of we] obtain b' where b': "push_adj (weight g) x we b = Inr b'" "b_node b' = b_node b"
    "good_bag g b' (ns @ [(w, we)])" "\<forall>r. room b (Suc r) \<longrightarrow> room b' r" by blast
  have "append_adj A k w we = A(k \<mapsto> ns @ [(w, we)])" using b(1) by (simp add: append_adj_def)
  with updb_spec [where f = "push_adj (weight g) x we", OF at p(1,3,2) b'(1-3)] b'(4) show ?thesis by (auto simp: same_conf_def numeral_2_eq_2)
qed

lemma room_mono: "room b r \<Longrightarrow> s \<le> r \<Longrightarrow> room b s"
  by (auto simp: room_def)

lemma updb_bag: "updb g p f = Inr g' \<Longrightarrow> \<exists>b b'. getb g p = Inr b \<and> f b = Inr b' \<and> getb g' p = Inr b'"
  by (cases p) (auto simp: updb_def getb_def res_simps)

lemma realloc_idle: "b_i b = Some i \<Longrightarrow> Suc i < b_I b \<Longrightarrow> graph_bag_realloc b wt = Inr b"
  by (simp add: graph_bag_realloc_def less_diff_conv)

lemma push_capacity: "push_adj wt x we b = Inr b' \<Longrightarrow> b_I b' = b_I b"
  by (auto simp: push_adj_def res_simps split: option.splits)

lemma graph_add_edge_direct:
  assumes at: "graph_at fuel m g A ds" and v: "graph_search fuel g v = Inr (Some pv)" "pv \<in> set ds" "bkey g pv = Some v"
    and w: "graph_search fuel g w = Inr (Some pw)" "pw \<in> set ds" "bkey g pw = Some w" and d: "direct g"
  shows "\<exists>g'. graph_add_edge fuel g v w we = Inr (0, g') \<and> graph_at fuel m g' (append_adj A v w we) ds \<and> same_conf g g' \<and>
    (\<forall>q. q \<noteq> pv \<longrightarrow> getb g' q = getb g q) \<and>
    (\<forall>b i. getb g pv = Inr b \<longrightarrow> b_i b = Some i \<longrightarrow> Suc i < b_I b \<longrightarrow> (\<exists>b'. getb g' pv = Inr b' \<and> b_I b' = b_I b))"
proof -
  from graph_at_bag [OF at v(2,3)] obtain bv xv where bv: "getb g pv = Inr bv" "b_node bv = Some xv" by blast
  from graph_at_bag [OF at w(2,3)] obtain bw xw where bw: "getb g pw = Inr bw" "b_node bw = Some xw" "gnodes g xw = Some w" by blast
  from realloc_step [OF at v(2,3)] obtain g1 b1 where g1: "updb g pv (\<lambda>b. graph_bag_realloc b (weight g)) = Inr g1" "graph_at fuel m g1 A ds"
    "getb g1 pv = Inr b1" "room b1 2" "same_conf g g1" "\<forall>q. q \<noteq> pv \<longrightarrow> getb g1 q = getb g q" by blast
  have r1: "room b1 1" using room_mono [OF g1(4)] by simp
  have k1: "bkey g1 pv = Some v" "gnodes g1 xw = Some w" using g1(5) v(3) bw(3) by (auto simp: same_conf_def)
  from push_step [OF g1(2) v(2) k1(1) g1(3) r1 k1(2), of we] obtain g2 where
    g2: "updb g1 pv (push_adj (weight g1) xw we) = Inr g2" "graph_at fuel m g2 (append_adj A v w we) ds" "same_conf g1 g2"
    "\<forall>q. q \<noteq> pv \<longrightarrow> getb g2 q = getb g1 q" by blast
  have "direct g1" "direct g2" using g1(5) g2(3) d by (simp_all add: same_conf_def)
  moreover have "has_realloc g" using at by (simp add: graph_at_def mem_inv_def)
  ultimately have "graph_add_edge fuel g v w we = Inr (0, g2)"
    using v(1) w(1) bv bw g1(1) g2(1) by (simp add: graph_add_edge_def)
  moreover have "\<exists>b'. getb g2 pv = Inr b' \<and> b_I b' = b_I b" if "getb g pv = Inr b" "b_i b = Some i" "Suc i < b_I b" for b i
    using updb_bag [OF g1(1)] updb_bag [OF g2(1)] that realloc_idle [OF that(2,3)] push_capacity by fastforce
  ultimately show ?thesis using g2(2,4) g1(6) same_conf_trans [OF g1(5) g2(3)] by auto
qed

lemma graph_add_edge_found:
  assumes at: "graph_at fuel m g A ds" and v: "graph_search fuel g v = Inr (Some pv)" "pv \<in> set ds" "bkey g pv = Some v"
    and w: "graph_search fuel g w = Inr (Some pw)" "pw \<in> set ds" "bkey g pw = Some w"
  shows "\<exists>g'. graph_add_edge fuel g v w we = Inr (0, g') \<and>
    graph_at fuel m g' (if direct g then append_adj A v w we else append_adj (append_adj A v w we) w v we) ds \<and> same_conf g g'"
proof -
  from graph_at_bag [OF at v(2,3)] obtain bv xv where bv: "getb g pv = Inr bv" "b_node bv = Some xv" "gnodes g xv = Some v" by blast
  from graph_at_bag [OF at w(2,3)] obtain bw xw where bw: "getb g pw = Inr bw" "b_node bw = Some xw" "gnodes g xw = Some w" by blast
  have hr: "has_realloc g" using at by (simp add: graph_at_def mem_inv_def)
  from realloc_step [OF at v(2,3)] obtain g1 b1 where g1: "updb g pv (\<lambda>b. graph_bag_realloc b (weight g)) = Inr g1" "graph_at fuel m g1 A ds"
    "getb g1 pv = Inr b1" "room b1 2" "same_conf g g1" by blast
  show ?thesis
  proof (cases "direct g")
    case True
    then show ?thesis using graph_add_edge_direct [OF at v w True, of we] by auto
  next
    case False
    have k1: "bkey g1 pw = Some w" using g1(5) w(3) by (auto simp: same_conf_def)
    from realloc_step [OF g1(2) w(2) k1] obtain g2 b2 where g2: "updb g1 pw (\<lambda>b. graph_bag_realloc b (weight g1)) = Inr g2" "graph_at fuel m g2 A ds"
      "getb g2 pw = Inr b2" "room b2 2" "\<forall>q. q \<noteq> pw \<longrightarrow> getb g2 q = getb g1 q" "same_conf g1 g2" by blast
    have c2: "same_conf g g2" using same_conf_trans [OF g1(5) g2(6)] .
    obtain b2v where b2v: "getb g2 pv = Inr b2v" "room b2v 2" using g1(3,4) g2(3-5) by (cases "pv = pw") auto
    have r2: "room b2v 1" using room_mono [OF b2v(2)] by simp
    have k2: "bkey g2 pv = Some v" "gnodes g2 xw = Some w" using c2 v(3) bw(3) by (auto simp: same_conf_def)
    from push_step [OF g2(2) v(2) k2(1) b2v(1) r2 k2(2), of we] obtain g3 b3 where
      g3: "updb g2 pv (push_adj (weight g2) xw we) = Inr g3" "graph_at fuel m g3 (append_adj A v w we) ds" "getb g3 pv = Inr b3" "room b3 1"
      "\<forall>q. q \<noteq> pv \<longrightarrow> getb g3 q = getb g2 q" "same_conf g2 g3" using b2v(2) by blast
    have c3: "same_conf g g3" using same_conf_trans [OF c2 g3(6)] .
    obtain b3w where b3w: "getb g3 pw = Inr b3w" "room b3w 1" using g2(3,4) g3(3-5) room_mono [of b2 2 1] by (cases "pv = pw") auto
    have k3: "bkey g3 pw = Some w" "gnodes g3 xv = Some v" using c3 w(3) bv(3) by (auto simp: same_conf_def)
    from push_step [OF g3(2) w(2) k3(1) b3w(1,2) k3(2), of we] obtain g4 where
      g4: "updb g3 pw (push_adj (weight g3) xv we) = Inr g4" "graph_at fuel m g4 (append_adj (append_adj A v w we) w v we) ds" "same_conf g3 g4" by blast
    have "\<not> direct g1" "\<not> direct g2" "\<not> direct g3" using g1(5) c2 c3 False by (simp_all add: same_conf_def)
    then have "graph_add_edge fuel g v w we = Inr (0, g4)"
      using v(1) w(1) bv bw hr g1(1) g2(1) g3(1) g4(1) by (simp add: graph_add_edge_def)
    then show ?thesis using False g4(2) same_conf_trans [OF c3 g4(3)] by auto
  qed
qed

lemma graph_add_edge_rep:
  assumes "graph_rep fuel m g A"
  shows "\<exists>g'. graph_add_edge fuel g v w we = Inr (if v \<in> dom A \<and> w \<in> dom A then 0 else - 1, g') \<and>
    graph_rep fuel m g' (add_edge_spec (direct g) A v w we) \<and> same_conf g g'"
proof -
  obtain ds where at: "graph_at fuel m g A ds" using assms by (auto simp: graph_rep_def)
  note sv = graph_search_spec [OF at, of v] and sw = graph_search_spec [OF at, of w]
  show ?thesis
  proof (cases "v \<in> dom A \<and> w \<in> dom A")
    case True
    then obtain pv pw where "graph_search fuel g v = Inr (Some pv)" "pv \<in> set ds" "bkey g pv = Some v"
      "graph_search fuel g w = Inr (Some pw)" "pw \<in> set ds" "bkey g pw = Some w" using sv sw bag_of_key by fastforce
    from graph_add_edge_found [OF at this, of we] True show ?thesis by (auto simp: graph_rep_def add_edge_spec_def)
  next
    case False
    then have "graph_add_edge fuel g v w we = Inr (- 1, g)" using sv sw
      by (auto simp: graph_add_edge_def domIff split: option.splits)
    moreover have "same_conf g g" by (simp add: same_conf_def)
    ultimately show ?thesis using False assms by (auto simp: add_edge_spec_def)
  qed
qed

lemma graph_adj_spec:
  assumes "graph_rep fuel m g A"
  shows "case A v of None \<Rightarrow> graph_adj fuel g v = Inr None
    | Some ns \<Rightarrow> \<exists>arr. graph_adj fuel g v = Inr (Some (arr, length ns)) \<and> length ns \<le> length arr \<and>
        (\<forall>j < length ns. \<exists>x. arr ! j = Some x \<and> gnodes g x = Some (fst (ns ! j)))"
proof -
  obtain ds where at: "graph_at fuel m g A ds" using assms by (auto simp: graph_rep_def)
  note s = graph_search_spec [OF at, of v]
  show ?thesis
  proof (cases "A v")
    case None
    then show ?thesis using s by (simp add: graph_adj_def)
  next
    case (Some ns)
    then obtain p where p: "graph_search fuel g v = Inr (Some p)" "bag_of g A p v" using s by auto
    then obtain a b where b: "p = HeapBag a" "gbags g a = Some b" "b_node b \<noteq> None" "good_bag g b ns" using Some by (auto simp: bag_of_def)
    then show ?thesis using p(1) Some by (auto simp: graph_adj_def getb_def good_bag_def)
  qed
qed

lemma graph_new_rep:
  assumes "rb_fuel m \<le> fuel" "0 < m \<longrightarrow> 0 < v"
  shows "graph_rep fuel m ((graph_new d True (Some 0))\<lparr>gv := v, ge := e, weight := wt\<rparr>) Map.empty"
proof -
  let ?g = "(graph_new d True (Some 0))\<lparr>gv := v, ge := e, weight := wt\<rparr>"
  have "bag_tree ?g Map.empty []" by (simp add: bag_tree_def)
  moreover have "mem_inv ?g" using pool_init_inv [of 8] pools_large by (auto simp: mem_inv_def graph_new_def)
  moreover have "tree_inv (gtr ?g) Leaf" using rb_tree_init_inv [of 8 False] by (simp add: graph_new_def)
  ultimately have "graph_at fuel m ?g Map.empty []"
    unfolding graph_at_def using assms rb_ok_Leaf by (intro conjI exI [of _ Leaf]) (auto simp: graph_new_def)
  then show ?thesis by (auto simp: graph_rep_def)
qed

section \<open>The contract of the adjacency lists\<close>

fun add_vertices_all :: "('g \<Rightarrow> int \<Rightarrow> cerr + int \<times> 'g) \<Rightarrow> 'g \<Rightarrow> int list \<Rightarrow> cerr + int \<times> 'g" where
  "add_vertices_all addv g [] = Inr (0, g)"
| "add_vertices_all addv g (v # vs) = bindr (addv g v) (\<lambda>(r, g). if r \<noteq> 0 then Inr (- 1, g) else add_vertices_all addv g vs)"

fun add_edges_all :: "('g \<Rightarrow> int \<Rightarrow> int \<Rightarrow> 'w \<Rightarrow> cerr + int \<times> 'g) \<Rightarrow> 'g \<Rightarrow> (int \<times> int \<times> 'w) list \<Rightarrow> cerr + 'g" where
  "add_edges_all adde g [] = Inr g"
| "add_edges_all adde g ((v, w, we) # es) = bindr (adde g v w we) (\<lambda>(r, g). add_edges_all adde g es)"

text \<open>The neighbours that a sequence of edges gives to the vertex \<open>k\<close>, among the vertices \<open>D\<close>.\<close>

definition nbrs :: "bool \<Rightarrow> int set \<Rightarrow> (int \<times> int \<times> 'w) list \<Rightarrow> int \<Rightarrow> (int \<times> 'w) list" where
  "nbrs dir D es k = concat (map (\<lambda>(v, w, we).
     if v \<in> D \<and> w \<in> D then (if v = k then [(w, we)] else []) @ (if \<not> dir \<and> w = k then [(v, we)] else []) else []) es)"

lemma nbrs_Nil: "nbrs dir D [] k = []"
  by (simp add: nbrs_def)

lemma nbrs_Cons: "nbrs dir D ((v, w, we) # es) k =
    (if v \<in> D \<and> w \<in> D then (if v = k then [(w, we)] else []) @ (if \<not> dir \<and> w = k then [(v, we)] else []) else []) @ nbrs dir D es k"
  by (simp add: nbrs_def)

lemma nbrs_append: "nbrs dir D (es @ fs) k = nbrs dir D es k @ nbrs dir D fs k"
  by (simp add: nbrs_def)

definition adj_of :: "bool \<Rightarrow> int set \<Rightarrow> (int \<times> int \<times> 'w) list \<Rightarrow> int \<Rightarrow> (int \<times> 'w) list option" where
  "adj_of dir D es k = (if k \<in> D then Some (nbrs dir D es k) else None)"

lemma adj_of_step: "add_edge_spec dir (adj_of dir D es) v w we = adj_of dir D (es @ [(v, w, we)])"
  by (auto simp: add_edge_spec_def append_adj_def adj_of_def nbrs_def fun_eq_iff domIff)

text \<open>The graph holds the adjacency lists, and \<open>m\<close> more vertices may be added.\<close>

locale adjacency =
  fixes rep :: "nat \<Rightarrow> 'g \<Rightarrow> (int \<rightharpoonup> (int \<times> 'w) list) \<Rightarrow> bool"
    and dir :: "'g \<Rightarrow> bool"
    and addv :: "'g \<Rightarrow> int \<Rightarrow> cerr + int \<times> 'g"
    and adde :: "'g \<Rightarrow> int \<Rightarrow> int \<Rightarrow> 'w \<Rightarrow> cerr + int \<times> 'g"
    and conf :: "'g \<Rightarrow> 'c"
  assumes vertex_law: "rep (Suc m) g A \<Longrightarrow> \<exists>g'. addv g v = Inr (0, g') \<and> rep m g' (A(v \<mapsto> [])) \<and> dir g' = dir g \<and> conf g' = conf g"
    and edge_law: "rep m g A \<Longrightarrow> \<exists>r g'. adde g v w we = Inr (r, g') \<and> rep m g' (add_edge_spec (dir g) A v w we) \<and> dir g' = dir g \<and> conf g' = conf g"
begin

lemma add_vertices_all_rep:
  assumes "rep (length vs + m) g (adj_of d D [])"
  shows "\<exists>g'. add_vertices_all addv g vs = Inr (0, g') \<and> rep m g' (adj_of d (D \<union> set vs) []) \<and> dir g' = dir g \<and> conf g' = conf g"
  using assms
proof (induction vs arbitrary: g D)
  case (Cons v vs)
  then obtain g1 where g1: "addv g v = Inr (0, g1)" "rep (length vs + m) g1 ((adj_of d D [])(v \<mapsto> []))" "dir g1 = dir g" "conf g1 = conf g"
    using vertex_law [of "length vs + m" g "adj_of d D []" v] by auto
  moreover have "(adj_of d D [])(v \<mapsto> []) = (adj_of d (insert v D) [] :: int \<Rightarrow> (int \<times> 'w) list option)"
    by (auto simp: adj_of_def nbrs_def fun_eq_iff)
  ultimately show ?case using Cons.IH [of g1 "insert v D"] by auto
qed simp

lemma add_edges_all_rep:
  assumes "rep m g (adj_of (dir g) D es0)"
  shows "\<exists>g'. add_edges_all adde g es = Inr g' \<and> rep m g' (adj_of (dir g) D (es0 @ es)) \<and> dir g' = dir g \<and> conf g' = conf g"
  using assms
proof (induction es arbitrary: g es0)
  case (Cons e es)
  obtain v w we where e: "e = (v, w, we)" by (cases e)
  from edge_law [OF Cons.prems, of v w we] obtain r g1 where g1: "adde g v w we = Inr (r, g1)"
    "rep m g1 (adj_of (dir g) D (es0 @ [e]))" "dir g1 = dir g" "conf g1 = conf g" unfolding adj_of_step e by blast
  then show ?case using Cons.IH [of g1 "es0 @ [e]"] e by auto
qed simp

end

interpretation gl: adjacency "graph_rep fuel" direct "graph_add_vertex fuel" "graph_add_edge fuel" "\<lambda>g. (gv g, ge g, weight g)" for fuel
proof
  fix m and g :: "'a graph" and A v
  assume "graph_rep fuel (Suc m) g A"
  from graph_add_vertex_spec [OF this, of v] show "\<exists>g'. graph_add_vertex fuel g v = Inr (0, g') \<and> graph_rep fuel m g' (A(v \<mapsto> [])) \<and>
    direct g' = direct g \<and> (gv g', ge g', weight g') = (gv g, ge g, weight g)" by auto
next
  fix m and g :: "'a graph" and A v w we
  assume "graph_rep fuel m g A"
  from graph_add_edge_rep [OF this, of v w we] show "\<exists>r g'. graph_add_edge fuel g v w we = Inr (r, g') \<and>
    graph_rep fuel m g' (add_edge_spec (direct g) A v w we) \<and> direct g' = direct g \<and> (gv g', ge g', weight g') = (gv g, ge g, weight g)"
    unfolding same_conf_def by fastforce
qed

section \<open>A client that leaves the count unset\<close>

text \<open>The same graph with no count set in any bag.\<close>

definition unset :: "'w graph \<Rightarrow> 'w graph" where
  "unset g = g\<lparr>bag_count := None, gbags := (\<lambda>a. map_option (\<lambda>b. b\<lparr>b_i := None\<rparr>) (gbags g a))\<rparr>"

lemma unset_simps [simp]:
  "gtr (unset g) = gtr g" "npool (unset g) = npool g" "bpool (unset g) = bpool g" "gv (unset g) = gv g" "ge (unset g) = ge g"
  "direct (unset g) = direct g" "weight (unset g) = weight g" "dfs_marked (unset g) = dfs_marked g" "has_realloc (unset g) = has_realloc g"
  "gnodes (unset g) = gnodes g" "heap_ok (unset g) = heap_ok g" "bag_count (unset g) = None"
  by (simp_all add: unset_def)

lemma unset_update:
  "(unset g)\<lparr>gv := v\<rparr> = unset (g\<lparr>gv := v\<rparr>)" "(unset g)\<lparr>ge := e\<rparr> = unset (g\<lparr>ge := e\<rparr>)"
  "(unset g)\<lparr>weight := wt\<rparr> = unset (g\<lparr>weight := wt\<rparr>)" "(unset g)\<lparr>gtr := tr\<rparr> = unset (g\<lparr>gtr := tr\<rparr>)"
  "(unset g)\<lparr>dfs_marked := ms\<rparr> = unset (g\<lparr>dfs_marked := ms\<rparr>)"
  "(unset g)\<lparr>npool := p, gnodes := ns\<rparr> = unset (g\<lparr>npool := p, gnodes := ns\<rparr>)"
  by (simp_all add: unset_def)

lemma unset_new: "graph_new d realloc None = unset (graph_new d realloc (Some 0))"
  by (simp add: unset_def graph_new_def)

lemma unset_bag: "gbags (unset g) a = map_option (\<lambda>b. b\<lparr>b_i := None\<rparr>) (gbags g a)"
  by (simp add: unset_def)

lemma getb_unset: "getb (unset g) p = bindr (getb g p) (\<lambda>b. Inr (b\<lparr>b_i := None\<rparr>))"
  by (auto simp: getb_def unset_bag deref_def split: bagp.split option.split)

lemma bkey_unset [simp]: "bkey (unset g) = bkey g"
  by (rule ext) (auto simp: bkey_def unset_bag split: bagp.split option.split bind_split)

lemma gcmp_unset [simp]: "gcmp (unset g) = gcmp g"
  by (intro ext) (simp add: gcmp_def)

lemma graph_search_unset [simp]: "graph_search fuel (unset g) k = graph_search fuel g k"
  by (simp only: graph_search_def gcmp_unset unset_simps)

lemma walk_into_unset [simp]: "walk_into fuel cap (unset g) = walk_into fuel cap g"
  by (simp add: walk_into_def)

lemma graph_bag_new_unset: "graph_bag_new (unset g) x = bindr (graph_bag_new g x) (\<lambda>(a, g). Inr (a, unset g))"
  by (cases "pool_addr BAG_N (heap_ok g) (bpool g)"; cases "log2_size (gv g)")
    (auto simp: graph_bag_new_def Let_def unset_def fun_eq_iff)

lemma graph_add_vertex_unset: "graph_add_vertex fuel (unset g) v = bindr (graph_add_vertex fuel g v) (\<lambda>(r, g). Inr (r, unset g))"
proof -
  have n: "graph_node_new (unset g) v = bindr (graph_node_new g v) (\<lambda>(a, g). Inr (a, unset g))"
    by (cases "pool_addr NODE_N (heap_ok g) (npool g)") (auto simp: graph_node_new_def unset_update)
  show ?thesis
  proof (cases "graph_node_new g v")
    case (Inr r)
    then obtain x g1 where g1: "graph_node_new g v = Inr (x, g1)" by (cases r) auto
    show ?thesis
    proof (cases "graph_bag_new g1 x")
      case (Inr r)
      then obtain a g2 where g2: "graph_bag_new g1 x = Inr (a, g2)" by (cases r) auto
      then show ?thesis using n g1
        by (cases "rbtree_insert (heap_ok g2) fuel (gcmp g2) (gtr g2) (HeapBag a)")
          (auto simp: graph_add_vertex_def graph_bag_new_unset unset_update)
    qed (use n g1 in \<open>simp add: graph_add_vertex_def graph_bag_new_unset\<close>)
  qed (use n in \<open>simp add: graph_add_vertex_def\<close>)
qed

lemma add_vertices_all_unset:
  "add_vertices_all (graph_add_vertex fuel) (unset g) vs = bindr (add_vertices_all (graph_add_vertex fuel) g vs) (\<lambda>(r, g). Inr (r, unset g))"
proof (induction vs arbitrary: g)
  case (Cons v vs)
  then show ?case by (cases "graph_add_vertex fuel g v") (auto simp: graph_add_vertex_unset)
qed simp

text \<open>The first edge between two vertices, and the first look at a vertex, read the count.\<close>

lemma graph_add_edge_unset:
  assumes "graph_rep fuel m g A"
  shows "graph_add_edge fuel (unset g) v w we = (if v \<in> dom A \<and> w \<in> dom A then Inl UninitRead else Inr (- 1, unset g))"
proof -
  obtain ds where at: "graph_at fuel m g A ds" using assms by (auto simp: graph_rep_def)
  note sv = graph_search_spec [OF at, of v] and sw = graph_search_spec [OF at, of w]
  have "has_realloc g" using at by (simp add: graph_at_def mem_inv_def)
  then show ?thesis using sv sw
    by (auto simp: graph_add_edge_def domIff bag_of_def unset_bag updb_def graph_bag_realloc_def getb_def split: option.splits)
qed

lemma graph_adj_unset:
  assumes "graph_rep fuel m g A"
  shows "graph_adj fuel (unset g) v = (if v \<in> dom A then Inl UninitRead else Inr None)"
proof -
  obtain ds where at: "graph_at fuel m g A ds" using assms by (auto simp: graph_rep_def)
  show ?thesis using graph_search_spec [OF at, of v]
    by (auto simp: graph_adj_def domIff bag_of_def unset_bag getb_def split: option.splits)
qed

text \<open>The edges whose two ends are vertices.\<close>

definition inner_edges :: "int set \<Rightarrow> (int \<times> int \<times> 'w) list \<Rightarrow> (int \<times> int \<times> 'w) list" where
  "inner_edges D es = filter (\<lambda>e. fst e \<in> D \<and> fst (snd e) \<in> D) es"

lemma add_edges_all_unset:
  assumes "graph_rep fuel m g A" "dom A = D"
  shows "add_edges_all (graph_add_edge fuel) (unset g) es = (if inner_edges D es = [] then Inr (unset g) else Inl UninitRead)"
proof (induction es)
  case (Cons e es)
  then show ?case using graph_add_edge_unset [OF assms(1)] assms(2) by (cases e) (auto simp: inner_edges_def)
qed (simp add: inner_edges_def)

end
