(* ===== verification/Graph_IO.thy ===== *)
theory Graph_IO
  imports Graph_Core C_Text
begin

text \<open>
  Reading a graph from a file and printing it: \<open>graph_init\<close>, \<open>wgraph_init\<close> and \<open>graph_c_str\<close> of
  \<^verbatim>\<open>src/algs/algorithms4th/graph.cpp\<close>.

  A file is its text. The loops that read edges take fuel (the parameter \<open>n\<close>), since a text that is not a number
  is never consumed and the loop then does not end. Reading and printing a weight are parameters.
\<close>

declare split_paired_Ex [simp del] split_paired_All [simp del]

section \<open>The program\<close>

text \<open>A \<open>size_t\<close> passed as an \<open>int\<close>.\<close>

definition int_of_size :: "nat \<Rightarrow> int" where
  "int_of_size i = (int i + 2147483648) mod 4294967296 - 2147483648"

text \<open>\<open>fscanf(in, "%zu", &v)\<close>: \<open>None\<close> if the result is not 1. A minus sign negates modulo the word.\<close>

definition fscanf_zu :: "string \<Rightarrow> cerr + (nat \<times> string) option" where
  "fscanf_zu s =
     (case scan_num s of ScanOk k s' \<Rightarrow> if \<bar>k\<bar> < 2 ^ 64 then Inr (Some (nat (k mod 2 ^ 64), s')) else Inl SignedOverflow
      | _ \<Rightarrow> Inr None)"

fun load_edges :: "nat \<Rightarrow> nat \<Rightarrow> 'w \<Rightarrow> 'w graph \<Rightarrow> string \<Rightarrow> cerr + 'w graph" where
  "load_edges 0 fuel zero g s = Inl OutOfFuel"
| "load_edges (Suc n) fuel zero g s =
     bindr (fscanf_dd s) (\<lambda>r. case r of None \<Rightarrow> Inr g
     | Some (None, s') \<Rightarrow> load_edges n fuel zero g s'
     | Some (Some (w, x), s') \<Rightarrow> bindr (graph_add_edge fuel g w x zero) (\<lambda>(r, g). load_edges n fuel zero g s'))"

text \<open>The loop over \<open>i < v\<close>.\<close>

definition add_vertices :: "nat \<Rightarrow> 'w graph \<Rightarrow> nat \<Rightarrow> cerr + int \<times> 'w graph" where
  "add_vertices fuel g v = add_vertices_all (graph_add_vertex fuel) g (map int_of_size [0..<v])"

definition graph_init :: "nat \<Rightarrow> nat \<Rightarrow> 'w \<Rightarrow> 'w graph \<Rightarrow> string \<Rightarrow> cerr + int \<times> 'w graph" where
  "graph_init n fuel zero g s =
     bindr (fscanf_zu s) (\<lambda>r. case r of None \<Rightarrow> Inr (- 1, g) | Some (v, s) \<Rightarrow>
     let g = g\<lparr>gv := v\<rparr> in
     bindr (fscanf_zu s) (\<lambda>r. case r of None \<Rightarrow> Inr (- 1, g) | Some (e, s) \<Rightarrow>
     let g = g\<lparr>ge := e\<rparr> in
     bindr (add_vertices fuel g v) (\<lambda>(r, g). if r \<noteq> 0 then Inr (- 1, g) else
     bindr (load_edges n fuel zero g s) (\<lambda>g. Inr (0, g)))))"

text \<open>The callbacks of \<open>wgraph_init\<close>: which are set, and the calls made.\<close>

datatype cb_call = VertexBegin nat nat | VertexEnd nat nat | EdgeBegin nat nat | EdgeEnd nat nat

record callbacks =
  cb_vertex_begin :: bool
  cb_vertex_end :: bool
  cb_edge_begin :: bool
  cb_edge_end :: bool

fun wadd_vertices :: "nat \<Rightarrow> callbacks \<Rightarrow> 'w graph \<Rightarrow> nat \<Rightarrow> nat \<Rightarrow> cerr + int \<times> cb_call list \<times> 'w graph" where
  "wadd_vertices fuel cb g i 0 = Inr (0, [], g)"
| "wadd_vertices fuel cb g i (Suc c) =
     bindr (graph_add_vertex fuel g (int_of_size i)) (\<lambda>(r, g).
     if r \<noteq> 0 then Inr (- 1, [], g) else
     bindr (wadd_vertices fuel cb g (Suc i) c) (\<lambda>(r, l, g').
     Inr (r, (if cb_vertex_begin cb then VertexBegin (gv g) (Suc i) # l else l), g')))"

text \<open>\<open>fscanf(in, "%d%d%f", &w, &x, &we)\<close>; reading the weight is a parameter.\<close>

definition fscanf_ddf :: "(string \<Rightarrow> 'w scan) \<Rightarrow> string \<Rightarrow> cerr + ((int \<times> int \<times> 'w) option \<times> string) option" where
  "fscanf_ddf scan_f s =
     bindr (fscanf_dd s) (\<lambda>r. case r of None \<Rightarrow> Inr None | Some (None, s') \<Rightarrow> Inr (Some (None, s'))
     | Some (Some (w, x), s') \<Rightarrow> Inr (Some (case scan_f s' of ScanEof \<Rightarrow> (None, []) | ScanFail s2 \<Rightarrow> (None, s2)
         | ScanOk we s2 \<Rightarrow> (Some (w, x, we), s2))))"

fun wload_edges :: "nat \<Rightarrow> nat \<Rightarrow> (string \<Rightarrow> 'w scan) \<Rightarrow> callbacks \<Rightarrow> 'w graph \<Rightarrow> nat \<Rightarrow> string \<Rightarrow> cerr + nat \<times> cb_call list \<times> 'w graph" where
  "wload_edges 0 fuel scan_f cb g k s = Inl OutOfFuel"
| "wload_edges (Suc n) fuel scan_f cb g k s =
     bindr (fscanf_ddf scan_f s) (\<lambda>r. case r of None \<Rightarrow> Inr (k, [], g)
     | Some (None, s') \<Rightarrow> wload_edges n fuel scan_f cb g k s'
     | Some (Some (w, x, we), s') \<Rightarrow>
         bindr (graph_add_edge fuel g w x we) (\<lambda>(r, g).
         bindr (wload_edges n fuel scan_f cb g (Suc k) s') (\<lambda>(k', l, g').
         Inr (k', (if cb_edge_begin cb then EdgeBegin (ge g) (Suc (Suc k)) # l else l), g'))))"

definition wgraph_init :: "nat \<Rightarrow> nat \<Rightarrow> (string \<Rightarrow> 'w scan) \<Rightarrow> callbacks \<Rightarrow> 'w graph \<Rightarrow> string \<Rightarrow> cerr + int \<times> cb_call list \<times> 'w graph" where
  "wgraph_init n fuel scan_f cb g s =
     (let g = g\<lparr>weight := True\<rparr> in
     bindr (fscanf_zu s) (\<lambda>r. case r of None \<Rightarrow> Inr (- 1, [], g) | Some (v, s) \<Rightarrow>
     let g = g\<lparr>gv := v\<rparr> in
     bindr (fscanf_zu s) (\<lambda>r. case r of None \<Rightarrow> Inr (- 1, [], g) | Some (e, s) \<Rightarrow>
     let g = g\<lparr>ge := e\<rparr> in
     bindr (wadd_vertices fuel cb g 0 v) (\<lambda>(r, l1, g). if r \<noteq> 0 then Inr (- 1, l1, g) else
     if \<not> cb_vertex_end cb then Inl NullDeref else
     bindr (wload_edges n fuel scan_f cb g 0 s) (\<lambda>(k, l2, g').
     if \<not> cb_edge_end cb then Inl NullDeref else
     Inr (0, l1 @ VertexEnd (gv g) v # l2 @ [EdgeEnd (ge g') k], g'))))))"

text \<open>\<open>graph_c_str\<close>: the count of characters so far and the buffer, if there is one. Text goes into the buffer while
  there is room, else into a scratch array.\<close>

type_synonym out = "nat \<times> string option"

definition emit :: "nat \<Rightarrow> string \<Rightarrow> out \<Rightarrow> cerr + out" where
  "emit len s st =
     (case snd st of None \<Rightarrow> Inr (fst st + length s, None)
      | Some b \<Rightarrow> if len > fst st then bindr (snprintf_at b (fst st) (len - fst st) s) (\<lambda>b. Inr (fst st + length s, Some b))
                 else Inr (fst st + length s, Some b))"

definition emit_newline :: "nat \<Rightarrow> out \<Rightarrow> cerr + out" where
  "emit_newline len st =
     (case snd st of None \<Rightarrow> Inr (Suc (fst st), None)
      | Some b \<Rightarrow> if len > fst st then bindr (store b (fst st) (CHR 0x0A)) (\<lambda>b. Inr (Suc (fst st), Some b))
                 else Inr (Suc (fst st), Some b))"

definition adj_text :: "('w \<Rightarrow> string) \<Rightarrow> 'w graph \<Rightarrow> 'w graph_bag \<Rightarrow> nat \<Rightarrow> cerr + string" where
  "adj_text fmt g gb j =
     bindr (read_cell (b_v gb) j) (\<lambda>x. bindr (deref (gnodes g x)) (\<lambda>key.
     if weight g then
       bindr (deref (b_w gb)) (\<lambda>w. bindr (read_cell w j) (\<lambda>we.
       Inr (''('' @ fmt we @ '')'' @ show_int key @ '', '')))
     else Inr (show_int key @ '', '')))"

fun c_str_adjs :: "('w \<Rightarrow> string) \<Rightarrow> 'w graph \<Rightarrow> 'w graph_bag \<Rightarrow> nat \<Rightarrow> nat \<Rightarrow> nat \<Rightarrow> out \<Rightarrow> cerr + out" where
  "c_str_adjs fmt g gb len j 0 st = Inr st"
| "c_str_adjs fmt g gb len j (Suc c) st =
     bindr (adj_text fmt g gb j) (\<lambda>s. bindr (emit len s st) (\<lambda>st. c_str_adjs fmt g gb len (Suc j) c st))"

fun c_str_bags :: "('w \<Rightarrow> string) \<Rightarrow> 'w graph \<Rightarrow> nat \<Rightarrow> bagp list \<Rightarrow> out \<Rightarrow> cerr + out" where
  "c_str_bags fmt g len [] st = Inr st"
| "c_str_bags fmt g len (d # ds) st =
     bindr (getb g d) (\<lambda>gb.
     case b_node gb of None \<Rightarrow> c_str_bags fmt g len ds st | Some x \<Rightarrow>
     case b_i gb of None \<Rightarrow> Inl UninitRead | Some i \<Rightarrow>
     if i = 0 then c_str_bags fmt g len ds st else
     bindr (deref (gnodes g x)) (\<lambda>key.
     bindr (emit len (CHR 0x09 # show_int key @ '': '') st) (\<lambda>st.
     bindr (c_str_adjs fmt g gb len 0 i st) (\<lambda>st.
     bindr (emit_newline len st) (\<lambda>st. c_str_bags fmt g len ds st)))))"

text \<open>The result says whether the buffer is returned, and has the new value of \<open>len\<close> and the buffer. The array of bags has
  one cell per declared vertex.\<close>

definition graph_c_str :: "nat \<Rightarrow> ('w \<Rightarrow> string) \<Rightarrow> 'w graph \<Rightarrow> string option \<Rightarrow> nat \<Rightarrow> cerr + bool \<times> nat \<times> string option" where
  "graph_c_str fuel fmt g buf len =
     (let len = (if buf = None then 0 else len) in
     bindr (walk_into fuel (gv g) g) (\<lambda>vers.
     bindr (c_str_bags fmt g len vers (0, buf)) (\<lambda>(n, buf).
     case buf of None \<Rightarrow> Inr (False, n, None)
     | Some b \<Rightarrow> if len < n then Inr (False, n, buf)
                else if n = 0 then Inl OutOfBounds
                else bindr (store b (n - 1) (CHR 0x00)) (\<lambda>b. Inr (True, len, Some b)))))"

section \<open>Loading the edges of a file\<close>

lemma int_of_size_id: "i < 2147483648 \<Longrightarrow> int_of_size i = int i"
  by (simp add: int_of_size_def)

text \<open>The text of an edge file.\<close>

definition graph_file :: "nat \<Rightarrow> nat \<Rightarrow> (int \<times> int) list \<Rightarrow> string" where
  "graph_file v e es = show_nat v @ [CHR 0x0A] @ show_nat e @ [CHR 0x0A] @ concat (map edge_line es)"

lemma fscanf_zu_show:
  assumes "n < 2 ^ 64"
  shows "fscanf_zu (show_nat n @ CHR 0x0A # s) = Inr (Some (n, CHR 0x0A # s))"
proof -
  have "int n < 2 ^ 64" using assms by (metis of_nat_less_iff of_nat_numeral of_nat_power)
  then show ?thesis using scan_show [of "CHR 0x0A # s" "int n"] by (simp add: fscanf_zu_def show_int_nat)
qed

lemma fscanf_zu_space: "isspace c \<Longrightarrow> fscanf_zu (c # s) = fscanf_zu s"
  by (simp add: fscanf_zu_def scan_space)

definition no_weight :: "'w \<Rightarrow> (int \<times> int) list \<Rightarrow> (int \<times> int \<times> 'w) list" where
  "no_weight zero es = map (\<lambda>e. (fst e, snd e, zero)) es"

lemma load_edges_lines:
  assumes "\<forall>e \<in> set es. in_int (fst e) \<and> in_int (snd e)" "length es < n"
  shows "load_edges n fuel zero g (CHR 0x0A # concat (map edge_line es)) = add_edges_all (graph_add_edge fuel) g (no_weight zero es)"
  using assms
proof (induction es arbitrary: n g)
  case Nil
  then obtain n' where "n = Suc n'" by (cases n) auto
  then show ?case by (simp add: fscanf_dd_end no_weight_def)
next
  case (Cons e es)
  then obtain n' where n': "n = Suc n'" "length es < n'" by (cases n) auto
  have "fscanf_dd (CHR 0x0A # concat (map edge_line (e # es))) = Inr (Some (Some e, CHR 0x0A # concat (map edge_line es)))"
    using fscanf_dd_line [of e "concat (map edge_line es)"] Cons.prems(1) by (simp add: fscanf_dd_space)
  moreover have "load_edges n' fuel zero g' (CHR 0x0A # concat (map edge_line es)) =
      add_edges_all (graph_add_edge fuel) g' (no_weight zero es)" for g'
    using Cons.IH [of n' g'] Cons.prems n' by auto
  ultimately show ?case using n' by (cases e) (simp add: no_weight_def)
qed

lemma bounded_sizes:
  assumes "v < 2147483648"
  shows "map int_of_size [0..<v] = map int [0..<v]" "set (map int_of_size [0..<v]) = {0..<int v}"
proof -
  show eq: "map int_of_size [0..<v] = map int [0..<v]" using assms by (auto simp: int_of_size_id)
  show "set (map int_of_size [0..<v]) = {0..<int v}" unfolding eq by (simp add: image_int_atLeastLessThan)
qed

lemma graph_header:
  assumes "v < 2147483648" "e < 2 ^ 64" "rb_fuel v \<le> fuel"
  shows "\<exists>g. add_vertices fuel ((graph_new d True (Some 0))\<lparr>gv := v, ge := e\<rparr>) v = Inr (0, g) \<and>
    graph_rep fuel 0 g (adj_of d {0..<int v} []) \<and> direct g = d \<and> gv g = v \<and> \<not> weight g \<and>
    graph_init n fuel zero (graph_new d True (Some 0)) (show_nat v @ [CHR 0x0A] @ show_nat e @ [CHR 0x0A] @ s) =
      bindr (load_edges n fuel zero g (CHR 0x0A # s)) (\<lambda>g. Inr (0, g)) \<and>
    graph_init n fuel zero (graph_new d True None) (show_nat v @ [CHR 0x0A] @ show_nat e @ [CHR 0x0A] @ s) =
      bindr (load_edges n fuel zero (unset g) (CHR 0x0A # s)) (\<lambda>g. Inr (0, g))"
proof -
  let ?g = "(graph_new d True (Some 0))\<lparr>gv := v, ge := e\<rparr> :: 'a graph"
  have "graph_rep fuel v ((graph_new d True (Some 0))\<lparr>gv := v, ge := e, weight := False\<rparr> :: 'a graph) Map.empty"
    by (rule graph_new_rep) (use assms(3) in auto)
  moreover have "(graph_new d True (Some 0))\<lparr>gv := v, ge := e, weight := False\<rparr> = ?g" by (simp add: graph_new_def)
  moreover have "Map.empty = (adj_of d {} [] :: int \<Rightarrow> (int \<times> 'a) list option)" by (simp add: adj_of_def fun_eq_iff)
  ultimately have "graph_rep fuel (length (map int_of_size [0..<v]) + 0) ?g (adj_of d {} [])" by simp
  from gl.add_vertices_all_rep [OF this] obtain g where g: "add_vertices fuel ?g v = Inr (0, g)"
    "graph_rep fuel 0 g (adj_of d {0..<int v} [])" "direct g = d" "gv g = v" "\<not> weight g"
    using bounded_sizes(2) [OF assms(1)] by (auto simp: add_vertices_def graph_new_def)
  have "v < 2 ^ 64" using assms(1) by (rule less_trans) simp
  then have r: "fscanf_zu (show_nat v @ CHR 0x0A # t) = Inr (Some (v, CHR 0x0A # t))" for t by (rule fscanf_zu_show)
  have "fscanf_zu (CHR 0x0A # show_nat e @ CHR 0x0A # s) = Inr (Some (e, CHR 0x0A # s))"
    using fscanf_zu_show [OF assms(2)] by (simp add: fscanf_zu_space)
  note scans = this r
  have "add_vertices fuel (unset ?g) v = Inr (0, unset g)"
    using g(1) unfolding add_vertices_def add_vertices_all_unset by simp
  then have "graph_init n fuel zero (graph_new d True None) (show_nat v @ [CHR 0x0A] @ show_nat e @ [CHR 0x0A] @ s) =
      bindr (load_edges n fuel zero (unset g) (CHR 0x0A # s)) (\<lambda>g. Inr (0, g))"
    using scans by (simp add: graph_init_def unset_new unset_update)
  moreover have "graph_init n fuel zero (graph_new d True (Some 0)) (show_nat v @ [CHR 0x0A] @ show_nat e @ [CHR 0x0A] @ s) =
      bindr (load_edges n fuel zero g (CHR 0x0A # s)) (\<lambda>g. Inr (0, g))" using scans g(1) by (simp add: graph_init_def)
  ultimately show ?thesis using g by blast
qed

lemma adj_of_dom: "dom (adj_of d D es) = D"
  by (auto simp: adj_of_def split: if_splits)

lemma graph_init_unset:
  assumes "v < 2147483648" "e < 2 ^ 64" "rb_fuel v \<le> fuel" "\<forall>e \<in> set es. in_int (fst e) \<and> in_int (snd e)" "length es < n"
  shows "\<exists>g. graph_init n fuel zero (graph_new d True None) (graph_file v e es) =
      (if \<exists>e \<in> set es. fst e \<in> {0..<int v} \<and> snd e \<in> {0..<int v} then Inl UninitRead else Inr (0, unset g)) \<and>
    gv g = v \<and> direct g = d \<and> graph_rep fuel 0 g (adj_of d {0..<int v} [])"
proof -
  from graph_header [OF assms(1-3), of d n zero "concat (map edge_line es)"] obtain g :: "'a graph" where
    g: "graph_rep fuel 0 g (adj_of d {0..<int v} [])" "direct g = d" "gv g = v"
    "graph_init n fuel zero (graph_new d True None) (graph_file v e es) =
      bindr (load_edges n fuel zero (unset g) (CHR 0x0A # concat (map edge_line es))) (\<lambda>g. Inr (0, g))"
    unfolding graph_file_def by blast
  have "inner_edges {0..<int v} (no_weight zero es) = [] \<longleftrightarrow> \<not> (\<exists>e \<in> set es. fst e \<in> {0..<int v} \<and> snd e \<in> {0..<int v})"
    by (auto simp: inner_edges_def no_weight_def filter_empty_conv)
  then have "graph_init n fuel zero (graph_new d True None) (graph_file v e es) =
      (if \<exists>e \<in> set es. fst e \<in> {0..<int v} \<and> snd e \<in> {0..<int v} then Inl UninitRead else Inr (0, unset g))"
    unfolding g(4) load_edges_lines [OF assms(4,5)] add_edges_all_unset [OF g(1) adj_of_dom] by simp
  with g(1-3) show ?thesis by blast
qed

lemma graph_init_rep:
  assumes "v < 2147483648" "e < 2 ^ 64" "rb_fuel v \<le> fuel" "\<forall>e \<in> set es. in_int (fst e) \<and> in_int (snd e)" "length es < n"
  shows "\<exists>g. graph_init n fuel zero (graph_new d True (Some 0)) (graph_file v e es) = Inr (0, g) \<and> gv g = v \<and> direct g = d \<and> \<not> weight g \<and>
    graph_rep fuel 0 g (adj_of d {0..<int v} (no_weight zero es))"
proof -
  from graph_header [OF assms(1-3), of d n zero "concat (map edge_line es)"] obtain g0 :: "'a graph" where
    g0: "graph_rep fuel 0 g0 (adj_of d {0..<int v} [])" "direct g0 = d" "gv g0 = v" "\<not> weight g0"
    "graph_init n fuel zero (graph_new d True (Some 0)) (graph_file v e es) =
      bindr (load_edges n fuel zero g0 (CHR 0x0A # concat (map edge_line es))) (\<lambda>g. Inr (0, g))"
    unfolding graph_file_def by blast
  have "graph_rep fuel 0 g0 (adj_of (direct g0) {0..<int v} [])" using g0(1,2) by simp
  from gl.add_edges_all_rep [OF this, of "no_weight zero es"] obtain g where
    g: "add_edges_all (graph_add_edge fuel) g0 (no_weight zero es) = Inr g"
    "graph_rep fuel 0 g (adj_of d {0..<int v} (no_weight zero es))" "gv g = v" "direct g = d" "\<not> weight g" using g0(2-4) by auto
  have "graph_init n fuel zero (graph_new d True (Some 0)) (graph_file v e es) = Inr (0, g)"
    unfolding g0(5) load_edges_lines [OF assms(4,5)] g(1) by simp
  then show ?thesis using g by blast
qed

text \<open>C14: reading back a graph file with fewer than \<open>2 ^ 31\<close> vertices, a vertex count, an edge count and edges in the format of the header.
  With a client whose callback \<open>graph_bag_new\<close> sets the count of a new bag to 0, \<open>graph_init\<close> returns 0 and the graph then answers, for
  every vertex, the neighbours the edges give it, in the order of the
  file; an edge with an end outside the vertices is skipped, and other vertex numbers are not found. With the callback of
  \<^verbatim>\<open>test_graph.cpp\<close>, which does not set the count, reading stops with the use of an unset value at the first edge between two vertices,
  and if there is none, the first query of a vertex does so.\<close>

theorem graph_init_loads:
  assumes "v < 2147483648" "e < 2 ^ 64" "rb_fuel v \<le> fuel" "\<forall>e \<in> set es. in_int (fst e) \<and> in_int (snd e)" "length es < n"
  shows "(\<exists>g. graph_init n fuel zero (graph_new d True (Some 0)) (graph_file v e es) = Inr (0, g) \<and> gv g = v \<and>
    (\<forall>k. if 0 \<le> k \<and> k < int v
         then \<exists>arr. graph_adj fuel g k = Inr (Some (arr, length (nbrs d {0..<int v} (no_weight zero es) k))) \<and>
           (\<forall>j < length (nbrs d {0..<int v} (no_weight zero es) k). \<exists>x. arr ! j = Some x \<and>
             gnodes g x = Some (fst (nbrs d {0..<int v} (no_weight zero es) k ! j)))
         else graph_adj fuel g k = Inr None)) \<and>
    (if \<exists>e \<in> set es. fst e \<in> {0..<int v} \<and> snd e \<in> {0..<int v}
      then graph_init n fuel zero (graph_new d True None) (graph_file v e es) = Inl UninitRead
      else \<exists>g. graph_init n fuel zero (graph_new d True None) (graph_file v e es) = Inr (0, g) \<and>
        (\<forall>k. graph_adj fuel g k = (if 0 \<le> k \<and> k < int v then Inl UninitRead else Inr None)))" (is "?L \<and> ?U")
proof
  from graph_init_rep [OF assms, of zero d] obtain g where
    g: "graph_init n fuel zero (graph_new d True (Some 0)) (graph_file v e es) = Inr (0, g)" "gv g = v"
    "graph_rep fuel 0 g (adj_of d {0..<int v} (no_weight zero es))" by blast
  have "if 0 \<le> k \<and> k < int v
      then \<exists>arr. graph_adj fuel g k = Inr (Some (arr, length (nbrs d {0..<int v} (no_weight zero es) k))) \<and>
        (\<forall>j < length (nbrs d {0..<int v} (no_weight zero es) k). \<exists>x. arr ! j = Some x \<and>
          gnodes g x = Some (fst (nbrs d {0..<int v} (no_weight zero es) k ! j)))
      else graph_adj fuel g k = Inr None" for k
    using graph_adj_spec [OF g(3), of k] by (auto simp: adj_of_def split: if_splits)
  with g(1,2) show ?L by blast
next
  from graph_init_unset [OF assms, of zero d] obtain g where
    g: "graph_init n fuel zero (graph_new d True None) (graph_file v e es) =
      (if \<exists>e \<in> set es. fst e \<in> {0..<int v} \<and> snd e \<in> {0..<int v} then Inl UninitRead else Inr (0, unset g))"
    "graph_rep fuel 0 g (adj_of d {0..<int v} [])" by blast
  have "\<forall>k. graph_adj fuel (unset g) k = (if 0 \<le> k \<and> k < int v then Inl UninitRead else Inr None)"
    using graph_adj_unset [OF g(2)] by (simp add: adj_of_dom)
  with g(1) show ?U by auto
qed

theorem graph_init_loads_witness:
  "\<exists>g. graph_init 3 25 () (graph_new False True (Some 0)) (graph_file 2 1 [(0, 1)]) = Inr (0, g) \<and>
    (\<exists>arr x. graph_adj 25 g 0 = Inr (Some (arr, 1)) \<and> arr ! 0 = Some x \<and> gnodes g x = Some 1) \<and>
    graph_init 3 25 () (graph_new False True None) (graph_file 2 1 [(0, 1)]) = Inl UninitRead"
proof -
  have "rb_fuel 2 \<le> 25" "\<forall>e \<in> set [(0, 1)]. in_int (fst e) \<and> in_int (snd e)" by (simp_all add: rb_fuel_def in_int_def)
  note loads = graph_init_loads [OF _ _ this, of 1 3 "()" False]
  from loads obtain g where
    g: "graph_init 3 25 () (graph_new False True (Some 0)) (graph_file 2 1 [(0, 1)]) = Inr (0, g)"
    "\<forall>k. if 0 \<le> k \<and> k < int 2
         then \<exists>arr. graph_adj 25 g k = Inr (Some (arr, length (nbrs False {0..<int 2} (no_weight () [(0, 1)]) k))) \<and>
           (\<forall>j < length (nbrs False {0..<int 2} (no_weight () [(0, 1)]) k). \<exists>x. arr ! j = Some x \<and>
             gnodes g x = Some (fst (nbrs False {0..<int 2} (no_weight () [(0, 1)]) k ! j)))
         else graph_adj 25 g k = Inr None" by auto
  have "nbrs False {0..<int 2} (no_weight () [(0, 1)]) 0 = [(1, ())]" by (simp add: nbrs_def no_weight_def)
  with g(2) [rule_format, of 0] g(1) loads show ?thesis by auto
qed

text \<open>With a client that sets the counts, on a file whose edges are followed by a text that is not a number, \<open>graph_init\<close> does not end: the
  failing conversion consumes nothing and the loop only stops at the end of the file.\<close>

theorem graph_init_hangs:
  assumes "v < 2147483648" "e < 2 ^ 64" "rb_fuel v \<le> fuel"
    "\<not> isspace c" "\<not> isdigit c" "c \<noteq> CHR ''-''" "c \<noteq> CHR ''+''"
  shows "graph_init n fuel zero (graph_new d True (Some 0)) (graph_file v e [] @ c # rest) = Inl OutOfFuel"
proof -
  have stuck: "fscanf_dd (c # rest) = Inr (Some (None, c # rest))" "fscanf_dd (CHR 0x0A # c # rest) = Inr (Some (None, c # rest))"
    using scan_stuck [OF assms(4-7), of rest] by (simp_all add: fscanf_dd_space) (simp_all add: fscanf_dd_def fscanf_d_def)
  have "load_edges n fuel zero g (c # rest) = Inl OutOfFuel" for n and g :: "'a graph" by (induction n) (simp_all add: stuck)
  then have "load_edges n fuel zero g (CHR 0x0A # c # rest) = Inl OutOfFuel" for g :: "'a graph"
    by (cases n) (simp_all add: stuck)
  with graph_header [OF assms(1-3), of d n zero "c # rest"] show ?thesis by (auto simp: graph_file_def)
qed

theorem graph_init_hangs_witness:
  "\<forall>n. graph_init n 16 () (graph_new False True (Some 0)) (graph_file 1 0 [] @ ''x'') = Inl OutOfFuel"
  using graph_init_hangs [of 1 0 16 "CHR ''x''" _ "()" False "[]"] by (simp add: rb_fuel_def isspace_def isdigit_def)

section \<open>Printing\<close>

definition nbr_text :: "bool \<Rightarrow> ('w \<Rightarrow> string) \<Rightarrow> int \<times> 'w \<Rightarrow> string" where
  "nbr_text wt fmt n = (if wt then ''('' @ fmt (snd n) @ '')'' else []) @ show_int (fst n) @ '', ''"

definition row_text :: "bool \<Rightarrow> ('w \<Rightarrow> string) \<Rightarrow> int \<Rightarrow> (int \<times> 'w) list \<Rightarrow> string" where
  "row_text wt fmt k ns =
     (if ns = [] then [] else CHR 0x09 # show_int k @ '': '' @ concat (map (nbr_text wt fmt) ns) @ [CHR 0x0A])"

definition graph_text :: "bool \<Rightarrow> ('w \<Rightarrow> string) \<Rightarrow> (int \<rightharpoonup> (int \<times> 'w) list) \<Rightarrow> string" where
  "graph_text wt fmt A = concat (map (\<lambda>k. row_text wt fmt k (the (A k))) (sorted_list_of_set (dom A)))"

text \<open>The buffer has \<open>B\<close> cells and holds the text so far, unless that was cut off.\<close>

definition out_ok :: "nat \<Rightarrow> nat option \<Rightarrow> string \<Rightarrow> out \<Rightarrow> bool" where
  "out_ok len B tx st \<longleftrightarrow> fst st = length tx \<and>
     (case snd st of None \<Rightarrow> B = None
      | Some b \<Rightarrow> B = Some (length b) \<and> len \<le> length b \<and>
          (length tx \<le> len \<and> (tx = [] \<or> last tx = CHR 0x0A \<or> length tx < len) \<longrightarrow> take (length tx) b = tx))"

lemma emit_ok:
  assumes "out_ok len B tx st" "s \<noteq> []" "last s \<noteq> CHR 0x0A"
  shows "\<exists>st'. emit len s st = Inr st' \<and> out_ok len B (tx @ s) st'"
proof (cases "snd st")
  case None
  then show ?thesis using assms by (auto simp: emit_def out_ok_def)
next
  case (Some b)
  have n: "fst st = length tx" and b: "len \<le> length b" "B = Some (length b)" using assms(1) Some by (auto simp: out_ok_def)
  show ?thesis
  proof (cases "length tx < len")
    case False
    then show ?thesis using Some n b assms by (auto simp: emit_def out_ok_def)
  next
    case True
    then have tk: "take (length tx) b = tx" using assms(1) Some by (auto simp: out_ok_def)
    let ?w = "take (len - length tx - 1) s @ [CHR 0x00]"
    let ?b = "take (length tx) b @ ?w @ drop (length tx + length ?w) b"
    have "length tx + length ?w \<le> len" using True by simp
    then have r: "length tx + length ?w \<le> length b" using b by linarith
    then have e: "emit len s st = Inr (length tx + length s, Some ?b)" using Some n True
      by (simp add: emit_def snprintf_at_def overwrite_def)
    have "length ?b = length b" using r True b by simp
    moreover have "take (length (tx @ s)) ?b = tx @ s" if "length (tx @ s) < len"
      using that tk True b by simp
    ultimately show ?thesis using e b assms(2,3) by (auto simp: out_ok_def)
  qed
qed

lemma emit_newline_ok:
  assumes "out_ok len B tx st"
  shows "\<exists>st'. emit_newline len st = Inr st' \<and> out_ok len B (tx @ [CHR 0x0A]) st'"
proof (cases "snd st")
  case None
  then show ?thesis using assms by (auto simp: emit_newline_def out_ok_def)
next
  case (Some b)
  have n: "fst st = length tx" and b: "len \<le> length b" "B = Some (length b)" using assms(1) Some by (auto simp: out_ok_def)
  show ?thesis
  proof (cases "length tx < len")
    case False
    then show ?thesis using Some n b assms by (auto simp: emit_newline_def out_ok_def)
  next
    case True
    then have "take (length tx) b = tx" using assms(1) Some by (auto simp: out_ok_def)
    then have "take (Suc (length tx)) (b[length tx := CHR 0x0A]) = tx @ [CHR 0x0A]" using True b by (simp add: take_Suc_update)
    then show ?thesis using Some n True b by (auto simp: emit_newline_def store_def out_ok_def)
  qed
qed

lemma adj_text_spec:
  assumes "good_bag g b ns" "j < length ns"
  shows "adj_text fmt g b j = Inr (nbr_text (weight g) fmt (ns ! j))"
proof -
  obtain x where x: "b_v b ! j = Some x" "gnodes g x = Some (fst (ns ! j))" "j < length (b_v b)" using assms by (auto simp: good_bag_def)
  show ?thesis
  proof (cases "weight g")
    case True
    then obtain ws where "b_w b = Some ws" "ws ! j = Some (snd (ns ! j))" "j < length ws" using assms by (auto simp: good_bag_def)
    then show ?thesis using x True by (simp add: adj_text_def nbr_text_def mem_simps)
  next
    case False
    then show ?thesis using x by (simp add: adj_text_def nbr_text_def mem_simps)
  qed
qed

lemma nbr_text_end: "nbr_text wt fmt n \<noteq> []" "last (nbr_text wt fmt n) \<noteq> CHR 0x0A"
  by (simp_all add: nbr_text_def)

lemma c_str_adjs_ok:
  assumes "good_bag g b ns" "j + c = length ns" "out_ok len B tx st"
  shows "\<exists>st'. c_str_adjs fmt g b len j c st = Inr st' \<and> out_ok len B (tx @ concat (map (nbr_text (weight g) fmt) (drop j ns))) st'"
  using assms(2,3)
proof (induction c arbitrary: j tx st)
  case (Suc c)
  then have j: "j < length ns" by simp
  from emit_ok [OF Suc.prems(2) nbr_text_end, of "weight g" fmt "ns ! j"] obtain st1 where
    st1: "emit len (nbr_text (weight g) fmt (ns ! j)) st = Inr st1" "out_ok len B (tx @ nbr_text (weight g) fmt (ns ! j)) st1" by blast
  have "drop j ns = ns ! j # drop (Suc j) ns" using j by (simp add: Cons_nth_drop_Suc)
  then show ?case using Suc.IH [OF _ st1(2)] Suc.prems(1) st1(1) adj_text_spec [OF assms(1) j, of fmt] by simp
qed simp

lemma c_str_bags_ok:
  assumes "\<forall>d \<in> set ds. \<exists>k. bag_of g A d k" "out_ok len B tx st"
  shows "\<exists>st'. c_str_bags fmt g len ds st = Inr st' \<and>
    out_ok len B (tx @ concat (map (\<lambda>k. row_text (weight g) fmt k (the (A k))) (map (the \<circ> bkey g) ds))) st'"
  using assms
proof (induction ds arbitrary: tx st)
  case (Cons d ds)
  from Cons.prems(1) obtain k where k: "bag_of g A d k" by auto
  then obtain b x ns where b: "getb g d = Inr b" "b_node b = Some x" "gnodes g x = Some k" "A k = Some ns" "good_bag g b ns" "bkey g d = Some k"
    using bag_of_key [OF k] by (auto simp: bag_of_def getb_def)
  have i: "b_i b = Some (length ns)" using b(5) by (simp add: good_bag_def)
  show ?case
  proof (cases "ns = []")
    case True
    then show ?thesis using Cons b i by (simp add: row_text_def)
  next
    case False
    from emit_ok [OF Cons.prems(2), of "CHR 0x09 # show_int k @ '': ''"] obtain st1 where
      st1: "emit len (CHR 0x09 # show_int k @ '': '') st = Inr st1" "out_ok len B (tx @ CHR 0x09 # show_int k @ '': '') st1" by auto
    from c_str_adjs_ok [OF b(5) _ st1(2), of 0 "length ns" fmt] obtain st2 where
      st2: "c_str_adjs fmt g b len 0 (length ns) st1 = Inr st2"
      "out_ok len B ((tx @ CHR 0x09 # show_int k @ '': '') @ concat (map (nbr_text (weight g) fmt) ns)) st2" by auto
    from emit_newline_ok [OF st2(2)] obtain st3 where st3: "emit_newline len st2 = Inr st3"
      "out_ok len B (((tx @ CHR 0x09 # show_int k @ '': '') @ concat (map (nbr_text (weight g) fmt) ns)) @ [CHR 0x0A]) st3" by blast
    have "c_str_bags fmt g len (d # ds) st = c_str_bags fmt g len ds st3"
      using b(1-3) i False st1(1) st2(1) st3(1) by simp
    then show ?thesis using Cons.IH [OF _ st3(2)] Cons.prems(1) b(4,6) False by (simp add: row_text_def)
  qed
qed simp

lemma bag_tree_keys:
  assumes "bag_tree g A ds"
  shows "map (the \<circ> bkey g) ds = sorted_list_of_set (dom A)"
proof -
  let ?ks = "map (the \<circ> bkey g) ds"
  have k: "\<exists>k. bkey g d = Some k \<and> k \<in> dom A" if "d \<in> set ds" for d
  proof -
    obtain k where "bag_of g A d k" using assms \<open>d \<in> set ds\<close> by (auto simp: bag_tree_def)
    then show ?thesis using bag_of_key by (fastforce simp: bag_of_def)
  qed
  have lt: "the (bkey g d) < the (bkey g e)" if "d \<in> set ds" "e \<in> set ds" "gcmp g d e < 0" for d e
    using k [OF that(1)] k [OF that(2)] that(3) by (auto simp: gcmp_def graph_node_cmp_def split: if_splits)
  have "sorted_by (gcmp g) ds" using assms by (simp add: bag_tree_def)
  then have "sorted_wrt (\<lambda>d e. the (bkey g d) < the (bkey g e)) ds" using lt by (rule sorted_wrt_mono_rel [rotated])
  then have "sorted_wrt (<) ?ks" by (simp add: sorted_wrt_map)
  moreover have "set ?ks = dom A" using k assms by (force simp: bag_tree_def image_iff)
  ultimately show ?thesis using sorted_list_of_set.idem_if_sorted_distinct [of ?ks] strict_sorted_iff by metis
qed

lemma graph_text_last: "graph_text wt fmt A \<noteq> [] \<Longrightarrow> last (graph_text wt fmt A) = CHR 0x0A"
proof -
  have "concat (map (\<lambda>k. row_text wt fmt k (f k)) ks) \<noteq> [] \<Longrightarrow> last (concat (map (\<lambda>k. row_text wt fmt k (f k)) ks)) = CHR 0x0A" for f ks
    by (induction ks) (auto simp: row_text_def)
  then show "graph_text wt fmt A \<noteq> [] \<Longrightarrow> ?thesis" by (simp add: graph_text_def)
qed

definition prints :: "nat \<Rightarrow> ('w \<Rightarrow> string) \<Rightarrow> 'w graph \<Rightarrow> string \<Rightarrow> bool" where
  "prints fuel fmt g T \<longleftrightarrow> (\<forall>len. graph_c_str fuel fmt g None len = Inr (False, length T, None)) \<and>
     (\<forall>b len. len \<le> length b \<longrightarrow>
       (if T = [] then graph_c_str fuel fmt g (Some b) len = Inl OutOfBounds
        else \<exists>b'. length b' = length b \<and>
          (if len < length T then graph_c_str fuel fmt g (Some b) len = Inr (False, length T, Some b')
           else graph_c_str fuel fmt g (Some b) len = Inr (True, len, Some b') \<and> take (length T) b' = butlast T @ [CHR 0x00])))"

lemma graph_c_str_prints:
  assumes "graph_rep fuel m g A" "card (dom A) \<le> gv g"
  shows "prints fuel fmt g (graph_text (weight g) fmt A)"
proof -
  let ?T = "graph_text (weight g) fmt A"
  obtain ds t where bt: "bag_tree g A ds" and t: "tree_inv (gtr g) t" "rb_fuel (length (addrs t) + m) \<le> fuel" "inorder t = ds"
    using assms(1) by (auto simp: graph_rep_def graph_at_def)
  have "length (addrs t) < fuel" using t(2) rb_fuel_gt [of "length (addrs t) + m"] by linarith
  moreover have "length ds = card (dom A)"
    using arg_cong [OF bag_tree_keys [OF bt], of length] by simp
  ultimately have walk: "walk_into fuel (gv g) g = Inr ds"
    using rbtree_inorder_walk_sim [OF t(1)] t(3) assms(2) by (simp add: walk_into_def)
  have bags: "\<exists>st. c_str_bags fmt g len ds (0, buf) = Inr st \<and> out_ok len B ?T st" if "out_ok len B [] (0, buf)" for len B buf
    using c_str_bags_ok [of ds g A len B "[]" "(0, buf)" fmt] bt that bag_tree_keys [OF bt] by (simp add: graph_text_def bag_tree_def)
  have "graph_c_str fuel fmt g None len = Inr (False, length ?T, None)" for len
    using bags [of 0 None None] walk by (auto simp: graph_c_str_def out_ok_def split: option.splits)
  moreover have "if ?T = [] then graph_c_str fuel fmt g (Some b) len = Inl OutOfBounds
        else \<exists>b'. length b' = length b \<and>
          (if len < length ?T then graph_c_str fuel fmt g (Some b) len = Inr (False, length ?T, Some b')
           else graph_c_str fuel fmt g (Some b) len = Inr (True, len, Some b') \<and> take (length ?T) b' = butlast ?T @ [CHR 0x00])"
    if len: "len \<le> length b" for b len
  proof -
    from bags [of len "Some (length b)" "Some b"] len obtain b1 where
      b1: "c_str_bags fmt g len ds (0, Some b) = Inr (length ?T, Some b1)" "length b1 = length b"
      "length ?T \<le> len \<and> (?T = [] \<or> last ?T = CHR 0x0A \<or> length ?T < len) \<longrightarrow> take (length ?T) b1 = ?T"
      by (fastforce simp: out_ok_def split: option.splits)
    show ?thesis
    proof (cases "?T = [] \<or> len < length ?T")
      case True
      then show ?thesis using walk b1(1,2) by (auto simp: graph_c_str_def)
    next
      case False
      then have T: "?T \<noteq> []" "length ?T \<le> len" by auto
      then have tk: "take (length ?T) b1 = ?T" using b1(3) graph_text_last by blast
      let ?b = "b1[length ?T - 1 := CHR 0x00]"
      have lt: "length ?T - 1 < length b1" using T len b1(2) by (cases ?T) auto
      have "length ?T = Suc (length ?T - 1)" using T(1) by simp
      then have "take (length ?T) ?b = take (length ?T - 1) b1 @ [CHR 0x00]" using take_Suc_update [OF lt] by metis
      moreover have "take (length ?T - 1) b1 = butlast ?T" using tk by (metis butlast_conv_take length_take take_take min.absorb2 diff_le_self min_def)
      moreover have "graph_c_str fuel fmt g (Some b) len = Inr (True, len, Some ?b)"
        using walk b1(1) T lt by (simp add: graph_c_str_def store_def)
      ultimately show ?thesis using T b1(2) by (auto intro!: exI [of _ ?b])
    qed
  qed
  ultimately show ?thesis unfolding prints_def by blast
qed

section \<open>Weighted graphs\<close>

lemma wadd_vertices_spec:
  assumes "graph_rep fuel (c + m) g (adj_of d D [])"
  shows "\<exists>g'. wadd_vertices fuel cb g i c =
      Inr (0, if cb_vertex_begin cb then map (VertexBegin (gv g)) [Suc i..<Suc (i + c)] else [], g') \<and>
    graph_rep fuel m g' (adj_of d (D \<union> set (map int_of_size [i..<i + c])) []) \<and> direct g' = direct g \<and>
    gv g' = gv g \<and> ge g' = ge g \<and> weight g' = weight g"
  using assms
proof (induction c arbitrary: g D i)
  case (Suc c)
  from gl.vertex_law [of fuel "c + m" g "adj_of d D []" "int_of_size i"] Suc.prems obtain g1 where
    g1: "graph_add_vertex fuel g (int_of_size i) = Inr (0, g1)" "graph_rep fuel (c + m) g1 ((adj_of d D [])(int_of_size i \<mapsto> []))"
    "direct g1 = direct g" "gv g1 = gv g" "ge g1 = ge g" "weight g1 = weight g" by auto
  have "(adj_of d D [])(int_of_size i \<mapsto> []) = (adj_of d (insert (int_of_size i) D) [] :: int \<Rightarrow> (int \<times> 'a) list option)"
    by (auto simp: adj_of_def nbrs_def fun_eq_iff)
  then have "graph_rep fuel (c + m) g1 (adj_of d (insert (int_of_size i) D) [])" using g1(2) by simp
  from Suc.IH [OF this, of "Suc i"] obtain g' where
    g': "wadd_vertices fuel cb g1 (Suc i) c = Inr (0, if cb_vertex_begin cb then map (VertexBegin (gv g)) [Suc (Suc i)..<Suc (Suc i + c)] else [], g')"
    "graph_rep fuel m g' (adj_of d (insert (int_of_size i) D \<union> set (map int_of_size [Suc i..<Suc i + c])) [])" "direct g' = direct g"
    "gv g' = gv g" "ge g' = ge g" "weight g' = weight g" using g1 by auto
  have up: "[i..<i + Suc c] = i # [Suc i..<Suc i + c]" "[Suc i..<Suc (i + Suc c)] = Suc i # [Suc (Suc i)..<Suc (Suc i + c)]"
    by (simp_all add: upt_conv_Cons)
  show ?case unfolding up using g' g1 by (simp add: insert_commute)
qed simp

definition wedge_line :: "('w \<Rightarrow> string) \<Rightarrow> int \<times> int \<times> 'w \<Rightarrow> string" where
  "wedge_line show_f e = show_int (fst e) @ '' '' @ show_int (fst (snd e)) @ '' '' @ show_f (snd (snd e)) @ [CHR 0x0A]"

definition wgraph_file :: "('w \<Rightarrow> string) \<Rightarrow> nat \<Rightarrow> nat \<Rightarrow> (int \<times> int \<times> 'w) list \<Rightarrow> string" where
  "wgraph_file show_f v e es = show_nat v @ [CHR 0x0A] @ show_nat e @ [CHR 0x0A] @ concat (map (wedge_line show_f) es)"

text \<open>What is asked of the format of the weights: a weight followed by a newline reads as printed.\<close>

definition reads_back :: "(string \<Rightarrow> 'w scan) \<Rightarrow> ('w \<Rightarrow> string) \<Rightarrow> bool" where
  "reads_back scan_f show_f \<longleftrightarrow> (\<forall>w s. scan_f (CHR '' '' # show_f w @ CHR 0x0A # s) = ScanOk w (CHR 0x0A # s))"

lemma fscanf_ddf_line:
  assumes "in_int (fst e)" "in_int (fst (snd e))" "reads_back scan_f show_f"
  shows "fscanf_ddf scan_f (CHR 0x0A # wedge_line show_f e @ s) = Inr (Some (Some e, CHR 0x0A # s))"
proof -
  let ?r = "CHR '' '' # show_f (snd (snd e)) @ CHR 0x0A # s"
  have "fscanf_d (show_int (fst e) @ CHR '' '' # show_int (fst (snd e)) @ ?r) = Inr (ScanOk (fst e) (CHR '' '' # show_int (fst (snd e)) @ ?r))"
    by (rule fscanf_d_show [OF assms(1)]) simp
  moreover have "fscanf_d (CHR '' '' # show_int (fst (snd e)) @ ?r) = Inr (ScanOk (fst (snd e)) ?r)"
    using fscanf_d_show [OF assms(2), of ?r] by (simp add: fscanf_d_space)
  ultimately have "fscanf_dd (CHR 0x0A # wedge_line show_f e @ s) = Inr (Some (Some (fst e, fst (snd e)), ?r))"
    by (simp add: fscanf_dd_space wedge_line_def) (simp add: fscanf_dd_def)
  then show ?thesis using assms(3) by (simp add: fscanf_ddf_def reads_back_def)
qed

lemma wload_edges_lines:
  assumes "\<forall>e \<in> set es. in_int (fst e) \<and> in_int (fst (snd e))" "length es < n" "reads_back scan_f show_f"
    "graph_rep fuel m g (adj_of (direct g) D es0)"
  shows "\<exists>g'. wload_edges n fuel scan_f cb g k (CHR 0x0A # concat (map (wedge_line show_f) es)) =
      Inr (k + length es, if cb_edge_begin cb then map (EdgeBegin (ge g)) [k + 2..<k + 2 + length es] else [], g') \<and>
    graph_rep fuel m g' (adj_of (direct g) D (es0 @ es)) \<and> gv g' = gv g \<and> ge g' = ge g \<and> weight g' = weight g"
  using assms(1,2,4)
proof (induction es arbitrary: n g k es0)
  case Nil
  then obtain n' where "n = Suc n'" by (cases n) auto
  then show ?case using Nil by (simp add: fscanf_ddf_def fscanf_dd_end)
next
  case (Cons e es)
  then obtain n' where n': "n = Suc n'" "length es < n'" by (cases n) auto
  obtain v w we where e: "e = (v, w, we)" by (cases e)
  have sc: "fscanf_ddf scan_f (CHR 0x0A # concat (map (wedge_line show_f) (e # es))) = Inr (Some (Some e, CHR 0x0A # concat (map (wedge_line show_f) es)))"
    using fscanf_ddf_line [of e scan_f show_f "concat (map (wedge_line show_f) es)"] Cons.prems(1) assms(3) by simp
  from gl.edge_law [OF Cons.prems(3), of v w we] obtain r g1 where g1: "graph_add_edge fuel g v w we = Inr (r, g1)"
    "graph_rep fuel m g1 (adj_of (direct g) D (es0 @ [e]))" "direct g1 = direct g" "gv g1 = gv g" "ge g1 = ge g" "weight g1 = weight g"
    unfolding adj_of_step e by auto
  have "graph_rep fuel m g1 (adj_of (direct g1) D (es0 @ [e]))" using g1(2,3) by simp
  from Cons.IH [OF _ n'(2) this, of "Suc k"] Cons.prems(1) obtain g' where
    g': "wload_edges n' fuel scan_f cb g1 (Suc k) (CHR 0x0A # concat (map (wedge_line show_f) es)) =
      Inr (Suc k + length es, if cb_edge_begin cb then map (EdgeBegin (ge g)) [Suc k + 2..<Suc k + 2 + length es] else [], g')"
    "graph_rep fuel m g' (adj_of (direct g) D (es0 @ e # es))" "gv g' = gv g" "ge g' = ge g" "weight g' = weight g" using g1 by auto
  have up: "[k + 2..<k + 2 + length (e # es)] = Suc (Suc k) # [Suc k + 2..<Suc k + 2 + length es]"
    using upt_conv_Cons [of "k + 2" "k + 2 + length (e # es)"] by simp
  show ?case unfolding up using n'(1) sc e g1(1,5) g' by simp
qed

text \<open>With no count set, reading stops at the first edge between two vertices, and printing at the first bag.\<close>

lemma wadd_vertices_unset:
  "wadd_vertices fuel cb (unset g) i c = bindr (wadd_vertices fuel cb g i c) (\<lambda>(r, l, g). Inr (r, l, unset g))"
proof (induction c arbitrary: g i)
  case (Suc c)
  show ?case
  proof (cases "graph_add_vertex fuel g (int_of_size i)")
    case (Inr x)
    then obtain r g1 where g1: "graph_add_vertex fuel g (int_of_size i) = Inr (r, g1)" by (cases x) auto
    show ?thesis by (cases "wadd_vertices fuel cb g1 (Suc i) c") (auto simp: graph_add_vertex_unset g1 Suc.IH)
  qed (simp add: graph_add_vertex_unset)
qed simp

lemma wload_edges_unset:
  assumes "\<forall>e \<in> set es. in_int (fst e) \<and> in_int (fst (snd e))" "length es < n" "reads_back scan_f show_f"
    "graph_rep fuel m g A" "dom A = D"
  shows "\<exists>l. wload_edges n fuel scan_f cb (unset g) k (CHR 0x0A # concat (map (wedge_line show_f) es)) =
      (if inner_edges D es = [] then Inr (k + length es, l, unset g) else Inl UninitRead)"
  using assms(1,2)
proof (induction es arbitrary: n k)
  case Nil
  then obtain n' where "n = Suc n'" by (cases n) auto
  then show ?case by (simp add: fscanf_ddf_def fscanf_dd_end inner_edges_def)
next
  case (Cons e es)
  then obtain n' where n': "n = Suc n'" "length es < n'" by (cases n) auto
  have sc: "fscanf_ddf scan_f (CHR 0x0A # concat (map (wedge_line show_f) (e # es))) = Inr (Some (Some e, CHR 0x0A # concat (map (wedge_line show_f) es)))"
    using fscanf_ddf_line [of e scan_f show_f "concat (map (wedge_line show_f) es)"] Cons.prems(1) assms(3) by simp
  from Cons.IH [OF _ n'(2), of "Suc k"] Cons.prems(1) obtain l where
    l: "wload_edges n' fuel scan_f cb (unset g) (Suc k) (CHR 0x0A # concat (map (wedge_line show_f) es)) =
      (if inner_edges D es = [] then Inr (Suc k + length es, l, unset g) else Inl UninitRead)" by auto
  obtain v w we where e: "e = (v, w, we)" by (cases e)
  show ?case unfolding n'(1) wload_edges.simps sc using l graph_add_edge_unset [OF assms(4), of v w we] assms(5)
    by (auto simp: e inner_edges_def)
qed

lemma graph_first_bag:
  assumes "graph_rep fuel m g A" "card (dom A) \<le> cap" "dom A \<noteq> {}"
  shows "\<exists>d ds k b x. walk_into fuel cap g = Inr (d # ds) \<and> bag_tree g A (d # ds) \<and> k \<in> dom A \<and>
    getb g d = Inr b \<and> b_node b = Some x \<and> gnodes g x = Some k"
proof -
  obtain ds t where bt: "bag_tree g A ds" and t: "tree_inv (gtr g) t" "rb_fuel (length (addrs t) + m) \<le> fuel" "inorder t = ds"
    using assms(1) by (auto simp: graph_rep_def graph_at_def)
  have "length (addrs t) < fuel" using t(2) rb_fuel_gt [of "length (addrs t) + m"] by linarith
  moreover have "length ds = card (dom A)" using arg_cong [OF bag_tree_keys [OF bt], of length] by simp
  ultimately have walk: "walk_into fuel cap g = Inr ds"
    using rbtree_inorder_walk_sim [OF t(1)] t(3) assms(2) by (simp add: walk_into_def)
  obtain d ds' where ds: "ds = d # ds'" using bt assms(3) by (cases ds) (auto simp: bag_tree_def)
  then obtain k where "bag_of g A d k" using bt by (auto simp: bag_tree_def)
  then obtain b x where "getb g d = Inr b" "b_node b = Some x" "gnodes g x = Some k" "k \<in> dom A"
    unfolding bag_of_def getb_def by fastforce
  with walk bt ds show ?thesis by blast
qed

lemma graph_c_str_unset:
  assumes "graph_rep fuel m g A" "card (dom A) \<le> gv g" "dom A \<noteq> {}"
  shows "graph_c_str fuel fmt (unset g) buf len = Inl UninitRead"
proof -
  from graph_first_bag [OF assms] obtain d ds b x where walk: "walk_into fuel (gv g) g = Inr (d # ds)" and "getb g d = Inr b" "b_node b = Some x" by blast
  then have "c_str_bags fmt (unset g) l (d # ds) st = Inl UninitRead" for l st by (simp add: getb_unset)
  then show ?thesis using walk by (simp add: graph_c_str_def Let_def)
qed



end
