(* ===== verification/Graph_Search.thy ===== *)
theory Graph_Search
  imports Graph_IO
begin

text \<open>
  Depth-first search and the reversed copy of a directed graph, \<open>graph_simple_dfs\<close> and \<open>dgraph_reverse_copy\<close> of
  \<^verbatim>\<open>src/algs/algorithms4th/graph.cpp\<close>.

  The search recurses through the neighbours with an array of marks; its fuel bounds the depth of the recursion, and one more than the
  number of vertices is enough. The results are stated for a graph read from a file: the search prints every
  vertex reachable from the start exactly once, and the reversed copy has the edges of the file turned round.
\<close>

section \<open>The program\<close>

definition set_mark :: "'w graph \<Rightarrow> int \<Rightarrow> cerr + 'w graph" where
  "set_mark g v = (if v < 0 then Inl OutOfBounds else bindr (store (dfs_marked g) (nat v) True) (\<lambda>m. Inr (g\<lparr>dfs_marked := m\<rparr>)))"

fun do_graph_simple_dfs :: "nat \<Rightarrow> nat \<Rightarrow> 'w graph \<Rightarrow> int \<Rightarrow> int list \<Rightarrow> cerr + int list \<times> 'w graph"
  and dfs_adjs :: "nat \<Rightarrow> nat \<Rightarrow> 'w graph \<Rightarrow> addr option list \<Rightarrow> nat \<Rightarrow> nat \<Rightarrow> int list \<Rightarrow> cerr + int list \<times> 'w graph" where
  "do_graph_simple_dfs 0 fuel g v out = Inl OutOfFuel"
| "do_graph_simple_dfs (Suc k) fuel g v out =
     bindr (set_mark g v) (\<lambda>g.
     bindr (graph_adj fuel g v) (\<lambda>adj.
     case adj of None \<Rightarrow> Inr (out @ [v], g) | Some (arr, sz) \<Rightarrow> dfs_adjs k fuel g arr 0 sz (out @ [v])))"
| "dfs_adjs k fuel g arr i 0 out = Inr (out, g)"
| "dfs_adjs k fuel g arr i (Suc c) out =
     bindr (read_cell arr i) (\<lambda>x. bindr (deref (gnodes g x)) (\<lambda>key.
     bindr (loadi (dfs_marked g) key) (\<lambda>marked.
     bindr (if marked then Inr (out, g) else do_graph_simple_dfs k fuel g key out) (\<lambda>(out, g).
     dfs_adjs k fuel g arr (Suc i) c out))))"

text \<open>The text printed is the list of the vertices.\<close>

definition graph_simple_dfs :: "nat \<Rightarrow> nat \<Rightarrow> 'w graph \<Rightarrow> int \<Rightarrow> cerr + int list \<times> 'w graph" where
  "graph_simple_dfs k fuel g v = do_graph_simple_dfs k fuel (g\<lparr>dfs_marked := replicate (gv g) False\<rparr>) v []"

text \<open>\<open>graph{0}\<close>: no pools, no tree, no callbacks.\<close>

definition graph_zero :: "'w graph" where
  "graph_zero = \<lparr>gtr = rb_tree_init 0 False, npool = node_pool_init 0, bpool = node_pool_init 0, gv = 0, ge = 0, direct = False, weight = False,
     dfs_marked = [], has_realloc = False, gnodes = Map.empty, gbags = Map.empty, heap_ok = True, bag_count = None\<rparr>"

definition graph_clear :: "'w graph \<Rightarrow> 'w graph" where
  "graph_clear g = g\<lparr>gtr := rb_tree_init 8 (frees (gtr g)), npool := node_pool_init 8, bpool := node_pool_init 8, dfs_marked := [],
     gnodes := Map.empty, gbags := Map.empty\<rparr>"

fun reverse_adjs :: "nat \<Rightarrow> 'w \<Rightarrow> 'w graph \<Rightarrow> 'w graph \<Rightarrow> int \<Rightarrow> addr option list \<Rightarrow> nat \<Rightarrow> nat \<Rightarrow> cerr + 'w graph" where
  "reverse_adjs fuel zero og g key arr j 0 = Inr g"
| "reverse_adjs fuel zero og g key arr j (Suc c) =
     bindr (read_cell arr j) (\<lambda>x. bindr (deref (gnodes og x)) (\<lambda>w.
     bindr (graph_add_edge fuel g w key zero) (\<lambda>(r, g). reverse_adjs fuel zero og g key arr (Suc j) c)))"

fun reverse_vertices :: "nat \<Rightarrow> 'w \<Rightarrow> 'w graph \<Rightarrow> 'w graph \<Rightarrow> addr option list \<Rightarrow> cerr + 'w graph" where
  "reverse_vertices fuel zero og g [] = Inr g"
| "reverse_vertices fuel zero og g (n # ns) =
     (case n of None \<Rightarrow> reverse_vertices fuel zero og g ns
      | Some x \<Rightarrow>
        bindr (deref (gnodes og x)) (\<lambda>key.
        bindr (graph_adj fuel og key) (\<lambda>adj.
        bindr (case adj of None \<Rightarrow> Inr g | Some (arr, sz) \<Rightarrow> reverse_adjs fuel zero og g key arr 0 sz) (\<lambda>g.
        reverse_vertices fuel zero og g ns))))"

definition dgraph_reverse_copy :: "nat \<Rightarrow> 'w \<Rightarrow> 'w graph \<Rightarrow> cerr + 'w graph" where
  "dgraph_reverse_copy fuel zero og =
     (if \<not> direct og then Inr graph_zero else
      bindr (add_vertices fuel (graph_clear og) (gv og)) (\<lambda>(r, g).
      if r \<noteq> 0 then Inr graph_zero else
      bindr (graph_vertex fuel (gv g) og) (\<lambda>vers.
      if vers = [] then Inr graph_zero else reverse_vertices fuel zero og g vers)))"

section \<open>Reachability with marks\<close>

text \<open>The vertices reached from \<open>v\<close> along edges that avoid the marked vertices \<open>M\<close>.\<close>

definition reach :: "(int \<times> int) set \<Rightarrow> int set \<Rightarrow> int \<Rightarrow> int set" where
  "reach E M v = {w. (v, w) \<in> (E \<inter> UNIV \<times> - M)\<^sup>*}"

lemma reach_refl: "v \<in> reach E M v"
  by (simp add: reach_def)

lemma reach_step: "y \<in> reach E M v \<Longrightarrow> (y, z) \<in> E \<Longrightarrow> z \<notin> M \<Longrightarrow> z \<in> reach E M v"
  by (auto simp: reach_def intro: rtrancl_into_rtrancl)

lemma reach_mono: "M \<subseteq> M' \<Longrightarrow> reach E M' v \<subseteq> reach E M v"
  unfolding reach_def using rtrancl_mono [of "E \<inter> UNIV \<times> - M'" "E \<inter> UNIV \<times> - M"] by auto

lemma reach_induct [consumes 1, case_names refl step]:
  assumes "w \<in> reach E M v" "P v" "\<And>y z. y \<in> reach E M v \<Longrightarrow> P y \<Longrightarrow> (y, z) \<in> E \<Longrightarrow> z \<notin> M \<Longrightarrow> P z"
  shows "P w"
proof -
  have "(v, w) \<in> (E \<inter> UNIV \<times> - M)\<^sup>*" using assms(1) by (simp add: reach_def)
  then show ?thesis by (induction rule: rtrancl_induct) (use assms(2,3) in \<open>auto simp: reach_def\<close>)
qed

lemma reach_unmarked: "v \<notin> M \<Longrightarrow> reach E M v \<inter> M = {}"
proof -
  assume v: "v \<notin> M"
  have "w \<notin> M" if "w \<in> reach E M v" for w using that by (induction rule: reach_induct) (use v in auto)
  then show ?thesis by blast
qed

lemma reach_after: "w \<in> reach E M v \<Longrightarrow> w \<in> reach E M u \<or> w \<in> reach E (M \<union> reach E M u) v"
proof (induction rule: reach_induct)
  case refl
  then show ?case by (simp add: reach_refl)
next
  case (step y z)
  then show ?case using reach_step [of y E M u z] reach_step [of y E "M \<union> reach E M u" v z] by blast
qed

lemma reach_into: "z \<in> reach E M u \<Longrightarrow> y \<in> reach E M v \<Longrightarrow> (y, u) \<in> E \<Longrightarrow> u \<notin> M \<Longrightarrow> z \<in> reach E M v"
proof (induction rule: reach_induct)
  case refl
  then show ?case using reach_step by blast
next
  case (step y z)
  then show ?case using reach_step by blast
qed

lemma reach_unfold: "reach E M v = insert v (\<Union>n \<in> {n. (v, n) \<in> E \<and> n \<notin> insert v M}. reach E (insert v M) n)" (is "?L = ?R")
proof (intro equalityI subsetI)
  fix w assume "w \<in> ?L"
  then show "w \<in> ?R"
  proof (induction rule: reach_induct)
    case (step y z)
    show ?case
    proof (cases "z = v")
      case False
      from step.IH consider "y = v" | n where "(v, n) \<in> E" "n \<notin> insert v M" "y \<in> reach E (insert v M) n" by auto
      then show ?thesis
      proof cases
        case 1
        then show ?thesis using step.hyps(2,3) False reach_refl by blast
      next
        case 2
        then show ?thesis using step.hyps(2,3) False reach_step [of y E "insert v M" n z] by blast
      qed
    qed simp
  qed simp
next
  fix w assume "w \<in> ?R"
  then consider "w = v" | n where "(v, n) \<in> E" "n \<notin> insert v M" "w \<in> reach E (insert v M) n" by auto
  then show "w \<in> ?L"
  proof cases
    case 1
    then show ?thesis by (simp add: reach_refl)
  next
    case 2
    then have "w \<in> reach E M n" using reach_mono [of M "insert v M"] by blast
    then show ?thesis using reach_into [OF _ reach_refl] 2 by blast
  qed
qed

lemma reach_list_step:
  assumes "n \<notin> M"
  shows "reach E M n \<union> (\<Union>u \<in> set ns - (M \<union> reach E M n). reach E (M \<union> reach E M n) u) = (\<Union>u \<in> set (n # ns) - M. reach E M u)"
proof (intro equalityI subsetI)
  fix w assume "w \<in> reach E M n \<union> (\<Union>u \<in> set ns - (M \<union> reach E M n). reach E (M \<union> reach E M n) u)"
  then show "w \<in> (\<Union>u \<in> set (n # ns) - M. reach E M u)"
    using assms reach_mono [of M "M \<union> reach E M n" E] by (auto; blast)
next
  fix w assume "w \<in> (\<Union>u \<in> set (n # ns) - M. reach E M u)"
  then obtain u where u: "u \<in> set (n # ns)" "u \<notin> M" "w \<in> reach E M u" by auto
  show "w \<in> reach E M n \<union> (\<Union>u \<in> set ns - (M \<union> reach E M n). reach E (M \<union> reach E M n) u)"
  proof (cases "u \<in> reach E M n")
    case True
    have "z \<in> reach E M n" if "z \<in> reach E M u" for z using that
      by (induction rule: reach_induct) (use True reach_step in \<open>blast+\<close>)
    then show ?thesis using u(3) by blast
  next
    case False
    then have "u \<in> set ns" using u(1) reach_refl by auto
    then show ?thesis using reach_after [OF u(3), of n] False u(2) by blast
  qed
qed

section \<open>The search\<close>

definition marks :: "'w graph \<Rightarrow> int set" where
  "marks g = {v. 0 \<le> v \<and> nat v < length (dfs_marked g) \<and> dfs_marked g ! nat v}"

text \<open>The search runs in a graph whose vertices and neighbours have marks.\<close>

definition searchable :: "nat \<Rightarrow> 'w graph \<Rightarrow> (int \<rightharpoonup> (int \<times> 'w) list) \<Rightarrow> nat \<Rightarrow> bool" where
  "searchable fuel g A N \<longleftrightarrow> graph_rep fuel 0 g A \<and> length (dfs_marked g) = N \<and>
     (\<forall>k ns. A k = Some ns \<longrightarrow> fst ` set ns \<subseteq> {0..<int N})"

definition edges_of :: "(int \<rightharpoonup> (int \<times> 'w) list) \<Rightarrow> (int \<times> int) set" where
  "edges_of A = {(k, w). \<exists>ns. A k = Some ns \<and> w \<in> fst ` set ns}"

lemma graph_rep_marks: "graph_rep fuel m (g\<lparr>dfs_marked := x\<rparr>) A = graph_rep fuel m g A"
proof -
  have "bkey (g\<lparr>dfs_marked := x\<rparr>) = bkey g" by (simp add: bkey_def fun_eq_iff split: bagp.splits)
  moreover from this have "gcmp (g\<lparr>dfs_marked := x\<rparr>) = gcmp g" by (simp add: gcmp_def fun_eq_iff)
  ultimately show ?thesis by (simp add: graph_rep_def graph_at_def mem_inv_def bag_tree_def bag_of_def good_bag_def)
qed

lemma set_mark_spec:
  assumes "searchable fuel g A N" "0 \<le> v" "v < int N"
  shows "\<exists>g'. set_mark g v = Inr g' \<and> searchable fuel g' A N \<and> marks g' = insert v (marks g) \<and> gnodes g' = gnodes g"
proof -
  let ?g = "g\<lparr>dfs_marked := (dfs_marked g)[nat v := True]\<rparr>"
  have "set_mark g v = Inr ?g" using assms by (simp add: set_mark_def store_def searchable_def)
  moreover have "marks ?g = insert v (marks g)"
    using assms by (auto simp: marks_def searchable_def nth_list_update)
  moreover have "searchable fuel ?g A N" using assms(1) by (simp add: searchable_def graph_rep_marks)
  ultimately show ?thesis by auto
qed

text \<open>What a part of the search does to the output and to the marks.\<close>

definition visits :: "nat \<Rightarrow> 'w graph \<Rightarrow> (int \<rightharpoonup> (int \<times> 'w) list) \<Rightarrow> nat \<Rightarrow> int list \<Rightarrow> int set \<Rightarrow> cerr + int list \<times> 'w graph \<Rightarrow> bool" where
  "visits fuel g A N out S r \<longleftrightarrow> (\<exists>xs g'. r = Inr (out @ xs, g') \<and> distinct xs \<and> set xs = S \<and> S \<inter> marks g = {} \<and>
     searchable fuel g' A N \<and> marks g' = marks g \<union> S \<and> gnodes g' = gnodes g)"

lemma unmarked_less:
  assumes "v \<in> {0..<int N}" "v \<notin> M" "card ({0..<int N} - M) \<le> Suc k"
  shows "card ({0..<int N} - insert v M) \<le> k"
proof -
  have "{0..<int N} - insert v M = ({0..<int N} - M) - {v}" by auto
  then show ?thesis using assms by (simp add: card_Diff_singleton)
qed

lemma dfs_adjs_visits:
  assumes IH: "\<And>g v out. searchable fuel g A N \<Longrightarrow> v \<in> {0..<int N} \<Longrightarrow> v \<notin> marks g \<Longrightarrow> card ({0..<int N} - marks g) \<le> k \<Longrightarrow>
      visits fuel g A N out (reach (edges_of A) (marks g) v) (do_graph_simple_dfs k fuel g v out)"
    and "searchable fuel g A N" "card ({0..<int N} - marks g) \<le> k" "i + length ns \<le> length arr"
      "\<forall>j < length ns. \<exists>x. arr ! (i + j) = Some x \<and> gnodes g x = Some (ns ! j)" "set ns \<subseteq> {0..<int N}"
  shows "visits fuel g A N out (\<Union>n \<in> set ns - marks g. reach (edges_of A) (marks g) n) (dfs_adjs k fuel g arr i (length ns) out)"
  using assms(2-)
proof (induction ns arbitrary: g i out)
  case Nil
  then show ?case by (auto simp: visits_def)
next
  case (Cons n ns)
  let ?E = "edges_of A" and ?M = "marks g"
  obtain x where x: "arr ! i = Some x" "gnodes g x = Some n" using Cons.prems(4) by force
  have i: "i < length arr" using Cons.prems(3) by simp
  have n: "0 \<le> n" "nat n < length (dfs_marked g)" using Cons.prems(1,5) by (auto simp: searchable_def)
  have ld: "loadi (dfs_marked g) n = Inr (n \<in> ?M)" using n by (simp add: mem_simps marks_def)
  have tail: "\<forall>j < length ns. \<exists>x. arr ! (Suc i + j) = Some x \<and> gnodes g x = Some (ns ! j)" using Cons.prems(4) by fastforce
  note rd = x i ld
  show ?case
  proof (cases "n \<in> ?M")
    case True
    then have "dfs_adjs k fuel g arr i (length (n # ns)) out = dfs_adjs k fuel g arr (Suc i) (length ns) out"
      using rd by (simp add: mem_simps)
    moreover have "set (n # ns) - ?M = set ns - ?M" using True by auto
    ultimately show ?thesis using Cons.IH [of g "Suc i" out] Cons.prems tail by simp
  next
    case False
    let ?S = "reach ?E ?M n"
    have "n \<in> {0..<int N}" using Cons.prems(5) by simp
    from IH [OF Cons.prems(1) this False Cons.prems(2), of out] obtain xs g1 where
      g1: "do_graph_simple_dfs k fuel g n out = Inr (out @ xs, g1)" "distinct xs" "set xs = ?S" "?S \<inter> ?M = {}"
      "searchable fuel g1 A N" "marks g1 = ?M \<union> ?S" "gnodes g1 = gnodes g" by (auto simp: visits_def)
    have run: "dfs_adjs k fuel g arr i (length (n # ns)) out = dfs_adjs k fuel g1 arr (Suc i) (length ns) (out @ xs)"
      using rd False g1(1) by (simp add: mem_simps)
    have "card ({0..<int N} - marks g1) \<le> card ({0..<int N} - ?M)" unfolding g1(6) by (intro card_mono) auto
    then have "card ({0..<int N} - marks g1) \<le> k" using Cons.prems(2) by linarith
    from Cons.IH [OF g1(5) this, of "Suc i" "out @ xs"] Cons.prems(3,5) tail g1(7) obtain ys g2 where
      g2: "dfs_adjs k fuel g1 arr (Suc i) (length ns) (out @ xs) = Inr ((out @ xs) @ ys, g2)" "distinct ys"
      "set ys = (\<Union>u \<in> set ns - marks g1. reach ?E (marks g1) u)" "set ys \<inter> marks g1 = {}"
      "searchable fuel g2 A N" "marks g2 = marks g1 \<union> set ys" "gnodes g2 = gnodes g1" by (auto simp: visits_def)
    have all: "?S \<union> set ys = (\<Union>u \<in> set (n # ns) - ?M. reach ?E ?M u)"
      unfolding g2(3) g1(6) by (rule reach_list_step [OF False])
    have "distinct (xs @ ys)" "(?S \<union> set ys) \<inter> ?M = {}" "marks g2 = ?M \<union> (?S \<union> set ys)" using g1 g2(2,4,6) by auto
    then show ?thesis unfolding visits_def run all [symmetric] using g1(3,7) g2
      by (intro exI [of _ "xs @ ys"] exI [of _ g2]) auto
  qed
qed

lemma do_dfs_visits:
  assumes "searchable fuel g A N" "v \<in> {0..<int N}" "v \<notin> marks g" "card ({0..<int N} - marks g) \<le> k"
  shows "visits fuel g A N out (reach (edges_of A) (marks g) v) (do_graph_simple_dfs k fuel g v out)"
  using assms
proof (induction k arbitrary: g v out)
  case 0
  then show ?case by (auto simp: card_eq_0_iff)
next
  case (Suc k)
  let ?E = "edges_of A" and ?M = "marks g"
  from set_mark_spec [OF Suc.prems(1), of v] Suc.prems(2) obtain g1 where
    g1: "set_mark g v = Inr g1" "searchable fuel g1 A N" "marks g1 = insert v ?M" "gnodes g1 = gnodes g" by auto
  have card: "card ({0..<int N} - marks g1) \<le> k" unfolding g1(3) using unmarked_less Suc.prems(2-4) by blast
  have rep: "graph_rep fuel 0 g1 A" using g1(2) by (simp add: searchable_def)
  show ?case
  proof (cases "A v")
    case None
    then have "do_graph_simple_dfs (Suc k) fuel g v out = Inr (out @ [v], g1)" using g1(1) graph_adj_spec [OF rep, of v] by simp
    moreover have "reach ?E ?M v = {v}" using None by (subst reach_unfold) (auto simp: edges_of_def)
    ultimately show ?thesis using g1 Suc.prems(3) by (auto simp: visits_def)
  next
    case (Some ns)
    from graph_adj_spec [OF rep, of v] Some obtain arr where arr: "graph_adj fuel g1 v = Inr (Some (arr, length ns))" "length ns \<le> length arr"
      "\<forall>j < length ns. \<exists>x. arr ! j = Some x \<and> gnodes g1 x = Some (fst (ns ! j))" by auto
    have "set (map fst ns) \<subseteq> {0..<int N}" using Suc.prems(1) Some by (auto simp: searchable_def)
    from dfs_adjs_visits [OF Suc.IH g1(2) card, where i = 0 and ns = "map fst ns" and arr = arr and out = "out @ [v]"] this arr(2,3)
    obtain xs g2 where g2: "dfs_adjs k fuel g1 arr 0 (length ns) (out @ [v]) = Inr ((out @ [v]) @ xs, g2)" "distinct xs"
      "set xs = (\<Union>n \<in> set (map fst ns) - insert v ?M. reach ?E (insert v ?M) n)" "set xs \<inter> insert v ?M = {}"
      "searchable fuel g2 A N" "marks g2 = insert v ?M \<union> set xs" "gnodes g2 = gnodes g"
      using g1(3,4) by (auto simp: visits_def)
    have "set (map fst ns) - insert v ?M = {n. (v, n) \<in> ?E \<and> n \<notin> insert v ?M}" using Some by (auto simp: edges_of_def)
    then have all: "insert v (set xs) = reach ?E ?M v" unfolding g2(3) by (subst reach_unfold) simp
    have "do_graph_simple_dfs (Suc k) fuel g v out = Inr (out @ v # xs, g2)" using g1(1) arr(1) g2(1) by simp
    moreover have "distinct (v # xs)" "insert v (set xs) \<inter> ?M = {}" using g2(2,4) Suc.prems(3) by auto
    ultimately show ?thesis unfolding visits_def all [symmetric] using g2(5-7)
      by (intro exI [of _ "v # xs"] exI [of _ g2]) auto
  qed
qed

text \<open>The output only grows, and begins with the start.\<close>

lemma dfs_prefix:
  "do_graph_simple_dfs k fuel g v out = Inr (xs, g') \<Longrightarrow> \<exists>ys. xs = out @ v # ys"
  "dfs_adjs k fuel g arr i c out = Inr (xs, g') \<Longrightarrow> \<exists>ys. xs = out @ ys"
proof (induction k fuel g v out and k fuel g arr i c out arbitrary: xs g' and xs g' rule: do_graph_simple_dfs_dfs_adjs.induct)
  case (2 k fuel g v out)
  from "2.prems" obtain g1 adj where g1: "set_mark g v = Inr g1" "graph_adj fuel g1 v = Inr adj"
    "(case adj of None \<Rightarrow> Inr (out @ [v], g1) | Some (arr, sz) \<Rightarrow> dfs_adjs k fuel g1 arr 0 sz (out @ [v])) = Inr (xs, g')"
    by (auto simp: res_simps)
  show ?case
  proof (cases adj)
    case (Some p)
    then show ?thesis using "2.IH" [OF g1(1,2), of p "fst p" "snd p"] g1(3) by (cases p) fastforce
  qed (use g1 in auto)
next
  case (4 k fuel g arr i c out)
  from "4.prems" obtain x key mk out1 g1 where r: "read_cell arr i = Inr x" "deref (gnodes g x) = Inr key" "loadi (dfs_marked g) key = Inr mk"
    "(if mk then Inr (out, g) else do_graph_simple_dfs k fuel g key out) = Inr (out1, g1)" "dfs_adjs k fuel g1 arr (Suc i) c out1 = Inr (xs, g')"
    by (auto simp: res_simps)
  have "\<exists>ys. out1 = out @ ys" using r(4) "4.IH"(1) [OF r(1-3)] by (cases mk) auto
  moreover have "\<exists>ys. xs = out1 @ ys" using "4.IH"(2) [OF r(1-4) refl r(5)] .
  ultimately show ?case by auto
qed auto

lemma dfs_hd: "graph_simple_dfs k fuel g v = Inr (xs, g') \<Longrightarrow> hd xs = v"
  using dfs_prefix(1) by (fastforce simp: graph_simple_dfs_def)

text \<open>The edges of a file between its vertices, in both directions if the graph is undirected.\<close>

definition file_edges :: "bool \<Rightarrow> nat \<Rightarrow> (int \<times> int) list \<Rightarrow> (int \<times> int) set" where
  "file_edges d v es = {(a, b). a \<in> {0..<int v} \<and> b \<in> {0..<int v} \<and> ((a, b) \<in> set es \<or> \<not> d \<and> (b, a) \<in> set es)}"

lemma nbrs_no_weight: "fst ` set (nbrs d D (no_weight zero es) k) = {w. k \<in> D \<and> w \<in> D \<and> ((k, w) \<in> set es \<or> \<not> d \<and> (w, k) \<in> set es)}"
proof (induction es)
  case (Cons e es)
  have "nbrs d D (no_weight zero (e # es)) k = nbrs d D [(fst e, snd e, zero)] k @ nbrs d D (no_weight zero es) k"
    by (simp add: no_weight_def nbrs_Cons nbrs_Nil)
  then show ?case using Cons by (cases e) (auto simp: image_Un nbrs_Cons nbrs_Nil image_iff; metis fst_conv)
qed (simp add: no_weight_def nbrs_Nil)

lemma edges_of_file: "edges_of (adj_of d {0..<int v} (no_weight zero es)) = file_edges d v es"
proof -
  have "(a, b) \<in> edges_of (adj_of d {0..<int v} (no_weight zero es)) \<longleftrightarrow>
      a \<in> {0..<int v} \<and> b \<in> fst ` set (nbrs d {0..<int v} (no_weight zero es) a)" for a b
    by (auto simp: edges_of_def adj_of_def)
  then show ?thesis unfolding nbrs_no_weight by (auto simp: file_edges_def)
qed

lemma graph_init_then_unset:
  assumes "v < 2147483648" "e < 2 ^ 64" "rb_fuel v \<le> fuel" "\<forall>e \<in> set es. in_int (fst e) \<and> in_int (snd e)" "length es < n"
    "\<And>g. graph_rep fuel 0 g (adj_of d {0..<int v} []) \<Longrightarrow> gv g = v \<Longrightarrow> direct g = d \<Longrightarrow> f (unset g) = Inl UninitRead"
  shows "bindr (graph_init n fuel zero (graph_new d True None) (graph_file v e es)) (\<lambda>(r, g). f g) = Inl UninitRead"
proof -
  from graph_init_unset [OF assms(1-5), of zero d] obtain g where
    g: "graph_init n fuel zero (graph_new d True None) (graph_file v e es) =
      (if \<exists>e \<in> set es. fst e \<in> {0..<int v} \<and> snd e \<in> {0..<int v} then Inl UninitRead else Inr (0, unset g))"
    "gv g = v" "direct g = d" "graph_rep fuel 0 g (adj_of d {0..<int v} [])" by blast
  show ?thesis unfolding g(1) using assms(6) [OF g(4,2,3)] by simp
qed

lemma graph_simple_dfs_unset:
  assumes "graph_rep fuel 0 g A" "s \<in> dom A" "0 \<le> s" "s < int (gv g)" "0 < k"
  shows "graph_simple_dfs k fuel (unset g) s = Inl UninitRead"
proof -
  obtain j where k: "k = Suc j" using assms(5) by (cases k) auto
  let ?g = "g\<lparr>dfs_marked := (replicate (gv g) False)[nat s := True]\<rparr>"
  have "set_mark ((unset g)\<lparr>dfs_marked := replicate (gv g) False\<rparr>) s = Inr (unset ?g)"
    using assms(3,4) by (simp add: set_mark_def store_def unset_def nat_less_iff)
  moreover have "graph_adj fuel (unset ?g) s = Inl UninitRead"
    using graph_adj_unset [of fuel 0 ?g A s] assms(1,2) by (simp add: graph_rep_marks)
  ultimately show ?thesis by (simp add: k graph_simple_dfs_def)
qed

text \<open>C16: a graph file with fewer than \<open>2 ^ 31\<close> vertices. With a client whose callback \<open>graph_bag_new\<close> sets the count of a new bag to 0, after reading the file the
  depth-first search from a vertex returns and prints exactly the vertices
  reachable from it along the edges, each once, beginning with the start. It needs a recursion depth of at most the number of vertices.
  With the callback of \<^verbatim>\<open>test_graph.cpp\<close>, which does not set the count, reading a file and searching from a vertex always uses the unset value.\<close>

theorem graph_dfs_reachable:
  assumes "v < 2147483648" "e < 2 ^ 64" "rb_fuel v \<le> fuel" "\<forall>e \<in> set es. in_int (fst e) \<and> in_int (snd e)" "length es < n"
    "0 \<le> s" "s < int v" "v \<le> k"
  shows "(\<exists>g g' xs. graph_init n fuel zero (graph_new d True (Some 0)) (graph_file v e es) = Inr (0, g) \<and>
    graph_simple_dfs k fuel g s = Inr (xs, g') \<and> distinct xs \<and> set xs = {w. (s, w) \<in> (file_edges d v es)\<^sup>*} \<and> hd xs = s) \<and>
    bindr (graph_init n fuel zero (graph_new d True None) (graph_file v e es)) (\<lambda>(r, g). graph_simple_dfs k fuel g s) = Inl UninitRead"
proof (rule conjI)
  let ?A = "adj_of d {0..<int v} (no_weight zero es)"
  from graph_init_rep [OF assms(1-5), of zero d] obtain g where
    g: "graph_init n fuel zero (graph_new d True (Some 0)) (graph_file v e es) = Inr (0, g)" "gv g = v" "graph_rep fuel 0 g ?A" by blast
  let ?g = "g\<lparr>dfs_marked := replicate v False\<rparr>"
  have m: "marks ?g = {}" by (auto simp: marks_def)
  have "fst ` set ns \<subseteq> {0..<int v}" if "?A a = Some ns" for a ns
    using that nbrs_no_weight [of d "{0..<int v}" zero es a] by (auto simp: adj_of_def split: if_splits)
  then have se: "searchable fuel ?g ?A v" using g(3) by (simp add: searchable_def graph_rep_marks)
  from do_dfs_visits [OF se, of s k "[]"] assms(6-8) m obtain xs g' where
    x: "graph_simple_dfs k fuel g s = Inr (xs, g')" "distinct xs" "set xs = reach (file_edges d v es) {} s"
    using g(2) by (auto simp: visits_def graph_simple_dfs_def edges_of_file)
  moreover have "reach (file_edges d v es) {} s = {w. (s, w) \<in> (file_edges d v es)\<^sup>*}" by (simp add: reach_def)
  moreover have "hd xs = s" using dfs_hd [OF x(1)] .
  ultimately show "\<exists>g g' xs. graph_init n fuel zero (graph_new d True (Some 0)) (graph_file v e es) = Inr (0, g) \<and>
    graph_simple_dfs k fuel g s = Inr (xs, g') \<and> distinct xs \<and> set xs = {w. (s, w) \<in> (file_edges d v es)\<^sup>*} \<and> hd xs = s" using g(1) by blast
next
  show "bindr (graph_init n fuel zero (graph_new d True None) (graph_file v e es)) (\<lambda>(r, g). graph_simple_dfs k fuel g s) = Inl UninitRead"
    by (rule graph_init_then_unset [OF assms(1-5)], erule graph_simple_dfs_unset) (use assms(6-8) in \<open>auto simp: adj_of_dom\<close>)
qed

theorem graph_dfs_reachable_witness:
  "\<exists>g g' xs. graph_init 3 36 () (graph_new False True (Some 0)) (graph_file 3 1 [(1, 0)]) = Inr (0, g) \<and>
    graph_simple_dfs 3 36 g 0 = Inr (xs, g') \<and> distinct xs \<and> 1 \<in> set xs \<and> 2 \<notin> set xs \<and>
    bindr (graph_init 3 36 () (graph_new False True None) (graph_file 3 1 [(1, 0)])) (\<lambda>(r, g). graph_simple_dfs 3 36 g 0) = Inl UninitRead"
proof -
  have h: "rb_fuel 3 \<le> 36" "\<forall>e \<in> set [(1, 0)]. in_int (fst e) \<and> in_int (snd e)" by (simp_all add: rb_fuel_def in_int_def)
  have E: "file_edges False 3 [(1, 0)] = {(0, 1), (1, 0)}" by (auto simp: file_edges_def)
  note dfs = graph_dfs_reachable [OF _ _ h, of 1 3 0 3 "()" False]
  from dfs obtain g g' xs where
    x: "graph_init 3 36 () (graph_new False True (Some 0)) (graph_file 3 1 [(1, 0)]) = Inr (0, g)"
    "graph_simple_dfs 3 36 g 0 = Inr (xs, g')" "distinct xs" "set xs = {w. (0, w) \<in> {(0, 1), (1, 0)}\<^sup>*}" unfolding E by auto
  have "(0 :: int, w) \<in> {(0, 1), (1, 0)}\<^sup>* \<Longrightarrow> w \<in> {0, 1}" for w by (induction rule: rtrancl_induct) auto
  from this [of 2] have "2 \<notin> set xs" "1 \<in> set xs" unfolding x(4) by auto
  then show ?thesis using x(1-3) dfs by auto
qed

section \<open>The reversed copy\<close>

definition reversed :: "'w \<Rightarrow> int \<Rightarrow> (int \<times> 'w) list \<Rightarrow> (int \<times> int \<times> 'w) list" where
  "reversed zero k ns = map (\<lambda>n. (fst n, k, zero)) ns"

lemma reverse_adjs_eq:
  assumes "j + length ns \<le> length arr" "\<forall>i < length ns. \<exists>x. arr ! (j + i) = Some x \<and> gnodes og x = Some (fst (ns ! i))"
  shows "reverse_adjs fuel zero og g key arr j (length ns) = add_edges_all (graph_add_edge fuel) g (reversed zero key ns)"
  using assms
proof (induction ns arbitrary: g j)
  case (Cons n ns)
  obtain x where x: "arr ! j = Some x" "gnodes og x = Some (fst n)" using Cons.prems(2) by force
  have "j < length arr" using Cons.prems(1) by simp
  moreover have "reverse_adjs fuel zero og g' key arr (Suc j) (length ns) = add_edges_all (graph_add_edge fuel) g' (reversed zero key ns)" for g'
    using Cons.prems by (intro Cons.IH) fastforce+
  ultimately show ?case using x by (simp add: mem_simps reversed_def)
qed (simp add: reversed_def)

lemma add_edges_append: "add_edges_all adde g (es @ fs) = bindr (add_edges_all adde g es) (\<lambda>g. add_edges_all adde g fs)"
proof (induction es arbitrary: g)
  case (Cons e es)
  obtain v w we where "e = (v, w, we)" by (cases e)
  then show ?case using Cons by (cases "adde g v w we") (auto split: prod.splits)
qed simp

lemma reverse_vertices_eq:
  assumes rep: "graph_rep fuel m og A" and "\<forall>d \<in> set ds. \<exists>k. bag_of og A d k"
  shows "\<exists>ns. bag_nodes og ds = Inr ns \<and> length ns = length ds \<and> reverse_vertices fuel zero og g ns =
    add_edges_all (graph_add_edge fuel) g (concat (map (\<lambda>k. reversed zero k (the (A k))) (map (the \<circ> bkey og) ds)))"
  using assms(2)
proof (induction ds arbitrary: g)
  case (Cons d ds)
  from Cons.prems obtain k where k: "bag_of og A d k" by auto
  then obtain b x vs where b: "getb og d = Inr b" "b_node b = Some x" "gnodes og x = Some k" "A k = Some vs" "bkey og d = Some k"
    using bag_of_key [OF k] by (auto simp: bag_of_def getb_def)
  from graph_adj_spec [OF rep, of k] b(4) obtain arr where arr: "graph_adj fuel og k = Inr (Some (arr, length vs))" "length vs \<le> length arr"
    "\<forall>j < length vs. \<exists>x. arr ! j = Some x \<and> gnodes og x = Some (fst (vs ! j))" by auto
  have adj: "reverse_adjs fuel zero og g k arr 0 (length vs) = add_edges_all (graph_add_edge fuel) g (reversed zero k vs)" for g
    using reverse_adjs_eq [of 0 vs arr og] arr(2,3) by simp
  from Cons.IH Cons.prems obtain ns where ns: "bag_nodes og ds = Inr ns" "length ns = length ds" by (meson list.set_intros(2))
  have "reverse_vertices fuel zero og g' ns =
      add_edges_all (graph_add_edge fuel) g' (concat (map (\<lambda>k. reversed zero k (the (A k))) (map (the \<circ> bkey og) ds)))" for g'
    using Cons.IH [of g'] Cons.prems ns(1) by (auto simp: comp_def)
  then have "reverse_vertices fuel zero og g (Some x # ns) =
      add_edges_all (graph_add_edge fuel) g (concat (map (\<lambda>k. reversed zero k (the (A k))) (map (the \<circ> bkey og) (d # ds))))"
    using b arr(1) adj by (simp add: add_edges_append)
  then show ?case using b(1,2) ns by (intro exI [of _ "Some x # ns"] conjI) (simp_all only: bag_nodes.simps bindr_simps length_Cons)
qed simp

definition reversed_edges :: "'w \<Rightarrow> (int \<rightharpoonup> (int \<times> 'w) list) \<Rightarrow> (int \<times> int \<times> 'w) list" where
  "reversed_edges zero A = concat (map (\<lambda>k. reversed zero k (the (A k))) (sorted_list_of_set (dom A)))"

lemma graph_clear_rep:
  assumes "mem_inv og" "rb_fuel v \<le> fuel" "gv og = v" "direct og"
  shows "graph_rep fuel v (graph_clear og) (adj_of True {} [])"
proof -
  have e: "adj_of True {} [] = (Map.empty :: int \<Rightarrow> (int \<times> 'a) list option)" by (simp add: adj_of_def fun_eq_iff)
  have "bag_tree (graph_clear og) Map.empty []" by (simp add: bag_tree_def)
  moreover have "mem_inv (graph_clear og)" using assms(1) pool_init_inv [of 8] pools_large by (auto simp: mem_inv_def graph_clear_def)
  moreover have "tree_inv (gtr (graph_clear og)) Leaf" using rb_tree_init_inv [of 8] by (simp add: graph_clear_def)
  ultimately have "graph_at fuel v (graph_clear og) Map.empty []"
    unfolding graph_at_def using assms rb_ok_Leaf by (intro conjI exI [of _ Leaf]) (auto simp: graph_clear_def)
  then show ?thesis unfolding e by (auto simp: graph_rep_def)
qed

lemma dgraph_reverse_copy_rep:
  assumes rep: "graph_rep fuel 0 og A" and d: "direct og" and v: "gv og = v" "0 < v" "v < 2147483648" "dom A = {0..<int v}" "rb_fuel v \<le> fuel"
  shows "\<exists>g. dgraph_reverse_copy fuel zero og = Inr g \<and> graph_rep fuel 0 g (adj_of True {0..<int v} (reversed_edges zero A))"
proof -
  obtain ds t where mi: "mem_inv og" and bt: "bag_tree og A ds" and t: "tree_inv (gtr og) t" "rb_fuel (length (addrs t)) \<le> fuel" "inorder t = ds"
    using rep by (auto simp: graph_rep_def graph_at_def)
  have "graph_rep fuel (length (map int_of_size [0..<v]) + 0) (graph_clear og) (adj_of True {} [])"
    using graph_clear_rep [OF mi v(5,1) d] by simp
  from gl.add_vertices_all_rep [OF this] obtain g1 where g1: "add_vertices fuel (graph_clear og) v = Inr (0, g1)"
    "graph_rep fuel 0 g1 (adj_of True {0..<int v} [])" "direct g1" "gv g1 = v"
    using bounded_sizes(2) [OF v(3)] d v(1) by (auto simp: add_vertices_def graph_clear_def)
  have len: "length ds = v" using arg_cong [OF bag_tree_keys [OF bt], of length] v(4) by simp
  have "length (addrs t) < fuel" using t(2) rb_fuel_gt [of "length (addrs t)"] by linarith
  then have walk: "walk_into fuel v og = Inr ds" using rbtree_inorder_walk_sim [OF t(1)] t(3) len by (simp add: walk_into_def)
  from reverse_vertices_eq [OF rep, of ds zero g1] bt obtain ns where ns: "bag_nodes og ds = Inr ns" "length ns = v"
    "reverse_vertices fuel zero og g1 ns = add_edges_all (graph_add_edge fuel) g1 (reversed_edges zero A)"
    using bag_tree_keys [OF bt] len by (auto simp: bag_tree_def reversed_edges_def)
  have "graph_rep fuel 0 g1 (adj_of (direct g1) {0..<int v} [])" using g1(2,3) by simp
  from gl.add_edges_all_rep [OF this, of "reversed_edges zero A"] g1(3) obtain g where
    g: "add_edges_all (graph_add_edge fuel) g1 (reversed_edges zero A) = Inr g" "graph_rep fuel 0 g (adj_of True {0..<int v} (reversed_edges zero A))" by auto
  have "ns \<noteq> []" using ns(2) v(2) by auto
  then have "dgraph_reverse_copy fuel zero og = Inr g"
    using d v(1) g1(1,4) walk ns g(1) by (simp add: dgraph_reverse_copy_def graph_vertex_def)
  then show ?thesis using g(2) by blast
qed

lemma count_nbrs: "count_list (map fst (nbrs True D es k)) u = length (filter (\<lambda>e. fst e = k \<and> fst (snd e) = u \<and> k \<in> D \<and> u \<in> D) es)"
proof (induction es)
  case (Cons e es)
  obtain v w we where "e = (v, w, we)" by (cases e)
  then show ?case using Cons by (auto simp: nbrs_Cons)
qed (simp add: nbrs_Nil)

lemma count_reversed: "length (filter (\<lambda>e. fst e = k \<and> fst (snd e) = u) (reversed zero l ns)) = (if l = u then count_list (map fst ns) k else 0)"
  by (induction ns) (auto simp: reversed_def)

lemma count_reversed_edges:
  assumes "finite (dom A)"
  shows "length (filter (\<lambda>e. fst e = k \<and> fst (snd e) = u) (reversed_edges zero A)) = (if u \<in> dom A then count_list (map fst (the (A u))) k else 0)"
proof -
  have "length (filter (\<lambda>e. fst e = k \<and> fst (snd e) = u) (concat (map (\<lambda>l. reversed zero l (the (A l))) ls))) =
      (if u \<in> set ls then count_list (map fst (the (A u))) k else 0)" if "distinct ls" for ls
    using that by (induction ls) (auto simp: count_reversed)
  from this [OF distinct_sorted_list_of_set] show ?thesis using assms by (simp add: reversed_edges_def)
qed

lemma dgraph_reverse_copy_unset:
  assumes rep: "graph_rep fuel 0 og A" and d: "direct og" and v: "gv og = v" "0 < v" "v < 2147483648" "dom A = {0..<int v}" "rb_fuel v \<le> fuel"
  shows "dgraph_reverse_copy fuel zero (unset og) = Inl UninitRead"
proof -
  have "mem_inv og" using rep by (auto simp: graph_rep_def graph_at_def)
  from graph_clear_rep [OF this v(5,1) d] have "graph_rep fuel (length (map int_of_size [0..<v]) + 0) (graph_clear og) (adj_of True {} [])" by simp
  from gl.add_vertices_all_rep [OF this] obtain g1 where g1: "add_vertices fuel (graph_clear og) v = Inr (0, g1)" "gv g1 = v"
    using v(1) by (auto simp: add_vertices_def graph_clear_def)
  have "graph_clear (unset og) = unset (graph_clear og)" by (simp add: graph_clear_def unset_def)
  then have add: "add_vertices fuel (graph_clear (unset og)) v = Inr (0, unset g1)"
    using g1(1) unfolding add_vertices_def by (simp add: add_vertices_all_unset)
  from graph_first_bag [OF rep, of v] v(2,4) obtain b d ds k x where
    first: "walk_into fuel v og = Inr (d # ds)" "bag_tree og A (d # ds)" "k \<in> dom A" "getb og d = Inr b" "b_node b = Some x" "gnodes og x = Some k" by auto
  from reverse_vertices_eq [OF rep, of ds zero og] first(2) obtain ns where "bag_nodes og ds = Inr ns" by (auto simp: bag_tree_def)
  moreover have "bag_nodes (unset og) ds = bag_nodes og ds" for ds
    by (induction ds) (auto simp: getb_unset bindr_assoc)
  ultimately have "graph_vertex fuel v (unset og) = Inr (Some x # ns)" using first(1,4,5) by (simp add: graph_vertex_def getb_unset)
  moreover have "reverse_vertices fuel zero (unset og) g (Some x # ns) = Inl UninitRead" for g
    using first(3,6) graph_adj_unset [OF rep, of k] by simp
  ultimately show ?thesis using d v(1) g1(2) add by (simp add: dgraph_reverse_copy_def)
qed

text \<open>C17: the file of a directed graph with at least one and fewer than \<open>2 ^ 31\<close> vertices. With a client whose callback \<open>graph_bag_new\<close> sets the count of a new bag to 0, after
  reading the file the reversed copy has, from every vertex, as many edges
  to any other as the file has in the opposite direction between its vertices. With the callback of \<^verbatim>\<open>test_graph.cpp\<close>, which does not
  set the count, reading a file and copying it always uses the unset value.\<close>

theorem dgraph_reverse_copy_reverses:
  assumes "v < 2147483648" "0 < v" "e < 2 ^ 64" "rb_fuel v \<le> fuel" "\<forall>e \<in> set es. in_int (fst e) \<and> in_int (snd e)" "length es < n"
    "a \<in> {0..<int v}" "b \<in> {0..<int v}"
  shows "(\<exists>og g arr ks. graph_init n fuel zero (graph_new True True (Some 0)) (graph_file v e es) = Inr (0, og) \<and>
    dgraph_reverse_copy fuel zero og = Inr g \<and> graph_adj fuel g a = Inr (Some (arr, length ks)) \<and>
    (\<forall>j < length ks. \<exists>x. arr ! j = Some x \<and> gnodes g x = Some (ks ! j)) \<and>
    count_list ks b = count_list es (b, a)) \<and>
    bindr (graph_init n fuel zero (graph_new True True None) (graph_file v e es)) (\<lambda>(r, og). dgraph_reverse_copy fuel zero og) = Inl UninitRead"
    (is "?C \<and> _ = _")
proof (rule conjI)
  let ?D = "{0..<int v}"
  let ?A = "adj_of True ?D (no_weight zero es)"
  from graph_init_rep [OF assms(1,3-6), of zero True] obtain og where
    og: "graph_init n fuel zero (graph_new True True (Some 0)) (graph_file v e es) = Inr (0, og)" "gv og = v" "direct og" "graph_rep fuel 0 og ?A" by blast
  have dom: "dom ?A = ?D" by (auto simp: adj_of_def split: if_splits)
  from dgraph_reverse_copy_rep [OF og(4,3,2) assms(2,1) dom assms(4), of zero] obtain g where
    g: "dgraph_reverse_copy fuel zero og = Inr g" "graph_rep fuel 0 g (adj_of True ?D (reversed_edges zero ?A))" by blast
  let ?ns = "nbrs True ?D (reversed_edges zero ?A) a"
  have "adj_of True ?D (reversed_edges zero ?A) a = Some ?ns" using assms(7) by (simp add: adj_of_def)
  with graph_adj_spec [OF g(2), of a] obtain arr where
    arr: "graph_adj fuel g a = Inr (Some (arr, length (map fst ?ns)))" "\<forall>j < length (map fst ?ns). \<exists>x. arr ! j = Some x \<and> gnodes g x = Some (map fst ?ns ! j)" by auto
  have "count_list (map fst ?ns) b = length (filter (\<lambda>e. fst e = a \<and> fst (snd e) = b) (reversed_edges zero ?A))"
    using assms(7,8) by (simp add: count_nbrs)
  also have "\<dots> = count_list (map fst (nbrs True ?D (no_weight zero es) b)) a"
    using count_reversed_edges [of ?A a b zero] assms(8) by (simp add: dom adj_of_def)
  also have "\<dots> = length (filter (\<lambda>e. fst e = b \<and> fst (snd e) = a) (no_weight zero es))" using assms(7,8) by (simp add: count_nbrs)
  also have "\<dots> = count_list es (b, a)" by (induction es) (auto simp: no_weight_def)
  finally show ?C using og(1) g(1) arr by blast
next
  show "bindr (graph_init n fuel zero (graph_new True True None) (graph_file v e es)) (\<lambda>(r, og). dgraph_reverse_copy fuel zero og) = Inl UninitRead"
    by (rule graph_init_then_unset [OF assms(1,3-6)], erule dgraph_reverse_copy_unset) (use assms(1,2,4) in \<open>auto simp: adj_of_dom\<close>)
qed

theorem dgraph_reverse_copy_reverses_witness:
  "\<exists>og g arr ks. graph_init 3 25 () (graph_new True True (Some 0)) (graph_file 2 1 [(0, 1)]) = Inr (0, og) \<and>
    dgraph_reverse_copy 25 () og = Inr g \<and> graph_adj 25 g 1 = Inr (Some (arr, length ks)) \<and> count_list ks (0 :: int) = 1 \<and>
    bindr (graph_init 3 25 () (graph_new True True None) (graph_file 2 1 [(0, 1)])) (\<lambda>(r, og). dgraph_reverse_copy 25 () og) = Inl UninitRead"
proof -
  have h: "2 < (2147483648 :: nat)" "0 < (2 :: nat)" "1 < (2 :: nat) ^ 64" "rb_fuel 2 \<le> 25" "\<forall>e \<in> set [(0, 1)]. in_int (fst e) \<and> in_int (snd e)"
    "length [(0 :: int, 1 :: int)] < 3" "1 \<in> {0..<int 2}" "0 \<in> {0..<int 2}" by (simp_all add: rb_fuel_def in_int_def)
  from dgraph_reverse_copy_reverses [OF h, of "()"] obtain og g arr ks where
    "graph_init 3 25 () (graph_new True True (Some 0)) (graph_file 2 1 [(0, 1)]) = Inr (0, og)" "dgraph_reverse_copy 25 () og = Inr g"
    "graph_adj 25 g 1 = Inr (Some (arr, length ks))" "count_list ks (0 :: int) = count_list [(0, 1)] (0 :: int, 1 :: int)" by blast
  moreover have "count_list [(0, 1)] (0 :: int, 1 :: int) = 1" by simp
  ultimately show ?thesis using dgraph_reverse_copy_reverses [OF h, of "()"]
    by (intro exI [of _ og] exI [of _ g] exI [of _ arr] exI [of _ ks]) simp
qed

end
