(* ===== verification/Graph_Reverse.thy ===== *)
theory Graph_Reverse
  imports Graph_Search
begin

text \<open>
  The reversal in place, \<open>dgraph_reverse\<close> of \<^verbatim>\<open>src/algs/algorithms4th/graph.cpp\<close>, which its author marks as unfinished.

  The program keeps pointers to the neighbour arrays, sets the counts of all bags to 0 and adds the reversed edges to the same bags. A saved
  pointer is the bag it came from and the capacity of that bag then: \<open>realloc\<close> is called exactly when the capacity grows, and frees
  the old array, so that a read through the pointer afterwards is an access outside any array. When every edge leads to a smaller vertex, an array is only
  written after it has been read, and the result agrees with the reversed copy; a path of two ascending edges loses an edge.
\<close>

section \<open>The program\<close>

type_synonym adj_ref = "bagp \<times> nat"

text \<open>\<open>graph_adj\<close> once more, with the pointer it returns in place of the cells.\<close>

definition graph_adj_ref :: "nat \<Rightarrow> 'w graph \<Rightarrow> int \<Rightarrow> cerr + (adj_ref \<times> nat) option" where
  "graph_adj_ref fuel g v =
     bindr (graph_search fuel g v) (\<lambda>r.
     case r of None \<Rightarrow> Inr None | Some p \<Rightarrow>
     bindr (getb g p) (\<lambda>gb.
     if b_node gb = None then Inr None else
     case b_i gb of None \<Rightarrow> Inl UninitRead | Some i \<Rightarrow> Inr (Some ((p, b_I gb), i))))"

definition read_ref :: "'w graph \<Rightarrow> adj_ref \<Rightarrow> nat \<Rightarrow> cerr + int" where
  "read_ref g r j = bindr (getb g (fst r)) (\<lambda>gb.
     if b_I gb \<noteq> snd r then Inl OutOfBounds
     else bindr (read_cell (b_v gb) j) (\<lambda>x. deref (gnodes g x)))"

text \<open>The first loop fills \<open>adjs\<close> and clears the counts.\<close>

fun save_adjs :: "nat \<Rightarrow> 'w graph \<Rightarrow> bagp list \<Rightarrow> cerr + (adj_ref \<times> nat) option list \<times> 'w graph" where
  "save_adjs fuel g [] = Inr ([], g)"
| "save_adjs fuel g (d # ds) =
     bindr (getb g d) (\<lambda>gb.
     case b_node gb of None \<Rightarrow> bindr (save_adjs fuel g ds) (\<lambda>(adjs, g). Inr (None # adjs, g))
     | Some x \<Rightarrow>
       bindr (deref (gnodes g x)) (\<lambda>key.
       bindr (graph_adj_ref fuel g key) (\<lambda>adj.
       bindr (updb g d (\<lambda>gb. Inr (gb\<lparr>b_i := Some 0\<rparr>))) (\<lambda>g.
       bindr (save_adjs fuel g ds) (\<lambda>(adjs, g). Inr (adj # adjs, g))))))"

text \<open>The inner loop of the second one; the cell is read again for the output, after the edge is added.\<close>

fun turn_adjs :: "nat \<Rightarrow> 'w \<Rightarrow> 'w graph \<Rightarrow> int \<Rightarrow> adj_ref \<Rightarrow> nat \<Rightarrow> nat \<Rightarrow> cerr + string \<times> 'w graph" where
  "turn_adjs fuel zero g key adj j 0 = Inr ([], g)"
| "turn_adjs fuel zero g key adj j (Suc c) =
     bindr (read_ref g adj j) (\<lambda>w.
     bindr (graph_add_edge fuel g w key zero) (\<lambda>(r, g).
     bindr (read_ref g adj j) (\<lambda>w'.
     bindr (turn_adjs fuel zero g key adj (Suc j) c) (\<lambda>(out, g).
     Inr (show_int w' @ ''_'' @ out, g)))))"

fun turn_bags :: "nat \<Rightarrow> 'w \<Rightarrow> 'w graph \<Rightarrow> bagp list \<Rightarrow> (adj_ref \<times> nat) option list \<Rightarrow> cerr + string \<times> 'w graph" where
  "turn_bags fuel zero g (d # ds) (adj # adjs) =
     bindr (getb g d) (\<lambda>gb.
     case b_node gb of None \<Rightarrow> turn_bags fuel zero g ds adjs
     | Some x \<Rightarrow>
       case adj of None \<Rightarrow> turn_bags fuel zero g ds adjs
       | Some (ref, sz) \<Rightarrow>
         if sz = 0 then turn_bags fuel zero g ds adjs else
         bindr (deref (gnodes g x)) (\<lambda>key.
         bindr (turn_adjs fuel zero g key ref 0 sz) (\<lambda>(out, g).
         bindr (turn_bags fuel zero g ds adjs) (\<lambda>(rest, g).
         Inr (out @ ''=>'' @ show_int key @ [CHR 10] @ rest, g)))))"
| "turn_bags fuel zero g ds adjs = Inr ([], g)"

definition dgraph_reverse :: "nat \<Rightarrow> 'w \<Rightarrow> 'w graph \<Rightarrow> cerr + string \<times> 'w graph" where
  "dgraph_reverse fuel zero g =
     (if \<not> direct g then Inr ([], g) else
      bindr (walk_into fuel (gv g) g) (\<lambda>gbs.
      bindr (save_adjs fuel g gbs) (\<lambda>(adjs, g). turn_bags fuel zero g gbs adjs)))"

section \<open>Saving the arrays\<close>

text \<open>The array that a saved pointer leads to still holds the neighbours \<open>ns\<close>, whatever the count of the bag is.\<close>

definition held :: "'w graph \<Rightarrow> adj_ref \<Rightarrow> (int \<times> 'w) list \<Rightarrow> bool" where
  "held g r ns \<longleftrightarrow> (\<exists>b. getb g (fst r) = Inr b \<and> b_I b = snd r \<and> length ns \<le> length (b_v b) \<and>
     (\<forall>j < length ns. \<exists>x. b_v b ! j = Some x \<and> gnodes g x = Some (fst (ns ! j))))"

lemma held_read: "held g r ns \<Longrightarrow> j < length ns \<Longrightarrow> read_ref g r j = Inr (fst (ns ! j))"
  by (force simp: held_def read_ref_def mem_simps)

lemma held_frame: "held g r ns \<Longrightarrow> getb g' (fst r) = getb g (fst r) \<Longrightarrow> gnodes g' = gnodes g \<Longrightarrow> held g' r ns"
  by (simp add: held_def)

lemma good_bag_emptied: "good_bag g b ns \<Longrightarrow> good_bag g (b\<lparr>b_i := Some 0\<rparr>) []"
  by (auto simp: good_bag_def)

definition emptied :: "int set \<Rightarrow> (int \<rightharpoonup> (int \<times> 'w) list) \<Rightarrow> (int \<rightharpoonup> (int \<times> 'w) list)" where
  "emptied K A = (\<lambda>k. if k \<in> K then Some [] else A k)"

lemma emptied_simps: "emptied {} A = A" "emptied K (A(k \<mapsto> [])) = emptied (insert k K) A"
  by (auto simp: emptied_def fun_eq_iff)

text \<open>What the first loop saves of a bag.\<close>

definition saved :: "'w graph \<Rightarrow> (int \<rightharpoonup> (int \<times> 'w) list) \<Rightarrow> bagp \<Rightarrow> (adj_ref \<times> nat) option \<Rightarrow> bool" where
  "saved g A d adj \<longleftrightarrow> (\<exists>k ns I. bkey g d = Some k \<and> A k = Some ns \<and> adj = Some ((d, I), length ns) \<and> held g (d, I) ns)"

lemma saved_frame: "saved g A d adj \<Longrightarrow> getb g' d = getb g d \<Longrightarrow> same_conf g g' \<Longrightarrow> saved g' A d adj"
  using held_frame by (fastforce simp: saved_def same_conf_def)

lemma save_step:
  assumes at: "graph_at fuel m g A ds" and d: "d \<in> set ds" "bkey g d = Some k"
  shows "\<exists>adj b x g'. getb g d = Inr b \<and> b_node b = Some x \<and> gnodes g x = Some k \<and> graph_adj_ref fuel g k = Inr adj \<and>
    updb g d (\<lambda>gb. Inr (gb\<lparr>b_i := Some 0\<rparr>)) = Inr g' \<and> graph_at fuel m g' (A(k \<mapsto> [])) ds \<and> same_conf g g' \<and>
    (\<forall>q. q \<noteq> d \<longrightarrow> getb g' q = getb g q) \<and> saved g' A d adj"
proof -
  from graph_at_bag [OF at d] obtain b x ns where
    b: "getb g d = Inr b" "b_node b = Some x" "gnodes g x = Some k" "A k = Some ns" "good_bag g b ns" by blast
  from graph_search_spec [OF at, of k] b(4) obtain p where p: "graph_search fuel g k = Inr (Some p)" "p \<in> set ds" "bkey g p = Some k"
    using bag_of_key by fastforce
  have "p = d" using bag_tree_unique [of g A ds p d k] at p d by (simp add: graph_at_def)
  then have adj: "graph_adj_ref fuel g k = Inr (Some ((d, b_I b), length ns))"
    using p(1) b by (simp add: graph_adj_ref_def good_bag_def)
  have g0: "good_bag g (b\<lparr>b_i := Some 0\<rparr>) []" using good_bag_emptied [OF b(5)] .
  from updb_spec [where f = "\<lambda>gb. Inr (gb\<lparr>b_i := Some 0\<rparr>)", OF at d(1) b(1) d(2) refl _ g0] obtain g' where
    g': "updb g d (\<lambda>gb. Inr (gb\<lparr>b_i := Some 0\<rparr>)) = Inr g'" "graph_at fuel m g' (A(k \<mapsto> [])) ds" "getb g' d = Inr (b\<lparr>b_i := Some 0\<rparr>)"
    "\<forall>q. q \<noteq> d \<longrightarrow> getb g' q = getb g q" "same_conf g g'" by (auto simp: same_conf_def)
  have "held g' (d, b_I b) ns" using g'(3,5) b(5) by (auto simp: held_def good_bag_def same_conf_def)
  then have "saved g' A d (Some ((d, b_I b), length ns))" using d(2) b(4) g'(5) by (auto simp: saved_def same_conf_def)
  with b(1-3) adj g' show ?thesis by blast
qed

lemma save_adjs_spec:
  assumes "graph_at fuel m g A ds" "set es \<subseteq> set ds" "distinct es"
  shows "\<exists>adjs g'. save_adjs fuel g es = Inr (adjs, g') \<and> graph_at fuel m g' (emptied ((the \<circ> bkey g) ` set es) A) ds \<and> same_conf g g' \<and>
    (\<forall>q. q \<notin> set es \<longrightarrow> getb g' q = getb g q) \<and> list_all2 (saved g' A) es adjs"
  using assms
proof (induction es arbitrary: g A)
  case (Cons d es)
  have "d \<in> set ds" using Cons.prems(2) by simp
  moreover obtain k where k: "bkey g d = Some k" using Cons.prems(1) \<open>d \<in> set ds\<close> bag_tree_valid by (fastforce simp: graph_at_def)
  ultimately obtain adj b x g1 where s: "getb g d = Inr b" "b_node b = Some x" "gnodes g x = Some k" "graph_adj_ref fuel g k = Inr adj"
    "updb g d (\<lambda>gb. Inr (gb\<lparr>b_i := Some 0\<rparr>)) = Inr g1" "graph_at fuel m g1 (A(k \<mapsto> [])) ds" "same_conf g g1"
    "\<forall>q. q \<noteq> d \<longrightarrow> getb g1 q = getb g q" "saved g1 A d adj" using save_step [OF Cons.prems(1)] by blast
  have es: "set es \<subseteq> set ds" "distinct es" "d \<notin> set es" using Cons.prems by simp_all
  from Cons.IH [OF s(6) es(1,2)] obtain adjs g2 where r: "save_adjs fuel g1 es = Inr (adjs, g2)"
    "graph_at fuel m g2 (emptied ((the \<circ> bkey g1) ` set es) (A(k \<mapsto> []))) ds" "same_conf g1 g2"
    "\<forall>q. q \<notin> set es \<longrightarrow> getb g2 q = getb g1 q" "list_all2 (saved g2 (A(k \<mapsto> []))) es adjs" by blast
  have c: "bkey g1 = bkey g" "bkey g2 = bkey g" using s(7) r(3) by (simp_all add: same_conf_def)
  have neq: "bkey g e \<noteq> Some k" if "e \<in> set es" for e
    using bag_tree_unique [of g A ds d e k] that Cons.prems k by (auto simp: graph_at_def)
  have "saved g2 A e a" if "e \<in> set es" "saved g2 (A(k \<mapsto> [])) e a" for e a
    using that neq [OF that(1)] c by (auto simp: saved_def split: if_splits)
  then have "list_all2 (saved g2 A) es adjs" using r(5) by (auto simp: list_all2_conv_all_nth)
  moreover have "saved g2 A d adj" using saved_frame [OF s(9) _ r(3)] r(4) es(3) by simp
  moreover have "save_adjs fuel g (d # es) = Inr (adj # adjs, g2)" using s(1-5) r(1) by simp
  moreover have "graph_at fuel m g2 (emptied ((the \<circ> bkey g) ` set (d # es)) A) ds" using r(2) k c(1) by (simp add: emptied_simps)
  moreover have "\<forall>q. q \<notin> set (d # es) \<longrightarrow> getb g2 q = getb g q" using r(4) s(8) by simp
  ultimately show ?case using same_conf_trans [OF s(7) r(3)] by (intro exI [of _ "adj # adjs"] exI [of _ g2]) simp
qed (simp add: emptied_simps same_conf_def)

section \<open>Adding the reversed edges\<close>

text \<open>The text that the program prints for a vertex.\<close>

definition turned_text :: "int \<Rightarrow> (int \<times> 'w) list \<Rightarrow> string" where
  "turned_text k ns = (if ns = [] then [] else concat (map (\<lambda>n. show_int (fst n) @ ''_'') ns) @ ''=>'' @ show_int k @ [CHR 10])"

lemma turn_step:
  assumes at: "graph_at fuel m g (adj_of True D es) ds" and d: "direct g" and k: "k \<in> D" "w \<in> D"
  shows "\<exists>g'. graph_add_edge fuel g w k zero = Inr (0, g') \<and> graph_at fuel m g' (adj_of True D (es @ [(w, k, zero)])) ds \<and> same_conf g g' \<and>
    (\<forall>q. bkey g q \<noteq> Some w \<longrightarrow> getb g' q = getb g q) \<and>
    (\<forall>q b i. q \<in> set ds \<longrightarrow> bkey g q = Some w \<longrightarrow> getb g q = Inr b \<longrightarrow> b_i b = Some i \<longrightarrow> Suc i < b_I b \<longrightarrow> (\<exists>b'. getb g' q = Inr b' \<and> b_I b' = b_I b))"
proof -
  let ?A = "adj_of True D es"
  have dom: "k \<in> dom ?A" "w \<in> dom ?A" using k by (auto simp: adj_of_def)
  from graph_search_spec [OF at, of k] graph_search_spec [OF at, of w] dom obtain pk pw where
    p: "graph_search fuel g w = Inr (Some pw)" "pw \<in> set ds" "bkey g pw = Some w" "graph_search fuel g k = Inr (Some pk)" "pk \<in> set ds" "bkey g pk = Some k"
    using bag_of_key by fastforce
  have "append_adj ?A w k zero = adj_of True D (es @ [(w, k, zero)])"
    using adj_of_step [of True D es w k zero] dom by (simp add: add_edge_spec_def)
  moreover have "q = pw" if "q \<in> set ds" "bkey g q = Some w" for q
    using bag_tree_unique [of g ?A ds q pw w] at p that by (simp add: graph_at_def)
  ultimately show ?thesis using graph_add_edge_direct [OF at p d, of zero] p(3) by fastforce
qed

lemma turn_adjs_spec:
  assumes "graph_at fuel m g (adj_of True D es) ds" "direct g" "held g r ns" "bkey g (fst r) = Some k" "k \<in> D"
    "\<forall>n \<in> set ns. fst n \<in> D \<and> fst n < k" "j + c = length ns"
  shows "\<exists>g'. turn_adjs fuel zero g k r j c = Inr (concat (map (\<lambda>n. show_int (fst n) @ ''_'') (drop j ns)), g') \<and>
    graph_at fuel m g' (adj_of True D (es @ reversed zero k (drop j ns))) ds \<and> same_conf g g' \<and>
    (\<forall>q l. bkey g q = Some l \<longrightarrow> k \<le> l \<longrightarrow> getb g' q = getb g q)"
  using assms
proof (induction c arbitrary: g es j)
  case 0
  then show ?case by (simp add: reversed_def same_conf_def)
next
  case (Suc c)
  let ?w = "fst (ns ! j)"
  have j: "j < length ns" "drop j ns = ns ! j # drop (Suc j) ns" using Suc.prems(7) by (simp_all add: Cons_nth_drop_Suc)
  then have w: "?w \<in> D" "?w < k" using Suc.prems(6) by auto
  from turn_step [OF Suc.prems(1,2,5) w(1), of zero] obtain g1 where g1: "graph_add_edge fuel g ?w k zero = Inr (0, g1)"
    "graph_at fuel m g1 (adj_of True D (es @ [(?w, k, zero)])) ds" "same_conf g g1" "\<forall>q. bkey g q \<noteq> Some ?w \<longrightarrow> getb g1 q = getb g q" by blast
  have h1: "held g1 r ns" using held_frame [OF Suc.prems(3)] g1(3,4) Suc.prems(4) w(2) by (simp add: same_conf_def)
  have c1: "direct g1" "bkey g1 (fst r) = Some k" "bkey g1 = bkey g" using g1(3) Suc.prems(2,4) by (simp_all add: same_conf_def)
  have "Suc j + c = length ns" using Suc.prems(7) by simp
  from Suc.IH [OF g1(2) c1(1) h1 c1(2) Suc.prems(5,6) this] obtain g2 where
    g2: "turn_adjs fuel zero g1 k r (Suc j) c = Inr (concat (map (\<lambda>n. show_int (fst n) @ ''_'') (drop (Suc j) ns)), g2)"
    "graph_at fuel m g2 (adj_of True D ((es @ [(?w, k, zero)]) @ reversed zero k (drop (Suc j) ns))) ds" "same_conf g1 g2"
    "\<forall>q l. bkey g1 q = Some l \<longrightarrow> k \<le> l \<longrightarrow> getb g2 q = getb g1 q" by blast
  have "turn_adjs fuel zero g k r j (Suc c) = Inr (concat (map (\<lambda>n. show_int (fst n) @ ''_'') (drop j ns)), g2)"
    using held_read [OF Suc.prems(3) j(1)] held_read [OF h1 j(1)] g1(1) g2(1) j(2) by simp
  moreover have "graph_at fuel m g2 (adj_of True D (es @ reversed zero k (drop j ns))) ds" using g2(2) j(2) by (simp add: reversed_def)
  moreover have "\<forall>q l. bkey g q = Some l \<longrightarrow> k \<le> l \<longrightarrow> getb g2 q = getb g q" using g2(4) g1(4) w(2) c1(3) by auto
  ultimately show ?case using same_conf_trans [OF g1(3) g2(3)] by blast
qed

text \<open>The edges of \<open>A\<close> lead to smaller vertices.\<close>

definition descending :: "int set \<Rightarrow> (int \<rightharpoonup> (int \<times> 'w) list) \<Rightarrow> bool" where
  "descending D A \<longleftrightarrow> dom A = D \<and> (\<forall>k ns. A k = Some ns \<longrightarrow> (\<forall>n \<in> set ns. fst n \<in> D \<and> fst n < k))"

lemma turn_bags_spec:
  assumes "graph_at fuel m g (adj_of True D es) ds" "direct g" "list_all2 (saved g A) ds' adjs" "descending D A" "set ds' \<subseteq> set ds"
    "sorted_wrt (<) (map (the \<circ> bkey g) ds')"
  shows "\<exists>g'. turn_bags fuel zero g ds' adjs = Inr (concat (map (\<lambda>k. turned_text k (the (A k))) (map (the \<circ> bkey g) ds')), g') \<and>
    graph_at fuel m g' (adj_of True D (es @ concat (map (\<lambda>k. reversed zero k (the (A k))) (map (the \<circ> bkey g) ds')))) ds"
  using assms
proof (induction ds' arbitrary: g es adjs)
  case Nil
  then show ?case by auto
next
  case (Cons d ds')
  from Cons.prems(3) obtain adj adjs' where a: "adjs = adj # adjs'" "saved g A d adj" "list_all2 (saved g A) ds' adjs'" by (auto simp: list_all2_Cons1)
  from a(2) obtain k ns I where s: "bkey g d = Some k" "A k = Some ns" "adj = Some ((d, I), length ns)" "held g (d, I) ns" by (auto simp: saved_def)
  have d: "d \<in> set ds" using Cons.prems(5) by simp
  from graph_at_bag [OF Cons.prems(1) d s(1)] obtain b x where b: "getb g d = Inr b" "b_node b = Some x" "gnodes g x = Some k" by blast
  have D: "k \<in> D" "\<forall>n \<in> set ns. fst n \<in> D \<and> fst n < k" using Cons.prems(4) s(2) by (auto simp: descending_def)
  have "bkey g (fst (d, I)) = Some k" "0 + length ns = length ns" using s(1) by simp_all
  from turn_adjs_spec [OF Cons.prems(1,2) s(4) this(1) D this(2), of zero] obtain g1 where
    g1: "turn_adjs fuel zero g k (d, I) 0 (length ns) = Inr (concat (map (\<lambda>n. show_int (fst n) @ ''_'') ns), g1)"
    "graph_at fuel m g1 (adj_of True D (es @ reversed zero k ns)) ds" "same_conf g g1"
    "\<forall>q l. bkey g q = Some l \<longrightarrow> k \<le> l \<longrightarrow> getb g1 q = getb g q" by auto
  have c1: "direct g1" "bkey g1 = bkey g" using g1(3) Cons.prems(2) by (simp_all add: same_conf_def)
  have "saved g1 A e a" if el: "e \<in> set ds'" and sv: "saved g A e a" for e a
  proof -
    obtain l where "bkey g e = Some l" using sv by (auto simp: saved_def)
    moreover from this have "k \<le> l" using Cons.prems(6) s(1) el by force
    ultimately show ?thesis using saved_frame [OF sv _ g1(3)] g1(4) by simp
  qed
  then have "list_all2 (saved g1 A) ds' adjs'" using a(3) by (auto simp: list_all2_conv_all_nth)
  moreover have "set ds' \<subseteq> set ds" "sorted_wrt (<) (map (the \<circ> bkey g1) ds')" using Cons.prems(5,6) c1(2) by (simp_all add: comp_def)
  ultimately obtain g2 where g2: "turn_bags fuel zero g1 ds' adjs' = Inr (concat (map (\<lambda>k. turned_text k (the (A k))) (map (the \<circ> bkey g) ds')), g2)"
    "graph_at fuel m g2 (adj_of True D ((es @ reversed zero k ns) @ concat (map (\<lambda>k. reversed zero k (the (A k))) (map (the \<circ> bkey g) ds')))) ds"
    using Cons.IH [OF g1(2) c1(1) _ Cons.prems(4)] c1(2) by fastforce
  have "turn_bags fuel zero g (d # ds') adjs = Inr (concat (map (\<lambda>k. turned_text k (the (A k))) (map (the \<circ> bkey g) (d # ds'))), g2)"
  proof (cases "ns = []")
    case True
    then have "g1 = g" using g1(1) by simp
    then show ?thesis using True a(1) s b g2(1) by (simp add: turned_text_def)
  next
    case False
    then show ?thesis using a(1) s b g1(1) g2(1) by (simp add: turned_text_def)
  qed
  then show ?case using g2(2) s(1,2) by (simp add: comp_def)
qed

lemma emptied_all: "dom A = D \<Longrightarrow> emptied D A = adj_of True D []"
  by (auto simp: emptied_def adj_of_def fun_eq_iff nbrs_Nil)

lemma dgraph_reverse_rep:
  assumes rep: "graph_rep fuel 0 g A" and d: "direct g" and A: "descending D A" and v: "card D \<le> gv g" "finite D"
  shows "\<exists>g'. dgraph_reverse fuel zero g = Inr (concat (map (\<lambda>k. turned_text k (the (A k))) (sorted_list_of_set D)), g') \<and>
    graph_rep fuel 0 g' (adj_of True D (reversed_edges zero A))"
proof -
  obtain ds t where at: "graph_at fuel 0 g A ds" and bt: "bag_tree g A ds" and t: "tree_inv (gtr g) t" "rb_fuel (length (addrs t)) \<le> fuel" "inorder t = ds"
    using rep by (auto simp: graph_rep_def graph_at_def)
  have dom: "dom A = D" using A by (simp add: descending_def)
  note keys = bag_tree_keys [OF bt, unfolded dom]
  have "length ds = card D" using arg_cong [OF keys, of length] by simp
  moreover have "length (addrs t) < fuel" using t(2) rb_fuel_gt [of "length (addrs t)"] by linarith
  ultimately have walk: "walk_into fuel (gv g) g = Inr ds" using rbtree_inorder_walk_sim [OF t(1)] t(3) v(1) by (simp add: walk_into_def)
  have "distinct (map (the \<circ> bkey g) ds)" unfolding keys by simp
  then have "distinct ds" by (simp add: distinct_map)
  from save_adjs_spec [OF at subset_refl this] obtain adjs g1 where
    s: "save_adjs fuel g ds = Inr (adjs, g1)" "graph_at fuel 0 g1 (emptied ((the \<circ> bkey g) ` set ds) A) ds" "same_conf g g1" "list_all2 (saved g1 A) ds adjs" by blast
  have "(the \<circ> bkey g) ` set ds = D" using arg_cong [OF keys, of set] v(2) by simp
  then have g1: "graph_at fuel 0 g1 (adj_of True D []) ds" using s(2) emptied_all [OF dom] by simp
  have c: "direct g1" "bkey g1 = bkey g" using s(3) d by (simp_all add: same_conf_def)
  have "sorted_wrt (<) (map (the \<circ> bkey g1) ds)" unfolding c keys by simp
  from turn_bags_spec [OF g1 c(1) s(4) A subset_refl this, of zero] obtain g2 where
    "turn_bags fuel zero g1 ds adjs = Inr (concat (map (\<lambda>k. turned_text k (the (A k))) (sorted_list_of_set D)), g2)"
    "graph_at fuel 0 g2 (adj_of True D (reversed_edges zero A)) ds" unfolding c(2) keys by (auto simp: reversed_edges_def dom)
  then show ?thesis using d walk s(1) by (auto simp: dgraph_reverse_def graph_rep_def)
qed

lemma descending_file:
  assumes "\<forall>e \<in> set es. snd e < fst e"
  shows "descending D (adj_of True D (no_weight zero es))"
  using assms by (force simp: descending_def adj_of_def nbrs_def no_weight_def split: if_splits)

lemma dgraph_reverse_unset:
  assumes rep: "graph_rep fuel 0 g A" and "direct g" "card (dom A) \<le> gv g" "dom A \<noteq> {}"
  shows "dgraph_reverse fuel zero (unset g) = Inl UninitRead"
proof -
  from graph_first_bag [OF rep assms(3,4)] obtain d ds k b x where
    first: "walk_into fuel (gv g) g = Inr (d # ds)" "k \<in> dom A" "getb g d = Inr b" "b_node b = Some x" "gnodes g x = Some k" by blast
  obtain ds' where "graph_at fuel 0 g A ds'" using rep by (auto simp: graph_rep_def)
  from graph_search_spec [OF this, of k] first(2) have "graph_adj_ref fuel (unset g) k = Inl UninitRead"
    by (auto simp: graph_adj_ref_def domIff bag_of_def unset_bag getb_def split: option.splits)
  then have "save_adjs fuel (unset g) (d # ds) = Inl UninitRead" using first(3-5) by (simp add: getb_unset)
  then show ?thesis using first(1) assms(2) by (simp add: dgraph_reverse_def)
qed

text \<open>C18: the file of a directed graph with at least one and fewer than \<open>2 ^ 31\<close> vertices, in which every edge leads to a smaller vertex. With a client whose callback
  \<open>graph_bag_new\<close> sets the count of a new bag to 0, reversing the graph in place gives the same neighbours in the same order as
  the reversed copy does, for every vertex. With the callback of \<^verbatim>\<open>test_graph.cpp\<close>, which does not set the count, reading a file
  and reversing it always uses the unset value.\<close>

theorem dgraph_reverse_agrees:
  assumes "v < 2147483648" "0 < v" "e < 2 ^ 64" "rb_fuel v \<le> fuel" "\<forall>e \<in> set es. in_int (fst e) \<and> in_int (snd e)" "length es < n"
    "a \<in> {0..<int v}" "\<forall>e \<in> set es. snd e < fst e"
  shows "(\<exists>og out g g' arr arr' ks. graph_init n fuel zero (graph_new True True (Some 0)) (graph_file v e es) = Inr (0, og) \<and>
    dgraph_reverse fuel zero og = Inr (out, g) \<and> dgraph_reverse_copy fuel zero og = Inr g' \<and>
    graph_adj fuel g a = Inr (Some (arr, length ks)) \<and> graph_adj fuel g' a = Inr (Some (arr', length ks)) \<and>
    (\<forall>j < length ks. \<exists>x y. arr ! j = Some x \<and> gnodes g x = Some (ks ! j) \<and> arr' ! j = Some y \<and> gnodes g' y = Some (ks ! j))) \<and>
    bindr (graph_init n fuel zero (graph_new True True None) (graph_file v e es)) (\<lambda>(r, og). dgraph_reverse fuel zero og) = Inl UninitRead"
    (is "?C \<and> _ = _")
proof (rule conjI)
  let ?D = "{0..<int v}"
  let ?A = "adj_of True ?D (no_weight zero es)"
  let ?ns = "nbrs True ?D (reversed_edges zero ?A) a"
  from graph_init_rep [OF assms(1,3-6), of zero True] obtain og where
    og: "graph_init n fuel zero (graph_new True True (Some 0)) (graph_file v e es) = Inr (0, og)" "gv og = v" "direct og" "graph_rep fuel 0 og ?A" by blast
  have dom: "dom ?A = ?D" by (auto simp: adj_of_def split: if_splits)
  from dgraph_reverse_copy_rep [OF og(4,3,2) assms(2,1) dom assms(4), of zero] obtain g' where
    g': "dgraph_reverse_copy fuel zero og = Inr g'" "graph_rep fuel 0 g' (adj_of True ?D (reversed_edges zero ?A))" by blast
  have "card ?D \<le> gv og" "finite ?D" using og(2) by simp_all
  from dgraph_reverse_rep [OF og(4,3) descending_file [OF assms(8)] this, of zero] obtain out g where
    g: "dgraph_reverse fuel zero og = Inr (out, g)" "graph_rep fuel 0 g (adj_of True ?D (reversed_edges zero ?A))" by blast
  have A: "adj_of True ?D (reversed_edges zero ?A) a = Some ?ns" using assms(7) by (simp add: adj_of_def)
  from graph_adj_spec [OF g(2), of a] A obtain arr where
    arr: "graph_adj fuel g a = Inr (Some (arr, length (map fst ?ns)))" "\<forall>j < length ?ns. \<exists>x. arr ! j = Some x \<and> gnodes g x = Some (map fst ?ns ! j)" by auto
  from graph_adj_spec [OF g'(2), of a] A obtain arr' where
    arr': "graph_adj fuel g' a = Inr (Some (arr', length (map fst ?ns)))" "\<forall>j < length ?ns. \<exists>y. arr' ! j = Some y \<and> gnodes g' y = Some (map fst ?ns ! j)" by auto
  have "\<forall>j < length (map fst ?ns). \<exists>x y. arr ! j = Some x \<and> gnodes g x = Some (map fst ?ns ! j) \<and> arr' ! j = Some y \<and> gnodes g' y = Some (map fst ?ns ! j)"
    using arr(2) arr'(2) by simp
  with og(1) g(1) g'(1) arr(1) arr'(1) show ?C by blast
next
  show "bindr (graph_init n fuel zero (graph_new True True None) (graph_file v e es)) (\<lambda>(r, og). dgraph_reverse fuel zero og) = Inl UninitRead"
    by (rule graph_init_then_unset [OF assms(1,3-6)], erule dgraph_reverse_unset) (use assms(2) in \<open>auto simp: adj_of_dom\<close>)
qed

theorem dgraph_reverse_agrees_witness:
  "\<exists>og out g g' arr arr' ks. graph_init 3 25 () (graph_new True True (Some 0)) (graph_file 2 1 [(1, 0)]) = Inr (0, og) \<and>
    dgraph_reverse 25 () og = Inr (out, g) \<and> dgraph_reverse_copy 25 () og = Inr g' \<and>
    graph_adj 25 g 0 = Inr (Some (arr, length (ks :: int list))) \<and> graph_adj 25 g' 0 = Inr (Some (arr', length ks)) \<and>
    bindr (graph_init 3 25 () (graph_new True True None) (graph_file 2 1 [(1, 0)])) (\<lambda>(r, og). dgraph_reverse 25 () og) = Inl UninitRead"
proof -
  have h: "2 < (2147483648 :: nat)" "0 < (2 :: nat)" "1 < (2 :: nat) ^ 64" "rb_fuel 2 \<le> 25" "\<forall>e \<in> set [(1, 0)]. in_int (fst e) \<and> in_int (snd e)"
    "length [(1 :: int, 0 :: int)] < 3" "0 \<in> {0..<int 2}" "\<forall>e \<in> set [(1, 0)]. snd e < (fst e :: int)" by (simp_all add: rb_fuel_def in_int_def)
  from dgraph_reverse_agrees [OF h, of "()"] show ?thesis by blast
qed

section \<open>Ascending edges\<close>

text \<open>An edge that is added to an empty bag is what a pointer to its array reads from then on.\<close>

lemma turn_step_held:
  assumes at: "graph_at fuel m g (adj_of True D es) ds" and d: "direct g" and k: "k \<in> D" "w \<in> D" and q: "q \<in> set ds" "bkey g q = Some w"
    and ns: "held g (q, I) ns" "nbrs True D es w = []"
  shows "\<exists>g'. graph_add_edge fuel g w k zero = Inr (0, g') \<and> graph_at fuel m g' (adj_of True D (es @ [(w, k, zero)])) ds \<and> same_conf g g' \<and>
    (\<forall>q. bkey g q \<noteq> Some w \<longrightarrow> getb g' q = getb g q) \<and> held g' (q, I) [(k, zero)]"
proof -
  from turn_step [OF at d k, of zero] obtain g' where g': "graph_add_edge fuel g w k zero = Inr (0, g')"
    "graph_at fuel m g' (adj_of True D (es @ [(w, k, zero)])) ds" "same_conf g g'" "\<forall>q. bkey g q \<noteq> Some w \<longrightarrow> getb g' q = getb g q"
    "\<forall>q b i. q \<in> set ds \<longrightarrow> bkey g q = Some w \<longrightarrow> getb g q = Inr b \<longrightarrow> b_i b = Some i \<longrightarrow> Suc i < b_I b \<longrightarrow> (\<exists>b'. getb g' q = Inr b' \<and> b_I b' = b_I b)" by blast
  from graph_at_bag [OF at q] ns k obtain b where b: "getb g q = Inr b" "b_i b = Some 0" "b_I b = I" "8 \<le> I"
    by (auto simp: adj_of_def good_bag_def held_def)
  have "bkey g' q = Some w" using q(2) g'(3) by (simp add: same_conf_def)
  from graph_at_bag [OF g'(2) q(1) this] obtain b' ns' where b': "getb g' q = Inr b'" "adj_of True D (es @ [(w, k, zero)]) w = Some ns'" "good_bag g' b' ns'" by blast
  have "ns' = [(k, zero)]" using b'(2) ns(2) k by (simp add: adj_of_def nbrs_append nbrs_Cons nbrs_Nil)
  moreover have "b_I b' = I" using g'(5) q b b'(1) by fastforce
  ultimately have "held g' (q, I) [(k, zero)]" using b'(1,3) by (auto simp: held_def good_bag_def)
  with g'(1-4) show ?thesis by blast
qed

lemma path_keys: "sorted_list_of_set {0..<3 :: int} = [0, 1, 2]"
proof -
  have "{0..<3 :: int} = set [0, 1, 2]" by auto
  then show ?thesis by (simp only: sorted_list_of_set_sort_remdups) simp
qed

lemma show_path: "show_int 0 = ''0''" "show_int 1 = ''1''"
  by code_simp+

lemma map_key_Cons: "map f ds = k # ks \<longleftrightarrow> (\<exists>d ds'. ds = d # ds' \<and> f d = k \<and> map f ds' = ks)"
  by (cases ds) auto

text \<open>The two rounds on a path of two edges, from any state in which the arrays are saved.\<close>

lemma turn_path:
  assumes at: "graph_at fuel m g (adj_of True {0..<3} []) [d0, d1, d2]" and d: "direct g"
    and keys: "bkey g d0 = Some 0" "bkey g d1 = Some 1" "bkey g d2 = Some 2"
    and held: "held g (d0, I0) [(1, z0)]" "held g (d1, I1) [(2, z1)]"
  shows "\<exists>g'. turn_bags fuel zero g [d0, d1, d2] [Some ((d0, I0), 1), Some ((d1, I1), 1), Some ((d2, I2), 0)] =
      Inr (''1_=>0'' @ [CHR 10] @ ''0_=>1'' @ [CHR 10], g') \<and>
    graph_at fuel m g' (adj_of True {0..<3} [(1, 0, zero), (0, 1, zero)]) [d0, d1, d2]"
proof -
  from turn_step_held [OF at d _ _ _ keys(2) held(2), of 0 zero] obtain g1 where g1: "graph_add_edge fuel g 1 0 zero = Inr (0, g1)"
    "graph_at fuel m g1 (adj_of True {0..<3} [(1, 0, zero)]) [d0, d1, d2]" "same_conf g g1"
    "\<forall>q. bkey g q \<noteq> Some 1 \<longrightarrow> getb g1 q = getb g q" "held g1 (d1, I1) [(0, zero)]" by (auto simp: nbrs_Nil)
  have c1: "direct g1" "bkey g1 = bkey g" "gnodes g1 = gnodes g" using g1(3) d by (simp_all add: same_conf_def)
  have h0: "held g1 (d0, I0) [(1, z0)]" using held_frame [OF held(1)] g1(4) keys(1) c1(3) by simp
  from turn_step [OF g1(2) c1(1), of 1 0 zero] obtain g2 where g2: "graph_add_edge fuel g1 0 1 zero = Inr (0, g2)"
    "graph_at fuel m g2 (adj_of True {0..<3} [(1, 0, zero), (0, 1, zero)]) [d0, d1, d2]" "same_conf g1 g2"
    "\<forall>q. bkey g1 q \<noteq> Some 0 \<longrightarrow> getb g2 q = getb g1 q" by auto
  have c2: "bkey g2 = bkey g" "gnodes g2 = gnodes g1" using g2(3) c1(2) by (simp_all add: same_conf_def)
  have h1: "held g2 (d1, I1) [(0, zero)]" using held_frame [OF g1(5)] g2(4) keys(2) c1(2) c2(2) by simp
  note reads = held_read [OF held(1), of 0] held_read [OF h0, of 0] held_read [OF g1(5), of 0] held_read [OF h1, of 0]
  from graph_at_bag [OF at _ keys(1)] graph_at_bag [OF g1(2), of d1 1] graph_at_bag [OF g2(2), of d2 2] keys c1(2) c2(1) obtain b0 b1 b2 x0 x1 x2 where
    b: "getb g d0 = Inr b0" "b_node b0 = Some x0" "gnodes g x0 = Some 0" "getb g1 d1 = Inr b1" "b_node b1 = Some x1" "gnodes g1 x1 = Some 1"
      "getb g2 d2 = Inr b2" "b_node b2 = Some x2" by auto
  have "turn_adjs fuel zero g 0 (d0, I0) 0 1 = Inr (''1_'', g1)" "turn_adjs fuel zero g1 1 (d1, I1) 0 1 = Inr (''0_'', g2)"
    using reads g1(1) g2(1) by (simp_all add: show_path)
  then have "turn_bags fuel zero g [d0, d1, d2] [Some ((d0, I0), 1), Some ((d1, I1), 1), Some ((d2, I2), 0)] =
      Inr (''1_=>0'' @ [CHR 10] @ ''0_=>1'' @ [CHR 10], g2)"
    using b by (simp add: show_path)
  then show ?thesis using g2(2) by blast
qed

text \<open>With a client that sets the counts, on the path from 0 through 1 to 2 the reversal overwrites the edge of 1 before it reads it: 2 is left without edges, and 0
  has an edge to 1 that no edge of the file accounts for.\<close>

theorem dgraph_reverse_loses:
  assumes "rb_fuel 3 \<le> fuel"
  shows "\<exists>og out g arr arr'. graph_init 3 fuel zero (graph_new True True (Some 0)) (graph_file 3 2 [(0, 1), (1, 2)]) = Inr (0, og) \<and>
    dgraph_reverse fuel zero og = Inr (out, g) \<and> out = ''1_=>0'' @ [CHR 10] @ ''0_=>1'' @ [CHR 10] \<and>
    graph_adj fuel g 2 = Inr (Some (arr, 0)) \<and> graph_adj fuel g 0 = Inr (Some (arr', 1))"
proof -
  let ?D = "{0..<3 :: int}"
  let ?A = "adj_of True ?D (no_weight zero [(0, 1), (1, 2)])"
  have "3 < (2147483648 :: nat)" "2 < (2 :: nat) ^ 64" "\<forall>e \<in> set [(0, 1), (1, 2)]. in_int (fst e) \<and> in_int (snd e)" "length [(0 :: int, 1 :: int), (1, 2)] < 3"
    by (simp_all add: in_int_def)
  from graph_init_rep [OF this(1,2) assms this(3,4), of zero True] obtain og where
    og: "graph_init 3 fuel zero (graph_new True True (Some 0)) (graph_file 3 2 [(0, 1), (1, 2)]) = Inr (0, og)" "gv og = 3" "direct og" "graph_rep fuel 0 og ?A" by auto
  obtain ds t where at: "graph_at fuel 0 og ?A ds" and bt: "bag_tree og ?A ds" and t: "tree_inv (gtr og) t" "rb_fuel (length (addrs t)) \<le> fuel" "inorder t = ds"
    using og(4) by (auto simp: graph_rep_def graph_at_def)
  have dom: "dom ?A = ?D" by (auto simp: adj_of_def split: if_splits)
  have keys: "map (the \<circ> bkey og) ds = [0, 1, 2]" using bag_tree_keys [OF bt] by (simp only: dom path_keys)
  then obtain d0 d1 d2 where ds: "ds = [d0, d1, d2]" by (auto simp: map_key_Cons)
  have "\<forall>d \<in> set ds. bkey og d \<noteq> None" using bag_tree_valid [OF bt] .
  then have k: "bkey og d0 = Some 0" "bkey og d1 = Some 1" "bkey og d2 = Some 2" using keys ds by auto
  have "length (addrs t) < fuel" using t(2) rb_fuel_gt [of "length (addrs t)"] by linarith
  then have walk: "walk_into fuel 3 og = Inr ds" using rbtree_inorder_walk_sim [OF t(1)] t(3) ds by (simp add: walk_into_def)
  have "distinct ds" using k ds by auto
  from save_adjs_spec [OF at subset_refl this] obtain adjs g1 where
    s: "save_adjs fuel og ds = Inr (adjs, g1)" "graph_at fuel 0 g1 (emptied ((the \<circ> bkey og) ` set ds) ?A) ds" "same_conf og g1" "list_all2 (saved g1 ?A) ds adjs" by blast
  have "(the \<circ> bkey og) ` set ds = ?D" using ds k by auto
  then have g1: "graph_at fuel 0 g1 (adj_of True ?D []) [d0, d1, d2]" using s(2) emptied_all [OF dom] ds by simp
  have c: "direct g1" "bkey g1 = bkey og" using s(3) og(3) by (simp_all add: same_conf_def)
  have A: "?A 0 = Some [(1, zero)]" "?A 1 = Some [(2, zero)]" "?A 2 = Some []"
    by (simp_all add: adj_of_def no_weight_def nbrs_Cons nbrs_Nil)
  obtain I0 I1 I2 where sv: "adjs = [Some ((d0, I0), 1), Some ((d1, I1), 1), Some ((d2, I2), 0)]" "held g1 (d0, I0) [(1, zero)]" "held g1 (d1, I1) [(2, zero)]"
    using s(4) ds k c(2) A by (auto simp: list_all2_Cons1 saved_def)
  from turn_path [OF g1 c(1) _ _ _ sv(2,3), of zero I2] k c(2) obtain g where
    g: "turn_bags fuel zero g1 ds adjs = Inr (''1_=>0'' @ [CHR 10] @ ''0_=>1'' @ [CHR 10], g)"
    "graph_at fuel 0 g (adj_of True ?D [(1, 0, zero), (0, 1, zero)]) ds" using ds sv(1) by auto
  then have "graph_rep fuel 0 g (adj_of True ?D [(1, 0, zero), (0, 1, zero)])" by (auto simp: graph_rep_def)
  from graph_adj_spec [OF this, of 2] graph_adj_spec [OF this, of 0] obtain arr arr' where
    "graph_adj fuel g 2 = Inr (Some (arr, 0))" "graph_adj fuel g 0 = Inr (Some (arr', 1))"
    by (auto simp: adj_of_def nbrs_Cons nbrs_Nil)
  moreover have "dgraph_reverse fuel zero og = Inr (''1_=>0'' @ [CHR 10] @ ''0_=>1'' @ [CHR 10], g)"
    using og(2,3) walk s(1) g(1) by (simp add: dgraph_reverse_def)
  ultimately show ?thesis using og(1) by blast
qed

end
