(* ===== verification/Jz_Offer.thy ===== *)
theory Jz_Offer
  imports Pools C_Text
begin

text \<open>
  Exercises of \<^verbatim>\<open>src/algs/jzoffer\<close>: rebuilding a binary tree from its pre-order and in-order sequences, searching an array
  sorted in rows and columns, and printing a list backwards.

  Pointers into the arrays are offsets, and every access is checked. Sizes are \<open>size_t\<close>: the search lets a column index run below zero and the
  reconstruction takes differences, so both are computed modulo the word. The memory of the list is a function from node numbers; the
  loops over it take fuel, since the list could be cyclic.
\<close>

section \<open>Rebuilding a tree\<close>

text \<open>A node carries its address: the block it is in, and its place.\<close>

datatype btr_node = Btr "nat \<times> nat" int "btr_node option" "btr_node option"

record btr_pool =
  bt_nodes :: "nat option"   \<comment> \<open>\<open>gnodes\<close>\<close>
  bt_i :: nat                \<comment> \<open>\<open>ginodes\<close>\<close>
  bt_blocks :: nat           \<comment> \<open>blocks allocated so far\<close>

definition btr_N :: nat where
  "btr_N = 1024 * 1024 div 24"

function btrnode_get :: "bool \<Rightarrow> btr_pool \<Rightarrow> cerr + (nat \<times> nat) \<times> btr_pool" where
  "btrnode_get ok s =
     (case bt_nodes s of
        None \<Rightarrow> if \<not> ok then Inl Exited else
          let s = s\<lparr>bt_nodes := Some (bt_blocks s), bt_blocks := Suc (bt_blocks s)\<rparr> in
          if bt_i s = btr_N - 1 then btrnode_get ok (s\<lparr>bt_nodes := None, bt_i := 0\<rparr>)
          else Inr ((bt_blocks s - 1, bt_i s), s\<lparr>bt_i := Suc (bt_i s)\<rparr>)
      | Some b \<Rightarrow>
          if bt_i s = btr_N - 1 then btrnode_get ok (s\<lparr>bt_nodes := None, bt_i := 0\<rparr>)
          else Inr ((b, bt_i s), s\<lparr>bt_i := Suc (bt_i s)\<rparr>))"
  by pat_completeness auto
termination
  by (relation "measure (\<lambda>(ok, s). bt_i s)") (auto simp: btr_N_def)

declare btrnode_get.simps [simp del]

text \<open>\<open>std::find\<close> in the cells \<open>ii\<close> to \<open>ii + len\<close>: the distance found, \<open>len\<close> if there is none.\<close>

definition find_from :: "int list \<Rightarrow> nat \<Rightarrow> nat \<Rightarrow> int \<Rightarrow> cerr + nat" where
  "find_from xs ii len x =
     (let q = length (takeWhile (\<lambda>y. y \<noteq> x) (take len (drop ii xs))) in
      if q < len \<and> length xs \<le> ii + q then Inl OutOfBounds else Inr q)"

function construct_btr_pre_in :: "bool \<Rightarrow> btr_pool \<Rightarrow> int list \<Rightarrow> int list \<Rightarrow> nat \<Rightarrow> nat \<Rightarrow> nat \<Rightarrow> cerr + int \<times> btr_node option \<times> btr_pool" where
  "construct_btr_pre_in ok s pre inn pp ii len =
     (if len = 0 then Inr (- 2, None, s) else
      bindr (load pre pp) (\<lambda>root.
      bindr (find_from inn ii len root) (\<lambda>leftn.
      bindr (btrnode_get ok s) (\<lambda>(a, s).
      bindr (if leftn > 0 then construct_btr_pre_in ok s pre inn (Suc pp) ii leftn else Inr (0, None, s)) (\<lambda>(r, l, s).
      if r \<noteq> 0 then Inr (- 4, Some (Btr a root l None), s) else
      let rightn = size_sub (size_sub len leftn) 1 in
      bindr (if rightn > 0 then construct_btr_pre_in ok s pre inn (Suc (pp + leftn)) (Suc (ii + leftn)) rightn else Inr (0, None, s)) (\<lambda>(r, rt, s).
      if r \<noteq> 0 then Inr (- 5, Some (Btr a root l rt), s) else Inr (0, Some (Btr a root l rt), s)))))))"
  by pat_completeness auto
termination
  by (relation "measure (\<lambda>(ok, s, pre, inn, pp, ii, len). length pre - pp)") (auto simp: load_def split: if_splits)

declare construct_btr_pre_in.simps [simp del]

text \<open>The keys that \<open>btr_inorder_print\<close> prints.\<close>

fun btr_inorder_print :: "btr_node option \<Rightarrow> int list" where
  "btr_inorder_print None = []"
| "btr_inorder_print (Some (Btr a k l r)) = btr_inorder_print l @ [k] @ btr_inorder_print r"

definition test_construct_btr_main :: "bool \<Rightarrow> cerr + int \<times> int list" where
  "test_construct_btr_main ok =
     bindr (construct_btr_pre_in ok \<lparr>bt_nodes = None, bt_i = 0, bt_blocks = 0\<rparr> [1, 2, 4, 7, 3, 5, 6, 8] [4, 7, 2, 1, 5, 3, 8, 6] 0 0 8) (\<lambda>(r, tr, s).
     if tr = None \<or> r \<noteq> 0 then Inr (- 1, []) else Inr (0, btr_inorder_print tr))"

section \<open>The node pool\<close>

definition bt_inv :: "btr_pool \<Rightarrow> bool" where
  "bt_inv s \<longleftrightarrow> bt_i s < btr_N \<and> (case bt_nodes s of None \<Rightarrow> bt_i s = 0 | Some b \<Rightarrow> b < bt_blocks s \<and> Suc b = bt_blocks s)"

text \<open>All blocks but the current one may be full.\<close>

definition bt_used :: "btr_pool \<Rightarrow> (nat \<times> nat) set" where
  "bt_used s = {(b, i). i < btr_N - 1 \<and> (case bt_nodes s of None \<Rightarrow> b < bt_blocks s | Some c \<Rightarrow> b < c \<or> b = c \<and> i < bt_i s)}"

lemma btr_N_ge: "2 \<le> btr_N"
  by (simp add: btr_N_def)

lemma btrnode_get_fresh:
  assumes "bt_nodes s = None" "bt_i s = 0"
  shows "btrnode_get True s = Inr ((bt_blocks s, 0), s\<lparr>bt_nodes := Some (bt_blocks s), bt_blocks := Suc (bt_blocks s), bt_i := 1\<rparr>)"
  using assms btr_N_ge by (subst btrnode_get.simps) (simp add: Let_def)

lemma btrnode_get_law:
  assumes "bt_inv s"
  shows "\<exists>a s'. btrnode_get True s = Inr (a, s') \<and> bt_inv s' \<and> a \<notin> bt_used s \<and> bt_used s' = insert a (bt_used s)"
proof (cases "bt_nodes s")
  case None
  then show ?thesis using assms btrnode_get_fresh [of s] btr_N_ge by (auto simp: bt_inv_def bt_used_def)
next
  case (Some b)
  show ?thesis
  proof (cases "bt_i s = btr_N - 1")
    case False
    then have "btrnode_get True s = Inr ((b, bt_i s), s\<lparr>bt_i := Suc (bt_i s)\<rparr>)" using Some by (subst btrnode_get.simps) simp
    then show ?thesis using Some False assms by (auto simp: bt_inv_def bt_used_def)
  next
    case True
    then have "btrnode_get True s = btrnode_get True (s\<lparr>bt_nodes := None, bt_i := 0\<rparr>)" using Some by (subst btrnode_get.simps) simp
    then show ?thesis using btrnode_get_fresh [of "s\<lparr>bt_nodes := None, bt_i := 0\<rparr>"] Some True assms btr_N_ge
      by (auto simp: bt_inv_def bt_used_def)
  qed
qed

interpretation btr_alloc: fresh_alloc bt_inv bt_used "\<lambda>s. n" "btrnode_get True" for n
  using btrnode_get_law by unfold_locales auto

section \<open>The tree rebuilt is the tree traversed\<close>

text \<open>The key tree, its traversals, and the addresses of a node tree.\<close>

datatype ktree = KLeaf | KNode ktree int ktree

fun kpre :: "ktree \<Rightarrow> int list" where
  "kpre KLeaf = []"
| "kpre (KNode l k r) = k # kpre l @ kpre r"

fun kin :: "ktree \<Rightarrow> int list" where
  "kin KLeaf = []"
| "kin (KNode l k r) = kin l @ k # kin r"

fun shape :: "btr_node option \<Rightarrow> ktree" where
  "shape None = KLeaf"
| "shape (Some (Btr a k l r)) = KNode (shape l) k (shape r)"

fun baddrs :: "btr_node option \<Rightarrow> (nat \<times> nat) list" where
  "baddrs None = []"
| "baddrs (Some (Btr a k l r)) = a # baddrs l @ baddrs r"

lemma length_kpre: "length (kpre t) = length (kin t)"
  by (induction t) auto

lemma kin_empty: "kin t = [] \<longleftrightarrow> t = KLeaf"
  by (cases t) auto

lemma find_from_tree:
  assumes "distinct (kin (KNode l k r))" "take (length (kin (KNode l k r))) (drop ii inn) = kin (KNode l k r)"
  shows "find_from inn ii (length (kin (KNode l k r))) k = Inr (length (kin l))"
proof -
  have "takeWhile (\<lambda>y. y \<noteq> k) (kin (KNode l k r)) = kin l"
    using assms(1) by (auto simp: takeWhile_tail)
  moreover have "ii + length (kin (KNode l k r)) \<le> length inn"
  proof -
    have "length (take (length (kin (KNode l k r))) (drop ii inn)) = length (kin (KNode l k r))" using assms(2) by simp
    then show ?thesis by (simp del: kin.simps) (auto simp: min_def split: if_splits)
  qed
  ultimately show ?thesis using assms(2) by (simp add: find_from_def)
qed

definition built :: "ktree \<Rightarrow> btr_pool \<Rightarrow> cerr + int \<times> btr_node option \<times> btr_pool \<Rightarrow> bool" where
  "built t s res \<longleftrightarrow> (\<exists>tr s'. res = Inr (0, tr, s') \<and> shape tr = t \<and> distinct (baddrs tr) \<and> set (baddrs tr) \<inter> bt_used s = {} \<and>
     bt_inv s' \<and> bt_used s' = bt_used s \<union> set (baddrs tr))"

lemma construct_built:
  assumes "bt_inv s" "t \<noteq> KLeaf" "distinct (kin t)" "length (kin t) < size_max"
    "take (length (kin t)) (drop pp pre) = kpre t" "take (length (kin t)) (drop ii inn) = kin t"
  shows "built t s (construct_btr_pre_in True s pre inn pp ii (length (kin t)))"
  using assms
proof (induction t arbitrary: s pp ii)
  case (KNode l k r)
  let ?n = "length (kin l)" and ?m = "length (kin r)"
  have len: "length (kin (KNode l k r)) = Suc (?n + ?m)" by simp
  have pre: "take (Suc (?n + ?m)) (drop pp pre) = k # kpre l @ kpre r" using KNode.prems(5) by simp
  then have "length (take (Suc (?n + ?m)) (drop pp pre)) = Suc (?n + ?m)" by (simp add: length_kpre)
  then have pl: "pp + Suc (?n + ?m) \<le> length pre" by (simp add: min_def split: if_splits)
  have "pre ! pp = k" using arg_cong [OF pre, of "\<lambda>xs. xs ! 0"] pl by simp
  then have ld: "load pre pp = Inr k" using pl by (simp add: load_def)
  have "take (?n + ?m) (drop (Suc pp) pre) = kpre l @ kpre r"
    using arg_cong [OF pre, of "drop 1"] by (simp add: drop_take)
  then have pre_l: "take ?n (drop (Suc pp) pre) = kpre l" and pre_r: "take ?m (drop (Suc (pp + ?n)) pre) = kpre r"
    by (metis append_eq_conv_conj length_kpre min.absorb1 le_add1 take_take, metis (no_types, opaque_lifting) append_eq_conv_conj length_kpre drop_take diff_add_inverse drop_drop add_Suc add.commute)
  have inn: "take (Suc (?n + ?m)) (drop ii inn) = kin l @ k # kin r" using KNode.prems(6) by simp
  have in_l: "take ?n (drop ii inn) = kin l"
    by (metis (no_types, lifting) inn append_eq_conv_conj take_take min.absorb1 le_add1 le_SucI)
  have in_r: "take ?m (drop (Suc (ii + ?n)) inn) = kin r"
    using arg_cong [OF inn, of "drop (Suc ?n)"] by (simp add: drop_take add.commute)
  have fd: "find_from inn ii (length (kin (KNode l k r))) k = Inr ?n" using find_from_tree [OF KNode.prems(3,6)] .
  obtain a s1 where a: "btrnode_get True s = Inr (a, s1)" "bt_inv s1" "a \<notin> bt_used s" "bt_used s1 = insert a (bt_used s)"
    using btrnode_get_law [OF KNode.prems(1)] by blast
  have "\<exists>tl s2. (if ?n > 0 then construct_btr_pre_in True s1 pre inn (Suc pp) ii ?n else Inr (0, None, s1)) = Inr (0, tl, s2) \<and> shape tl = l \<and>
      distinct (baddrs tl) \<and> set (baddrs tl) \<inter> bt_used s1 = {} \<and> bt_inv s2 \<and> bt_used s2 = bt_used s1 \<union> set (baddrs tl)"
  proof (cases "l = KLeaf")
    case False
    then have "built l s1 (construct_btr_pre_in True s1 pre inn (Suc pp) ii ?n)"
      using KNode.prems(3,4) a(2) pre_l in_l by (intro KNode.IH(1)) auto
    then show ?thesis using False kin_empty by (auto simp: built_def)
  qed (use a(2) in auto)
  then obtain tl s2 where l: "(if ?n > 0 then construct_btr_pre_in True s1 pre inn (Suc pp) ii ?n else Inr (0, None, s1)) = Inr (0, tl, s2)" "shape tl = l"
    "distinct (baddrs tl)" "set (baddrs tl) \<inter> bt_used s1 = {}" "bt_inv s2" "bt_used s2 = bt_used s1 \<union> set (baddrs tl)" by blast
  have "\<exists>tr s3. (if ?m > 0 then construct_btr_pre_in True s2 pre inn (Suc (pp + ?n)) (Suc (ii + ?n)) ?m else Inr (0, None, s2)) = Inr (0, tr, s3) \<and> shape tr = r \<and>
      distinct (baddrs tr) \<and> set (baddrs tr) \<inter> bt_used s2 = {} \<and> bt_inv s3 \<and> bt_used s3 = bt_used s2 \<union> set (baddrs tr)"
  proof (cases "r = KLeaf")
    case False
    then have "built r s2 (construct_btr_pre_in True s2 pre inn (Suc (pp + ?n)) (Suc (ii + ?n)) ?m)"
      using KNode.prems(3,4) l(5) pre_r in_r by (intro KNode.IH(2)) auto
    then show ?thesis using False kin_empty by (auto simp: built_def)
  qed (use l(5) in auto)
  then obtain tr s3 where r: "(if ?m > 0 then construct_btr_pre_in True s2 pre inn (Suc (pp + ?n)) (Suc (ii + ?n)) ?m else Inr (0, None, s2)) = Inr (0, tr, s3)" "shape tr = r"
    "distinct (baddrs tr)" "set (baddrs tr) \<inter> bt_used s2 = {}" "bt_inv s3" "bt_used s3 = bt_used s2 \<union> set (baddrs tr)" by blast
  have "size_sub (size_sub (length (kin (KNode l k r))) ?n) 1 = ?m" by (simp add: size_sub_def)
  then have "construct_btr_pre_in True s pre inn pp ii (length (kin (KNode l k r))) = Inr (0, Some (Btr a k tl tr), s3)"
    using ld fd a(1) l(1) r(1) by (subst construct_btr_pre_in.simps) (simp del: kin.simps add: len)
  then show ?case unfolding built_def using a l r by (intro exI [of _ "Some (Btr a k tl tr)"] exI [of _ s3]) auto
qed simp

lemma btr_inorder_shape: "btr_inorder_print tr = kin (shape tr)"
  by (induction tr rule: btr_inorder_print.induct) auto

text \<open>C19: from the pre-order and in-order sequences of any non-empty tree with distinct keys, the reconstruction returns 0 and a tree
  of the same shape and keys, all of whose nodes are distinct; printing it in order gives the in-order sequence back.\<close>

theorem construct_btr_roundtrip:
  assumes "t \<noteq> KLeaf" "distinct (kin t)" "length (kin t) < size_max"
  shows "\<exists>tr s. construct_btr_pre_in True \<lparr>bt_nodes = None, bt_i = 0, bt_blocks = 0\<rparr> (kpre t) (kin t) 0 0 (length (kin t)) = Inr (0, tr, s) \<and>
    shape tr = t \<and> distinct (baddrs tr) \<and> btr_inorder_print tr = kin t"
proof -
  have "bt_inv \<lparr>bt_nodes = None, bt_i = 0, bt_blocks = 0\<rparr>" by (simp add: bt_inv_def btr_N_def)
  from construct_built [OF this assms, of 0 "kpre t" 0 "kin t"] obtain tr s' where
    "construct_btr_pre_in True \<lparr>bt_nodes = None, bt_i = 0, bt_blocks = 0\<rparr> (kpre t) (kin t) 0 0 (length (kin t)) = Inr (0, tr, s')"
    "shape tr = t" "distinct (baddrs tr)" by (auto simp: built_def length_kpre)
  then show ?thesis using btr_inorder_shape [of tr] by blast
qed

definition test_tree :: ktree where
  "test_tree = KNode (KNode (KNode KLeaf 4 (KNode KLeaf 7 KLeaf)) 2 KLeaf) 1 (KNode (KNode KLeaf 5 KLeaf) 3 (KNode (KNode KLeaf 8 KLeaf) 6 KLeaf))"

theorem construct_btr_roundtrip_witness: "test_construct_btr_main True = Inr (0, [4, 7, 2, 1, 5, 3, 8, 6])"
proof -
  have t: "test_tree \<noteq> KLeaf" "distinct (kin test_tree)" "length (kin test_tree) < size_max"
    "kpre test_tree = [1, 2, 4, 7, 3, 5, 6, 8]" "kin test_tree = [4, 7, 2, 1, 5, 3, 8, 6]" "length (kin test_tree) = 8" by (simp_all add: test_tree_def)
  from construct_btr_roundtrip [OF t(1-3)] obtain tr s where
    "construct_btr_pre_in True \<lparr>bt_nodes = None, bt_i = 0, bt_blocks = 0\<rparr> [1, 2, 4, 7, 3, 5, 6, 8] [4, 7, 2, 1, 5, 3, 8, 6] 0 0 8 = Inr (0, tr, s)"
    "shape tr = test_tree" "btr_inorder_print tr = [4, 7, 2, 1, 5, 3, 8, 6]" unfolding t(4,6) unfolding t(5) by blast
  moreover from this have "tr \<noteq> None" by (cases tr) (auto simp: test_tree_def)
  ultimately show ?thesis by (simp add: test_construct_btr_main_def)
qed

section \<open>Searching a sorted array of two dimensions\<close>

text \<open>The index \<open>i * m + j\<close> and the column \<open>j\<close> wrap; the test \<open>j >= 0\<close> always holds. A null pointer is \<open>None\<close>; the
  length of the list is the number of cells the array has.\<close>

fun search_2d_loop :: "nat \<Rightarrow> int list \<Rightarrow> nat \<Rightarrow> int \<Rightarrow> nat \<Rightarrow> nat \<Rightarrow> cerr + bool" where
  "search_2d_loop 0 a m key i j = Inl OutOfFuel"
| "search_2d_loop (Suc fuel) a m key i j =
     (if i < m then
        bindr (load a ((i * m + j) mod size_max)) (\<lambda>x.
        if key = x then Inr True
        else if key < x then search_2d_loop fuel a m key i (size_sub j 1)
        else search_2d_loop fuel a m key (Suc i) j)
      else Inr False)"

definition ordered_2d_array_search :: "nat \<Rightarrow> int list option \<Rightarrow> nat \<Rightarrow> nat \<Rightarrow> int \<Rightarrow> cerr + bool" where
  "ordered_2d_array_search fuel a m n key = (case a of
      None \<Rightarrow> Inr False
    | Some xs \<Rightarrow> if \<not> (m > 0 \<and> n > 0) then Inr False else search_2d_loop fuel xs m key 0 (size_sub n 1))"

text \<open>The loop in terms of the signed position \<open>p\<close> in the array.\<close>

definition wrap_col :: "int \<Rightarrow> nat" where
  "wrap_col c = nat (c mod int size_max)"

lemma wrap_index:
  assumes "0 \<le> int i * int m + c" "int i * int m + c < int size_max"
  shows "(i * m + wrap_col c) mod size_max = nat (int i * int m + c)"
proof -
  have "int ((i * m + wrap_col c) mod size_max) = (int i * int m + c mod int size_max) mod int size_max"
    by (simp add: wrap_col_def zmod_int)
  also have "\<dots> = int i * int m + c" using assms by (simp add: mod_add_right_eq)
  finally show ?thesis by simp
qed

lemma wrap_sub: "size_sub (wrap_col c) 1 = wrap_col (c - 1)"
proof (cases "c mod int size_max = 0")
  case True
  then have "(c - 1) mod int size_max = int size_max - 1" by (simp add: zmod_minus1 mod_diff_left_eq [symmetric] True)
  then show ?thesis using True by (simp add: wrap_col_def size_sub_def)
next
  case False
  have "0 \<le> c mod int size_max" by simp
  then have pos: "1 \<le> c mod int size_max" using False by linarith
  have "(c - 1) mod int size_max = (c mod int size_max - 1) mod int size_max" by (simp add: mod_diff_left_eq)
  also have "\<dots> = c mod int size_max - 1" using pos by (intro mod_pos_pos_trivial) auto
  finally show ?thesis using pos by (simp add: wrap_col_def size_sub_def nat_diff_distrib)
qed

definition sorted_2d :: "nat \<Rightarrow> int list \<Rightarrow> bool" where
  "sorted_2d m a \<longleftrightarrow> length a = m * m \<and> (\<forall>i j i' j'. i \<le> i' \<longrightarrow> i' < m \<longrightarrow> j \<le> j' \<longrightarrow> j' < m \<longrightarrow> a ! (i * m + j) \<le> a ! (i' * m + j'))"

text \<open>The rest of the array that can still hold the key.\<close>

definition ahead :: "nat \<Rightarrow> int list \<Rightarrow> int \<Rightarrow> nat \<Rightarrow> int \<Rightarrow> bool" where
  "ahead m a key i c \<longleftrightarrow> (\<exists>r q. i \<le> r \<and> r < m \<and> q < m \<and> int q \<le> c \<and> a ! (r * m + q) = key)"

lemma row_col: "x < m * m \<Longrightarrow> \<exists>r q. x = r * m + q \<and> r < m \<and> q < m" for x m :: nat
proof -
  assume x: "x < m * m"
  then have "0 < m" by (cases m) auto
  then show ?thesis using x by (intro exI [of _ "x div m"] exI [of _ "x mod m"]) (simp add: less_mult_imp_div_less)
qed

lemma search_2d_loop_spec:
  assumes so: "sorted_2d m a" and small: "int m * int m < int size_max" and first: "a ! 0 \<le> key" and m: "0 < m"
    and "i \<le> m" "c < int m" "0 \<le> int i * int m + c" "key \<in> set a \<longrightarrow> ahead m a key i c"
    "int i * int m + c + 1 + (int m - int i) * (int m + 1) < int fuel"
  shows "search_2d_loop fuel a m key i (wrap_col c) = Inr (key \<in> set a)"
  using assms(5-)
proof (induction fuel arbitrary: i c)
  case 0
  have "0 \<le> (int m - int i) * (int m + 1)" using 0(1) by simp
  then have False using 0 by linarith
  then show ?case ..
next
  case (Suc fuel)
  show ?case
  proof (cases "i < m")
    case False
    then have "\<not> ahead m a key i c" by (simp add: ahead_def)
    then show ?thesis using False Suc.prems(4) by simp
  next
    case True
    define p where "p = int i * int m + c"
    have "int i * int m + int m \<le> int m * int m" using True by (metis mult_right_mono of_nat_0_le_iff distrib_right mult_1 zless_imp_add1_zle of_nat_less_iff add.commute)
    then have p: "0 \<le> p" "p < int m * int m" using Suc.prems(2,3) True by (auto simp: p_def)
    have ix: "(i * m + wrap_col c) mod size_max = nat p" using wrap_index [of i m c] p small by (simp add: p_def)
    have len: "nat p < length a" using p(2) so by (simp add: sorted_2d_def nat_less_iff p(1))
    have ld: "load a ((i * m + wrap_col c) mod size_max) = Inr (a ! nat p)" using ix len by (simp add: load_def)
    have cell: "nat p = i * m + nat c" if "0 \<le> c" using that by (simp add: p_def nat_add_distrib nat_mult_distrib)
    have mono: "a ! (r * m + q) \<le> a ! (r' * m + q')" if "r \<le> r'" "r' < m" "q \<le> q'" "q' < m" for r q r' q'
      using so that by (auto simp: sorted_2d_def)
    consider "key = a ! nat p" | "key < a ! nat p" | "a ! nat p < key" by linarith
    then show ?thesis
    proof cases
      case 1
      then show ?thesis using True ld len by simp
    next
      case 2
      have "p \<noteq> 0" using 2 first by auto
      moreover have "key \<in> set a \<longrightarrow> ahead m a key i (c - 1)"
      proof
        assume "key \<in> set a"
        then obtain r q where rq: "i \<le> r" "r < m" "q < m" "int q \<le> c" "a ! (r * m + q) = key" using Suc.prems(4) by (auto simp: ahead_def)
        have "int q \<noteq> c"
        proof
          assume "int q = c"
          then show False using mono [OF rq(1,2) order_refl rq(3)] rq(5) cell 2 by auto
        qed
        then have "int q \<le> c - 1" using rq(4) by simp
        then show "ahead m a key i (c - 1)" unfolding ahead_def using rq by blast
      qed
      ultimately have "search_2d_loop fuel a m key i (wrap_col (c - 1)) = Inr (key \<in> set a)"
        using Suc.IH [of i "c - 1"] Suc.prems p by (simp add: p_def)
      then show ?thesis using True ld 2 wrap_sub by simp
    next
      case 3
      have "key \<in> set a \<longrightarrow> ahead m a key (Suc i) c"
      proof
        assume "key \<in> set a"
        then obtain r q where rq: "i \<le> r" "r < m" "q < m" "int q \<le> c" "a ! (r * m + q) = key" using Suc.prems(4) by (auto simp: ahead_def)
        have "r \<noteq> i"
        proof
          assume "r = i"
          moreover have "q \<le> nat c" "nat c < m" using rq(4) Suc.prems(2) by linarith+
          ultimately show False using mono [OF order_refl True, of q "nat c"] rq(4,5) cell 3 by auto
        qed
        then show "ahead m a key (Suc i) c" using rq unfolding ahead_def by (metis Suc_leI le_neq_implies_less)
      qed
      moreover have "int (Suc i) * int m + c + 1 + (int m - int (Suc i)) * (int m + 1) < int fuel" using Suc.prems(5) by (simp add: algebra_simps)
      ultimately have "search_2d_loop fuel a m key (Suc i) (wrap_col c) = Inr (key \<in> set a)"
        using Suc.IH [of "Suc i" c] Suc.prems(2) True p(1) by (simp add: p_def algebra_simps)
      then show ?thesis using True ld 3 by simp
    qed
  qed
qed

text \<open>In a square array sorted along rows and columns, the search ends and answers whether the key is in the
  array, provided the key is not smaller than the first element; for a smaller key it reads before the
  array, because a column index below zero wraps round.\<close>

theorem ordered_2d_search_correct:
  assumes "sorted_2d m a" "0 < m" "int m * int m < int size_max" "2 * m * m + 2 * m + 2 \<le> fuel"
  shows "ordered_2d_array_search fuel (Some a) m m key = (if a ! 0 \<le> key then Inr (key \<in> set a) else Inl OutOfBounds)"
proof -
  have "m \<le> m * m" using assms(2) by simp
  have "int m * 1 \<le> int m * int m" using assms(2) by (intro mult_left_mono) simp_all
  then have mlt: "int m < int size_max" using assms(3) by linarith
  have start: "size_sub m 1 = wrap_col (int m - 1)"
    unfolding size_sub_def wrap_col_def using assms(2) mlt by (simp add: mod_pos_pos_trivial nat_diff_distrib)
  show ?thesis
  proof (cases "a ! 0 \<le> key")
    case True
    have "key \<in> set a \<longrightarrow> ahead m a key 0 (int m - 1)"
    proof
      assume "key \<in> set a"
      then obtain x where x: "x < m * m" "a ! x = key" using assms(1) by (auto simp: in_set_conv_nth sorted_2d_def)
      from row_col [OF x(1)] obtain r q where "x = r * m + q" "r < m" "q < m" by blast
      then show "ahead m a key 0 (int m - 1)" using x(2) unfolding ahead_def by (intro exI [of _ r] exI [of _ q]) auto
    qed
    moreover have "int m - 1 + 1 + int m * (int m + 1) < int fuel"
    proof -
      have "int (2 * m * m + 2 * m + 2) \<le> int fuel" using assms(4) by (simp only: of_nat_le_iff)
      then have "2 * (int m * int m) + 2 * int m + 2 \<le> int fuel" by (simp add: mult.assoc)
      moreover have "0 \<le> int m * int m" by simp
      moreover have "int m * (int m + 1) = int m * int m + int m" by (simp add: distrib_left)
      ultimately show ?thesis by linarith
    qed
    ultimately have "search_2d_loop fuel a m key 0 (wrap_col (int m - 1)) = Inr (key \<in> set a)"
      using search_2d_loop_spec [OF assms(1,3) True assms(2), of 0 "int m - 1" fuel] assms(2) by simp
    then show ?thesis using True assms(2) start by (simp add: ordered_2d_array_search_def)
  next
    case False
    have "search_2d_loop (c + 2 + d) a m key 0 (wrap_col (int c)) = Inl OutOfBounds" if "c < m" for c d
      using that
    proof (induction c)
      case 0
      have l0: "load a ((0 * m + wrap_col 0) mod size_max) = Inr (a ! 0)" using assms(1,2) by (simp add: wrap_col_def load_def sorted_2d_def)
      have w: "size_sub (wrap_col 0) 1 = size_max - 1" by (simp add: wrap_col_def size_sub_def)
      have "int (length a) < int size_max" using assms(1,3) by (simp add: sorted_2d_def)
      then have "length a \<le> size_max - 1" by linarith
      then have l1: "load a ((0 * m + (size_max - 1)) mod size_max) = Inl OutOfBounds" by (simp add: load_def)
      have "search_2d_loop (Suc d) a m key 0 (size_max - 1) = Inl OutOfBounds" using assms(2) l1 by (simp only: search_2d_loop.simps if_True bindr_simps)
      then have "search_2d_loop (Suc (Suc d)) a m key 0 (wrap_col 0) = Inl OutOfBounds"
        using False assms(2) l0 w by (simp only: search_2d_loop.simps(2) [of "Suc d"] if_True bindr_simps) simp
      then show ?case by simp
    next
      case (Suc c)
      then have "c + 1 < m * m" using \<open>m \<le> m * m\<close> by linarith
      moreover have "a ! (0 * m + 0) \<le> a ! (0 * m + Suc c)" using assms(1,2) Suc.prems unfolding sorted_2d_def by blast
      moreover have "(0 * m + wrap_col (int (Suc c))) mod size_max = Suc c"
        using wrap_index [of 0 m "int (Suc c)"] Suc.prems mlt by simp
      moreover have "wrap_col (int (Suc c) - 1) = wrap_col (int c)" by simp
      ultimately show ?case using Suc False assms(1,2) wrap_sub [of "int (Suc c)"] by (simp add: load_def sorted_2d_def)
    qed
    from this [of "m - 1" "fuel - (m + 1)"] have "search_2d_loop fuel a m key 0 (wrap_col (int (m - 1))) = Inl OutOfBounds"
      using assms(2,4) by simp
    moreover have "int (m - 1) = int m - 1" using assms(2) by simp
    ultimately show ?thesis using False assms(2) start by (simp add: ordered_2d_array_search_def)
  qed
qed

theorem ordered_2d_search_correct_witness:
  "sorted_2d 2 [1, 2, 3, 5] \<and> ordered_2d_array_search 20 (Some [1, 2, 3, 5]) 2 2 3 = Inr True
   \<and> ordered_2d_array_search 20 (Some [1, 2, 3, 5]) 2 2 4 = Inr False
   \<and> ordered_2d_array_search 20 (Some [1, 2, 3, 5]) 2 2 0 = Inl OutOfBounds"
proof -
  have "i < 2 \<Longrightarrow> i = 0 \<or> i = 1" for i :: nat by auto
  then have s: "sorted_2d 2 [1, 2, 3, 5]" unfolding sorted_2d_def by (fastforce simp: nth_Cons')
  show ?thesis
    using s ordered_2d_search_correct [OF s, of 20 3] ordered_2d_search_correct [OF s, of 20 4] ordered_2d_search_correct [OF s, of 20 0] by simp
qed

text \<open>\<open>%2d\<close> pads with spaces on the left; \<open>%d\<close> of the \<open>bool\<close> result prints 0 or 1.\<close>

definition show_2d :: "int \<Rightarrow> string" where
  "show_2d k = (let s = show_int k in replicate (2 - length s) CHR '' '' @ s)"

definition show_found :: "string \<Rightarrow> int \<Rightarrow> bool \<Rightarrow> string" where
  "show_found fn key r = fn @ '': ordered_2d_array_search, key='' @ show_int key @ '', found = '' @ show_int (if r then 1 else 0) @ [CHR 0x0A]"

definition show_rows :: "nat \<Rightarrow> nat \<Rightarrow> int list \<Rightarrow> cerr + string" where
  "show_rows M N arr =
     (if M * N \<le> length arr
      then Inr (concat (map (\<lambda>i. concat (map (\<lambda>j. show_2d (arr ! (i * M + j)) @ '' '') [0..<N]) @ [CHR 0x0A]) [0..<M]))
      else Inl OutOfBounds)"

definition test_2d_array :: "int list" where
  "test_2d_array = [1, 2, 8, 9, 2, 4, 9, 12, 4, 7, 10, 13, 6, 8, 11, 15]"

definition test_jzoffter_ordered_2d_array_search_main :: "nat \<Rightarrow> cerr + nat \<times> string" where
  "test_jzoffter_ordered_2d_array_search_main fuel =
     (let M = 4; N = 4; fn = ''test_jzoffter_ordered_2d_array_search_main'' in
      bindr (show_rows M N test_2d_array) (\<lambda>rows.
      bindr (ordered_2d_array_search fuel (Some test_2d_array) M N 7) (\<lambda>r7.
      bindr (ordered_2d_array_search fuel (Some test_2d_array) M N 10) (\<lambda>r10.
      bindr (ordered_2d_array_search fuel (Some test_2d_array) M N 14) (\<lambda>r14.
      Inr (0, fn @ '': ordered_2d_array:'' @ [CHR 0x0A] @ rows @ show_found fn 7 r7 @ show_found fn 10 r10 @ show_found fn 14 r14))))))"

lemma test_2d_searches:
  "ordered_2d_array_search (Suc (Suc (Suc (Suc (Suc (Suc (Suc (Suc (Suc (Suc f)))))))))) (Some test_2d_array) 4 4 7 = Inr True"
  "ordered_2d_array_search (Suc (Suc (Suc (Suc (Suc (Suc (Suc (Suc (Suc (Suc f)))))))))) (Some test_2d_array) 4 4 10 = Inr True"
  "ordered_2d_array_search (Suc (Suc (Suc (Suc (Suc (Suc (Suc (Suc (Suc (Suc f)))))))))) (Some test_2d_array) 4 4 14 = Inr False"
  by (simp_all add: ordered_2d_array_search_def test_2d_array_def size_sub_def load_def)

section \<open>Printing a list backwards\<close>

text \<open>The nodes are the cells of an array, a pointer to a node its index; a list may be cyclic, so that both printers
  have fuel. \<open>fprintf (f, "%d, ", key)\<close> appends to the text printed so far.\<close>

record listnode =
  ln_key :: int
  ln_next :: "nat option"

definition show_item :: "int \<Rightarrow> string" where
  "show_item k = show_int k @ '', ''"

fun push_all :: "nat \<Rightarrow> listnode list \<Rightarrow> nat option \<Rightarrow> nat list \<Rightarrow> cerr + nat list" where
  "push_all 0 h p s = Inl OutOfFuel"
| "push_all (Suc fuel) h p s = (case p of None \<Rightarrow> Inr s | Some a \<Rightarrow> bindr (load h a) (\<lambda>n. push_all fuel h (ln_next n) (a # s)))"

fun pop_print :: "listnode list \<Rightarrow> nat list \<Rightarrow> cerr + string" where
  "pop_print h [] = Inr []"
| "pop_print h (a # s) = bindr (load h a) (\<lambda>n. bindr (pop_print h s) (\<lambda>t. Inr (show_item (ln_key n) @ t)))"

definition print_list_reverse_1 :: "nat \<Rightarrow> listnode list \<Rightarrow> nat option \<Rightarrow> cerr + string" where
  "print_list_reverse_1 fuel h li = bindr (push_all fuel h li []) (\<lambda>s. pop_print h s)"

fun print_list_reverse_2 :: "nat \<Rightarrow> listnode list \<Rightarrow> nat option \<Rightarrow> cerr + string" where
  "print_list_reverse_2 0 h li = Inl OutOfFuel"
| "print_list_reverse_2 (Suc fuel) h li =
     bindr (deref li) (\<lambda>a. bindr (load h a) (\<lambda>n.
     if ln_next n \<noteq> None
     then bindr (print_list_reverse_2 fuel h (ln_next n)) (\<lambda>t. Inr (t @ show_item (ln_key n)))
     else Inr (show_item (ln_key n))))"

text \<open>The list of keys a pointer leads to.\<close>

fun keys_at :: "listnode list \<Rightarrow> nat option \<Rightarrow> int list \<Rightarrow> bool" where
  "keys_at h p [] \<longleftrightarrow> p = None"
| "keys_at h p (k # ks) \<longleftrightarrow> (\<exists>a. p = Some a \<and> a < length h \<and> ln_key (h ! a) = k \<and> keys_at h (ln_next (h ! a)) ks)"

definition show_items :: "int list \<Rightarrow> string" where
  "show_items ks = concat (map show_item ks)"

lemma push_all_spec:
  "keys_at h p ks \<Longrightarrow> length ks < fuel \<Longrightarrow> pop_print h s = Inr t \<Longrightarrow>
   bindr (push_all fuel h p s) (pop_print h) = Inr (show_items (rev ks) @ t)"
proof (induction fuel arbitrary: p ks s t)
  case (Suc fuel)
  show ?case
  proof (cases ks)
    case Nil
    then show ?thesis using Suc.prems by (simp add: show_items_def)
  next
    case (Cons k ks')
    then obtain a where a: "p = Some a" "a < length h" "ln_key (h ! a) = k" "keys_at h (ln_next (h ! a)) ks'" using Suc.prems by auto
    have "pop_print h (a # s) = Inr (show_item k @ t)" using a Suc.prems(3) by (simp add: load_in)
    from Suc.IH [OF a(4) _ this] show ?thesis using a Cons Suc.prems(2) by (simp add: load_in show_items_def)
  qed
qed simp

lemma print_list_reverse_2_spec:
  "keys_at h p ks \<Longrightarrow> ks \<noteq> [] \<Longrightarrow> length ks < fuel \<Longrightarrow> print_list_reverse_2 fuel h p = Inr (show_items (rev ks))"
proof (induction fuel arbitrary: p ks)
  case (Suc fuel)
  then obtain k ks' where ks: "ks = k # ks'" by (cases ks) auto
  then obtain a where a: "p = Some a" "a < length h" "ln_key (h ! a) = k" "keys_at h (ln_next (h ! a)) ks'" using Suc.prems by auto
  show ?case
  proof (cases ks')
    case Nil
    then show ?thesis using a ks by (simp add: load_in show_items_def)
  next
    case (Cons k' ks'')
    then have "ln_next (h ! a) \<noteq> None" using a(4) by auto
    then show ?thesis using a ks Suc.IH [OF a(4)] Suc.prems(3) Cons by (auto simp: load_in show_items_def)
  qed
qed simp

text \<open>On every finite list that is not empty the printer with an explicit stack and the recursive one print the
  same text, the keys from the last node to the first; on the empty list the first prints nothing
  and the second dereferences a null pointer.\<close>

theorem print_list_reverse_agree:
  assumes "keys_at h li ks" "length ks < fuel"
  shows "print_list_reverse_1 fuel h li = Inr (show_items (rev ks))
    \<and> print_list_reverse_2 fuel h li = (if ks = [] then Inl NullDeref else Inr (show_items (rev ks)))"
proof (intro conjI)
  show "print_list_reverse_1 fuel h li = Inr (show_items (rev ks))"
    using push_all_spec [OF assms, of "[]" "[]"] by (simp add: print_list_reverse_1_def)
  show "print_list_reverse_2 fuel h li = (if ks = [] then Inl NullDeref else Inr (show_items (rev ks)))"
    using print_list_reverse_2_spec [OF assms(1) _ assms(2)] assms by (cases fuel) auto
qed

text \<open>The test builds the list of 32 nodes by putting each in front of the last; \<open>build_list\<close> is its loop from node
  \<open>i\<close> on. The array is not initialised: \<open>h\<close> holds whatever it held.\<close>

fun build_list :: "nat \<Rightarrow> nat \<Rightarrow> listnode list \<Rightarrow> nat option \<Rightarrow> cerr + listnode list \<times> nat option" where
  "build_list 0 i h li = Inr (h, li)"
| "build_list (Suc k) i h li = bindr (store h i \<lparr>ln_key = int i, ln_next = li\<rparr>) (\<lambda>h'. build_list k (Suc i) h' (Some i))"

fun print_list :: "nat \<Rightarrow> listnode list \<Rightarrow> nat option \<Rightarrow> cerr + string" where
  "print_list 0 h p = Inl OutOfFuel"
| "print_list (Suc fuel) h p = (case p of None \<Rightarrow> Inr [] | Some a \<Rightarrow>
     bindr (load h a) (\<lambda>n. bindr (print_list fuel h (ln_next n)) (\<lambda>t. Inr (show_item (ln_key n) @ t))))"

definition test_jzoffter_print_list_reverse_main :: "nat \<Rightarrow> listnode list \<Rightarrow> cerr + nat \<times> string" where
  "test_jzoffter_print_list_reverse_main fuel nodes =
     (let N = 32; fn = ''test_jzoffter_print_list_reverse_main''; close = '']'' @ [CHR 0x0A] in
      bindr (build_list N 0 nodes None) (\<lambda>(h, li).
      bindr (print_list fuel h li) (\<lambda>t0.
      bindr (print_list_reverse_1 fuel h li) (\<lambda>t1.
      bindr (print_list_reverse_2 fuel h li) (\<lambda>t2.
      Inr (0, fn @ '': list=['' @ t0 @ close @ fn @ '': reverse print list(stack)=['' @ t1 @ close
              @ fn @ '': reverse print list(recursive)=['' @ t2 @ close))))))"

lemma print_list_spec: "keys_at h p ks \<Longrightarrow> length ks < fuel \<Longrightarrow> print_list fuel h p = Inr (show_items ks)"
proof (induction fuel arbitrary: p ks)
  case (Suc fuel)
  then show ?case by (cases ks) (auto simp: load_in show_items_def)
qed simp

lemma keys_at_take: "keys_at (take i h) p ks \<Longrightarrow> keys_at h p ks"
proof (induction ks arbitrary: p)
  case (Cons k ks)
  then obtain a where "p = Some a" "a < length h" "a < i" "ln_key (h ! a) = k" "keys_at (take i h) (ln_next (h ! a)) ks" by auto
  then show ?case using Cons.IH by auto
qed simp

lemma keys_at_extend: "keys_at h p ks \<Longrightarrow> keys_at (h @ xs) p ks"
  using keys_at_take [of "length h" "h @ xs"] by simp

lemma build_list_spec:
  assumes "i + k \<le> length h" "keys_at (take i h) li (map int (rev [0..<i]))"
  shows "\<exists>h' li'. build_list k i h li = Inr (h', li') \<and> keys_at h' li' (map int (rev [0..<i + k]))"
  using assms
proof (induction k arbitrary: i h li)
  case 0
  then have "keys_at h li (map int (rev [0..<i + 0]))" using keys_at_take [of i h li] by simp
  then show ?case by (simp only: build_list.simps) blast
next
  case (Suc k)
  let ?n = "\<lparr>ln_key = int i, ln_next = li\<rparr>"
  have t: "take (Suc i) (h[i := ?n]) = take i h @ [?n]" using Suc.prems(1) by (intro take_Suc_update) simp
  have "keys_at (take (Suc i) (h[i := ?n])) (Some i) (map int (rev [0..<Suc i]))"
    using Suc.prems keys_at_extend [OF Suc.prems(2)] unfolding t by (simp add: nth_append)
  from Suc.IH [OF _ this] Suc.prems(1) show ?case by (simp add: store_in)
qed

lemma test_print_list_reverse:
  assumes "length nodes = 32" "32 < fuel"
  shows "\<exists>t. test_jzoffter_print_list_reverse_main fuel nodes = Inr (0, t)"
proof -
  have "0 + 32 \<le> length nodes" "keys_at (take 0 nodes) None (map int (rev [0..<0]))" using assms(1) by simp_all
  from build_list_spec [OF this] obtain h li where
    b: "build_list 32 0 nodes None = Inr (h, li)" "keys_at h li (map int (rev [0..<32]))" by (auto simp only: add_0)
  let ?ks = "map int (rev [0..<32])"
  have len: "length ?ks < fuel" "?ks \<noteq> []" using assms(2) by simp_all
  show ?thesis unfolding test_jzoffter_print_list_reverse_main_def Let_def b(1)
    using print_list_spec [OF b(2) len(1)] push_all_spec [OF b(2) len(1), of "[]" "[]"] print_list_reverse_2_spec [OF b(2) len(2,1)]
    by (simp only: bindr_simps prod.case print_list_reverse_1_def) simp
qed

theorem print_list_reverse_agree_witness:
  "keys_at [\<lparr>ln_key = 0, ln_next = None\<rparr>, \<lparr>ln_key = 1, ln_next = Some 0\<rparr>] (Some 1) [1, 0]
   \<and> print_list_reverse_1 3 [\<lparr>ln_key = 0, ln_next = None\<rparr>, \<lparr>ln_key = 1, ln_next = Some 0\<rparr>] (Some 1) = Inr ''0, 1, ''
   \<and> print_list_reverse_2 3 [\<lparr>ln_key = 0, ln_next = None\<rparr>, \<lparr>ln_key = 1, ln_next = Some 0\<rparr>] None = Inl NullDeref"
proof -
  let ?h = "[\<lparr>ln_key = 0, ln_next = None\<rparr>, \<lparr>ln_key = 1, ln_next = Some 0\<rparr>]"
  have k: "keys_at ?h (Some 1) [1, 0]" by simp
  have "show_items (rev [1, 0]) = ''0, 1, ''" by code_simp
  then show ?thesis using k print_list_reverse_agree [OF k, of 3] print_list_reverse_agree [of ?h None "[]" 3] by simp
qed

end
