(* ===== verification/Contest_Problems.thy ===== *)
theory Contest_Problems
  imports C_Prelude
begin

text \<open>
  The exercises of \<open>algs/9787302356288/9787302356288.c\<close>: the largest sum of a path through a triangle of numbers, by
  plain recursion (\<open>solve1\<close>), with a table of results (\<open>solve2\<close>) and bottom up (\<open>solve3\<close>), and the leaf where the last of a
  sequence of balls ends that fall through a binary tree whose nodes flip at every visit
  (\<open>dropping_balls\<close>).

  \<open>triangle_solvers_agree\<close> shows that the three solvers return the same number, the largest sum over all paths;
  \<open>dropping_balls_leaf\<close> that the simulation of all the balls ends at the leaf one finds by
  following the last ball alone.
\<close>

section \<open>Tables\<close>

text \<open>\<open>int p[][maxN]\<close> is a list of rows. The tables \<open>d\<close> start with unknown contents.\<close>

type_synonym table = "int list list"

definition maxN :: nat where
  "maxN = 5"

definition get2 :: "table \<Rightarrow> int \<Rightarrow> int \<Rightarrow> cerr + int" where
  "get2 p i j = bindr (loadi p i) (\<lambda>row. loadi row j)"

definition set2 :: "table \<Rightarrow> int \<Rightarrow> int \<Rightarrow> int \<Rightarrow> cerr + table" where
  "set2 d i j v = bindr (loadi d i) (\<lambda>row.
     if 0 \<le> j then bindr (store row (nat j) v) (\<lambda>row'. store d (nat i) row') else Inl OutOfBounds)"

section \<open>The largest path sum\<close>

text \<open>The recursion ends only at a negative number, so it has fuel. The macro \<open>max\<close> evaluates one of its arguments
  twice, which the value does not show.\<close>

fun solve1_r :: "nat \<Rightarrow> table \<Rightarrow> int \<Rightarrow> int \<Rightarrow> cerr + int" where
  "solve1_r 0 p i j = Inl OutOfFuel"
| "solve1_r (Suc fuel) p i j =
     bindr (get2 p i j) (\<lambda>x. if x < 0 then Inr 0 else
     bindr (solve1_r fuel p (i + 1) j) (\<lambda>a. bindr (solve1_r fuel p i (j + 1)) (\<lambda>b. int_add x (max a b))))"

definition solve1 :: "nat \<Rightarrow> table \<Rightarrow> cerr + int" where
  "solve1 fuel p = solve1_r fuel p 0 0"

definition solve2_r :: "nat \<Rightarrow> table \<Rightarrow> int \<Rightarrow> int \<Rightarrow> int \<Rightarrow> table \<Rightarrow> cerr + int \<times> table" where
  "solve2_r fuel p i j n d =
     bindr (assertr (0 \<le> i \<and> 0 \<le> j \<and> 0 < n)) (\<lambda>_. bindr (get2 d i j) (\<lambda>v.
     if 0 \<le> v then Inr (v, d) else
     bindr (get2 p i j) (\<lambda>x.
     bindr (if x < 0 then Inr 0 else
            bindr (solve1_r fuel p (i + 1) j) (\<lambda>a. bindr (solve1_r fuel p i (j + 1)) (\<lambda>b. int_add x (max a b)))) (\<lambda>r.
     bindr (set2 d i j r) (\<lambda>d'. Inr (r, d'))))))"

text \<open>The loops of \<open>solve2\<close> that mark the triangle as unknown: \<open>clear_row\<close> from column \<open>j\<close> down to 0, \<open>clear_rows\<close> for the
  rows from \<open>i\<close> on.\<close>

fun clear_row :: "table \<Rightarrow> int \<Rightarrow> nat \<Rightarrow> cerr + table" where
  "clear_row d i 0 = Inr d"
| "clear_row d i (Suc j) = bindr (set2 d i (int j) (- 1)) (\<lambda>d'. clear_row d' i j)"

fun clear_rows :: "table \<Rightarrow> nat \<Rightarrow> nat \<Rightarrow> cerr + table" where
  "clear_rows d i 0 = Inr d"
| "clear_rows d i (Suc k) = bindr (clear_row d (int i) (Suc k)) (\<lambda>d'. clear_rows d' (Suc i) k)"

definition solve2 :: "nat \<Rightarrow> table \<Rightarrow> table \<Rightarrow> int \<Rightarrow> cerr + int \<times> table" where
  "solve2 fuel p d n = bindr (clear_rows d 0 (nat n)) (\<lambda>d'. solve2_r fuel p 0 0 n d')"

text \<open>\<open>solve3\<close> fills one diagonal after another, from \<open>k = n - 1\<close> down to 0; \<open>solve3_diag\<close> fills the rest of a diagonal
  from row \<open>i\<close> down to 0.\<close>

definition solve3_cell :: "table \<Rightarrow> int \<Rightarrow> int \<Rightarrow> int \<Rightarrow> table \<Rightarrow> cerr + table" where
  "solve3_cell p n i j d =
     bindr (if i + j = n - 1 then get2 p i j
            else bindr (get2 p i j) (\<lambda>x. bindr (get2 d (i + 1) j) (\<lambda>a. bindr (get2 d i (j + 1)) (\<lambda>b. int_add x (max a b))))) (\<lambda>v.
     set2 d i j v)"

fun solve3_diag :: "table \<Rightarrow> int \<Rightarrow> nat \<Rightarrow> nat \<Rightarrow> table \<Rightarrow> cerr + table" where
  "solve3_diag p n 0 j d = Inr d"
| "solve3_diag p n (Suc i) j d = bindr (solve3_cell p n (int i) (int j) d) (\<lambda>d'. solve3_diag p n i (Suc j) d')"

fun solve3_diags :: "table \<Rightarrow> int \<Rightarrow> nat \<Rightarrow> table \<Rightarrow> cerr + table" where
  "solve3_diags p n 0 d = Inr d"
| "solve3_diags p n (Suc k) d = bindr (solve3_diag p n (Suc k) 0 d) (\<lambda>d'. solve3_diags p n k d')"

definition solve3 :: "table \<Rightarrow> table \<Rightarrow> int \<Rightarrow> cerr + int \<times> table" where
  "solve3 p d n = bindr (solve3_diags p n (nat n) d) (\<lambda>d'. bindr (get2 d' 0 0) (\<lambda>r. Inr (r, d')))"

definition test_rec :: table where
  "test_rec = [[1, 2, 1, 20, - 1], [3, 10, 2, - 1, - 1], [4, 3, - 1, - 1, - 1], [4, - 1, - 1, - 1, - 1], [- 1, 0, 0, 0, 0]]"

definition test_max_subarray_main :: "nat \<Rightarrow> table \<Rightarrow> table \<Rightarrow> cerr + int" where
  "test_max_subarray_main fuel D2 D3 =
     bindr (solve1 fuel test_rec) (\<lambda>r. bindr (assertr (r = 24)) (\<lambda>_.
     bindr (solve2 fuel test_rec D2 4) (\<lambda>(r, _). bindr (assertr (r = 24)) (\<lambda>_.
     bindr (solve3 test_rec D3 4) (\<lambda>(r, _). bindr (assertr (r = 24)) (\<lambda>_. Inr 0))))))"

section \<open>Balls falling through a tree\<close>

definition s_maxD :: int where
  "s_maxD = 2 ^ 20"

text \<open>The flags \<open>s_s\<close>: cells 0 to \<open>s_maxD - 1\<close>, all 0 after the \<open>memset\<close>. \<open>drop_ball\<close> is the inner loop from node \<open>k\<close>.\<close>

definition flip :: "(int \<Rightarrow> int) \<Rightarrow> int \<Rightarrow> cerr + (int \<Rightarrow> int)" where
  "flip s k = (if 0 \<le> k \<and> k < s_maxD then Inr (s(k := if s k = 0 then 1 else 0)) else Inl OutOfBounds)"

fun drop_ball :: "nat \<Rightarrow> (int \<Rightarrow> int) \<Rightarrow> int \<Rightarrow> int \<Rightarrow> cerr + (int \<Rightarrow> int) \<times> int" where
  "drop_ball 0 s n k = Inl OutOfFuel"
| "drop_ball (Suc fuel) s n k =
     bindr (flip s k) (\<lambda>s'.
     let k' = (if s' k \<noteq> 0 then 2 * k else 2 * k + 1) in
     if k' > n then Inr (s', k') else drop_ball fuel s' n k')"

function drop_balls :: "nat \<Rightarrow> (int \<Rightarrow> int) \<Rightarrow> int \<Rightarrow> int \<Rightarrow> int \<Rightarrow> int \<Rightarrow> cerr + int" where
  "drop_balls fuel s n i I k =
     (if i \<le> I then
        bindr (drop_ball fuel s n 1) (\<lambda>(s', k').
        bindr (int_add i 1) (\<lambda>_. drop_balls fuel s' n (i + 1) I k'))
      else Inr k)"
  by pat_completeness auto

termination by (relation "measure (\<lambda>(_, _, _, i, I, _). nat (I + 1 - i))") auto

declare drop_balls.simps [simp del]

definition dropping_balls :: "nat \<Rightarrow> int \<Rightarrow> int \<Rightarrow> cerr + int" where
  "dropping_balls fuel D I =
     (if \<not> (D > 0 \<and> I > 0) then Inr (- 1)
      else if 32 \<le> D then Inl BadShift
      else if D = 31 then Inl SignedOverflow
      else bindr (drop_balls fuel (\<lambda>_. 0) (2 ^ nat D - 1) 1 I 0) (\<lambda>k. Inr (k div 2)))"

definition test_balls :: "(int \<times> int \<times> int) list" where
  "test_balls = [(4, 2, 12), (3, 4, 7), (10, 1, 512), (2, 2, 3), (8, 128, 255), (16, 12345, 36358)]"

fun test_tree_loop :: "nat \<Rightarrow> (int \<times> int \<times> int) list \<Rightarrow> cerr + int" where
  "test_tree_loop fuel [] = Inr 0"
| "test_tree_loop fuel ((D, I, r) # bs) = bindr (dropping_balls fuel D I) (\<lambda>v. bindr (assertr (v = r)) (\<lambda>_. test_tree_loop fuel bs))"

definition test_9787302356288_tree_main :: "nat \<Rightarrow> cerr + int" where
  "test_9787302356288_tree_main fuel = test_tree_loop fuel test_balls"

section \<open>The path sums\<close>

text \<open>A path of \<open>length ms + 1\<close> cells from \<open>(i, j)\<close>: each move goes down a row or one column to the right.\<close>

fun path_sum :: "table \<Rightarrow> nat \<Rightarrow> nat \<Rightarrow> bool list \<Rightarrow> int" where
  "path_sum p i j [] = p ! i ! j"
| "path_sum p i j (down # ms) = p ! i ! j + (if down then path_sum p (Suc i) j ms else path_sum p i (Suc j) ms)"

definition best_from :: "table \<Rightarrow> nat \<Rightarrow> nat \<Rightarrow> nat \<Rightarrow> int \<Rightarrow> bool" where
  "best_from p k i j r \<longleftrightarrow> (\<exists>ms. length ms = k \<and> path_sum p i j ms = r) \<and> (\<forall>ms. length ms = k \<longrightarrow> path_sum p i j ms \<le> r)"

text \<open>A triangle of \<open>n\<close> diagonals, with a border of negative numbers; the entries are small enough for the sums.\<close>

definition table_ok :: "table \<Rightarrow> bool" where
  "table_ok p \<longleftrightarrow> length p = maxN \<and> (\<forall>row \<in> set p. length row = maxN)"

definition triangle :: "table \<Rightarrow> nat \<Rightarrow> bool" where
  "triangle p n \<longleftrightarrow> table_ok p \<and> 0 < n \<and> n < maxN
     \<and> (\<forall>i j. i + j < n \<longrightarrow> 0 \<le> p ! i ! j \<and> p ! i ! j < 2 ^ 28) \<and> (\<forall>i j. i + j = n \<longrightarrow> p ! i ! j < 0)"

lemma get2_in: "table_ok p \<Longrightarrow> i < maxN \<Longrightarrow> j < maxN \<Longrightarrow> get2 p (int i) (int j) = Inr (p ! i ! j)"
  by (simp add: get2_def table_ok_def loadi_in)

lemma set2_in:
  "table_ok d \<Longrightarrow> i < maxN \<Longrightarrow> j < maxN \<Longrightarrow> set2 d (int i) (int j) v = Inr (d[i := (d ! i)[j := v]])"
  by (simp add: set2_def table_ok_def loadi_in store_in)

lemma table_ok_set: "table_ok d \<Longrightarrow> i < maxN \<Longrightarrow> table_ok (d[i := (d ! i)[j := v]])"
  by (auto simp: table_ok_def dest: set_update_subset_insert [THEN subsetD])

lemma table_set_nth:
  "table_ok d \<Longrightarrow> i < maxN \<Longrightarrow> j < maxN \<Longrightarrow>
   d[i := (d ! i)[j := v]] ! i' ! j' = (if i' = i \<and> j' = j then v else d ! i' ! j')"
  by (auto simp: table_ok_def nth_list_update)

text \<open>The value of the best path, as the recursion computes it.\<close>

fun best :: "table \<Rightarrow> nat \<Rightarrow> nat \<Rightarrow> nat \<Rightarrow> int" where
  "best p 0 i j = p ! i ! j"
| "best p (Suc k) i j = p ! i ! j + max (best p k (Suc i) j) (best p k i (Suc j))"

lemma best_is_best: "best_from p k i j (best p k i j)"
proof (induction k arbitrary: i j)
  case 0
  then show ?case by (simp add: best_from_def)
next
  case (Suc k)
  let ?b = "best p k (Suc i) j" let ?c = "best p k i (Suc j)"
  obtain ms where ms: "length ms = k" "path_sum p (Suc i) j ms = ?b" using Suc.IH [of "Suc i" j] by (auto simp: best_from_def)
  obtain ms' where ms': "length ms' = k" "path_sum p i (Suc j) ms' = ?c" using Suc.IH [of i "Suc j"] by (auto simp: best_from_def)
  have "\<exists>ns. length ns = Suc k \<and> path_sum p i j ns = best p (Suc k) i j"
    using ms ms' by (intro exI [of _ "if ?c \<le> ?b then True # ms else False # ms'"]) auto
  moreover have "path_sum p i j ns \<le> best p (Suc k) i j" if "length ns = Suc k" for ns
  proof -
    from that obtain m ns' where ns: "ns = m # ns'" "length ns' = k" by (cases ns) auto
    then have "path_sum p (Suc i) j ns' \<le> ?b" "path_sum p i (Suc j) ns' \<le> ?c" using Suc.IH by (auto simp: best_from_def)
    then show ?thesis using ns(1) by auto
  qed
  ultimately show ?case by (simp add: best_from_def)
qed

lemma best_bounds:
  "triangle p n \<Longrightarrow> i + j + k < n \<Longrightarrow> 0 \<le> best p k i j \<and> best p k i j < (int k + 1) * 2 ^ 28"
proof (induction k arbitrary: i j)
  case 0
  then show ?case by (simp add: triangle_def)
next
  case (Suc k)
  have "0 \<le> p ! i ! j" "p ! i ! j < 2 ^ 28" using Suc.prems by (auto simp: triangle_def)
  then show ?case using Suc.IH [of "Suc i" j] Suc.IH [of i "Suc j"] Suc.prems by (auto simp: algebra_simps max_def)
qed

lemma best_in_int: "triangle p n \<Longrightarrow> i + j + k < n \<Longrightarrow> in_int (best p k i j)"
proof -
  assume a: "triangle p n" "i + j + k < n"
  then have "int k + 1 \<le> 4" by (simp add: triangle_def maxN_def)
  then have "(int k + 1) * 2 ^ 28 \<le> 4 * (2 ^ 28 :: int)" by (intro mult_right_mono) auto
  then show ?thesis using best_bounds [OF a] by (simp add: in_int_def)
qed

lemma solve1_r_best:
  "triangle p n \<Longrightarrow> Suc (i + j + k) = n \<Longrightarrow> k + 2 \<le> fuel \<Longrightarrow> solve1_r fuel p (int i) (int j) = Inr (best p k i j)"
proof (induction k arbitrary: i j fuel)
  case 0
  then obtain f where f: "fuel = Suc (Suc f)" by (cases fuel; cases "fuel - 1") auto
  have t: "table_ok p" "n < maxN" using 0 by (auto simp: triangle_def)
  have border: "p ! Suc i ! j < 0" "p ! i ! Suc j < 0" "0 \<le> p ! i ! j" using 0 by (auto simp: triangle_def)
  have "in_int (p ! i ! j)" using best_in_int [OF 0(1), of i j 0] 0(2) by simp
  moreover have "int i + 1 = int (Suc i)" "int j + 1 = int (Suc j)" by simp_all
  ultimately show ?case using f border t 0(2)
    by (simp only: solve1_r.simps get2_in [OF t(1)]) (simp add: get2_in [OF t(1)] int_add_in del: of_nat_Suc)
next
  case (Suc k)
  then obtain f where f: "fuel = Suc f" "k + 2 \<le> f" by (cases fuel) auto
  have t: "table_ok p" "n < maxN" "0 \<le> p ! i ! j" using Suc.prems by (auto simp: triangle_def)
  have "in_int (best p (Suc k) i j)" by (rule best_in_int [OF Suc.prems(1)]) (use Suc.prems(2) in simp)
  moreover have "int i + 1 = int (Suc i)" "int j + 1 = int (Suc j)" by simp_all
  moreover have "solve1_r f p (int (Suc i)) (int j) = Inr (best p k (Suc i) j)" "solve1_r f p (int i) (int (Suc j)) = Inr (best p k i (Suc j))"
    by (rule Suc.IH [OF Suc.prems(1) _ f(2)], use Suc.prems(2) in simp)+
  moreover have "get2 p (int i) (int j) = Inr (p ! i ! j)" using t Suc.prems(2) by (intro get2_in) auto
  ultimately have "solve1_r (Suc f) p (int i) (int j) = int_add (p ! i ! j) (max (best p k (Suc i) j) (best p k i (Suc j)))"
    using t(3) by (simp only: solve1_r.simps bindr_simps not_less [symmetric]) simp
  then show ?case using \<open>in_int (best p (Suc k) i j)\<close> by (simp add: f(1) int_add_in)
qed

lemma clear_row_ok:
  "table_ok d \<Longrightarrow> i < maxN \<Longrightarrow> k \<le> maxN \<Longrightarrow>
   \<exists>d'. clear_row d (int i) k = Inr d' \<and> table_ok d' \<and> (\<forall>i' j'. d' ! i' ! j' = (if i' = i \<and> j' < k then - 1 else d ! i' ! j'))"
proof (induction k arbitrary: d)
  case (Suc k)
  let ?d = "d[i := (d ! i)[k := - 1]]"
  have s: "set2 d (int i) (int k) (- 1) = Inr ?d" "table_ok ?d" using Suc.prems by (simp_all add: set2_in table_ok_set)
  from Suc.IH [OF s(2) Suc.prems(2)] Suc.prems(3) obtain d' where
    "clear_row ?d (int i) k = Inr d'" "table_ok d'" "\<forall>i' j'. d' ! i' ! j' = (if i' = i \<and> j' < k then - 1 else ?d ! i' ! j')" by auto
  then show ?case using s(1) Suc.prems by (auto simp: table_set_nth less_Suc_eq)
qed simp

lemma clear_rows_ok:
  "table_ok d \<Longrightarrow> i + k \<le> maxN \<Longrightarrow>
   \<exists>d'. clear_rows d i k = Inr d' \<and> table_ok d' \<and> (\<forall>i' j'. i \<le> i' \<longrightarrow> i' + j' < i + k \<longrightarrow> d' ! i' ! j' = - 1) \<and> (\<forall>i' j'. i' < i \<longrightarrow> d' ! i' ! j' = d ! i' ! j')"
proof (induction k arbitrary: d i)
  case (Suc k)
  from clear_row_ok [OF Suc.prems(1), of i "Suc k"] Suc.prems(2) obtain d1 where
    d1: "clear_row d (int i) (Suc k) = Inr d1" "table_ok d1" "\<forall>i' j'. d1 ! i' ! j' = (if i' = i \<and> j' < Suc k then - 1 else d ! i' ! j')" by auto
  from Suc.IH [OF d1(2), of "Suc i"] Suc.prems(2) obtain d2 where
    d2: "clear_rows d1 (Suc i) k = Inr d2" "table_ok d2" "\<forall>i' j'. Suc i \<le> i' \<longrightarrow> i' + j' < Suc i + k \<longrightarrow> d2 ! i' ! j' = - 1"
      "\<forall>i' j'. i' < Suc i \<longrightarrow> d2 ! i' ! j' = d1 ! i' ! j'" by auto
  have "d2 ! i' ! j' = - 1" if "i \<le> i'" "i' + j' < i + Suc k" for i' j'
    using that d1(3) d2(3,4) by (cases "i' = i") auto
  moreover have "d2 ! i' ! j' = d ! i' ! j'" if "i' < i" for i' j' using that d1(3) d2(4) by auto
  ultimately show ?case using d1(1) d2(1,2) by auto
qed simp

lemma solve2_best:
  assumes "triangle p n" "table_ok d" "Suc n \<le> fuel"
  shows "\<exists>d'. solve2 fuel p d (int n) = Inr (best p (n - 1) 0 0, d')"
proof -
  have t: "table_ok p" "0 < n" "n < maxN" using assms(1) by (auto simp: triangle_def)
  obtain k where k: "n = Suc k" using t(2) by (cases n) auto
  from clear_rows_ok [OF assms(2), of 0 n] t(3) obtain d1 where
    d1: "clear_rows d 0 n = Inr d1" "table_ok d1" "\<forall>i' j'. i' + j' < n \<longrightarrow> d1 ! i' ! j' = - 1" by auto
  have g: "get2 d1 0 0 = Inr (- 1)" using get2_in [OF d1(2), of 0 0] d1(3) t(2) by (simp add: maxN_def)
  have st: "\<exists>d'. set2 d1 0 0 v = Inr d'" for v using set2_in [OF d1(2), of 0 0 v] by (simp add: maxN_def)
  have "solve1_r (Suc fuel) p 0 0 = Inr (best p k 0 0)" using solve1_r_best [OF assms(1), of 0 0 k "Suc fuel"] assms(3) k by simp
  then have r: "bindr (get2 p 0 0) (\<lambda>x. if x < 0 then Inr 0 else
     bindr (solve1_r fuel p (0 + 1) 0) (\<lambda>a. bindr (solve1_r fuel p 0 (0 + 1)) (\<lambda>b. int_add x (max a b)))) = Inr (best p k 0 0)" by simp
  show ?thesis
  proof (cases "get2 p 0 0")
    case (Inr x)
    obtain d' where "set2 d1 0 0 (best p k 0 0) = Inr d'" using st by blast
    then have "solve2 fuel p d (int n) = Inr (best p k 0 0, d')"
      using r t(2) by (simp add: solve2_def solve2_r_def g d1(1) Inr)
    then show ?thesis using k by simp
  qed (use r in simp)
qed

text \<open>The table of \<open>solve3\<close> after the diagonals below \<open>k\<close> cells.\<close>

definition diags_done :: "table \<Rightarrow> nat \<Rightarrow> nat \<Rightarrow> table \<Rightarrow> bool" where
  "diags_done p n k d \<longleftrightarrow> table_ok d \<and> (\<forall>i j. k \<le> i + j \<longrightarrow> i + j < n \<longrightarrow> d ! i ! j = best p (n - 1 - (i + j)) i j)"

lemma solve3_cell_best:
  assumes "triangle p n" "diags_done p n (Suc (i + j)) d" "i + j < n"
  shows "solve3_cell p (int n) (int i) (int j) d = Inr (d[i := (d ! i)[j := best p (n - 1 - (i + j)) i j]])"
proof -
  have t: "table_ok p" "n < maxN" "table_ok d" using assms by (auto simp: triangle_def diags_done_def)
  have b: "i < maxN" "j < maxN" "Suc i < maxN" "Suc j < maxN" using assms(3) t(2) by auto
  show ?thesis
  proof (cases "Suc (i + j) = n")
    case True
    then have "int i + int j = int n - 1" "n - 1 - (i + j) = 0" by auto
    then show ?thesis by (simp add: solve3_cell_def get2_in [OF t(1)] set2_in [OF t(3)] b)
  next
    case False
    define k where "k = n - 1 - Suc (i + j)"
    have k: "n - 1 - (i + j) = Suc k" using False assms(3) by (simp add: k_def)
    have "d ! Suc i ! j = best p k (Suc i) j" "d ! i ! Suc j = best p k i (Suc j)"
      using assms(2,3) False by (auto simp: diags_done_def k_def)
    then have "get2 d (int (Suc i)) (int j) = Inr (best p k (Suc i) j)" "get2 d (int i) (int (Suc j)) = Inr (best p k i (Suc j))"
      using b by (simp_all only: get2_in [OF t(3)])
    then have "get2 d (int i + 1) (int j) = Inr (best p k (Suc i) j)" "get2 d (int i) (int j + 1) = Inr (best p k i (Suc j))" by (simp_all add: add.commute)
    moreover have "in_int (best p (Suc k) i j)" by (rule best_in_int [OF assms(1)]) (use k assms(3) in simp)
    moreover have "int i + int j \<noteq> int n - 1" using False by linarith
    ultimately have "solve3_cell p (int n) (int i) (int j) d = set2 d (int i) (int j) (best p (Suc k) i j)"
      by (simp add: solve3_cell_def get2_in [OF t(1)] b int_add_in)
    then show ?thesis unfolding k set2_in [OF t(3) b(1,2)] .
  qed
qed

lemma solve3_diag_best:
  "triangle p n \<Longrightarrow> diags_done p n (i + j) d \<Longrightarrow> i + j \<le> n \<Longrightarrow>
   (\<forall>i' j'. i \<le> i' \<longrightarrow> Suc (i' + j') = i + j \<longrightarrow> d ! i' ! j' = best p (n - (i + j)) i' j') \<Longrightarrow>
   \<exists>d'. solve3_diag p (int n) i j d = Inr d' \<and> diags_done p n (i + j - 1) d'"
proof (induction i arbitrary: j d)
  case 0
  have "d ! i' ! j' = best p (n - 1 - (i' + j')) i' j'" if "j - 1 \<le> i' + j'" "i' + j' < n" for i' j'
  proof (cases "j \<le> i' + j'")
    case True
    then show ?thesis using 0 that by (simp add: diags_done_def)
  next
    case False
    then have "Suc (i' + j') = j" using that by auto
    then show ?thesis using 0(4) by auto
  qed
  then show ?case using 0(2) by (simp add: diags_done_def)
next
  case (Suc i)
  let ?d = "d[i := (d ! i)[j := best p (n - 1 - (i + j)) i j]]"
  have c: "solve3_cell p (int n) (int i) (int j) d = Inr ?d" using solve3_cell_best [OF Suc.prems(1), of i j d] Suc.prems by simp
  have t: "table_ok d" "i < maxN" "j < maxN" using Suc.prems by (auto simp: diags_done_def triangle_def)
  have n: "?d ! i' ! j' = (if i' = i \<and> j' = j then best p (n - 1 - (i + j)) i j else d ! i' ! j')" for i' j' by (rule table_set_nth [OF t])
  have dd: "diags_done p n (i + Suc j) ?d" using Suc.prems(2) table_ok_set [OF t(1,2)] unfolding diags_done_def n by simp
  have row: "\<forall>i' j'. i \<le> i' \<longrightarrow> Suc (i' + j') = i + Suc j \<longrightarrow> ?d ! i' ! j' = best p (n - (i + Suc j)) i' j'"
  proof (intro allI impI)
    fix i' j' assume a: "i \<le> i'" "Suc (i' + j') = i + Suc j"
    show "?d ! i' ! j' = best p (n - (i + Suc j)) i' j'"
    proof (cases "i' = i")
      case True
      then show ?thesis using a n by simp
    next
      case False
      then show ?thesis using a n Suc.prems(4) by simp
    qed
  qed
  from Suc.IH [OF Suc.prems(1) dd _ row] Suc.prems(3) c show ?case by auto
qed

lemma solve3_diags_best:
  "triangle p n \<Longrightarrow> diags_done p n k d \<Longrightarrow> k \<le> n \<Longrightarrow> \<exists>d'. solve3_diags p (int n) k d = Inr d' \<and> diags_done p n 0 d'"
proof (induction k arbitrary: d)
  case (Suc k)
  have "\<forall>i' j'. Suc k \<le> i' \<longrightarrow> Suc (i' + j') = Suc k + 0 \<longrightarrow> d ! i' ! j' = best p (n - (Suc k + 0)) i' j'" by auto
  from solve3_diag_best [OF Suc.prems(1), of "Suc k" 0 d, OF _ _ this] Suc.prems obtain d' where
    "solve3_diag p (int n) (Suc k) 0 d = Inr d'" "diags_done p n k d'" by auto
  then show ?case using Suc.IH [OF Suc.prems(1), of d'] Suc.prems(3) by (auto simp del: solve3_diag.simps)
qed auto

lemma solve3_best:
  assumes "triangle p n" "table_ok d"
  shows "\<exists>d'. solve3 p d (int n) = Inr (best p (n - 1) 0 0, d')"
proof -
  have "diags_done p n n d" using assms(2) by (simp add: diags_done_def)
  from solve3_diags_best [OF assms(1) this] obtain d' where d': "solve3_diags p (int n) n d = Inr d'" "diags_done p n 0 d'" by auto
  moreover have "get2 d' 0 0 = Inr (best p (n - 1) 0 0)" using get2_in [of d' 0 0] d'(2) assms(1) by (simp add: diags_done_def triangle_def maxN_def)
  ultimately show ?thesis by (simp add: solve3_def)
qed

text \<open>C20: on every triangle of at most 4 diagonals of non-negative numbers below \<open>2 ^ 28\<close>, with a border of negative numbers, the plain recursion, the one
  with a table and the bottom-up loop
  return the same number, whatever their tables held before, and that number is the largest sum of a path from
  the corner to the last diagonal whose steps go to the next row or to the next column, as in the code. (The recurrence in the comment of the file steps to the next row
  in either case, see \<open>comment_recurrence_differs\<close> below.)\<close>

theorem triangle_solvers_agree:
  assumes "triangle p n" "table_ok d2" "table_ok d3" "Suc n \<le> fuel"
  shows "\<exists>r d2' d3'. solve1 fuel p = Inr r \<and> solve2 fuel p d2 (int n) = Inr (r, d2') \<and> solve3 p d3 (int n) = Inr (r, d3')
    \<and> best_from p (n - 1) 0 0 r"
proof -
  have "solve1 fuel p = Inr (best p (n - 1) 0 0)"
    using solve1_r_best [OF assms(1), of 0 0 "n - 1" fuel] assms(1,4) by (simp add: solve1_def triangle_def)
  then show ?thesis using solve2_best [OF assms(1,2,4)] solve3_best [OF assms(1,3)] best_is_best by blast
qed

lemma less_5: "i < (5 :: nat) \<longleftrightarrow> i = 0 \<or> i = 1 \<or> i = 2 \<or> i = 3 \<or> i = 4"
  by auto

lemma test_rec_triangle: "triangle test_rec 4"
proof -
  have cell: "0 \<le> test_rec ! i ! j \<and> test_rec ! i ! j < 2 ^ 28" if "i + j < 4" for i j
  proof -
    have "i < 5" "j < 5" using that by auto
    then show ?thesis using that unfolding less_5 by (elim disjE) (simp_all add: test_rec_def)
  qed
  have border: "test_rec ! i ! j < 0" if "i + j = 4" for i j
  proof -
    have "i < 5" "j < 5" using that by auto
    then show ?thesis using that unfolding less_5 by (elim disjE) (simp_all add: test_rec_def)
  qed
  show ?thesis unfolding triangle_def using cell border by (simp add: table_ok_def test_rec_def maxN_def)
qed

lemma test_rec_best: "best test_rec 3 0 0 = 24"
  by (simp add: test_rec_def numeral_3_eq_3)

text \<open>The recurrence of the comment, \<open>d[i][j] = p[i][j] + max(d[i + 1][j], d[i + 1][j + 1])\<close>, with 0 at a negative number as in the code. On the
  data of the test it gives 14, and the code returns 24, as the test asks.\<close>

fun comment_best :: "nat \<Rightarrow> table \<Rightarrow> nat \<Rightarrow> nat \<Rightarrow> int" where
  "comment_best 0 p i j = 0"
| "comment_best (Suc fuel) p i j =
     (if p ! i ! j < 0 then 0 else p ! i ! j + max (comment_best fuel p (Suc i) j) (comment_best fuel p (Suc i) (Suc j)))"

lemma comment_recurrence_differs: "comment_best 5 test_rec 0 0 = 14" "solve1 5 test_rec = Inr 24"
  by code_simp+

theorem triangle_solvers_agree_witness:
  "\<exists>r d2' d3'. solve1 5 test_rec = Inr r \<and> solve2 5 test_rec test_rec 4 = Inr (r, d2') \<and> solve3 test_rec test_rec 4 = Inr (r, d3')
    \<and> best_from test_rec 3 0 0 r"
proof -
  have "table_ok test_rec" using test_rec_triangle by (simp add: triangle_def)
  then show ?thesis using triangle_solvers_agree [OF test_rec_triangle, of test_rec test_rec 5] by simp
qed

lemma test_max_subarray_passes:
  assumes "table_ok D2" "table_ok D3"
  shows "test_max_subarray_main 5 D2 D3 = Inr 0"
proof -
  have "solve1 5 test_rec = Inr 24" using solve1_r_best [OF test_rec_triangle, of 0 0 3 5] test_rec_best by (simp add: solve1_def)
  then show ?thesis using solve2_best [OF test_rec_triangle assms(1), of 5] solve3_best [OF test_rec_triangle assms(2)] test_rec_best
    by (auto simp: test_max_subarray_main_def)
qed

section \<open>Where the last ball ends\<close>

text \<open>The number of the first \<open>i\<close> balls that pass node \<open>k\<close>: every node sends its balls to the left and to the right in
  turn, the first to the left.\<close>

fun visits :: "nat \<Rightarrow> nat \<Rightarrow> nat" where
  "visits i k = (if k \<le> 1 then i else if even k then (visits i (k div 2) + 1) div 2 else visits i (k div 2) div 2)"

declare visits.simps [simp del]

lemma visits_root [simp]: "visits i (Suc 0) = i"
  by (simp add: visits.simps)

lemma visits_left [simp]: "0 < k \<Longrightarrow> visits i (2 * k) = (visits i k + 1) div 2"
  by (subst visits.simps) simp

lemma visits_right [simp]: "0 < k \<Longrightarrow> visits i (Suc (2 * k)) = visits i k div 2"
  by (subst visits.simps) simp

text \<open>The leaf the \<open>c\<close>-th visitor of node \<open>k\<close> reaches in \<open>d\<close> more steps.\<close>

fun ball_leaf :: "nat \<Rightarrow> nat \<Rightarrow> nat \<Rightarrow> nat" where
  "ball_leaf 0 k c = k"
| "ball_leaf (Suc d) k c = (if odd c then ball_leaf d (2 * k) ((c + 1) div 2) else ball_leaf d (2 * k + 1) (c div 2))"

definition below :: "nat \<Rightarrow> nat \<Rightarrow> bool" where
  "below k m \<longleftrightarrow> (\<exists>d. m div 2 ^ d = k)"

lemma halve: "m div 2 ^ Suc d = m div 2 ^ d div 2" for m :: nat
  using div_mult2_eq [of m "2 ^ d" 2] by (simp only: power_Suc mult.commute)

lemma below_refl [simp]: "below k k"
  unfolding below_def by (rule exI [of _ 0]) simp

lemma below_step: "below k m \<longleftrightarrow> m = k \<or> below (2 * k) m \<or> below (Suc (2 * k)) m"
proof
  assume "below k m"
  then obtain d where d: "m div 2 ^ d = k" by (auto simp: below_def)
  show "m = k \<or> below (2 * k) m \<or> below (Suc (2 * k)) m"
  proof (cases d)
    case (Suc d')
    then have "m div 2 ^ d' div 2 = k" using d by (simp only: halve)
    then have "m div 2 ^ d' = 2 * k \<or> m div 2 ^ d' = Suc (2 * k)" by arith
    then show ?thesis unfolding below_def by blast
  qed (use d in simp)
next
  have up: "below k m" if "below c m" "c div 2 = k" for c
  proof -
    from that(1) obtain d where "m div 2 ^ d = c" by (auto simp: below_def)
    then have "m div 2 ^ Suc d = k" using that(2) by (simp only: halve)
    then show ?thesis unfolding below_def by blast
  qed
  assume "m = k \<or> below (2 * k) m \<or> below (Suc (2 * k)) m"
  then show "below k m" using up [of "2 * k"] up [of "Suc (2 * k)"] by auto
qed

lemma below_le: "below k m \<Longrightarrow> k \<le> m"
  by (auto simp: below_def)

text \<open>Siblings have nothing in common: both \<open>2 ^ d\<close>-fold halves are in the same level or in different ones.\<close>

lemma below_root: "0 < m \<Longrightarrow> below 1 m"
proof (induction m rule: less_induct)
  case (less m)
  show ?case
  proof (cases "m = 1")
    case False
    then have "below 1 (m div 2)" using less.IH [of "m div 2"] less.prems by auto
    then obtain d where "m div 2 div 2 ^ d = 1" by (auto simp: below_def)
    then have "m div 2 ^ Suc d = 1" by (simp add: div_mult2_eq)
    then show ?thesis unfolding below_def by blast
  qed simp
qed

lemma below_disjoint:
  assumes "below (2 * k) m" "below (Suc (2 * k)) m" "0 < k"
  shows False
proof -
  have ne: "False" if "a < b" "m div 2 ^ a = c" "m div 2 ^ b = c'" "c div 2 = k" "c' div 2 = k" for a b c c'
  proof -
    obtain e where e: "b = a + Suc e" using \<open>a < b\<close> less_iff_Suc_add [of a b] by auto
    have "m div 2 ^ b = m div 2 ^ a div (2 * 2 ^ e)" unfolding e power_add power_Suc by (rule div_mult2_eq)
    then have "c' = c div 2 div 2 ^ e" unfolding that(2,3) by (simp only: div_mult2_eq)
    then have "c' = k div 2 ^ e" using that(4) by simp
    then have "c' \<le> k" by simp
    moreover have "k \<le> c' div 2" using that(5) by simp
    ultimately show False using assms(3) by arith
  qed
  obtain a b where ab: "m div 2 ^ a = 2 * k" "m div 2 ^ b = Suc (2 * k)" using assms(1,2) by (auto simp: below_def)
  consider "a < b" | "b < a" | "a = b" by linarith
  then show False
  proof cases
    case 1
    then show False using ne [OF 1 ab] by simp
  next
    case 2
    then show False using ne [OF 2 ab(2,1)] by simp
  next
    case 3
    then show False using ab by simp
  qed
qed

text \<open>A ball that takes the other branch leaves the counts below a node alone.\<close>

lemma visits_same: "visits i k = visits i' k \<Longrightarrow> below k m \<Longrightarrow> 0 < k \<Longrightarrow> visits i m = visits i' m"
proof -
  assume a: "visits i k = visits i' k" "below k m" "0 < k"
  then obtain d where "m div 2 ^ d = k" by (auto simp: below_def)
  then show ?thesis using a(1,3)
  proof (induction d arbitrary: k)
    case (Suc d)
    let ?c = "m div 2 ^ d"
    have "?c div 2 = k" using Suc.prems(1) by (simp only: halve)
    then have "?c = 2 * k \<or> ?c = Suc (2 * k)" by arith
    then have "visits i ?c = visits i' ?c" "0 < ?c" using Suc.prems(2,3) by auto
    then show ?case using Suc.IH [of ?c] by simp
  qed simp
qed

text \<open>The flags while ball \<open>Suc i\<close> is at node \<open>k\<close>: those at and below \<open>k\<close> have not seen it yet.\<close>

definition flags_at :: "nat \<Rightarrow> nat \<Rightarrow> nat \<Rightarrow> (int \<Rightarrow> int) \<Rightarrow> bool" where
  "flags_at n i k s \<longleftrightarrow> (\<forall>m. 0 < m \<longrightarrow> m \<le> n \<longrightarrow> s (int m) = int ((if below k m then visits i m else visits (Suc i) m) mod 2))"

lemma flip_at:
  assumes "flags_at n i k s" "0 < k" "k \<le> n" "int n < s_maxD" "visits (Suc i) k = Suc (visits i k)"
  obtains s' where "flip s (int k) = Inr s'" "s' (int k) = int (visits (Suc i) k mod 2)" "\<forall>m. m \<noteq> k \<longrightarrow> s' (int m) = s (int m)"
proof
  let ?s = "s(int k := if s (int k) = 0 then 1 else 0)"
  show "flip s (int k) = Inr ?s" using assms(3,4) by (simp add: flip_def)
  have "s (int k) = int (visits i k mod 2)" using assms by (simp add: flags_at_def)
  then show "?s (int k) = int (visits (Suc i) k mod 2)" unfolding assms(5) by (auto simp: mod_Suc)
  show "\<forall>m. m \<noteq> k \<longrightarrow> ?s (int m) = s (int m)" by simp
qed

lemma flags_child:
  assumes "flags_at n i k s" "0 < k" "visits (Suc i) k = Suc (visits i k)"
    "s' (int k) = int (visits (Suc i) k mod 2)" "\<forall>m. m \<noteq> k \<longrightarrow> s' (int m) = s (int m)"
    and c: "c = (if odd (visits (Suc i) k) then 2 * k else Suc (2 * k))"
  shows "flags_at n i c s' \<and> visits (Suc i) c = Suc (visits i c)"
proof -
  let ?c' = "if odd (visits (Suc i) k) then Suc (2 * k) else 2 * k"
  have grow: "visits (Suc i) c = Suc (visits i c)" using assms(2,3) c by (auto elim!: oddE evenE)
  have same: "visits (Suc i) ?c' = visits i ?c'" using assms(2,3) by (auto elim!: oddE evenE)
  have "s' (int m) = int ((if below c m then visits i m else visits (Suc i) m) mod 2)" if m: "0 < m" "m \<le> n" for m
  proof (cases "m = k")
    case True
    have "\<not> below c k" using below_le [of c k] c assms(2) by (auto split: if_splits)
    then show ?thesis using True assms(4) by simp
  next
    case False
    then have sm: "s' (int m) = int ((if below k m then visits i m else visits (Suc i) m) mod 2)"
      using assms(1,5) m by (simp add: flags_at_def)
    consider "\<not> below k m" "\<not> below c m" | "below k m" "below c m" | "below k m" "below ?c' m" "\<not> below c m"
      using below_step [of k m] False c below_disjoint [OF _ _ assms(2), of m] by (auto split: if_splits)
    then show ?thesis
    proof cases
      case 3
      have "visits (Suc i) m = visits i m" by (rule visits_same [OF same 3(2)]) (use assms(2) in auto)
      then show ?thesis using sm 3 by simp
    qed (use sm in auto)
  qed
  then show ?thesis using grow by (simp add: flags_at_def)
qed

lemma drop_ball_spec:
  assumes "n = 2 ^ (d + e) - 1" "int n < s_maxD" "flags_at n i k s" "visits (Suc i) k = Suc (visits i k)"
    "2 ^ d \<le> k" "k < 2 ^ Suc d" "0 < e" "e \<le> fuel"
  shows "\<exists>s' k'. drop_ball fuel s (int n) (int k) = Inr (s', int k') \<and> k' div 2 = ball_leaf (e - 1) k (visits (Suc i) k)
    \<and> (\<forall>m. 0 < m \<longrightarrow> m \<le> n \<longrightarrow> s' (int m) = int (visits (Suc i) m mod 2))"
  using assms
proof (induction fuel arbitrary: d e k s)
  case (Suc fuel)
  have kpos: "0 < k" using Suc.prems(5) by (metis gr0I not_le zero_less_numeral zero_less_power)
  obtain e' where e: "e = Suc e'" using Suc.prems(7) by (cases e) auto
  have "(2 :: nat) ^ Suc d \<le> 2 ^ (d + e)" using e by (intro power_increasing) auto
  then have kn: "k \<le> n" using Suc.prems(1,6) by linarith
  obtain s' where s': "flip s (int k) = Inr s'" "s' (int k) = int (visits (Suc i) k mod 2)" "\<forall>m. m \<noteq> k \<longrightarrow> s' (int m) = s (int m)"
    using flip_at [OF Suc.prems(3) kpos kn Suc.prems(2,4)] by blast
  define c where "c = (if odd (visits (Suc i) k) then 2 * k else Suc (2 * k))"
  have ch: "flags_at n i c s'" "visits (Suc i) c = Suc (visits i c)"
    using flags_child [OF Suc.prems(3) kpos Suc.prems(4) s'(2,3) c_def] by auto
  have ck: "(if s' (int k) \<noteq> 0 then 2 * int k else 2 * int k + 1) = int c" using s'(2) by (auto simp: c_def odd_iff_mod_2_eq_one)
  have c_lo: "2 ^ Suc d \<le> c" "c < 2 ^ Suc (Suc d)" using Suc.prems(5,6) by (auto simp: c_def)
  have step: "drop_ball (Suc fuel) s (int n) (int k) = (if int n < int c then Inr (s', int c) else drop_ball fuel s' (int n) (int c))"
    by (simp only: drop_ball.simps s'(1) bindr_simps Let_def ck)
  have leaf: "ball_leaf e' k (visits (Suc i) k) = (if e' = 0 then k else ball_leaf (e' - 1) c (visits (Suc i) c))"
    using kpos by (cases e') (auto simp: c_def)
  show ?case
  proof (cases "e' = 0")
    case True
    then have "n = 2 ^ Suc d - 1" using Suc.prems(1) e by simp
    moreover have "0 < (2 :: nat) ^ Suc d" by simp
    ultimately have big: "n < c" using c_lo(1) by linarith
    have "c div 2 = k" by (auto simp: c_def)
    moreover have "s' (int m) = int (visits (Suc i) m mod 2)" if "0 < m" "m \<le> n" for m
      using ch(1) that big below_le [of c m] by (auto simp: flags_at_def)
    ultimately show ?thesis using step big leaf True e by auto
  next
    case False
    have "(2 :: nat) ^ Suc (Suc d) \<le> 2 ^ (d + e)" using e False by (intro power_increasing) auto
    then have le: "c \<le> n" using Suc.prems(1) c_lo(2) by linarith
    have n': "n = 2 ^ (Suc d + e') - 1" using Suc.prems(1) e by simp
    show ?thesis using Suc.IH [OF n' Suc.prems(2) ch c_lo] step le leaf False e Suc.prems(8) by auto
  qed
qed simp

lemma drop_balls_spec:
  assumes n: "n = 2 ^ Suc d - 1" "int n < s_maxD" and I: "int I < INT_MAX" and fuel: "Suc d \<le> fuel"
    and "i \<le> I" "\<forall>m. 0 < m \<longrightarrow> m \<le> n \<longrightarrow> s (int m) = int (visits i m mod 2)" "i = I \<longrightarrow> k div 2 = int (ball_leaf d 1 I)"
  shows "\<exists>k'. drop_balls fuel s (int n) (int (Suc i)) (int I) k = Inr k' \<and> k' div 2 = int (ball_leaf d 1 I)"
  using assms(5-)
proof (induction "I - i" arbitrary: i s k)
  case 0
  then show ?case by (subst drop_balls.simps) simp
next
  case (Suc x)
  then have lt: "i < I" by simp
  have "flags_at n i 1 s" using Suc.prems(2) below_root by (simp add: flags_at_def)
  from drop_ball_spec [of n 0 "Suc d" i 1 s fuel, OF _ n(2) this] n(1) fuel obtain s' k' where
    b: "drop_ball fuel s (int n) 1 = Inr (s', int k')" "k' div 2 = ball_leaf d 1 (Suc i)"
      "\<forall>m. 0 < m \<longrightarrow> m \<le> n \<longrightarrow> s' (int m) = int (visits (Suc i) m mod 2)" by auto
  have add: "int_add (int (Suc i)) 1 = Inr (int (Suc (Suc i)))" using lt I by (simp add: int_add_def int_res_def in_int_def)
  have "drop_balls fuel s (int n) (int (Suc i)) (int I) k = drop_balls fuel s' (int n) (int (Suc (Suc i))) (int I) (int k')"
    using lt b(1) add by (subst drop_balls.simps) (simp add: add.commute)
  moreover have "Suc i = I \<longrightarrow> int k' div 2 = int (ball_leaf d 1 I)" using b(2) by (metis of_nat_numeral zdiv_int)
  ultimately show ?case using Suc.hyps(1) [of "Suc i" s' "int k'"] Suc.hyps(2) lt b(3) by auto
qed

lemma dropping_balls_eq:
  assumes "0 < D" "D \<le> 20" "0 < I" "int I < INT_MAX" "D \<le> fuel"
  shows "dropping_balls fuel (int D) (int I) = Inr (int (ball_leaf (D - 1) 1 I))"
proof -
  obtain d where d: "D = Suc d" using assms(1) by (cases D) auto
  define n where "n = (2 :: nat) ^ Suc d - 1"
  have "(2 :: int) ^ Suc d \<le> 2 ^ 20" using assms(2) d by (intro power_increasing) auto
  moreover have n: "int n = 2 ^ Suc d - 1" by (simp add: n_def of_nat_diff)
  ultimately have "int n < s_maxD" unfolding s_maxD_def by linarith
  moreover have "visits 0 m = 0" for m
  proof (induction m rule: less_induct)
    case (less m)
    then show ?case using visits.simps [of 0 m] by (auto intro!: less.IH)
  qed
  ultimately obtain k' where "drop_balls fuel (\<lambda>_. 0) (int n) 1 (int I) 0 = Inr k'" "k' div 2 = int (ball_leaf d 1 I)"
    using drop_balls_spec [OF n_def _ assms(4), of fuel 0 "\<lambda>_. 0" 0] assms(3,5) d by auto
  moreover have "nat (int D) = Suc d" using d by simp
  ultimately show ?thesis using assms(2,3) d unfolding dropping_balls_def n [symmetric] by (simp add: n)
qed

text \<open>C21: simulating all the balls gives the leaf that the last ball reaches when only the number of its predecessors
  at each node is followed: odd visitors go left, even ones right. The tree must fit the table of flags, and
  the count of balls must leave room for the last increment.\<close>

theorem dropping_balls_leaf:
  assumes "0 < D" "D \<le> 20" "0 < I" "int I < INT_MAX" "D \<le> fuel"
  shows "dropping_balls fuel (int D) (int I) = Inr (int (ball_leaf (D - 1) 1 I))"
  using assms by (rule dropping_balls_eq)

lemma ball_leaf_numeral:
  "ball_leaf (numeral w) k c =
   (if odd c then ball_leaf (pred_numeral w) (2 * k) ((c + 1) div 2) else ball_leaf (pred_numeral w) (2 * k + 1) (c div 2))"
  by (simp add: numeral_eq_Suc)

theorem dropping_balls_leaf_witness: "dropping_balls 20 4 2 = Inr 12 \<and> dropping_balls 20 16 12345 = Inr 36358"
  using dropping_balls_leaf [of 4 2 20] dropping_balls_leaf [of 16 12345 20] by (simp add: ball_leaf_numeral)

lemma test_balls_pass: "test_9787302356288_tree_main 20 = Inr 0"
  using dropping_balls_eq [of 4 2 20] dropping_balls_eq [of 3 4 20] dropping_balls_eq [of 10 1 20] dropping_balls_eq [of 2 2 20]
    dropping_balls_eq [of 8 128 20] dropping_balls_eq [of 16 12345 20]
  by (simp add: test_9787302356288_tree_main_def test_balls_def ball_leaf_numeral)

end
