(* ===== verification/Rod_Cutting.thy ===== *)
theory Rod_Cutting
  imports C_Prelude
begin

text \<open>
  The rod-cutting programs of \<open>algs/intro_to_algs3th/dynamic_programming.cpp\<close>: the recursive \<open>cut_rod\<close>, the memoising
  \<open>bottom_up_cut_rod\<close> and its template variant \<open>bottom_up_cut_rod_it\<close> that also returns the first cuts.

  \<open>cut_rod_solutions_optimal\<close> shows that the template variant returns the largest revenue of any way to cut the rod and that
  the loop of the test reads such a way off its cuts. \<open>cut_rod_last\<close> and \<open>bottom_up_overflow\<close>
  show what the other two do instead.
\<close>

section \<open>Ordered maps\<close>

text \<open>\<open>std::map<int, int>\<close> as the list of its pairs in the order of the keys. Reading an absent key with
  \<open>[]\<close> gives 0.\<close>

type_synonym imap = "(int \<times> int) list"

fun map_set :: "imap \<Rightarrow> int \<Rightarrow> int \<Rightarrow> imap" where
  "map_set [] k v = [(k, v)]"
| "map_set ((k', v') # m) k v = (if k < k' then (k, v) # (k', v') # m else if k = k' then (k, v) # m else (k', v') # map_set m k v)"

definition map_at :: "imap \<Rightarrow> int \<Rightarrow> int" where
  "map_at m k = (case map_of m k of None \<Rightarrow> 0 | Some v \<Rightarrow> v)"

section \<open>The three programs\<close>

text \<open>\<open>cut_loop\<close> is the loop of \<open>cut_rod\<close> from \<open>i = i' + 1\<close> on.\<close>

function cut_rod :: "int list \<Rightarrow> int \<Rightarrow> cerr + int" and cut_loop :: "int list \<Rightarrow> int \<Rightarrow> nat \<Rightarrow> int \<Rightarrow> cerr + int" where
  "cut_rod p n = (if n = 0 then Inr 0 else cut_loop p n 0 INT_MIN)"
| "cut_loop p n i' q =
     (if int (Suc i') \<le> n then
        bindr (loadi p (int (Suc i') - 1)) (\<lambda>x.
        bindr (cut_rod p (n - int (Suc i'))) (\<lambda>c. cut_loop p n (Suc i') (max x c)))
      else Inr q)"
  by pat_completeness auto

termination
  by (relation "measures [\<lambda>x. case x of Inl (p, n) \<Rightarrow> nat n | Inr (p, n, i', q) \<Rightarrow> nat n,
                          \<lambda>x. case x of Inl (p, n) \<Rightarrow> nat n + 2 | Inr (p, n, i', q) \<Rightarrow> nat (n + 1 - int i')]") auto

declare cut_rod.simps [simp del] cut_loop.simps [simp del]

function bottom_up_inner :: "int list \<Rightarrow> imap \<Rightarrow> int \<Rightarrow> int \<Rightarrow> int \<Rightarrow> cerr + int" where
  "bottom_up_inner p r j i q =
     (if i \<le> j then
        bindr (loadi p (i - 1)) (\<lambda>x. bindr (int_add x (map_at r (j - i))) (\<lambda>v. bottom_up_inner p r j (i + 1) (max q v)))
      else Inr q)"
  by pat_completeness auto

termination by (relation "measure (\<lambda>(_, _, j, i, _). nat (j + 1 - i))") auto

function bottom_up_outer :: "int list \<Rightarrow> int \<Rightarrow> int \<Rightarrow> imap \<Rightarrow> cerr + imap" where
  "bottom_up_outer p n j r =
     (if j \<le> n then bindr (bottom_up_inner p r j 1 INT_MAX) (\<lambda>q. bottom_up_outer p n (j + 1) (map_set r j q)) else Inr r)"
  by pat_completeness auto

termination by (relation "measure (\<lambda>(_, n, j, _). nat (n + 1 - j))") auto

definition bottom_up_cut_rod :: "int list \<Rightarrow> int \<Rightarrow> cerr + int" where
  "bottom_up_cut_rod p n = bindr (bottom_up_outer p n 1 (map_set [] 0 0)) (\<lambda>r. Inr (map_at r n))"

function cuts_inner :: "int list \<Rightarrow> imap \<Rightarrow> int \<Rightarrow> int \<Rightarrow> int \<Rightarrow> imap \<Rightarrow> cerr + int \<times> imap" where
  "cuts_inner p r j i q s =
     (if i \<le> j then
        bindr (loadi p (i - 1)) (\<lambda>x. bindr (int_add x (map_at r (j - i))) (\<lambda>v.
        if q < v then cuts_inner p r j (i + 1) v (map_set s j i) else cuts_inner p r j (i + 1) q s))
      else Inr (q, s))"
  by pat_completeness auto

termination by (relation "measure (\<lambda>(_, _, j, i, _, _). nat (j + 1 - i))") auto

function cuts_outer :: "int list \<Rightarrow> int \<Rightarrow> int \<Rightarrow> imap \<Rightarrow> imap \<Rightarrow> cerr + imap \<times> imap" where
  "cuts_outer p n j r s =
     (if j \<le> n then bindr (cuts_inner p r j 1 INT_MIN s) (\<lambda>(q, s'). cuts_outer p n (j + 1) (map_set r j q) s') else Inr (r, s))"
  by pat_completeness auto

termination by (relation "measure (\<lambda>(_, n, j, _, _). nat (n + 1 - j))") auto

declare bottom_up_inner.simps [simp del] bottom_up_outer.simps [simp del] cuts_inner.simps [simp del] cuts_outer.simps [simp del]

text \<open>The values of \<open>s\<close> are written through the iterator in the order of its keys; the test passes a
  \<open>back_inserter\<close> into a vector, so that they are appended to \<open>out\<close>.\<close>

definition bottom_up_cut_rod_it :: "int list \<Rightarrow> int \<Rightarrow> int list \<Rightarrow> cerr + int \<times> int list" where
  "bottom_up_cut_rod_it p n out = bindr (cuts_outer p n 1 (map_set [] 0 0) []) (\<lambda>(r, s). Inr (map_at r n, out @ map snd s))"

text \<open>The loop of the test that prints the cuts; \<open>n\<close> is a \<open>size_t\<close>, \<open>solutions[n - 1]\<close> an \<open>int\<close> converted to it.\<close>

fun print_cuts :: "nat \<Rightarrow> int list \<Rightarrow> nat \<Rightarrow> cerr + int list" where
  "print_cuts 0 sols n = Inl OutOfFuel"
| "print_cuts (Suc fuel) sols n =
     (if 0 < n then bindr (load sols (n - 1)) (\<lambda>x.
        bindr (print_cuts fuel sols (nat ((int n - x) mod 2 ^ 64))) (\<lambda>xs. Inr (x # xs)))
      else Inr [])"

definition test_prices :: "int list" where
  "test_prices = [1, 5, 8, 9, 10, 17, 17, 20, 24, 30]"

text \<open>What the test prints: the prices, the three results and the cuts.\<close>

definition test_cut_rod_main :: "nat \<Rightarrow> cerr + int \<times> int list \<times> int \<times> int \<times> int \<times> int list" where
  "test_cut_rod_main fuel =
     (let len = int (length test_prices) in
      bindr (cut_rod test_prices len) (\<lambda>a. bindr (bottom_up_cut_rod test_prices len) (\<lambda>b.
      bindr (bottom_up_cut_rod_it test_prices len []) (\<lambda>(c, sols).
      bindr (print_cuts fuel sols (length sols)) (\<lambda>cuts. Inr (0, test_prices, a, b, c, cuts))))))"

definition test_dynamic_programming_main :: "nat \<Rightarrow> cerr + int \<times> int list \<times> int \<times> int \<times> int \<times> int list" where
  "test_dynamic_programming_main fuel = test_cut_rod_main fuel"

section \<open>Maps\<close>

lemma map_at_set: "map_at (map_set m k v) k' = (if k' = k then v else map_at m k')"
  by (induction m k v rule: map_set.induct) (auto simp: map_at_def)

lemma map_set_append: "\<forall>(k', v') \<in> set m. k' < k \<Longrightarrow> map_set m k v = m @ [(k, v)]"
  by (induction m k v rule: map_set.induct) auto

lemma map_set_last: "\<forall>(k', v') \<in> set m. k' < k \<Longrightarrow> map_set (m @ [(k, w)]) k v = m @ [(k, v)]"
  by (induction m) auto

section \<open>What the first two return\<close>

text \<open>\<open>cut_rod\<close> overwrites its maximum in every round, so that only the last one counts.\<close>

lemma cut_last:
  "length p < 2 ^ 31 \<Longrightarrow> n \<le> int (length p) \<Longrightarrow> 0 \<le> n \<Longrightarrow> cut_rod p n = Inr (if n = 0 then 0 else max (p ! nat (n - 1)) 0)"
  "length p < 2 ^ 31 \<Longrightarrow> n \<le> int (length p) \<Longrightarrow> int i' \<le> n \<Longrightarrow> 0 < n \<Longrightarrow>
   cut_loop p n i' q = Inr (if int i' = n then q else max (p ! nat (n - 1)) 0)"
proof (induction p n and p n i' q rule: cut_rod_cut_loop.induct)
  case (1 p n)
  then show ?case by (subst cut_rod.simps) simp
next
  case (2 p n i' q)
  show ?case
  proof (cases "int i' = n")
    case True
    then show ?thesis by (subst cut_loop.simps) simp
  next
    case False
    then have lt: "int (Suc i') \<le> n" using 2(5) by simp
    have ld: "loadi p (int (Suc i') - 1) = Inr (p ! i')" using lt 2(4) by (simp add: loadi_in)
    have c: "cut_rod p (n - int (Suc i')) = Inr (if n - int (Suc i') = 0 then 0 else max (p ! nat (n - int (Suc i') - 1)) 0)"
      using 2(1) [OF lt ld] 2(3,4) lt by simp
    have "cut_loop p n (Suc i') (max (p ! i') (if n - int (Suc i') = 0 then 0 else max (p ! nat (n - int (Suc i') - 1)) 0))
      = Inr (if int (Suc i') = n then max (p ! i') (if n - int (Suc i') = 0 then 0 else max (p ! nat (n - int (Suc i') - 1)) 0) else max (p ! nat (n - 1)) 0)"
      using 2(2) [OF lt ld c] 2(3,4,6) lt by simp
    moreover have "cut_loop p n i' q = cut_loop p n (Suc i') (max (p ! i') (if n - int (Suc i') = 0 then 0 else max (p ! nat (n - int (Suc i') - 1)) 0))"
      using lt ld c by (subst cut_loop.simps) simp
    moreover have "nat (n - 1) = i'" if "int (Suc i') = n" using that by simp
    ultimately show ?thesis using False by auto
  qed
qed

lemma cut_rod_last:
  "0 < n \<Longrightarrow> n \<le> length p \<Longrightarrow> length p < 2 ^ 31 \<Longrightarrow> cut_rod p (int n) = Inr (max (p ! (n - 1)) 0)"
  using cut_last(1) [of p "int n"] by (simp add: nat_diff_distrib)

text \<open>\<open>bottom_up_cut_rod\<close> starts every maximum at \<open>INT_MAX\<close>: with a positive first price the second round overflows.\<close>

lemma bottom_up_overflow:
  assumes "0 < x" "in_int x"
  shows "bottom_up_cut_rod (x # ps) 1 = Inr INT_MAX" "2 \<le> n \<Longrightarrow> bottom_up_cut_rod (x # ps) n = Inl SignedOverflow"
proof -
  let ?r0 = "map_set [] 0 0"
  have q1: "bottom_up_inner (x # ps) ?r0 1 1 INT_MAX = Inr INT_MAX"
    using assms by (subst bottom_up_inner.simps, subst bottom_up_inner.simps) (simp add: loadi_def load_def map_at_set map_at_def int_add_in in_int_def)
  have one: "bottom_up_outer (x # ps) n 1 ?r0 = bottom_up_outer (x # ps) n 2 (map_set ?r0 1 INT_MAX)" if "1 \<le> n" for n
    using q1 that by (subst bottom_up_outer.simps) simp
  show "bottom_up_cut_rod (x # ps) 1 = Inr INT_MAX"
    using one [of 1] by (simp add: bottom_up_cut_rod_def bottom_up_outer.simps [of _ _ 2] map_at_def)
  have "bottom_up_inner (x # ps) (map_set ?r0 1 INT_MAX) 2 1 INT_MAX = Inl SignedOverflow"
    using assms by (subst bottom_up_inner.simps) (simp add: loadi_def load_def map_at_def int_add_def int_res_def in_int_def)
  then show "bottom_up_cut_rod (x # ps) n = Inl SignedOverflow" if "2 \<le> n"
    using one [of n] that by (simp add: bottom_up_cut_rod_def bottom_up_outer.simps [of _ _ 2])
qed

section \<open>Optimality\<close>

text \<open>A way to cut a rod of length \<open>n\<close> into pieces, its revenue, and the best of the revenues.\<close>

definition cutting :: "nat \<Rightarrow> nat list \<Rightarrow> bool" where
  "cutting n xs \<longleftrightarrow> (\<forall>x \<in> set xs. 0 < x) \<and> sum_list xs = n"

definition revenue :: "int list \<Rightarrow> nat list \<Rightarrow> int" where
  "revenue p xs = sum_list (map (\<lambda>x. p ! (x - 1)) xs)"

definition is_opt :: "int list \<Rightarrow> nat \<Rightarrow> int \<Rightarrow> bool" where
  "is_opt p n r \<longleftrightarrow> (\<exists>xs. cutting n xs \<and> revenue p xs = r) \<and> (\<forall>xs. cutting n xs \<longrightarrow> revenue p xs \<le> r)"

text \<open>The prices: not negative, and small enough for the revenues to stay in an \<open>int\<close>.\<close>

definition prices_ok :: "int list \<Rightarrow> nat \<Rightarrow> int \<Rightarrow> bool" where
  "prices_ok p n M \<longleftrightarrow> n \<le> length p \<and> (\<forall>x \<in> set p. 0 \<le> x \<and> x \<le> M) \<and> 0 \<le> M \<and> M * int n \<le> INT_MAX \<and> n < 2 ^ 31"

lemma is_opt_0: "is_opt p 0 0"
proof -
  have "revenue p xs \<le> 0" if "cutting 0 xs" for xs
  proof -
    have "xs = []" using that by (cases xs) (auto simp: cutting_def)
    then show ?thesis by (simp add: revenue_def)
  qed
  moreover have "cutting 0 []" "revenue p [] = 0" by (simp_all add: cutting_def revenue_def)
  ultimately show ?thesis unfolding is_opt_def by (intro conjI exI [of _ "[]"]) simp_all
qed

lemma revenue_bounds:
  "prices_ok p n M \<Longrightarrow> cutting m xs \<Longrightarrow> m \<le> n \<Longrightarrow> 0 \<le> revenue p xs \<and> revenue p xs \<le> M * int m"
proof (induction xs arbitrary: m)
  case Nil
  then show ?case by (simp add: cutting_def revenue_def)
next
  case (Cons x xs)
  have x: "0 < x" "cutting (m - x) xs" "x \<le> m" using Cons.prems(2) by (auto simp: cutting_def)
  have "p ! (x - 1) \<in> set p" using x(1,3) Cons.prems(1,3) by (intro nth_mem) (auto simp: prices_ok_def)
  then have px: "0 \<le> p ! (x - 1)" "p ! (x - 1) \<le> M" "0 \<le> M" using Cons.prems(1) by (auto simp: prices_ok_def)
  have "M * 1 \<le> M * int x" using px(3) x(1) by (intro mult_left_mono) auto
  moreover have "M * int x + M * int (m - x) = M * int m" using x(3) by (simp flip: distrib_left)
  moreover have "0 \<le> revenue p xs \<and> revenue p xs \<le> M * int (m - x)" using Cons.IH [OF Cons.prems(1) x(2)] Cons.prems(3) by simp
  ultimately show ?case using px by (simp add: revenue_def)
qed

lemma is_opt_bounds: "prices_ok p n M \<Longrightarrow> is_opt p m r \<Longrightarrow> m \<le> n \<Longrightarrow> 0 \<le> r \<and> r \<le> M * int m"
  using revenue_bounds by (auto simp: is_opt_def)

lemma is_opt_step:
  assumes opt: "\<forall>m < j. is_opt p m (r m)" and b: "1 \<le> b" "b \<le> j" "q = p ! (b - 1) + r (j - b)"
    and ub: "\<forall>i. 1 \<le> i \<longrightarrow> i \<le> j \<longrightarrow> p ! (i - 1) + r (j - i) \<le> q"
  shows "is_opt p j q"
proof -
  have "j - b < j" using b(1,2) by simp
  then obtain xs where xs: "cutting (j - b) xs" "revenue p xs = r (j - b)" using opt by (auto simp: is_opt_def)
  then have "cutting j (b # xs)" "revenue p (b # xs) = q" using b by (auto simp: cutting_def revenue_def)
  moreover have "revenue p ys \<le> q" if ys: "cutting j ys" for ys
  proof (cases ys)
    case Nil
    then show ?thesis using ys b(1,2) by (simp add: cutting_def)
  next
    case (Cons y zs)
    then have y: "1 \<le> y" "y \<le> j" "cutting (j - y) zs" using ys by (auto simp: cutting_def)
    then have "j - y < j" by simp
    then have "revenue p zs \<le> r (j - y)" using opt y(3) by (auto simp: is_opt_def)
    then show ?thesis using ub y(1,2) Cons by (force simp: revenue_def)
  qed
  ultimately show ?thesis unfolding is_opt_def by blast
qed

lemma cuts_value:
  assumes "prices_ok p n M" "j \<le> n" "\<forall>m < j. is_opt p m (map_at r (int m))" "i < j"
  shows "loadi p (int (Suc i) - 1) = Inr (p ! i) \<and> int_add (p ! i) (map_at r (int (j - Suc i))) = Inr (p ! i + map_at r (int (j - Suc i)))
    \<and> 0 \<le> p ! i + map_at r (int (j - Suc i))"
proof -
  have len: "i < length p" "p ! i \<in> set p" using assms by (auto simp: prices_ok_def)
  then have pr: "0 \<le> p ! i" "p ! i \<le> M" "0 \<le> M" "M * int n \<le> INT_MAX" using assms(1) by (auto simp: prices_ok_def)
  have "0 \<le> map_at r (int (j - Suc i)) \<and> map_at r (int (j - Suc i)) \<le> M * int (j - Suc i)"
  proof (rule is_opt_bounds [OF assms(1)])
    show "is_opt p (j - Suc i) (map_at r (int (j - Suc i)))" using assms(3,4) by (simp del: of_nat_diff)
  qed (use assms(2) in simp)
  moreover have "M * int (j - Suc i) + M = M * int (j - i)" using assms(4) by (simp add: algebra_simps of_nat_diff)
  moreover have "M * int (j - i) \<le> M * int n" using pr(3) assms(2) by (intro mult_left_mono) auto
  ultimately have "in_int (p ! i + map_at r (int (j - Suc i)))" "0 \<le> p ! i + map_at r (int (j - Suc i))" using pr by (auto simp: in_int_def)
  then show ?thesis using len by (simp add: loadi_in int_add_in)
qed

text \<open>The inner loop: \<open>b\<close> is the first cut found so far.\<close>

lemma cuts_inner_spec:
  assumes ok: "prices_ok p n M" and j: "1 \<le> j" "j \<le> n" and opt: "\<forall>m < j. is_opt p m (map_at r (int m))"
    and s0: "\<forall>(k', v') \<in> set s0. k' < int j"
    and "i \<le> j" "1 \<le> b" "b \<le> i" "q = p ! (b - 1) + map_at r (int (j - b))"
    "\<forall>i'. 1 \<le> i' \<longrightarrow> i' \<le> i \<longrightarrow> p ! (i' - 1) + map_at r (int (j - i')) \<le> q"
  shows "\<exists>q' b'. cuts_inner p r (int j) (int (Suc i)) q (s0 @ [(int j, int b)]) = Inr (q', s0 @ [(int j, int b')]) \<and> 1 \<le> b' \<and> b' \<le> j
    \<and> q' = p ! (b' - 1) + map_at r (int (j - b')) \<and> is_opt p j q'"
  using assms(6-)
proof (induction "j - i" arbitrary: i b q)
  case 0
  then have "is_opt p j q" using is_opt_step [OF opt, of b q] by simp
  moreover have "cuts_inner p r (int j) (int (Suc i)) q (s0 @ [(int j, int b)]) = Inr (q, s0 @ [(int j, int b)])" using 0 by (subst cuts_inner.simps) simp
  ultimately show ?case using 0 by auto
next
  case (Suc x)
  then have lt: "i < j" by simp
  let ?v = "p ! i + map_at r (int (j - Suc i))"
  have v: "loadi p (int (Suc i) - 1) = Inr (p ! i)" "int_add (p ! i) (map_at r (int (j - Suc i))) = Inr ?v"
    using cuts_value [OF ok j(2) opt lt] by auto
  have ij: "int j - int (Suc i) = int (j - Suc i)" using lt by simp
  have unf: "cuts_inner p r (int j) (int (Suc i)) q (s0 @ [(int j, int b)]) =
    (if q < ?v then cuts_inner p r (int j) (int (Suc (Suc i))) ?v (s0 @ [(int j, int (Suc i))])
     else cuts_inner p r (int j) (int (Suc (Suc i))) q (s0 @ [(int j, int b)]))"
    using lt v map_set_last [OF s0] by (subst cuts_inner.simps) (simp only: ij bindr_simps, simp add: add.commute)
  show ?case
  proof (cases "q < ?v")
    case True
    have "\<forall>i'. 1 \<le> i' \<longrightarrow> i' \<le> Suc i \<longrightarrow> p ! (i' - 1) + map_at r (int (j - i')) \<le> ?v" using Suc.prems(5) True by (auto simp: le_Suc_eq)
    then show ?thesis using Suc.hyps(1) [of "Suc i" "Suc i" ?v] Suc.hyps(2) lt True unf by auto
  next
    case False
    then have "\<forall>i'. 1 \<le> i' \<longrightarrow> i' \<le> Suc i \<longrightarrow> p ! (i' - 1) + map_at r (int (j - i')) \<le> q" using Suc.prems(5) by (auto simp: le_Suc_eq)
    then show ?thesis using Suc.hyps(1) [of "Suc i" b q] Suc.hyps(2) Suc.prems lt False unf by auto
  qed
qed

text \<open>The two tables after the rounds below \<open>j\<close>.\<close>

definition tables_ok :: "int list \<Rightarrow> nat \<Rightarrow> imap \<Rightarrow> imap \<Rightarrow> bool" where
  "tables_ok p j r s \<longleftrightarrow> (\<forall>m < j. is_opt p m (map_at r (int m))) \<and> map fst s = map int [1..<j]
     \<and> (\<forall>m. 1 \<le> m \<longrightarrow> m < j \<longrightarrow> (\<exists>b. snd (s ! (m - 1)) = int b \<and> 1 \<le> b \<and> b \<le> m \<and> map_at r (int m) = p ! (b - 1) + map_at r (int (m - b))))"

lemma cuts_round:
  assumes ok: "prices_ok p n M" and j: "1 \<le> j" "j \<le> n" and t: "tables_ok p j r s"
  shows "\<exists>q s'. cuts_inner p r (int j) 1 INT_MIN s = Inr (q, s') \<and> tables_ok p (Suc j) (map_set r (int j) q) s'"
proof -
  have opt: "\<forall>m < j. is_opt p m (map_at r (int m))" and keys: "map fst s = map int [1..<j]" using t by (auto simp: tables_ok_def)
  have "fst ` set s = int ` {1..<j}" using keys by (metis list.set_map set_upt)
  then have s0: "\<forall>(k', v') \<in> set s. k' < int j" by force
  let ?v = "p ! 0 + map_at r (int (j - 1))"
  have v: "loadi p 0 = Inr (p ! 0)" "int_add (p ! 0) (map_at r (int (j - 1))) = Inr ?v" "0 \<le> ?v"
    using cuts_value [OF ok j(2) opt, of 0] j(1) by auto
  have "int j - 1 = int (j - 1)" using j(1) by simp
  then have first: "cuts_inner p r (int j) 1 INT_MIN s = cuts_inner p r (int j) (int (Suc 1)) ?v (s @ [(int j, int 1)])"
    using v j(1) map_set_append [OF s0] by (subst cuts_inner.simps) simp
  from cuts_inner_spec [OF ok j opt s0, of 1 1 ?v] j(1) obtain q b where
    q: "cuts_inner p r (int j) (int (Suc 1)) ?v (s @ [(int j, int 1)]) = Inr (q, s @ [(int j, int b)])" "1 \<le> b" "b \<le> j"
      "q = p ! (b - 1) + map_at r (int (j - b))" "is_opt p j q" by (auto simp: le_Suc_eq)
  have len: "length s = j - 1" using arg_cong [OF keys, of length] by simp
  let ?r = "map_set r (int j) q" let ?s = "s @ [(int j, int b)]"
  have "\<exists>b. snd (?s ! (m - 1)) = int b \<and> 1 \<le> b \<and> b \<le> m \<and> map_at ?r (int m) = p ! (b - 1) + map_at ?r (int (m - b))"
    if m: "1 \<le> m" "m < Suc j" for m
  proof (cases "m = j")
    case True
    have "snd (?s ! (m - 1)) = int b" using True len by (simp add: nth_append)
    then show ?thesis using True q(2-4) by (intro exI [of _ b]) (simp add: map_at_set)
  next
    case False
    then have "m < j" using m by simp
    then obtain b' where "snd (s ! (m - 1)) = int b'" "1 \<le> b'" "b' \<le> m" "map_at r (int m) = p ! (b' - 1) + map_at r (int (m - b'))"
      using t m(1) by (auto simp: tables_ok_def)
    moreover from this have "m - 1 < length s" using \<open>m < j\<close> m(1) len by linarith
    ultimately show ?thesis using \<open>m < j\<close> by (intro exI [of _ b']) (simp add: map_at_set nth_append)
  qed
  moreover have "\<forall>m < Suc j. is_opt p m (map_at ?r (int m))" using opt q(5) by (simp add: map_at_set less_Suc_eq)
  moreover have "map fst ?s = map int [1..<Suc j]" using keys j(1) by simp
  ultimately have "tables_ok p (Suc j) ?r ?s" by (simp add: tables_ok_def)
  then show ?thesis using first q(1) by auto
qed

lemma cuts_outer_spec:
  "prices_ok p n M \<Longrightarrow> tables_ok p j r s \<Longrightarrow> 1 \<le> j \<Longrightarrow> j \<le> Suc n \<Longrightarrow>
   \<exists>r' s'. cuts_outer p (int n) (int j) r s = Inr (r', s') \<and> tables_ok p (Suc n) r' s'"
proof (induction "Suc n - j" arbitrary: j r s)
  case 0
  then show ?case by (subst cuts_outer.simps) (auto simp: le_Suc_eq)
next
  case (Suc x)
  then have j: "1 \<le> j" "j \<le> n" by auto
  from cuts_round [OF Suc.prems(1) j Suc.prems(2)] obtain q s' where
    q: "cuts_inner p r (int j) 1 INT_MIN s = Inr (q, s')" "tables_ok p (Suc j) (map_set r (int j) q) s'" by auto
  have "cuts_outer p (int n) (int j) r s = cuts_outer p (int n) (int (Suc j)) (map_set r (int j) q) s'"
    using j q(1) by (subst cuts_outer.simps) (simp add: add.commute)
  then show ?case using Suc.hyps(1) [OF _ Suc.prems(1) q(2)] Suc.hyps(2) j by auto
qed

lemma print_cuts_spec:
  assumes "tables_ok p (Suc n) r s" "n < 2 ^ 31"
  shows "m \<le> n \<Longrightarrow> m < fuel \<Longrightarrow>
    \<exists>xs. print_cuts fuel (map snd s) m = Inr (map int xs) \<and> cutting m xs \<and> revenue p xs = map_at r (int m) - map_at r 0"
proof (induction fuel arbitrary: m)
  case (Suc fuel)
  show ?case
  proof (cases "m = 0")
    case True
    then show ?thesis by (intro exI [of _ "[]"]) (simp add: cutting_def revenue_def)
  next
    case False
    then obtain b where b: "snd (s ! (m - 1)) = int b" "1 \<le> b" "b \<le> m" "map_at r (int m) = p ! (b - 1) + map_at r (int (m - b))"
      using assms(1) Suc.prems(1) unfolding tables_ok_def by (metis One_nat_def Suc_leI le_imp_less_Suc neq0_conv)
    have "length s = n" using assms(1) by (metis tables_ok_def diff_Suc_1 length_map length_upt)
    then have ld: "load (map snd s) (m - 1) = Inr (int b)" using b(1) False Suc.prems(1) by (simp add: load_def)
    have "(int m - int b) mod 2 ^ 64 = int m - int b" using b(3) Suc.prems(1) assms(2) by (intro mod_pos_pos_trivial) auto
    then have nx: "nat ((int m - int b) mod 2 ^ 64) = m - b" by (simp add: nat_diff_distrib)
    have "m - b \<le> n" "m - b < fuel" using b(2) False Suc.prems by linarith+
    from Suc.IH [OF this] obtain xs where
      xs: "print_cuts fuel (map snd s) (m - b) = Inr (map int xs)" "cutting (m - b) xs" "revenue p xs = map_at r (int (m - b)) - map_at r 0" by auto
    have "print_cuts (Suc fuel) (map snd s) m = Inr (map int (b # xs))" using False ld nx xs(1) by simp
    moreover have "cutting m (b # xs)" "revenue p (b # xs) = map_at r (int m) - map_at r 0" using xs(2,3) b(2-4) by (auto simp: cutting_def revenue_def)
    ultimately show ?thesis by blast
  qed
qed simp



lemma test_cut_rod_overflows: "test_dynamic_programming_main fuel = Inl SignedOverflow"
proof -
  have "cut_rod test_prices 10 = Inr 30" using cut_rod_last [of 10 test_prices] by (simp add: test_prices_def)
  moreover have "bottom_up_cut_rod test_prices 10 = Inl SignedOverflow"
    unfolding test_prices_def by (rule bottom_up_overflow(2)) (simp_all add: in_int_def)
  ultimately show ?thesis by (simp add: test_dynamic_programming_main_def test_cut_rod_main_def test_prices_def)
qed

end
