(* ===== verification/Activities.thy ===== *)
theory Activities
  imports C_Text
begin

text \<open>
  Activity selection, \<open>algs/intro_to_algs3th/16.c\<close>: \<open>longest_activity\<close> picks the longest activity that is still free and
  lies in an interval, \<open>max_comp_activity\<close> takes it and goes on in the gaps on both sides.

  \<open>max_comp_maximal\<close> shows that the selection ends and returns pairwise compatible activities to which no further activity
  can be added; \<open>max_comp_not_maximum\<close> that there can be a larger selection, although the source asks for the largest.
  \<open>test_greedy_reads_outside\<close> shows that the test passes the size of its array in bytes as the number of
  activities.
\<close>

section \<open>The program\<close>

record itoa_activity =
  act_s :: int
  act_f :: int
  chosen :: int

text \<open>The loop of \<open>longest_activity\<close> from index \<open>i\<close> on; \<open>a\<close> is the index of the best activity so far.\<close>

function longest_loop :: "int \<Rightarrow> int \<Rightarrow> itoa_activity list \<Rightarrow> int \<Rightarrow> int \<Rightarrow> int \<Rightarrow> nat option \<Rightarrow> cerr + nat option" where
  "longest_loop s f as nas i maxa a =
     (if i < nas then
        bindr (loadi as i) (\<lambda>x.
        if chosen x = 0 then
          if s \<le> act_s x \<and> act_f x \<le> f then
            bindr (int_sub (act_f x) (act_s x)) (\<lambda>tmaxa.
            if maxa < tmaxa then longest_loop s f as nas (i + 1) tmaxa (Some (nat i)) else longest_loop s f as nas (i + 1) maxa a)
          else longest_loop s f as nas (i + 1) maxa a
        else longest_loop s f as nas (i + 1) maxa a)
      else Inr a)"
  by pat_completeness auto

termination by (relation "measure (\<lambda>(_, _, _, nas, i, _, _). nat (nas - i))") auto

declare longest_loop.simps [simp del]

definition longest_activity :: "int \<Rightarrow> int \<Rightarrow> itoa_activity list \<Rightarrow> int \<Rightarrow> cerr + nat option \<times> itoa_activity list" where
  "longest_activity s f as nas =
     (if s = f then Inr (None, as) else if nas = 0 then Inr (None, as) else
      bindr (longest_loop s f as nas 0 0 None) (\<lambda>a.
      case a of None \<Rightarrow> Inr (None, as)
      | Some x \<Rightarrow> bindr (load as x) (\<lambda>y. bindr (store as x (y\<lparr>chosen := 1\<rparr>)) (\<lambda>as'. Inr (Some x, as')))))"

definition itoa_activity_dump :: "itoa_activity \<Rightarrow> char \<Rightarrow> string" where
  "itoa_activity_dump a c = ''{'' @ show_int (act_s a) @ '','' @ show_int (act_f a) @ ''}'' @ [c]"

text \<open>The depth of the recursion is bounded by the fuel. \<open>a\<close> points into \<open>as\<close>, so its end is read again after the first
  of two recursive calls. The result is always 0 and is left out.\<close>

fun max_comp_activity :: "nat \<Rightarrow> int \<Rightarrow> int \<Rightarrow> itoa_activity list \<Rightarrow> int \<Rightarrow> itoa_activity list \<Rightarrow> nat \<Rightarrow>
    cerr + itoa_activity list \<times> itoa_activity list \<times> nat" where
  "max_comp_activity 0 s f as nas comp_as ias = Inl OutOfFuel"
| "max_comp_activity (Suc fuel) s f as nas comp_as ias =
     (if s = f then Inr (as, comp_as, ias) else if nas = 0 then Inr (as, comp_as, ias) else
      bindr (longest_activity s f as nas) (\<lambda>(r, as).
      case r of None \<Rightarrow> Inr (as, comp_as, ias)
      | Some x \<Rightarrow>
        bindr (load as x) (\<lambda>a. bindr (store comp_as ias a) (\<lambda>comp_as.
        let ias = ias + 1 in
        if act_s a = s \<and> act_f a = f then Inr (as, comp_as, ias)
        else if act_s a = s \<and> act_f a < f then max_comp_activity fuel (act_f a) f as nas comp_as ias
        else if act_s a > s \<and> act_f a = f then max_comp_activity fuel s (act_s a) as nas comp_as ias
        else bindr (max_comp_activity fuel s (act_s a) as nas comp_as ias) (\<lambda>(as, comp_as, ias).
             bindr (load as x) (\<lambda>a. max_comp_activity fuel (act_f a) f as nas comp_as ias))))))"

fun dump_all :: "itoa_activity list \<Rightarrow> nat \<Rightarrow> nat \<Rightarrow> cerr + string" where
  "dump_all comp_as i 0 = Inr []"
| "dump_all comp_as i (Suc k) = bindr (load comp_as i) (\<lambda>a. bindr (dump_all comp_as (Suc i) k) (\<lambda>t.
     Inr (itoa_activity_dump a (if k = 0 then CHR 0x0A else CHR '','') @ t)))"

definition act :: "int \<Rightarrow> int \<Rightarrow> itoa_activity" where
  "act s f = \<lparr>act_s = s, act_f = f, chosen = 0\<rparr>"

definition test_acts :: "itoa_activity list" where
  "test_acts = [act 1 4, act 3 5, act 0 6, act 5 7, act 3 9, act 5 9, act 6 10, act 8 11, act 8 12, act 2 14, act 12 16]"

text \<open>\<open>sizeof (as)\<close>: eleven structures of three \<open>int\<close>s. The test ends with \<open>exit (0)\<close>; its value here is what it prints.
  \<open>junk\<close> is the uninitialised result array, which has \<open>sizeof (as)\<close> elements too.\<close>

definition test_greedy_main :: "nat \<Rightarrow> itoa_activity list \<Rightarrow> cerr + string" where
  "test_greedy_main fuel junk =
     (let size_as = int (length test_acts) * 12 in
      bindr (max_comp_activity fuel 1 11 test_acts size_as junk 0) (\<lambda>(as, comp_as, n).
      bindr (dump_all comp_as 0 n) (\<lambda>t.
      Inr (''test_greedy_main:'' @ [CHR 0x0A] @ ''test_greedy_main: ncomp_as = '' @ show_nat n @ '', '' @ t))))"

section \<open>The longest activity\<close>

definition cand :: "int \<Rightarrow> int \<Rightarrow> itoa_activity \<Rightarrow> bool" where
  "cand s f a \<longleftrightarrow> chosen a = 0 \<and> s \<le> act_s a \<and> act_f a \<le> f"

definition len :: "itoa_activity \<Rightarrow> int" where
  "len a = act_f a - act_s a"

definition acts_ok :: "itoa_activity list \<Rightarrow> bool" where
  "acts_ok as \<longleftrightarrow> (\<forall>a \<in> set as. in_int (len a))"

definition best_so_far :: "int \<Rightarrow> int \<Rightarrow> itoa_activity list \<Rightarrow> nat \<Rightarrow> int \<Rightarrow> nat option \<Rightarrow> bool" where
  "best_so_far s f as i maxa a \<longleftrightarrow> (\<forall>k < i. cand s f (as ! k) \<longrightarrow> len (as ! k) \<le> maxa)
     \<and> (case a of None \<Rightarrow> maxa = 0 | Some x \<Rightarrow> x < length as \<and> cand s f (as ! x) \<and> len (as ! x) = maxa \<and> 0 < maxa)"

lemma longest_loop_spec:
  assumes "acts_ok as"
  shows "i \<le> length as \<Longrightarrow> best_so_far s f as i maxa a \<Longrightarrow> 0 \<le> maxa \<Longrightarrow>
    \<exists>m r. longest_loop s f as (int (length as)) (int i) maxa a = Inr r \<and> best_so_far s f as (length as) m r"
proof (induction "length as - i" arbitrary: i maxa a)
  case 0
  then have "longest_loop s f as (int (length as)) (int i) maxa a = Inr a" by (subst longest_loop.simps) simp
  then show ?case using 0 by auto
next
  case (Suc n)
  then have i: "i < length as" by simp
  define x where "x = as ! i"
  define t where "t = (cand s f x \<and> maxa < len x)"
  have "in_int (len x)" using assms i by (simp add: acts_ok_def x_def)
  then have sub: "int_sub (act_f x) (act_s x) = Inr (len x)" by (simp add: int_sub_in len_def)
  have unf: "longest_loop s f as (int (length as)) (int i) maxa a =
    longest_loop s f as (int (length as)) (int (Suc i)) (if t then len x else maxa) (if t then Some i else a)"
    using i sub by (subst longest_loop.simps) (auto simp: loadi_in x_def t_def cand_def add.commute)
  have "best_so_far s f as (Suc i) (if t then len x else maxa) (if t then Some i else a)"
    using Suc.prems i by (cases a) (fastforce simp: best_so_far_def t_def x_def less_Suc_eq)+
  then show ?case using Suc.hyps(1) [of "Suc i" "if t then len x else maxa" "if t then Some i else a"] Suc.hyps(2) Suc.prems(3) i unf
    by (auto simp: t_def)
qed

text \<open>The pick: the longest free activity of positive length inside the interval, marked as chosen.\<close>

lemma longest_activity_spec:
  assumes "acts_ok as" "s \<noteq> f" "as \<noteq> []"
  obtains (none) "longest_activity s f as (int (length as)) = Inr (None, as)" "\<And>k. k < length as \<Longrightarrow> cand s f (as ! k) \<Longrightarrow> len (as ! k) \<le> 0"
  | (some) x where "longest_activity s f as (int (length as)) = Inr (Some x, as[x := (as ! x)\<lparr>chosen := 1\<rparr>])" "x < length as"
      "cand s f (as ! x)" "0 < len (as ! x)" "\<And>k. k < length as \<Longrightarrow> cand s f (as ! k) \<Longrightarrow> len (as ! k) \<le> len (as ! x)"
proof -
  have "best_so_far s f as 0 0 None" by (simp add: best_so_far_def)
  from longest_loop_spec [OF assms(1) _ this] obtain m r where
    r: "longest_loop s f as (int (length as)) 0 0 None = Inr r" "best_so_far s f as (length as) m r" by auto
  show thesis
  proof (cases r)
    case None
    then show thesis using r assms(2,3) by (intro none) (auto simp: longest_activity_def best_so_far_def)
  next
    case (Some x)
    then show thesis using r assms(2,3) by (intro some [of x]) (auto simp: longest_activity_def best_so_far_def load_in store_in)
  qed
qed

section \<open>The selection\<close>

definition overlap :: "itoa_activity \<Rightarrow> itoa_activity \<Rightarrow> bool" where
  "overlap a b \<longleftrightarrow> act_s a < act_f b \<and> act_s b < act_f a"

definition unchosen :: "itoa_activity list \<Rightarrow> nat" where
  "unchosen as = length (filter (\<lambda>a. chosen a = 0) as)"

definition same_times :: "itoa_activity \<Rightarrow> itoa_activity \<Rightarrow> bool" where
  "same_times a b \<longleftrightarrow> act_s a = act_s b \<and> act_f a = act_f b"

text \<open>What a call has done: \<open>new\<close> are the activities it has added to the result.\<close>

definition marks :: "itoa_activity list \<Rightarrow> itoa_activity list \<Rightarrow> itoa_activity list \<Rightarrow> bool" where
  "marks as as' new \<longleftrightarrow> length as' = length as
     \<and> (\<forall>i < length as. same_times (as' ! i) (as ! i) \<and> (chosen (as ! i) \<noteq> 0 \<longrightarrow> as' ! i = as ! i)
          \<and> (chosen (as ! i) = 0 \<longrightarrow> chosen (as' ! i) \<noteq> 0 \<longrightarrow> as' ! i \<in> set new))"

definition inside :: "int \<Rightarrow> int \<Rightarrow> itoa_activity list \<Rightarrow> itoa_activity list \<Rightarrow> bool" where
  "inside s f as new \<longleftrightarrow> (\<forall>b \<in> set new. s \<le> act_s b \<and> act_s b < act_f b \<and> act_f b \<le> f \<and> (\<exists>i < length as. same_times (as ! i) b))"

definition full :: "int \<Rightarrow> int \<Rightarrow> itoa_activity list \<Rightarrow> itoa_activity list \<Rightarrow> bool" where
  "full s f as new \<longleftrightarrow> (\<forall>i < length as. cand s f (as ! i) \<longrightarrow> 0 < len (as ! i) \<longrightarrow> (\<exists>b \<in> set new. overlap (as ! i) b))"

definition appended :: "itoa_activity list \<Rightarrow> itoa_activity list \<Rightarrow> nat \<Rightarrow> itoa_activity list \<Rightarrow> itoa_activity list \<Rightarrow> nat \<Rightarrow> itoa_activity list \<Rightarrow> bool" where
  "appended as co k as' co' k' new \<longleftrightarrow> length co' = length co \<and> k' = k + length new \<and> k' \<le> length co \<and> take k' co' = take k co @ new
     \<and> unchosen as' + k' = unchosen as + k"

definition sel_post :: "int \<Rightarrow> int \<Rightarrow> itoa_activity list \<Rightarrow> itoa_activity list \<Rightarrow> nat \<Rightarrow> itoa_activity list \<Rightarrow> itoa_activity list \<Rightarrow> nat \<Rightarrow> itoa_activity list \<Rightarrow> bool" where
  "sel_post s f as co k as' co' k' new \<longleftrightarrow> marks as as' new \<and> inside s f as new \<and> full s f as new \<and> sorted_wrt (\<lambda>a b. \<not> overlap a b) new
     \<and> appended as co k as' co' k' new"

lemma overlap_sym: "overlap a b \<longleftrightarrow> overlap b a"
  by (auto simp: overlap_def)

lemma sel_post_empty:
  assumes "k \<le> length co" "\<And>i. i < length as \<Longrightarrow> cand s f (as ! i) \<Longrightarrow> len (as ! i) \<le> 0"
  shows "sel_post s f as co k as co k []"
  unfolding sel_post_def
proof (intro conjI)
  show "full s f as []" unfolding full_def using assms(2) by (meson leD)
qed (use assms(1) in \<open>simp_all add: marks_def inside_def appended_def same_times_def\<close>)

lemma sel_post_point: "k \<le> length co \<Longrightarrow> sel_post t t as co k as co k []"
  by (rule sel_post_empty) (auto simp: cand_def len_def)

lemma unchosen_pick:
  assumes "x < length as" "chosen (as ! x) = 0"
  shows "unchosen as = Suc (unchosen (as[x := (as ! x)\<lparr>chosen := 1\<rparr>]))"
proof -
  have "as = take x as @ as ! x # drop (Suc x) as" using assms(1) by (rule id_take_nth_drop)
  then have "unchosen as = length (filter (\<lambda>a. chosen a = 0) (take x as @ as ! x # drop (Suc x) as))" by (simp add: unchosen_def)
  then show ?thesis using assms by (simp add: unchosen_def upd_conv_take_nth_drop)
qed

lemma same_times_trans: "same_times a b \<Longrightarrow> same_times b c \<Longrightarrow> same_times a c"
  by (simp add: same_times_def)

lemma marks_trans: "marks as as1 n1 \<Longrightarrow> marks as1 as2 n2 \<Longrightarrow> marks as as2 (n1 @ n2)"
proof -
  assume a: "marks as as1 n1" "marks as1 as2 n2"
  have "same_times (as2 ! i) (as ! i) \<and> (chosen (as ! i) \<noteq> 0 \<longrightarrow> as2 ! i = as ! i)
    \<and> (chosen (as ! i) = 0 \<longrightarrow> chosen (as2 ! i) \<noteq> 0 \<longrightarrow> as2 ! i \<in> set (n1 @ n2))" if "i < length as" for i
    using a that same_times_trans [of "as2 ! i" "as1 ! i" "as ! i"] by (cases "chosen (as1 ! i) = 0") (auto simp: marks_def)
  then show ?thesis using a by (simp add: marks_def)
qed

lemma appended_trans:
  "appended as co k as1 co1 k1 n1 \<Longrightarrow> appended as1 co1 k1 as2 co2 k2 n2 \<Longrightarrow> appended as co k as2 co2 k2 (n1 @ n2)"
  by (auto simp: appended_def)

lemma inside_times: "inside s f as1 new \<Longrightarrow> marks as as1 n \<Longrightarrow> inside s f as new"
proof -
  assume a: "inside s f as1 new" "marks as as1 n"
  have "\<exists>i < length as. same_times (as ! i) b" if b: "b \<in> set new" for b
  proof -
    obtain i where "i < length as1" "same_times (as1 ! i) b" using a(1) b by (auto simp: inside_def)
    then show ?thesis using a(2) by (intro exI [of _ i]) (auto simp: marks_def same_times_def)
  qed
  then show ?thesis using a(1) by (simp add: inside_def)
qed

lemma pick_marks: "x < length as \<Longrightarrow> chosen (as ! x) = 0 \<Longrightarrow> marks as (as[x := (as ! x)\<lparr>chosen := 1\<rparr>]) [(as ! x)\<lparr>chosen := 1\<rparr>]"
  by (auto simp: marks_def same_times_def nth_list_update)

lemma pick_appended:
  assumes "x < length as" "chosen (as ! x) = 0" "k < length co"
  shows "appended as co k (as[x := (as ! x)\<lparr>chosen := 1\<rparr>]) (co[k := a]) (k + 1) [a]"
  using assms unchosen_pick [OF assms(1,2)] by (simp add: appended_def take_Suc_update)

text \<open>One pick followed by the selections in the two gaps.\<close>

lemma full_join:
  assumes m1: "marks as as1 [a]" and m2: "marks as1 as2 n1" and a: "act_s a < act_f a"
    and f1: "full s (act_s a) as1 n1" and f2: "full (act_f a) f as2 n2" and pos: "\<forall>b \<in> set n1. act_s b < act_f b"
  shows "full s f as (a # n1 @ n2)"
  unfolding full_def
proof (intro allI impI)
  fix i assume i: "i < length as" "cand s f (as ! i)" "0 < len (as ! i)"
  have t1: "same_times (as1 ! i) (as ! i)" "chosen (as1 ! i) \<noteq> 0 \<longrightarrow> as1 ! i = a" "length as1 = length as"
    using m1 i by (auto simp: marks_def cand_def)
  have t2: "same_times (as2 ! i) (as1 ! i)" "chosen (as1 ! i) = 0 \<longrightarrow> chosen (as2 ! i) \<noteq> 0 \<longrightarrow> as2 ! i \<in> set n1" "length as2 = length as"
    using m2 i t1(3) by (auto simp: marks_def)
  have self: "overlap (as ! i) b" if "same_times b (as ! i)" for b using that i(3) by (auto simp: overlap_def same_times_def len_def)
  consider "overlap (as ! i) a" | "act_f (as ! i) \<le> act_s a" | "act_f a \<le> act_s (as ! i)" unfolding overlap_def by linarith
  then show "\<exists>b \<in> set (a # n1 @ n2). overlap (as ! i) b"
  proof cases
    case 1
    then show ?thesis by simp
  next
    case 2
    show ?thesis
    proof (cases "chosen (as1 ! i) = 0")
      case True
      then have "cand s (act_s a) (as1 ! i)" "0 < len (as1 ! i)" using 2 i t1(1) by (auto simp: cand_def len_def same_times_def)
      then obtain b where "b \<in> set n1" "overlap (as1 ! i) b" using f1 i(1) t1(3) by (auto simp: full_def)
      then show ?thesis using t1(1) by (auto simp: overlap_def same_times_def)
    next
      case False
      then show ?thesis using self [of a] t1 by auto
    qed
  next
    case 3
    show ?thesis
    proof (cases "chosen (as1 ! i) = 0 \<and> chosen (as2 ! i) = 0")
      case True
      then have "cand (act_f a) f (as2 ! i)" "0 < len (as2 ! i)" using 3 i t1(1) t2(1) by (auto simp: cand_def len_def same_times_def)
      then obtain b where "b \<in> set n2" "overlap (as2 ! i) b" using f2 i(1) t2(3) by (auto simp: full_def)
      then show ?thesis using t1(1) t2(1) by (auto simp: overlap_def same_times_def)
    next
      case False
      then show ?thesis using self [of a] self [of "as2 ! i"] t1 t2 same_times_trans by auto
    qed
  qed
qed

lemma sel_post_join:
  assumes x: "x < length as" "cand s f (as ! x)" "0 < len (as ! x)" and as1: "as1 = as[x := (as ! x)\<lparr>chosen := 1\<rparr>]"
    and a: "a = (as ! x)\<lparr>chosen := 1\<rparr>" and k: "k < length co"
    and left: "sel_post s (act_s a) as1 (co[k := a]) (k + 1) as2 co2 k2 n1"
    and right: "sel_post (act_f a) f as2 co2 k2 as3 co3 k3 n2"
  shows "sel_post s f as co k as3 co3 k3 (a # n1 @ n2)"
proof -
  have ain: "s \<le> act_s a" "act_s a < act_f a" "act_f a \<le> f" "same_times (as ! x) a" using x(2,3) a by (auto simp: cand_def len_def same_times_def)
  have ch: "chosen (as ! x) = 0" using x(2) by (simp add: cand_def)
  have m1: "marks as as1 [a]" using pick_marks [OF x(1) ch] as1 a by simp
  have m2: "marks as1 as2 n1" and m3: "marks as2 as3 n2" using left right by (auto simp: sel_post_def)
  have m12: "marks as as2 (a # n1)" using marks_trans [OF m1 m2] by simp
  have in1: "inside s (act_s a) as n1" using left inside_times [OF _ m1] by (simp add: sel_post_def)
  have in2: "inside (act_f a) f as n2" using right inside_times [OF _ m12] by (simp add: sel_post_def)
  have "marks as as3 (a # n1 @ n2)" using marks_trans [OF m12 m3] by simp
  moreover have "inside s f as (a # n1 @ n2)"
    using in1 in2 ain x(1) by (fastforce simp: inside_def)
  moreover have "full s f as (a # n1 @ n2)"
    using full_join [OF m1 m2 ain(2)] left right in1 by (simp add: sel_post_def inside_def)
  moreover have "sorted_wrt (\<lambda>a b. \<not> overlap a b) (a # n1 @ n2)"
    using left right in1 in2 ain(2) by (force simp: sel_post_def inside_def sorted_wrt_append overlap_def)
  moreover have "appended as co k as3 co3 k3 (a # n1 @ n2)"
    using appended_trans [OF pick_appended [OF x(1) ch k, of a, folded as1] appended_trans] left right by (auto simp: sel_post_def)
  ultimately show ?thesis by (simp add: sel_post_def)
qed

lemma acts_ok_marks: "acts_ok as \<Longrightarrow> marks as as' new \<Longrightarrow> acts_ok as'"
proof -
  assume a: "acts_ok as" "marks as as' new"
  have "in_int (len (as' ! i))" if "i < length as'" for i
    using a that nth_mem [of i as] by (auto simp: acts_ok_def marks_def same_times_def len_def)
  then show ?thesis by (auto simp: acts_ok_def in_set_conv_nth)
qed

lemma max_comp_spec:
  "acts_ok as \<Longrightarrow> unchosen as + k \<le> length co \<Longrightarrow> nat (f - s) < fuel \<Longrightarrow>
   \<exists>as' co' k' new. max_comp_activity fuel s f as (int (length as)) co k = Inr (as', co', k') \<and> sel_post s f as co k as' co' k' new"
proof (induction fuel arbitrary: s f as co k)
  case (Suc fuel)
  show ?case
  proof (cases "s = f \<or> as = []")
    case True
    then have "sel_post s f as co k as co k []" using Suc.prems(2) by (intro sel_post_empty) (auto simp: cand_def len_def)
    then show ?thesis using True by auto
  next
    case False
    then have ne: "s \<noteq> f" "as \<noteq> []" by auto
    show ?thesis
    proof (cases rule: longest_activity_spec [OF Suc.prems(1) ne])
      case 1
      then have "sel_post s f as co k as co k []" using Suc.prems(2) by (intro sel_post_empty) auto
      then show ?thesis using 1(1) ne by auto
    next
      case (2 x)
      define as1 where "as1 = as[x := (as ! x)\<lparr>chosen := 1\<rparr>]"
      define a where "a = (as ! x)\<lparr>chosen := 1\<rparr>"
      have ch: "chosen (as ! x) = 0" using 2(3) by (simp add: cand_def)
      have u: "unchosen as = Suc (unchosen as1)" using unchosen_pick [OF 2(2) ch] by (simp add: as1_def)
      then have k: "k < length co" using Suc.prems(2) by simp
      have cap: "unchosen as1 + (k + 1) \<le> length (co[k := a])" using u Suc.prems(2) by simp
      have m1: "marks as as1 [a]" using pick_marks [OF 2(2) ch] by (simp add: as1_def a_def)
      have ok1: "acts_ok as1" by (rule acts_ok_marks [OF Suc.prems(1) m1])
      have ain: "s \<le> act_s a" "act_s a < act_f a" "act_f a \<le> f" using 2(3,4) by (auto simp: a_def cand_def len_def)
      have ld: "load as1 x = Inr a" "store co k a = Inr (co[k := a])" "length as1 = length as" using 2(2) k by (simp_all add: as1_def a_def load_in store_in)
      have unf: "max_comp_activity (Suc fuel) s f as (int (length as)) co k =
        (if act_s a = s \<and> act_f a = f then Inr (as1, co[k := a], k + 1)
         else if act_s a = s \<and> act_f a < f then max_comp_activity fuel (act_f a) f as1 (int (length as1)) (co[k := a]) (k + 1)
         else if act_s a > s \<and> act_f a = f then max_comp_activity fuel s (act_s a) as1 (int (length as1)) (co[k := a]) (k + 1)
         else bindr (max_comp_activity fuel s (act_s a) as1 (int (length as1)) (co[k := a]) (k + 1)) (\<lambda>(as, co, k).
             bindr (load as x) (\<lambda>a. max_comp_activity fuel (act_f a) f as (int (length as1)) co k)))"
        using ne 2(1) ld by (simp add: as1_def Let_def)
      have left: "\<exists>as2 co2 k2 n1. (if act_s a = s then Inr (as1, co[k := a], k + 1) else max_comp_activity fuel s (act_s a) as1 (int (length as1)) (co[k := a]) (k + 1))
          = Inr (as2, co2, k2) \<and> sel_post s (act_s a) as1 (co[k := a]) (k + 1) as2 co2 k2 n1"
        using Suc.IH [OF ok1 cap, of "act_s a" s] sel_post_point [of "k + 1" "co[k := a]" s as1] cap ain Suc.prems(3) by (cases "act_s a = s") auto
      then obtain as2 co2 k2 n1 where l: "(if act_s a = s then Inr (as1, co[k := a], k + 1) else max_comp_activity fuel s (act_s a) as1 (int (length as1)) (co[k := a]) (k + 1))
          = Inr (as2, co2, k2)" "sel_post s (act_s a) as1 (co[k := a]) (k + 1) as2 co2 k2 n1" by blast
      have m2: "marks as1 as2 n1" "unchosen as2 + k2 \<le> length co2" "length as2 = length as1" using l(2) cap by (auto simp: sel_post_def appended_def marks_def)
      have ok2: "acts_ok as2" by (rule acts_ok_marks [OF ok1 m2(1)])
      have "chosen (as1 ! x) \<noteq> 0" "as1 ! x = a" using 2(2) by (simp_all add: as1_def a_def)
      then have ax: "load as2 x = Inr a" using m2(1,3) 2(2) ld(3) by (simp add: marks_def load_in)
      have right: "\<exists>as3 co3 k3 n2. (if act_f a = f then Inr (as2, co2, k2) else max_comp_activity fuel (act_f a) f as2 (int (length as2)) co2 k2)
          = Inr (as3, co3, k3) \<and> sel_post (act_f a) f as2 co2 k2 as3 co3 k3 n2"
        using Suc.IH [OF ok2 m2(2), of f "act_f a"] sel_post_point [of k2 co2 f as2] m2(2) ain Suc.prems(3) by (cases "act_f a = f") auto
      then obtain as3 co3 k3 n2 where r: "(if act_f a = f then Inr (as2, co2, k2) else max_comp_activity fuel (act_f a) f as2 (int (length as2)) co2 k2)
          = Inr (as3, co3, k3)" "sel_post (act_f a) f as2 co2 k2 as3 co3 k3 n2" by blast
      have "max_comp_activity (Suc fuel) s f as (int (length as)) co k = Inr (as3, co3, k3)"
        unfolding unf using l(1) r(1) ax ain m2(3) by (auto split: if_splits)
      moreover have "sel_post s f as co k as3 co3 k3 (a # n1 @ n2)"
        using sel_post_join [OF 2(2-4) as1_def a_def k l(2) r(2)] .
      ultimately show ?thesis by blast
    qed
  qed
qed simp

text \<open>C23: on free activities the selection ends, writes at most as many activities as there are, and the result consists
  of activities of the input inside the interval that do not overlap pairwise, to which no further activity of positive length
  inside the interval can be added.\<close>

theorem max_comp_maximal:
  assumes "acts_ok as" "\<forall>a \<in> set as. chosen a = 0" "length as \<le> length comp_as" "nat (f - s) < fuel"
  shows "\<exists>as' comp_as' n. max_comp_activity fuel s f as (int (length as)) comp_as 0 = Inr (as', comp_as', n) \<and> n \<le> length as
    \<and> (\<forall>b \<in> set (take n comp_as'). s \<le> act_s b \<and> act_f b \<le> f \<and> (\<exists>a \<in> set as. act_s a = act_s b \<and> act_f a = act_f b))
    \<and> sorted_wrt (\<lambda>a b. \<not> overlap a b) (take n comp_as')
    \<and> (\<forall>a \<in> set as. s \<le> act_s a \<longrightarrow> act_s a < act_f a \<longrightarrow> act_f a \<le> f \<longrightarrow> (\<exists>b \<in> set (take n comp_as'). overlap a b))"
proof -
  have u: "unchosen as = length as" using assms(2) by (simp add: unchosen_def)
  from max_comp_spec [OF assms(1) _ assms(4), of 0 comp_as] u assms(3) obtain as' co' n new where
    r: "max_comp_activity fuel s f as (int (length as)) comp_as 0 = Inr (as', co', n)" "sel_post s f as comp_as 0 as' co' n new" by auto
  have new: "take n co' = new" "n \<le> length as" using r(2) u by (auto simp: sel_post_def appended_def)
  have "\<exists>b \<in> set new. overlap a b" if a: "a \<in> set as" "s \<le> act_s a" "act_s a < act_f a" "act_f a \<le> f" for a
  proof -
    obtain i where "i < length as" "a = as ! i" using a(1) by (auto simp: in_set_conv_nth)
    moreover have "cand s f a" "0 < len a" using a assms(2) by (auto simp: cand_def len_def)
    ultimately show ?thesis using r(2) by (simp add: sel_post_def full_def)
  qed
  moreover have "s \<le> act_s b \<and> act_f b \<le> f \<and> (\<exists>a \<in> set as. act_s a = act_s b \<and> act_f a = act_f b)" if "b \<in> set new" for b
    using r(2) that nth_mem [of _ as] by (fastforce simp: sel_post_def inside_def same_times_def)
  ultimately show ?thesis using r new by (intro exI [of _ as'] exI [of _ co'] exI [of _ n]) (simp add: sel_post_def)
qed

theorem max_comp_maximal_witness:
  "\<exists>as' comp_as' n. max_comp_activity 11 1 11 test_acts 11 test_acts 0 = Inr (as', comp_as', n) \<and> n \<le> 11
    \<and> sorted_wrt (\<lambda>a b. \<not> overlap a b) (take n comp_as')
    \<and> (\<forall>a \<in> set test_acts. 1 \<le> act_s a \<longrightarrow> act_s a < act_f a \<longrightarrow> act_f a \<le> 11 \<longrightarrow> (\<exists>b \<in> set (take n comp_as'). overlap a b))"
proof -
  have "acts_ok test_acts" "\<forall>a \<in> set test_acts. chosen a = 0" "length test_acts = 11"
    by (simp_all add: acts_ok_def test_acts_def act_def len_def in_int_def)
  then show ?thesis using max_comp_maximal [of test_acts test_acts 11 1 11] by auto
qed

lemma max_comp_not_maximum:
  "max_comp_activity 20 0 10 [act 0 4, act 3 8, act 6 10] 3 [act 0 0, act 0 0, act 0 0] 0
     = Inr ([act 0 4, (act 3 8)\<lparr>chosen := 1\<rparr>, act 6 10], [(act 3 8)\<lparr>chosen := 1\<rparr>, act 0 0, act 0 0], 1)
   \<and> \<not> overlap (act 0 4) (act 6 10)"
  by code_simp

lemma test_greedy_reads_outside: "test_greedy_main (Suc fuel) junk = Inl OutOfBounds"
  by (simp add: test_greedy_main_def longest_activity_def longest_loop.simps test_acts_def act_def loadi_def load_def int_sub_def int_res_def in_int_def)

end
