(* ===== verification/Sockets.thy ===== *)
theory Sockets
  imports C_Text
begin

text \<open>
  What the socket programs share: the sets of descriptors of \<open>select\<close>, the system calls they issue with the answers they
  get, and the table of clients that \<open>springboot-sidecar/select-srv.cpp\<close> and \<open>algs/xhsdk_select_server.cpp\<close> both
  keep.

  The operating system is not part of the repository: the answers of its calls are parameters of the
  programs, and what the programs rely on is stated where it is used.
\<close>

section \<open>Descriptor sets\<close>

text \<open>A set has \<open>FD_SETSIZE\<close> bits; the macros do not check the descriptor.\<close>

definition FD_SETSIZE :: int where
  "FD_SETSIZE = 1024"

definition fd_in_range :: "int \<Rightarrow> bool" where
  "fd_in_range fd \<longleftrightarrow> 0 \<le> fd \<and> fd < FD_SETSIZE"

definition FD_SET :: "int \<Rightarrow> int set \<Rightarrow> cerr + int set" where
  "FD_SET fd S = (if fd_in_range fd then Inr (insert fd S) else Inl OutOfBounds)"

definition FD_CLR :: "int \<Rightarrow> int set \<Rightarrow> cerr + int set" where
  "FD_CLR fd S = (if fd_in_range fd then Inr (S - {fd}) else Inl OutOfBounds)"

definition FD_ISSET :: "int \<Rightarrow> int set \<Rightarrow> cerr + bool" where
  "FD_ISSET fd S = (if fd_in_range fd then Inr (fd \<in> S) else Inl OutOfBounds)"

lemma fd_ops [simp]:
  "fd_in_range fd \<Longrightarrow> FD_SET fd S = Inr (insert fd S)"
  "fd_in_range fd \<Longrightarrow> FD_CLR fd S = Inr (S - {fd})"
  "fd_in_range fd \<Longrightarrow> FD_ISSET fd S = Inr (fd \<in> S)"
  by (simp_all add: FD_SET_def FD_CLR_def FD_ISSET_def)

section \<open>System calls\<close>

text \<open>The calls on connections, with the descriptor and the answer; a negative answer is a failure.\<close>

datatype call =
    SAccept int
  | SRead int int
  | SWrite int string int
  | SClose int

text \<open>The answers of the calls that open the listening socket.\<close>

record listen_answers =
  su_socket :: int
  su_sockopt :: int
  su_bind :: int
  su_listen :: int

text \<open>\<open>atoi\<close> on the port argument.\<close>

definition atoi :: "string \<Rightarrow> cerr + int" where
  "atoi s = (case scan_num s of ScanOk k _ \<Rightarrow> int_res k | _ \<Rightarrow> Inr 0)"

definition port_arg :: "int \<Rightarrow> string list \<Rightarrow> cerr + int" where
  "port_arg dflt argv = (if 1 < length argv then atoi (argv ! 1) else Inr dflt)"

definition htons :: "int \<Rightarrow> int" where
  "htons p = p mod 65536"

section \<open>The table of clients\<close>

text \<open>A slot with descriptor 0 is free.\<close>

record client =
  cl_fd :: int
  cl_ip :: string

definition SOCK_CLI_MAX :: nat where
  "SOCK_CLI_MAX = 1024"

fun xhsdkclient_add :: "'a client_scheme \<Rightarrow> 'a client_scheme list \<Rightarrow> 'a client_scheme list option" where
  "xhsdkclient_add cli [] = None"
| "xhsdkclient_add cli (c # cs) = (if cl_fd c = 0 then Some (cli # cs) else map_option ((#) c) (xhsdkclient_add cli cs))"

definition used_fds :: "'a client_scheme list \<Rightarrow> int list" where
  "used_fds cs = filter (\<lambda>f. f \<noteq> 0) (map cl_fd cs)"

lemma add_full: "xhsdkclient_add cli cs = None \<longleftrightarrow> 0 \<notin> cl_fd ` set cs"
  by (induction cs) auto

lemma add_split:
  "xhsdkclient_add cli cs = Some cs' \<Longrightarrow>
   \<exists>pre c post. cs = pre @ c # post \<and> cl_fd c = 0 \<and> cs' = pre @ cli # post \<and> 0 \<notin> cl_fd ` set pre"
proof (induction cs arbitrary: cs')
  case (Cons c cs)
  show ?case
  proof (cases "cl_fd c = 0")
    case True
    then show ?thesis using Cons.prems by (intro exI [of _ "[]"] exI [of _ c] exI [of _ cs]) simp
  next
    case False
    then obtain cs1 where cs1: "xhsdkclient_add cli cs = Some cs1" "cs' = c # cs1" using Cons.prems by auto
    from Cons.IH [OF cs1(1)] obtain pre d post where "cs = pre @ d # post" "cl_fd d = 0" "cs1 = pre @ cli # post" "0 \<notin> cl_fd ` set pre" by auto
    then show ?thesis using cs1(2) False by (intro exI [of _ "c # pre"] exI [of _ d] exI [of _ post]) simp
  qed
qed simp

end
