(* ===== verification/Sidecar_Server.thy ===== *)
theory Sidecar_Server
  imports Sockets
begin

text \<open>
  The HTTP health server of \<open>springboot-sidecar/select-srv.cpp\<close>: a \<open>select\<close> loop over a table of 1024 clients that reads a
  request from each client, answers it once and closes the connection.

  The loop body is a function of the answers the system calls give in that round; \<open>sidecar_reach\<close> collects the states of the
  table, with the calls issued so far, over all rounds in which \<open>accept\<close> answers with a fresh descriptor.
  \<open>sidecar_refines_protocol\<close> shows that the calls follow the life of a connection, that the
  table always holds exactly the open connections, and that a round has undefined behaviour exactly when it puts a descriptor
  into the table that does not fit a descriptor set.
\<close>

section \<open>The server\<close>

record sockcli = client +
  alive :: int

record selectctx =
  rfds :: "int set"
  wfds :: "int set"
  maxfd :: int

definition selectctx_init :: "int \<Rightarrow> cerr + selectctx" where
  "selectctx_init listenfd = bindr (FD_SET listenfd {}) (\<lambda>r. Inr \<lparr>rfds = r, wfds = {}, maxfd = listenfd\<rparr>)"

fun selectctx_set_cli_fds :: "sockcli list \<Rightarrow> selectctx \<Rightarrow> cerr + selectctx" where
  "selectctx_set_cli_fds [] ctx = Inr ctx"
| "selectctx_set_cli_fds (c # cs) ctx =
     (if cl_fd c > 0 then
        bindr (FD_SET (cl_fd c) (rfds ctx)) (\<lambda>r. bindr (FD_SET (cl_fd c) (wfds ctx)) (\<lambda>w.
        selectctx_set_cli_fds cs \<lparr>rfds = r, wfds = w, maxfd = (if cl_fd c > maxfd ctx then cl_fd c else maxfd ctx)\<rparr>))
      else selectctx_set_cli_fds cs ctx)"

text \<open>The answers of one round: of \<open>select\<close> with the two sets it leaves, of \<open>accept\<close> with the address of the client, and
  of the \<open>read\<close> and \<open>write\<close> in each slot, with whether \<open>errno\<close> is \<open>EAGAIN\<close> or \<open>EINTR\<close>.\<close>

record answers =
  a_select :: int
  a_rfds :: "int set"
  a_wfds :: "int set"
  a_accept :: "int \<times> string"
  a_read :: "nat \<Rightarrow> int \<times> bool"
  a_write :: "nat \<Rightarrow> int \<times> bool"

definition select_on_socket_connect :: "answers \<Rightarrow> selectctx \<Rightarrow> sockcli \<Rightarrow> sockcli list \<Rightarrow> cerr + int \<times> selectctx \<times> sockcli list \<times> call list" where
  "select_on_socket_connect an sctx cli clis =
     (let confd = fst (a_accept an) in
      if confd < 0 then Inr (- 1, sctx, clis, [SAccept confd]) else
      let cli = cli\<lparr>cl_fd := confd, cl_ip := snd (a_accept an)\<rparr> in
      case xhsdkclient_add cli clis of
        None \<Rightarrow> Inr (- 2, sctx, clis, [SAccept confd, SClose confd])
      | Some clis' \<Rightarrow>
          bindr (FD_SET confd (rfds sctx)) (\<lambda>r. bindr (FD_SET confd (wfds sctx)) (\<lambda>w.
          Inr (0, \<lparr>rfds = r, wfds = w, maxfd = (if confd > maxfd sctx then confd else maxfd sctx)\<rparr>, clis', [SAccept confd]))))"

text \<open>Reading and writing return a value and the call they make.\<close>

definition sidecar_select_on_read :: "int \<Rightarrow> int \<times> bool \<Rightarrow> int \<times> call" where
  "sidecar_select_on_read fd r = (if fst r \<le> 0 then if fst r < 0 \<and> snd r then 0 else - 1 else fst r, SRead fd (fst r))"

definition sidecar_reply :: string where
  "sidecar_reply =
     (let crlf = [CHR 0x0D, CHR 0x0A] in
      ''HTTP/1.1 200 OK '' @ crlf @ ''Content-Type:Application/json'' @ crlf @ crlf
      @ ''{'' @ [CHR 0x22] @ ''status'' @ [CHR 0x22] @ '':'' @ [CHR 0x22] @ ''UP'' @ [CHR 0x22] @ ''}'' @ crlf @ crlf)"

definition sidecar_select_on_write :: "int \<Rightarrow> int \<times> bool \<Rightarrow> int \<times> call" where
  "sidecar_select_on_write fd r =
     (if fst r \<le> 0 then if fst r < 0 \<and> snd r then 0 else - 1 else fst r, SWrite fd sidecar_reply (fst r))"

text \<open>The two halves of the loop body of \<open>select_on_socket_rw\<close> for the client of one slot.\<close>

definition slot_read :: "selectctx \<Rightarrow> int \<times> bool \<Rightarrow> sockcli \<Rightarrow> cerr + sockcli \<times> call list" where
  "slot_read sctx r c =
     (if cl_fd c \<noteq> 0 then
        bindr (FD_ISSET (cl_fd c) (rfds sctx)) (\<lambda>ready.
        if ready then
          let (n, ev) = sidecar_select_on_read (cl_fd c) r in
          if n > 0 then Inr (c\<lparr>alive := 1\<rparr>, [ev]) else Inr (c\<lparr>cl_fd := 0\<rparr>, [ev, SClose (cl_fd c)])
        else Inr (c, []))
      else Inr (c, []))"

definition slot_write :: "selectctx \<Rightarrow> int \<times> bool \<Rightarrow> sockcli \<Rightarrow> cerr + sockcli \<times> call list" where
  "slot_write sctx w c =
     (if cl_fd c \<noteq> 0 then
        bindr (FD_ISSET (cl_fd c) (wfds sctx)) (\<lambda>ready.
        if ready \<and> alive c \<noteq> 0
        then let (n, ev) = sidecar_select_on_write (cl_fd c) w in Inr (c\<lparr>alive := 0, cl_fd := 0\<rparr>, [ev, SClose (cl_fd c)])
        else Inr (c, []))
      else Inr (c, []))"

fun select_on_socket_rw :: "selectctx \<Rightarrow> answers \<Rightarrow> nat \<Rightarrow> sockcli list \<Rightarrow> cerr + sockcli list \<times> call list" where
  "select_on_socket_rw sctx an i [] = Inr ([], [])"
| "select_on_socket_rw sctx an i (c # cs) =
     bindr (slot_read sctx (a_read an i) c) (\<lambda>(c, ev1).
     bindr (slot_write sctx (a_write an i) c) (\<lambda>(c, ev2).
     bindr (select_on_socket_rw sctx an (Suc i) cs) (\<lambda>(cs, ev3).
     Inr (c # cs, ev1 @ ev2 @ ev3))))"

text \<open>One round of the loop of \<open>sidecar_select_main\<close>; the first component is whether it breaks the loop.\<close>

definition sidecar_round :: "int \<Rightarrow> answers \<Rightarrow> sockcli list \<Rightarrow> cerr + bool \<times> sockcli list \<times> call list" where
  "sidecar_round fd an clis =
     bindr (selectctx_init fd) (\<lambda>sctx. bindr (selectctx_set_cli_fds clis sctx) (\<lambda>sctx.
     if a_select an = - 1 then Inr (True, clis, [])
     else if a_select an = 0 then Inr (False, clis, [])
     else
       let sctx = sctx\<lparr>rfds := a_rfds an, wfds := a_wfds an\<rparr> in
       bindr (FD_ISSET fd (rfds sctx)) (\<lambda>conn.
       bindr (if conn then select_on_socket_connect an sctx \<lparr>cl_fd = fd, cl_ip = [], alive = 0\<rparr> clis else Inr (0, sctx, clis, [])) (\<lambda>(r, sctx, clis, ev).
       if r = - 1 then Inr (True, clis, ev)
       else bindr (select_on_socket_rw sctx an 0 clis) (\<lambda>(clis, ev'). Inr (False, clis, ev @ ev'))))))"

text \<open>The rounds for a list of answers: \<open>Some 0\<close> when the loop has ended, \<open>None\<close> while it goes on.\<close>

fun sidecar_loop :: "int \<Rightarrow> answers list \<Rightarrow> sockcli list \<Rightarrow> cerr + int option \<times> sockcli list \<times> call list" where
  "sidecar_loop fd [] clis = Inr (None, clis, [])"
| "sidecar_loop fd (an # ans) clis =
     bindr (sidecar_round fd an clis) (\<lambda>(stop, clis, ev).
     if stop then Inr (Some 0, clis, ev)
     else bindr (sidecar_loop fd ans clis) (\<lambda>(r, clis, ev'). Inr (r, clis, ev @ ev')))"

definition sidecar_clis :: "sockcli list" where
  "sidecar_clis = replicate SOCK_CLI_MAX \<lparr>cl_fd = 0, cl_ip = [], alive = 0\<rparr>"

text \<open>The whole program; the port it binds is part of the result.\<close>

definition sidecar_select_main :: "string list \<Rightarrow> listen_answers \<Rightarrow> answers list \<Rightarrow> cerr + int option \<times> int option \<times> call list" where
  "sidecar_select_main argv su ans =
     bindr (port_arg 8200 argv) (\<lambda>port.
     let fd = su_socket su in
     if fd < 0 then Inr (Some (- 1), None, [])
     else if su_sockopt su = - 1 then Inr (Some (- 1), None, [SClose fd])
     else if su_bind su < 0 then Inr (Some (- 1), Some (htons port), [])
     else if su_listen su < 0 then Inr (Some (- 1), Some (htons port), [])
     else bindr (sidecar_loop fd ans sidecar_clis) (\<lambda>(r, _, ev). Inr (r, Some (htons port), ev)))"

section \<open>The life of a connection\<close>

text \<open>A connection is accepted, read from, answered and closed. A failed read must be followed by the close.\<close>

datatype phase = Shut | Open | Asked | Failed | Answered

fun conn_step :: "(int \<Rightarrow> phase) \<Rightarrow> call \<Rightarrow> (int \<Rightarrow> phase) option" where
  "conn_step ph (SAccept c) = (if c < 0 then Some ph else if ph c = Shut then Some (ph(c := Open)) else None)"
| "conn_step ph (SRead fd r) = (if ph fd = Open \<or> ph fd = Asked then Some (ph(fd := if 0 < r then Asked else Failed)) else None)"
| "conn_step ph (SWrite fd s r) = (if ph fd = Asked \<and> s = sidecar_reply then Some (ph(fd := Answered)) else None)"
| "conn_step ph (SClose fd) = (if ph fd = Shut then None else Some (ph(fd := Shut)))"

fun conn_run :: "(int \<Rightarrow> phase) \<Rightarrow> call list \<Rightarrow> (int \<Rightarrow> phase) option" where
  "conn_run ph [] = Some ph"
| "conn_run ph (e # es) = (case conn_step ph e of None \<Rightarrow> None | Some ph' \<Rightarrow> conn_run ph' es)"

text \<open>The phases the table stands for.\<close>

fun phase_of :: "sockcli list \<Rightarrow> int \<Rightarrow> phase" where
  "phase_of [] fd = Shut"
| "phase_of (c # cs) fd = (if cl_fd c = fd \<and> fd \<noteq> 0 then if alive c \<noteq> 0 then Asked else Open else phase_of cs fd)"

text \<open>What the program relies on: \<open>accept\<close> fails or answers with a descriptor that is not open; the standard input stays open, so that it is not 0.\<close>

definition accept_ok :: "int \<Rightarrow> sockcli list \<Rightarrow> answers \<Rightarrow> bool" where
  "accept_ok fd clis an \<longleftrightarrow> (let c = fst (a_accept an) in c < 0 \<or> (0 < c \<and> c \<noteq> fd \<and> c \<notin> set (used_fds clis)))"

text \<open>The round accepts a client for whom there is a free slot, but whose descriptor is outside a descriptor set.\<close>

definition fd_overflow :: "int \<Rightarrow> sockcli list \<Rightarrow> answers \<Rightarrow> bool" where
  "fd_overflow fd clis an \<longleftrightarrow> a_select an \<noteq> - 1 \<and> a_select an \<noteq> 0 \<and> fd \<in> a_rfds an \<and> FD_SETSIZE \<le> fst (a_accept an) \<and> 0 \<in> cl_fd ` set clis"

inductive sidecar_reach :: "int \<Rightarrow> sockcli list \<Rightarrow> call list \<Rightarrow> bool" for fd where
  start: "sidecar_reach fd sidecar_clis []"
| round: "sidecar_reach fd clis tr \<Longrightarrow> accept_ok fd clis an \<Longrightarrow> sidecar_round fd an clis = Inr (stop, clis', ev) \<Longrightarrow> sidecar_reach fd clis' (tr @ ev)"

definition fds_ok :: "sockcli list \<Rightarrow> bool" where
  "fds_ok clis \<longleftrightarrow> distinct (used_fds clis) \<and> (\<forall>f \<in> set (used_fds clis). 0 < f \<and> f < FD_SETSIZE)"

section \<open>The table and the phases\<close>

lemma used_fds_simps [simp]:
  "used_fds [] = []"
  "used_fds (c # cs) = (if cl_fd c \<noteq> 0 then cl_fd c # used_fds cs else used_fds cs)"
  "used_fds (cs @ ds) = used_fds cs @ used_fds ds"
  by (simp_all add: used_fds_def)

lemma conn_run_append: "conn_run ph (xs @ ys) = (case conn_run ph xs of None \<Rightarrow> None | Some ph' \<Rightarrow> conn_run ph' ys)"
  by (induction xs arbitrary: ph) (auto split: option.splits)

lemma phase_free: "f \<notin> set (used_fds cs) \<Longrightarrow> phase_of cs f = Shut"
  by (induction cs) (auto split: if_splits)

lemma phase_mid:
  "cl_fd c \<notin> set (used_fds pre) \<Longrightarrow> phase_of (pre @ c # post) =
   (if cl_fd c = 0 then phase_of (pre @ post) else (phase_of (pre @ post))(cl_fd c := if alive c \<noteq> 0 then Asked else Open))"
  by (induction pre) (auto split: if_splits)

text \<open>A slot changes its own descriptor only.\<close>

lemma phase_slot:
  assumes "fds_ok (pre @ c # post)" "cl_fd c \<noteq> 0" "cl_fd c' = cl_fd c \<or> cl_fd c' = 0"
  shows "phase_of (pre @ c' # post) = (phase_of (pre @ c # post))(cl_fd c := if cl_fd c' = 0 then Shut else if alive c' \<noteq> 0 then Asked else Open)"
    and "phase_of (pre @ c # post) (cl_fd c) = (if alive c \<noteq> 0 then Asked else Open)" and "fds_ok (pre @ c' # post)"
proof -
  have n: "cl_fd c \<notin> set (used_fds pre)" "cl_fd c \<notin> set (used_fds (pre @ post))" "0 \<notin> set (used_fds pre)" using assms(1,2) by (auto simp: fds_ok_def)
  have z: "phase_of (pre @ post) (cl_fd c) = Shut" by (rule phase_free [OF n(2)])
  have c': "cl_fd c' \<notin> set (used_fds pre)" using assms(3) n by auto
  show "phase_of (pre @ c' # post) = (phase_of (pre @ c # post))(cl_fd c := if cl_fd c' = 0 then Shut else if alive c' \<noteq> 0 then Asked else Open)"
    using assms(2,3) z by (auto simp: phase_mid [OF c'] phase_mid [OF n(1)])
  show "phase_of (pre @ c # post) (cl_fd c) = (if alive c \<noteq> 0 then Asked else Open)" using assms(2) by (simp add: phase_mid [OF n(1)])
  show "fds_ok (pre @ c' # post)" using assms by (auto simp: fds_ok_def split: if_splits)
qed

lemma fds_ok_range: "fds_ok (pre @ c # post) \<Longrightarrow> cl_fd c \<noteq> 0 \<Longrightarrow> fd_in_range (cl_fd c)"
  by (auto simp: fds_ok_def fd_in_range_def)

lemma slot_read_ok:
  assumes ok: "fds_ok (pre @ c # post)"
  shows "\<exists>c' ev. slot_read sctx r c = Inr (c', ev) \<and> fds_ok (pre @ c' # post)
    \<and> conn_run (phase_of (pre @ c # post)) ev = Some (phase_of (pre @ c' # post))"
proof (cases "cl_fd c = 0 \<or> cl_fd c \<notin> rfds sctx")
  case True
  then show ?thesis using ok fds_ok_range [OF ok] by (auto simp: slot_read_def)
next
  case False
  then have f: "cl_fd c \<noteq> 0" "cl_fd c \<in> rfds sctx" by auto
  define c' where "c' = (if 0 < fst r then c\<lparr>alive := 1\<rparr> else c\<lparr>cl_fd := 0\<rparr>)"
  define ev where "ev = (if 0 < fst r then [SRead (cl_fd c) (fst r)] else [SRead (cl_fd c) (fst r), SClose (cl_fd c)])"
  have "slot_read sctx r c = Inr (c', ev)" using f fds_ok_range [OF ok f(1)] by (simp add: slot_read_def c'_def ev_def sidecar_select_on_read_def)
  moreover have cc: "cl_fd c' = cl_fd c \<or> cl_fd c' = 0" by (simp add: c'_def)
  moreover have "conn_run (phase_of (pre @ c # post)) ev = Some (phase_of (pre @ c' # post))"
    using phase_slot(1,2) [OF ok f(1) cc] f(1) by (auto simp: ev_def c'_def)
  ultimately show ?thesis using phase_slot(3) [OF ok f(1) cc] by blast
qed

lemma slot_write_ok:
  assumes ok: "fds_ok (pre @ c # post)"
  shows "\<exists>c' ev. slot_write sctx w c = Inr (c', ev) \<and> fds_ok (pre @ c' # post)
    \<and> conn_run (phase_of (pre @ c # post)) ev = Some (phase_of (pre @ c' # post))"
proof (cases "cl_fd c = 0 \<or> cl_fd c \<notin> wfds sctx \<or> alive c = 0")
  case True
  then show ?thesis using ok fds_ok_range [OF ok] by (auto simp: slot_write_def)
next
  case False
  then have f: "cl_fd c \<noteq> 0" "cl_fd c \<in> wfds sctx" "alive c \<noteq> 0" by auto
  let ?c = "c\<lparr>alive := 0, cl_fd := 0\<rparr>"
  have cc: "cl_fd ?c = cl_fd c \<or> cl_fd ?c = 0" by simp
  have "slot_write sctx w c = Inr (?c, [SWrite (cl_fd c) sidecar_reply (fst w), SClose (cl_fd c)])"
    using f fds_ok_range [OF ok f(1)] by (simp add: slot_write_def sidecar_select_on_write_def)
  moreover have "conn_run (phase_of (pre @ c # post)) [SWrite (cl_fd c) sidecar_reply (fst w), SClose (cl_fd c)] = Some (phase_of (pre @ ?c # post))"
    using phase_slot(1,2) [OF ok f(1) cc] f by simp
  ultimately show ?thesis using phase_slot(3) [OF ok f(1) cc] by blast
qed

lemma rw_ok:
  "fds_ok (pre @ cs) \<Longrightarrow> \<exists>cs' ev. select_on_socket_rw sctx an i cs = Inr (cs', ev) \<and> fds_ok (pre @ cs') \<and> length cs' = length cs
    \<and> conn_run (phase_of (pre @ cs)) ev = Some (phase_of (pre @ cs'))"
proof (induction cs arbitrary: pre i)
  case (Cons c cs)
  from slot_read_ok [OF Cons.prems, of sctx "a_read an i"] obtain c1 ev1 where
    1: "slot_read sctx (a_read an i) c = Inr (c1, ev1)" "fds_ok (pre @ c1 # cs)" "conn_run (phase_of (pre @ c # cs)) ev1 = Some (phase_of (pre @ c1 # cs))" by blast
  from slot_write_ok [OF 1(2), of sctx "a_write an i"] obtain c2 ev2 where
    2: "slot_write sctx (a_write an i) c1 = Inr (c2, ev2)" "fds_ok (pre @ c2 # cs)" "conn_run (phase_of (pre @ c1 # cs)) ev2 = Some (phase_of (pre @ c2 # cs))" by blast
  from Cons.IH [of "pre @ [c2]" "Suc i"] 2(2) obtain cs' ev3 where
    3: "select_on_socket_rw sctx an (Suc i) cs = Inr (cs', ev3)" "fds_ok (pre @ c2 # cs')" "length cs' = length cs"
      "conn_run (phase_of (pre @ c2 # cs)) ev3 = Some (phase_of (pre @ c2 # cs'))" by auto
  have "conn_run (phase_of (pre @ c # cs)) (ev1 @ ev2 @ ev3) = Some (phase_of (pre @ c2 # cs'))" using 1(3) 2(3) 3(4) by (simp add: conn_run_append)
  moreover have "select_on_socket_rw sctx an i (c # cs) = Inr (c2 # cs', ev1 @ ev2 @ ev3)" using 1(1) 2(1) 3(1) by simp
  ultimately show ?case using 3(2,3) by auto
qed simp

lemma set_cli_fds_ok: "fds_ok cs \<Longrightarrow> \<exists>ctx'. selectctx_set_cli_fds cs ctx = Inr ctx'"
proof (induction cs arbitrary: ctx)
  case (Cons c cs)
  then have "fds_ok cs" "cl_fd c > 0 \<longrightarrow> fd_in_range (cl_fd c)" by (auto simp: fds_ok_def fd_in_range_def split: if_splits)
  then show ?case using Cons.IH by auto
qed simp

lemma connect_ok:
  assumes ok: "fds_ok clis" and acc: "accept_ok fd clis an" and small: "fst (a_accept an) < FD_SETSIZE \<or> 0 \<notin> cl_fd ` set clis"
  shows "\<exists>r sctx' clis' ev. select_on_socket_connect an sctx \<lparr>cl_fd = fd, cl_ip = [], alive = 0\<rparr> clis = Inr (r, sctx', clis', ev)
    \<and> fds_ok clis' \<and> length clis' = length clis \<and> conn_run (phase_of clis) ev = Some (phase_of clis')"
proof (cases "fst (a_accept an) < 0")
  case True
  then show ?thesis using ok by (simp add: select_on_socket_connect_def Let_def)
next
  case False
  define c where "c = fst (a_accept an)"
  define cli :: sockcli where "cli = \<lparr>cl_fd = c, cl_ip = snd (a_accept an), alive = 0\<rparr>"
  have c: "0 < c" "c \<notin> set (used_fds clis)" "\<not> c < 0" using False acc by (auto simp: accept_ok_def c_def Let_def)
  show ?thesis
  proof (cases "xhsdkclient_add cli clis")
    case None
    moreover have "conn_run (phase_of clis) [SAccept c, SClose c] = Some (phase_of clis)" using c phase_free [OF c(2)] by (auto simp: fun_eq_iff)
    moreover have "select_on_socket_connect an sctx \<lparr>cl_fd = fd, cl_ip = [], alive = 0\<rparr> clis = Inr (- 2, sctx, clis, [SAccept c, SClose c])"
      using None c(3) by (simp add: select_on_socket_connect_def cli_def c_def Let_def)
    ultimately show ?thesis using ok by blast
  next
    case (Some clis')
    from add_split [OF Some] obtain pre d post where s: "clis = pre @ d # post" "cl_fd d = 0" "clis' = pre @ cli # post" "0 \<notin> cl_fd ` set pre" by blast
    have sz: "c < FD_SETSIZE" using small s(1,2) by (auto simp: c_def)
    have rng: "fd_in_range c" using c sz by (simp add: fd_in_range_def)
    have n: "cl_fd d \<notin> set (used_fds pre)" "cl_fd cli \<notin> set (used_fds pre)" using s c(2) by (auto simp: cli_def used_fds_def)
    have "conn_run (phase_of clis) [SAccept c] = Some (phase_of clis')"
      using c phase_free [OF c(2)] s(2) unfolding s(1,3) phase_mid [OF n(1)] phase_mid [OF n(2)] by (simp add: cli_def)
    moreover have "fds_ok clis'" "length clis' = length clis" using ok c s sz by (auto simp: fds_ok_def cli_def)
    moreover have "select_on_socket_connect an sctx \<lparr>cl_fd = fd, cl_ip = [], alive = 0\<rparr> clis =
      Inr (0, \<lparr>rfds = insert c (rfds sctx), wfds = insert c (wfds sctx), maxfd = (if c > maxfd sctx then c else maxfd sctx)\<rparr>, clis', [SAccept c])"
      using Some c(3) rng by (simp add: select_on_socket_connect_def cli_def c_def Let_def)
    ultimately show ?thesis by blast
  qed
qed

lemma round_overflow:
  assumes ok: "fds_ok clis" and fd: "fd_in_range fd" and big: "fd_overflow fd clis an"
  shows "sidecar_round fd an clis = Inl OutOfBounds"
proof -
  define s0 where "s0 = \<lparr>rfds = {fd}, wfds = {}, maxfd = fd\<rparr>"
  have init: "selectctx_init fd = Inr s0" using fd by (simp add: selectctx_init_def s0_def)
  obtain s1 where s1: "selectctx_set_cli_fds clis s0 = Inr s1" using set_cli_fds_ok [OF ok] by blast
  let ?s = "s1\<lparr>rfds := a_rfds an, wfds := a_wfds an\<rparr>"
  have sel: "a_select an \<noteq> - 1" "a_select an \<noteq> 0" "fd \<in> a_rfds an" and c: "FD_SETSIZE \<le> fst (a_accept an)" "0 \<in> cl_fd ` set clis"
    using big by (simp_all add: fd_overflow_def)
  let ?cli = "\<lparr>cl_fd = fst (a_accept an), cl_ip = snd (a_accept an), alive = 0\<rparr> :: sockcli"
  obtain clis' where "xhsdkclient_add ?cli clis = Some clis'" using add_full [of ?cli clis] c(2) by (cases "xhsdkclient_add ?cli clis") auto
  moreover have "\<not> fst (a_accept an) < 0" "\<not> fd_in_range (fst (a_accept an))" using c(1) by (auto simp: fd_in_range_def FD_SETSIZE_def)
  ultimately have "select_on_socket_connect an ?s \<lparr>cl_fd = fd, cl_ip = [], alive = 0\<rparr> clis = Inl OutOfBounds"
    by (simp add: select_on_socket_connect_def Let_def FD_SET_def)
  then show ?thesis using fd sel by (simp add: sidecar_round_def init s1 Let_def)
qed

lemma round_ok:
  assumes ok: "fds_ok clis" and acc: "accept_ok fd clis an" and fd: "fd_in_range fd" and small: "\<not> fd_overflow fd clis an"
  shows "\<exists>stop clis' ev. sidecar_round fd an clis = Inr (stop, clis', ev) \<and> fds_ok clis' \<and> length clis' = length clis
    \<and> conn_run (phase_of clis) ev = Some (phase_of clis')"
proof -
  define s0 where "s0 = \<lparr>rfds = {fd}, wfds = {}, maxfd = fd\<rparr>"
  have init: "selectctx_init fd = Inr s0" using fd by (simp add: selectctx_init_def s0_def)
  obtain s1 where s1: "selectctx_set_cli_fds clis s0 = Inr s1" using set_cli_fds_ok [OF ok] by blast
  let ?s = "s1\<lparr>rfds := a_rfds an, wfds := a_wfds an\<rparr>"
  let ?con = "if fd \<in> a_rfds an then select_on_socket_connect an ?s \<lparr>cl_fd = fd, cl_ip = [], alive = 0\<rparr> clis else Inr (0, ?s, clis, [])"
  show ?thesis
  proof (cases "a_select an = - 1 \<or> a_select an = 0")
    case True
    then show ?thesis using ok by (auto simp: sidecar_round_def init s1)
  next
    case sel: False
    have "\<exists>r s2 clis1 ev. ?con = Inr (r, s2, clis1, ev) \<and> fds_ok clis1 \<and> length clis1 = length clis \<and> conn_run (phase_of clis) ev = Some (phase_of clis1)"
      using connect_ok [OF ok acc, of ?s] ok small sel by (auto simp: fd_overflow_def)
    then obtain r s2 clis1 ev where
      con: "?con = Inr (r, s2, clis1, ev)" "fds_ok clis1" "length clis1 = length clis" "conn_run (phase_of clis) ev = Some (phase_of clis1)" by blast
    obtain clis2 ev2 where rw: "select_on_socket_rw s2 an 0 clis1 = Inr (clis2, ev2)" "fds_ok clis2" "length clis2 = length clis1"
        "conn_run (phase_of clis1) ev2 = Some (phase_of clis2)" using rw_ok [of "[]" clis1 s2 an 0] con(2) by auto
    have "sidecar_round fd an clis = (if r = - 1 then Inr (True, clis1, ev) else Inr (False, clis2, ev @ ev2))"
      using fd sel by (simp add: sidecar_round_def init s1 Let_def con(1) rw(1))
    then show ?thesis using con rw by (cases "r = - 1") (auto simp: conn_run_append)
  qed
qed

lemma sidecar_start: "fds_ok sidecar_clis" "length sidecar_clis = SOCK_CLI_MAX" "phase_of sidecar_clis = (\<lambda>_. Shut)"
proof -
  have u: "used_fds sidecar_clis = []" by (simp add: sidecar_clis_def used_fds_def)
  then show "fds_ok sidecar_clis" "phase_of sidecar_clis = (\<lambda>_. Shut)" by (auto simp: fds_ok_def fun_eq_iff phase_free)
  show "length sidecar_clis = SOCK_CLI_MAX" by (simp add: sidecar_clis_def)
qed

lemma reach_ok:
  "sidecar_reach fd clis tr \<Longrightarrow> fd_in_range fd \<Longrightarrow> fds_ok clis \<and> length clis = SOCK_CLI_MAX \<and> conn_run (\<lambda>_. Shut) tr = Some (phase_of clis)"
proof (induction rule: sidecar_reach.induct)
  case start
  then show ?case by (simp add: sidecar_start)
next
  case (round clis tr an stop clis' ev)
  then have ok: "fds_ok clis" "length clis = SOCK_CLI_MAX" "conn_run (\<lambda>_. Shut) tr = Some (phase_of clis)" by auto
  have "\<not> fd_overflow fd clis an" using round_overflow [OF ok(1) round.prems, of an] round.hyps(3) by auto
  from round_ok [OF ok(1) round.hyps(2) round.prems this] show ?case using ok round.hyps(3) by (auto simp: conn_run_append)
qed

lemma phase_used: "f \<in> set (used_fds cs) \<Longrightarrow> phase_of cs f \<noteq> Shut"
  by (induction cs) (auto split: if_splits simp: used_fds_def)

text \<open>C24: in every state the server can reach, the calls issued so far are a run of the life of a connection for every
  descriptor (accepted when shut, read while open, answered once and only after data was read, closed once), the table holds exactly the
  connections that are not shut, each once, and whatever the next answers are, the round is free of undefined behaviour unless it takes a client with a descriptor of 1024
  or more into a free slot: then \<open>FD_SET\<close> writes outside the set. The listening descriptor is below 1024, and
  \<open>accept\<close> is asked to fail or to give a positive descriptor that is not open.\<close>

theorem sidecar_refines_protocol:
  assumes "sidecar_reach fd clis tr" "fd_in_range fd"
  shows "conn_run (\<lambda>_. Shut) tr = Some (phase_of clis) \<and> distinct (used_fds clis)
    \<and> (\<forall>f. phase_of clis f \<noteq> Shut \<longleftrightarrow> f \<in> set (used_fds clis))
    \<and> (\<forall>an. accept_ok fd clis an \<longrightarrow>
         (if fd_overflow fd clis an then sidecar_round fd an clis = Inl OutOfBounds else \<exists>res. sidecar_round fd an clis = Inr res))"
proof -
  have r: "fds_ok clis" "conn_run (\<lambda>_. Shut) tr = Some (phase_of clis)" using reach_ok [OF assms] by auto
  have "\<forall>f. phase_of clis f \<noteq> Shut \<longleftrightarrow> f \<in> set (used_fds clis)" using phase_free phase_used by blast
  moreover have "if fd_overflow fd clis an then sidecar_round fd an clis = Inl OutOfBounds else \<exists>res. sidecar_round fd an clis = Inr res"
    if "accept_ok fd clis an" for an using round_ok [OF r(1) that assms(2)] round_overflow [OF r(1) assms(2), of an] by auto
  moreover have "distinct (used_fds clis)" using r(1) by (simp add: fds_ok_def)
  ultimately show ?thesis using r(2) by blast
qed

text \<open>A round in which a client connects, sends a request and is answered.\<close>

definition demo_answers :: answers where
  "demo_answers = \<lparr>a_select = 1, a_rfds = {3}, a_wfds = {}, a_accept = (4, ''10.0.0.1''), a_read = (\<lambda>_. (20, False)), a_write = (\<lambda>_. (70, False))\<rparr>"

lemma rw_idle: "\<forall>c \<in> set cs. cl_fd c = 0 \<Longrightarrow> select_on_socket_rw sctx an i cs = Inr (cs, [])"
  by (induction cs arbitrary: i) (auto simp: slot_read_def slot_write_def)

lemma set_fds_idle: "\<forall>c \<in> set cs. cl_fd c = 0 \<Longrightarrow> selectctx_set_cli_fds cs ctx = Inr ctx"
  by (induction cs) auto

lemma demo_round:
  "\<exists>clis. sidecar_round 3 demo_answers sidecar_clis = Inr (False, clis, [SAccept 4, SRead 4 20, SWrite 4 sidecar_reply 70, SClose 4])"
proof -
  have r: "fd_in_range 3" "fd_in_range 4" by (simp_all add: fd_in_range_def FD_SETSIZE_def)
  let ?z = "\<lparr>cl_fd = 0, cl_ip = [], alive = 0\<rparr>"
  have t: "sidecar_clis = ?z # replicate 1023 ?z"
    unfolding sidecar_clis_def SOCK_CLI_MAX_def using replicate_Suc [of 1023 ?z] by (simp del: replicate_Suc)
  show ?thesis using r
    by (simp add: t sidecar_round_def selectctx_init_def set_fds_idle rw_idle demo_answers_def select_on_socket_connect_def
        slot_read_def slot_write_def sidecar_select_on_read_def sidecar_select_on_write_def)
qed

theorem sidecar_refines_protocol_witness:
  "\<exists>clis. sidecar_reach 3 clis [SAccept 4, SRead 4 20, SWrite 4 sidecar_reply 70, SClose 4]
    \<and> conn_run (\<lambda>_. Shut) [SAccept 4, SRead 4 20, SWrite 4 sidecar_reply 70, SClose 4] = Some (phase_of clis)
    \<and> sidecar_round 3 (demo_answers\<lparr>a_accept := (1024, ''10.0.0.1'')\<rparr>) sidecar_clis = Inl OutOfBounds"
proof -
  obtain clis where r: "sidecar_round 3 demo_answers sidecar_clis = Inr (False, clis, [SAccept 4, SRead 4 20, SWrite 4 sidecar_reply 70, SClose 4])"
    using demo_round by blast
  have "used_fds sidecar_clis = []" by (simp add: sidecar_clis_def used_fds_def)
  then have "accept_ok 3 sidecar_clis demo_answers" by (simp add: accept_ok_def demo_answers_def FD_SETSIZE_def)
  from sidecar_reach.round [OF sidecar_reach.start this r]
  have "sidecar_reach 3 clis [SAccept 4, SRead 4 20, SWrite 4 sidecar_reply 70, SClose 4]" by simp
  moreover have "fd_in_range 3" by (simp add: fd_in_range_def FD_SETSIZE_def)
  moreover have "accept_ok 3 sidecar_clis (demo_answers\<lparr>a_accept := (1024, ''10.0.0.1'')\<rparr>)" "fd_overflow 3 sidecar_clis (demo_answers\<lparr>a_accept := (1024, ''10.0.0.1'')\<rparr>)"
    using \<open>used_fds sidecar_clis = []\<close> by (auto simp: accept_ok_def fd_overflow_def demo_answers_def FD_SETSIZE_def sidecar_clis_def SOCK_CLI_MAX_def)
  moreover from this have "sidecar_round 3 (demo_answers\<lparr>a_accept := (1024, ''10.0.0.1'')\<rparr>) sidecar_clis = Inl OutOfBounds"
    using sidecar_refines_protocol [OF sidecar_reach.start \<open>fd_in_range 3\<close>] by metis
  ultimately show ?thesis using sidecar_refines_protocol [of 3 clis] by blast
qed

text \<open>As long as the descriptors fit, the loop of the program goes on and only visits states of \<open>sidecar_reach\<close>.\<close>

fun answers_ok :: "int \<Rightarrow> answers list \<Rightarrow> sockcli list \<Rightarrow> bool" where
  "answers_ok fd [] clis \<longleftrightarrow> True"
| "answers_ok fd (an # ans) clis \<longleftrightarrow> accept_ok fd clis an \<and> \<not> fd_overflow fd clis an \<and> (\<forall>clis' ev. sidecar_round fd an clis = Inr (False, clis', ev) \<longrightarrow> answers_ok fd ans clis')"

lemma sidecar_loop_reach:
  "fd_in_range fd \<Longrightarrow> sidecar_reach fd clis tr \<Longrightarrow> answers_ok fd ans clis \<Longrightarrow>
   \<exists>r clis' ev. sidecar_loop fd ans clis = Inr (r, clis', ev) \<and> sidecar_reach fd clis' (tr @ ev)"
proof (induction ans arbitrary: clis tr)
  case Nil
  then show ?case by simp
next
  case (Cons an ans)
  then have "fds_ok clis" "accept_ok fd clis an" "\<not> fd_overflow fd clis an" using reach_ok by auto
  from round_ok [OF this(1,2) Cons.prems(1) this(3)] obtain stop clis1 ev1 where r: "sidecar_round fd an clis = Inr (stop, clis1, ev1)" by blast
  then have reach: "sidecar_reach fd clis1 (tr @ ev1)" using sidecar_reach.round Cons.prems(2) \<open>accept_ok fd clis an\<close> by blast
  show ?case
  proof (cases stop)
    case True
    then show ?thesis using r reach by auto
  next
    case False
    from Cons.IH [OF Cons.prems(1) reach] r False Cons.prems(3) obtain x clis2 ev2 where
      "sidecar_loop fd ans clis1 = Inr (x, clis2, ev2)" "sidecar_reach fd clis2 ((tr @ ev1) @ ev2)" by auto
    then show ?thesis using r False by auto
  qed
qed

end
