(* ===== verification/Xhsdk_Server.thy ===== *)
theory Xhsdk_Server
  imports Sockets
begin

text \<open>
  The greeting server of \<open>algs/xhsdk_select_server.cpp\<close>: a \<open>select\<close> loop that accepts clients into a table and answers
  every message; the login packet of its second, unused protocol.

  \<open>xhsdk_single_client\<close> shows that the loop, which watches only the descriptor \<open>maxfd\<close>, accepts one client at most and
  ends when that client has gone; \<open>echo_reply_overruns\<close> and \<open>login_packet_bytes\<close> describe the two
  protocols.
\<close>

section \<open>The protocols\<close>

record SelectContext =
  rfds :: "int set"
  maxfd :: int

abbreviation NUL :: char where "NUL \<equiv> CHR 0x00"

definition c_str :: "string \<Rightarrow> string" where
  "c_str bytes = takeWhile (\<lambda>c. c \<noteq> NUL) bytes"

definition echo_buf :: nat where
  "echo_buf = 1024"

text \<open>\<open>buf[ret] = 0\<close> must stay inside the buffer; \<open>sprintf\<close> prints the part of the buffer before the first colon into the
  buffer itself, which the C standard leaves undefined: \<open>in_place\<close> says that the library copies
  forward, byte by byte, so that the overlap does no harm.\<close>

definition echo_reply :: "bool \<Rightarrow> string \<Rightarrow> cerr + string" where
  "echo_reply in_place data =
     (if echo_buf \<le> length data then Inl OutOfBounds
      else let s = c_str data in
        if CHR '':'' \<in> set s then
          (if \<not> in_place then Inl Overlap
           else let r = takeWhile (\<lambda>c. c \<noteq> CHR '':'') s @ '': hello client'' in if length r < echo_buf then Inr r else Inl OutOfBounds)
        else Inr (''(nil)'' @ '': hello client''))"

text \<open>A failed \<open>read\<close> is \<open>None\<close>, the end of the stream \<open>Some []\<close>. The descriptor is passed by value, so that
  \<open>fd = 0\<close> at the end changes nothing. The result is the return value, the set and the calls.\<close>

definition protocol_echo :: "bool \<Rightarrow> string option \<Rightarrow> int \<Rightarrow> int set \<Rightarrow> int \<Rightarrow> cerr + int \<times> int set \<times> call list" where
  "protocol_echo in_place rd wr S fd =
     (let r = (case rd of None \<Rightarrow> - 1 | Some data \<Rightarrow> int (length data)) in
      if r = - 1 \<or> r = 0 then bindr (FD_CLR fd S) (\<lambda>S. Inr (- 1, S, [SRead fd r, SClose fd]))
      else
        bindr (echo_reply in_place (the rd)) (\<lambda>s.
        if wr \<le> 0 then bindr (FD_CLR fd S) (\<lambda>S. Inr (0, S, [SRead fd r, SWrite fd s wr, SClose fd]))
        else Inr (0, S, [SRead fd r, SWrite fd s wr])))"

definition PROTOCOL_MAGIC :: int where
  "PROTOCOL_MAGIC = 0x11ff33ff"

definition LOGIN1_RESP :: int where
  "LOGIN1_RESP = 1"

text \<open>The bytes of an integer in memory, least significant first.\<close>

fun le_bytes :: "nat \<Rightarrow> int \<Rightarrow> string" where
  "le_bytes 0 x = []"
| "le_bytes (Suc n) x = char_of (nat (x mod 256)) # le_bytes n (x div 256)"

definition login_cmdstr :: string where
  "login_cmdstr = ''0192.168.1.101:8080,192.168.1.102:8089,192.168.1.102:8082''"

definition packet_xhsdkclient_login_resp :: "string \<times> int" where
  "packet_xhsdkclient_login_resp =
     (let clen = length login_cmdstr;
          buf = le_bytes 4 PROTOCOL_MAGIC @ le_bytes 2 LOGIN1_RESP @ le_bytes 4 (int clen) @ le_bytes 1 0 @ login_cmdstr @ [NUL] in
      (buf, 4 + 2 + 4 + 1 + int clen))"

definition protocol_xhsdkclient_login :: "string option \<Rightarrow> int \<Rightarrow> int set \<Rightarrow> int \<Rightarrow> cerr + int \<times> int set \<times> call list" where
  "protocol_xhsdkclient_login rd wr S fd =
     (let r = (case rd of None \<Rightarrow> - 1 | Some data \<Rightarrow> int (length data)) in
      if r = - 1 \<or> r = 0 then bindr (FD_CLR fd S) (\<lambda>S. Inr (- 1, S, [SRead fd r, SClose fd]))
      else if int echo_buf \<le> r then Inl OutOfBounds
      else
        let (buf, packet_len) = packet_xhsdkclient_login_resp; s = take (nat packet_len) buf in
        if wr \<le> 0 then bindr (FD_CLR fd S) (\<lambda>S. Inr (0, S, [SRead fd r, SWrite fd s wr, SClose fd]))
        else Inr (0, S, [SRead fd r, SWrite fd s wr]))"

section \<open>The loop\<close>

text \<open>The answers of one round. \<open>select\<close> answers the number of descriptors and the set it is given, with its return value and the set it
  leaves.\<close>

record xanswers =
  x_select :: "int \<Rightarrow> int set \<Rightarrow> int \<times> int set"
  x_accept :: "int \<times> string"
  x_read :: "nat \<Rightarrow> string option"
  x_write :: "nat \<Rightarrow> int"
  x_stdin :: "string option"

definition xh_on_socket_connect :: "xanswers \<Rightarrow> SelectContext \<Rightarrow> client \<Rightarrow> client list \<Rightarrow> cerr + int \<times> SelectContext \<times> client list \<times> call list" where
  "xh_on_socket_connect an sctx cli clis =
     (let confd = fst (x_accept an) in
      if confd < 0 then Inr (- 1, sctx, clis, [SAccept confd]) else
      let cli = cli\<lparr>cl_fd := confd, cl_ip := snd (x_accept an)\<rparr> in
      case xhsdkclient_add cli clis of
        None \<Rightarrow> Inr (- 2, sctx, clis, [SAccept confd, SClose confd])
      | Some clis' \<Rightarrow>
          bindr (FD_SET confd (rfds sctx)) (\<lambda>S.
          Inr (0, \<lparr>rfds = S, maxfd = (if confd > maxfd sctx then confd else maxfd sctx)\<rparr>, clis', [SAccept confd])))"

fun xh_on_socket_rw :: "bool \<Rightarrow> xanswers \<Rightarrow> nat \<Rightarrow> client list \<Rightarrow> int set \<Rightarrow> cerr + int set \<times> call list" where
  "xh_on_socket_rw in_place an i [] S = Inr (S, [])"
| "xh_on_socket_rw in_place an i (c # cs) S =
     bindr (if cl_fd c \<noteq> 0 then FD_ISSET (cl_fd c) S else Inr False) (\<lambda>ready.
     bindr (if ready then protocol_echo in_place (x_read an i) (x_write an i) S (cl_fd c) else Inr (0, S, [])) (\<lambda>(_, S, ev).
     bindr (xh_on_socket_rw in_place an (Suc i) cs S) (\<lambda>(S, ev'). Inr (S, ev @ ev'))))"

text \<open>The line read from the standard input, or the end of the input, when the buffer is printed unread.\<close>

definition select_on_stdin :: "string option \<Rightarrow> cerr + string" where
  "select_on_stdin line = (case line of None \<Rightarrow> Inl UninitRead | Some s \<Rightarrow>
     Inr (''select_on_stdin: stdin ready for read'' @ [CHR 0x0A] @ ''select_on_stdin: stdin='' @ [CHR 0x27] @ s @ [CHR 0x27, CHR 0x0A]))"

definition xhsdk_round :: "bool \<Rightarrow> int \<Rightarrow> int \<Rightarrow> xanswers \<Rightarrow> client list \<Rightarrow> int \<Rightarrow> cerr + bool \<times> client list \<times> int \<times> call list" where
  "xhsdk_round in_place fd stdinfd an clis mx =
     bindr (FD_SET mx {}) (\<lambda>S.
     let (ret, S) = x_select an (mx + 1) S in
     if ret = - 1 then Inr (True, clis, mx, [])
     else if ret = 0 then Inr (False, clis, mx, [])
     else
       let sctx = \<lparr>rfds = S, maxfd = mx\<rparr> in
       bindr (FD_ISSET fd (rfds sctx)) (\<lambda>conn.
       bindr (if conn then xh_on_socket_connect an sctx \<lparr>cl_fd = fd, cl_ip = []\<rparr> clis else Inr (0, sctx, clis, [])) (\<lambda>(r, sctx, clis, ev).
       if r = - 1 then Inr (True, clis, maxfd sctx, ev)
       else bindr (xh_on_socket_rw in_place an 0 clis (rfds sctx)) (\<lambda>(S, ev').
         bindr (FD_ISSET stdinfd S) (\<lambda>inp.
         bindr (if inp then select_on_stdin (x_stdin an) else Inr []) (\<lambda>_.
         Inr (False, clis, maxfd sctx, ev @ ev')))))))"

fun xhsdk_loop :: "bool \<Rightarrow> int \<Rightarrow> int \<Rightarrow> xanswers list \<Rightarrow> client list \<Rightarrow> int \<Rightarrow> cerr + int option \<times> call list" where
  "xhsdk_loop in_place fd stdinfd [] clis mx = Inr (None, [])"
| "xhsdk_loop in_place fd stdinfd (an # ans) clis mx =
     bindr (xhsdk_round in_place fd stdinfd an clis mx) (\<lambda>(stop, clis, mx, ev).
     if stop then Inr (Some 0, ev)
     else bindr (xhsdk_loop in_place fd stdinfd ans clis mx) (\<lambda>(r, ev'). Inr (r, ev @ ev')))"

definition xhsdk_clis :: "client list" where
  "xhsdk_clis = replicate SOCK_CLI_MAX \<lparr>cl_fd = 0, cl_ip = []\<rparr>"

text \<open>The whole program; the port it binds is part of the result.\<close>

definition xhsdk_select_server_main :: "bool \<Rightarrow> string list \<Rightarrow> listen_answers \<Rightarrow> xanswers list \<Rightarrow> cerr + int option \<times> int option \<times> call list" where
  "xhsdk_select_server_main in_place argv su ans =
     bindr (port_arg 80 argv) (\<lambda>port.
     let fd = su_socket su; stdinfd = 0 in
     if fd < 0 then Inr (Some (- 1), None, [])
     else if su_bind su < 0 then Inr (Some (- 1), Some (htons port), [])
     else if su_listen su < 0 then Inr (Some (- 1), Some (htons port), [])
     else
       bindr (FD_SET stdinfd {}) (\<lambda>S. bindr (FD_SET fd S) (\<lambda>_.
       bindr (xhsdk_loop in_place fd stdinfd ans xhsdk_clis (if fd > stdinfd then fd else stdinfd)) (\<lambda>(r, ev).
       Inr (r, Some (htons port), ev)))))"

section \<open>What the program relies on\<close>

text \<open>The descriptors that have been closed and not been given out again.\<close>

definition closed_fds :: "call list \<Rightarrow> int set" where
  "closed_fds tr = fold (\<lambda>e C. case e of SClose f \<Rightarrow> insert f C | SAccept f \<Rightarrow> C - {f} | _ \<Rightarrow> C) tr {}"

text \<open>Whatever set \<open>select\<close> is given, it returns at least \<open>- 1\<close>, leaves only descriptors of that set, and fails (\<open>EBADF\<close>) when one of them is closed.
  \<open>accept\<close> fails or gives the lowest free descriptor; the listening socket was the lowest one when it was made, and those below it stay open, so that
  the answer is above it.\<close>

definition kernel_ok :: "int \<Rightarrow> call list \<Rightarrow> xanswers \<Rightarrow> bool" where
  "kernel_ok fd tr an \<longleftrightarrow>
     (\<forall>n S. - 1 \<le> fst (x_select an n S) \<and> snd (x_select an n S) \<subseteq> S \<and> (S \<inter> closed_fds tr \<noteq> {} \<longrightarrow> fst (x_select an n S) = - 1))
     \<and> (fst (x_accept an) < 0 \<or> fd < fst (x_accept an))"

inductive xhsdk_reach :: "bool \<Rightarrow> int \<Rightarrow> client list \<Rightarrow> int \<Rightarrow> call list \<Rightarrow> bool" for in_place fd where
  start: "xhsdk_reach in_place fd xhsdk_clis fd []"
| round: "xhsdk_reach in_place fd clis mx tr \<Longrightarrow> kernel_ok fd tr an \<Longrightarrow>
    xhsdk_round in_place fd 0 an clis mx = Inr (False, clis', mx', ev) \<Longrightarrow> xhsdk_reach in_place fd clis' mx' (tr @ ev)"

definition accepted :: "call list \<Rightarrow> int list" where
  "accepted tr = concat (map (\<lambda>e. case e of SAccept c \<Rightarrow> if 0 \<le> c then [c] else [] | _ \<Rightarrow> []) tr)"

section \<open>One client\<close>

lemma accepted_simps [simp]:
  "accepted [] = []"
  "accepted (xs @ ys) = accepted xs @ accepted ys"
  "accepted (SAccept c # tr) = (if 0 \<le> c then c # accepted tr else accepted tr)"
  "accepted (SRead f r # tr) = accepted tr" "accepted (SWrite f s r # tr) = accepted tr" "accepted (SClose f # tr) = accepted tr"
  by (simp_all add: accepted_def)

lemma echo_calls:
  "protocol_echo in_place rd wr S fd = Inr (r, S', ev) \<Longrightarrow> accepted ev = []"
  by (auto simp: protocol_echo_def Let_def res_simps split: if_splits)

lemma rw_calls: "xh_on_socket_rw in_place an i cs S = Inr (S', ev) \<Longrightarrow> accepted ev = []"
proof (induction cs arbitrary: i S S' ev)
  case (Cons c cs)
  then obtain b x S1 ev1 ev2 where
    "(if b then protocol_echo in_place (x_read an i) (x_write an i) S (cl_fd c) else Inr (0, S, [])) = Inr (x, S1, ev1)"
    "xh_on_socket_rw in_place an (Suc i) cs S1 = Inr (S', ev2)" "ev = ev1 @ ev2"
    by (auto simp: res_simps split: prod.splits)
  moreover have "accepted ev1 = []" using calculation(1) echo_calls by (auto split: if_splits)
  ultimately show ?case using Cons.IH by auto
qed simp

text \<open>Before the first client the loop watches the listening socket, afterwards the client only.\<close>

definition one_client :: "int \<Rightarrow> client list \<Rightarrow> int \<Rightarrow> call list \<Rightarrow> bool" where
  "one_client fd clis mx tr \<longleftrightarrow> clis \<noteq> [] \<and>
     (accepted tr = [] \<and> mx = fd \<and> cl_fd (hd clis) = 0 \<or> fd < mx \<and> accepted tr = [mx])"

lemma round_one_client:
  assumes inv: "one_client fd clis mx tr" and k: "kernel_ok fd tr an" and fd: "0 < fd"
    and step: "xhsdk_round in_place fd 0 an clis mx = Inr (stop, clis', mx', ev)"
  shows "one_client fd clis' mx' (tr @ ev)"
proof -
  obtain ret R where sel: "x_select an (mx + 1) {mx} = (ret, R)" by (cases "x_select an (mx + 1) {mx}")
  then have sub: "R \<subseteq> {mx}" using k unfolding kernel_ok_def by (metis snd_conv)
  have mem: "fd_in_range mx" using step by (auto simp: xhsdk_round_def FD_SET_def split: if_splits)
  let ?s = "\<lparr>rfds = R, maxfd = mx\<rparr>"
  show ?thesis
  proof (cases "ret = - 1 \<or> ret = 0")
    case True
    then show ?thesis using inv step mem sel by (auto simp: xhsdk_round_def)
  next
    case nz: False
    from step nz sel mem obtain r s2 clis1 ev1 where
      con: "(if fd \<in> R then xh_on_socket_connect an ?s \<lparr>cl_fd = fd, cl_ip = []\<rparr> clis else Inr (0, ?s, clis, [])) = Inr (r, s2, clis1, ev1)"
      and rest: "(if r = - 1 then Inr (True, clis1, maxfd s2, ev1)
         else bindr (xh_on_socket_rw in_place an 0 clis1 (rfds s2)) (\<lambda>(S, ev').
           bindr (FD_ISSET 0 S) (\<lambda>inp. bindr (if inp then select_on_stdin (x_stdin an) else Inr []) (\<lambda>_. Inr (False, clis1, maxfd s2, ev1 @ ev')))))
         = Inr (stop, clis', mx', ev)"
      by (auto simp: xhsdk_round_def Let_def res_simps FD_ISSET_def split: if_splits prod.splits)
    have out: "clis' = clis1" "mx' = maxfd s2" "accepted ev = accepted ev1"
      using rest rw_calls by (auto simp: res_simps split: if_splits prod.splits)
    show ?thesis
    proof (cases "fd \<in> R")
      case False
      then have "s2 = ?s" "clis1 = clis" "ev1 = []" using con by auto
      then show ?thesis using out inv by (simp add: one_client_def)
    next
      case T: True
      then have mx: "mx = fd" using sub by auto
      then have i: "accepted tr = []" "cl_fd (hd clis) = 0" "clis \<noteq> []" using inv by (auto simp: one_client_def)
      obtain c cs where cs: "clis = c # cs" using i(3) by (cases clis) auto
      show ?thesis
      proof (cases "fst (x_accept an) < 0")
        case True
        then have "clis1 = clis" "maxfd s2 = mx" "accepted ev1 = []" using con T by (auto simp: xh_on_socket_connect_def)
        then show ?thesis using out i mx by (simp add: one_client_def)
      next
        case False
        then have gt: "fd < fst (x_accept an)" using k by (auto simp: kernel_ok_def)
        then have "clis1 \<noteq> []" "maxfd s2 = fst (x_accept an)" "accepted ev1 = [fst (x_accept an)]"
          using con T False i cs mx fd by (auto simp: xh_on_socket_connect_def Let_def res_simps)
        then show ?thesis using out i gt by (simp add: one_client_def)
      qed
    qed
  qed
qed

lemma reach_one_client: "xhsdk_reach in_place fd clis mx tr \<Longrightarrow> 0 < fd \<Longrightarrow> one_client fd clis mx tr"
proof (induction rule: xhsdk_reach.induct)
  case start
  then show ?case by (simp add: one_client_def xhsdk_clis_def SOCK_CLI_MAX_def)
next
  case (round clis mx tr an clis' mx' ev)
  then show ?case using round_one_client by blast
qed

text \<open>C25: over all runs the server accepts one client at most; from then on that client is \<open>maxfd\<close>, the one descriptor that the round puts into the set it passes to \<open>select\<close>,
  and once the
  connection has been closed (the client has gone or a write has failed) the next round leaves the loop and the server ends. \<open>select\<close> is asked to report only
  descriptors of the set it is given and to fail on a closed one, \<open>accept\<close> to fail or to give the lowest free descriptor.\<close>

theorem xhsdk_single_client:
  assumes "xhsdk_reach in_place fd clis mx tr" "0 < fd"
  shows "length (accepted tr) \<le> 1 \<and> (\<forall>c \<in> set (accepted tr). mx = c)
    \<and> (\<forall>c an. c \<in> set (accepted tr) \<longrightarrow> c \<in> closed_fds tr \<longrightarrow> kernel_ok fd tr an \<longrightarrow> fd_in_range mx \<longrightarrow>
         xhsdk_round in_place fd 0 an clis mx = Inr (True, clis, mx, []))"
proof -
  have "one_client fd clis mx tr" by (rule reach_one_client [OF assms])
  then have a: "length (accepted tr) \<le> 1" "\<forall>c \<in> set (accepted tr). mx = c" by (auto simp: one_client_def)
  have "xhsdk_round in_place fd 0 an clis mx = Inr (True, clis, mx, [])"
    if "c \<in> set (accepted tr)" "c \<in> closed_fds tr" "kernel_ok fd tr an" "fd_in_range mx" for c an
  proof -
    have "{mx} \<inter> closed_fds tr \<noteq> {}" using that(1,2) a(2) by auto
    then have "fst (x_select an (mx + 1) {mx}) = - 1" using that(3) unfolding kernel_ok_def by blast
    then show ?thesis using that(4) by (cases "x_select an (mx + 1) {mx}") (simp add: xhsdk_round_def)
  qed
  then show ?thesis using a by blast
qed

text \<open>A run in which a client connects and goes, and the server ends.\<close>

definition gone_answers :: xanswers where
  "gone_answers = \<lparr>x_select = (\<lambda>n S. (1, S)), x_accept = (4, ''10.0.0.1''), x_read = (\<lambda>_. Some []), x_write = (\<lambda>_. 0), x_stdin = None\<rparr>"

lemma xh_rw_idle: "\<forall>c \<in> set cs. cl_fd c = 0 \<Longrightarrow> xh_on_socket_rw in_place an i cs S = Inr (S, [])"
  by (induction cs arbitrary: i) auto

lemma gone_round:
  "\<exists>clis. xhsdk_round True 3 0 gone_answers xhsdk_clis 3 = Inr (False, clis, 4, [SAccept 4, SRead 4 0, SClose 4])"
proof -
  have r: "fd_in_range 3" "fd_in_range 4" "fd_in_range 0" by (simp_all add: fd_in_range_def FD_SETSIZE_def)
  let ?z = "\<lparr>cl_fd = 0, cl_ip = []\<rparr>"
  have t: "xhsdk_clis = ?z # replicate 1023 ?z"
    unfolding xhsdk_clis_def SOCK_CLI_MAX_def using replicate_Suc [of 1023 ?z] by (simp del: replicate_Suc)
  show ?thesis using r
    by (simp add: t xhsdk_round_def xh_rw_idle gone_answers_def xh_on_socket_connect_def protocol_echo_def Let_def)
qed

theorem xhsdk_single_client_witness:
  "\<exists>clis. xhsdk_reach True 3 clis 4 [SAccept 4, SRead 4 0, SClose 4]
    \<and> xhsdk_round True 3 0 (gone_answers\<lparr>x_select := (\<lambda>n S. (- 1, {}))\<rparr>) clis 4 = Inr (True, clis, 4, [])"
proof -
  obtain clis where r: "xhsdk_round True 3 0 gone_answers xhsdk_clis 3 = Inr (False, clis, 4, [SAccept 4, SRead 4 0, SClose 4])"
    using gone_round by blast
  have "kernel_ok 3 [] gone_answers" by (simp add: kernel_ok_def gone_answers_def closed_fds_def)
  from xhsdk_reach.round [OF xhsdk_reach.start this r] have reach: "xhsdk_reach True 3 clis 4 [SAccept 4, SRead 4 0, SClose 4]" by simp
  moreover have "kernel_ok 3 [SAccept 4, SRead 4 0, SClose 4] (gone_answers\<lparr>x_select := (\<lambda>n S. (- 1, {}))\<rparr>)" by (simp add: kernel_ok_def gone_answers_def)
  moreover have "4 \<in> closed_fds [SAccept 4, SRead 4 0, SClose 4]" by (simp add: closed_fds_def)
  moreover have "fd_in_range 4" by (simp add: fd_in_range_def FD_SETSIZE_def)
  ultimately show ?thesis using xhsdk_single_client [OF reach] by auto
qed

section \<open>The buffers of the protocols\<close>

text \<open>A message that fills the buffer, or a long part before the colon, is written past the end of the buffer; otherwise the reply
  is the part before the first colon with the greeting.\<close>

lemma echo_reply_overruns:
  "length data = echo_buf \<Longrightarrow> echo_reply in_place data = Inl OutOfBounds"
  "length data < echo_buf \<Longrightarrow> c_str data = who @ CHR '':'' # rest \<Longrightarrow> CHR '':'' \<notin> set who \<Longrightarrow>
   echo_reply True data = (if length who + 14 < echo_buf then Inr (who @ '': hello client'') else Inl OutOfBounds)"
  "length data < echo_buf \<Longrightarrow> CHR '':'' \<notin> set (c_str data) \<Longrightarrow> echo_reply in_place data = Inr ''(nil): hello client''"
proof -
  show "length data = echo_buf \<Longrightarrow> echo_reply in_place data = Inl OutOfBounds" by (simp add: echo_reply_def)
  show "length data < echo_buf \<Longrightarrow> CHR '':'' \<notin> set (c_str data) \<Longrightarrow> echo_reply in_place data = Inr ''(nil): hello client''" by (simp add: echo_reply_def)
  assume a: "length data < echo_buf" "c_str data = who @ CHR '':'' # rest" "CHR '':'' \<notin> set who"
  have "takeWhile (\<lambda>c. c \<noteq> CHR '':'') (who @ CHR '':'' # rest) = who" using a(3) by (subst takeWhile_append2) auto
  then show "echo_reply True data = (if length who + 14 < echo_buf then Inr (who @ '': hello client'') else Inl OutOfBounds)"
    using a by (simp add: echo_reply_def)
qed

lemma le_bytes_length [simp]: "length (le_bytes n x) = n"
  by (induction n arbitrary: x) auto

text \<open>The packet is as long as its length says, with the terminating zero after it, and fits the buffer.\<close>

lemma login_packet_bytes:
  "case packet_xhsdkclient_login_resp of (buf, len) \<Rightarrow> int (length buf) = len + 1 \<and> len = 68 \<and> length buf \<le> echo_buf
     \<and> take 4 buf = [CHR 0xFF, CHR 0x33, CHR 0xFF, CHR 0x11]"
  by code_simp

end
