(* ===== verification/Epoll_Server.thy ===== *)
theory Epoll_Server
  imports Sockets
begin

text \<open>
  The HTTP health server of \<open>api_poll/hello_epoll.c\<close>: an \<open>epoll\<close> loop that reads requests and answers them when a
  connection can be written to, with one global flag \<open>euraka_ping\<close> for "a request has come".

  \<open>epoll_reply_credit\<close> shows what the flag guarantees, that replies never outnumber reads, and that the server
  never closes a connection, so that every client costs a descriptor for ever. \<open>epoll_crosstalk\<close> and \<open>epoll_lost_reply\<close>
  show what it does not: a reply can go to a client that has sent nothing, and two requests can get one reply.
\<close>

section \<open>The server\<close>

definition MAX_EVENTS :: nat where
  "MAX_EVENTS = 10"

text \<open>An event: the descriptor, and whether \<open>EPOLLIN\<close> and \<open>EPOLLOUT\<close> are set.\<close>

type_synonym epoll_event = "int \<times> bool \<times> bool"

text \<open>The answers of one round; those of the calls made for event \<open>n\<close> are functions of \<open>n\<close>. \<open>None\<close> is a failed
  \<open>epoll_wait\<close>.\<close>

record epoll_answers =
  e_wait :: "epoll_event list option"
  e_accept :: "nat \<Rightarrow> int \<times> string"
  e_add :: "nat \<Rightarrow> int"
  e_read :: "nat \<Rightarrow> int \<times> bool"
  e_del_read :: "nat \<Rightarrow> int"
  e_write :: "nat \<Rightarrow> int \<times> bool"
  e_del_write :: "nat \<Rightarrow> int"

record epoll_state =
  interest :: "int set"
  euraka_ping :: int

definition handle_socket_connect :: "int \<times> string \<Rightarrow> int \<times> call list" where
  "handle_socket_connect a = (if fst a < 0 then - 1 else fst a, [SAccept (fst a)])"

definition handle_fd_read :: "int \<Rightarrow> int \<times> bool \<Rightarrow> int \<times> call list" where
  "handle_fd_read fd r = (if fst r \<le> 0 then if fst r < 0 \<and> snd r then 0 else - 1 else fst r, [SRead fd (fst r)])"

definition epoll_reply :: string where
  "epoll_reply =
     (let crlf = [CHR 0x0D, CHR 0x0A] in
      ''HTTP/1.1 200 OK '' @ crlf @ ''Content-Type:Application/json'' @ crlf @ crlf
      @ ''{'' @ [CHR 0x22] @ ''status'' @ [CHR 0x22] @ '':'' @ [CHR 0x22] @ ''UP'' @ [CHR 0x22] @ ''}'' @ crlf @ crlf)"

definition handle_fd_write :: "int \<Rightarrow> int \<times> bool \<Rightarrow> int \<times> call list" where
  "handle_fd_write fd r = (if fst r \<le> 0 then if fst r < 0 \<and> snd r then 0 else - 1 else fst r, [SWrite fd epoll_reply (fst r)])"

text \<open>\<open>epoll_ctl\<close> with \<open>EPOLL_CTL_DEL\<close>: a failure is only reported.\<close>

definition epoll_del :: "int \<Rightarrow> int \<Rightarrow> epoll_state \<Rightarrow> epoll_state" where
  "epoll_del r fd st = (if r = 0 then st\<lparr>interest := interest st - {fd}\<rparr> else st)"

definition epoll_connect :: "epoll_answers \<Rightarrow> nat \<Rightarrow> epoll_state \<Rightarrow> cerr + epoll_state \<times> call list" where
  "epoll_connect an n st =
     (let (confd, ev) = handle_socket_connect (e_accept an n) in
      if e_add an n = - 1 then Inl Exited else Inr (st\<lparr>interest := insert confd (interest st)\<rparr>, ev))"

definition epoll_in :: "epoll_answers \<Rightarrow> nat \<Rightarrow> int \<Rightarrow> epoll_state \<Rightarrow> epoll_state \<times> call list" where
  "epoll_in an n fd st =
     (let (r, ev) = handle_fd_read fd (e_read an n); st = (if r < 0 then epoll_del (e_del_read an n) fd st else st) in
      (st\<lparr>euraka_ping := 1\<rparr>, ev))"

definition epoll_out :: "epoll_answers \<Rightarrow> nat \<Rightarrow> int \<Rightarrow> epoll_state \<Rightarrow> epoll_state \<times> call list" where
  "epoll_out an n fd st =
     (let (r, ev) = handle_fd_write fd (e_write an n); st = (if r < 0 then epoll_del (e_del_write an n) fd st else st) in
      (st\<lparr>euraka_ping := 0\<rparr>, ev))"

fun epoll_events :: "int \<Rightarrow> epoll_answers \<Rightarrow> nat \<Rightarrow> epoll_event list \<Rightarrow> epoll_state \<Rightarrow> cerr + epoll_state \<times> call list" where
  "epoll_events listenfd an n [] st = Inr (st, [])"
| "epoll_events listenfd an n ((fd, inp, out) # es) st =
     bindr (if fd = listenfd then epoll_connect an n st
            else let (st, ev1) = (if inp then epoll_in an n fd st else (st, []));
                     (st, ev2) = (if out \<and> euraka_ping st \<noteq> 0 then epoll_out an n fd st else (st, [])) in
                 Inr (st, ev1 @ ev2)) (\<lambda>(st, ev).
     bindr (epoll_events listenfd an (Suc n) es st) (\<lambda>(st, ev'). Inr (st, ev @ ev')))"

definition epoll_round :: "int \<Rightarrow> epoll_answers \<Rightarrow> epoll_state \<Rightarrow> cerr + epoll_state \<times> call list" where
  "epoll_round listenfd an st =
     (case e_wait an of None \<Rightarrow> Inl Exited
      | Some es \<Rightarrow> if MAX_EVENTS < length es then Inl OutOfBounds else epoll_events listenfd an 0 es st)"

fun epoll_loop :: "int \<Rightarrow> epoll_answers list \<Rightarrow> epoll_state \<Rightarrow> cerr + epoll_state \<times> call list" where
  "epoll_loop listenfd [] st = Inr (st, [])"
| "epoll_loop listenfd (an # ans) st =
     bindr (epoll_round listenfd an st) (\<lambda>(st, ev). bindr (epoll_loop listenfd ans st) (\<lambda>(st, ev'). Inr (st, ev @ ev')))"

text \<open>The whole program: it ends early with a return value, exits, or serves for as long as there are answers (\<open>None\<close>).
  \<open>epfd\<close> and \<open>add\<close> are the answers of \<open>epoll_create1\<close> and of the first \<open>epoll_ctl\<close>.\<close>

definition hello_epoll_main :: "string list \<Rightarrow> listen_answers \<Rightarrow> int \<Rightarrow> int \<Rightarrow> epoll_answers list \<Rightarrow> cerr + int option \<times> int option \<times> call list" where
  "hello_epoll_main argv su epfd add ans =
     bindr (port_arg 8100 argv) (\<lambda>port.
     let listenfd = su_socket su in
     if listenfd < 0 then Inr (Some (- 1), None, [])
     else if su_sockopt su = - 1 then Inr (Some (- 1), None, [SClose listenfd])
     else if su_bind su < 0 then Inr (Some (- 1), Some (htons port), [])
     else if su_listen su < 0 then Inr (Some (- 1), Some (htons port), [])
     else if epfd = - 1 then Inl Exited
     else if add = - 1 then Inl Exited
     else bindr (epoll_loop listenfd ans \<lparr>interest = {listenfd}, euraka_ping = 0\<rparr>) (\<lambda>(_, ev). Inr (None, Some (htons port), ev)))"

section \<open>What the flag guarantees\<close>

definition reads :: "call list \<Rightarrow> nat" where
  "reads tr = length (filter (\<lambda>e. case e of SRead _ _ \<Rightarrow> True | _ \<Rightarrow> False) tr)"

definition writes :: "call list \<Rightarrow> nat" where
  "writes tr = length (filter (\<lambda>e. case e of SWrite _ _ _ \<Rightarrow> True | _ \<Rightarrow> False) tr)"

definition closes :: "call list \<Rightarrow> int list" where
  "closes tr = concat (map (\<lambda>e. case e of SClose f \<Rightarrow> [f] | _ \<Rightarrow> []) tr)"

definition credit :: "epoll_state \<Rightarrow> nat" where
  "credit st = (if euraka_ping st \<noteq> 0 then 1 else 0)"

lemma count_append [simp]:
  "reads (xs @ ys) = reads xs + reads ys" "writes (xs @ ys) = writes xs + writes ys" "closes (xs @ ys) = closes xs @ closes ys"
  by (simp_all add: reads_def writes_def closes_def)

lemma credit_upd [simp]:
  "credit (epoll_del r fd st) = credit st" "credit (st\<lparr>interest := I\<rparr>) = credit st"
  "credit (st\<lparr>euraka_ping := 1\<rparr>) = 1" "credit (st\<lparr>euraka_ping := 0\<rparr>) = 0"
  by (simp_all add: credit_def epoll_del_def)

text \<open>What a step adds to the counts, starting from the credit before it.\<close>

definition accounts :: "epoll_state \<Rightarrow> epoll_state \<times> call list \<Rightarrow> bool" where
  "accounts st p \<longleftrightarrow> writes (snd p) + credit (fst p) \<le> reads (snd p) + credit st \<and> closes (snd p) = []"

lemma accounts_none [simp]: "accounts st (st, [])"
  by (simp add: accounts_def reads_def writes_def closes_def)

lemma accounts_seq: "accounts st (st1, ev1) \<Longrightarrow> accounts st1 (st2, ev2) \<Longrightarrow> accounts st (st2, ev1 @ ev2)"
  by (auto simp: accounts_def)

lemma accounts_in: "accounts st (epoll_in an n fd st)"
  by (auto simp: accounts_def epoll_in_def handle_fd_read_def reads_def writes_def closes_def Let_def)

lemma accounts_out: "euraka_ping st \<noteq> 0 \<Longrightarrow> accounts st (epoll_out an n fd st)"
  by (auto simp: accounts_def epoll_out_def handle_fd_write_def reads_def writes_def closes_def Let_def credit_def)

lemma accounts_connect: "epoll_connect an n st = Inr (st', ev) \<Longrightarrow> accounts st (st', ev)"
  by (auto simp: accounts_def epoll_connect_def handle_socket_connect_def reads_def writes_def closes_def split: if_splits)

lemma accounts_events: "epoll_events listenfd an n es st = Inr (st', ev) \<Longrightarrow> accounts st (st', ev)"
proof (induction es arbitrary: n st st' ev)
  case (Cons e es)
  obtain fd inp out where e: "e = (fd, inp, out)" by (cases e)
  obtain s1 e1 where s1: "(if inp then epoll_in an n fd st else (st, [])) = (s1, e1)" by (cases "if inp then epoll_in an n fd st else (st, [])") auto
  obtain s2 e2 where s2: "(if out \<and> euraka_ping s1 \<noteq> 0 then epoll_out an n fd s1 else (s1, [])) = (s2, e2)"
    by (cases "if out \<and> euraka_ping s1 \<noteq> 0 then epoll_out an n fd s1 else (s1, [])") auto
  have "accounts st (s1, e1)" using s1 accounts_in by (metis accounts_none)
  moreover have "accounts s1 (s2, e2)" using s2 accounts_out by (metis accounts_none)
  ultimately have both: "accounts st (s2, e1 @ e2)" by (rule accounts_seq)
  define head where "head = (if fd = listenfd then epoll_connect an n st else Inr (s2, e1 @ e2))"
  have "epoll_events listenfd an n ((fd, inp, out) # es) st =
      bindr head (\<lambda>(st, ev). bindr (epoll_events listenfd an (Suc n) es st) (\<lambda>(st, ev'). Inr (st, ev @ ev')))"
    by (simp add: head_def s1 s2)
  with Cons.prems e have "bindr head (\<lambda>(st, ev). bindr (epoll_events listenfd an (Suc n) es st) (\<lambda>(st, ev'). Inr (st, ev @ ev'))) = Inr (st', ev)" by (simp only:)
  then obtain s3 e3 e4 where h: "head = Inr (s3, e3)" "epoll_events listenfd an (Suc n) es s3 = Inr (st', e4)" "ev = e3 @ e4"
    by (auto simp: res_simps split: prod.splits)
  have "accounts st (s3, e3)" using h(1) both accounts_connect by (auto simp: head_def split: if_splits)
  moreover have "accounts s3 (st', e4)" by (rule Cons.IH [OF h(2)])
  ultimately show ?case unfolding h(3) by (rule accounts_seq)
qed simp

lemma accounts_loop: "epoll_loop listenfd ans st = Inr (st', ev) \<Longrightarrow> accounts st (st', ev)"
proof (induction ans arbitrary: st st' ev)
  case (Cons an ans)
  then obtain s1 e1 e2 where s: "epoll_round listenfd an st = Inr (s1, e1)" "epoll_loop listenfd ans s1 = Inr (st', e2)" "ev = e1 @ e2"
    by (auto simp: res_simps split: prod.splits)
  have "accounts st (s1, e1)" using s(1) accounts_events by (auto simp: epoll_round_def split: option.splits if_splits)
  then show ?case unfolding s(3) using accounts_seq Cons.IH [OF s(2)] by blast
qed simp

text \<open>C26: for any answers of the system, as long as the server runs it has written at most as many replies as it has made
  reads, one fewer while the flag is set, and it has closed no connection.\<close>

theorem epoll_reply_credit:
  assumes "epoll_loop listenfd ans \<lparr>interest = {listenfd}, euraka_ping = 0\<rparr> = Inr (st, tr)"
  shows "writes tr + credit st \<le> reads tr \<and> closes tr = []"
  using accounts_loop [OF assms] by (simp add: accounts_def credit_def)

text \<open>Two clients 5 and 6: the first sends a request, the second can be written to and gets the reply.\<close>

definition talk :: "epoll_event list \<Rightarrow> epoll_answers" where
  "talk es = \<lparr>e_wait = Some es, e_accept = (\<lambda>n. (5 + int n, ''10.0.0.1'')), e_add = (\<lambda>_. 0), e_read = (\<lambda>_. (20, False)),
     e_del_read = (\<lambda>_. 0), e_write = (\<lambda>_. (70, False)), e_del_write = (\<lambda>_. 0)\<rparr>"

lemma epoll_crosstalk:
  "epoll_loop 3 [talk [(3, True, False), (3, True, False)], talk [(5, True, False), (6, False, True)]] \<lparr>interest = {3}, euraka_ping = 0\<rparr>
   = Inr (\<lparr>interest = {3, 5, 6}, euraka_ping = 0\<rparr>, [SAccept 5, SAccept 6, SRead 5 20, SWrite 6 epoll_reply 70])"
  by (auto simp: epoll_round_def talk_def MAX_EVENTS_def epoll_connect_def handle_socket_connect_def epoll_in_def epoll_out_def
      handle_fd_read_def handle_fd_write_def)

lemma epoll_lost_reply:
  "epoll_loop 3 [talk [(3, True, False), (3, True, False)], talk [(5, True, False), (6, True, False)], talk [(5, False, True), (6, False, True)]]
     \<lparr>interest = {3}, euraka_ping = 0\<rparr>
   = Inr (\<lparr>interest = {3, 5, 6}, euraka_ping = 0\<rparr>, [SAccept 5, SAccept 6, SRead 5 20, SRead 6 20, SWrite 5 epoll_reply 70])"
  by (auto simp: epoll_round_def talk_def MAX_EVENTS_def epoll_connect_def handle_socket_connect_def epoll_in_def epoll_out_def
      handle_fd_read_def handle_fd_write_def)

theorem epoll_reply_credit_witness:
  "writes [SAccept 5, SAccept 6, SRead 5 20, SWrite 6 epoll_reply 70] + credit \<lparr>interest = {3, 5, 6}, euraka_ping = 0\<rparr>
     \<le> reads [SAccept 5, SAccept 6, SRead 5 20, SWrite 6 epoll_reply 70]
   \<and> closes [SAccept 5, SAccept 6, SRead 5 20, SWrite 6 epoll_reply 70] = []"
  using epoll_reply_credit [OF epoll_crosstalk] .

end
