(* ===== verification/Echo_Clients.thy ===== *)
theory Echo_Clients
  imports Sockets
begin

text \<open>
  The clients \<open>algs/tcp_echo_cli.c\<close> and \<open>algs/udp_echo_cli.c\<close>: both send numbered greetings for ever and print what comes
  back. Their loops differ only in the calls they use, which are written as \<open>SWrite\<close> and \<open>SRead\<close> here.

  \<open>echo_client_counts\<close> shows that with answers shorter than the buffer the client sends the numbers from 0 on, in order;
  \<open>echo_client_overruns\<close> that an answer that fills the buffer makes it write behind the buffer.
\<close>

section \<open>The clients\<close>

definition cli_buf :: nat where
  "cli_buf = 512"

definition size_t_max :: nat where
  "size_t_max = 2 ^ 64"

definition hello_msg :: "nat \<Rightarrow> string" where
  "hello_msg t = show_nat t @ '': hello, xhsdkserver''"

text \<open>The answers of a round: of the sending call, and the data received (\<open>None\<close> for a failure).\<close>

type_synonym echo_answer = "int \<times> string option"

fun echo_loop :: "int \<Rightarrow> nat \<Rightarrow> echo_answer list \<Rightarrow> cerr + int option \<times> call list" where
  "echo_loop fd t [] = Inr (None, [])"
| "echo_loop fd t ((w, rd) # ans) =
     (let msg = hello_msg t in
      if cli_buf \<le> length msg then Inl OutOfBounds
      else if w = - 1 then Inr (Some 0, [SWrite fd msg w])
      else
        bindr (case rd of None \<Rightarrow> Inr (- 1) | Some data \<Rightarrow> if length data < cli_buf then Inr (int (length data)) else Inl OutOfBounds) (\<lambda>r.
        bindr (echo_loop fd ((t + 1) mod size_t_max) ans) (\<lambda>(res, ev). Inr (res, SWrite fd msg w # SRead fd r # ev))))"

text \<open>\<open>sock\<close>, \<open>bnd\<close> and \<open>con\<close> are the answers of \<open>socket\<close>, \<open>bind\<close> and \<open>connect\<close>.\<close>

definition tcp_echo_cli_main :: "int \<Rightarrow> int \<Rightarrow> int \<Rightarrow> echo_answer list \<Rightarrow> cerr + int option \<times> call list" where
  "tcp_echo_cli_main sock bnd con ans =
     (if sock < 0 then Inr (Some (- 1), [])
      else if bnd < 0 then Inr (Some (- 1), [])
      else if con < 0 then Inr (Some (- 1), [])
      else echo_loop sock 0 ans)"

definition udp_echo_cli_main :: "int \<Rightarrow> int \<Rightarrow> echo_answer list \<Rightarrow> cerr + int option \<times> call list" where
  "udp_echo_cli_main sock bnd ans =
     (if sock < 0 then Inr (Some (- 1), [])
      else if bnd < 0 then Inr (Some (- 1), [SClose sock])
      else echo_loop sock 0 ans)"

section \<open>What they send\<close>

lemma show_nat_short: "n < 10 ^ Suc k \<Longrightarrow> length (show_nat n) \<le> Suc k"
proof (induction k arbitrary: n)
  case 0
  then show ?case by (subst show_nat.simps) simp
next
  case (Suc k)
  have "n div 10 < 10 ^ Suc k" using Suc.prems by (simp add: less_mult_imp_div_less mult.commute)
  then show ?case using Suc.IH [of "n div 10"] by (subst show_nat.simps) simp
qed

lemma hello_fits: "t < size_t_max \<Longrightarrow> length (hello_msg t) < cli_buf"
proof -
  assume "t < size_t_max"
  then have "int t < 10 ^ 20" by (simp add: size_t_max_def)
  then have "t < 10 ^ Suc 19" by simp
  from show_nat_short [OF this] show ?thesis by (simp add: hello_msg_def cli_buf_def)
qed

definition sent :: "call list \<Rightarrow> string list" where
  "sent ev = concat (map (\<lambda>e. case e of SWrite _ s _ \<Rightarrow> [s] | _ \<Rightarrow> []) ev)"

lemma echo_client_counts:
  "t + length ans < size_t_max \<Longrightarrow> \<forall>(w, rd) \<in> set ans. w \<noteq> - 1 \<and> (\<forall>d. rd = Some d \<longrightarrow> length d < cli_buf) \<Longrightarrow>
   \<exists>ev. echo_loop fd t ans = Inr (None, ev) \<and> sent ev = map hello_msg [t..<t + length ans]"
proof (induction ans arbitrary: t)
  case Nil
  then show ?case by (simp add: sent_def)
next
  case (Cons a ans)
  obtain w rd where a: "a = (w, rd)" by (cases a)
  have t: "(t + 1) mod size_t_max = Suc t" "length (hello_msg t) < cli_buf" using Cons.prems(1) hello_fits by simp_all
  from Cons.IH [of "Suc t"] Cons.prems obtain ev where ev: "echo_loop fd (Suc t) ans = Inr (None, ev)" "sent ev = map hello_msg [Suc t..<Suc t + length ans]" by auto
  define r where "r = (case rd of None \<Rightarrow> - 1 | Some data \<Rightarrow> int (length data))"
  have "(case rd of None \<Rightarrow> Inr (- 1) | Some data \<Rightarrow> if length data < cli_buf then Inr (int (length data)) else Inl OutOfBounds) = (Inr r :: cerr + int)"
    using Cons.prems(2) a by (auto simp: r_def split: option.splits)
  then have "echo_loop fd t (a # ans) = Inr (None, SWrite fd (hello_msg t) w # SRead fd r # ev)" using Cons.prems(2) a t ev(1) by simp
  moreover have "sent (SWrite fd (hello_msg t) w # SRead fd r # ev) = map hello_msg [t..<t + length (a # ans)]"
    using ev(2) upt_conv_Cons [of t "t + length (a # ans)"] by (simp add: sent_def del: upt_Suc)
  ultimately show ?case by blast
qed

lemma echo_client_overruns:
  "t < size_t_max \<Longrightarrow> w \<noteq> - 1 \<Longrightarrow> length data = cli_buf \<Longrightarrow> echo_loop fd t ((w, Some data) # ans) = Inl OutOfBounds"
  using hello_fits by (simp add: Let_def)

lemma tcp_client_sends:
  assumes "0 \<le> sock" "0 \<le> bnd" "0 \<le> con" "length ans < size_t_max" "\<forall>(w, rd) \<in> set ans. w \<noteq> - 1 \<and> (\<forall>d. rd = Some d \<longrightarrow> length d < cli_buf)"
  shows "\<exists>ev. tcp_echo_cli_main sock bnd con ans = Inr (None, ev) \<and> sent ev = map hello_msg [0..<length ans]"
  using echo_client_counts [of 0 ans sock] assms by (simp add: tcp_echo_cli_main_def)

end
