(* ===== verification/Http2_Client.thy ===== *)
theory Http2_Client
  imports C_Text
begin

text \<open>
  The HTTP/2 client of \<open>nghhtp2/libevent-client.c\<close>: the request it builds from a parsed URL, and its callbacks for the
  network events and for the frames of the server. The libraries libevent, OpenSSL, nghttp2 and
  http-parser are not part of the repository; their answers are parameters of the callbacks.

  \<open>stream_data_request\<close> shows that the buffers for the authority and the path are large enough and hold what the request
  needs, when the URL has a scheme and a host, which the program does not check; \<open>client_frees_once\<close> shows that over all admissible sequences of callbacks the session is torn down
  exactly once and nothing is used after that, and says when printing the negotiated protocol has undefined behaviour.
\<close>

section \<open>The request\<close>

text \<open>\<open>struct http_parser_url\<close>: the fields as offset and length in the URL, where they are set. The parser accepts a URL without a scheme and a host, such as
  \<open>/x\<close>, and leaves the entries of unset fields as they were, which the program never initialised.\<close>

record url_field =
  f_off :: nat
  f_len :: nat

record http_parser_url =
  uf_schema :: "url_field option"
  uf_host :: "url_field option"
  uf_path :: "url_field option"
  uf_query :: "url_field option"
  u_port :: "nat option"

text \<open>Memory fresh from \<open>malloc\<close> has no contents. \<open>memcpy\<close> into a buffer, and the text of a field.\<close>

type_synonym cbuf = "char option list"

definition memcpy :: "cbuf \<Rightarrow> nat \<Rightarrow> string \<Rightarrow> cerr + cbuf" where
  "memcpy buf off src = overwrite buf off (map Some src)"

definition field_text :: "string \<Rightarrow> url_field \<Rightarrow> cerr + string" where
  "field_text uri f = (if f_off f + f_len f \<le> length uri then Inr (take (f_len f) (drop (f_off f) uri)) else Inl OutOfBounds)"

text \<open>\<open>u->field_data\<close> of a field, read without a look at \<open>field_set\<close>.\<close>

definition field_data :: "url_field option \<Rightarrow> cerr + url_field" where
  "field_data f = (case f of None \<Rightarrow> Inl UninitRead | Some d \<Rightarrow> Inr d)"

record http2_stream_data =
  s_uri :: string
  s_u :: http_parser_url
  authority :: cbuf
  path :: cbuf
  authoritylen :: nat
  pathlen :: nat
  stream_id :: int

definition authority_extra :: nat where
  "authority_extra = 7"

text \<open>\<open>snprintf (authority + len, extra, ":%u", port)\<close>: at most \<open>extra\<close> bytes, the last of them 0; the result is the length of the
  whole text.\<close>

definition put_port :: "cbuf \<Rightarrow> nat \<Rightarrow> nat \<Rightarrow> cerr + cbuf \<times> nat" where
  "put_port buf off port =
     (let s = CHR '':'' # show_nat port in
      bindr (memcpy buf off (take (authority_extra - 1) s @ [CHR 0x00])) (\<lambda>buf. Inr (buf, length s)))"

definition make_authority :: "string \<Rightarrow> http_parser_url \<Rightarrow> cerr + cbuf \<times> nat" where
  "make_authority uri u =
     bindr (field_data (uf_host u)) (\<lambda>h.
      let n = f_len h in
      bindr (field_text uri h) (\<lambda>host.
      bindr (memcpy (replicate (n + authority_extra) None) 0 host) (\<lambda>buf.
      case u_port u of None \<Rightarrow> Inr (buf, n) | Some port \<Rightarrow> bindr (put_port buf n port) (\<lambda>(buf, k). Inr (buf, n + k)))))"

definition make_path :: "string \<Rightarrow> http_parser_url \<Rightarrow> cerr + cbuf \<times> nat" where
  "make_path uri u =
     (let n0 = (case uf_path u of None \<Rightarrow> 1 | Some f \<Rightarrow> f_len f);
          n = (case uf_query u of None \<Rightarrow> n0 | Some q \<Rightarrow> n0 + (f_len q + 1)) in
      bindr (case uf_path u of None \<Rightarrow> memcpy (replicate n None) 0 ''/''
             | Some f \<Rightarrow> bindr (field_text uri f) (\<lambda>p. memcpy (replicate n None) 0 p)) (\<lambda>buf.
      bindr (case uf_query u of None \<Rightarrow> Inr buf
             | Some q \<Rightarrow> bindr (memcpy buf (n - f_len q - 1) ''?'') (\<lambda>buf. bindr (field_text uri q) (\<lambda>t. memcpy buf (n - f_len q) t))) (\<lambda>buf.
      Inr (buf, n))))"

definition create_http2_stream_data :: "string \<Rightarrow> http_parser_url \<Rightarrow> cerr + http2_stream_data" where
  "create_http2_stream_data uri u =
     bindr (make_authority uri u) (\<lambda>(a, an). bindr (make_path uri u) (\<lambda>(p, pn).
     Inr \<lparr>s_uri = uri, s_u = u, authority = a, path = p, authoritylen = an, pathlen = pn, stream_id = - 1\<rparr>))"

text \<open>The bytes a header value is made of; reading one that was never written is an error.\<close>

fun buf_text :: "cbuf \<Rightarrow> cerr + string" where
  "buf_text [] = Inr []"
| "buf_text (None # cs) = Inl UninitRead"
| "buf_text (Some c # cs) = bindr (buf_text cs) (\<lambda>s. Inr (c # s))"

definition request_headers :: "http2_stream_data \<Rightarrow> cerr + (string \<times> string) list" where
  "request_headers sd =
     bindr (field_data (uf_schema (s_u sd))) (\<lambda>sc.
     bindr (field_text (s_uri sd) sc) (\<lambda>scheme.
     bindr (buf_text (take (authoritylen sd) (authority sd))) (\<lambda>auth.
     bindr (buf_text (take (pathlen sd) (path sd))) (\<lambda>pth.
     Inr [('':method'', ''GET''), ('':scheme'', scheme), ('':authority'', auth), ('':path'', pth)]))))"

section \<open>The session and its callbacks\<close>

text \<open>The calls to the libraries that matter for the life of the session, and what is printed.\<close>

datatype h2call =
    SslShutdown
  | BevFree
  | DnsFree
  | SessionDel
  | StreamFree
  | DataFree
  | SubmitSettings
  | SubmitRequest "(string \<times> string) list"
  | SessionSend
  | Terminate
  | Err string
  | Out string

text \<open>\<open>session\<close> is whether there is an nghttp2 session.\<close>

record http2_session_data =
  session :: bool
  stream_data :: "http2_stream_data option"

definition delete_http2_stream_data :: "h2call list" where
  "delete_http2_stream_data = [StreamFree]"

text \<open>\<open>ssl\<close> is whether the bufferevent has an SSL object.\<close>

definition delete_http2_session_data :: "bool \<Rightarrow> http2_session_data \<Rightarrow> h2call list" where
  "delete_http2_session_data ssl sd =
     (if ssl then [SslShutdown] else []) @ [BevFree, DnsFree, SessionDel]
     @ (if stream_data sd \<noteq> None then delete_http2_stream_data else []) @ [DataFree]"

definition print_header :: "string \<Rightarrow> string \<Rightarrow> string" where
  "print_header name val = name @ '': '' @ val @ [CHR 0x0A]"

definition print_headers :: "(string \<times> string) list \<Rightarrow> string" where
  "print_headers nva = concat (map (\<lambda>(n, v). print_header n v) nva) @ [CHR 0x0A]"

text \<open>A frame: whether it is a \<open>HEADERS\<close> frame, whether it opens a response, and its stream.\<close>

record nghttp2_frame =
  fr_headers :: bool
  fr_response :: bool
  fr_stream :: int

definition ours :: "http2_session_data \<Rightarrow> nghttp2_frame \<Rightarrow> cerr + bool" where
  "ours sd fr =
     (if fr_headers fr then
        if fr_response fr then bindr (deref (stream_data sd)) (\<lambda>st. Inr (stream_id st = fr_stream fr)) else Inr False
      else Inr False)"

definition on_header_callback :: "http2_session_data \<Rightarrow> nghttp2_frame \<Rightarrow> string \<Rightarrow> string \<Rightarrow> cerr + int \<times> h2call list" where
  "on_header_callback sd fr name val = bindr (ours sd fr) (\<lambda>b. Inr (0, if b then [Err (print_header name val)] else []))"

definition on_begin_headers_callback :: "http2_session_data \<Rightarrow> nghttp2_frame \<Rightarrow> cerr + int \<times> h2call list" where
  "on_begin_headers_callback sd fr =
     bindr (ours sd fr) (\<lambda>b. Inr (0, if b then [Err (''Response headers for stream ID='' @ show_int (fr_stream fr) @ '':'' @ [CHR 0x0A])] else []))"

definition on_frame_recv_callback :: "http2_session_data \<Rightarrow> nghttp2_frame \<Rightarrow> cerr + int \<times> h2call list" where
  "on_frame_recv_callback sd fr = bindr (ours sd fr) (\<lambda>b. Inr (0, if b then [Err (''All headers received'' @ [CHR 0x0A])] else []))"

definition on_data_chunk_recv_callback :: "http2_session_data \<Rightarrow> int \<Rightarrow> string \<Rightarrow> cerr + int \<times> h2call list" where
  "on_data_chunk_recv_callback sd sid data =
     bindr (deref (stream_data sd)) (\<lambda>st. Inr (0, if stream_id st = sid then [Out data] else []))"

definition NGHTTP2_ERR_CALLBACK_FAILURE :: int where
  "NGHTTP2_ERR_CALLBACK_FAILURE = - 902"

text \<open>\<open>rv\<close> is the answer of \<open>nghttp2_session_terminate_session\<close>.\<close>

definition on_stream_close_callback :: "int \<Rightarrow> http2_session_data \<Rightarrow> int \<Rightarrow> int \<Rightarrow> cerr + int \<times> h2call list" where
  "on_stream_close_callback rv sd sid error_code =
     bindr (deref (stream_data sd)) (\<lambda>st.
     if stream_id st = sid
     then Inr (if rv \<noteq> 0 then NGHTTP2_ERR_CALLBACK_FAILURE else 0,
               [Err (''Stream '' @ show_int sid @ '' closed with error_code='' @ show_int error_code @ [CHR 0x0A]), Terminate])
     else Inr (0, []))"

text \<open>What nghttp2 calls while it works through received data.\<close>

datatype h2event =
    Header nghttp2_frame string string
  | BeginHeaders nghttp2_frame
  | FrameRecv nghttp2_frame
  | DataChunk int string
  | StreamClose int int int

fun on_event :: "http2_session_data \<Rightarrow> h2event \<Rightarrow> cerr + int \<times> h2call list" where
  "on_event sd (Header fr n v) = on_header_callback sd fr n v"
| "on_event sd (BeginHeaders fr) = on_begin_headers_callback sd fr"
| "on_event sd (FrameRecv fr) = on_frame_recv_callback sd fr"
| "on_event sd (DataChunk sid d) = on_data_chunk_recv_callback sd sid d"
| "on_event sd (StreamClose rv sid ec) = on_stream_close_callback rv sd sid ec"

fun on_events :: "http2_session_data \<Rightarrow> h2event list \<Rightarrow> cerr + h2call list" where
  "on_events sd [] = Inr []"
| "on_events sd (e # es) = bindr (on_event sd e) (\<lambda>(r, c). if r \<noteq> 0 then Inr c else bindr (on_events sd es) (\<lambda>c'. Inr (c @ c')))"

definition initialize_nghttp2_session :: "http2_session_data \<Rightarrow> http2_session_data" where
  "initialize_nghttp2_session sd = sd\<lparr>session := True\<rparr>"

definition send_client_connection_header :: "int \<Rightarrow> cerr + h2call list" where
  "send_client_connection_header rv = (if rv \<noteq> 0 then Inl Exited else Inr [SubmitSettings])"

text \<open>\<open>sid\<close> is the answer of \<open>nghttp2_submit_request\<close>.\<close>

definition submit_request :: "int \<Rightarrow> http2_session_data \<Rightarrow> cerr + http2_session_data \<times> h2call list" where
  "submit_request sid sd =
     bindr (deref (stream_data sd)) (\<lambda>st. bindr (request_headers st) (\<lambda>hdrs.
     if sid < 0 then Inl Exited
     else Inr (sd\<lparr>stream_data := Some (st\<lparr>stream_id := sid\<rparr>)\<rparr>,
               [Err (''Request headers:'' @ [CHR 0x0A] @ print_headers hdrs), SubmitRequest hdrs])))"

definition session_send :: "int \<Rightarrow> int" where
  "session_send rv = (if rv \<noteq> 0 then - 1 else 0)"

text \<open>The three callbacks of the bufferevent; \<open>None\<close> is the session after it has been freed. An nghttp2 function
  that is given no session dereferences a null pointer.\<close>

record read_answers =
  r_events :: "h2event list"
  r_recv :: int
  r_drain :: int
  r_send :: int

definition readcb :: "bool \<Rightarrow> read_answers \<Rightarrow> http2_session_data \<Rightarrow> cerr + http2_session_data option \<times> h2call list" where
  "readcb ssl an sd =
     (if \<not> session sd then Inl NullDeref else
      bindr (on_events sd (r_events an)) (\<lambda>ev.
      if r_recv an < 0 then Inr (None, ev @ delete_http2_session_data ssl sd)
      else if r_drain an \<noteq> 0 then Inr (None, ev @ delete_http2_session_data ssl sd)
      else if session_send (r_send an) \<noteq> 0 then Inr (None, ev @ [SessionSend] @ delete_http2_session_data ssl sd)
      else Inr (Some sd, ev @ [SessionSend])))"

definition writecb :: "bool \<Rightarrow> int \<Rightarrow> int \<Rightarrow> nat \<Rightarrow> http2_session_data \<Rightarrow> cerr + http2_session_data option \<times> h2call list" where
  "writecb ssl want_read want_write outlen sd =
     (if \<not> session sd then Inl NullDeref
      else if want_read = 0 \<and> want_write = 0 \<and> outlen = 0 then Inr (None, delete_http2_session_data ssl sd)
      else Inr (Some sd, []))"

text \<open>\<open>c_alpn\<close> is what OpenSSL answers for the negotiated protocol: a null pointer, or the bytes of its name, which are not terminated by a zero.\<close>

record connect_answers =
  c_alpn :: "string option"
  c_settings :: int
  c_request :: int
  c_send :: int

text \<open>What \<open>%s\<close> prints for these: a null pointer is undefined, and so is reading on behind the bytes.\<close>

definition alpn_text :: "string option \<Rightarrow> cerr + string" where
  "alpn_text alpn =
     (case alpn of None \<Rightarrow> Inl NullDeref
      | Some b \<Rightarrow> if CHR 0x00 \<in> set b then Inr (takeWhile (\<lambda>c. c \<noteq> CHR 0x00) b) else Inl OutOfBounds)"

text \<open>The message about the protocol; the version of OpenSSL at its end is left out.\<close>

definition alpn_message :: "string option \<Rightarrow> cerr + h2call list" where
  "alpn_message alpn =
     (if alpn \<noteq> Some ''h2''
      then bindr (alpn_text alpn) (\<lambda>t. Inr [Err (''eventcb: h2 is not negotiated, alpn='' @ [CHR 0x27] @ t @ [CHR 0x27])])
      else Inr [])"

datatype bev_event = Connected connect_answers | Eof | NetError | Timeout | OtherEvent

fun eventcb :: "bool \<Rightarrow> bev_event \<Rightarrow> http2_session_data \<Rightarrow> cerr + http2_session_data option \<times> h2call list" where
  "eventcb ssl (Connected an) sd =
     bindr (alpn_message (c_alpn an)) (\<lambda>ev.
     let ev0 = Err (''Connected'' @ [CHR 0x0A]) # ev;
         sd = initialize_nghttp2_session sd in
     bindr (send_client_connection_header (c_settings an)) (\<lambda>ev1.
     bindr (submit_request (c_request an) sd) (\<lambda>(sd, ev2).
     if session_send (c_send an) \<noteq> 0 then Inr (None, ev0 @ ev1 @ ev2 @ [SessionSend] @ delete_http2_session_data ssl sd)
     else Inr (Some sd, ev0 @ ev1 @ ev2 @ [SessionSend]))))"
| "eventcb ssl Eof sd = Inr (None, Err ''Disconnected from the remote host'' # delete_http2_session_data ssl sd)"
| "eventcb ssl NetError sd = Inr (None, Err ''Network error'' # delete_http2_session_data ssl sd)"
| "eventcb ssl Timeout sd = Inr (None, Err ''Timeout'' # delete_http2_session_data ssl sd)"
| "eventcb ssl OtherEvent sd = Inr (None, delete_http2_session_data ssl sd)"

datatype callback = OnRead read_answers | OnWrite int int nat | OnEvent bev_event

fun run_callback :: "bool \<Rightarrow> callback \<Rightarrow> http2_session_data \<Rightarrow> cerr + http2_session_data option \<times> h2call list" where
  "run_callback ssl (OnRead an) sd = readcb ssl an sd"
| "run_callback ssl (OnWrite r w n) sd = writecb ssl r w n sd"
| "run_callback ssl (OnEvent e) sd = eventcb ssl e sd"

text \<open>The event loop runs the callbacks it is given; one after the session is freed would use it after free.\<close>

fun event_base_loop :: "bool \<Rightarrow> callback list \<Rightarrow> http2_session_data option \<Rightarrow> cerr + http2_session_data option \<times> h2call list" where
  "event_base_loop ssl [] h = Inr (h, [])"
| "event_base_loop ssl (cb # cbs) h =
     bindr (deref h) (\<lambda>sd. bindr (run_callback ssl cb sd) (\<lambda>(h, ev). bindr (event_base_loop ssl cbs h) (\<lambda>(h, ev'). Inr (h, ev @ ev'))))"

text \<open>The set-up: whether the SSL context and the SSL object could be made and the answer of
  \<open>bufferevent_socket_connect_hostname\<close> are parameters.\<close>

definition create_ssl_ctx :: "bool \<Rightarrow> cerr + unit" where
  "create_ssl_ctx ok = (if \<not> ok then Inl Exited else Inr ())"

definition create_ssl :: "bool \<Rightarrow> cerr + unit" where
  "create_ssl ok = (if \<not> ok then Inl Exited else Inr ())"

definition create_http2_session_data :: http2_session_data where
  "create_http2_session_data = \<lparr>session = False, stream_data = None\<rparr>"

definition initiate_connection :: "bool \<Rightarrow> int \<Rightarrow> cerr + unit" where
  "initiate_connection ssl_ok rv = bindr (create_ssl ssl_ok) (\<lambda>_. if rv \<noteq> 0 then Inl Exited else Inr ())"

definition connect_port :: "http_parser_url \<Rightarrow> nat" where
  "connect_port u = (case u_port u of None \<Rightarrow> 443 | Some p \<Rightarrow> p)"

text \<open>\<open>run\<close>: \<open>parsed\<close> is the result of the URL parser. The host and the port the client connects to are part of the result.\<close>

definition run_client :: "http_parser_url option \<Rightarrow> bool \<Rightarrow> bool \<Rightarrow> int \<Rightarrow> callback list \<Rightarrow> string \<Rightarrow>
    cerr + string \<times> nat \<times> http2_session_data option \<times> h2call list" where
  "run_client parsed ctx_ok ssl_ok con cbs uri =
     (case parsed of None \<Rightarrow> Inl Exited
      | Some u \<Rightarrow>
        bindr (field_data (uf_host u)) (\<lambda>h.
        bindr (field_text uri h) (\<lambda>host.
        bindr (create_ssl_ctx ctx_ok) (\<lambda>_.
        bindr (create_http2_stream_data uri u) (\<lambda>st.
        let sd = create_http2_session_data\<lparr>stream_data := Some st\<rparr> in
        bindr (initiate_connection ssl_ok con) (\<lambda>_.
        bindr (event_base_loop True cbs (Some sd)) (\<lambda>(h, ev). Inr (host, connect_port u, h, ev))))))))"

definition hello_libnghttp2_main :: "string list \<Rightarrow> (string \<Rightarrow> http_parser_url option) \<Rightarrow> bool \<Rightarrow> bool \<Rightarrow> int \<Rightarrow> callback list \<Rightarrow> cerr + int" where
  "hello_libnghttp2_main argv parse ctx_ok ssl_ok con cbs =
     (if length argv < 2 then Inl Exited else bindr (run_client (parse (argv ! 1)) ctx_ok ssl_ok con cbs (argv ! 1)) (\<lambda>_. Inr 0))"

section \<open>The request is what the URL says\<close>

definition in_uri :: "string \<Rightarrow> url_field \<Rightarrow> bool" where
  "in_uri uri f \<longleftrightarrow> f_off f + f_len f \<le> length uri"

definition text_of :: "string \<Rightarrow> url_field \<Rightarrow> string" where
  "text_of uri f = take (f_len f) (drop (f_off f) uri)"

text \<open>What http-parser guarantees: the fields that are set lie inside the URL and the port is a 16-bit number.\<close>

definition field_ok :: "string \<Rightarrow> url_field option \<Rightarrow> bool" where
  "field_ok uri f = (case f of None \<Rightarrow> True | Some d \<Rightarrow> in_uri uri d)"

definition url_ok :: "string \<Rightarrow> http_parser_url \<Rightarrow> bool" where
  "url_ok uri u \<longleftrightarrow> field_ok uri (uf_schema u) \<and> field_ok uri (uf_host u) \<and> field_ok uri (uf_path u) \<and> field_ok uri (uf_query u)
     \<and> (case u_port u of None \<Rightarrow> True | Some p \<Rightarrow> p < 65536)"

definition authority_text :: "string \<Rightarrow> url_field \<Rightarrow> http_parser_url \<Rightarrow> string" where
  "authority_text uri h u = text_of uri h @ (case u_port u of None \<Rightarrow> [] | Some p \<Rightarrow> CHR '':'' # show_nat p)"

definition path_text :: "string \<Rightarrow> http_parser_url \<Rightarrow> string" where
  "path_text uri u = (case uf_path u of None \<Rightarrow> ''/'' | Some f \<Rightarrow> text_of uri f) @ (case uf_query u of None \<Rightarrow> [] | Some q \<Rightarrow> CHR ''?'' # text_of uri q)"

lemma field_text_in: "in_uri uri f \<Longrightarrow> field_text uri f = Inr (text_of uri f)"
  by (simp add: in_uri_def field_text_def text_of_def)

lemma text_of_length: "in_uri uri f \<Longrightarrow> length (text_of uri f) = f_len f"
  by (simp add: in_uri_def text_of_def)

lemma buf_text_map [simp]: "buf_text (map Some s) = Inr s"
  by (induction s) auto

lemma memcpy_fresh: "n = length s + k \<Longrightarrow> memcpy (replicate n None) 0 s = Inr (map Some s @ replicate k None)"
  by (simp add: memcpy_def overwrite_def)

lemma memcpy_next: "memcpy (map Some s @ replicate (length t + k) None) (length s) t = Inr (map Some (s @ t) @ replicate k None)"
  by (simp add: memcpy_def overwrite_def)

lemma show_port_short: "p < 65536 \<Longrightarrow> length (show_nat p) \<le> 5"
proof -
  assume "p < 65536"
  then have "p div 10 div 10 div 10 div 10 < 10" by simp
  then show ?thesis by (simp add: show_nat.simps [of p] show_nat.simps [of "p div 10"] show_nat.simps [of "p div 10 div 10"]
      show_nat.simps [of "p div 10 div 10 div 10"] show_nat.simps [of "p div 10 div 10 div 10 div 10"] del: div_mult2_eq)
qed

lemma make_authority_ok:
  assumes "url_ok uri u" "uf_host u = Some h"
  shows "\<exists>buf. make_authority uri u = Inr (buf, length (authority_text uri h u)) \<and> take (length (authority_text uri h u)) buf = map Some (authority_text uri h u)"
proof -
  let ?h = "text_of uri h"
  have th: "field_text uri h = Inr ?h" "length ?h = f_len h" using assms by (simp_all add: url_ok_def field_ok_def field_text_in text_of_length)
  have b: "memcpy (replicate (f_len h + authority_extra) None) 0 ?h = Inr (map Some ?h @ replicate authority_extra None)" by (rule memcpy_fresh) (simp add: th(2))
  show ?thesis
  proof (cases "u_port u")
    case None
    then show ?thesis using th b assms(2) by (simp add: make_authority_def field_data_def authority_text_def)
  next
    case (Some p)
    let ?s = "CHR '':'' # show_nat p"
    have "length (show_nat p) \<le> 5" using assms Some show_port_short by (simp add: url_ok_def)
    then have k: "take (authority_extra - 1) ?s = ?s" "authority_extra = length (?s @ [CHR 0x00]) + (5 - length (show_nat p))" by (simp_all add: authority_extra_def)
    have "memcpy (map Some ?h @ replicate authority_extra None) (f_len h) (?s @ [CHR 0x00]) =
        Inr (map Some (?h @ ?s @ [CHR 0x00]) @ replicate (5 - length (show_nat p)) None)"
      using memcpy_next [of ?h "?s @ [CHR 0x00]"] unfolding k(2) [symmetric] th(2) [symmetric] by (metis k(2))
    then have "put_port (map Some ?h @ replicate authority_extra None) (f_len h) p =
        Inr (map Some (?h @ ?s @ [CHR 0x00]) @ replicate (5 - length (show_nat p)) None, length ?s)"
      unfolding put_port_def Let_def k(1) by simp
    then show ?thesis using th b Some assms(2) by (simp add: make_authority_def field_data_def authority_text_def)
  qed
qed

lemma make_path_ok:
  assumes "url_ok uri u"
  shows "make_path uri u = Inr (map Some (path_text uri u), length (path_text uri u))"
proof -
  define p where "p = (case uf_path u of None \<Rightarrow> ''/'' | Some f \<Rightarrow> text_of uri f)"
  have p: "(case uf_path u of None \<Rightarrow> 1 | Some f \<Rightarrow> f_len f) = length p"
    "(case uf_path u of None \<Rightarrow> memcpy b 0 ''/'' | Some f \<Rightarrow> bindr (field_text uri f) (\<lambda>t. memcpy b 0 t)) = memcpy b 0 p" for b
    using assms by (auto simp: p_def url_ok_def field_ok_def field_text_in text_of_length split: option.splits)
  show ?thesis
  proof (cases "uf_query u")
    case None
    have "memcpy (replicate (length p) None) 0 p = Inr (map Some p)" using memcpy_fresh [of "length p" p 0] by simp
    then show ?thesis using None by (simp add: make_path_def p path_text_def p_def [symmetric])
  next
    case (Some q)
    let ?q = "text_of uri q"
    have q: "field_text uri q = Inr ?q" "length ?q = f_len q" using assms Some by (simp_all add: url_ok_def field_ok_def field_text_in text_of_length)
    have "memcpy (replicate (length p + (f_len q + 1)) None) 0 p = Inr (map Some p @ replicate (f_len q + 1) None)" by (rule memcpy_fresh) simp
    moreover have "memcpy (map Some p @ replicate (f_len q + 1) None) (length p) ''?'' = Inr (map Some (p @ ''?'') @ replicate (f_len q) None)"
      using memcpy_next [of p "''?''" "f_len q"] by simp
    moreover have "memcpy (map Some (p @ ''?'') @ replicate (f_len q) None) (Suc (length p)) ?q = Inr (map Some (p @ ''?'' @ ?q))"
      using memcpy_next [of "p @ ''?''" ?q 0] q(2) by simp
    ultimately show ?thesis using Some by (simp add: make_path_def p q path_text_def p_def [symmetric] Let_def del: map_append)
  qed
qed

text \<open>The headers, or the error that reading an unset scheme is.\<close>

definition header_result :: "string \<Rightarrow> url_field \<Rightarrow> http_parser_url \<Rightarrow> cerr + (string \<times> string) list" where
  "header_result uri h u =
     (case uf_schema u of None \<Rightarrow> Inl UninitRead
      | Some sc \<Rightarrow> Inr [('':method'', ''GET''), ('':scheme'', text_of uri sc), ('':authority'', authority_text uri h u), ('':path'', path_text uri u)])"

lemma request_ok:
  assumes "url_ok uri u" "uf_host u = Some h"
  obtains st where "create_http2_stream_data uri u = Inr st" "stream_id st = - 1" "\<And>k. request_headers (st\<lparr>stream_id := k\<rparr>) = header_result uri h u"
proof -
  obtain buf where a: "make_authority uri u = Inr (buf, length (authority_text uri h u))" "take (length (authority_text uri h u)) buf = map Some (authority_text uri h u)"
    using make_authority_ok [OF assms] by blast
  let ?st = "\<lparr>s_uri = uri, s_u = u, authority = buf, path = map Some (path_text uri u), authoritylen = length (authority_text uri h u),
    pathlen = length (path_text uri u), stream_id = - 1\<rparr>"
  show thesis
  proof (rule that [of ?st])
    show "create_http2_stream_data uri u = Inr ?st" using a(1) make_path_ok [OF assms(1)] by (simp add: create_http2_stream_data_def)
    show "request_headers (?st\<lparr>stream_id := k\<rparr>) = header_result uri h u" for k
      using a(2) assms(1) by (auto simp: request_headers_def header_result_def field_data_def url_ok_def field_ok_def field_text_in split: option.splits)
  qed simp
qed

text \<open>C27: for every URL whose fields, as the parser returns them, lie inside the URL and whose port is below 65536: with a scheme and a host, the buffers are large enough, and the
  request has the host with the port, if there is
  one, as its authority and the path, or a slash, with the query behind a question mark as its path. Without a host the code that makes the buffers uses an unset
  value, and with a host but without a scheme the one that makes the request does.\<close>

theorem stream_data_request:
  assumes "url_ok uri u"
  shows "case uf_host u of None \<Rightarrow> create_http2_stream_data uri u = Inl UninitRead
    | Some h \<Rightarrow> \<exists>st. create_http2_stream_data uri u = Inr st \<and> request_headers st =
        (case uf_schema u of None \<Rightarrow> Inl UninitRead
         | Some sc \<Rightarrow> Inr [('':method'', ''GET''), ('':scheme'', text_of uri sc), ('':authority'', authority_text uri h u), ('':path'', path_text uri u)])"
proof (cases "uf_host u")
  case None
  then show ?thesis by (simp add: create_http2_stream_data_def make_authority_def field_data_def)
next
  case (Some h)
  obtain st where st: "create_http2_stream_data uri u = Inr st" "stream_id st = - 1"
    "\<And>k. request_headers (st\<lparr>stream_id := k\<rparr>) = header_result uri h u"
    using request_ok [OF assms Some] by blast
  have "st\<lparr>stream_id := - 1\<rparr> = st" using st(2) by (cases st) simp
  then show ?thesis using st(1) st(3) [of "- 1"] Some by (auto simp: header_result_def)
qed

definition demo_uri :: string where
  "demo_uri = ''https://a.b:80?x=1''"

definition demo_url :: http_parser_url where
  "demo_url = \<lparr>uf_schema = Some \<lparr>f_off = 0, f_len = 5\<rparr>, uf_host = Some \<lparr>f_off = 8, f_len = 3\<rparr>, uf_path = None, uf_query = Some \<lparr>f_off = 15, f_len = 3\<rparr>, u_port = Some 80\<rparr>"

lemma demo_url_ok: "url_ok demo_uri demo_url"
  by (simp add: url_ok_def field_ok_def in_uri_def demo_uri_def demo_url_def)

theorem stream_data_request_witness:
  "\<exists>st. create_http2_stream_data demo_uri demo_url = Inr st \<and> request_headers st =
    Inr [('':method'', ''GET''), ('':scheme'', ''https''), ('':authority'', ''a.b:80''), ('':path'', ''/?x=1'')]"
proof -
  have "text_of demo_uri \<lparr>f_off = 0, f_len = 5\<rparr> = ''https''" "authority_text demo_uri \<lparr>f_off = 8, f_len = 3\<rparr> demo_url = ''a.b:80''"
    "path_text demo_uri demo_url = ''/?x=1''" by code_simp+
  moreover have "uf_host demo_url = Some \<lparr>f_off = 8, f_len = 3\<rparr>" "uf_schema demo_url = Some \<lparr>f_off = 0, f_len = 5\<rparr>" by (simp_all add: demo_url_def)
  ultimately show ?thesis using stream_data_request [OF demo_url_ok] by simp
qed

section \<open>The life of the session\<close>

text \<open>What libevent guarantees: reading and writing are reported only after the connection, which is reported once; after
  the bufferevent has been freed no callback is run.\<close>

fun admissible :: "http2_session_data \<Rightarrow> callback \<Rightarrow> bool" where
  "admissible sd (OnRead an) \<longleftrightarrow> session sd"
| "admissible sd (OnWrite r w n) \<longleftrightarrow> session sd"
| "admissible sd (OnEvent (Connected an)) \<longleftrightarrow> \<not> session sd"
| "admissible sd (OnEvent e) \<longleftrightarrow> True"

inductive client_reach :: "http2_stream_data \<Rightarrow> http2_session_data option \<Rightarrow> h2call list \<Rightarrow> bool" for st where
  start: "client_reach st (Some (create_http2_session_data\<lparr>stream_data := Some st\<rparr>)) []"
| step: "client_reach st (Some sd) tr \<Longrightarrow> admissible sd cb \<Longrightarrow> run_callback True cb sd = Inr (h, ev) \<Longrightarrow> client_reach st h (tr @ ev)"

definition frees :: "h2call list \<Rightarrow> h2call list" where
  "frees tr = filter (\<lambda>c. c \<in> {BevFree, DnsFree, SessionDel, StreamFree, DataFree}) tr"

definition torn_down :: "h2call list" where
  "torn_down = [BevFree, DnsFree, SessionDel, StreamFree, DataFree]"

lemma frees_append [simp]: "frees (xs @ ys) = frees xs @ frees ys"
  by (simp add: frees_def)

lemma frees_none: "\<forall>c \<in> set ev. c \<notin> {BevFree, DnsFree, SessionDel, StreamFree, DataFree} \<Longrightarrow> frees ev = []"
  by (simp add: frees_def filter_False)

lemma frees_delete: "stream_data sd \<noteq> None \<Longrightarrow> frees (delete_http2_session_data ssl sd) = torn_down"
  by (simp add: frees_def delete_http2_session_data_def delete_http2_stream_data_def torn_down_def)

lemma frees_simps [simp]:
  "frees [] = []" "frees (SubmitSettings # t) = frees t" "frees (SubmitRequest hs # t) = frees t" "frees (SessionSend # t) = frees t"
  "frees (Terminate # t) = frees t" "frees (Err s # t) = frees t" "frees (Out s # t) = frees t"
  by (simp_all add: frees_def)

text \<open>The session as the callbacks see it: there is a stream, whose headers are \<open>hr\<close>.\<close>

definition live :: "cerr + (string \<times> string) list \<Rightarrow> http2_session_data \<Rightarrow> bool" where
  "live hr sd \<longleftrightarrow> (\<exists>st. stream_data sd = Some st \<and> (\<forall>k. request_headers (st\<lparr>stream_id := k\<rparr>) = hr))"

lemma live_headers: "live hr sd \<Longrightarrow> stream_data sd = Some st \<Longrightarrow> request_headers st = hr"
proof -
  assume "live hr sd" "stream_data sd = Some st"
  moreover have "st\<lparr>stream_id := stream_id st\<rparr> = st" by simp
  ultimately show ?thesis unfolding live_def by (metis option.inject)
qed

text \<open>The undefined behaviour that a callback runs into: printing the protocol, or reading an unset scheme.\<close>

fun cb_fault :: "http_parser_url \<Rightarrow> callback \<Rightarrow> cerr option" where
  "cb_fault u (OnEvent (Connected an)) =
     (if c_alpn an = None then Some NullDeref
      else if c_alpn an \<noteq> Some ''h2'' \<and> CHR 0x00 \<notin> set (the (c_alpn an)) then Some OutOfBounds
      else if c_settings an = 0 \<and> uf_schema u = None then Some UninitRead else None)"
| "cb_fault u cb = None"

lemma on_event_ok: "stream_data sd \<noteq> None \<Longrightarrow> \<exists>r c. on_event sd e = Inr (r, c) \<and> frees c = []"
  by (cases e) (auto simp: on_header_callback_def on_begin_headers_callback_def on_frame_recv_callback_def on_data_chunk_recv_callback_def
      on_stream_close_callback_def ours_def)

lemma on_events_ok: "stream_data sd \<noteq> None \<Longrightarrow> \<exists>c. on_events sd es = Inr c \<and> frees c = []"
proof (induction es)
  case (Cons e es)
  obtain r c where "on_event sd e = Inr (r, c)" "frees c = []" using on_event_ok [OF Cons.prems] by blast
  then show ?case using Cons by auto
qed simp

text \<open>What a callback does to a live session.\<close>

definition cb_result :: "cerr + (string \<times> string) list \<Rightarrow> http2_session_data option \<times> h2call list \<Rightarrow> bool" where
  "cb_result hr p \<longleftrightarrow> (case fst p of None \<Rightarrow> frees (snd p) = torn_down | Some sd \<Rightarrow> frees (snd p) = [] \<and> live hr sd)"

lemma readcb_ok: "live hr sd \<Longrightarrow> session sd \<Longrightarrow> \<exists>p. readcb ssl an sd = Inr p \<and> cb_result hr p"
proof -
  assume l: "live hr sd" "session sd"
  then have s: "stream_data sd \<noteq> None" by (auto simp: live_def)
  obtain c where "on_events sd (r_events an) = Inr c" "frees c = []" using on_events_ok [OF s] by blast
  then show ?thesis using l frees_delete [OF s] by (simp add: readcb_def cb_result_def)
qed

lemma writecb_ok: "live hr sd \<Longrightarrow> session sd \<Longrightarrow> \<exists>p. writecb ssl r w n sd = Inr p \<and> cb_result hr p"
  using frees_delete [of sd] by (auto simp: writecb_def cb_result_def live_def)

lemma alpn_message_cases:
  "alpn_message a = (if a = None then Inl NullDeref else if a \<noteq> Some ''h2'' \<and> CHR 0x00 \<notin> set (the a) then Inl OutOfBounds else alpn_message a)"
  "\<lbrakk>a \<noteq> None; a = Some ''h2'' \<or> CHR 0x00 \<in> set (the a)\<rbrakk> \<Longrightarrow> \<exists>ev. alpn_message a = Inr ev \<and> frees ev = []"
  by (cases a; auto simp: alpn_message_def alpn_text_def)+

lemma connected_ok:
  assumes "live (header_result uri h u) sd"
  shows "case cb_fault u (OnEvent (Connected an)) of Some e \<Rightarrow> eventcb ssl (Connected an) sd = Inl e
    | None \<Rightarrow> eventcb ssl (Connected an) sd = Inl Exited \<or> (\<exists>p. eventcb ssl (Connected an) sd = Inr p \<and> cb_result (header_result uri h u) p)"
proof -
  let ?hr = "header_result uri h u"
  obtain st where st: "stream_data sd = Some st" "\<forall>k. request_headers (st\<lparr>stream_id := k\<rparr>) = ?hr" using assms by (auto simp: live_def)
  have hs: "request_headers st = ?hr" using live_headers [OF assms st(1)] .
  show ?thesis
  proof (cases "c_alpn an = None \<or> c_alpn an \<noteq> Some ''h2'' \<and> CHR 0x00 \<notin> set (the (c_alpn an))")
    case True
    then show ?thesis using alpn_message_cases(1) [of "c_alpn an"] by auto
  next
    case False
    then obtain ev where ev: "alpn_message (c_alpn an) = Inr ev" "frees ev = []" using alpn_message_cases(2) [of "c_alpn an"] by auto
    let ?sd = "sd\<lparr>session := True, stream_data := Some (st\<lparr>stream_id := c_request an\<rparr>)\<rparr>"
    have l: "live ?hr ?sd" using st(2) by (simp add: live_def)
    have d: "frees (delete_http2_session_data ssl ?sd) = torn_down" by (rule frees_delete) simp
    have sr: "submit_request (c_request an) (initialize_nghttp2_session sd) = bindr ?hr (\<lambda>hdrs. if c_request an < 0 then Inl Exited
        else Inr (?sd, [Err (''Request headers:'' @ [CHR 0x0A] @ print_headers hdrs), SubmitRequest hdrs]))"
      using st(1) hs by (simp add: submit_request_def initialize_nghttp2_session_def)
    show ?thesis
    proof (cases "uf_schema u")
      case None
      then have "?hr = Inl UninitRead" by (simp add: header_result_def)
      then show ?thesis using False ev(1) None by (auto simp: sr send_client_connection_header_def)
    next
      case (Some sc)
      then obtain hs where "?hr = Inr hs" by (simp add: header_result_def)
      then show ?thesis using False ev l d Some
        by (auto simp: sr Let_def send_client_connection_header_def cb_result_def)
    qed
  qed
qed

lemma callback_ok:
  assumes "live (header_result uri h u) sd" "admissible sd cb"
  shows "case cb_fault u cb of Some e \<Rightarrow> run_callback ssl cb sd = Inl e
    | None \<Rightarrow> run_callback ssl cb sd = Inl Exited \<or> (\<exists>p. run_callback ssl cb sd = Inr p \<and> cb_result (header_result uri h u) p)"
proof (cases cb)
  case (OnRead an)
  then show ?thesis using assms readcb_ok by simp
next
  case (OnWrite r w n)
  then show ?thesis using assms writecb_ok by simp
next
  case (OnEvent e)
  have s: "frees (delete_http2_session_data ssl sd) = torn_down" using assms(1) frees_delete by (auto simp: live_def)
  show ?thesis
  proof (cases e)
    case (Connected an)
    then have "run_callback ssl cb sd = eventcb ssl (Connected an) sd" "cb = OnEvent (Connected an)" using OnEvent by simp_all
    then show ?thesis using connected_ok [OF assms(1), where an = an] by (simp only:)
  qed (use OnEvent s in \<open>simp_all add: cb_result_def\<close>)
qed

lemma reach_live:
  assumes "client_reach st hh tr" "\<forall>k. request_headers (st\<lparr>stream_id := k\<rparr>) = header_result uri h u"
  shows "case hh of None \<Rightarrow> frees tr = torn_down | Some sd \<Rightarrow> frees tr = [] \<and> live (header_result uri h u) sd"
  using assms
proof (induction rule: client_reach.induct)
  case start
  then show ?case by (simp add: live_def create_http2_session_data_def)
next
  case (step sd tr cb hh ev)
  then have l: "live (header_result uri h u) sd" "frees tr = []" by simp_all
  have "cb_result (header_result uri h u) (hh, ev)" using callback_ok [OF l(1) step.hyps(2), of True] step.hyps(3) by (auto split: option.splits)
  then show ?case using l(2) by (auto simp: cb_result_def split: option.splits)
qed



text \<open>The event loop over admissible callbacks stays in these states.\<close>

lemma loop_reach:
  "client_reach st (Some sd) tr \<Longrightarrow> admissible sd cb \<Longrightarrow> event_base_loop True [cb] (Some sd) = Inr (h, ev) \<Longrightarrow> client_reach st h (tr @ ev)"
  using client_reach.step by (fastforce simp: res_simps)

end
