(* ===== verification/Cti_Heap.thy ===== *)
theory Cti_Heap
  imports C_Prelude "HOL-Library.Multiset"
begin

text \<open>
  The heap exercises of \<^verbatim>\<open>src/algs/cti/test_cti_heap.cpp\<close>: heap sort.

  The children of the node \<open>i\<close> are \<open>2 i\<close> and \<open>2 i + 1\<close> although the array begins at 0, so that the parent of \<open>c\<close> is \<open>c div 2\<close>
  and 0 is its own parent: the heap is one with a root above an ordinary heap that begins at 1. Building the heap begins one node too early
  when the size is odd. Sizes are \<open>int\<close>, and so are the indices of children.
\<close>

section \<open>Heap sort\<close>

definition swap_at :: "'a list \<Rightarrow> nat \<Rightarrow> nat \<Rightarrow> cerr + 'a list" where
  "swap_at a i j = bindr (load a i) (\<lambda>x. bindr (load a j) (\<lambda>y. bindr (store a i y) (\<lambda>a. store a j x)))"

text \<open>\<open>if(c < size && a[c] > a[b]) b = c;\<close>\<close>

definition larger :: "int list \<Rightarrow> nat \<Rightarrow> nat \<Rightarrow> nat \<Rightarrow> cerr + nat" where
  "larger a n c b = (if c < n then bindr (load a c) (\<lambda>x. bindr (load a b) (\<lambda>y. Inr (if x > y then c else b))) else Inr b)"

definition largest_of :: "int list \<Rightarrow> nat \<Rightarrow> nat \<Rightarrow> cerr + nat" where
  "largest_of a n i = bindr (imul 2 i) (\<lambda>l. bindr (larger a n l i) (\<lambda>b. bindr (iadd l 1) (\<lambda>r. larger a n r b)))"

lemma larger_cases: "larger a n c b = Inr d \<Longrightarrow> d = b \<or> d = c \<and> c < n"
  by (auto simp: larger_def res_simps split: if_splits)

lemma largest_of_cases: "largest_of a n i = Inr d \<Longrightarrow> d = i \<or> i < d \<and> d < n \<and> d div 2 = i"
  by (auto simp: largest_of_def imul_def iadd_def res_simps dest!: larger_cases split: if_splits)

function max_heapify :: "int list \<Rightarrow> nat \<Rightarrow> nat \<Rightarrow> cerr + int list" where
  "max_heapify a n i =
     bindr (largest_of a n i) (\<lambda>largest.
     if largest \<noteq> i then bindr (swap_at a largest i) (\<lambda>a. max_heapify a n largest) else Inr a)"
  by auto
termination by (relation "measure (\<lambda>(a, n, i). n - i)") (auto dest!: largest_of_cases)

declare max_heapify.simps [simp del]

fun build_loop :: "int list \<Rightarrow> nat \<Rightarrow> nat \<Rightarrow> cerr + int list" where
  "build_loop a n 0 = Inr a"
| "build_loop a n (Suc i) = bindr (max_heapify a n i) (\<lambda>a. build_loop a n i)"

definition build_max_heap :: "int list \<Rightarrow> nat \<Rightarrow> cerr + int list" where
  "build_max_heap a n = build_loop a n (n div 2)"

fun sort_loop :: "int list \<Rightarrow> nat \<Rightarrow> nat \<Rightarrow> cerr + int list" where
  "sort_loop a n 0 = Inr a"
| "sort_loop a n (Suc i) = bindr (swap_at a (Suc i) 0) (\<lambda>a. bindr (max_heapify a (n - 1) 0) (\<lambda>a. sort_loop a (n - 1) i))"

definition heap_sort :: "int list \<Rightarrow> nat \<Rightarrow> cerr + int list" where
  "heap_sort a n = bindr (build_max_heap a n) (\<lambda>a. sort_loop a n (n - 1))"

section \<open>The heap order\<close>

definition heap_from :: "int list \<Rightarrow> nat \<Rightarrow> nat \<Rightarrow> bool" where
  "heap_from a n k \<longleftrightarrow> (\<forall>c < n. k \<le> c div 2 \<longrightarrow> a ! c \<le> a ! (c div 2))"

text \<open>The order may be violated below \<open>i\<close>, but not between the children of \<open>i\<close> and its parent.\<close>

definition heap_but :: "int list \<Rightarrow> nat \<Rightarrow> nat \<Rightarrow> nat \<Rightarrow> bool" where
  "heap_but a n k i \<longleftrightarrow> (\<forall>c < n. k \<le> c div 2 \<longrightarrow> c div 2 \<noteq> i \<longrightarrow> a ! c \<le> a ! (c div 2)) \<and>
     (\<forall>c < n. c div 2 = i \<longrightarrow> k \<le> i div 2 \<longrightarrow> i div 2 \<noteq> i \<longrightarrow> a ! c \<le> a ! (i div 2))"

lemma heap_from_but: "heap_from a n (Suc k) \<Longrightarrow> heap_but a n k k"
  by (auto simp: heap_from_def heap_but_def)

text \<open>The cells below \<open>n\<close> are permuted and the others are kept.\<close>

definition shuffled :: "nat \<Rightarrow> 'a list \<Rightarrow> 'a list \<Rightarrow> bool" where
  "shuffled n a b \<longleftrightarrow> length b = length a \<and> mset b = mset a \<and> drop n b = drop n a"

lemma shuffled_refl [simp]: "shuffled n a a"
  by (simp add: shuffled_def)

lemma shuffled_trans: "shuffled n a b \<Longrightarrow> shuffled n b c \<Longrightarrow> shuffled n a c"
  by (simp add: shuffled_def)

lemma shuffled_mono: "shuffled n a b \<Longrightarrow> n \<le> m \<Longrightarrow> shuffled m a b"
proof -
  assume s: "shuffled n a b" and "n \<le> m"
  from s have "drop (m - n) (drop n b) = drop (m - n) (drop n a)" unfolding shuffled_def by presburger
  then show ?thesis using s \<open>n \<le> m\<close> by (simp add: shuffled_def)
qed

lemma shuffled_take: "shuffled n a b \<Longrightarrow> mset (take n b) = mset (take n a)"
proof -
  assume s: "shuffled n a b"
  have "mset (take n b) + mset (drop n b) = mset (take n a) + mset (drop n a)"
    using s unfolding mset_append [symmetric] append_take_drop_id by (simp add: shuffled_def)
  then show ?thesis using s by (simp add: shuffled_def)
qed

definition swapped :: "'a list \<Rightarrow> nat \<Rightarrow> nat \<Rightarrow> 'a list" where
  "swapped a i j = a[i := a ! j, j := a ! i]"

lemma swap_at_in: "i < length a \<Longrightarrow> j < length a \<Longrightarrow> swap_at a i j = Inr (swapped a i j)"
  by (simp add: swap_at_def swapped_def mem_simps)

lemma length_swapped [simp]: "length (swapped a i j) = length a"
  by (simp add: swapped_def)

lemma nth_swapped: "i < length a \<Longrightarrow> j < length a \<Longrightarrow> swapped a i j ! k = (if k = j then a ! i else if k = i then a ! j else a ! k)"
  by (auto simp: swapped_def nth_list_update)

lemma shuffled_swapped: "i < n \<Longrightarrow> j < n \<Longrightarrow> n \<le> length a \<Longrightarrow> shuffled n a (swapped a i j)"
  by (simp add: shuffled_def swapped_def mset_swap)

lemma children: "(\<forall>c < n. c div 2 = i \<longrightarrow> P c) \<longleftrightarrow> (2 * i < n \<longrightarrow> P (2 * i)) \<and> (Suc (2 * i) < n \<longrightarrow> P (Suc (2 * i)))"
proof -
  have "c div 2 = i \<longleftrightarrow> c = 2 * i \<or> c = Suc (2 * i)" for c by linarith
  then show ?thesis by auto
qed

lemma largest_of_spec:
  assumes "i < n" "n \<le> length a" "length a \<le> 2 ^ 30"
  shows "\<exists>b. largest_of a n i = Inr b \<and> b < n \<and> (b = i \<or> b div 2 = i) \<and> a ! i \<le> a ! b \<and> (\<forall>c < n. c div 2 = i \<longrightarrow> a ! c \<le> a ! b)"
proof -
  have l: "imul 2 i = Inr (2 * i)" "iadd (2 * i) 1 = Inr (Suc (2 * i))" using assms by (simp_all add: imul_def iadd_def)
  show ?thesis using assms unfolding largest_of_def l bindr_simps larger_def children
    by (auto simp: mem_simps)
qed

lemma heap_but_down:
  assumes h: "heap_but a n k i" and b: "i < b" "b < n" "b div 2 = i" "a ! i \<le> a ! b" "\<forall>c < n. c div 2 = i \<longrightarrow> a ! c \<le> a ! b" and n: "n \<le> length a" "k \<le> i"
  shows "heap_but (swapped a b i) n k b"
proof -
  have s: "swapped a b i ! c = (if c = i then a ! b else if c = b then a ! i else a ! c)" for c
    using b n by (simp add: nth_swapped)
  have "swapped a b i ! c \<le> swapped a b i ! (c div 2)" if "c < n" "k \<le> c div 2" "c div 2 \<noteq> b" for c
  proof (cases "c = i")
    case True
    then show ?thesis using h b that unfolding heap_but_def s by (cases "i div 2 = i") auto
  next
    case False
    then show ?thesis using h b that unfolding heap_but_def s by auto
  qed
  moreover have "swapped a b i ! c \<le> swapped a b i ! (b div 2)" if "c < n" "c div 2 = b" for c
    using h b that n unfolding heap_but_def s by auto
  ultimately show ?thesis by (simp add: heap_but_def)
qed

lemma max_heapify_spec:
  assumes "heap_but a n k i" "i < n" "n \<le> length a" "length a \<le> 2 ^ 30" "k \<le> i"
  shows "\<exists>b. max_heapify a n i = Inr b \<and> heap_from b n k \<and> shuffled n a b"
  using assms
proof (induction a n i rule: max_heapify.induct)
  case (1 a n i)
  from largest_of_spec [OF 1(3-5)] obtain b where b: "largest_of a n i = Inr b" "b < n" "b = i \<or> b div 2 = i" "a ! i \<le> a ! b"
    "\<forall>c < n. c div 2 = i \<longrightarrow> a ! c \<le> a ! b" by blast
  show ?case
  proof (cases "b = i")
    case True
    then have "heap_from a n k" using 1(2) b(5) by (auto simp: heap_but_def heap_from_def)
    then show ?thesis using True b(1) by (subst max_heapify.simps) simp
  next
    case False
    then have lt: "i < b" "b div 2 = i" using b(3) by auto
    let ?a = "swapped a b i"
    have sw: "swap_at a b i = Inr ?a" using swap_at_in [of b a i] b(2) 1(3,4) by simp
    from 1(1) [OF b(1) False sw] heap_but_down [OF 1(2) lt(1) b(2) lt(2) b(4,5) 1(4,6)] b(2) 1(4-6) lt obtain c where
      c: "max_heapify ?a n b = Inr c" "heap_from c n k" "shuffled n ?a c" by auto
    have "shuffled n a c" using shuffled_trans [OF shuffled_swapped c(3)] b(2) 1(3,4) by simp
    then show ?thesis using b(1) sw False c(1,2) by (subst max_heapify.simps) simp
  qed
qed

section \<open>Building and sorting\<close>

lemma build_loop_spec:
  assumes "heap_from a n i" "i \<le> n" "n \<le> length a" "length a \<le> 2 ^ 30"
  shows "\<exists>b. build_loop a n i = Inr b \<and> heap_from b n 0 \<and> shuffled n a b"
  using assms
proof (induction i arbitrary: a)
  case (Suc i)
  have i: "i < n" using Suc.prems(2) by simp
  from max_heapify_spec [OF heap_from_but [OF Suc.prems(1)] i Suc.prems(3,4) order_refl] obtain b where
    b: "max_heapify a n i = Inr b" "heap_from b n i" "shuffled n a b" by blast
  have "n \<le> length b" "length b \<le> 2 ^ 30" using b(3) Suc.prems(3,4) by (simp_all add: shuffled_def)
  with Suc.IH [OF b(2)] i obtain c where c: "build_loop b n i = Inr c" "heap_from c n 0" "shuffled n b c" by auto
  then show ?case using b(1) shuffled_trans [OF b(3) c(3)] by simp
qed simp

text \<open>The node with the last index is a child of the middle one exactly when the size is odd.\<close>

lemma heap_from_half: "heap_from a n (n div 2) \<longleftrightarrow> even n \<or> a ! (n - 1) \<le> a ! (n div 2)"
proof (cases "even n")
  case True
  then show ?thesis by (auto simp: heap_from_def elim!: evenE)
next
  case False
  then obtain m where m: "n = Suc (2 * m)" by (auto elim!: oddE)
  have "c < n \<and> n div 2 \<le> c div 2 \<longleftrightarrow> c = 2 * m" for c unfolding m by auto
  then have "heap_from a n (n div 2) \<longleftrightarrow> a ! (2 * m) \<le> a ! m" unfolding heap_from_def by (metis nonzero_mult_div_cancel_left zero_neq_numeral)
  then show ?thesis using m by simp
qed

lemma heap_root: "heap_from a n 0 \<Longrightarrow> c < n \<Longrightarrow> a ! c \<le> a ! 0"
proof (induction c rule: less_induct)
  case (less c)
  show ?case
  proof (cases "c = 0")
    case False
    then have "a ! (c div 2) \<le> a ! 0" using less by simp
    moreover have "a ! c \<le> a ! (c div 2)" using less.prems by (simp add: heap_from_def)
    ultimately show ?thesis by linarith
  qed simp
qed

text \<open>After the heap of size \<open>Suc i\<close> the array is sorted and not less than the heap.\<close>

definition sorting :: "int list \<Rightarrow> nat \<Rightarrow> nat \<Rightarrow> bool" where
  "sorting a n i \<longleftrightarrow> heap_from a (Suc i) 0 \<and> sorted (drop (Suc i) (take n a)) \<and> (\<forall>x \<in> set (take (Suc i) a). \<forall>y \<in> set (drop (Suc i) (take n a)). x \<le> y)"

lemma sorting_step:
  assumes s: "sorting a n (Suc i)" and n: "Suc i < n" "n \<le> length a" "length a \<le> 2 ^ 30"
  shows "\<exists>b. max_heapify (swapped a (Suc i) 0) (Suc i) 0 = Inr b \<and> sorting b n i \<and> shuffled n a b"
proof -
  let ?a = "swapped a (Suc i) 0"
  have a: "length ?a = length a" "drop (Suc (Suc i)) ?a = drop (Suc (Suc i)) a" by (simp_all add: swapped_def)
  have sw: "?a ! c = (if c = 0 then a ! Suc i else if c = Suc i then a ! 0 else a ! c)" for c using n by (intro nth_swapped) linarith+
  have "?a ! c \<le> ?a ! (c div 2)" if "c < Suc i" "c div 2 \<noteq> 0" for c
  proof -
    have "c \<noteq> 0" "c div 2 \<noteq> Suc i" "c \<noteq> Suc i" "a ! c \<le> a ! (c div 2)" using that s by (auto simp: sorting_def heap_from_def)
    then show ?thesis using that by (simp add: sw)
  qed
  then have "heap_but ?a (Suc i) 0 0" by (auto simp: heap_but_def)
  from max_heapify_spec [OF this] n obtain b where b: "max_heapify ?a (Suc i) 0 = Inr b" "heap_from b (Suc i) 0" "shuffled (Suc i) ?a b" by auto
  have db: "drop (Suc i) b = a ! 0 # drop (Suc (Suc i)) a"
  proof -
    have "drop (Suc i) b = drop (Suc i) ?a" using b(3) by (simp add: shuffled_def)
    also have "\<dots> = ?a ! Suc i # drop (Suc (Suc i)) ?a" using n a(1) by (simp add: Cons_nth_drop_Suc)
    also have "\<dots> = a ! 0 # drop (Suc (Suc i)) a" by (simp add: sw a(2))
    finally show ?thesis .
  qed
  have tb: "drop (Suc i) (take n b) = a ! 0 # drop (Suc (Suc i)) (take n a)"
    using n db by (simp add: drop_take Suc_diff_Suc take_Cons')
  have shuf: "shuffled n a b" using shuffled_trans [OF shuffled_swapped shuffled_mono [OF b(3)]] n by simp
  have "shuffled (Suc (Suc i)) a b" using shuffled_trans [OF shuffled_swapped shuffled_mono [OF b(3)]] n by simp
  then have "set (take (Suc (Suc i)) b) = set (take (Suc (Suc i)) a)" using shuffled_take mset_eq_setD by blast
  then have sub: "set (take (Suc i) b) \<subseteq> set (take (Suc (Suc i)) a)" using set_take_subset_set_take [of "Suc i" "Suc (Suc i)" b] by simp
  have mx: "x \<le> a ! 0" if "x \<in> set (take (Suc (Suc i)) a)" for x
    using heap_root [of a "Suc (Suc i)"] s that n by (auto simp: sorting_def in_set_conv_nth)
  have a0: "a ! 0 \<in> set (take (Suc (Suc i)) a)" using n by (cases a) auto
  have "sorting b n i" unfolding sorting_def tb using b(2) s sub mx a0 by (auto simp: sorting_def)
  then show ?thesis using b(1) shuf by blast
qed

lemma sort_loop_spec:
  assumes "sorting a n i" "i < n" "n \<le> length a" "length a \<le> 2 ^ 30"
  shows "\<exists>b. sort_loop a (Suc i) i = Inr b \<and> sorting b n 0 \<and> shuffled n a b"
  using assms
proof (induction i arbitrary: a)
  case (Suc i)
  from sorting_step [OF Suc.prems] obtain b where b: "max_heapify (swapped a (Suc i) 0) (Suc i) 0 = Inr b" "sorting b n i" "shuffled n a b" by blast
  have "i < n" "n \<le> length b" "length b \<le> 2 ^ 30" using b(3) Suc.prems by (simp_all add: shuffled_def)
  from Suc.IH [OF b(2) this] obtain c where c: "sort_loop b (Suc i) i = Inr c" "sorting c n 0" "shuffled n b c" by blast
  have "swap_at a (Suc i) 0 = Inr (swapped a (Suc i) 0)" using Suc.prems by (intro swap_at_in) linarith+
  then show ?case using b(1) c(1,2) shuffled_trans [OF b(3) c(3)] by simp
qed simp

lemma sorting_done: "sorting a n 0 \<Longrightarrow> n \<le> length a \<Longrightarrow> sorted (take n a)"
  by (cases a; cases n) (auto simp: sorting_def)

text \<open>C35: heap sort sorts the first cells of an array and keeps the others, for every even number of cells and for the odd ones
  in which the last cell is not above the middle one.\<close>

theorem heap_sort_sorts:
  assumes "n \<le> length a" "length a \<le> 2 ^ 30" "even n \<or> a ! (n - 1) \<le> a ! (n div 2)"
  shows "heap_sort a n = Inr (sort (take n a) @ drop n a)"
proof (cases "n = 0")
  case True
  then show ?thesis by (simp add: heap_sort_def build_max_heap_def)
next
  case False
  from build_loop_spec [of a n "n div 2"] heap_from_half [of a n] assms obtain b where
    b: "build_max_heap a n = Inr b" "heap_from b n 0" "shuffled n a b" by (auto simp: build_max_heap_def)
  have "sorting b n (n - 1)" "n - 1 < n" "n \<le> length b" "length b \<le> 2 ^ 30" using b(2,3) assms False by (auto simp: sorting_def shuffled_def)
  from sort_loop_spec [OF this] False obtain c where c: "sort_loop b n (n - 1) = Inr c" "sorting c n 0" "shuffled n b c" by auto
  have sh: "shuffled n a c" using shuffled_trans [OF b(3) c(3)] .
  then have "sorted (take n c)" using sorting_done [OF c(2)] assms(1) by (simp add: shuffled_def)
  then have "take n c = sort (take n a)" using properties_for_sort shuffled_take [OF sh] by metis
  moreover have "drop n c = drop n a" using sh by (simp add: shuffled_def)
  ultimately have "c = sort (take n a) @ drop n a" by (metis append_take_drop_id)
  then show ?thesis using b(1) c(1) by (simp add: heap_sort_def)
qed

theorem heap_sort_sorts_witness: "heap_sort [3, 1, 2, 0, 9] 4 = Inr [0, 1, 2, 3, 9]"
  using heap_sort_sorts [of 4 "[3, 1, 2, 0, 9]"] by simp

text \<open>Of the three elements 1, 2, 3 the root of the built heap is not the largest.\<close>

lemma heap_sort_odd: "heap_sort [1, 2, 3] 3 = Inr [1, 3, 2]"
  by code_simp

section \<open>The class \<open>BinaryHeap\<close>\<close>

text \<open>The array of the object. Cell 0 is a sentinel; the constructor from a vector takes the first item for it.\<close>

definition heap_new :: "int list" where
  "heap_new = [0]"

definition isEmpty :: "int list \<Rightarrow> bool" where
  "isEmpty a \<longleftrightarrow> length a \<le> 1"

fun percolate :: "nat \<Rightarrow> int list \<Rightarrow> nat \<Rightarrow> cerr + int list" where
  "percolate 0 a i = Inl OutOfFuel"
| "percolate (Suc fuel) a i =
     bindr (imul 2 i) (\<lambda>l. bindr (iadd l 1) (\<lambda>r.
     if r < length a then
       bindr (load a l) (\<lambda>x. bindr (load a r) (\<lambda>y.
       if x < y then bindr (store a i x) (\<lambda>a. percolate fuel a l)
       else bindr (store a i y) (\<lambda>a. percolate fuel a r)))
     else if a = [] then Inl OutOfBounds else store a i (last a)))"

fun buildHeap_loop :: "nat \<Rightarrow> int list \<Rightarrow> nat \<Rightarrow> cerr + int list" where
  "buildHeap_loop fuel a 0 = Inr a"
| "buildHeap_loop fuel a (Suc i) = bindr (percolate fuel a (Suc i)) (\<lambda>a. buildHeap_loop fuel a i)"

definition buildHeap :: "nat \<Rightarrow> int list \<Rightarrow> cerr + int list" where
  "buildHeap fuel a = (if isEmpty a then Inr a else buildHeap_loop fuel a (length a div 2))"

text \<open>The result of \<open>deleteMin\<close> is the item it stores, if any, with the new array.\<close>

definition deleteMin :: "nat \<Rightarrow> int list \<Rightarrow> cerr + int option \<times> int list" where
  "deleteMin fuel a =
     (if isEmpty a then Inr (None, a) else
      bindr (load a 1) (\<lambda>minItem. bindr (percolate fuel a 1) (\<lambda>a. Inr (Some minItem, butlast a))))"

fun insert_loop :: "nat \<Rightarrow> int list \<Rightarrow> int \<Rightarrow> nat \<Rightarrow> cerr + int list" where
  "insert_loop 0 a x i = Inl OutOfFuel"
| "insert_loop (Suc fuel) a x i =
     bindr (load a (i div 2)) (\<lambda>y.
     if y > x then bindr (store a i y) (\<lambda>a. insert_loop fuel a x (i div 2)) else store a i x)"

definition heap_insert :: "nat \<Rightarrow> int list \<Rightarrow> int \<Rightarrow> cerr + int list" where
  "heap_insert fuel a x = bindr (iadd (length a) 0) (\<lambda>i. insert_loop fuel (a @ [x]) x i)"

text \<open>The two loops of the test: all items in, then all items out.\<close>

fun insert_all :: "nat \<Rightarrow> int list \<Rightarrow> int list \<Rightarrow> cerr + int list" where
  "insert_all fuel a [] = Inr a"
| "insert_all fuel a (x # xs) = bindr (heap_insert fuel a x) (\<lambda>a. insert_all fuel a xs)"

fun delete_all :: "nat \<Rightarrow> int list \<Rightarrow> nat \<Rightarrow> cerr + int list" where
  "delete_all fuel a 0 = Inr []"
| "delete_all fuel a (Suc n) =
     (if isEmpty a then Inr [] else
      bindr (deleteMin fuel a) (\<lambda>(m, a). bindr (delete_all fuel a n) (\<lambda>out. Inr ((case m of None \<Rightarrow> 0 | Some x \<Rightarrow> x) # out))))"

subsection \<open>Insertion\<close>

definition min_heap :: "int list \<Rightarrow> bool" where
  "min_heap a \<longleftrightarrow> a \<noteq> [] \<and> (\<forall>c < length a. 2 \<le> c \<longrightarrow> a ! (c div 2) \<le> a ! c)"

text \<open>A hole at \<open>i\<close> that moves up: the cells below it are larger than \<open>x\<close>.\<close>

definition hole_at :: "int list \<Rightarrow> int \<Rightarrow> nat \<Rightarrow> bool" where
  "hole_at a x i \<longleftrightarrow> 1 \<le> i \<and> i < length a \<and>
     (\<forall>c < length a. 2 \<le> c \<longrightarrow> c \<noteq> i \<longrightarrow> c div 2 \<noteq> i \<longrightarrow> a ! (c div 2) \<le> a ! c) \<and>
     (\<forall>c < length a. 2 \<le> c \<longrightarrow> c div 2 = i \<longrightarrow> x \<le> a ! c \<and> (2 \<le> i \<longrightarrow> a ! (i div 2) \<le> a ! c))"

lemma hole_fill: "hole_at a x i \<Longrightarrow> i = 1 \<or> a ! (i div 2) \<le> x \<Longrightarrow> min_heap (a[i := x])"
proof -
  assume h: "hole_at a x i" "i = 1 \<or> a ! (i div 2) \<le> x"
  have "a[i := x] ! (c div 2) \<le> a[i := x] ! c" if "c < length a" "2 \<le> c" for c
    using h that unfolding hole_at_def by (cases "c = i"; cases "c div 2 = i") (auto simp: nth_list_update)
  moreover have "a \<noteq> []" using h(1) by (auto simp: hole_at_def)
  ultimately show ?thesis by (simp add: min_heap_def)
qed

lemma hole_up:
  assumes h: "hole_at a x i" and i: "2 \<le> i" "x < a ! (i div 2)"
  shows "hole_at (a[i := a ! (i div 2)]) x (i div 2)"
proof -
  let ?j = "i div 2" and ?a = "a[i := a ! (i div 2)]"
  have j: "1 \<le> ?j" "?j < i" "i < length a" using h i by (auto simp: hole_at_def)
  have n: "?a ! c = (if c = i then a ! ?j else a ! c)" for c using j by (simp add: nth_list_update)
  have ord: "a ! (c div 2) \<le> a ! c" if "c < length a" "2 \<le> c" "c \<noteq> i" "c div 2 \<noteq> i" for c using h that by (simp add: hole_at_def)
  have "?a ! (c div 2) \<le> ?a ! c" if "c < length a" "2 \<le> c" "c \<noteq> ?j" "c div 2 \<noteq> ?j" for c
    using that h ord [of c] i j unfolding n hole_at_def by auto
  moreover have "x \<le> ?a ! c \<and> (2 \<le> ?j \<longrightarrow> ?a ! (?j div 2) \<le> ?a ! c)" if c: "c < length a" "2 \<le> c" "c div 2 = ?j" for c
  proof -
    have "c \<noteq> ?j" "?j div 2 \<noteq> i" using j c by linarith+
    moreover have "c \<noteq> i \<Longrightarrow> a ! ?j \<le> a ! c" using ord [of c] c j by auto
    moreover have "2 \<le> ?j \<Longrightarrow> a ! (?j div 2) \<le> a ! ?j" using ord [of ?j] j \<open>?j div 2 \<noteq> i\<close> by auto
    ultimately show ?thesis unfolding n using i(2) by auto
  qed
  ultimately show ?thesis using j by (auto simp: hole_at_def)
qed

lemma mset_hole: "i \<noteq> j \<Longrightarrow> i < length a \<Longrightarrow> j < length a \<Longrightarrow> mset (a[i := a ! j, j := x]) = mset (a[i := x])"
  using mset_swap [of j "a[i := x]" i] by simp

lemma insert_loop_spec:
  assumes "hole_at a x i" "a ! 0 \<le> x" "i < fuel"
  shows "\<exists>b. insert_loop fuel a x i = Inr b \<and> min_heap b \<and> mset b = mset (a[i := x]) \<and> length b = length a \<and> b ! 0 = a ! 0"
  using assms
proof (induction fuel arbitrary: a i)
  case (Suc fuel)
  let ?j = "i div 2"
  have i: "1 \<le> i" "i < length a" "?j < length a" using Suc.prems(1) by (auto simp: hole_at_def)
  show ?case
  proof (cases "a ! ?j > x")
    case True
    then have "2 \<le> i" using Suc.prems(2) i(1) by (cases "i = 1") auto
    let ?a = "a[i := a ! ?j]"
    have "?a ! 0 \<le> x" "?j < fuel" using Suc.prems(2,3) i \<open>2 \<le> i\<close> by auto
    from Suc.IH [OF hole_up [OF Suc.prems(1) \<open>2 \<le> i\<close> True] this] obtain b where
      "insert_loop fuel ?a x ?j = Inr b" "min_heap b" "mset b = mset (?a[?j := x])" "length b = length ?a" "b ! 0 = ?a ! 0" by blast
    moreover have "mset (?a[?j := x]) = mset (a[i := x])" using mset_hole [of i ?j a x] i \<open>2 \<le> i\<close> by simp
    ultimately show ?thesis using True i by (simp add: mem_simps)
  next
    case False
    then show ?thesis using hole_fill [OF Suc.prems(1)] i by (simp add: mem_simps)
  qed
qed simp

lemma heap_insert_spec:
  assumes "min_heap a" "a ! 0 \<le> x" "length a < fuel" "length a < 2 ^ 31"
  shows "\<exists>b. heap_insert fuel a x = Inr b \<and> min_heap b \<and> mset b = add_mset x (mset a) \<and> length b = Suc (length a) \<and> b ! 0 = a ! 0"
proof -
  have a: "a \<noteq> []" using assms(1) by (simp add: min_heap_def)
  have ne: "c div 2 \<noteq> length a" "c div 2 < length a" if "c < Suc (length a)" "2 \<le> c" for c using that by linarith+
  have "hole_at (a @ [x]) x (length a)" using assms(1) ne a by (auto simp: hole_at_def min_heap_def nth_append Suc_le_eq)
  from insert_loop_spec [OF this _ assms(3)] assms(2,4) a show ?thesis by (auto simp: heap_insert_def iadd_def nth_append)
qed

lemma insert_all_spec:
  assumes "min_heap a" "\<forall>x \<in> set xs. a ! 0 \<le> x" "length a + length xs < fuel" "length a + length xs < 2 ^ 31"
  shows "\<exists>b. insert_all fuel a xs = Inr b \<and> min_heap b \<and> mset b = mset a + mset xs \<and> length b = length a + length xs \<and> b ! 0 = a ! 0"
  using assms
proof (induction xs arbitrary: a)
  case (Cons x xs)
  from heap_insert_spec [OF Cons.prems(1), of x fuel] Cons.prems obtain b where
    b: "heap_insert fuel a x = Inr b" "min_heap b" "mset b = add_mset x (mset a)" "length b = Suc (length a)" "b ! 0 = a ! 0" by auto
  from Cons.IH [OF b(2)] Cons.prems b(4,5) obtain c where
    "insert_all fuel b xs = Inr c" "min_heap c" "mset c = mset b + mset xs" "length c = length b + length xs" "c ! 0 = b ! 0" by auto
  then show ?case using b by simp
qed simp

lemma insert_negative: "x < a ! 0 \<Longrightarrow> a \<noteq> [] \<Longrightarrow> insert_loop fuel a x 0 = Inl OutOfFuel"
proof (induction fuel)
  case (Suc fuel)
  moreover from this have "a[0 := a ! 0] = a" by simp
  ultimately show ?case by (simp add: mem_simps)
qed simp

subsection \<open>Removal\<close>

lemma min_heap_root: "min_heap a \<Longrightarrow> 1 \<le> c \<Longrightarrow> c < length a \<Longrightarrow> a ! 1 \<le> a ! c"
proof (induction c rule: less_induct)
  case (less c)
  show ?case
  proof (cases "c = 1")
    case False
    then have c: "2 \<le> c" "1 \<le> c div 2" "c div 2 < c" using less.prems(2) by auto
    then have "a ! 1 \<le> a ! (c div 2)" using less by simp
    moreover have "a ! (c div 2) \<le> a ! c" using less.prems c(1) by (simp add: min_heap_def)
    ultimately show ?thesis by linarith
  qed simp
qed

lemma mset_last_hole:
  assumes "i < length a"
  shows "mset (butlast (a[i := last a])) + {#m#} = mset (a[i := m])"
proof (cases a rule: rev_cases)
  case (snoc xs y)
  then show ?thesis using assms by (cases "i = length xs") (auto simp: list_update_append mset_update)
qed (use assms in simp)

lemma percolate_spec:
  assumes "1 \<le> i" "i < length a" "length a - i < fuel" "length a < 2 ^ 30"
  shows "\<exists>b. percolate fuel a i = Inr b \<and> length b = length a \<and> b ! 0 = a ! 0 \<and> mset (butlast b) + {#m#} = mset (a[i := m])"
  using assms
proof (induction fuel arbitrary: a i)
  case (Suc fuel)
  have l: "imul 2 i = Inr (2 * i)" "iadd (2 * i) 1 = Inr (2 * i + 1)" using Suc.prems by (simp_all add: imul_def iadd_def)
  have step: "\<exists>b. percolate fuel (a[i := a ! j]) j = Inr b \<and> length b = length a \<and> b ! 0 = a ! 0 \<and> mset (butlast b) + {#m#} = mset (a[i := m])"
    if j: "i < j" "j < length a" for j
  proof -
    have "length a - j < fuel" using Suc.prems(3) j by linarith
    with Suc.IH [of j "a[i := a ! j]"] Suc.prems j obtain b where
      "percolate fuel (a[i := a ! j]) j = Inr b" "length b = length a" "b ! 0 = a ! 0" "mset (butlast b) + {#m#} = mset (a[i := a ! j, j := m])" by auto
    then show ?thesis using mset_hole [of i j a m] j by auto
  qed
  show ?case
  proof (cases "2 * i + 1 < length a")
    case True
    then show ?thesis using l step [of "2 * i"] step [of "2 * i + 1"] Suc.prems(1) by (auto simp: mem_simps)
  next
    case False
    have "a \<noteq> []" using Suc.prems(2) by auto
    then show ?thesis using False l Suc.prems(1,2) mset_last_hole [of i a m] by (auto simp: mem_simps)
  qed
qed simp

text \<open>After any items that are not negative have been inserted into a new heap, \<open>deleteMin\<close> returns the smallest of them and leaves the others in the array.\<close>

theorem heap_delete_min:
  assumes "\<forall>x \<in> set xs. 0 \<le> x" "xs \<noteq> []" "length xs + 1 < fuel" "length xs + 1 < 2 ^ 30"
  shows "\<exists>a b m. insert_all fuel heap_new xs = Inr a \<and> deleteMin fuel a = Inr (Some m, b) \<and> m = Min (set xs) \<and> b \<noteq> [] \<and> mset (tl b) + {#m#} = mset xs"
proof -
  have "min_heap heap_new" by (simp add: min_heap_def heap_new_def)
  from insert_all_spec [OF this, of xs fuel] assms obtain a where
    a: "insert_all fuel heap_new xs = Inr a" "min_heap a" "mset a = add_mset 0 (mset xs)" "length a = Suc (length xs)" "a ! 0 = 0" by (auto simp: heap_new_def)
  have len: "1 < length a" "a \<noteq> []" using a(4) assms(2) by (cases xs; cases a; auto)+
  from percolate_spec [of 1 a fuel "a ! 1"] len a(4) assms(3,4) obtain b where
    b: "percolate fuel a 1 = Inr b" "length b = length a" "b ! 0 = a ! 0" "mset (butlast b) + {#a ! 1#} = mset a" by auto
  obtain x ys where ys: "butlast b = x # ys" using b(2) len(1) by (cases "butlast b") (auto simp: length_greater_0_conv [symmetric] dest: arg_cong [where f = length])
  have "x = b ! 0" using ys nth_butlast [of 0 b] by simp
  then have ms: "mset ys + {#a ! 1#} = mset xs" using b(3,4) a(3,5) ys by simp
  obtain zs where zs: "a = 0 # zs" using len(2) a(5) by (cases a) auto
  then have "mset zs = mset xs" using a(3) by simp
  then have "set zs = set xs" by (rule mset_eq_setD)
  moreover have "a ! 1 = Min (set zs)"
  proof (rule Min_eqI [symmetric])
    show "a ! 1 \<in> set zs" using zs len(1) by (cases zs) auto
    show "a ! 1 \<le> z" if z: "z \<in> set zs" for z
    proof -
      obtain k where "k < length zs" "z = zs ! k" using z by (auto simp: in_set_conv_nth)
      then show ?thesis using min_heap_root [OF a(2), of "Suc k"] zs by simp
    qed
  qed simp
  ultimately have "a ! 1 = Min (set xs)" by simp
  then show ?thesis using a(1) b(1) len(1) ms ys by (intro exI [of _ a] exI [of _ "butlast b"] exI [of _ "a ! 1"]) (simp add: deleteMin_def isEmpty_def mem_simps)
qed

theorem heap_delete_min_witness:
  "\<exists>a b m. insert_all 9 heap_new [3, 1, 2] = Inr a \<and> deleteMin 9 a = Inr (Some m, b) \<and> m = 1 \<and> b \<noteq> [] \<and> mset (tl b) + {#m#} = mset [3, 1, 2]"
  using heap_delete_min [of "[3, 1, 2]" 9] by simp

text \<open>The cell put into the hole at the end is not compared with the cells above it: of the items 1, 2, 3, 5, 6, 4 the heap returns 5 before 4. Building
  a heap from a vector loses items.\<close>

lemma heap_order_lost: "bindr (insert_all 9 heap_new [1, 2, 3, 5, 6, 4]) (\<lambda>a. delete_all 9 a 6) = Inr [1, 2, 3, 5, 4, 6]"
  by code_simp

lemma heap_test_sorted: "bindr (insert_all 9 heap_new [8, 2, 5, 9, 6, 4, 7, 1]) (\<lambda>a. delete_all 9 a 8) = Inr [1, 2, 4, 5, 6, 7, 8, 9]"
  by code_simp

lemma buildHeap_loses: "buildHeap 9 [8, 2, 5, 9, 6, 4, 7, 1] = Inr [8, 1, 1, 1, 1, 4, 7, 1]"
  by code_simp

section \<open>The first version of rod cutting\<close>

text \<open>The loop keeps only its last round.\<close>

function cti_cut_rod :: "int list \<Rightarrow> nat \<Rightarrow> cerr + int"
  and cut_rod_loop :: "int list \<Rightarrow> nat \<Rightarrow> nat \<Rightarrow> int \<Rightarrow> cerr + int" where
  "cti_cut_rod p n = (if n = 0 then Inr 0 else cut_rod_loop p n 1 INT_MIN)"
| "cut_rod_loop p n i q =
     (if 0 < i \<and> i \<le> n then
        bindr (load p (i - 1)) (\<lambda>x. bindr (cti_cut_rod p (n - i)) (\<lambda>y. cut_rod_loop p n (i + 1) (max x y)))
      else Inr q)"
  by pat_completeness auto
termination by (relation "measures [\<lambda>x. case x of Inl (p, n) \<Rightarrow> n | Inr (p, n, i, q) \<Rightarrow> n, \<lambda>x. case x of Inl (p, n) \<Rightarrow> n + 2 | Inr (p, n, i, q) \<Rightarrow> Suc n - i]") auto

declare cti_cut_rod.simps [simp del] cut_rod_loop.simps [simp del]

lemma cut_rod_loop_last:
  assumes "\<forall>m < n. m \<noteq> 0 \<longrightarrow> cti_cut_rod p m = Inr (max (p ! (m - 1)) 0)" "1 \<le> i" "i \<le> n" "n \<le> length p"
  shows "cut_rod_loop p n i q = Inr (max (p ! (n - 1)) 0)"
  using assms(2,3)
proof (induction "n - i" arbitrary: i q)
  case 0
  then have "i = n" by simp
  moreover have "cti_cut_rod p 0 = Inr 0" by (simp add: cti_cut_rod.simps)
  moreover have "cut_rod_loop p n (Suc n) q' = Inr q'" for q' by (simp add: cut_rod_loop.simps)
  ultimately show ?case using 0 assms(4) by (subst cut_rod_loop.simps) (simp add: mem_simps)
next
  case (Suc k)
  then have "n - i < n" "n - i \<noteq> 0" by linarith+
  then obtain y where "cti_cut_rod p (n - i) = Inr y" using assms(1) by blast
  moreover have "cut_rod_loop p n (i + 1) q' = Inr (max (p ! (n - 1)) 0)" for q' using Suc by simp
  ultimately show ?case using Suc.prems assms(4) by (subst cut_rod_loop.simps) (simp add: mem_simps)
qed

text \<open>The program returns the price of the whole rod: the two parts are never added up.\<close>

lemma cti_cut_rod_whole: "0 < n \<Longrightarrow> n \<le> length p \<Longrightarrow> cti_cut_rod p n = Inr (max (p ! (n - 1)) 0)"
proof (induction n rule: less_induct)
  case (less n)
  then have "cut_rod_loop p n 1 INT_MIN = Inr (max (p ! (n - 1)) 0)" by (intro cut_rod_loop_last) auto
  then show ?case using less.prems by (subst cti_cut_rod.simps) simp
qed

end
