(* ===== verification/Cti_Sorts.thy ===== *)
theory Cti_Sorts
  imports Array_Sort Cti_Heap
begin

text \<open>
  The sorting exercises of \<^verbatim>\<open>src/algs/cti/\<close>: quicksort from \<^verbatim>\<open>test_cti_heap.cpp\<close>, merge sort and insertion sort from
  \<^verbatim>\<open>test_cti.cpp\<close>, each with its indices into one array.

  Quicksort sorts every part of an array. The merge puts a sentinel \<open>INT_MAX\<close> behind both halves and takes the left one when the
  heads are equal, so that it reads behind the sentinel if \<open>INT_MAX\<close> is an element; it sorts all arrays of smaller numbers.
  The locale \<open>segment_sort\<close> is the contract of all three: a part of the array is sorted and the rest is kept.
\<close>

section \<open>Quicksort\<close>

definition swapi :: "int list \<Rightarrow> int \<Rightarrow> int \<Rightarrow> cerr + int list" where
  "swapi a i j = (if i < 0 \<or> j < 0 then Inl OutOfBounds else swap_at a (nat i) (nat j))"

text \<open>\<open>c\<close> is the number of rounds that are left until \<open>j\<close> is \<open>r\<close>.\<close>

fun part_loop :: "int list \<Rightarrow> int \<Rightarrow> int \<Rightarrow> int \<Rightarrow> nat \<Rightarrow> cerr + int \<times> int list" where
  "part_loop a r i j 0 = Inr (i, a)"
| "part_loop a r i j (Suc c) =
     bindr (loadi a j) (\<lambda>x. bindr (loadi a r) (\<lambda>y.
     if x \<le> y then bindr (swapi a (i + 1) j) (\<lambda>a. part_loop a r (i + 1) (j + 1) c)
     else part_loop a r i (j + 1) c))"

text \<open>The loop runs until \<open>j\<close> equals \<open>r\<close>; from a larger \<open>p\<close> it leaves the array.\<close>

definition quicksort_partition :: "int list \<Rightarrow> int \<Rightarrow> int \<Rightarrow> cerr + int \<times> int list" where
  "quicksort_partition a p r =
     (if r < p then Inl OutOfBounds else
      bindr (part_loop a r (p - 1) p (nat (r - p))) (\<lambda>(i, a). bindr (swapi a (i + 1) r) (\<lambda>a. Inr (i + 1, a))))"

lemma part_loop_bounds: "part_loop a r i j c = Inr (i', a') \<Longrightarrow> i \<le> i' \<and> i' \<le> i + int c"
  by (induction a r i j c rule: part_loop.induct) (fastforce simp: res_simps split: if_splits)+

lemma quicksort_partition_bounds: "quicksort_partition a p r = Inr (q, a') \<Longrightarrow> p \<le> q \<and> q \<le> r"
  by (auto simp: quicksort_partition_def res_simps dest!: part_loop_bounds split: if_splits)

function quicksort :: "int list \<Rightarrow> int \<Rightarrow> int \<Rightarrow> cerr + int list" where
  "quicksort a p r =
     (if p < r then
        bindr (quicksort_partition a p r) (\<lambda>(q, a).
        bindr (quicksort a p (q - 1)) (\<lambda>a. quicksort a (q + 1) r))
      else Inr a)"
  by auto
termination by (relation "measure (\<lambda>(a, p, r). nat (r - p + 1))") (auto dest!: quicksort_partition_bounds)

declare quicksort.simps [simp del]

section \<open>Insertion sort\<close>

text \<open>The inner loop, with \<open>i + 1\<close> as the argument: the cell that is free.\<close>

fun insertion_inner :: "int list \<Rightarrow> int \<Rightarrow> nat \<Rightarrow> cerr + int list" where
  "insertion_inner a key 0 = store a 0 key"
| "insertion_inner a key (Suc i) =
     bindr (load a i) (\<lambda>x. if x > key then bindr (store a (Suc i) x) (\<lambda>a. insertion_inner a key i) else store a (Suc i) key)"

fun insertion_outer :: "int list \<Rightarrow> nat \<Rightarrow> nat \<Rightarrow> cerr + int list" where
  "insertion_outer a j 0 = Inr a"
| "insertion_outer a j (Suc c) =
     bindr (iadd j 0) (\<lambda>i. bindr (load a j) (\<lambda>key. bindr (insertion_inner a key i) (\<lambda>a. insertion_outer a (Suc j) c)))"

definition insertion_sort :: "int list option \<Rightarrow> nat \<Rightarrow> cerr + int list option" where
  "insertion_sort arr n =
     (case arr of None \<Rightarrow> Inr None
      | Some a \<Rightarrow> if n < 2 then Inr (Some a) else bindr (insertion_outer a 1 (n - 1)) (\<lambda>a. Inr (Some a)))"

section \<open>Merge sort\<close>

fun my_merge_loop :: "int list \<Rightarrow> int list \<Rightarrow> int list \<Rightarrow> nat \<Rightarrow> nat \<Rightarrow> nat \<Rightarrow> nat \<Rightarrow> cerr + int list" where
  "my_merge_loop a L R i j k 0 = Inr a"
| "my_merge_loop a L R i j k (Suc c) =
     bindr (load L i) (\<lambda>x. bindr (load R j) (\<lambda>y.
     if x \<le> y then bindr (store a k x) (\<lambda>a. my_merge_loop a L R (Suc i) j (Suc k) c)
     else bindr (store a k y) (\<lambda>a. my_merge_loop a L R i (Suc j) (Suc k) c)))"

text \<open>\<open>arr\<close> is the array from \<open>off\<close> on. The copies begin there, not at \<open>p\<close>.\<close>

definition my_merge :: "int list \<Rightarrow> nat \<Rightarrow> nat \<Rightarrow> nat \<Rightarrow> nat \<Rightarrow> cerr + int list" where
  "my_merge a off p q r =
     (let n1 = size_sub (q + 1) p; n2 = size_sub r q in
      if length a < off + n1 + n2 then Inl OutOfBounds else
      let L = take n1 (drop off a) @ [INT_MAX]; R = take n2 (drop (off + n1) a) @ [INT_MAX] in
      my_merge_loop a L R 0 0 (off + p) (Suc r - p))"

text \<open>The recursion on the array from \<open>off\<close> on, behind the test for a null pointer.\<close>

function merge_sort :: "int list \<Rightarrow> nat \<Rightarrow> nat \<Rightarrow> cerr + int list" where
  "merge_sort a off n =
     (if n < 2 then Inr a else
      bindr (merge_sort a off (n div 2)) (\<lambda>a.
      bindr (merge_sort a (off + n div 2) (n - n div 2)) (\<lambda>a.
      my_merge a off 0 (n div 2 - 1) (n - 1))))"
  by auto
termination by (relation "measure (\<lambda>(a, off, n). n)") auto

declare merge_sort.simps [simp del]

definition merge_sort_arr :: "int list option \<Rightarrow> nat \<Rightarrow> cerr + int list option" where
  "merge_sort_arr arr n = (case arr of None \<Rightarrow> Inr None | Some a \<Rightarrow> bindr (merge_sort a 0 n) (\<lambda>a. Inr (Some a)))"

section \<open>Their contract\<close>

locale segment_sort =
  fixes sorter :: "int list \<Rightarrow> nat \<Rightarrow> nat \<Rightarrow> cerr + int list" and ok :: "int list \<Rightarrow> bool"
  assumes sorts: "ok (us @ seg @ ys) \<Longrightarrow> sorter (us @ seg @ ys) (length us) (length seg) = Inr (us @ sort seg @ ys)"
begin

lemma whole: "ok a \<Longrightarrow> sorter a 0 (length a) = Inr (sort a)"
  using sorts [of "[]" a "[]"] by simp

lemma part:
  assumes "ok a" "off + n \<le> length a"
  shows "sorter a off n = Inr (take off a @ sort (take n (drop off a)) @ drop (off + n) a)"
proof -
  have "length (take off a) = off" "length (take n (drop off a)) = n" "take off a @ take n (drop off a) @ drop (off + n) a = a"
    using assms(2) by (simp_all add: add.commute flip: drop_drop)
  with sorts [of "take off a" "take n (drop off a)" "drop (off + n) a"] assms(1) show ?thesis by simp
qed

lemma twice: "ok a \<Longrightarrow> ok (sort a) \<Longrightarrow> bindr (sorter a 0 (length a)) (\<lambda>b. sorter b 0 (length b)) = sorter a 0 (length a)"
  using whole [of "sort a"] by (simp add: whole sorted_sort_id)

end

section \<open>Quicksort sorts\<close>

lemma swap_at_same: "i < length a \<Longrightarrow> swap_at a i i = Inr a"
  by (simp add: swap_at_def mem_simps)

lemma swap_at_append: "swap_at (us @ x # vs @ y # ws) (length us) (length us + Suc (length vs)) = Inr (us @ y # vs @ x # ws)"
  by (simp add: swap_at_def mem_simps nth_append list_update_append)

lemma swapi_append: "i = int (length us) \<Longrightarrow> j = i + 1 + int (length vs) \<Longrightarrow> swapi (us @ x # vs @ y # ws) i j = Inr (us @ y # vs @ x # ws)"
  using swap_at_append [of us x vs y ws] by (simp add: swapi_def nat_add_distrib)

lemma swapi_same: "0 \<le> i \<Longrightarrow> nat i < length a \<Longrightarrow> swapi a i i = Inr a"
  by (simp add: swapi_def swap_at_same)

lemma loadi_append: "j = int (length us) \<Longrightarrow> loadi (us @ x # ws) j = Inr x"
  by (simp add: loadi_def load_def nth_append)

lemma part_loop_spec:
  assumes "i = int (length us) + int (length lo) - 1" "j = i + 1 + int (length hi)" "r = j + int (length rest)"
    "\<forall>x \<in> set lo. x \<le> v" "\<forall>x \<in> set hi. v < x"
  shows "\<exists>lo' hi'. part_loop (us @ lo @ hi @ rest @ v # ys) r i j (length rest) = Inr (int (length us) + int (length lo') - 1, us @ lo' @ hi' @ v # ys) \<and>
    mset (lo' @ hi') = mset (lo @ hi @ rest) \<and> (\<forall>x \<in> set lo'. x \<le> v) \<and> (\<forall>x \<in> set hi'. v < x)"
  using assms
proof (induction rest arbitrary: lo hi i j)
  case Nil
  then show ?case by (intro exI [of _ lo] exI [of _ hi]) simp
next
  case (Cons x rest)
  let ?a = "us @ lo @ hi @ (x # rest) @ v # ys"
  have x: "loadi ?a j = Inr x" using loadi_append [of j "us @ lo @ hi" x "rest @ v # ys"] Cons.prems(1,2) by simp
  have v: "loadi ?a r = Inr v" using loadi_append [of r "us @ lo @ hi @ x # rest" v ys] Cons.prems(1-3) by simp
  show ?case
  proof (cases "x \<le> v")
    case True
    define hi' where "hi' = (case hi of [] \<Rightarrow> [] | h # t \<Rightarrow> t @ [h])"
    have hi': "length hi' = length hi" "mset hi' = mset hi" by (auto simp: hi'_def split: list.split)
    have sw: "swapi ?a (i + 1) j = Inr (us @ (lo @ [x]) @ hi' @ rest @ v # ys)"
      using swapi_same [of j ?a] swapi_append [of "i + 1" "us @ lo" j _ _ x "rest @ v # ys"] Cons.prems(1,2)
      by (cases hi) (simp_all add: hi'_def)
    from Cons.IH [of "i + 1" "lo @ [x]" "j + 1" hi'] Cons.prems hi' True mset_eq_setD [OF hi'(2)] obtain lo2 hi2 where
      "part_loop (us @ (lo @ [x]) @ hi' @ rest @ v # ys) r (i + 1) (j + 1) (length rest) = Inr (int (length us) + int (length lo2) - 1, us @ lo2 @ hi2 @ v # ys)"
      "mset (lo2 @ hi2) = mset ((lo @ [x]) @ hi' @ rest)" "\<forall>x \<in> set lo2. x \<le> v" "\<forall>x \<in> set hi2. v < x" by auto
    then show ?thesis using x v sw True hi'(2) by (intro exI [of _ lo2] exI [of _ hi2]) simp
  next
    case False
    from Cons.IH [of i lo "j + 1" "hi @ [x]"] Cons.prems False obtain lo2 hi2 where
      "part_loop (us @ lo @ (hi @ [x]) @ rest @ v # ys) r i (j + 1) (length rest) = Inr (int (length us) + int (length lo2) - 1, us @ lo2 @ hi2 @ v # ys)"
      "mset (lo2 @ hi2) = mset (lo @ (hi @ [x]) @ rest)" "\<forall>x \<in> set lo2. x \<le> v" "\<forall>x \<in> set hi2. v < x" by auto
    then show ?thesis using x v False by (intro exI [of _ lo2] exI [of _ hi2]) simp
  qed
qed

lemma quicksort_partition_spec:
  assumes "p = int (length us)" "r = p + int (length seg) - 1" "seg \<noteq> []"
  shows "\<exists>lo v hi. quicksort_partition (us @ seg @ ys) p r = Inr (p + int (length lo), us @ lo @ v # hi @ ys) \<and>
    mset (lo @ v # hi) = mset seg \<and> (\<forall>x \<in> set lo. x \<le> v) \<and> (\<forall>x \<in> set hi. v \<le> x)"
proof -
  obtain rest v where seg: "seg = rest @ [v]" using assms(3) by (cases seg rule: rev_cases) auto
  from part_loop_spec [of "p - 1" us "[]" p "[]" r rest v ys] assms(1,2) seg obtain lo hi where
    l: "part_loop (us @ rest @ v # ys) r (p - 1) p (length rest) = Inr (p + int (length lo) - 1, us @ lo @ hi @ v # ys)"
    "mset (lo @ hi) = mset rest" "\<forall>x \<in> set lo. x \<le> v" "\<forall>x \<in> set hi. v < x" by auto
  define hi' where "hi' = (case hi of [] \<Rightarrow> [] | h # t \<Rightarrow> t @ [h])"
  have hi': "mset hi' = mset hi" by (auto simp: hi'_def split: list.split)
  have len: "length rest = length lo + length hi" using arg_cong [OF l(2), of size] by simp
  have "swapi (us @ lo @ hi @ v # ys) (p + int (length lo)) r = Inr (us @ lo @ v # hi' @ ys)"
    using swapi_same [of r "us @ lo @ v # ys"] swapi_append [of "p + int (length lo)" "us @ lo" r _ _ v ys] assms(1,2) seg len
    by (cases hi) (simp_all add: hi'_def)
  then have "quicksort_partition (us @ seg @ ys) p r = Inr (p + int (length lo), us @ lo @ v # hi' @ ys)"
    using assms(2) seg l(1) by (simp add: quicksort_partition_def)
  moreover have "\<forall>x \<in> set hi'. v \<le> x" using l(4) mset_eq_setD [OF hi'] by force
  ultimately show ?thesis using l(2,3) hi' seg by (intro exI [of _ lo] exI [of _ v] exI [of _ hi']) simp
qed

lemma sort_around: "\<forall>x \<in> set lo. x \<le> v \<Longrightarrow> \<forall>x \<in> set hi. v \<le> x \<Longrightarrow> mset (lo @ v # hi) = mset seg \<Longrightarrow> sort seg = sort lo @ v # sort hi"
  by (rule properties_for_sort) (auto simp: sorted_append intro: order_trans)

lemma quicksort_spec:
  "p = int (length us) \<Longrightarrow> r = p + int (length seg) - 1 \<Longrightarrow> quicksort (us @ seg @ ys) p r = Inr (us @ sort seg @ ys)"
proof (induction seg arbitrary: us ys p r rule: length_induct)
  case (1 seg)
  show ?case
  proof (cases "p < r")
    case True
    then have "seg \<noteq> []" using 1(3) by auto
    from quicksort_partition_spec [OF 1(2,3) this, of ys] obtain lo v hi where
      q: "quicksort_partition (us @ seg @ ys) p r = Inr (p + int (length lo), us @ lo @ v # hi @ ys)"
      "mset (lo @ v # hi) = mset seg" "\<forall>x \<in> set lo. x \<le> v" "\<forall>x \<in> set hi. v \<le> x" by blast
    have len: "length seg = Suc (length lo + length hi)" using arg_cong [OF q(2), of size] by simp
    have "quicksort (us @ lo @ v # hi @ ys) p (p + int (length lo) - 1) = Inr (us @ sort lo @ v # hi @ ys)"
      using 1(1) len 1(2) by simp
    moreover have "quicksort ((us @ sort lo @ [v]) @ hi @ ys) (p + int (length lo) + 1) r = Inr ((us @ sort lo @ [v]) @ sort hi @ ys)"
      using 1(1)[rule_format, of hi "p + int (length lo) + 1" "us @ sort lo @ [v]" r ys] len 1(2,3) by simp
    ultimately show ?thesis using True q(1) sort_around [OF q(3,4,2)] by (subst quicksort.simps) simp
  next
    case False
    then have "sort seg = seg" using 1(3) by (cases seg) auto
    then show ?thesis using False by (subst quicksort.simps) simp
  qed
qed

interpretation qs: segment_sort "\<lambda>a off n. quicksort a (int off) (int off + int n - 1)" "\<lambda>a. True"
  by unfold_locales (simp add: quicksort_spec)

section \<open>Insertion sort sorts\<close>

lemma insertion_inner_spec:
  assumes "j = length us" "sorted us"
  shows "insertion_inner (us @ x # ys) key j = Inr (sort (key # us) @ ys)"
  using assms
proof (induction us arbitrary: j x ys rule: rev_induct)
  case (snoc u us)
  show ?case
  proof (cases "u > key")
    case True
    have "insertion_inner (us @ u # u # ys) key (length us) = Inr (sort (key # us) @ u # ys)" using snoc by (simp add: sorted_append)
    moreover have "sort (key # us @ [u]) = sort (key # us) @ [u]"
      using True snoc.prems(2) by (intro properties_for_sort) (auto simp: sorted_append sorted_insort set_insort_key)
    ultimately show ?thesis using True snoc.prems(1) by (simp add: mem_simps nth_append list_update_append)
  next
    case False
    then have "sort (key # us @ [u]) = us @ [u, key]" using snoc.prems(2) by (intro properties_for_sort) (auto simp: sorted_append)
    then show ?thesis using False snoc.prems(1) by (simp add: mem_simps nth_append list_update_append)
  qed
qed (simp add: mem_simps)

lemma insertion_outer_spec:
  assumes "sorted us" "length us + length vs < 2 ^ 31"
  shows "insertion_outer (us @ vs @ ys) (length us) (length vs) = Inr (sort (us @ vs) @ ys)"
  using assms
proof (induction vs arbitrary: us)
  case (Cons v vs)
  have "insertion_inner (us @ v # vs @ ys) v (length us) = Inr (sort (v # us) @ vs @ ys)"
    using insertion_inner_spec [of "length us" us v "vs @ ys" v] Cons.prems(1) by simp
  moreover have "insertion_outer (sort (v # us) @ vs @ ys) (Suc (length us)) (length vs) = Inr (sort (sort (v # us) @ vs) @ ys)"
    using Cons.IH [of "sort (v # us)"] Cons.prems(2) by (simp add: sorted_insort)
  moreover have "sort (sort (v # us) @ vs) = sort (us @ v # vs)" by (rule properties_for_sort) simp_all
  ultimately show ?case using Cons.prems by (simp add: iadd_def mem_simps nth_append)
qed (simp add: sorted_sort_id)

lemma insertion_sort_spec:
  assumes "n \<le> length a" "n < 2 ^ 31"
  shows "insertion_sort (Some a) n = Inr (Some (sort (take n a) @ drop n a))"
proof (cases "n < 2")
  case True
  then have "sort (take n a) = take n a" by (intro sort_key_short [of _ "\<lambda>x. x"]) simp
  then show ?thesis using True by (simp add: insertion_sort_def)
next
  case False
  then obtain x us where a: "take n a = x # us" "length us = n - 1" using assms(1) by (cases "take n a") (auto dest: arg_cong [where f = length])
  have "insertion_outer ([x] @ us @ drop n a) (length [x]) (length us) = Inr (sort ([x] @ us) @ drop n a)"
    using insertion_outer_spec [of "[x]" us "drop n a"] a(2) assms(2) False by simp
  moreover have "[x] @ us @ drop n a = a" using append_take_drop_id [of n a] a(1) by simp
  ultimately show ?thesis using False a by (simp add: insertion_sort_def)
qed

section \<open>Merge sort sorts\<close>

lemma my_merge_loop_spec:
  assumes "length zs = length xs + length ws" "\<forall>x \<in> set xs. x < INT_MAX" "\<forall>x \<in> set ws. x < INT_MAX"
  shows "my_merge_loop (us @ zs @ ys) (ls @ xs @ [INT_MAX]) (rs @ ws @ [INT_MAX]) (length ls) (length rs) (length us) (length zs) =
    Inr (us @ merge_by (\<lambda>x y. x > y) xs ws @ ys)"
  using assms
proof (induction zs arbitrary: us ls xs rs ws)
  case Nil
  then show ?case by simp
next
  case (Cons z zs)
  have l: "load (ls @ xs @ [INT_MAX]) (length ls) = Inr (case xs of [] \<Rightarrow> INT_MAX | x # _ \<Rightarrow> x)"
    "load (rs @ ws @ [INT_MAX]) (length rs) = Inr (case ws of [] \<Rightarrow> INT_MAX | w # _ \<Rightarrow> w)"
    by (simp_all add: mem_simps nth_append split: list.split)
  have st: "store (us @ (z # zs) @ ys) (length us) x = Inr ((us @ [x]) @ zs @ ys)" for x by (simp add: store_def list_update_append)
  have left: "my_merge_loop (us @ (x # zs) @ ys) (ls @ (x # xs') @ [INT_MAX]) (rs @ ws @ [INT_MAX]) (Suc (length ls)) (length rs) (Suc (length us)) (length zs) =
      Inr (us @ x # merge_by (\<lambda>x y. x > y) xs' ws @ ys)" if "xs = x # xs'" for x xs'
    using Cons.IH [of xs' ws "us @ [x]" "ls @ [x]" rs] Cons.prems that by simp
  have right: "my_merge_loop (us @ (w # zs) @ ys) (ls @ xs @ [INT_MAX]) (rs @ (w # ws') @ [INT_MAX]) (length ls) (Suc (length rs)) (Suc (length us)) (length zs) =
      Inr (us @ w # merge_by (\<lambda>x y. x > y) xs ws' @ ys)" if "ws = w # ws'" for w ws'
    using Cons.IH [of xs ws' "us @ [w]" ls "rs @ [w]"] Cons.prems that by simp
  show ?case
  proof (cases xs)
    case Nil
    then obtain w ws' where "ws = w # ws'" using Cons.prems(1) by (cases ws) auto
    then show ?thesis using Nil l st right Cons.prems(3) by simp
  next
    case xs: (Cons x xs')
    show ?thesis
    proof (cases ws)
      case Nil
      then show ?thesis using xs l st left Cons.prems(2) by simp
    next
      case (Cons w ws')
      then show ?thesis using xs l st left right by simp
    qed
  qed
qed

lemma sort_append_merge: "merge_by (\<lambda>x y. x > y) (sort xs) (sort ys) = sort (xs @ ys)" for xs :: "int list"
  using sorted_merge_by [of "\<lambda>x. x" "sort xs" "sort ys"] by (intro properties_for_sort [symmetric]) simp_all

lemma sort_Nil_iff: "sort xs = [] \<longleftrightarrow> xs = []"
  by (metis length_0_conv length_sort)

lemma my_merge_spec:
  assumes "xs \<noteq> []" "ws \<noteq> []" "\<forall>x \<in> set (xs @ ws). x < INT_MAX"
  shows "my_merge (us @ xs @ ws @ ys) (length us) 0 (length xs - 1) (length xs + length ws - 1) = Inr (us @ merge_by (\<lambda>x y. x > y) xs ws @ ys)"
proof -
  have n: "size_sub (length xs - 1 + 1) 0 = length xs" "size_sub (length xs + length ws - 1) (length xs - 1) = length ws"
    "Suc (length xs + length ws - 1) - 0 = length (xs @ ws)" using assms(1,2) by (cases xs; cases ws; simp)+
  have "take (length xs) (drop (length us) (us @ xs @ ws @ ys)) = xs" "take (length ws) (drop (length us + length xs) (us @ xs @ ws @ ys)) = ws" by simp_all
  then show ?thesis using my_merge_loop_spec [of "xs @ ws" xs ws us ys "[]" "[]"] assms(3)
    unfolding my_merge_def n Let_def by simp
qed

lemma merge_sort_spec:
  "\<forall>x \<in> set seg. x < INT_MAX \<Longrightarrow> merge_sort (us @ seg @ ys) (length us) (length seg) = Inr (us @ sort seg @ ys)"
proof (induction seg arbitrary: us ys rule: length_induct)
  case (1 seg)
  show ?case
  proof (cases "length seg < 2")
    case True
    then have "sort seg = seg" by (intro sort_key_short [of _ "\<lambda>x. x"]) simp
    then show ?thesis using True by (subst merge_sort.simps) simp
  next
    case False
    define xs ws where "xs = take (length seg div 2) seg" and "ws = drop (length seg div 2) seg"
    have seg: "seg = xs @ ws" "length xs = length seg div 2" "length ws = length seg - length seg div 2" by (simp_all add: xs_def ws_def)
    have ne: "xs \<noteq> []" "ws \<noteq> []" "length xs < length seg" "length ws < length seg" using False seg(2,3) by fastforce+
    have a: "\<forall>x \<in> set xs. x < INT_MAX" "\<forall>x \<in> set ws. x < INT_MAX" using 1(2) seg(1) by auto
    have m1: "merge_sort (us @ xs @ ws @ ys) (length us) (length xs) = Inr (us @ sort xs @ ws @ ys)" using 1(1) ne(3) a(1) by simp
    have m2: "merge_sort ((us @ sort xs) @ ws @ ys) (length us + length xs) (length ws) = Inr ((us @ sort xs) @ sort ws @ ys)"
      using 1(1) [rule_format, of ws "us @ sort xs" ys] ne(4) a(2) by simp
    have "my_merge (us @ sort xs @ sort ws @ ys) (length us) 0 (length xs - 1) (length seg - 1) = Inr (us @ sort (xs @ ws) @ ys)"
      using my_merge_spec [of "sort xs" "sort ws" us ys] ne(1,2) a seg(1) by (simp add: sort_append_merge ball_Un sort_Nil_iff)
    moreover have "merge_sort (us @ seg @ ys) (length us) (length seg) =
        bindr (merge_sort (us @ xs @ ws @ ys) (length us) (length xs)) (\<lambda>a. bindr (merge_sort a (length us + length xs) (length ws)) (\<lambda>a.
        my_merge a (length us) 0 (length xs - 1) (length seg - 1)))"
      by (subst merge_sort.simps) (simp only: False if_False seg(2,3), simp only: seg(1) append_assoc)
    ultimately show ?thesis unfolding seg(1) [symmetric] m1 bindr_simps using m2 by simp
  qed
qed

interpretation ms: segment_sort merge_sort "\<lambda>a. \<forall>x \<in> set a. x < INT_MAX"
  by unfold_locales (simp add: merge_sort_spec)

text \<open>C36: on every array of fewer than \<open>2 ^ 31\<close> elements below \<open>INT_MAX\<close> (which merge sort needs for its sentinels) quicksort, merge sort and insertion sort return the sorted array: the
  three sorts of the collection agree.\<close>

theorem cti_sorts_agree:
  assumes "\<forall>x \<in> set a. x < INT_MAX" "length a < 2 ^ 31"
  shows "quicksort a 0 (int (length a) - 1) = Inr (sort a) \<and> merge_sort_arr (Some a) (length a) = Inr (Some (sort a)) \<and>
    insertion_sort (Some a) (length a) = Inr (Some (sort a))"
  using qs.whole [of a] ms.whole [of a] insertion_sort_spec [of "length a" a] assms by (simp add: merge_sort_arr_def)

theorem cti_sorts_agree_witness: "quicksort [3, 1, 2] 0 2 = Inr [1, 2, 3] \<and> merge_sort_arr (Some [3, 1, 2]) 3 = Inr (Some [1, 2, 3])"
  using cti_sorts_agree [of "[3, 1, 2]"] by (simp add: numeral_3_eq_3)

text \<open>When the left half is used up, an element \<open>INT_MAX\<close> is taken for the sentinel, and the next round reads behind it.\<close>

lemma merge_sort_sentinel: "merge_sort [1, INT_MAX, INT_MAX] 0 3 = Inl OutOfBounds"
  by code_simp

end
