(* ===== verification/Cti_Postfix.thy ===== *)
theory Cti_Postfix
  imports C_Text
begin

text \<open>
  From infix to postfix notation and the calculator, \<open>infix2postfix\<close>, \<open>higher_priority\<close> and \<open>calc4\<close> of \<^verbatim>\<open>src/algs/cti/test_cti.cpp\<close>.

  Operands are single characters. The result is the text that is written; the caller of \<open>infix2postfix\<close> provides a buffer that is large enough. The stack of operators is a list with the top in front; taking the top of an empty stack is an access
  outside an array. The reference is an expression tree, printed with the parentheses that it needs and any that it has in addition: the programs return
  the postorder of the tree. The calculator keeps numbers as text; the conversions of \<open>strtod\<close> and of \<open>sprintf\<close> and the
  arithmetic of \<open>double\<close> are parameters. It takes the operands from its stack in the wrong order.
\<close>

section \<open>The program\<close>

definition higher_priority :: "char \<Rightarrow> char \<Rightarrow> bool" where
  "higher_priority inputOpa stackOpb \<longleftrightarrow> inputOpa = CHR ''('' \<or> stackOpb = CHR ''('' \<or>
     (inputOpa = CHR ''*'' \<or> inputOpa = CHR ''/'') \<and> (stackOpb = CHR ''+'' \<or> stackOpb = CHR ''-'')"

definition token :: "char \<Rightarrow> string" where
  "token c = [c, CHR '' '']"

text \<open>The operators that the next one takes off the stack, with the rest of the stack.\<close>

fun pop_higher :: "char \<Rightarrow> char list \<Rightarrow> string \<times> char list" where
  "pop_higher c [] = ([], [])"
| "pop_higher c (t # ops) = (if higher_priority c t then ([], t # ops) else (case pop_higher c ops of (out, ops) \<Rightarrow> (token t @ out, ops)))"

fun pop_paren :: "char list \<Rightarrow> cerr + string \<times> char list" where
  "pop_paren [] = Inl OutOfBounds"
| "pop_paren (t # ops) = (if t = CHR ''('' then Inr ([], ops) else bindr (pop_paren ops) (\<lambda>(out, ops). Inr (token t @ out, ops)))"

fun postfix_loop :: "string \<Rightarrow> char list \<Rightarrow> cerr + string" where
  "postfix_loop [] ops = Inr (concat (map token ops))"
| "postfix_loop (c # s) ops =
     (if c \<in> set ''+-*/('' then (case pop_higher c ops of (out, ops) \<Rightarrow> bindr (postfix_loop s (c # ops)) (\<lambda>rest. Inr (out @ rest)))
      else if c = CHR '')'' then bindr (pop_paren ops) (\<lambda>(out, ops). bindr (postfix_loop s ops) (\<lambda>rest. Inr (out @ rest)))
      else bindr (postfix_loop s ops) (\<lambda>rest. Inr (token c @ rest)))"

text \<open>The text before the first zero is converted; a null pointer is left alone.\<close>

definition infix2postfix :: "string option \<Rightarrow> cerr + string" where
  "infix2postfix s = (case s of None \<Rightarrow> Inr [] | Some s \<Rightarrow> postfix_loop (takeWhile (\<lambda>c. c \<noteq> CHR 0x00) s) [])"

text \<open>\<open>boost::split\<close> at every blank.\<close>

fun split_blank :: "string \<Rightarrow> string \<Rightarrow> string list" where
  "split_blank acc [] = [acc]"
| "split_blank acc (c # s) = (if c = CHR '' '' then acc # split_blank [] s else split_blank (acc @ [c]) s)"

text \<open>\<open>tmp\<close> has 128 cells.\<close>

definition to_text :: "('d \<Rightarrow> string) \<Rightarrow> 'd \<Rightarrow> cerr + string" where
  "to_text fmt x = (if length (fmt x) < 128 then Inr (fmt x) else Inl OutOfBounds)"

definition apply_op :: "(char \<Rightarrow> 'd \<Rightarrow> 'd \<Rightarrow> 'd) \<Rightarrow> (string \<Rightarrow> 'd) \<Rightarrow> ('d \<Rightarrow> string) \<Rightarrow> char \<Rightarrow> string list \<Rightarrow> cerr + string list" where
  "apply_op arith strtod fmt op tokenStack =
     (case tokenStack of operand1 # operand2 # rest \<Rightarrow>
        bindr (to_text fmt (arith op (strtod operand1) (strtod operand2))) (\<lambda>tmp. Inr (tmp # rest))
      | _ \<Rightarrow> Inl OutOfBounds)"

fun calc_tokens :: "(char \<Rightarrow> 'd \<Rightarrow> 'd \<Rightarrow> 'd) \<Rightarrow> (string \<Rightarrow> 'd) \<Rightarrow> ('d \<Rightarrow> string) \<Rightarrow> string list \<Rightarrow> string list \<Rightarrow> cerr + string list" where
  "calc_tokens arith strtod fmt [] st = Inr st"
| "calc_tokens arith strtod fmt (t # ts) st =
     (case t of [] \<Rightarrow> calc_tokens arith strtod fmt ts st
      | c # cs \<Rightarrow>
        if cs = [] \<and> c \<in> set ''+*-/'' then bindr (apply_op arith strtod fmt c st) (\<lambda>st. calc_tokens arith strtod fmt ts st)
        else calc_tokens arith strtod fmt ts (t # st))"

definition calc4 :: "(char \<Rightarrow> 'd \<Rightarrow> 'd \<Rightarrow> 'd) \<Rightarrow> (string \<Rightarrow> 'd) \<Rightarrow> ('d \<Rightarrow> string) \<Rightarrow> 'd \<Rightarrow> string \<Rightarrow> cerr + 'd" where
  "calc4 arith strtod fmt zero expr =
     (let exp = filter (\<lambda>c. c \<noteq> CHR '' '') expr in
      if exp = [] then Inr zero else
      bindr (postfix_loop exp []) (\<lambda>postfix.
      bindr (calc_tokens arith strtod fmt (split_blank [] postfix) []) (\<lambda>st.
      case st of [] \<Rightarrow> Inl OutOfBounds | t # _ \<Rightarrow> Inr (strtod t))))"

section \<open>Expressions\<close>

datatype expr = Atom char | Bin char expr expr | Paren expr

definition prec :: "char \<Rightarrow> nat" where
  "prec c = (if c \<in> set ''+-'' then 1 else 2)"

definition operator :: "char \<Rightarrow> bool" where
  "operator c \<longleftrightarrow> c \<in> set ''+-*/''"

fun wf_expr :: "expr \<Rightarrow> bool" where
  "wf_expr (Atom c) \<longleftrightarrow> c \<notin> set ''+-*/() '' \<and> c \<noteq> CHR 0x00"
| "wf_expr (Bin c l r) \<longleftrightarrow> operator c \<and> wf_expr l \<and> wf_expr r"
| "wf_expr (Paren e) \<longleftrightarrow> wf_expr e"

text \<open>The expression as an operand of an operator of precedence \<open>p\<close>, associated to the left.\<close>

fun show_expr :: "nat \<Rightarrow> expr \<Rightarrow> string" where
  "show_expr p (Atom c) = [c]"
| "show_expr p (Bin c l r) =
     (if prec c < p then ''('' @ show_expr (prec c) l @ [c] @ show_expr (Suc (prec c)) r @ '')'' else show_expr (prec c) l @ [c] @ show_expr (Suc (prec c)) r)"
| "show_expr p (Paren e) = ''('' @ show_expr 0 e @ '')''"

fun postorder :: "expr \<Rightarrow> string" where
  "postorder (Atom c) = token c"
| "postorder (Bin c l r) = postorder l @ postorder r @ token c"
| "postorder (Paren e) = postorder e"

section \<open>The conversion\<close>

text \<open>A stack below which nothing is taken off by operators of precedence \<open>p\<close> or more.\<close>

definition bottom :: "nat \<Rightarrow> char list \<Rightarrow> bool" where
  "bottom p ops \<longleftrightarrow> (case ops of [] \<Rightarrow> True | t # _ \<Rightarrow> t = CHR ''('' \<or> operator t \<and> prec t < p)"

lemma higher_prec: "operator c \<Longrightarrow> operator t \<Longrightarrow> higher_priority c t \<longleftrightarrow> prec t < prec c"
  by (auto simp: operator_def higher_priority_def prec_def)

lemma higher_paren [simp]: "higher_priority (CHR ''('') t" "higher_priority c (CHR ''('')"
  by (simp_all add: higher_priority_def)

lemma pop_higher_open [simp]: "pop_higher (CHR ''('') ops = ([], ops)"
  by (cases ops) auto

lemma pop_higher_bottom:
  assumes "operator c" "\<forall>t \<in> set ps. operator t \<and> prec c \<le> prec t" "bottom (prec c) ops"
  shows "pop_higher c (ps @ ops) = (concat (map token ps), ops)"
  using assms(2)
proof (induction ps)
  case Nil
  then show ?case using assms(1,3) higher_prec by (cases ops) (auto simp: bottom_def)
next
  case (Cons t ps)
  then show ?case using assms(1) higher_prec [of c t] by auto
qed

lemma pop_paren_append: "\<forall>t \<in> set ps. operator t \<Longrightarrow> pop_paren (ps @ CHR ''('' # ops) = Inr (concat (map token ps), ops)"
  by (induction ps) (auto simp: operator_def)

definition emitted :: "string \<Rightarrow> cerr + string \<Rightarrow> cerr + string" where
  "emitted out r = bindr r (\<lambda>rest. Inr (out @ rest))"

lemma emitted_emitted [simp]: "emitted a (emitted b r) = emitted (a @ b) r" "emitted [] r = r"
  by (simp_all add: emitted_def bindr_def split: sum.split)

lemma postfix_operator:
  "operator c \<Longrightarrow> pop_higher c ops = (out, ops') \<Longrightarrow> postfix_loop (c # s) ops = emitted out (postfix_loop s (c # ops'))"
  by (auto simp: operator_def emitted_def)

lemma postfix_open: "postfix_loop (CHR ''('' # s) ops = postfix_loop s (CHR ''('' # ops)"
  by (simp add: bindr_def split: sum.split)

lemma postfix_close: "pop_paren ops = Inr (out, ops') \<Longrightarrow> postfix_loop (CHR '')'' # s) ops = emitted out (postfix_loop s ops')"
  by (simp add: emitted_def)

text \<open>Reading an expression leaves operators on the stack that complete its postorder.\<close>

definition reads_as :: "nat \<Rightarrow> char list \<Rightarrow> string \<Rightarrow> string \<Rightarrow> bool" where
  "reads_as p ops text post \<longleftrightarrow> (\<exists>out ps. (\<forall>s. postfix_loop (text @ s) ops = emitted out (postfix_loop s (ps @ ops))) \<and>
     out @ concat (map token ps) = post \<and> (\<forall>t \<in> set ps. operator t \<and> p \<le> prec t))"

lemma reads_paren:
  assumes "reads_as q (CHR ''('' # ops) text post"
  shows "reads_as p ops (''('' @ text @ '')'') post"
proof -
  obtain out ps where r: "\<forall>s. postfix_loop (text @ s) (CHR ''('' # ops) = emitted out (postfix_loop s (ps @ CHR ''('' # ops))"
    "out @ concat (map token ps) = post" "\<forall>t \<in> set ps. operator t" using assms by (auto simp: reads_as_def)
  have "postfix_loop ((''('' @ text @ '')'') @ s) ops = emitted post (postfix_loop s ([] @ ops))" for s
    using r(1) [rule_format, of "CHR '')'' # s"] postfix_close [OF pop_paren_append [OF r(3), of ops], of s] r(2)
    by (simp add: postfix_open del: postfix_loop.simps)
  then show ?thesis unfolding reads_as_def by (intro exI [of _ post] exI [of _ "[]"]) simp
qed

lemma reads_bin:
  assumes l: "reads_as (prec c) ops lt lp" and r: "reads_as (Suc (prec c)) (c # ops) rt rp" and c: "operator c" "bottom (prec c) ops" "p \<le> prec c"
  shows "reads_as p ops (lt @ [c] @ rt) (lp @ rp @ token c)"
proof -
  obtain lo lps where l: "\<forall>s. postfix_loop (lt @ s) ops = emitted lo (postfix_loop s (lps @ ops))" "lo @ concat (map token lps) = lp"
    "\<forall>t \<in> set lps. operator t \<and> prec c \<le> prec t" using l by (auto simp: reads_as_def)
  obtain ro rps where r: "\<forall>s. postfix_loop (rt @ s) (c # ops) = emitted ro (postfix_loop s (rps @ c # ops))" "ro @ concat (map token rps) = rp"
    "\<forall>t \<in> set rps. operator t \<and> Suc (prec c) \<le> prec t" using r by (auto simp: reads_as_def)
  have "postfix_loop ((lt @ [c] @ rt) @ s) ops = emitted (lp @ ro) (postfix_loop s ((rps @ [c]) @ ops))" for s
    using l(1) [rule_format, of "c # rt @ s"] postfix_operator [OF c(1) pop_higher_bottom [OF c(1) l(3) c(2)], of "rt @ s"] r(1) l(2) [symmetric]
    by (simp del: postfix_loop.simps)
  moreover have "(lp @ ro) @ concat (map token (rps @ [c])) = lp @ rp @ token c" using r(2) by simp
  ultimately show ?thesis unfolding reads_as_def using r(3) c(1,3) by (intro exI [of _ "lp @ ro"] exI [of _ "rps @ [c]"]) auto
qed

lemma reads_expr: "wf_expr e \<Longrightarrow> bottom p ops \<Longrightarrow> reads_as p ops (show_expr p e) (postorder e)"
proof (induction e arbitrary: p ops)
  case (Atom c)
  then have "postfix_loop ([c] @ s) ops = emitted (token c) (postfix_loop s ([] @ ops))" for s by (auto simp: emitted_def)
  then show ?case unfolding reads_as_def by (intro exI [of _ "token c"] exI [of _ "[]"]) simp
next
  case (Bin c l r)
  have body: "reads_as q ops' (show_expr (prec c) l @ [c] @ show_expr (Suc (prec c)) r) (postorder (Bin c l r))"
    if "bottom (prec c) ops'" "q \<le> prec c" for q ops'
    using reads_bin [OF Bin.IH(1) Bin.IH(2)] Bin.prems(1) that by (simp add: bottom_def)
  show ?case
  proof (cases "prec c < p")
    case True
    have "reads_as 0 (CHR ''('' # ops) (show_expr (prec c) l @ [c] @ show_expr (Suc (prec c)) r) (postorder (Bin c l r))"
      by (rule body) (simp_all add: bottom_def)
    from reads_paren [OF this, of p] True show ?thesis by simp
  next
    case False
    then have "bottom (prec c) ops" using Bin.prems(2) by (auto simp: bottom_def split: list.splits)
    then show ?thesis using body [of ops p] False by simp
  qed
next
  case (Paren e)
  have "reads_as 0 (CHR ''('' # ops) (show_expr 0 e) (postorder e)" using Paren by (simp add: bottom_def)
  from reads_paren [OF this, of p] show ?case by simp
qed

lemma postfix_whole: "wf_expr e \<Longrightarrow> postfix_loop (show_expr 0 e) [] = Inr (postorder e)"
proof -
  assume "wf_expr e"
  from reads_expr [OF this, of 0 "[]"] obtain out ps where
    "\<forall>s. postfix_loop (show_expr 0 e @ s) [] = emitted out (postfix_loop s (ps @ []))" "out @ concat (map token ps) = postorder e"
    by (auto simp: reads_as_def bottom_def)
  from this(1) [rule_format, of "[]"] this(2) show ?thesis by (simp add: emitted_def)
qed

lemma show_expr_chars: "wf_expr e \<Longrightarrow> CHR 0x00 \<notin> set (show_expr p e) \<and> CHR '' '' \<notin> set (show_expr p e)"
  by (induction e arbitrary: p) (auto simp: operator_def)

text \<open>C38: the text of every expression over single characters, with the parentheses it needs and any others, is converted to the postorder of the
  expression.\<close>

theorem infix2postfix_postorder:
  assumes "wf_expr e"
  shows "infix2postfix (Some (show_expr 0 e)) = Inr (postorder e)"
proof -
  have "takeWhile (\<lambda>c. c \<noteq> CHR 0x00) (show_expr 0 e) = show_expr 0 e" using show_expr_chars [OF assms] by (auto simp: takeWhile_eq_all_conv)
  then show ?thesis using postfix_whole [OF assms] by (simp only: infix2postfix_def option.case)
qed

theorem infix2postfix_postorder_witness: "infix2postfix (Some ''(a+b)*c'') = Inr ''a b + c * ''"
  using infix2postfix_postorder [of "Bin (CHR ''*'') (Bin (CHR ''+'') (Atom (CHR ''a'')) (Atom (CHR ''b''))) (Atom (CHR ''c''))"]
  by (simp add: operator_def prec_def token_def)

section \<open>The calculator\<close>

text \<open>The text that the calculator computes for an expression: the right operand comes first.\<close>

fun calc_text :: "(char \<Rightarrow> 'd \<Rightarrow> 'd \<Rightarrow> 'd) \<Rightarrow> (string \<Rightarrow> 'd) \<Rightarrow> ('d \<Rightarrow> string) \<Rightarrow> expr \<Rightarrow> cerr + string" where
  "calc_text arith strtod fmt (Atom c) = Inr [c]"
| "calc_text arith strtod fmt (Bin c l r) =
     bindr (calc_text arith strtod fmt l) (\<lambda>x. bindr (calc_text arith strtod fmt r) (\<lambda>y. to_text fmt (arith c (strtod y) (strtod x))))"
| "calc_text arith strtod fmt (Paren e) = calc_text arith strtod fmt e"

lemma split_token: "c \<noteq> CHR '' '' \<Longrightarrow> split_blank [] (token c @ s) = [c] # split_blank [] s"
  by (simp add: token_def)

lemma calc_tokens_expr:
  "wf_expr e \<Longrightarrow> calc_tokens arith strtod fmt (split_blank [] (postorder e @ s)) st =
     bindr (calc_text arith strtod fmt e) (\<lambda>t. calc_tokens arith strtod fmt (split_blank [] s) (t # st))"
proof (induction e arbitrary: s st)
  case (Atom c)
  then show ?case by (auto simp: split_token)
next
  case (Bin c l r)
  have c: "c \<noteq> CHR '' ''" "c \<in> set ''+*-/''" using Bin.prems by (auto simp: operator_def)
  have "calc_tokens arith strtod fmt (split_blank [] (token c @ s)) (y # x # st) =
      bindr (to_text fmt (arith c (strtod y) (strtod x))) (\<lambda>t. calc_tokens arith strtod fmt (split_blank [] s) (t # st))" for x y
    unfolding split_token [OF c(1)] using c(2) by (simp add: apply_op_def bindr_assoc)
  then show ?case using Bin by (simp add: bindr_assoc)
qed simp

text \<open>C39: the calculator evaluates the tree of an expression over single characters, blanks anywhere, from its subexpressions, with every
  intermediate result through its text and with the operands of every operator exchanged.\<close>

theorem calc4_exchanges:
  assumes "wf_expr e" "filter (\<lambda>c. c \<noteq> CHR '' '') s = show_expr 0 e"
  shows "calc4 arith strtod fmt zero s = bindr (calc_text arith strtod fmt e) (\<lambda>t. Inr (strtod t))"
proof -
  have ne: "show_expr 0 e \<noteq> []" by (cases e) auto
  have "calc_tokens arith strtod fmt (split_blank [] (postorder e)) [] = bindr (calc_text arith strtod fmt e) (\<lambda>t. Inr [t])"
    using calc_tokens_expr [OF assms(1), of arith strtod fmt "[]" "[]"] by simp
  then show ?thesis using ne by (simp add: calc4_def assms(2) Let_def postfix_whole [OF assms(1)] bindr_assoc)
qed

definition read_int :: "string \<Rightarrow> int" where
  "read_int s = (case scan_num s of ScanOk k r \<Rightarrow> k | _ \<Rightarrow> 0)"

theorem calc4_exchanges_witness: "calc4 (\<lambda>c x y. if c = CHR ''-'' then x - y else x + y) read_int show_int 0 ''8 - 5'' = Inr (- 3)"
proof -
  have "wf_expr (Bin (CHR ''-'') (Atom (CHR ''8'')) (Atom (CHR ''5'')))"
    "filter (\<lambda>c. c \<noteq> CHR '' '') ''8 - 5'' = show_expr 0 (Bin (CHR ''-'') (Atom (CHR ''8'')) (Atom (CHR ''5'')))"
    by (simp_all add: operator_def prec_def)
  from calc4_exchanges [OF this, of "\<lambda>c x y. if c = CHR ''-'' then x - y else x + y" read_int show_int 0] show ?thesis
    by (rule trans) code_simp
qed

end
