(* ===== verification/Cti_Exercises.thy ===== *)
theory Cti_Exercises
  imports C_Text "HOL-Library.Multiset" "HOL-Library.Signed_Division"
begin

text \<open>
  The short exercises of \<^verbatim>\<open>src/algs/cti/test_cti.cpp\<close>: the largest sum of a subarray in two versions, binary search, the greatest
  common divisor, and the towers of Hanoi.

  \<open>int\<close> sums are checked for overflow. The reference for the subarrays is the maximum over all pairs of bounds. The upper bound of the binary
  search is the length of the array, so that it reads the cell behind it exactly when the value is larger than all elements.
\<close>

section \<open>Largest sum of a subarray\<close>

fun maxsub_loop :: "int list \<Rightarrow> int \<Rightarrow> int \<Rightarrow> cerr + int" where
  "maxsub_loop [] b maxSum = Inr maxSum"
| "maxsub_loop (x # xs) b maxSum =
     bindr (if b < 0 then Inr x else int_add b x) (\<lambda>b. maxsub_loop xs b (if maxSum < b then b else maxSum))"

text \<open>The result is the new value of the reference \<open>maxSum\<close>; \<open>low\<close> and \<open>high\<close> are not set.\<close>

definition maximun_subarray :: "int list option \<Rightarrow> int \<Rightarrow> cerr + int" where
  "maximun_subarray arr maxSum = (case arr of None \<Rightarrow> Inr maxSum | Some a \<Rightarrow> if a = [] then Inr maxSum else maxsub_loop a 0 0)"

fun maxsub2_loop :: "int list \<Rightarrow> nat \<Rightarrow> int \<Rightarrow> int \<Rightarrow> nat \<Rightarrow> cerr + int \<times> nat" where
  "maxsub2_loop [] i thisSum maxSum high = Inr (maxSum, high)"
| "maxsub2_loop (x # xs) i thisSum maxSum high =
     bindr (int_add thisSum x) (\<lambda>t.
     if t > maxSum then maxsub2_loop xs (Suc i) t t i
     else maxsub2_loop xs (Suc i) (if t < 0 then 0 else t) maxSum high)"

text \<open>The way back from \<open>high\<close>: \<open>i + 1\<close> is the argument, so that 0 stands for an index before the array.\<close>

fun back_loop :: "int list \<Rightarrow> nat \<Rightarrow> int \<Rightarrow> cerr + nat" where
  "back_loop a 0 s = (if s = 0 then Inr 0 else Inl OutOfBounds)"
| "back_loop a (Suc i) s = (if s = 0 then Inr (Suc i) else bindr (load a i) (\<lambda>x. bindr (int_sub s x) (\<lambda>s. back_loop a i s)))"

definition maximun_subarray2 :: "int list option \<Rightarrow> int \<times> nat \<times> nat \<Rightarrow> cerr + int \<times> nat \<times> nat" where
  "maximun_subarray2 arr out =
     (case arr of None \<Rightarrow> Inr out
      | Some a \<Rightarrow> if a = [] then Inr out else
        bindr (maxsub2_loop a 0 0 0 0) (\<lambda>(maxSum, high). bindr (back_loop a (Suc high) maxSum) (\<lambda>low. Inr (maxSum, low, high))))"

section \<open>Binary search\<close>

lemma middle: "low \<le> high \<Longrightarrow> low \<le> (low + high) sdiv 2 \<and> (low + high) sdiv 2 \<le> high" for low high :: int
  by (auto simp: signed_divide_int_def sgn_if)

function search_loop :: "int list \<Rightarrow> int \<Rightarrow> int \<Rightarrow> int \<Rightarrow> cerr + int" where
  "search_loop a val low high =
     (if low \<le> high then
        bindr (int_add low high) (\<lambda>s. let mid = s sdiv 2 in
        bindr (loadi a mid) (\<lambda>x.
        if x < val then search_loop a val (mid + 1) high
        else if x > val then search_loop a val low (mid - 1)
        else Inr mid))
      else Inr (- 1))"
  by auto
termination
proof (relation "measure (\<lambda>(a, val, low, high). nat (high + 1 - low))", goal_cases)
  case (2 a val low high s mid x)
  then have "low \<le> mid" "mid \<le> high" using middle [of low high] by (auto simp: int_add_def res_simps)
  then show ?case by simp
next
  case (3 a val low high s mid x)
  then have "low \<le> mid" "mid \<le> high" using middle [of low high] by (auto simp: int_add_def res_simps)
  then show ?case by simp
qed simp

declare search_loop.simps [simp del]

definition binary_search :: "int list option \<Rightarrow> int \<Rightarrow> int \<Rightarrow> cerr + int" where
  "binary_search arr len val = (case arr of None \<Rightarrow> Inr (- 2) | Some a \<Rightarrow> if len = 0 then Inr (- 2) else search_loop a val 0 len)"

section \<open>Greatest common divisor\<close>

text \<open>\<open>%\<close> on \<open>long\<close> truncates, and overflows for the smallest number by \<open>- 1\<close>.\<close>

definition long_rem :: "int \<Rightarrow> int \<Rightarrow> cerr + int" where
  "long_rem m n = (if m = - 9223372036854775808 \<and> n = - 1 then Inl SignedOverflow else Inr (m smod n))"

lemma smod_small: "n \<noteq> 0 \<Longrightarrow> \<bar>m smod n\<bar> < \<bar>n\<bar>" for m n :: int
  using smod_int_range [of n m] by auto

function gcd_loop :: "int \<Rightarrow> int \<Rightarrow> cerr + int" where
  "gcd_loop m n = (if n = 0 then Inr m else bindr (long_rem m n) (\<lambda>rem. gcd_loop n rem))"
  by auto
termination by (relation "measure (\<lambda>(m, n). nat \<bar>n\<bar>)") (auto simp: long_rem_def dest!: smod_small split: if_splits)

declare gcd_loop.simps [simp del]

definition cti_gcd :: "int \<Rightarrow> int \<Rightarrow> cerr + int" where
  "cti_gcd m n = (if n > m then gcd_loop n m else gcd_loop m n)"

section \<open>Towers of Hanoi\<close>

text \<open>A line of the output: the disc and the two pegs. From 0 discs the recursion goes down for ever.\<close>

fun Hanoi :: "char \<Rightarrow> char \<Rightarrow> char \<Rightarrow> nat \<Rightarrow> cerr + (nat \<times> char \<times> char) list" where
  "Hanoi a b c 0 = Inl OutOfFuel"
| "Hanoi a b c (Suc 0) = Inr [(1, a, c)]"
| "Hanoi a b c (Suc (Suc n)) =
     bindr (Hanoi a c b (Suc n)) (\<lambda>xs. bindr (Hanoi b a c (Suc n)) (\<lambda>ys. Inr (xs @ [(Suc (Suc n), a, c)] @ ys)))"

section \<open>Subarrays\<close>

text \<open>The largest sum of a prefix and of any part.\<close>

fun best_prefix :: "int list \<Rightarrow> int" where
  "best_prefix [] = 0"
| "best_prefix (x # xs) = max 0 (x + best_prefix xs)"

fun best_part :: "int list \<Rightarrow> int" where
  "best_part [] = 0"
| "best_part (x # xs) = max (best_prefix (x # xs)) (best_part xs)"

lemma best_prefix_upper: "sum_list (take j xs) \<le> best_prefix xs"
proof (induction xs arbitrary: j)
  case (Cons x xs)
  then show ?case using Cons [of "j - 1"] by (cases j) (auto simp: le_max_iff_disj)
qed simp

lemma best_upper: "sum_list (drop i (take j xs)) \<le> best_part xs"
proof (induction xs arbitrary: i j)
  case (Cons x xs)
  show ?case
  proof (cases i)
    case 0
    then show ?thesis using best_prefix_upper [of j "x # xs"] by (simp add: le_max_iff_disj)
  next
    case (Suc i')
    then show ?thesis using Cons [of i' "j - 1"] by (cases j) (auto simp: le_max_iff_disj)
  qed
qed simp

lemma best_nonneg: "0 \<le> best_prefix xs" "0 \<le> best_part xs"
  by (induction xs) (auto simp: le_max_iff_disj)

definition weight_sum :: "int list \<Rightarrow> int" where
  "weight_sum xs = sum_list (map abs xs)"

lemma weight_sum_simps [simp]: "weight_sum [] = 0" "weight_sum (x # xs) = \<bar>x\<bar> + weight_sum xs" "weight_sum (xs @ ys) = weight_sum xs + weight_sum ys"
  by (simp_all add: weight_sum_def)

lemma weight_sum_nonneg: "0 \<le> weight_sum xs"
  by (induction xs) auto

lemma sum_list_weight: "\<bar>sum_list xs\<bar> \<le> weight_sum xs"
  by (induction xs) auto

lemma part_weight: "\<bar>sum_list (drop i (take j xs))\<bar> \<le> weight_sum xs"
proof -
  have "weight_sum (drop n ys) \<le> weight_sum ys" "weight_sum (take n ys) \<le> weight_sum ys" for n ys
    using weight_sum_simps(3) [of "take n ys" "drop n ys"] weight_sum_nonneg [of "take n ys"] weight_sum_nonneg [of "drop n ys"] by simp_all
  then have "weight_sum (drop i (take j xs)) \<le> weight_sum xs" using order_trans by blast
  then show ?thesis using sum_list_weight [of "drop i (take j xs)"] by linarith
qed

lemma max_step:
  fixes p q B M x :: int
  assumes "0 \<le> p" "p \<le> q" "0 \<le> B" "B \<le> M"
  shows "max (max M (B + x)) (max (max 0 (B + x) + p) q) = max M (max (B + max 0 (x + p)) (max (max 0 (x + p)) q))"
  using assms by linarith

lemma best_le: "best_prefix xs \<le> best_part xs"
  by (cases xs) auto

lemma best_step:
  assumes "0 \<le> B" "B \<le> M"
  shows "max (max M (B + x)) (max (max 0 (B + x) + best_prefix xs) (best_part xs)) = max M (max (B + best_prefix (x # xs)) (best_part (x # xs)))"
  using max_step [OF best_nonneg(1) best_le assms] by simp

lemma maxsub_loop_spec:
  assumes "max 0 b \<le> M" "max 0 b + weight_sum xs \<le> INT_MAX"
  shows "maxsub_loop xs b M = Inr (max M (max (max 0 b + best_prefix xs) (best_part xs)))"
  using assms
proof (induction xs arbitrary: b M)
  case (Cons x xs)
  let ?b = "max 0 b + x"
  have add: "(if b < 0 then Inr x else int_add b x) = Inr ?b"
    using Cons.prems(2) weight_sum_nonneg [of xs] by (auto simp: int_add_def int_res_def in_int_def)
  have "max 0 ?b \<le> (if M < ?b then ?b else M)" "max 0 ?b + weight_sum xs \<le> INT_MAX" using Cons.prems weight_sum_nonneg [of xs] by (auto simp: max_def)
  from Cons.IH [OF this] have eq: "maxsub_loop (x # xs) b M = Inr (max (if M < ?b then ?b else M) (max (max 0 ?b + best_prefix xs) (best_part xs)))"
    by (simp only: maxsub_loop.simps add bindr_simps)
  have "(if M < ?b then ?b else M) = max M ?b" by simp
  moreover have "0 \<le> max 0 b" by simp
  ultimately show ?case using best_step [of "max 0 b" M x xs] Cons.prems(1) by (simp only: eq)
qed auto

text \<open>The second version, on the array \<open>a\<close> of which \<open>i\<close> cells are read: both sums are sums of parts.\<close>

definition part_of :: "int list \<Rightarrow> nat \<Rightarrow> int \<Rightarrow> bool" where
  "part_of a n s \<longleftrightarrow> (\<exists>k \<le> n. s = sum_list (drop k (take n a)))"

lemma part_of_zero: "part_of a n 0"
  by (auto simp: part_of_def intro!: exI [of _ n])

lemma part_of_Suc: "part_of a n s \<Longrightarrow> n < length a \<Longrightarrow> part_of a (Suc n) (s + a ! n)"
proof -
  assume "part_of a n s" "n < length a"
  then obtain k where "k \<le> n" "s = sum_list (drop k (take n a))" by (auto simp: part_of_def)
  then show ?thesis using \<open>n < length a\<close> unfolding part_of_def by (intro exI [of _ k]) (simp add: take_Suc_conv_app_nth)
qed

lemma maxsub2_loop_spec:
  assumes "part_of a i t" "0 \<le> t" "t \<le> M" "part_of a (Suc h) M" "h < length a" "xs = drop i a" "weight_sum a \<le> INT_MAX"
  shows "\<exists>h'. maxsub2_loop xs i t M h = Inr (max M (max (t + best_prefix xs) (best_part xs)), h') \<and>
    part_of a (Suc h') (max M (max (t + best_prefix xs) (best_part xs))) \<and> h' < length a"
  using assms
proof (induction xs arbitrary: i t M h)
  case Nil
  then show ?case by (auto simp: max_def)
next
  case (Cons x xs)
  have i: "i < length a" using Cons.prems(6) by (cases "i < length a") auto
  then have x: "x = a ! i" "xs = drop (Suc i) a" using Cons.prems(6) by (simp_all add: Cons_nth_drop_Suc [symmetric])
  let ?t = "t + x"
  have pt: "part_of a (Suc i) ?t" using part_of_Suc [OF Cons.prems(1) i] x(1) by simp
  then have "\<bar>?t\<bar> \<le> weight_sum a" using part_weight by (auto simp: part_of_def)
  then have add: "int_add t x = Inr ?t" using Cons.prems(7) by (simp add: int_add_def int_res_def in_int_def abs_le_iff)
  show ?case
  proof (cases "?t > M")
    case True
    have t: "0 \<le> ?t" using True Cons.prems(2,3) by linarith
    from Cons.IH [OF pt t order_refl pt i x(2) Cons.prems(7)] obtain h' where
      h': "maxsub2_loop xs (Suc i) ?t ?t i = Inr (max ?t (max (?t + best_prefix xs) (best_part xs)), h')"
      "part_of a (Suc h') (max ?t (max (?t + best_prefix xs) (best_part xs)))" "h' < length a" by blast
    have "M \<le> ?t" "0 \<le> ?t" using True Cons.prems(2,3) by linarith+
    then have "max M ?t = ?t" "max 0 ?t = ?t" by (simp_all only: max_absorb2)
    then have eq: "max ?t (max (?t + best_prefix xs) (best_part xs)) = max M (max (t + best_prefix (x # xs)) (best_part (x # xs)))"
      using best_step [OF Cons.prems(2,3), of x xs] by (simp only:)
    have "maxsub2_loop (x # xs) i t M h = maxsub2_loop xs (Suc i) ?t ?t i" using add True by simp
    then show ?thesis using h' [unfolded eq] by (metis (no_types))
  next
    case False
    let ?u = "if ?t < 0 then 0 else ?t"
    have u: "part_of a (Suc i) ?u" "0 \<le> ?u" "?u \<le> M" using pt part_of_zero False Cons.prems(2,3) by auto
    from Cons.IH [OF u Cons.prems(4,5) x(2) Cons.prems(7)] obtain h' where
      h': "maxsub2_loop xs (Suc i) ?u M h = Inr (max M (max (?u + best_prefix xs) (best_part xs)), h')"
      "part_of a (Suc h') (max M (max (?u + best_prefix xs) (best_part xs)))" "h' < length a" by blast
    have "max M ?t = M" using False by (simp only: not_less max_absorb1)
    moreover have "max 0 ?t = ?u" by (simp add: max_def)
    ultimately have eq: "max M (max (?u + best_prefix xs) (best_part xs)) = max M (max (t + best_prefix (x # xs)) (best_part (x # xs)))"
      using best_step [OF Cons.prems(2,3), of x xs] by (simp only:)
    have "maxsub2_loop (x # xs) i t M h = maxsub2_loop xs (Suc i) ?u M h" using add False by simp
    then show ?thesis using h' [unfolded eq] by (metis (no_types))
  qed
qed

lemma back_loop_spec:
  assumes "k \<le> n" "n \<le> length a" "s = sum_list (drop k (take n a))" "weight_sum a \<le> INT_MAX"
  shows "\<exists>l. back_loop a n s = Inr l \<and> l \<le> n \<and> sum_list (drop l (take n a)) = s"
  using assms
proof (induction n arbitrary: s)
  case (Suc n)
  show ?case
  proof (cases "s = 0")
    case False
    then have k: "k \<le> n" using Suc.prems(1,2,3) by (cases "k = Suc n") auto
    have n: "n < length a" using Suc.prems(2) by simp
    let ?s = "sum_list (drop k (take n a))"
    have s: "s = ?s + a ! n" using Suc.prems(3) n k by (simp add: take_Suc_conv_app_nth)
    have "\<bar>?s\<bar> \<le> INT_MAX" using part_weight [of k n a] Suc.prems(4) by linarith
    then have sub: "int_sub s (a ! n) = Inr ?s" using s by (simp add: int_sub_def int_res_def in_int_def abs_le_iff)
    from Suc.IH [OF k _ refl Suc.prems(4)] n obtain l where l: "back_loop a n ?s = Inr l" "l \<le> n" "sum_list (drop l (take n a)) = ?s" by auto
    then show ?thesis using False sub n s by (auto simp: mem_simps take_Suc_conv_app_nth)
  qed simp
qed simp

text \<open>When the absolute values of a non-empty array add up to an \<open>int\<close>, both versions return the largest sum of a part, the empty one
  included, and the second one the bounds of a part with that sum.\<close>

theorem maximun_subarray_agree:
  assumes "a \<noteq> []" "sum_list (map abs a) \<le> INT_MAX"
  shows "\<exists>M low high. maximun_subarray (Some a) s = Inr M \<and> maximun_subarray2 (Some a) out = Inr (M, low, high) \<and>
    (\<forall>i j. sum_list (drop i (take j a)) \<le> M) \<and> sum_list (drop low (take (Suc high) a)) = M \<and> low \<le> Suc high \<and> high < length a"
proof -
  have w: "weight_sum a \<le> INT_MAX" using assms(2) by (simp add: weight_sum_def)
  note le = best_le [of a]
  have "max 0 (max (0 + best_prefix a) (best_part a)) = best_part a" using le best_nonneg by (auto simp: max_def)
  moreover have "part_of a 0 0" "part_of a (Suc 0) 0" using part_of_zero by auto
  ultimately obtain h where h: "maxsub2_loop a 0 0 0 0 = Inr (best_part a, h)" "part_of a (Suc h) (best_part a)" "h < length a"
    using maxsub2_loop_spec [of a 0 0 0 0 a] assms(1) w by auto
  then obtain k where "k \<le> Suc h" "best_part a = sum_list (drop k (take (Suc h) a))" by (auto simp: part_of_def)
  from back_loop_spec [OF this(1) _ this(2) w] h(3) obtain l where l: "back_loop a (Suc h) (best_part a) = Inr l" "l \<le> Suc h"
    "sum_list (drop l (take (Suc h) a)) = best_part a" by auto
  have "maximun_subarray (Some a) s = Inr (best_part a)"
    using maxsub_loop_spec [of 0 0 a] w le assms(1) best_nonneg by (auto simp: maximun_subarray_def max_def)
  moreover have "maximun_subarray2 (Some a) out = Inr (best_part a, l, h)"
    using assms(1) h(1) l(1) by (simp add: maximun_subarray2_def del: back_loop.simps)
  ultimately show ?thesis using best_upper l(2,3) h(3) by blast
qed

theorem maximun_subarray_agree_witness:
  "\<exists>low high. maximun_subarray (Some [- 2, 3, - 1, 4]) 0 = Inr 6 \<and> maximun_subarray2 (Some [- 2, 3, - 1, 4]) (0, 0, 0) = Inr (6, low, high)"
proof -
  have "maximun_subarray (Some [- 2, 3, - 1, 4]) 0 = Inr 6" by code_simp
  then show ?thesis using maximun_subarray_agree [of "[- 2, 3, - 1, 4]" 0 "(0, 0, 0)"] by auto
qed

section \<open>Searching\<close>

text \<open>The bounds between which the value still may be.\<close>

definition between :: "int list \<Rightarrow> int \<Rightarrow> int \<Rightarrow> int \<Rightarrow> bool" where
  "between a val low high \<longleftrightarrow> 0 \<le> low \<and> high \<le> int (length a) \<and>
     (\<forall>i < length a. (int i < low \<longrightarrow> a ! i < val) \<and> (high < int i \<longrightarrow> val < a ! i))"

lemma search_loop_spec:
  assumes "sorted a" "between a val low high" "a \<noteq> []" "val \<le> last a" "length a < 2 ^ 30"
  shows "\<exists>k. search_loop a val low high = Inr k \<and> (k = - 1 \<and> val \<notin> set a \<or> 0 \<le> k \<and> k < int (length a) \<and> a ! nat k = val)"
  using assms
proof (induction a val low high rule: search_loop.induct)
  case (1 a val low high)
  show ?case
  proof (cases "low \<le> high")
    case False
    have "val \<noteq> a ! i" if "i < length a" for i using 1(4) that False by (cases "int i < low") (auto simp: between_def)
    then have "val \<notin> set a" by (auto simp: in_set_conv_nth)
    then show ?thesis using False by (simp add: search_loop.simps)
  next
    case True
    let ?m = "(low + high) sdiv 2"
    have b: "0 \<le> low" "high \<le> int (length a)" using 1(4) by (auto simp: between_def)
    have m: "low \<le> ?m" "?m \<le> high" using middle [OF True] by auto
    have add: "int_add low high = Inr (low + high)" using b True 1(7) by (simp add: int_add_def int_res_def in_int_def)
    have "low < int (length a)"
    proof (rule ccontr)
      assume "\<not> low < int (length a)"
      then have "a ! (length a - 1) < val" using 1(4,5) by (simp add: between_def)
      then show False using 1(5,6) by (simp add: last_conv_nth)
    qed
    then have "?m < int (length a)" using b True m by (auto simp: signed_divide_int_def sgn_if)
    then have load: "loadi a ?m = Inr (a ! nat ?m)" and nm: "nat ?m < length a" "0 \<le> ?m" using b(1) m(1) by (auto simp: mem_simps)
    have le: "a ! i \<le> a ! j" if "i \<le> j" "j < length a" for i j using 1(3) that by (simp add: sorted_nth_mono)
    show ?thesis
    proof (cases "a ! nat ?m" val rule: linorder_cases)
      case less
      have "a ! i < val" if "i < length a" "int i \<le> ?m" for i using le [of i "nat ?m"] less nm that by (simp add: le_nat_iff)
      then have "between a val (?m + 1) high" using 1(4) nm by (auto simp: between_def)
      from 1(1) [OF True add refl load less 1(3) this 1(5-7)] less show ?thesis
        using True add load by (subst search_loop.simps) (simp add: Let_def)
    next
      case greater
      have "val < a ! i" if "i < length a" "?m \<le> int i" for i using le [of "nat ?m" i] greater nm that by (simp add: nat_le_iff)
      then have "between a val low (?m - 1)" using 1(4) m(2) by (auto simp: between_def)
      with 1(2) [OF True add refl load] greater 1(3,5-7) show ?thesis
        using True add load by (subst search_loop.simps) (simp add: Let_def)
    next
      case equal
      then show ?thesis using True add load nm by (subst search_loop.simps) (auto simp: Let_def)
    qed
  qed
qed

lemma search_loop_behind:
  assumes "\<forall>x \<in> set a. x < val" "0 \<le> low" "low \<le> int (length a)" "length a < 2 ^ 30" "high = int (length a)"
  shows "search_loop a val low high = Inl OutOfBounds"
  using assms
proof (induction a val low high rule: search_loop.induct)
  case (1 a val low high)
  let ?m = "(low + high) sdiv 2"
  have le: "low \<le> high" using 1(5,7) by simp
  have add: "int_add low high = Inr (low + high)" using 1 by (simp add: int_add_def int_res_def in_int_def)
  have m: "low \<le> ?m" "?m \<le> high" using middle [OF le] by auto
  show ?case
  proof (cases "?m = high")
    case True
    then have "loadi a ?m = Inl OutOfBounds" using 1(7) by (simp add: loadi_def load_def)
    then show ?thesis using le add by (subst search_loop.simps) (simp add: Let_def)
  next
    case False
    then have n: "0 \<le> ?m" "nat ?m < length a" using m 1(4,7) by auto
    then have load: "loadi a ?m = Inr (a ! nat ?m)" and less: "a ! nat ?m < val" using 1(3) by (auto simp: mem_simps)
    from 1(1) [OF le add refl load less 1(3)] n False m 1(6,7) less show ?thesis
      using le add load by (subst search_loop.simps) (simp add: Let_def)
  qed
qed

text \<open>C37: on a sorted array, binary search returns the index of the value or \<open>- 1\<close> if it is not there, as long as the value is not
  larger than the last element; for larger values it reads the cell behind the array.\<close>

theorem binary_search_result:
  assumes "sorted a" "a \<noteq> []" "length a < 2 ^ 30"
  shows "if last a < val then binary_search (Some a) (int (length a)) val = Inl OutOfBounds
    else \<exists>k. binary_search (Some a) (int (length a)) val = Inr k \<and> (k = - 1 \<and> val \<notin> set a \<or> 0 \<le> k \<and> k < int (length a) \<and> a ! nat k = val)"
proof (cases "last a < val")
  case True
  have "x < val" if "x \<in> set a" for x
  proof -
    obtain ys z where a: "a = ys @ [z]" using assms(2) by (cases a rule: rev_cases) auto
    then show ?thesis using assms(1) True that by (auto simp: sorted_append)
  qed
  then show ?thesis using True search_loop_behind [of a val 0 "int (length a)"] assms by (simp add: binary_search_def)
next
  case False
  have "between a val 0 (int (length a))" by (simp add: between_def)
  from search_loop_spec [OF assms(1) this assms(2) _ assms(3)] False assms(2) show ?thesis by (simp add: binary_search_def)
qed

theorem binary_search_result_witness:
  "\<exists>k. binary_search (Some [1, 3, 5]) 3 3 = Inr k \<and> (k = - 1 \<and> 3 \<notin> set [1, 3, 5 :: int] \<or> 0 \<le> k \<and> k < 3 \<and> [1, 3, 5] ! nat k = (3 :: int))"
  using binary_search_result [of "[1, 3, 5]" 3] by simp

section \<open>The divisor\<close>

lemma smod_gcd: "gcd n (m smod n) = gcd m n" for m n :: int
  using gcd_add_mult [of n "- (m sdiv n)" m] minus_sdiv_mult_eq_smod [of m n] by (simp add: gcd.commute)

lemma gcd_loop_spec:
  assumes "- 9223372036854775808 < m" "- 9223372036854775808 < n" "n < 9223372036854775808"
  shows "\<exists>r. gcd_loop m n = Inr r \<and> \<bar>r\<bar> = gcd m n"
  using assms
proof (induction m n rule: gcd_loop.induct)
  case (1 m n)
  show ?case
  proof (cases "n = 0")
    case False
    have rem: "long_rem m n = Inr (m smod n)" using 1(2) by (simp add: long_rem_def)
    have "\<bar>m smod n\<bar> < \<bar>n\<bar>" using smod_small [OF False] .
    then have "- 9223372036854775808 < m smod n" "m smod n < 9223372036854775808" using 1(3,4) by linarith+
    from 1(1) [OF False rem 1(3) this] show ?thesis using False rem smod_gcd [of n m] by (subst gcd_loop.simps) simp
  qed (simp add: gcd_loop.simps)
qed

text \<open>Euclid's algorithm returns the greatest common divisor of any two numbers up to the sign.\<close>

theorem cti_gcd_divisor:
  assumes "\<bar>m\<bar> < 9223372036854775808" "\<bar>n\<bar> < 9223372036854775808"
  shows "\<exists>r. cti_gcd m n = Inr r \<and> \<bar>r\<bar> = gcd m n"
  using gcd_loop_spec [of m n] gcd_loop_spec [of n m] assms by (auto simp: cti_gcd_def gcd.commute abs_less_iff)

theorem cti_gcd_divisor_witness: "\<exists>r. cti_gcd (- 12) 18 = Inr r \<and> \<bar>r\<bar> = gcd (- 12) 18"
  using cti_gcd_divisor [of "- 12" 18] by simp

section \<open>The towers\<close>

text \<open>The discs on a peg, the top one first; a disc is only put on a larger one.\<close>

definition move_disc :: "nat \<times> char \<times> char \<Rightarrow> (char \<Rightarrow> nat list) \<Rightarrow> (char \<Rightarrow> nat list) option" where
  "move_disc mv pegs = (case mv of (d, a, c) \<Rightarrow>
     (case pegs a of [] \<Rightarrow> None
      | x # xs \<Rightarrow> if x = d \<and> a \<noteq> c \<and> (pegs c = [] \<or> d < hd (pegs c)) then Some (pegs(a := xs, c := d # pegs c)) else None))"

fun move_discs :: "(nat \<times> char \<times> char) list \<Rightarrow> (char \<Rightarrow> nat list) \<Rightarrow> (char \<Rightarrow> nat list) option" where
  "move_discs [] pegs = Some pegs"
| "move_discs (mv # mvs) pegs = Option.bind (move_disc mv pegs) (move_discs mvs)"

lemma move_discs_append: "move_discs (xs @ ys) pegs = Option.bind (move_discs xs pegs) (move_discs ys)"
proof (induction xs arbitrary: pegs)
  case (Cons mv xs)
  then show ?case by (cases "move_disc mv pegs") simp_all
qed simp

text \<open>A peg on which the discs up to \<open>n\<close> may be put.\<close>

definition free_for :: "nat \<Rightarrow> nat list \<Rightarrow> bool" where
  "free_for n p \<longleftrightarrow> p = [] \<or> n < hd p"

lemma free_for_mono: "free_for n p \<Longrightarrow> m \<le> n \<Longrightarrow> free_for m p"
  by (auto simp: free_for_def)

lemma Hanoi_moves:
  assumes "distinct [a, b, c]" "pegs a = [1..<Suc n] @ A" "free_for n A" "free_for n (pegs b)" "free_for n (pegs c)" "0 < n"
  shows "\<exists>mvs. Hanoi a b c n = Inr mvs \<and> move_discs mvs pegs = Some (pegs(a := A, c := [1..<Suc n] @ pegs c)) \<and> length mvs = 2 ^ n - 1"
  using assms
proof (induction a b c n arbitrary: pegs A rule: Hanoi.induct)
  case (2 a b c)
  then show ?case by (auto simp: move_disc_def free_for_def)
next
  case (3 a b c n)
  let ?N = "Suc n" and ?up = "[1..<Suc (Suc n)]"
  have up: "[1..<Suc (Suc (Suc n))] = ?up @ [Suc (Suc n)]" by simp
  let ?p1 = "pegs(a := Suc (Suc n) # A, b := ?up @ pegs b)"
  have d: "distinct [a, c, b]" "distinct [b, a, c]" using 3(3) by auto
  have "pegs a = ?up @ Suc (Suc n) # A" using 3(4) up by simp
  moreover have "free_for ?N (Suc (Suc n) # A)" "free_for ?N A" "free_for ?N (pegs c)" "free_for ?N (pegs b)" "0 < ?N"
    using 3(5-7) free_for_mono [of "Suc (Suc n)" _ ?N] by (simp_all add: free_for_def)
  note f = this
  ultimately obtain xs where
    xs: "Hanoi a c b ?N = Inr xs" "move_discs xs pegs = Some ?p1" "length xs = 2 ^ ?N - 1"
    using 3(1) [of pegs "Suc (Suc n) # A", OF d(1)] by blast
  let ?p2 = "?p1(a := A, c := Suc (Suc n) # pegs c)"
  have mv: "move_disc (Suc (Suc n), a, c) ?p1 = Some ?p2" using 3(3,7) by (auto simp: move_disc_def free_for_def)
  have "?p2 b = ?up @ pegs b" "free_for ?N (?p2 a)" "free_for ?N (?p2 c)" using 3(3) f by (auto simp: free_for_def simp del: upt_Suc)
  from 3(2) [OF xs(1), of ?p2 "pegs b", OF d(2) this(1) f(4) this(2,3) f(5)] obtain ys where
    ys: "Hanoi b a c ?N = Inr ys" "move_discs ys ?p2 = Some (?p2(b := pegs b, c := ?up @ ?p2 c))" "length ys = 2 ^ ?N - 1" by blast
  have "?p2(b := pegs b, c := ?up @ ?p2 c) = pegs(a := A, c := [1..<Suc (Suc (Suc n))] @ pegs c)" using 3(3) up by (auto simp: fun_eq_iff)
  then have "move_discs (xs @ [(Suc (Suc n), a, c)] @ ys) pegs = Some (pegs(a := A, c := [1..<Suc (Suc (Suc n))] @ pegs c))"
    using xs(2) mv ys(2) by (simp add: move_discs_append)
  moreover have "length (xs @ [(Suc (Suc n), a, c)] @ ys) = 2 ^ Suc (Suc n) - 1" using xs(3) ys(3) by simp
  ultimately show ?case using xs(1) ys(1) by auto
qed auto

text \<open>The printed moves of \<open>n\<close> discs bring all discs from the first peg to the third, in \<open>2\<^sup>n - 1\<close> moves, each of the topmost disc of a peg
  onto a larger one or an empty peg.\<close>

theorem Hanoi_solves:
  assumes "distinct [a, b, c]" "0 < n"
  shows "\<exists>mvs. Hanoi a b c n = Inr mvs \<and> length mvs = 2 ^ n - 1 \<and>
    move_discs mvs ((\<lambda>_. [])(a := [1..<Suc n])) = Some ((\<lambda>_. [])(c := [1..<Suc n]))"
proof -
  have "((\<lambda>_. [])(a := [1..<Suc n], a := [], c := [1..<Suc n])) = (\<lambda>_. [])(c := [1..<Suc n])" using assms(1) by (auto simp: fun_eq_iff)
  with Hanoi_moves [of a b c "(\<lambda>_. [])(a := [1..<Suc n])" n "[]"] assms show ?thesis by (auto simp: free_for_def simp del: upt_Suc)
qed

theorem Hanoi_solves_witness:
  "\<exists>mvs. Hanoi (CHR ''A'') (CHR ''B'') (CHR ''C'') 4 = Inr mvs \<and> length mvs = 15 \<and>
    move_discs mvs ((\<lambda>_. [])(CHR ''A'' := [1, 2, 3, 4])) = Some ((\<lambda>_. [])(CHR ''C'' := [1, 2, 3, 4]))"
proof -
  have "[1..<Suc 4] = [1, 2, 3, 4 :: nat]" by code_simp
  then show ?thesis using Hanoi_solves [of "CHR ''A''" "CHR ''B''" "CHR ''C''" 4] by (simp del: upt_Suc)
qed

end
