(* ===== verification/Str_Exercises.thy ===== *)
theory Str_Exercises
  imports C_Text "HOL-Library.Multiset"
begin

text \<open>
  The string exercises of \<^verbatim>\<open>src/algs/jzoffer/test_string.cpp\<close>: two searches for a pattern, key-indexed counting and the sort of strings built
  on it, and the replacement of a character by a text.

  Texts are lists of cells with checked access; the lengths that the functions take are arguments of their own. \<open>N - M\<close> wraps round as a \<open>size_t\<close>. The
  contents of arrays that the source leaves uninitialised are parameters.
\<close>

section \<open>Searching\<close>

text \<open>The inner loop of \<open>str_search_force\<close>: the value of \<open>j\<close> behind it.\<close>

function force_inner :: "string \<Rightarrow> string \<Rightarrow> nat \<Rightarrow> nat \<Rightarrow> nat \<Rightarrow> cerr + nat" where
  "force_inner str pat M i j =
     (if j < M then bindr (load str (i + j)) (\<lambda>a. bindr (load pat j) (\<lambda>b. if a \<noteq> b then Inr j else force_inner str pat M i (Suc j)))
      else Inr j)"
  by auto
termination by (relation "measure (\<lambda>(str, pat, M, i, j). M - j)") auto

function force_loop :: "string \<Rightarrow> nat \<Rightarrow> string \<Rightarrow> nat \<Rightarrow> nat \<Rightarrow> nat \<Rightarrow> cerr + nat" where
  "force_loop str N pat M lim i =
     (if i < lim then bindr (force_inner str pat M i 0) (\<lambda>j. if j = M then Inr i else force_loop str N pat M lim (Suc i)) else Inr N)"
  by auto
termination by (relation "measure (\<lambda>(str, N, pat, M, lim, i). lim - i)") auto

definition str_search_force :: "string \<Rightarrow> nat \<Rightarrow> string \<Rightarrow> nat \<Rightarrow> cerr + nat" where
  "str_search_force str N pat M = force_loop str N pat M (size_sub N M) 0"

text \<open>The loop of \<open>str_search_force2\<close>, which takes \<open>i\<close> back after a mismatch; with fuel.\<close>

fun force2_loop :: "nat \<Rightarrow> string \<Rightarrow> nat \<Rightarrow> string \<Rightarrow> nat \<Rightarrow> nat \<Rightarrow> nat \<Rightarrow> cerr + nat \<times> nat" where
  "force2_loop 0 str N pat M i j = Inl OutOfFuel"
| "force2_loop (Suc fuel) str N pat M i j =
     (if i < N \<and> j < M then
        bindr (load str i) (\<lambda>a. bindr (load pat j) (\<lambda>b.
        if a = b then force2_loop fuel str N pat M (Suc i) (Suc j) else force2_loop fuel str N pat M (Suc (size_sub i j)) 0))
      else Inr (i, j))"

definition str_search_force2 :: "nat \<Rightarrow> string \<Rightarrow> nat \<Rightarrow> string \<Rightarrow> nat \<Rightarrow> cerr + nat" where
  "str_search_force2 fuel str N pat M = bindr (force2_loop fuel str N pat M 0 0) (\<lambda>(i, j). Inr (if j = M then size_sub i M else N))"

declare force_inner.simps [simp del] force_loop.simps [simp del]

text \<open>The tests of the two searches print the index or that there is none.\<close>

definition test_search_text :: string where
  "test_search_text = ''hello, this is a really good day and good luck''"

definition test_str_search_force_main :: "cerr + nat option" where
  "test_str_search_force_main =
     bindr (str_search_force (test_search_text @ [CHR 0x00]) (length test_search_text) (''good'' @ [CHR 0x00]) 4) (\<lambda>r.
     Inr (if r < length test_search_text then Some r else None))"

definition test_str_search_force2_main :: "nat \<Rightarrow> cerr + nat option" where
  "test_str_search_force2_main fuel =
     bindr (str_search_force2 fuel (test_search_text @ [CHR 0x00]) (length test_search_text) (''good'' @ [CHR 0x00]) 4) (\<lambda>r.
     Inr (if r < length test_search_text then Some r else None))"

section \<open>Correctness of the searches\<close>

text \<open>The reference: the first position below a bound at which the pattern stands.\<close>

definition occurs :: "string \<Rightarrow> string \<Rightarrow> nat \<Rightarrow> bool" where
  "occurs s p i \<longleftrightarrow> take (length p) (drop i s) = p"

definition first_below :: "nat \<Rightarrow> string \<Rightarrow> string \<Rightarrow> nat \<Rightarrow> nat option" where
  "first_below lim s p st = find (occurs s p) [st..<lim]"

definition found :: "string \<Rightarrow> nat option \<Rightarrow> nat" where
  "found s r = (case r of None \<Rightarrow> length s | Some i \<Rightarrow> i)"

lemma first_below_step: "first_below lim s p st = (if st < lim then if occurs s p st then Some st else first_below lim s p (Suc st) else None)"
  by (simp add: first_below_def upt_conv_Cons)

lemma first_below_skip: "\<not> occurs s p st \<Longrightarrow> first_below lim s p st = first_below lim s p (Suc st)"
  by (cases "st < lim") (auto simp: first_below_def upt_conv_Cons)

lemma occurs_nth: "i + length p \<le> length s \<Longrightarrow> occurs s p i \<longleftrightarrow> (\<forall>j < length p. s ! (i + j) = p ! j)"
  by (auto simp: occurs_def list_eq_iff_nth_eq)

lemma force_inner_spec:
  assumes "i + length p \<le> length s" "j \<le> length p" "\<forall>m < j. s ! (i + m) = p ! m"
  shows "\<exists>m. force_inner (s @ z) (p @ y) (length p) i j = Inr m \<and> (m = length p \<longleftrightarrow> occurs s p i)"
  using assms
proof (induction "length p - j" arbitrary: j)
  case 0
  then show ?case by (subst force_inner.simps) (simp add: occurs_nth)
next
  case (Suc n)
  then have j: "j < length p" by simp
  show ?case
  proof (cases "s ! (i + j) = p ! j")
    case True
    have "\<forall>m < Suc j. s ! (i + m) = p ! m" using Suc.prems(3) True by (auto simp: less_Suc_eq)
    then show ?thesis using Suc.hyps(1) [of "Suc j"] Suc.hyps(2) Suc.prems(1) j True
      by (subst force_inner.simps) (simp add: load_in nth_append)
  next
    case False
    then show ?thesis using Suc.prems(1) j by (subst force_inner.simps) (auto simp: load_in nth_append occurs_nth)
  qed
qed

lemma force_loop_spec: "lim + length p \<le> length s \<Longrightarrow>
  force_loop (s @ z) (length s) (p @ y) (length p) lim i = Inr (found s (first_below lim s p i))"
proof (induction "lim - i" arbitrary: i)
  case 0
  then show ?case by (subst force_loop.simps) (simp add: first_below_def found_def)
next
  case (Suc n)
  then have i: "i < lim" by simp
  from force_inner_spec [of i p s 0 z y] i Suc.prems obtain m where
    m: "force_inner (s @ z) (p @ y) (length p) i 0 = Inr m" "m = length p \<longleftrightarrow> occurs s p i" by auto
  show ?case using Suc.hyps(1) [of "Suc i"] Suc.hyps(2) Suc.prems i m
    by (subst force_loop.simps, subst first_below_step) (auto simp: found_def)
qed

lemma force2_loop_spec:
  assumes "st + j \<le> length s" "j \<le> length p" "\<forall>m < j. s ! (st + m) = p ! m" "(length s - st) * Suc (length p) + (length p - j) < fuel"
  shows "bindr (force2_loop fuel (s @ z) (length s) (p @ y) (length p) (st + j) j) (\<lambda>(i, j). Inr (if j = length p then size_sub i (length p) else length s)) =
    Inr (found s (first_below (Suc (length s) - length p) s p st))"
  using assms
proof (induction fuel arbitrary: st j)
  case (Suc fuel)
  consider "j = length p" | "j < length p" "st + j = length s" | "j < length p" "st + j < length s" using Suc.prems(1,2) by linarith
  then show ?case
  proof cases
    case 1
    then have "occurs s p st" using Suc.prems(1,3) by (simp add: occurs_nth)
    moreover have "st < Suc (length s) - length p" using 1 Suc.prems(1) by simp
    ultimately show ?thesis using 1 Suc.prems(1) by (subst first_below_step) (simp add: found_def)
  next
    case 2
    then have "\<not> st < Suc (length s) - length p" by simp
    then show ?thesis using 2 by (subst first_below_step) (simp add: found_def)
  next
    case 3
    show ?thesis
    proof (cases "s ! (st + j) = p ! j")
      case True
      have "\<forall>m < Suc j. s ! (st + m) = p ! m" using Suc.prems(3) True by (auto simp: less_Suc_eq)
      then show ?thesis using Suc.IH [of st "Suc j"] Suc.prems(4) 3 True by (simp add: load_in nth_append)
    next
      case False
      have "\<not> occurs s p st"
      proof
        assume "occurs s p st"
        then have "take (length p) (drop st s) ! j = p ! j" by (simp add: occurs_def)
        then show False using False 3 by simp
      qed
      moreover have "(length s - Suc st) * Suc (length p) + length p < fuel"
      proof -
        have "length s - st = Suc (length s - Suc st)" using 3 by simp
        then show ?thesis using Suc.prems(4) 3 by simp
      qed
      ultimately show ?thesis using Suc.IH [of "Suc st" 0] 3 False by (simp add: load_in nth_append first_below_skip)
    qed
  qed
qed simp

text \<open>C40: On a text and a pattern of their given lengths \<open>str_search_force2\<close> returns the first position of the pattern, or the length of the text when there is none.
  For a pattern that is not longer than the text, \<open>str_search_force\<close> gives the same exactly if the pattern is empty or its first position is not at the very end of the text. (For a longer
  pattern its bound wraps round and it may read behind the arrays, see \<open>str_search_force_wraps\<close>.)\<close>

theorem str_searches_agree:
  assumes "Suc (length s) * Suc (length p) < fuel"
  shows "str_search_force2 fuel (s @ z) (length s) (p @ y) (length p) = Inr (found s (first_below (Suc (length s) - length p) s p 0)) \<and>
    (length p \<le> length s \<longrightarrow>
     (str_search_force (s @ z) (length s) (p @ y) (length p) = str_search_force2 fuel (s @ z) (length s) (p @ y) (length p) \<longleftrightarrow>
      p = [] \<or> first_below (Suc (length s) - length p) s p 0 \<noteq> Some (length s - length p)))"
proof -
  let ?l = "length s - length p"
  have 2: "str_search_force2 fuel (s @ z) (length s) (p @ y) (length p) = Inr (found s (first_below (Suc (length s) - length p) s p 0))"
    using force2_loop_spec [of 0 0 s p fuel z y] assms by (simp add: str_search_force2_def)
  have "str_search_force (s @ z) (length s) (p @ y) (length p) = str_search_force2 fuel (s @ z) (length s) (p @ y) (length p) \<longleftrightarrow>
      p = [] \<or> first_below (Suc (length s) - length p) s p 0 \<noteq> Some (length s - length p)" if le: "length p \<le> length s"
  proof -
    have 1: "str_search_force (s @ z) (length s) (p @ y) (length p) = Inr (found s (first_below ?l s p 0))"
      using force_loop_spec [of ?l p s z y 0] le by (simp add: str_search_force_def)
    have sp: "first_below (Suc (length s) - length p) s p 0 =
      (case first_below ?l s p 0 of Some i \<Rightarrow> Some i | None \<Rightarrow> if occurs s p ?l then Some ?l else None)"
      using le by (auto simp: first_below_def Suc_diff_le find_append split: option.splits)
    have lt: "first_below ?l s p 0 = Some i \<Longrightarrow> i < ?l" for i by (auto simp: first_below_def find_Some_iff)
    have ne: "?l \<noteq> length s" if "p \<noteq> []" using that le by (cases p) auto
    have "found s (first_below ?l s p 0) = found s (first_below (Suc (length s) - length p) s p 0) \<longleftrightarrow>
       p = [] \<or> first_below (Suc (length s) - length p) s p 0 \<noteq> Some ?l"
      unfolding sp using lt ne by (cases "p = []") (auto simp: found_def split: option.splits)
    then show ?thesis using 1 2 by simp
  qed
  then show ?thesis using 2 by blast
qed

theorem str_searches_agree_witness:
  "str_search_force2 36 ''a good'' 6 ''good'' 4 = Inr 2 \<and> str_search_force ''a good'' 6 ''good'' 4 \<noteq> str_search_force2 36 ''a good'' 6 ''good'' 4"
proof -
  have f: "first_below 3 ''a good'' ''good'' 0 = Some 2" by code_simp
  have l: "length ''a good'' = 6" "length ''good'' = 4" by simp_all
  from str_searches_agree [of "''a good''" "''good''" 36 "[]" "[]", unfolded l append_Nil2] f show ?thesis by (auto simp: found_def)
qed

lemma str_search_force_wraps: "str_search_force ''a'' 1 ''bc'' 2 = Inl OutOfBounds"
proof -
  have "size_sub 1 2 = Suc (Suc (2 ^ 64 - 3))" by (simp add: size_sub_def)
  then show ?thesis by (simp add: str_search_force_def force_loop.simps force_inner.simps load_def)
qed

section \<open>Key-indexed counting\<close>

text \<open>The value of a \<open>char\<close>, which is signed, and an increment of a cell of \<open>count\<close>.\<close>

definition schar :: "char \<Rightarrow> int" where
  "schar c = (if of_char c < (128 :: int) then of_char c else of_char c - 256)"

definition inc_at :: "int list \<Rightarrow> int \<Rightarrow> int \<Rightarrow> cerr + int list" where
  "inc_at cs i d = bindr (loadi cs i) (\<lambda>v. bindr (int_add v d) (\<lambda>v. store cs (nat i) v))"

fun count_loop :: "('a \<Rightarrow> cerr + int) \<Rightarrow> int list \<Rightarrow> 'a list \<Rightarrow> cerr + int list" where
  "count_loop key cs [] = Inr cs"
| "count_loop key cs (x # xs) = bindr (key x) (\<lambda>k. bindr (int_add k 1) (\<lambda>k. bindr (inc_at cs k 1) (\<lambda>cs. count_loop key cs xs)))"

fun sums_loop :: "nat list \<Rightarrow> int list \<Rightarrow> cerr + int list" where
  "sums_loop [] cs = Inr cs"
| "sums_loop (r # rs) cs = bindr (load cs r) (\<lambda>v. bindr (inc_at cs (int r + 1) v) (\<lambda>cs. sums_loop rs cs))"

fun place_loop :: "('a \<Rightarrow> cerr + int) \<Rightarrow> int list \<Rightarrow> 'a list \<Rightarrow> 'a list \<Rightarrow> cerr + 'a list" where
  "place_loop key cs aux [] = Inr aux"
| "place_loop key cs aux (x # xs) =
     bindr (key x) (\<lambda>k. bindr (loadi cs k) (\<lambda>v. bindr (inc_at cs k 1) (\<lambda>cs.
     if v < 0 then Inl OutOfBounds else bindr (store aux (nat v) x) (\<lambda>aux. place_loop key cs aux xs))))"

definition key_indexed :: "nat \<Rightarrow> ('a \<Rightarrow> cerr + int) \<Rightarrow> int list \<Rightarrow> 'a list \<Rightarrow> 'a list \<Rightarrow> cerr + 'a list" where
  "key_indexed R key cnt aux e =
     bindr (count_loop key cnt e) (\<lambda>cs. bindr (sums_loop [0..<R] cs) (\<lambda>cs. place_loop key cs aux e))"

record kic =
  kic_name :: string
  kic_key :: int

text \<open>The arrays of \<open>test_kic_main\<close> are not initialised.\<close>

definition test_kic_main :: "int list \<Rightarrow> kic list \<Rightarrow> kic list \<Rightarrow> cerr + kic list" where
  "test_kic_main cnt aux e = key_indexed 10 (\<lambda>x. Inr (kic_key x)) cnt aux e"

definition char_at :: "nat \<Rightarrow> string \<Rightarrow> cerr + int" where
  "char_at d x = bindr (load x d) (\<lambda>c. Inr (schar c))"

text \<open>The loop over the columns; \<open>a\<close> stays as it is.\<close>

fun lsd_loop :: "nat \<Rightarrow> string list \<Rightarrow> string list \<Rightarrow> cerr + string list" where
  "lsd_loop 0 aux a = Inr aux"
| "lsd_loop (Suc d) aux a = bindr (key_indexed 256 (char_at d) (replicate 257 0) aux a) (\<lambda>aux. lsd_loop d aux a)"

definition lsd_words :: "string list" where
  "lsd_words = [''4PGC938'', ''2IYE230'', ''3CI0720'', ''1ICK750'', ''10HV845'', ''4JZY524'', ''1ICK750'', ''3CIO720'',
     ''10HV845'', ''10HV845'', ''2rLA629'', ''2RLA629'', ''3ATW723'']"

definition test_lsd_sort_main :: "string list \<Rightarrow> cerr + string list" where
  "test_lsd_sort_main aux = lsd_loop 7 aux lsd_words"

section \<open>Counting sorts stably\<close>

definition start :: "('a \<Rightarrow> nat) \<Rightarrow> 'a list \<Rightarrow> nat \<Rightarrow> nat" where
  "start k a r = length [x \<leftarrow> a. k x < r]"

definition bucket :: "('a \<Rightarrow> nat) \<Rightarrow> 'a list \<Rightarrow> nat \<Rightarrow> 'a list" where
  "bucket k a r = [x \<leftarrow> a. k x = r]"

lemma start_Suc: "start k a (Suc r) = start k a r + length (bucket k a r)"
  by (induction a) (auto simp: start_def bucket_def less_Suc_eq)

lemma start_mono: "r \<le> q \<Longrightarrow> start k a r \<le> start k a q"
  by (induction q rule: dec_induct) (auto simp: start_Suc)

lemma start_le: "start k a r \<le> length a"
  by (simp add: start_def)

lemma start_bucket_le: "start k a r + length (bucket k a r) \<le> length a"
  using start_le [of k a "Suc r"] by (simp add: start_Suc)

lemma bucket_append [simp]: "bucket k (xs @ ys) r = bucket k xs r @ bucket k ys r"
  by (simp add: bucket_def)

lemma sorted_split: "sorted (map k s) \<Longrightarrow> s = [x \<leftarrow> s. k x < r] @ bucket k s r @ [x \<leftarrow> s. r < k x]" for k :: "'a \<Rightarrow> nat"
proof (induction s)
  case (Cons y s)
  then have IH: "s = [x \<leftarrow> s. k x < r] @ bucket k s r @ [x \<leftarrow> s. r < k x]" and y: "\<forall>x \<in> set s. k y \<le> k x" by auto
  consider "k y < r" | "k y = r" | "r < k y" by linarith
  then show ?case
  proof cases
    case 1
    then show ?thesis using IH by (simp add: bucket_def)
  next
    case 2
    then have "[x \<leftarrow> s. k x < r] = []" using y by (auto simp: filter_empty_conv)
    then show ?thesis using 2 IH by (simp add: bucket_def)
  next
    case 3
    then have "[x \<leftarrow> s. k x < r] = []" "bucket k s r = []" "[x \<leftarrow> s. r < k x] = s"
      using y by (auto simp: bucket_def filter_empty_conv filter_id_conv)
    then show ?thesis using 3 by (simp add: bucket_def)
  qed
qed (simp add: bucket_def)

lemma sort_key_split: "sort_key k a = [x \<leftarrow> sort_key k a. k x < r] @ bucket k a r @ [x \<leftarrow> sort_key k a. r < k x]" "length [x \<leftarrow> sort_key k a. k x < r] = start k a r"
  for k :: "'a \<Rightarrow> nat"
proof -
  have "bucket k (sort_key k a) r = bucket k a r" unfolding bucket_def by (rule sort_key_stable)
  then show "sort_key k a = [x \<leftarrow> sort_key k a. k x < r] @ bucket k a r @ [x \<leftarrow> sort_key k a. r < k x]" using sorted_split [of k "sort_key k a" r] by simp
  have "mset [x \<leftarrow> sort_key k a. k x < r] = mset [x \<leftarrow> a. k x < r]" by simp
  then show "length [x \<leftarrow> sort_key k a. k x < r] = start k a r" unfolding start_def by (metis size_mset)
qed

text \<open>Every position belongs to one bucket.\<close>

lemma position_in_bucket:
  assumes "i < length a"
  obtains x j where "x \<in> set a" "j < length (bucket k a (k x))" "i = start k a (k x) + j"
proof -
  let ?s = "sort_key k a" let ?r = "k (?s ! i)"
  have i: "i < length ?s" using assms by simp
  define u v w where "u = [x \<leftarrow> ?s. k x < ?r]" and "v = bucket k a ?r" and "w = [x \<leftarrow> ?s. ?r < k x]"
  have s: "?s = u @ v @ w" and u: "length u = start k a ?r" unfolding u_def v_def w_def using sort_key_split(1) [of k a ?r] sort_key_split(2) [of k ?r a] by simp_all
  have "\<not> i < length u"
  proof
    assume "i < length u"
    then have "?s ! i \<in> set u" using s by (metis nth_append nth_mem)
    then show False by (simp add: u_def)
  qed
  moreover have "\<not> length u + length v \<le> i"
  proof
    assume g: "length u + length v \<le> i"
    then have "?s ! i = w ! (i - length u - length v)" "i - length u - length v < length w" using s i by (auto simp: nth_append length_append)
    then have "?s ! i \<in> set w" by simp
    then show False by (simp add: w_def)
  qed
  ultimately have "i - length u < length (bucket k a ?r)" "i = start k a ?r + (i - length u)" using u by (auto simp: v_def)
  moreover have "?s ! i \<in> set a" using i by (metis nth_mem set_sort)
  ultimately show ?thesis using that by blast
qed

definition placed :: "('a \<Rightarrow> nat) \<Rightarrow> 'a list \<Rightarrow> 'a list \<Rightarrow> 'a list \<Rightarrow> bool" where
  "placed k a es aux \<longleftrightarrow> length aux = length a \<and> (\<forall>x \<in> set a. \<forall>j < length (bucket k es (k x)). aux ! (start k a (k x) + j) = bucket k es (k x) ! j)"

lemma placed_sort: "placed k a a aux \<Longrightarrow> aux = sort_key k a"
proof (rule nth_equalityI)
  assume p: "placed k a a aux"
  then show "length aux = length (sort_key k a)" by (simp add: placed_def)
  fix i assume "i < length aux"
  then obtain x j where x: "x \<in> set a" "j < length (bucket k a (k x))" "i = start k a (k x) + j" using p position_in_bucket [of i a k] by (auto simp: placed_def)
  have "sort_key k a ! i = bucket k a (k x) ! j"
    by (subst sort_key_split(1) [of k a "k x"]) (simp add: nth_append sort_key_split(2) x(2,3))
  then show "aux ! i = sort_key k a ! i" using p x by (simp add: placed_def)
qed

lemma placed_step:
  assumes p: "placed k a es aux" and a: "a = es @ x # xs"
  shows "start k a (k x) + length (bucket k es (k x)) < length a"
    "placed k a (es @ [x]) (aux[start k a (k x) + length (bucket k es (k x)) := x])"
proof -
  let ?v = "start k a (k x) + length (bucket k es (k x))"
  have b: "bucket k a (k x) = bucket k es (k x) @ x # bucket k xs (k x)" using a by (simp add: bucket_def)
  show lt: "?v < length a" using start_bucket_le [of k a "k x"] b by simp
  have "aux[?v := x] ! (start k a (k y) + j) = bucket k (es @ [x]) (k y) ! j" if y: "y \<in> set a" "j < length (bucket k (es @ [x]) (k y))" for y j
  proof (cases "k y = k x")
    case True
    then have "j \<le> length (bucket k es (k x))" using y(2) by (simp add: bucket_def)
    then show ?thesis using True p y(1) lt by (cases "j = length (bucket k es (k x))") (auto simp: placed_def bucket_def nth_append)
  next
    case False
    then have e: "bucket k (es @ [x]) (k y) = bucket k es (k y)" by (simp add: bucket_def)
    then have j: "j < length (bucket k es (k y))" using y(2) by simp
    have j': "length (bucket k es (k y)) \<le> length (bucket k a (k y))" using a by simp
    have "start k a (k y) + j \<noteq> ?v"
    proof (cases "k y < k x")
      case True
      then show ?thesis using start_mono [of "Suc (k y)" "k x" k a] j j' by (simp add: start_Suc)
    next
      case f: False
      then show ?thesis using start_mono [of "Suc (k x)" "k y" k a] False b by (simp add: start_Suc)
    qed
    then show ?thesis using p y(1) j e by (simp add: placed_def)
  qed
  then show "placed k a (es @ [x]) (aux[?v := x])" using p by (simp add: placed_def)
qed

lemma inc_at_in: "0 \<le> i \<Longrightarrow> nat i < length cs \<Longrightarrow> in_int (cs ! nat i + d) \<Longrightarrow> inc_at cs i d = Inr (cs[nat i := cs ! nat i + d])"
  by (simp add: inc_at_def loadi_in int_add_in store_in)

lemma count_loop_spec:
  assumes "\<forall>x \<in> set e. key x = Inr (int (k x)) \<and> k x < R" "length cs = Suc R" "int R \<le> INT_MAX" "\<forall>q \<le> R. 0 \<le> cs ! q \<and> cs ! q + int (length e) \<le> INT_MAX"
  shows "\<exists>cs'. count_loop key cs e = Inr cs' \<and> length cs' = Suc R \<and> (\<forall>q \<le> R. cs' ! q = cs ! q + (if q = 0 then 0 else int (length (bucket k e (q - 1)))))"
  using assms
proof (induction e arbitrary: cs)
  case (Cons x e)
  let ?q = "Suc (k x)" let ?cs = "cs[?q := cs ! ?q + 1]"
  have x: "key x = Inr (int (k x))" "k x < R" using Cons.prems(1) by auto
  have q: "0 \<le> cs ! ?q" "cs ! ?q + (1 + int (length e)) \<le> INT_MAX" using spec [OF Cons.prems(4), of ?q] x(2) by auto
  then have "inc_at cs (int (k x) + 1) 1 = Inr ?cs" using inc_at_in [of "int (k x) + 1" cs 1] x(2) Cons.prems(2) by (simp add: in_int_def nat_add_distrib)
  moreover have "int_add (int (k x)) 1 = Inr (int (k x) + 1)" using x(2) Cons.prems(3) by (intro int_add_in) (simp add: in_int_def)
  moreover have "0 \<le> ?cs ! j \<and> ?cs ! j + int (length e) \<le> INT_MAX" if "j \<le> R" for j
    using spec [OF Cons.prems(4), of j] that q x(2) Cons.prems(2) by (cases "j = ?q") auto
  then have "\<forall>q \<le> R. 0 \<le> ?cs ! q \<and> ?cs ! q + int (length e) \<le> INT_MAX" by blast
  with Cons.IH [of ?cs] Cons.prems(1-3) obtain cs' where "count_loop key ?cs e = Inr cs'" "length cs' = Suc R"
    "\<forall>q \<le> R. cs' ! q = ?cs ! q + (if q = 0 then 0 else int (length (bucket k e (q - 1))))" by auto
  ultimately show ?case using x Cons.prems(2) by (intro exI [of _ cs']) (auto simp: nth_list_update bucket_def)
qed (simp add: bucket_def)

lemma sums_loop_spec:
  assumes "r \<le> R" "length cs = Suc R" "int (length a) \<le> INT_MAX" "\<forall>q \<le> r. cs ! q = int (start k a q)" "\<forall>q. r < q \<longrightarrow> q \<le> R \<longrightarrow> cs ! q = int (length (bucket k a (q - 1)))"
  shows "\<exists>cs'. sums_loop [r..<R] cs = Inr cs' \<and> length cs' = Suc R \<and> (\<forall>q \<le> R. cs' ! q = int (start k a q))"
  using assms
proof (induction "R - r" arbitrary: r cs)
  case (Suc n)
  then have r: "r < R" by simp
  let ?cs = "cs[Suc r := int (start k a (Suc r))]"
  have v: "cs ! Suc r + cs ! r = int (start k a (Suc r))" using Suc.prems(4,5) r by (simp add: start_Suc)
  then have "in_int (cs ! nat (int r + 1) + cs ! r)" using start_le [of k a "Suc r"] Suc.prems(3) by (simp add: in_int_def nat_add_distrib)
  then have "inc_at cs (int r + 1) (cs ! r) = Inr ?cs" using inc_at_in [of "int r + 1" cs "cs ! r"] v r Suc.prems(2) by (simp add: nat_add_distrib)
  moreover have "\<forall>q \<le> Suc r. ?cs ! q = int (start k a q)" using Suc.prems(2,4) r by (auto simp: nth_list_update le_Suc_eq)
  moreover have "\<forall>q. Suc r < q \<longrightarrow> q \<le> R \<longrightarrow> ?cs ! q = int (length (bucket k a (q - 1)))" using Suc.prems(5) by simp
  ultimately show ?case using Suc.hyps(1) [of "Suc r" ?cs] Suc.hyps(2) Suc.prems(2,3) r by (simp add: upt_conv_Cons load_in)
qed simp

lemma place_loop_spec:
  assumes "\<forall>x \<in> set a. key x = Inr (int (k x)) \<and> k x < R" "int (length a) \<le> INT_MAX" "a = es @ xs" "length cs = Suc R"
    "\<forall>r < R. cs ! r = int (start k a r + length (bucket k es r))" "placed k a es aux"
  shows "\<exists>aux'. place_loop key cs aux xs = Inr aux' \<and> placed k a a aux'"
  using assms(3-6)
proof (induction xs arbitrary: es cs aux)
  case (Cons x xs)
  let ?v = "start k a (k x) + length (bucket k es (k x))"
  have x: "key x = Inr (int (k x))" "k x < R" using assms(1) Cons.prems(1) by auto
  note st = placed_step [OF Cons.prems(4,1)]
  have v: "cs ! k x = int ?v" using Cons.prems(3) x(2) by blast
  let ?cs = "cs[k x := int ?v + 1]"
  have "inc_at cs (int (k x)) 1 = Inr ?cs" using inc_at_in [of "int (k x)" cs 1] x(2) Cons.prems(2) st(1) assms(2) v by (simp add: in_int_def)
  moreover have "store aux ?v x = Inr (aux[?v := x])" using st(1) Cons.prems(4) by (intro store_in) (simp add: placed_def)
  moreover have "\<forall>r < R. ?cs ! r = int (start k a r + length (bucket k (es @ [x]) r))" using Cons.prems(2,3) by (auto simp: nth_list_update bucket_def)
  then have "\<exists>aux'. place_loop key ?cs (aux[?v := x]) xs = Inr aux' \<and> placed k a a aux'"
    using Cons.IH [of "es @ [x]" ?cs "aux[?v := x]"] Cons.prems(1,2) st(2) by simp
  ultimately show ?case using x Cons.prems(2) v by (simp add: loadi_in nat_int_add)
qed simp

lemma key_indexed_sorts:
  assumes "\<forall>x \<in> set a. key x = Inr (int (k x)) \<and> k x < R" "int R \<le> INT_MAX" "int (length a) \<le> INT_MAX" "length aux = length a"
  shows "key_indexed R key (replicate (Suc R) 0) aux a = Inr (sort_key k a)"
proof -
  from count_loop_spec [OF assms(1) _ assms(2), of "replicate (Suc R) 0"] assms(3) obtain c1 where
    c1: "count_loop key (replicate (Suc R) 0) a = Inr c1" "length c1 = Suc R" "\<forall>q \<le> R. c1 ! q = (if q = 0 then 0 else int (length (bucket k a (q - 1))))"
    by (auto simp del: replicate_Suc)
  from sums_loop_spec [of 0 R c1 a k] c1(2,3) assms(3) obtain c2 where
    c2: "sums_loop [0..<R] c1 = Inr c2" "length c2 = Suc R" "\<forall>q \<le> R. c2 ! q = int (start k a q)" by (auto simp: start_def)
  have "placed k a [] aux" using assms(4) by (simp add: placed_def bucket_def)
  with place_loop_spec [OF assms(1,3), of "[]" a c2 aux] c2(2,3) obtain aux' where
    "place_loop key c2 aux a = Inr aux'" "placed k a a aux'" by (auto simp: bucket_def)
  then show ?thesis using c1(1) c2(1) placed_sort [of k a aux'] unfolding key_indexed_def by simp
qed

text \<open>\<open>count\<close> of \<open>test_kic_main\<close> has as many cells as there are keys, one less than the loops use.\<close>

lemma test_kic_bounds:
  assumes "length cnt = 10" "test_kic_main cnt aux e = Inr aux'"
  shows False
proof -
  from assms(2) obtain cs cs' where c: "count_loop (\<lambda>x. Inr (kic_key x)) cnt e = Inr cs" "sums_loop [0..<10] cs = Inr cs'"
    by (auto simp: test_kic_main_def key_indexed_def res_simps)
  have inc: "inc_at c i d = Inr c' \<Longrightarrow> length c' = length c \<and> nat i < length c" for c c' i d by (auto simp: inc_at_def loadi_def res_simps split: if_splits)
  have "count_loop key c e = Inr c' \<Longrightarrow> length c' = length c" for key :: "kic \<Rightarrow> cerr + int" and c c'
    by (induction e arbitrary: c) (auto simp: res_simps dest!: inc)
  then have "length cs = 10" using c(1) assms(1) by metis
  moreover have "sums_loop rs c = Inr c' \<Longrightarrow> \<forall>r \<in> set rs. Suc r < length c" for rs c c'
    by (induction rs arbitrary: c) (fastforce simp: res_simps nat_add_distrib dest!: inc)+
  ultimately show False using c(2) by fastforce
qed

text \<open>The sort of strings gives every column to the counting sort, which sorts stably, but never copies the result back: what is left is
  the stable sort by the first character alone, for ASCII strings that have the columns.\<close>

theorem lsd_sorts_first_column:
  assumes "\<forall>x \<in> set a. d < length x \<and> (\<forall>c \<in> set x. of_char c < (128 :: nat))" "int (length a) \<le> INT_MAX" "length aux = length a"
  shows "lsd_loop (Suc d) aux a = Inr (sort_key (\<lambda>x. of_char (x ! 0) :: nat) a)"
proof -
  have "key_indexed 256 (char_at j) (replicate 257 0) u a = Inr (sort_key (\<lambda>x. of_char (x ! j) :: nat) a)" if j: "j \<le> d" and u: "length u = length a" for j u
  proof -
    have "char_at j x = Inr (int (of_char (x ! j))) \<and> (of_char (x ! j) :: nat) < 256" if "x \<in> set a" for x
    proof -
      have "(of_char (x ! j) :: nat) < 128" "j < length x" using assms(1) that j by auto
      moreover from this(1) have "(of_char (x ! j) :: int) < 128" using of_nat_less_iff [of "of_char (x ! j)" 128, where 'a = int] unfolding of_nat_of_char by simp
      ultimately show ?thesis by (simp add: char_at_def schar_def load_in of_nat_of_char)
    qed
    then show ?thesis using key_indexed_sorts [of a "char_at j" "\<lambda>x. of_char (x ! j)" 256 u] assms(2) u by simp
  qed
  then have "lsd_loop (Suc j) u a = Inr (sort_key (\<lambda>x. of_char (x ! 0) :: nat) a)" if "j \<le> d" "length u = length a" for j u
    using that by (induction j arbitrary: u) auto
  then show ?thesis using assms(3) by blast
qed

theorem lsd_sorts_first_column_witness:
  "lsd_loop 2 [[], [], []] [''21'', ''12'', ''11''] = Inr [''12'', ''11'', ''21'']"
proof -
  have "sort_key (\<lambda>x. of_char (x ! 0) :: nat) [''21'', ''12'', ''11''] = [''12'', ''11'', ''21'']" by code_simp
  moreover have "lsd_loop (Suc 1) [[], [], []] [''21'', ''12'', ''11''] = Inr (sort_key (\<lambda>x. of_char (x ! 0) :: nat) [''21'', ''12'', ''11''])"
    by (rule lsd_sorts_first_column) simp_all
  ultimately show ?thesis by (simp add: numeral_2_eq_2)
qed

section \<open>Replacing a character\<close>

text \<open>\<open>strcat\<close> looks for the end of the text that is already there.\<close>

fun str_end :: "string \<Rightarrow> nat \<Rightarrow> cerr + nat" where
  "str_end [] n = Inl OutOfBounds"
| "str_end (c # cs) n = (if c = CHR 0x00 then Inr n else str_end cs (Suc n))"

definition strcat_at :: "string \<Rightarrow> nat \<Rightarrow> string \<Rightarrow> cerr + string" where
  "strcat_at buf n r = bindr (str_end (drop n buf) n) (\<lambda>e. overwrite buf e (r @ [CHR 0x00]))"

function replace_loop :: "string \<Rightarrow> char \<Rightarrow> string \<Rightarrow> nat \<Rightarrow> nat \<Rightarrow> nat \<Rightarrow> nat \<Rightarrow> string \<Rightarrow> cerr + bool \<times> string" where
  "replace_loop str c r len p q n buf =
     (if length str \<le> q \<or> str ! q = c then
        let blen = q - p in
        if blen > 0 \<and> n + blen > len - 1 then Inr (False, buf) else
        bindr (if blen > 0 then overwrite buf n (take blen (drop p str)) else Inr buf) (\<lambda>buf.
        let n = n + blen in
        if length str \<le> q then bindr (store buf n (CHR 0x00)) (\<lambda>buf. Inr (True, buf))
        else if n + length r > len - 1 then Inr (False, buf)
        else bindr (strcat_at buf n r) (\<lambda>buf. replace_loop str c r len (Suc q) (Suc q) (n + length r) buf))
      else replace_loop str c r len p (Suc q) n buf)"
  by pat_completeness auto
termination by (relation "measure (\<lambda>(str, c, r, len, p, q, n, buf). length str - q)") auto

declare replace_loop.simps [simp del]

text \<open>The result says if the buffer is returned; the end of \<open>str\<close> is taken before \<open>str\<close> is checked.\<close>

definition replace_char_to_str :: "string option \<Rightarrow> char \<Rightarrow> string option \<Rightarrow> string option \<Rightarrow> nat \<Rightarrow> cerr + bool \<times> string option" where
  "replace_char_to_str str c r buf len =
     bindr (deref str) (\<lambda>s.
     case (r, buf) of
       (Some r, Some b) \<Rightarrow> if s \<noteq> [] \<and> r \<noteq> [] \<and> len > 0 then bindr (replace_loop s c r len 0 0 0 b) (\<lambda>(ok, b). Inr (ok, Some b)) else Inr (False, buf)
     | _ \<Rightarrow> Inr (False, buf))"

text \<open>The last part of \<open>test_string_main\<close>, behind three returns: the buffer of 128 cells is not initialised.\<close>

definition test_replace :: "string \<Rightarrow> cerr + bool \<times> string option" where
  "test_replace str = replace_char_to_str (Some ''we are happy'') (CHR '' '') (Some ''%20'') (Some str) 128"

definition subst_char :: "char \<Rightarrow> string \<Rightarrow> string \<Rightarrow> string" where
  "subst_char c r s = concat (map (\<lambda>x. if x = c then r else [x]) s)"

lemma subst_char_simps [simp]: "subst_char c r [] = []" "subst_char c r (s @ t) = subst_char c r s @ subst_char c r t"
  "subst_char c r (x # s) = (if x = c then r else [x]) @ subst_char c r s"
  by (simp_all add: subst_char_def)

lemma subst_char_none: "c \<notin> set s \<Longrightarrow> subst_char c r s = s"
  by (induction s) auto

lemma overwrite_tail: "length s \<le> m \<Longrightarrow> overwrite (u @ replicate m x) (length u) s = Inr (u @ s @ replicate (m - length s) x)"
  by (simp add: overwrite_def)

lemma strcat_tail: "length r < m \<Longrightarrow> strcat_at (u @ replicate m (CHR 0x00)) (length u) r = Inr (u @ r @ replicate (m - length r) (CHR 0x00))"
proof -
  assume r: "length r < m"
  then have "str_end (replicate m (CHR 0x00)) (length u) = Inr (length u)" by (cases m) auto
  moreover have "replicate (m - length r) (CHR 0x00) = CHR 0x00 # replicate (m - Suc (length r)) (CHR 0x00)" using r by (simp flip: replicate_Suc add: Suc_diff_Suc)
  ultimately show ?thesis using r overwrite_tail [of "r @ [CHR 0x00]" m u "CHR 0x00"] by (simp add: strcat_at_def)
qed

text \<open>A copy and what follows it, when the part behind the text is zero.\<close>

lemma replace_loop_spec:
  assumes "p \<le> q" "q \<le> length str" "c \<notin> set (drop p (take q str))" "length (subst_char c r (take p str)) < len"
  shows "\<exists>b. replace_loop str c r len p q (length (subst_char c r (take p str))) (subst_char c r (take p str) @ replicate (len - length (subst_char c r (take p str))) (CHR 0x00)) =
      Inr (length (subst_char c r str) < len, b) \<and>
    (length (subst_char c r str) < len \<longrightarrow> b = subst_char c r str @ replicate (len - length (subst_char c r str)) (CHR 0x00))"
  using assms
proof (induction "length str - q" arbitrary: p q rule: less_induct)
  case less
  define u mid where "u = subst_char c r (take p str)" and "mid = drop p (take q str)"
  let ?z = "\<lambda>m. replicate m (CHR 0x00)"
  have mid: "take (q - p) (drop p str) = mid" "length mid = q - p" "subst_char c r mid = mid" "subst_char c r (take q str) = u @ mid"
  proof -
    show m: "take (q - p) (drop p str) = mid" "length mid = q - p" using less.prems(2) by (simp_all add: mid_def drop_take)
    show e: "subst_char c r mid = mid" using less.prems(3) by (intro subst_char_none) (simp add: mid_def)
    have "take q str = take p str @ mid" using less.prems(1) by (metis append_take_drop_id mid_def min.absorb1 take_take)
    then show "subst_char c r (take q str) = u @ mid" using e by (simp add: u_def)
  qed
  have out: "subst_char c r str = u @ mid @ subst_char c r (drop q str)" using mid(4) subst_char_simps(2) [of c r "take q str" "drop q str"] by simp
  have n: "length u < len" using less.prems(4) by (simp add: u_def)
  have chk: "0 < q - p \<and> len - 1 < length u + (q - p) \<longleftrightarrow> \<not> length (u @ mid) < len" using n mid(2) by auto
  have wr: "(if 0 < q - p then overwrite (u @ ?z (len - length u)) (length u) mid else Inr (u @ ?z (len - length u))) = Inr (u @ mid @ ?z (len - length (u @ mid)))"
    if "length (u @ mid) < len" using that overwrite_tail [of mid "len - length u" u "CHR 0x00"] mid(2) less.prems(1) by (cases "q = p") (simp_all add: diff_diff_left)
  consider "q = length str" | "q < length str" "str ! q = c" | "q < length str" "str ! q \<noteq> c" using less.prems(2) by linarith
  then show ?case
  proof cases
    case 1
    have z: "(u @ mid @ ?z (len - length (u @ mid)))[length u + (q - p) := CHR 0x00] = u @ mid @ ?z (len - length (u @ mid))" if "length (u @ mid) < len"
      using that mid(2) by (cases "len - length (u @ mid)") (auto simp: list_update_append)
    show ?thesis using 1 chk wr z mid(1,2) out unfolding u_def [symmetric]
      by (subst replace_loop.simps) (auto simp: Let_def store_def)
  next
    case 2
    have d: "drop q str = c # drop (Suc q) str" using 2 by (metis Cons_nth_drop_Suc)
    have t: "subst_char c r (take (Suc q) str) = u @ mid @ r" using 2 mid(4) by (simp add: take_Suc_conv_app_nth)
    show ?thesis
    proof (cases "length (u @ mid @ r) < len")
      case True
      have cat: "strcat_at (u @ mid @ ?z (len - length (u @ mid))) (length u + (q - p)) r = Inr ((u @ mid @ r) @ ?z (len - length (u @ mid @ r)))"
        using strcat_tail [of r "len - length (u @ mid)" "u @ mid"] True mid(2) by (simp add: diff_diff_left add.assoc)
      have "replace_loop str c r len p q (length u) (u @ ?z (len - length u)) =
        replace_loop str c r len (Suc q) (Suc q) (length (u @ mid @ r)) ((u @ mid @ r) @ ?z (len - length (u @ mid @ r)))"
        using 2 chk wr True cat mid(1,2) by (subst replace_loop.simps) (auto simp: Let_def add.assoc)
      then show ?thesis using less.hyps [of "Suc q" "Suc q"] 2 True unfolding u_def [symmetric] t by simp
    next
      case False
      then show ?thesis using 2 chk wr mid(1,2) out d n unfolding u_def [symmetric]
        by (subst replace_loop.simps) (auto simp: Let_def)
    qed
  next
    case 3
    have "drop p (take (Suc q) str) = mid @ [str ! q]" using 3 less.prems(1) by (simp add: take_Suc_conv_app_nth mid_def)
    then have "c \<notin> set (drop p (take (Suc q) str))" using 3 less.prems(3) by (simp add: mid_def)
    then show ?thesis using less.hyps [of "Suc q" p] 3 less.prems(1,4) by (subst replace_loop.simps) simp
  qed
qed

text \<open>With a buffer of zeros the text with every occurrence replaced is returned exactly when it fits with its terminator.\<close>

theorem replace_char_to_str_zeroed:
  assumes "str \<noteq> []" "r \<noteq> []" "0 < len"
  shows "\<exists>b. replace_char_to_str (Some str) c (Some r) (Some (replicate len (CHR 0x00))) len = Inr (length (subst_char c r str) < len, Some b) \<and>
    (length (subst_char c r str) < len \<longrightarrow> b = subst_char c r str @ replicate (len - length (subst_char c r str)) (CHR 0x00))"
  using replace_loop_spec [of 0 0 str c r len] assms by (auto simp: replace_char_to_str_def)

theorem replace_char_to_str_zeroed_witness:
  "replace_char_to_str (Some ''a b'') (CHR '' '') (Some ''%20'') (Some (replicate 6 (CHR 0x00))) 6 = Inr (True, Some (''a%20b'' @ [CHR 0x00]))"
  using replace_char_to_str_zeroed [of "''a b''" "''%20''" 6 "CHR '' ''"] by simp

text \<open>A buffer that is not zero, as in the test: what it held before stays in the result.\<close>

lemma replace_char_to_str_dirty:
  "replace_char_to_str (Some '' '') (CHR '' '') (Some ''%20'') (Some (''x'' @ replicate 5 (CHR 0x00))) 6 = Inr (True, Some (''x%2'' @ replicate 3 (CHR 0x00)))"
  by code_simp

lemma replace_char_to_str_null: "replace_char_to_str None c r buf len = Inl NullDeref"
  by (simp add: replace_char_to_str_def)

text \<open>The runs of the two search tests.\<close>

lemma test_searches: "test_str_search_force_main = Inr (Some 24)" "test_str_search_force2_main 236 = Inr (Some 24)"
proof -
  have l: "length test_search_text = 46" "length ''good'' = 4" by (simp_all add: test_search_text_def)
  have f: "first_below 42 test_search_text ''good'' 0 = Some 24" "first_below 43 test_search_text ''good'' 0 = Some 24" by code_simp+
  have "str_search_force (test_search_text @ [CHR 0x00]) 46 (''good'' @ [CHR 0x00]) 4 = Inr 24"
    using force_loop_spec [of 42 "''good''" test_search_text "[CHR 0x00]" "[CHR 0x00]" 0, unfolded l f] by (simp add: str_search_force_def found_def)
  then show "test_str_search_force_main = Inr (Some 24)" unfolding test_str_search_force_main_def l by simp
  have "str_search_force2 236 (test_search_text @ [CHR 0x00]) 46 (''good'' @ [CHR 0x00]) 4 = Inr 24"
    using force2_loop_spec [of 0 0 test_search_text "''good''" 236 "[CHR 0x00]" "[CHR 0x00]", unfolded l] f by (simp add: str_search_force2_def found_def)
  then show "test_str_search_force2_main 236 = Inr (Some 24)" unfolding test_str_search_force2_main_def l by simp
qed

end
