(* ===== verification/Cti_Strings.thy ===== *)
theory Cti_Strings
  imports Str_Exercises
begin

text \<open>
  The exercises on strings of \<^verbatim>\<open>src/algs/cti/test_cti.cpp\<close>: compression by run lengths, the tests for different and for equal characters,
  reversal in place, replacement in place, and the Josephus problem.

  Buffers are lists of cells. The result of the compression is compared with the sequence of runs of the text; a text without digits can be read back from it.
\<close>

section \<open>Compression\<close>

text \<open>\<open>sprintf(dest + index, "%c%zu", c, count)\<close> writes a terminator too and returns the number of characters before it.\<close>

definition put_run :: "string \<Rightarrow> nat \<Rightarrow> char \<Rightarrow> nat \<Rightarrow> cerr + nat \<times> string" where
  "put_run dest index c n = bindr (overwrite dest index (c # show_nat n @ [CHR 0x00])) (\<lambda>dest. Inr (index + Suc (length (show_nat n)), dest))"

fun compress_loop :: "string \<Rightarrow> nat \<Rightarrow> char \<Rightarrow> nat \<Rightarrow> string \<Rightarrow> cerr + nat \<times> string" where
  "compress_loop dest index c n [] = put_run dest index c n"
| "compress_loop dest index c n (x # xs) =
     (if c = x then compress_loop dest index c (Suc n) xs
      else bindr (put_run dest index c n) (\<lambda>(index, dest). compress_loop dest index x 1 xs))"

definition compress_repeat_str :: "string option \<Rightarrow> string \<Rightarrow> cerr + string" where
  "compress_repeat_str src dest =
     (case src of Some (c # s) \<Rightarrow>
        bindr (compress_loop dest 0 c 1 s) (\<lambda>(index, dest).
        if Suc (length s) \<le> index then overwrite dest 0 (c # s) else Inr dest)
      | _ \<Rightarrow> Inr dest)"

section \<open>Different and equal characters\<close>

fun no_equal :: "char \<Rightarrow> string \<Rightarrow> bool" where
  "no_equal c [] \<longleftrightarrow> True"
| "no_equal c (x # xs) \<longleftrightarrow> (if x = c then False else no_equal c xs)"

fun all_diff :: "string \<Rightarrow> bool" where
  "all_diff [] \<longleftrightarrow> True"
| "all_diff (c # s) \<longleftrightarrow> (if no_equal c s then all_diff s else False)"

fun count_chars :: "(char \<rightharpoonup> nat) \<Rightarrow> string \<Rightarrow> (char \<rightharpoonup> nat)" where
  "count_chars m [] = m"
| "count_chars m (c # s) = count_chars (m(c \<mapsto> Suc (case m c of None \<Rightarrow> 0 | Some n \<Rightarrow> n))) s"

definition elements_same :: "string \<Rightarrow> string \<Rightarrow> bool" where
  "elements_same a b \<longleftrightarrow> count_chars Map.empty a = count_chars Map.empty b"

section \<open>Reversal and replacement in place\<close>

function reverse_loop :: "nat \<Rightarrow> nat \<Rightarrow> nat \<Rightarrow> string \<Rightarrow> cerr + string" where
  "reverse_loop len half i str =
     (if i < half then
        if i = len - i then Inr str else
        bindr (load str i) (\<lambda>c. bindr (load str (len - i - 1)) (\<lambda>d. bindr (store str i d) (\<lambda>str. bindr (store str (len - i - 1) c) (\<lambda>str.
        reverse_loop len half (Suc i) str))))
      else Inr str)"
  by auto
termination by (relation "measure (\<lambda>(len, half, i, str). half - i)") auto

declare reverse_loop.simps [simp del]

definition my_reverse :: "string \<Rightarrow> cerr + string" where
  "my_reverse str = bindr (str_end str 0) (\<lambda>len. reverse_loop len (len div 2) 0 str)"

text \<open>The argument \<open>off\<close> is where \<open>src\<close> points to, and is returned with the buffer.\<close>

fun cti_replace_loop :: "string \<Rightarrow> nat \<Rightarrow> nat \<Rightarrow> string \<Rightarrow> char \<Rightarrow> string \<Rightarrow> cerr + nat \<times> string" where
  "cti_replace_loop buf off i [] c r = Inr (off, buf)"
| "cti_replace_loop buf off i (x # xs) c r =
     bindr (if x = c then bindr (overwrite buf off (r @ [CHR 0x00])) (\<lambda>buf. Inr (off + length r, buf)) else Inr (off, buf)) (\<lambda>(off, buf).
     bindr (store buf (off + i) x) (\<lambda>buf. cti_replace_loop buf off (Suc i) xs c r))"

definition cti_replace_char_to_str :: "string \<Rightarrow> char \<Rightarrow> string \<Rightarrow> cerr + nat \<times> string" where
  "cti_replace_char_to_str buf c r = bindr (str_end buf 0) (\<lambda>n. cti_replace_loop buf 0 0 (take n buf) c r)"

section \<open>Josephus\<close>

fun count_off :: "nat \<Rightarrow> int list \<Rightarrow> nat \<Rightarrow> nat \<Rightarrow> nat \<Rightarrow> cerr + nat" where
  "count_off 0 child n k nxt = Inl OutOfFuel"
| "count_off (Suc fuel) child n k nxt =
     (if k = 0 then Inr nxt else
      let curr = nxt mod n in
      bindr (load child curr) (\<lambda>x. count_off fuel child n (if x \<noteq> INT_MIN then k - 1 else k) (Suc curr)))"

text \<open>\<open>nxt\<close> is \<open>curr + 1\<close>. The result is the printed children and the returned one.\<close>

fun josephus_loop :: "nat \<Rightarrow> int list \<Rightarrow> nat \<Rightarrow> nat \<Rightarrow> int \<Rightarrow> nat \<Rightarrow> int list \<Rightarrow> cerr + int list \<times> int" where
  "josephus_loop 0 child n m kickOut nxt out = Inl OutOfFuel"
| "josephus_loop (Suc fuel) child n m kickOut nxt out =
     bindr (count_off (Suc fuel) child n m nxt) (\<lambda>nxt.
     bindr (loadi child (int nxt - 1)) (\<lambda>x.
     if kickOut = 1 then Inr (out, x)
     else bindr (store child (nxt - 1) INT_MIN) (\<lambda>child. josephus_loop fuel child n m (kickOut - 1) nxt (out @ [x]))))"

definition Josephus :: "nat \<Rightarrow> int list \<Rightarrow> nat \<Rightarrow> cerr + int list \<times> int" where
  "Josephus fuel child m = josephus_loop fuel child (length child) m (int (length child) - 1) 0 []"

section \<open>What they do\<close>

lemma all_diff_distinct: "all_diff s \<longleftrightarrow> distinct s"
proof (induction s)
  case (Cons c s)
  have "no_equal c s \<longleftrightarrow> c \<notin> set s" by (induction s) auto
  then show ?case using Cons by simp
qed simp

lemma count_chars_count: "count_chars m s c = (case m c of None \<Rightarrow> if c \<in> set s then Some (count_list s c) else None | Some n \<Rightarrow> Some (n + count_list s c))"
  by (induction s arbitrary: m) (auto split: option.splits)

text \<open>The two maps are equal exactly when every character occurs as often in both texts.\<close>

lemma elements_same_mset: "elements_same a b \<longleftrightarrow> mset a = mset b"
proof -
  have "elements_same a b \<longleftrightarrow> (\<forall>c. count_list a c = count_list b c)"
    by (auto simp: elements_same_def fun_eq_iff count_chars_count count_list_0_iff split: if_splits) (metis count_list_0_iff option.distinct(1) option.inject)+
  then show ?thesis by (simp add: multiset_eq_iff count_mset)
qed

text \<open>After \<open>i\<close> exchanges the outer \<open>i\<close> cells on both sides are in place.\<close>

definition half_reversed :: "string \<Rightarrow> nat \<Rightarrow> string" where
  "half_reversed s i = map (\<lambda>j. if j < i \<or> length s \<le> j + i then s ! (length s - Suc j) else s ! j) [0..<length s]"

lemma half_reversed_step:
  assumes "i < length s div 2"
  shows "(half_reversed s i)[i := half_reversed s i ! (length s - Suc i), length s - Suc i := half_reversed s i ! i] = half_reversed s (Suc i)"
proof (rule nth_equalityI)
  fix j assume "j < length ((half_reversed s i)[i := half_reversed s i ! (length s - Suc i), length s - Suc i := half_reversed s i ! i])"
  then have j: "j < length s" by (simp add: half_reversed_def)
  consider "j = length s - Suc i" | "j = i" | "j \<noteq> i" "j \<noteq> length s - Suc i" by blast
  then show "(half_reversed s i)[i := half_reversed s i ! (length s - Suc i), length s - Suc i := half_reversed s i ! i] ! j = half_reversed s (Suc i) ! j"
    using j assms by cases (auto simp: half_reversed_def nth_list_update)
qed (simp add: half_reversed_def)

lemma reverse_loop_spec: "i \<le> length s div 2 \<Longrightarrow> reverse_loop (length s) (length s div 2) i (half_reversed s i @ z) = Inr (half_reversed s (length s div 2) @ z)"
proof (induction "length s div 2 - i" arbitrary: i)
  case 0
  then show ?case by (subst reverse_loop.simps) simp
next
  case (Suc n)
  then have i: "i < length s div 2" by simp
  then have ne: "i \<noteq> length s - i" "i < length s" "length s - Suc i < length s" by auto
  have len: "length (half_reversed s i) = length s" by (simp add: half_reversed_def)
  show ?case using Suc.hyps(1) [of "Suc i"] Suc.hyps(2) i ne len half_reversed_step [OF i]
    by (subst reverse_loop.simps) (simp add: load_in store_in nth_append list_update_append)
qed

lemma half_reversed_all: "half_reversed s (length s div 2) = rev s"
proof (rule nth_equalityI)
  fix j assume "j < length (half_reversed s (length s div 2))"
  then have j: "j < length s" by (simp add: half_reversed_def)
  have "length s - Suc j = j" if "\<not> j < length s div 2" "\<not> length s \<le> j + length s div 2" using that j by presburger
  then show "half_reversed s (length s div 2) ! j = rev s ! j" using j by (auto simp: half_reversed_def rev_nth)
qed (simp add: half_reversed_def)

lemma str_end_text: "CHR 0x00 \<notin> set s \<Longrightarrow> str_end (s @ CHR 0x00 # z) n = Inr (n + length s)"
  by (induction s arbitrary: n) auto

lemma my_reverse_rev:
  assumes "CHR 0x00 \<notin> set s"
  shows "my_reverse (s @ CHR 0x00 # z) = Inr (rev s @ CHR 0x00 # z)"
proof -
  have "half_reversed s 0 = s" by (rule nth_equalityI) (simp_all add: half_reversed_def)
  then show ?thesis using reverse_loop_spec [of 0 s "CHR 0x00 # z"] str_end_text [OF assms, of z 0] by (simp add: my_reverse_def half_reversed_all)
qed

section \<open>The compressed text\<close>

fun runs :: "char \<Rightarrow> nat \<Rightarrow> string \<Rightarrow> (char \<times> nat) list" where
  "runs c n [] = [(c, n)]"
| "runs c n (x # xs) = (if c = x then runs c (Suc n) xs else (c, n) # runs x 1 xs)"

definition rle :: "(char \<times> nat) list \<Rightarrow> string" where
  "rle rs = concat (map (\<lambda>(c, n). c # show_nat n) rs)"

text \<open>Reading a compressed text.\<close>

function unrle :: "string \<Rightarrow> string" where
  "unrle [] = []"
| "unrle (c # s) = replicate (read_digits (takeWhile isdigit s)) c @ unrle (dropWhile isdigit s)"
  by pat_completeness auto
termination by (relation "measure length") (auto simp: length_dropWhile_le le_imp_less_Suc)

lemma rle_simps [simp]: "rle [] = []" "rle ((c, n) # rs) = c # show_nat n @ rle rs"
  by (simp_all add: rle_def)

lemma runs_ne: "\<exists>m. \<exists>rs. runs c n s = (c, m) # rs"
  by (induction s arbitrary: n) auto

lemma unrle_runs: "\<not> isdigit c \<Longrightarrow> list_all (\<lambda>x. \<not> isdigit x) s \<Longrightarrow> unrle (rle (runs c n s)) = replicate n c @ s"
proof (induction s arbitrary: c n)
  case (Cons x s)
  show ?case
  proof (cases "c = x")
    case True
    then show ?thesis using Cons by (simp add: replicate_app_Cons_same)
  next
    case False
    obtain m rs where r: "runs x 1 s = (x, m) # rs" using runs_ne by blast
    have e: "ends_number (rle (runs x 1 s))" using r Cons.prems(2) by (simp add: ends_number_def)
    show ?thesis using False Cons.IH [of x 1] Cons.prems e by (simp add: takeWhile_show dropWhile_show read_show_nat)
  qed
next
  case Nil
  have "ends_number []" by (simp add: ends_number_def)
  note t = takeWhile_show [OF this, of n, unfolded append_Nil2] dropWhile_show [OF this, of n, unfolded append_Nil2]
  show ?case by (simp add: t read_show_nat)
qed

lemma put_run_in:
  "Suc (length (show_nat n)) < length z \<Longrightarrow>
   put_run (u @ z) (length u) c n = Inr (length (u @ c # show_nat n), (u @ c # show_nat n) @ CHR 0x00 # drop (Suc (Suc (length (show_nat n)))) z)"
  by (simp add: put_run_def overwrite_def)

lemma compress_loop_spec:
  "length (rle (runs c n s)) < length z \<Longrightarrow>
   compress_loop (u @ z) (length u) c n s = Inr (length (u @ rle (runs c n s)), u @ rle (runs c n s) @ CHR 0x00 # drop (Suc (length (rle (runs c n s)))) z)"
proof (induction s arbitrary: c n u z)
  case Nil
  then show ?case using put_run_in [of n z u c] by simp
next
  case (Cons x s)
  show ?case
  proof (cases "c = x")
    case True
    then show ?thesis using Cons by simp
  next
    case False
    let ?u = "u @ c # show_nat n" let ?z = "CHR 0x00 # drop (Suc (Suc (length (show_nat n)))) z"
    have "put_run (u @ z) (length u) c n = Inr (length ?u, ?u @ ?z)" using put_run_in [of n z u c] Cons.prems False by simp
    then show ?thesis using Cons.IH [of x 1 ?z ?u] Cons.prems False by (simp add: add.commute add.left_commute)
  qed
qed

text \<open>A buffer that holds the compressed text: when it is shorter than the text it is the result, with a terminator, and a text without digits can
  be read back from it. Otherwise the text is copied over it without a terminator, and the rest of the compressed text stays behind it.\<close>

theorem compress_repeat_str_roundtrip:
  assumes "\<not> isdigit c" "list_all (\<lambda>x. \<not> isdigit x) s" "length (rle (runs c 1 s)) < length dest"
  shows "\<exists>z. compress_repeat_str (Some (c # s)) dest =
      Inr (if length (rle (runs c 1 s)) < Suc (length s) then rle (runs c 1 s) @ CHR 0x00 # z else (c # s) @ drop (Suc (length s)) (rle (runs c 1 s)) @ CHR 0x00 # z) \<and>
    unrle (rle (runs c 1 s)) = c # s"
proof -
  let ?r = "rle (runs c 1 s)" let ?z = "drop (Suc (length ?r)) dest"
  have l: "compress_loop dest 0 c 1 s = Inr (length ?r, ?r @ CHR 0x00 # ?z)" using compress_loop_spec [of c 1 s dest "[]"] assms(3) by simp
  show ?thesis using l unrle_runs [OF assms(1,2), of 1] assms(3)
    by (intro exI [of _ ?z]) (auto simp: compress_repeat_str_def overwrite_def not_less)
qed

theorem compress_repeat_str_roundtrip_witness:
  "\<exists>z. compress_repeat_str (Some ''aaaab'') (replicate 6 (CHR ''?'')) = Inr (''a4b1'' @ CHR 0x00 # z)"
proof -
  have r: "rle (runs (CHR ''a'') 1 ''aaab'') = ''a4b1''" by code_simp
  have "list_all (\<lambda>x. \<not> isdigit x) ''aaab''" "\<not> isdigit (CHR ''a'')" by code_simp+
  with compress_repeat_str_roundtrip [of "CHR ''a''" "''aaab''" "replicate 6 (CHR ''?'')"] show ?thesis unfolding r by auto
qed

text \<open>Faults of the other exercises: a text that does not get shorter, a replacement that writes behind the argument, and the child that would go out
  next instead of the last one.\<close>

lemma compress_no_end: "compress_repeat_str (Some ''abc'') (replicate 8 (CHR 0x00)) = Inr (''abc1c1'' @ [CHR 0x00, CHR 0x00])"
  by code_simp

lemma cti_replace_outside: "cti_replace_char_to_str (''a b'' @ [CHR 0x00]) (CHR '' '') ''%20'' = Inl OutOfBounds"
  by code_simp

lemma Josephus_victim: "Josephus 3 [1, 2, 3] 1 = Inr ([1], 2)"
  by code_simp

lemma count_off_none: "count_off fuel [INT_MIN] 1 (Suc k) nxt = Inl OutOfFuel"
  by (induction fuel arbitrary: nxt) (simp_all add: load_def)

lemma Josephus_one_child: "Josephus fuel [x] 1 = Inl OutOfFuel"
proof (cases fuel)
  case (Suc f)
  have "josephus_loop f [INT_MIN] 1 1 k 1 out = Inl OutOfFuel" for k out using count_off_none [of f 0 1] by (cases f) (simp_all del: count_off.simps add: count_off_none [of _ 0, simplified])
  then show ?thesis using Suc count_off_none [of f 0 1] by (cases f) (auto simp: Josephus_def load_def loadi_def store_def)
qed (simp add: Josephus_def)

end
