(* ===== verification/Spec2Isabelle.thy ===== *)
theory Spec2Isabelle
  imports Array_Sort UF_Files Radix_Tree Bs23_Tree Bs_Tree Tree_Print Hex_Dump Checksums Phx_Echo Pools RB_Tree_Correct List_Merge_Sort Chess_Board Tries Graph_Reverse Jz_Offer
    Contest_Problems Rod_Cutting Activities Sidecar_Server Xhsdk_Server Epoll_Server Echo_Clients Http2_Client Cti_Sorts Cti_Postfix Cti_Exercises Cti_Strings
begin

text \<open>
  Verification of the programs of the repository \<open>cpp-test\<close>: a collection of algorithms from text books, memory pools, a
  board game, and small servers and clients, in C and C++. All paths below are under \<^verbatim>\<open>src/src/\<close>.

  \<^bold>\<open>How the programs are modelled.\<close> A function of the source is a function here, with the same name where HOL allows it.
  \<^verbatim>\<open>C_Prelude\<close> holds what is used of the languages: a run gives a value or stops with a \<open>cerr\<close> (a null dereference,
  an access outside an array, the use of an unset value, signed overflow, the end of a function without a \<open>return\<close>, a failed assertion, a call of \<open>exit\<close>, a loop that does not end), and \<open>bindr\<close> puts runs one after the
  other. Heaps are maps from addresses to records, arrays are lists with checked access, \<open>int\<close> arithmetic fails when it
  leaves 32 bits, \<open>size_t\<close> wraps round. \<^verbatim>\<open>C_Text\<close> has the conversions of \<open>printf\<close> and \<open>scanf\<close>.
  Functions that the source gets from elsewhere (allocation, system calls, the cvector library, libevent, nghttp2) are parameters, and
  what the code relies on is a hypothesis with a name.

  \<^bold>\<open>Components.\<close>
  \<^item> Dynamic connectivity, \<^verbatim>\<open>algs/algorithms4th/1.5.c\<close>, in \<^verbatim>\<open>Weighted_Quick_Union\<close>: the object \<open>wqu\<close> with its two vectors, growth, find,
    union, queries and the test scenarios. Loading pairs gives exactly their equivalence closure; a find
    reads logarithmically many cells; the locale \<open>dyn_connectivity\<close> states the contract. \<^verbatim>\<open>UF_Files\<close> has the part of the test
    that loads a data file, and its composition with the text conversions, for files whose number of pairs leaves the counter of the loop inside \<open>int\<close>.
  \<^item> Array merge sort, \<^verbatim>\<open>algs/algorithms4th/sort.c\<close>, in \<^verbatim>\<open>Array_Sort\<close>: sorted result, the rest of the array untouched, stability, below \<open>2 ^ 29\<close> elements, where the
    product with the element size leaves \<open>int\<close>;
    the locale \<open>sort_opt\<close> is what the sort needs of its callbacks.
  \<^item> Pools, \<^verbatim>\<open>algs/node_pool.cpp\<close>, \<^verbatim>\<open>algs/tdarr.cpp\<close>, \<^verbatim>\<open>mem_pool/mem_pool.c\<close>, \<^verbatim>\<open>mmpool/mmpool.c\<close>, in \<^verbatim>\<open>Pools\<close>: every
    allocation is fresh and inside its row (locale \<open>fresh_alloc\<close>, with one interpretation for each pool), what freeing does, and which row leaks.
  \<^item> Red-black tree, \<^verbatim>\<open>algs/intro_to_algs3th/rb_tree.cpp\<close>: the pointer program in \<^verbatim>\<open>RB_Tree\<close>, its simulation by a tree
    datatype in \<^verbatim>\<open>RB_Tree_Refine\<close>, and in \<^verbatim>\<open>RB_Tree_Correct\<close> the shape invariant, lookup, sorted walk and the logarithmic bound, for any
    comparison in the locale \<open>node_order\<close>.
  \<^item> List merge sorts, \<^verbatim>\<open>algs/merge_sort_link_list/*.c\<close>, in \<^verbatim>\<open>List_Merge_Sort\<close>: both sorts on a heap of linked nodes, linear or circular, singly or
    doubly linked (locale \<open>list_sorter\<close>), and the test rig of the first.
  \<^item> Gobang, \<^verbatim>\<open>chess/chess_core.cpp\<close>, in \<^verbatim>\<open>Chess_Board\<close>: the search reports a row of stones exactly when there is one and marks such a row, on
    boards whose cells can be numbered in an \<open>int\<close> (\<open>dims_ok\<close>).
  \<^item> Tries, \<^verbatim>\<open>algs/trie_st.cpp\<close>, in \<^verbatim>\<open>Tries\<close>: the 256-way trie and the ternary trie as symbol tables (locale \<open>key_store\<close>).
  \<^item> Graphs, \<^verbatim>\<open>algs/algorithms4th/graph.cpp\<close>: the adjacency structure on top of the red-black tree and the node pools in
    \<^verbatim>\<open>Graph_Core\<close> (locale \<open>adjacency\<close>), reading and printing graph files in \<^verbatim>\<open>Graph_IO\<close>, depth-first search and the reversed copy in \<^verbatim>\<open>Graph_Search\<close>, reversal
    in place, which is right when the edges descend and loses edges otherwise, in \<^verbatim>\<open>Graph_Reverse\<close>.
    These theorems span the tree, the pools, the text conversions and the graph operations. Each of them has two parts: what the operations do for a client
    whose callback \<open>graph_bag_new\<close> sets the count of edges of a new bag, as they need it, and that with the callback of \<^verbatim>\<open>test_graph.cpp\<close>, which leaves it unset, they
    read an unset value.
  \<^item> Interview exercises, \<^verbatim>\<open>algs/jzoffer/\<close>, in \<^verbatim>\<open>Jz_Offer\<close>: a tree from its two traversals, search in a sorted matrix, printing a
    list backwards.
  \<^item> Contest exercises, \<^verbatim>\<open>algs/9787302356288/\<close>, in \<^verbatim>\<open>Contest_Problems\<close>: three solvers for path sums agree; the simulation of falling balls
    agrees with following the last ball.
  \<^item> Rod cutting and activity selection, \<^verbatim>\<open>algs/intro_to_algs3th/dynamic_programming.cpp\<close> and \<^verbatim>\<open>16.c\<close>, in \<^verbatim>\<open>Rod_Cutting\<close> and \<^verbatim>\<open>Activities\<close>: the optimum
    with a way to reach it; a compatible selection that cannot be extended.
  \<^item> Socket programs. \<^verbatim>\<open>Sockets\<close> has the descriptor sets, the trace of system calls and the client table shared by two servers. The
    loop body of a server is a function of the answers its calls get in one round. \<^verbatim>\<open>Sidecar_Server\<close> (\<^verbatim>\<open>springboot-sidecar/select-srv.cpp\<close>):
    the trace follows the life of every connection and the table is exactly the open connections; a descriptor from 1024 on is put outside the descriptor set. \<^verbatim>\<open>Xhsdk_Server\<close>
    (\<^verbatim>\<open>algs/xhsdk_select_server.cpp\<close>): one client at most, and the end of the server with it. \<^verbatim>\<open>Epoll_Server\<close> (\<^verbatim>\<open>api_poll/hello_epoll.c\<close>): replies never
    outnumber reads, no connection is ever closed. \<^verbatim>\<open>Echo_Clients\<close> (\<^verbatim>\<open>algs/tcp_echo_cli.c\<close>, \<^verbatim>\<open>algs/udp_echo_cli.c\<close>): the numbered messages.
  \<^item> HTTP/2 client, \<^verbatim>\<open>nghhtp2/libevent-client.c\<close>, in \<^verbatim>\<open>Http2_Client\<close>: the request built from a URL in buffers that are large enough, and
    a session that is torn down exactly once over all sequences of callbacks; the undefined behaviour for a URL without host or scheme, and when h2 is not negotiated, is part of the statements.
  \<^item> Radix tree, \<^verbatim>\<open>algs/intro_to_algs3th/radix_tree.cpp\<close>, in \<^verbatim>\<open>Radix_Tree\<close>: insertion of keys on a heap of nodes, and the in-order walk, a
    function that nothing calls; it prints the keys below 256 in the order of their bits from the lowest on, which is not the order of the numbers or of the texts.
  \<^item> 2-3 tree, \<^verbatim>\<open>algs/algorithms4th/bs23tree.cpp\<close>, in \<^verbatim>\<open>Bs23_Tree\<close>: the unfinished insertion as it is written, and which of the
    inserted keys its search finds and misses.
  \<^item> Binary search tree, \<^verbatim>\<open>algs/intro_to_algs3th/test_binary_search_tree.cpp\<close>, in \<^verbatim>\<open>Bs_Tree\<close>: insertion, deletion with parent pointers, search and walk; any
    insertions and deletions have the effect of the same commands on a sorted list (locale \<open>node_set\<close>).
  \<^item> Heaps and sorts of \<^verbatim>\<open>algs/cti/\<close>. \<^verbatim>\<open>Cti_Heap\<close> (\<^verbatim>\<open>test_cti_heap.cpp\<close>): for which arrays the heap sort sorts, the class \<open>BinaryHeap\<close> and where it loses
    the order, a rod cutting program that does not cut. \<^verbatim>\<open>Cti_Sorts\<close> (\<^verbatim>\<open>test_cti_heap.cpp\<close>, \<^verbatim>\<open>test_cti.cpp\<close>): quicksort, merge sort and insertion sort agree; the
    first two through the locale \<open>segment_sort\<close>.
  \<^item> Other exercises of \<^verbatim>\<open>algs/cti/test_cti.cpp\<close>. \<^verbatim>\<open>Cti_Exercises\<close>: the two programs for the largest sum of a part agree, binary search with its read behind
    the array, greatest common divisor, towers of Hanoi. \<^verbatim>\<open>Cti_Postfix\<close>: an expression is converted to the postorder of its tree, and the calculator
    evaluates the tree with the operands exchanged. \<^verbatim>\<open>Cti_Strings\<close>: compression by run lengths with its round trip, reversal, tests on characters, the Josephus problem.
  \<^item> String exercises, \<^verbatim>\<open>algs/jzoffer/test_string.cpp\<close>, in \<^verbatim>\<open>Str_Exercises\<close>: two searches for a pattern and where they differ, key-indexed counting as a
    stable sort, the sort of strings that only sorts by the first character, replacement of a character in a buffer.
  \<^item> Tree drawing, \<^verbatim>\<open>algs/intro_to_algs3th/tree_print.cpp\<close>, in \<^verbatim>\<open>Tree_Print\<close>: the breadth-first loop over the pointers of a red-black tree prints
    the levels of the tree that the pointers represent.
  \<^item> Texts of bytes, \<^verbatim>\<open>hexdump.cpp\<close> in \<^verbatim>\<open>Hex_Dump\<close> (the bytes can be read back from the dump) and \<^verbatim>\<open>openssl/chksum.cpp\<close> in \<^verbatim>\<open>Checksums\<close> (the three
    ways to print a digest agree).
  \<^item> Paxos echo service, \<^verbatim>\<open>phxecho/\<close>, in \<^verbatim>\<open>Phx_Echo\<close>: the addresses of the command line, the server, its state machine and the
    endless loop of the program over a replication library that is a parameter; in any number of rounds every request is echoed as the hypothesis on that library promises.

  \<^bold>\<open>Bounds and fuel.\<close> A loop that need not end has a bound on its rounds as an argument, and the theorems say which bound is enough, so
  that they show termination: \<open>(n + 3)\<^sup>2\<close> for the loops of a red-black tree with \<open>n\<close> insertions, twice the length of
  the list for the list sorts, the number of edges and one for the loop over a graph file, the number of vertices for the depth of the search, \<open>2m\<^sup>2 + 2m + 2\<close> for
  the search in an \<open>m\<close> by \<open>m\<close> matrix, the depth of the tree for a falling ball, 10 for the walk of a radix tree of depth 9 at most, the
  number of keys and one for the 2-3 tree and the binary search tree, one round for each node in a drawing, \<open>(n + 1)(m + 1) + 1\<close> for the search of a pattern of length \<open>m\<close> in a text of length \<open>n\<close>, a sixteenth of the size and one for the dump, \<open>f - s + 1\<close> for the selection in the interval from \<open>s\<close> to \<open>f\<close>. The
  theorem \<open>graph_init_hangs\<close> states that no bound is enough. The servers run for as long as there are answers. The pools
  are limited to the number of rows their \<open>int\<close> counters can hold.

  \<^bold>\<open>Not modelled.\<close> Log and progress output of the servers and pools; timing tests; the demonstrations of
  the second and third list sort, which need the list macros of a library outside the repository; demonstrations of graphics, multimedia, database and device libraries, which have no logic of their own; the headers under \<^verbatim>\<open>src/deps\<close>, which
  are other projects.
\<close>

end
